(* ===== verification/Prelude.thy ===== *)
theory Prelude
  imports Main "HOL-Library.Word"
begin

unbundle bit_operations_syntax

text \<open>
  Shared vocabulary of the development.

  The C sources compute with \<open>size_t\<close> / \<open>uint64_t\<close> values (64 bits, wrap-around). Where a
  function of the model works on such a value as a natural number, every operation that can
  wrap in C is one of \<open>add64\<close>, \<open>sub64\<close>, \<open>mul64\<close>, which write the reduction modulo
  \<open>2 ^ 64\<close> out; division and remainder cannot wrap and are \<open>div\<close> and \<open>mod\<close>. Values that are
  manipulated bit by bit (bytes of a bitset, device registers, hashes) are \<open>'w word\<close>.

  \<open>c_arith\<close> collects the conditional rules that remove the wrap-around where the operands
  are in range, \<open>bit_view\<close> the rules that describe a byte-level operation by its effect on
  single bits.
\<close>

named_theorems c_arith "removal of wrap-around for operands in range"
named_theorems bit_view "effect of a byte-level operation on single bits"

subsection \<open>64-bit unsigned arithmetic on natural numbers\<close>

definition add64 :: "nat \<Rightarrow> nat \<Rightarrow> nat" where
  "add64 a b = (a + b) mod 2 ^ 64"

definition sub64 :: "nat \<Rightarrow> nat \<Rightarrow> nat" where
  "sub64 a b = (a + (2 ^ 64 - b mod 2 ^ 64)) mod 2 ^ 64"

definition mul64 :: "nat \<Rightarrow> nat \<Rightarrow> nat" where
  "mul64 a b = (a * b) mod 2 ^ 64"

text \<open>
  \<open>1u << k\<close> is a 32-bit and \<open>1ul << k\<close> a 64-bit shift. A shift by the width or more is
  undefined in C; the theorems keep the amount below the width.
\<close>

definition shl32 :: "nat \<Rightarrow> nat" where
  "shl32 k = 2 ^ k mod 2 ^ 32"

definition shl64 :: "nat \<Rightarrow> nat" where
  "shl64 k = 2 ^ k mod 2 ^ 64"

lemma add64_small [c_arith]: "a + b < 2 ^ 64 \<Longrightarrow> add64 a b = a + b"
  by (simp add: add64_def)

lemma mul64_small [c_arith]: "a * b < 2 ^ 64 \<Longrightarrow> mul64 a b = a * b"
  by (simp add: mul64_def)

lemma sub64_small [c_arith]:
  assumes "b \<le> a" "a < 2 ^ 64"
  shows "sub64 a b = a - b"
proof -
  have "a + (2 ^ 64 - b) = 2 ^ 64 + (a - b)" using assms by simp
  moreover have "(2 ^ 64 + (a - b)) mod 2 ^ 64 = a - b"
    using assms by (simp only: mod_add_self1) simp
  moreover have "b mod 2 ^ 64 = b" using assms by simp
  ultimately show ?thesis by (simp only: sub64_def)
qed

lemma shl32_small [c_arith]: "k < 32 \<Longrightarrow> shl32 k = 2 ^ k"
proof -
  assume "k < 32"
  then have "(2::nat) ^ k < 2 ^ 32" by (rule power_strict_increasing) simp
  then show ?thesis by (simp add: shl32_def)
qed

lemma shl64_small [c_arith]: "k < 64 \<Longrightarrow> shl64 k = 2 ^ k"
proof -
  assume "k < 64"
  then have "(2::nat) ^ k < 2 ^ 64" by (rule power_strict_increasing) simp
  then show ?thesis by (simp add: shl64_def)
qed

lemma add64_less [simp]: "add64 a b < 2 ^ 64"
  by (simp add: add64_def)

lemma mul64_less [simp]: "mul64 a b < 2 ^ 64"
  by (simp add: mul64_def)

lemma sub64_less [simp]: "sub64 a b < 2 ^ 64"
  by (simp add: sub64_def)

subsection \<open>Arithmetic facts the components share\<close>

lemma pow2_bound31:
  fixes i :: nat
  assumes "i < 2 ^ n" "n \<le> 31"
  shows "i < 2147483648"
proof -
  have "(2::nat) ^ n \<le> 2 ^ 31" using assms(2) by (rule power_increasing) simp
  then show ?thesis using assms(1) by simp
qed

lemma bit_of_byte_less [simp]: "bit (b :: 8 word) i \<Longrightarrow> i < 8"
  using bit_imp_le_length [of b i] by simp

lemma less_8_iff: "(n::nat) < 8 \<longleftrightarrow>
    n = 7 \<or> n = 6 \<or> n = 5 \<or> n = 4 \<or> n = 3 \<or> n = 2 \<or> n = 1 \<or> n = 0"
  by auto

lemma less_16_cases: "(n::nat) < 16 \<Longrightarrow>
    n = 15 \<or> n = 14 \<or> n = 13 \<or> n = 12 \<or> n = 11 \<or> n = 10 \<or> n = 9 \<or> n = 8 \<or>
    n = 7 \<or> n = 6 \<or> n = 5 \<or> n = 4 \<or> n = 3 \<or> n = 2 \<or> n = Suc 0 \<or> n = 0"
  by (auto simp: less_Suc_eq numeral_eq_Suc)

subsection \<open>Outcomes\<close>

text \<open>
  A call that may fail to return or may stop the core has an \<open>outcome\<close>: \<open>None\<close> when it never
  returns, \<open>Some (Inl e)\<close> when it ends in \<open>Core::panic\<close> (which hangs the core after printing
  its message), \<open>Some (Inr x)\<close> when it returns \<open>x\<close>.
\<close>

datatype error = Panic string

type_synonym 'a outcome = "(error + 'a) option"

definition ok :: "'a \<Rightarrow> 'a outcome" where
  "ok x = Some (Inr x)"

definition panic :: "string \<Rightarrow> 'a outcome" where
  "panic msg = Some (Inl (Panic msg))"

definition andthen :: "'a outcome \<Rightarrow> ('a \<Rightarrow> 'b outcome) \<Rightarrow> 'b outcome" where
  "andthen m f = (case m of None \<Rightarrow> None | Some (Inl e) \<Rightarrow> Some (Inl e) | Some (Inr x) \<Rightarrow> f x)"

definition lift_opt :: "'a option \<Rightarrow> 'a outcome" where
  "lift_opt m = map_option Inr m"

lemma andthen_simps [simp]:
  "andthen (ok x) f = f x" "andthen (panic msg) f = panic msg" "andthen None f = None"
  "andthen (Some (Inr x)) f = f x" "andthen (Some (Inl e)) f = Some (Inl e)"
  by (simp_all add: andthen_def ok_def panic_def)

lemma lift_opt_simps [simp]: "lift_opt (Some x) = ok x" "lift_opt None = None"
  by (simp_all add: lift_opt_def ok_def)

lemma ok_eq [simp]: "ok x = ok y \<longleftrightarrow> x = y" "panic msg \<noteq> ok x" "ok x \<noteq> panic msg"
  by (auto simp: ok_def panic_def)

end
