(* ===== verification/Mmu.thy ===== *)
theory Mmu
  imports Prelude
begin

text \<open>
  The page tables of the kernel: the constants of \<open>src/include/MMU.h\<close> and the code of
  \<open>src/boot/boot.S\<close> that fills the tables (\<open>memzero\<close>, the macros \<open>create_table_entry\<close> and
  \<open>create_block_map\<close>, \<open>map_identity\<close>, \<open>map_high\<close>).

  The assembler computes with 64 bits, and so do the definitions. The memory is a function from the
  addresses of aligned double words to their contents: every load and store of this code is an
  aligned double word. Registers are the variables of the definitions; the address the linker gives
  to \<open>id_pg_dir\<close> and \<open>high_pg_dir\<close> is a parameter.

  The last part says how the processor reads the tables. It is the description in the architecture
  manual (48-bit addresses, 4 KB granule, four levels), not code of the kernel.
\<close>

type_synonym ram = "64 word \<Rightarrow> 64 word"

subsection \<open>Constants\<close>

definition LINEAR_MAP_BASE :: "64 word" where "LINEAR_MAP_BASE = 0xffff000000000000"

definition TD_VALID :: "64 word" where "TD_VALID = push_bit 0 1"
definition TD_BLOCK :: "64 word" where "TD_BLOCK = push_bit 1 0"
definition TD_PAGE :: "64 word" where "TD_PAGE = push_bit 1 1"
definition TD_TABLE :: "64 word" where "TD_TABLE = push_bit 1 1"
definition TD_ACCESS :: "64 word" where "TD_ACCESS = push_bit 10 1"
definition TD_KERNEL_PERMS :: "64 word" where "TD_KERNEL_PERMS = push_bit 54 1"
definition TD_USER_PERMS :: "64 word" where "TD_USER_PERMS = push_bit 6 1"
definition TD_OUTER_SHARABLE :: "64 word" where "TD_OUTER_SHARABLE = push_bit 8 3"

definition MATTR_DEVICE_nGnRnE :: "64 word" where "MATTR_DEVICE_nGnRnE = 0x0"
definition MATTR_NORMAL_NC :: "64 word" where "MATTR_NORMAL_NC = 0xFF"
definition MATTR_DEVICE_nGnRnE_INDEX :: nat where "MATTR_DEVICE_nGnRnE_INDEX = 0"
definition MATTR_NORMAL_NC_INDEX :: nat where "MATTR_NORMAL_NC_INDEX = 1"

definition TD_KERNEL_TABLE_FLAGS :: "64 word" where
  "TD_KERNEL_TABLE_FLAGS = TD_TABLE OR TD_VALID"

definition TD_KERNEL_BLOCK_FLAGS :: "64 word" where
  "TD_KERNEL_BLOCK_FLAGS = TD_ACCESS OR TD_OUTER_SHARABLE OR TD_KERNEL_PERMS OR
     push_bit 2 (of_nat MATTR_NORMAL_NC_INDEX) OR TD_BLOCK OR TD_VALID"

definition TD_DEVICE_BLOCK_FLAGS :: "64 word" where
  "TD_DEVICE_BLOCK_FLAGS = TD_ACCESS OR TD_OUTER_SHARABLE OR TD_KERNEL_PERMS OR
     push_bit 2 (of_nat MATTR_DEVICE_nGnRnE_INDEX) OR TD_BLOCK OR TD_VALID"

definition TD_USER_TABLE_FLAGS :: "64 word" where
  "TD_USER_TABLE_FLAGS = TD_TABLE OR TD_VALID"

definition TD_USER_PAGE_FLAGS :: "64 word" where
  "TD_USER_PAGE_FLAGS = TD_ACCESS OR TD_OUTER_SHARABLE OR TD_USER_PERMS OR
     push_bit 2 (of_nat MATTR_NORMAL_NC_INDEX) OR TD_PAGE OR TD_VALID"

definition MAIR_EL1_VAL :: "64 word" where
  "MAIR_EL1_VAL = push_bit (8 * MATTR_NORMAL_NC_INDEX) MATTR_NORMAL_NC OR
     push_bit (8 * MATTR_DEVICE_nGnRnE_INDEX) MATTR_DEVICE_nGnRnE"

definition TCR_TG1_4K :: "64 word" where "TCR_TG1_4K = push_bit 30 2"
definition TCR_T1SZ :: "64 word" where "TCR_T1SZ = push_bit 16 (64 - 48)"
definition TCR_TG0_4K :: "64 word" where "TCR_TG0_4K = push_bit 14 0"
definition TCR_T0SZ :: "64 word" where "TCR_T0SZ = 64 - 48"

definition TCR_EL1_VAL :: "64 word" where
  "TCR_EL1_VAL = TCR_TG1_4K OR TCR_T1SZ OR TCR_TG0_4K OR TCR_T0SZ"

definition PAGE_MASK :: "64 word" where "PAGE_MASK = 0xfffffffffffff000"
definition PAGE_SHIFT :: nat where "PAGE_SHIFT = 12"
definition TABLE_SHIFT :: nat where "TABLE_SHIFT = 9"
definition SECTION_SHIFT :: nat where "SECTION_SHIFT = PAGE_SHIFT + TABLE_SHIFT"
definition PAGE_SIZE :: "64 word" where "PAGE_SIZE = push_bit PAGE_SHIFT 1"
definition SECTION_SIZE :: "64 word" where "SECTION_SIZE = push_bit SECTION_SHIFT 1"

definition ID_MAP_PAGES :: "64 word" where "ID_MAP_PAGES = 3"
definition HIGH_MAP_PAGES :: "64 word" where "HIGH_MAP_PAGES = 6"
definition ID_MAP_TABLE_SIZE :: "64 word" where "ID_MAP_TABLE_SIZE = ID_MAP_PAGES * PAGE_SIZE"
definition HIGH_MAP_TABLE_SIZE :: "64 word" where "HIGH_MAP_TABLE_SIZE = HIGH_MAP_PAGES * PAGE_SIZE"
definition ENTRIES_PER_TABLE :: "64 word" where "ENTRIES_PER_TABLE = 512"
definition PGD_SHIFT :: nat where "PGD_SHIFT = PAGE_SHIFT + 3 * TABLE_SHIFT"
definition PUD_SHIFT :: nat where "PUD_SHIFT = PAGE_SHIFT + 2 * TABLE_SHIFT"
definition PMD_SHIFT :: nat where "PMD_SHIFT = PAGE_SHIFT + TABLE_SHIFT"
definition PUD_ENTRY_MAP_SIZE :: "64 word" where "PUD_ENTRY_MAP_SIZE = push_bit PUD_SHIFT 1"
definition ID_MAP_SIZE :: "64 word" where "ID_MAP_SIZE = 8 * SECTION_SIZE"

definition HIGH_MAP_FIRST_START :: "64 word" where "HIGH_MAP_FIRST_START = 0x0 + LINEAR_MAP_BASE"
definition HIGH_MAP_FIRST_END :: "64 word" where "HIGH_MAP_FIRST_END = 0x3F400000 + LINEAR_MAP_BASE"
definition HIGH_MAP_SECOND_START :: "64 word" where "HIGH_MAP_SECOND_START = 0x40000000 + LINEAR_MAP_BASE"
definition HIGH_MAP_SECOND_END :: "64 word" where "HIGH_MAP_SECOND_END = 0x80000000 + LINEAR_MAP_BASE"
definition HIGH_MAP_THIRD_START :: "64 word" where "HIGH_MAP_THIRD_START = 0x80000000 + LINEAR_MAP_BASE"
definition HIGH_MAP_THIRD_END :: "64 word" where "HIGH_MAP_THIRD_END = 0xC0000000 + LINEAR_MAP_BASE"
definition HIGH_MAP_FOURTH_START :: "64 word" where "HIGH_MAP_FOURTH_START = 0xC0000000 + LINEAR_MAP_BASE"
definition HIGH_MAP_FOURTH_END :: "64 word" where "HIGH_MAP_FOURTH_END = 0xFC000000 + LINEAR_MAP_BASE"
definition HIGH_MAP_DEVICE_START :: "64 word" where "HIGH_MAP_DEVICE_START = 0xFC000000 + LINEAR_MAP_BASE"
definition HIGH_MAP_DEVICE_END :: "64 word" where "HIGH_MAP_DEVICE_END = 0x100000000 + LINEAR_MAP_BASE"

definition FIRST_START :: "64 word" where "FIRST_START = 0x0"
definition FIRST_END :: "64 word" where "FIRST_END = 0x3F400000"
definition SECOND_START :: "64 word" where "SECOND_START = 0x40000000"
definition SECOND_END :: "64 word" where "SECOND_END = 0x80000000"
definition THIRD_START :: "64 word" where "THIRD_START = 0x80000000"
definition THIRD_END :: "64 word" where "THIRD_END = 0xC0000000"
definition FOURTH_START :: "64 word" where "FOURTH_START = 0xC0000000"
definition FOURTH_END :: "64 word" where "FOURTH_END = 0xFC000000"
definition DEVICE_START :: "64 word" where "DEVICE_START = 0xFC000000"
definition DEVICE_END :: "64 word" where "DEVICE_END = 0x100000000"

lemmas shift_defs = PAGE_SHIFT_def TABLE_SHIFT_def SECTION_SHIFT_def PGD_SHIFT_def PUD_SHIFT_def
  PMD_SHIFT_def MATTR_DEVICE_nGnRnE_INDEX_def MATTR_NORMAL_NC_INDEX_def

lemmas range_defs = LINEAR_MAP_BASE_def HIGH_MAP_FIRST_START_def HIGH_MAP_FIRST_END_def
  HIGH_MAP_SECOND_START_def HIGH_MAP_SECOND_END_def HIGH_MAP_THIRD_START_def HIGH_MAP_THIRD_END_def
  HIGH_MAP_FOURTH_START_def HIGH_MAP_FOURTH_END_def HIGH_MAP_DEVICE_START_def HIGH_MAP_DEVICE_END_def
  FIRST_START_def SECOND_START_def THIRD_START_def FOURTH_START_def DEVICE_START_def

lemmas flag_defs = TD_VALID_def TD_BLOCK_def TD_PAGE_def TD_TABLE_def TD_ACCESS_def TD_KERNEL_PERMS_def
  TD_OUTER_SHARABLE_def

lemma constant_values:
  "PAGE_SIZE = 4096" "SECTION_SIZE = 0x200000" "ENTRIES_PER_TABLE - 1 = 511"
  "ID_MAP_TABLE_SIZE = 12288" "HIGH_MAP_TABLE_SIZE = 24576" "ID_MAP_SIZE = 0x1000000"
  "PUD_ENTRY_MAP_SIZE = 0x40000000" "TD_KERNEL_TABLE_FLAGS = 3"
  "TD_KERNEL_BLOCK_FLAGS = 0x40000000000705" "TD_DEVICE_BLOCK_FLAGS = 0x40000000000701"
  "MAIR_EL1_VAL = 0xFF00" "TCR_EL1_VAL = 0x80100010"
  by (simp_all add: shift_defs flag_defs PAGE_SIZE_def SECTION_SIZE_def ENTRIES_PER_TABLE_def
      ID_MAP_PAGES_def HIGH_MAP_PAGES_def ID_MAP_TABLE_SIZE_def HIGH_MAP_TABLE_SIZE_def ID_MAP_SIZE_def
      PUD_ENTRY_MAP_SIZE_def TD_KERNEL_TABLE_FLAGS_def TD_KERNEL_BLOCK_FLAGS_def TD_DEVICE_BLOCK_FLAGS_def
      MAIR_EL1_VAL_def MATTR_NORMAL_NC_def MATTR_DEVICE_nGnRnE_def TCR_EL1_VAL_def TCR_TG1_4K_def
      TCR_T1SZ_def TCR_TG0_4K_def TCR_T0SZ_def push_bit_eq_mult)

subsection \<open>Filling the tables\<close>

text \<open>\<open>adrp\<close> gives the page a symbol lies in. The stores of \<open>memzero\<close> go on while the count that is
  left is greater than zero (\<open>subs\<close>, \<open>b.gt\<close>: a signed comparison of the count with 8).\<close>

definition adrp :: "64 word \<Rightarrow> 64 word" where
  "adrp label = label AND PAGE_MASK"

function memzero :: "64 word \<Rightarrow> 64 word \<Rightarrow> ram \<Rightarrow> ram" where
  "memzero x0 x1 m =
     (let m = m(x0 := 0) in if word_sless 8 x1 then memzero (x0 + 8) (x1 - 8) m else m)"
  by pat_completeness auto

lemma sint_minus_8:
  assumes "word_sless 8 (x :: 64 word)"
  shows "sint (x - 8) = sint x - 8"
proof -
  have "8 < sint x" using assms by (simp add: word_sless_alt)
  moreover have "sint x < 2 ^ 63" using sint_lt [of x] by simp
  ultimately show ?thesis by (subst word_arith_wis(2)) (simp add: sint_word_ariths signed_take_bit_int_eq_self)
qed

termination memzero
  by (relation "measure (\<lambda>(x0, x1, m). nat (sint x1))")
    (auto simp: sint_minus_8, simp add: word_sless_alt)

declare memzero.simps [simp del]

definition create_table_entry ::
    "64 word \<Rightarrow> 64 word \<Rightarrow> 64 word \<Rightarrow> nat \<Rightarrow> 64 word \<Rightarrow> ram \<Rightarrow> ram" where
  "create_table_entry tbl ntbl va shift flags m =
     (let tmp1 = drop_bit shift va;
          tmp1 = tmp1 AND (ENTRIES_PER_TABLE - 1);
          tmp2 = ntbl OR flags
      in m(tbl + push_bit 3 tmp1 := tmp2))"

text \<open>The loop of \<open>create_block_map\<close> (\<open>b.le\<close>: a signed comparison, which always holds when \<open>vend\<close> is the
  greatest signed number; then the loop does not end).\<close>

partial_function (option) block_map_loop ::
    "64 word \<Rightarrow> 64 word \<Rightarrow> 64 word \<Rightarrow> 64 word \<Rightarrow> ram \<Rightarrow> ram option" where
  "block_map_loop pmd vstart vend pa m =
     (let m = m(pmd + push_bit 3 vstart := pa);
          pa = pa + SECTION_SIZE;
          vstart = vstart + 1
      in if word_sle vstart vend then block_map_loop pmd vstart vend pa m else Some m)"

declare block_map_loop.simps [code]

definition create_block_map ::
    "64 word \<Rightarrow> 64 word \<Rightarrow> 64 word \<Rightarrow> 64 word \<Rightarrow> 64 word \<Rightarrow> ram \<Rightarrow> ram option" where
  "create_block_map pmd vstart vend pa flags m =
     (let vstart = drop_bit SECTION_SHIFT vstart;
          vstart = vstart AND (ENTRIES_PER_TABLE - 1);
          vend = drop_bit SECTION_SHIFT vend;
          vend = vend - 1;
          vend = vend AND (ENTRIES_PER_TABLE - 1);
          pa = drop_bit SECTION_SHIFT pa;
          pa = push_bit SECTION_SHIFT pa;
          tmp1 = flags;
          pa = pa OR tmp1
      in block_map_loop pmd vstart vend pa m)"

definition map_identity :: "64 word \<Rightarrow> ram \<Rightarrow> ram option" where
  "map_identity id_pg_dir m =
     (let x0 = adrp id_pg_dir;
          m = memzero x0 ID_MAP_TABLE_SIZE m;
          x0 = adrp id_pg_dir;
          x1 = x0 + PAGE_SIZE;
          x4 = 0;
          m = create_table_entry x0 x1 x4 PGD_SHIFT TD_KERNEL_TABLE_FLAGS m;
          x0 = x0 + PAGE_SIZE;
          x1 = x1 + PAGE_SIZE;
          m = create_table_entry x0 x1 x4 PUD_SHIFT TD_KERNEL_TABLE_FLAGS m;
          x0 = x1;
          x2 = 0;
          x3 = ID_MAP_SIZE;
          x4 = 0
      in create_block_map x0 x2 x3 x4 TD_KERNEL_BLOCK_FLAGS m)"

definition map_high :: "64 word \<Rightarrow> ram \<Rightarrow> ram option" where
  "map_high high_pg_dir m =
     (let x0 = adrp high_pg_dir;
          m = memzero x0 HIGH_MAP_TABLE_SIZE m;
          x0 = adrp high_pg_dir;
          x1 = x0 + PAGE_SIZE;
          x4 = LINEAR_MAP_BASE;
          m = create_table_entry x0 x1 x4 PGD_SHIFT TD_KERNEL_TABLE_FLAGS m;
          x0 = x0 + PAGE_SIZE;
          x1 = x1 + PAGE_SIZE;
          x4 = LINEAR_MAP_BASE;
          x5 = PUD_ENTRY_MAP_SIZE;
          m = create_table_entry x0 x1 x4 PUD_SHIFT TD_KERNEL_TABLE_FLAGS m;
          x1 = x1 + PAGE_SIZE;
          x4 = x4 + x5;
          m = create_table_entry x0 x1 x4 PUD_SHIFT TD_KERNEL_TABLE_FLAGS m;
          x1 = x1 + PAGE_SIZE;
          x4 = x4 + x5;
          m = create_table_entry x0 x1 x4 PUD_SHIFT TD_KERNEL_TABLE_FLAGS m;
          x1 = x1 + PAGE_SIZE;
          x4 = x4 + x5;
          m = create_table_entry x0 x1 x4 PUD_SHIFT TD_KERNEL_TABLE_FLAGS m;
          x0 = x0 + PAGE_SIZE
      in Option.bind (create_block_map x0 HIGH_MAP_FIRST_START HIGH_MAP_FIRST_END FIRST_START
                        TD_KERNEL_BLOCK_FLAGS m) (\<lambda>m.
         let x0 = x0 + PAGE_SIZE in
         Option.bind (create_block_map x0 HIGH_MAP_SECOND_START HIGH_MAP_SECOND_END SECOND_START
                        TD_KERNEL_BLOCK_FLAGS m) (\<lambda>m.
         let x0 = x0 + PAGE_SIZE in
         Option.bind (create_block_map x0 HIGH_MAP_THIRD_START HIGH_MAP_THIRD_END THIRD_START
                        TD_KERNEL_BLOCK_FLAGS m) (\<lambda>m.
         let x0 = x0 + PAGE_SIZE in
         Option.bind (create_block_map x0 HIGH_MAP_FOURTH_START HIGH_MAP_FOURTH_END FOURTH_START
                        TD_KERNEL_BLOCK_FLAGS m) (\<lambda>m.
         create_block_map x0 HIGH_MAP_DEVICE_START HIGH_MAP_DEVICE_END DEVICE_START
                        TD_DEVICE_BLOCK_FLAGS m)))))"

subsection \<open>How the processor translates an address\<close>

text \<open>A translation: the physical address, the attribute byte of the memory and the permissions of a
  program at EL0.\<close>

record translation =
  out_address :: "64 word"
  attribute :: "8 word"
  el0_access :: bool
  el0_execute :: bool
  el1_write :: bool
  el1_execute :: bool
  shareability :: "64 word"

record mmu_regs =
  ttbr0 :: "64 word"
  ttbr1 :: "64 word"
  tcr :: "64 word"
  mair :: "64 word"

definition bits_of :: "64 word \<Rightarrow> nat \<Rightarrow> nat \<Rightarrow> 64 word" where
  "bits_of w lo n = drop_bit lo w AND mask n"

text \<open>Level \<open>0\<close> to \<open>3\<close> translate the bits from 39, 30, 21 and 12 on. A descriptor with bit 0 clear is
  invalid; at levels 1 and 2 a clear bit 1 makes it a block; the access flag (bit 10) must be set.\<close>

definition leaf_entry :: "64 word \<Rightarrow> 64 word \<Rightarrow> nat \<Rightarrow> 64 word \<Rightarrow> translation option" where
  "leaf_entry mair_val d s va =
     (if \<not> bit d 10 then None
      else Some \<lparr>out_address = push_bit s (bits_of d s (48 - s)) OR bits_of va 0 s,
                 attribute = ucast (drop_bit (8 * unat (bits_of d 2 3)) mair_val),
                 el0_access = bit d 6, el0_execute = (\<not> bit d 54), el1_write = (\<not> bit d 7),
                 el1_execute = (\<not> bit d 53), shareability = bits_of d 8 2\<rparr>)"

fun table_walk :: "ram \<Rightarrow> 64 word \<Rightarrow> 64 word \<Rightarrow> 64 word \<Rightarrow> nat list \<Rightarrow> translation option" where
  "table_walk m mair_val tbl va [] = None"
| "table_walk m mair_val tbl va (s # ss) =
     (let d = m (tbl + push_bit 3 (bits_of va s 9))
      in if \<not> bit d 0 \<or> \<not> tbl < 2 ^ 32 then None
         else if s = 12 then (if bit d 1 then leaf_entry mair_val d s va else None)
         else if bit d 1 then table_walk m mair_val (push_bit 12 (bits_of d 12 36)) va ss
         else if s = 39 then None else leaf_entry mair_val d s va)"

text \<open>\<open>TCR_EL1\<close>: the sizes of the two regions (bits 0 and 16), walks disabled (bits 7 and 23), the
  granules (bits 14 and 30), the size of physical addresses (bits 32). The case of regions of another
  size or granule is not described and counts as no translation.\<close>

definition tcr_supported :: "64 word \<Rightarrow> bool" where
  "tcr_supported t \<longleftrightarrow> bits_of t 0 6 = 16 \<and> bits_of t 16 6 = 16 \<and> \<not> bit t 7 \<and> \<not> bit t 23 \<and>
     bits_of t 14 2 = 0 \<and> bits_of t 30 2 = 2 \<and> bits_of t 32 3 = 0"

definition address_size_ok :: "translation \<Rightarrow> bool" where
  "address_size_ok t \<longleftrightarrow> out_address t < 2 ^ 32"

definition translate :: "mmu_regs \<Rightarrow> ram \<Rightarrow> 64 word \<Rightarrow> translation option" where
  "translate r m va =
     (if \<not> tcr_supported (tcr r) then None
      else case (if bits_of va 48 16 = 0 then table_walk m (mair r) (push_bit 12 (bits_of (ttbr0 r) 12 36)) va [39, 30, 21, 12]
                 else if bits_of va 48 16 = mask 16 then table_walk m (mair r) (push_bit 12 (bits_of (ttbr1 r) 12 36)) va [39, 30, 21, 12]
                 else None) of
           None \<Rightarrow> None
         | Some t \<Rightarrow> if address_size_ok t then Some t else None)"

end
