(* ===== verification/MmuSpec.thy ===== *)
theory MmuSpec
  imports Mmu
begin

text \<open>
  What the page tables of \<open>Mmu.thy\<close> contain, and the theorem that the processor, walking them, maps
  exactly the addresses the kernel intends.
\<close>

subsection \<open>The two loops\<close>

lemma unat_diff_8:
  fixes d :: "64 word"
  assumes "d \<noteq> 0"
  shows "unat (d - 8) = (if 8 \<le> unat d then unat d - 8 else 2 ^ 64 - 8 + unat d)"
proof -
  have "unat (d - 8) = (if (8 :: 64 word) \<le> d then unat d - 8 else 2 ^ 64 + unat d - 8)"
    using unat_sub_if' [of d "8 :: 64 word"] by (simp add: word_le_nat_alt)
  then show ?thesis by (simp add: word_le_nat_alt)
qed

lemma sint_small: "n < 2 ^ 63 \<Longrightarrow> sint (of_nat n :: 64 word) = int n"
  by (simp add: sint_uint unsigned_of_nat signed_take_bit_int_eq_self take_bit_int_eq_self
      take_bit_nat_eq_self)

lemma memzero_apply:
  assumes "0 < n" "n < 2 ^ 20"
  shows "memzero x0 (of_nat (8 * n)) m a =
    (if unat (a - x0) < 8 * n \<and> 8 dvd unat (a - x0) then 0 else m a)"
  using assms
proof (induction n arbitrary: x0 m)
  case 0
  then show ?case by simp
next
  case (Suc n)
  have s: "sint (of_nat (8 * Suc n) :: 64 word) = int (8 * Suc n)"
    using Suc.prems(2) by (intro sint_small) simp
  have less: "word_sless 8 (of_nat (8 * Suc n) :: 64 word) \<longleftrightarrow> 0 < n"
    unfolding word_sless_alt s by simp
  have minus: "(of_nat (8 * Suc n) :: 64 word) - 8 = of_nat (8 * n)" by simp
  show ?case
  proof (cases "0 < n")
    case False
    then have n: "n = 0" by simp
    have "unat (a - x0) = 0 \<longleftrightarrow> a = x0" by (simp add: unat_eq_0)
    moreover have "unat (a - x0) < 8 \<and> 8 dvd unat (a - x0) \<longleftrightarrow> unat (a - x0) = 0"
      by (auto dest: dvd_imp_le)
    ultimately show ?thesis
      using less unfolding n by (subst memzero.simps) (simp add: Let_def)
  next
    case True
    have step: "memzero x0 (of_nat (8 * Suc n)) m a = memzero (x0 + 8) (of_nat (8 * n)) (m(x0 := 0)) a"
      using less True minus by (subst memzero.simps) (simp add: Let_def del: of_nat_mult)
    have d: "a - (x0 + 8) = (a - x0) - 8" by simp
    show ?thesis
    proof (cases "a = x0")
      case True
      then show ?thesis unfolding step Suc.IH [OF \<open>0 < n\<close> Suc_lessD [OF Suc.prems(2)]] by simp
    next
      case False
      then have nz: "a - x0 \<noteq> 0" by simp
      then have "unat (a - x0) \<noteq> 0" by (simp add: unat_eq_0)
      then have low: "8 dvd unat (a - x0) \<Longrightarrow> 8 \<le> unat (a - x0)" by (auto dest: dvd_imp_le)
      have "unat (a - (x0 + 8)) < 8 * n \<and> 8 dvd unat (a - (x0 + 8)) \<longleftrightarrow>
          unat (a - x0) < 8 * Suc n \<and> 8 dvd unat (a - x0)"
        unfolding d unat_diff_8 [OF nz] using low Suc.prems(2) by (auto simp: dvd_minus_self)
      then show ?thesis unfolding step Suc.IH [OF \<open>0 < n\<close> Suc_lessD [OF Suc.prems(2)]] using False by simp
    qed
  qed
qed

definition filled :: "64 word \<Rightarrow> nat \<Rightarrow> nat \<Rightarrow> 64 word \<Rightarrow> ram \<Rightarrow> ram" where
  "filled pmd s e pa m a =
     (let d = unat (a - pmd)
      in if 8 dvd d \<and> 8 * s \<le> d \<and> d \<le> 8 * e then pa + of_nat (d div 8 - s) * SECTION_SIZE else m a)"

lemma unat_slot:
  assumes "s < 512"
  shows "unat (push_bit 3 (of_nat s :: 64 word)) = 8 * s"
  using assms by (simp add: push_bit_eq_mult unat_word_ariths unat_of_nat)

lemma at_slot:
  assumes "s < 512"
  shows "a = pmd + push_bit 3 (of_nat s :: 64 word) \<longleftrightarrow> unat (a - pmd) = 8 * s"
proof -
  have "a = pmd + push_bit 3 (of_nat s) \<longleftrightarrow> a - pmd = push_bit 3 (of_nat s)" by (auto simp: algebra_simps)
  also have "\<dots> \<longleftrightarrow> unat (a - pmd) = 8 * s" by (simp add: word_unat_eq_iff unat_slot [OF assms])
  finally show ?thesis .
qed

lemma filled_step:
  assumes "s < e" "e < 512"
  shows "filled pmd (Suc s) e (pa + SECTION_SIZE) (m(pmd + push_bit 3 (of_nat s) := pa)) = filled pmd s e pa m"
proof
  fix a
  let ?d = "unat (a - pmd)"
  have here: "a = pmd + push_bit 3 (of_nat s) \<longleftrightarrow> ?d = 8 * s"
    using assms by (intro at_slot) simp
  show "filled pmd (Suc s) e (pa + SECTION_SIZE) (m(pmd + push_bit 3 (of_nat s) := pa)) a = filled pmd s e pa m a"
  proof (cases "?d = 8 * s")
    case True
    then show ?thesis using here assms by (simp add: filled_def Let_def)
  next
    case False
    have "8 dvd ?d \<Longrightarrow> 8 * s \<le> ?d \<Longrightarrow> 8 * Suc s \<le> ?d \<and> ?d div 8 - s = Suc (?d div 8 - Suc s)"
      using False by (auto elim!: dvdE)
    then show ?thesis
      using False here by (auto simp: filled_def Let_def algebra_simps)
  qed
qed

lemma block_map_loop_filled:
  assumes "s \<le> e" "e < 512"
  shows "block_map_loop pmd (of_nat s) (of_nat e) pa m = Some (filled pmd s e pa m)"
  using assms
proof (induction "e - s" arbitrary: s pa m)
  case 0
  then have se: "s = e" by simp
  have "\<not> word_sle (of_nat s + 1 :: 64 word) (of_nat e)"
    using sint_small [of "Suc s"] sint_small [of e] 0 by (simp add: word_sle_eq add.commute)
  moreover have "m(pmd + push_bit 3 (of_nat s) := pa) = filled pmd s e pa m"
  proof
    fix a
    have "a = pmd + push_bit 3 (of_nat s) \<longleftrightarrow> unat (a - pmd) = 8 * s"
      using 0 se by (intro at_slot) simp
    then show "(m(pmd + push_bit 3 (of_nat s) := pa)) a = filled pmd s e pa m a"
      using se by (auto simp: filled_def Let_def)
  qed
  ultimately show ?case by (subst block_map_loop.simps) (simp add: Let_def)
next
  case (Suc n)
  then have lt: "s < e" by simp
  have "word_sle (of_nat s + 1 :: 64 word) (of_nat e)"
    using sint_small [of "Suc s"] sint_small [of e] Suc.prems lt by (simp add: word_sle_eq add.commute)
  moreover have "block_map_loop pmd (of_nat (Suc s)) (of_nat e) (pa + SECTION_SIZE)
      (m(pmd + push_bit 3 (of_nat s) := pa)) =
      Some (filled pmd (Suc s) e (pa + SECTION_SIZE) (m(pmd + push_bit 3 (of_nat s) := pa)))"
    using Suc lt by (intro Suc.hyps(1)) auto
  ultimately show ?case
    using filled_step [OF lt Suc.prems(2), of pmd pa m] by (subst block_map_loop.simps) (simp add: Let_def add.commute)
qed

subsection \<open>Contents of the tables\<close>

lemma create_block_map_filled:
  assumes "s < 512" "e < 512" "s \<le> e"
    and "drop_bit 21 vstart AND 511 = (of_nat s :: 64 word)" "(drop_bit 21 vend - 1) AND 511 = (of_nat e :: 64 word)"
    and "push_bit 21 (drop_bit 21 pa) = pa"
  shows "create_block_map pmd vstart vend pa flags m = Some (filled pmd s e (pa OR flags) m)"
proof -
  have 21: "SECTION_SHIFT = 21" by (simp add: shift_defs)
  show ?thesis
    unfolding create_block_map_def Let_def constant_values 21 assms(4,5,6)
    by (rule block_map_loop_filled [OF assms(3,2)])
qed

text \<open>The size of \<open>n\<close> sections.\<close>

definition sections :: "nat \<Rightarrow> 64 word" where
  "sections n = of_nat n * 0x200000"

text \<open>The word at offset \<open>n\<close> of the identity tables.\<close>

definition id_entry :: "64 word \<Rightarrow> nat \<Rightarrow> 64 word" where
  "id_entry p n =
     (if n = 0 then p + 4096 OR 3 else if n = 4096 then p + 8192 OR 3
      else if 8192 \<le> n \<and> n < 8192 + 8 * 8 then 0x40000000000705 + sections ((n - 8192) div 8)
      else 0)"

lemma map_identity_runs:
  "map_identity p m = Some (filled (adrp p + 8192) 0 7 0x40000000000705
     ((memzero (adrp p) (of_nat (8 * 1536)) m)(adrp p := adrp p + 4096 OR 3, adrp p + 4096 := adrp p + 8192 OR 3)))"
proof -
  have "create_block_map (adrp p + 8192) 0 ID_MAP_SIZE 0 TD_KERNEL_BLOCK_FLAGS M =
      Some (filled (adrp p + 8192) 0 7 (0 OR TD_KERNEL_BLOCK_FLAGS) M)" for M
    by (rule create_block_map_filled) (simp_all add: constant_values drop_bit_eq_div)
  then show ?thesis
    by (simp add: map_identity_def Let_def create_table_entry_def constant_values algebra_simps)
qed

lemma unat_off:
  fixes a p w :: "64 word"
  shows "unat (a - (p + w)) =
    (if unat w \<le> unat (a - p) then unat (a - p) - unat w else 2 ^ 64 - unat w + unat (a - p))"
proof -
  have "a - (p + w) = (a - p) - w" by simp
  then have "unat (a - (p + w)) =
      (if unat w \<le> unat (a - p) then unat (a - p) - unat w else unat (a - p) + 2 ^ 64 - unat w)"
    using unat_sub_if' [of "a - p" w] by (simp add: diff_diff_eq)
  moreover have "unat w < 2 ^ 64" using unsigned_less [of w] by simp
  ultimately show ?thesis by (simp add: add.commute)
qed

lemma at_off: "a = p + w \<longleftrightarrow> unat (a - p) = unat (w :: 64 word)"
proof -
  have "a = p + w \<longleftrightarrow> a - p = w" by (auto simp: algebra_simps)
  then show ?thesis by (simp add: word_unat_eq_iff)
qed

lemma filled_off:
  assumes "e < 512" "unat w < 2 ^ 20" "8 dvd unat w"
  shows "filled (p + w) s e pa m a =
    (let d = unat (a - p)
     in if 8 dvd d \<and> unat w + 8 * s \<le> d \<and> d \<le> unat w + 8 * e
        then pa + of_nat ((d - unat w) div 8 - s) * SECTION_SIZE else m a)"
proof -
  have "unat w \<le> n \<Longrightarrow> 8 dvd (n - unat w) \<longleftrightarrow> 8 dvd n" for n
    using assms(3) by (metis dvd_diff_nat dvd_diffD)
  then show ?thesis using assms by (auto simp: filled_def Let_def unat_off)
qed

definition page_aligned :: "64 word \<Rightarrow> bool" where
  "page_aligned p \<longleftrightarrow> p AND 0xfff = 0"

lemma and_not_disjoint:
  assumes "p AND q = (0 :: 64 word)"
  shows "p AND NOT q = p"
proof (rule bit_word_eqI)
  fix n
  assume "n < LENGTH(64)"
  have "\<not> bit (p AND q) n" using assms by simp
  then show "bit (p AND NOT q) n \<longleftrightarrow> bit p n"
    using \<open>n < LENGTH(64)\<close> by (auto simp: bit_and_iff bit_not_iff)
qed

lemma adrp_aligned: "page_aligned p \<Longrightarrow> adrp p = p"
proof -
  assume a: "page_aligned p"
  have mask_not: "PAGE_MASK = NOT 0xfff" by (simp add: PAGE_MASK_def)
  have "p AND NOT 0xfff = p" using a and_not_disjoint unfolding page_aligned_def by blast
  then show ?thesis by (simp add: adrp_def mask_not)
qed

text \<open>Memory \<open>m'\<close> is \<open>m\<close> with a table of \<open>n\<close> bytes at \<open>p\<close> whose double words are \<open>entry\<close>.\<close>

definition has_table :: "64 word \<Rightarrow> nat \<Rightarrow> (nat \<Rightarrow> 64 word) \<Rightarrow> ram \<Rightarrow> ram \<Rightarrow> bool" where
  "has_table p n entry m m' \<longleftrightarrow>
     (\<forall>a. m' a = (if unat (a - p) < n \<and> 8 dvd unat (a - p) then entry (unat (a - p)) else m a))"

lemma map_identity_table:
  assumes "page_aligned p"
  shows "\<exists>m'. map_identity p m = Some m' \<and> has_table p 12288 (id_entry p) m m'"
proof (intro exI conjI, rule map_identity_runs, unfold adrp_aligned [OF assms] has_table_def, intro allI)
  fix a
  let ?d = "unat (a - p)"
  have a: "a = p \<longleftrightarrow> ?d = 0" using at_off [of a p 0] by simp
  have mz: "memzero p (of_nat (8 * 1536)) m a = (if ?d < 12288 \<and> 8 dvd ?d then 0 else m a)"
    by (subst memzero_apply) simp_all
  show "filled (p + 8192) 0 7 0x40000000000705
     ((memzero p (of_nat (8 * 1536)) m)(p := p + 4096 OR 3, p + 4096 := p + 8192 OR 3)) a =
     (if ?d < 12288 \<and> 8 dvd ?d then id_entry p ?d else m a)"
    by (subst filled_off)
      (auto simp: Let_def fun_upd_def a at_off mz [simplified] id_entry_def constant_values sections_def)
qed

text \<open>The word at offset \<open>n\<close> of the high tables: one word of the first table, four of the second, and
  the sections number \<open>0\<close> to \<open>0x7ff\<close> of the physical addresses in the other four.\<close>

definition high_entry :: "64 word \<Rightarrow> nat \<Rightarrow> 64 word" where
  "high_entry p n =
     (if n = 0 then p + 4096 OR 3
      else if n < 4096 then 0
      else if n < 4096 + 8 * 4 then p + (8192 + of_nat ((n - 4096) div 8) * 4096) OR 3
      else if n < 8192 then 0
      else let i = (n - 8192) div 8
           in if i < 0x1fa \<or> 0x200 \<le> i \<and> i < 0x7e0 then 0x40000000000705 + sections i
              else if 0x7e0 \<le> i then 0x40000000000701 + sections i
              else 0)"

lemma map_high_runs:
  "map_high p m = Some
    (filled (adrp p + 20480) 0x1e0 0x1ff 0x400000fc000701
    (filled (adrp p + 20480) 0 0x1df 0x400000c0000705
    (filled (adrp p + 16384) 0 0x1ff 0x40000080000705
    (filled (adrp p + 12288) 0 0x1ff 0x40000040000705
    (filled (adrp p + 8192) 0 0x1f9 0x40000000000705
     ((memzero (adrp p) (of_nat (8 * 3072)) m)
       (adrp p := adrp p + 4096 OR 3, adrp p + 4096 := adrp p + 8192 OR 3,
        adrp p + 4104 := adrp p + 12288 OR 3, adrp p + 4112 := adrp p + 16384 OR 3,
        adrp p + 4120 := adrp p + 20480 OR 3)))))))"
proof -
  have b: "create_block_map (q + 8192) HIGH_MAP_FIRST_START HIGH_MAP_FIRST_END FIRST_START TD_KERNEL_BLOCK_FLAGS M =
       Some (filled (q + 8192) 0 0x1f9 0x40000000000705 M)"
    "create_block_map (q + 12288) HIGH_MAP_SECOND_START HIGH_MAP_SECOND_END SECOND_START TD_KERNEL_BLOCK_FLAGS M =
       Some (filled (q + 12288) 0 0x1ff 0x40000040000705 M)"
    "create_block_map (q + 16384) HIGH_MAP_THIRD_START HIGH_MAP_THIRD_END THIRD_START TD_KERNEL_BLOCK_FLAGS M =
       Some (filled (q + 16384) 0 0x1ff 0x40000080000705 M)"
    "create_block_map (q + 20480) HIGH_MAP_FOURTH_START HIGH_MAP_FOURTH_END FOURTH_START TD_KERNEL_BLOCK_FLAGS M =
       Some (filled (q + 20480) 0 0x1df 0x400000c0000705 M)"
    "create_block_map (q + 20480) HIGH_MAP_DEVICE_START HIGH_MAP_DEVICE_END DEVICE_START TD_DEVICE_BLOCK_FLAGS M =
       Some (filled (q + 20480) 0x1e0 0x1ff 0x400000fc000701 M)" for q M
    by (subst create_block_map_filled, auto simp: constant_values range_defs drop_bit_eq_div push_bit_eq_mult)+
  then show ?thesis
    by (simp add: map_high_def Let_def create_table_entry_def constant_values add.assoc shift_defs
        LINEAR_MAP_BASE_def drop_bit_eq_div)
qed

lemma at_base: "a = p \<longleftrightarrow> unat (a - p) = 0" for a p :: "64 word"
  using at_off [of a p 0] by simp

lemma section_word:
  assumes "k \<le> j" "c = c0 + sections k"
  shows "c + sections (j - k) = c0 + sections j"
  using assms by (simp add: sections_def of_nat_diff algebra_simps)

lemma filled_at:
  assumes "unat (a - p) = 8 * i" "8 dvd unat w" "e < 512" "unat w < 2 ^ 20"
  shows "filled (p + w) s e pa m a =
    (if unat w div 8 + s \<le> i \<and> i \<le> unat w div 8 + e then pa + sections (i - (unat w div 8 + s)) else m a)"
proof -
  from assms(2) obtain k where w: "unat w = 8 * k" by (rule dvdE)
  have "(8 * i - 8 * k) div 8 - s = i - (k + s)" by (simp add: right_diff_distrib' [symmetric])
  then show ?thesis
    using assms by (subst filled_off) (auto simp: Let_def constant_values sections_def w)
qed

lemma filled_high:
  assumes d: "unat (a - p) = 8 * i" and i: "i < 3072"
  shows "filled (p + 20480) 0x1e0 0x1ff c5 (filled (p + 20480) 0 0x1df c4 (filled (p + 16384) 0 0x1ff c3
      (filled (p + 12288) 0 0x1ff c2 (filled (p + 8192) 0 0x1f9 c1 M)))) a =
      (if 3040 \<le> i then c5 + sections (i - 3040)
       else if 2560 \<le> i then c4 + sections (i - 2560)
       else if 2048 \<le> i then c3 + sections (i - 2048)
       else if 1536 \<le> i then c2 + sections (i - 1536)
       else if 1024 \<le> i \<and> i \<le> 1529 then c1 + sections (i - 1024)
       else M a)"
proof -
  have f: "filled (p + 20480) 0x1e0 0x1ff c5 M' a =
        (if 3040 \<le> i \<and> i \<le> 3071 then c5 + sections (i - 3040) else M' a)"
      "filled (p + 20480) 0 0x1df c4 M' a =
        (if 2560 \<le> i \<and> i \<le> 3039 then c4 + sections (i - 2560) else M' a)"
      "filled (p + 16384) 0 0x1ff c3 M' a =
        (if 2048 \<le> i \<and> i \<le> 2559 then c3 + sections (i - 2048) else M' a)"
      "filled (p + 12288) 0 0x1ff c2 M' a =
        (if 1536 \<le> i \<and> i \<le> 2047 then c2 + sections (i - 1536) else M' a)"
      "filled (p + 8192) 0 0x1f9 c1 M' a =
        (if 1024 \<le> i \<and> i \<le> 1529 then c1 + sections (i - 1024) else M' a)" for M'
    by (simp_all add: filled_at [OF d])
  show ?thesis unfolding f using i by auto
qed

lemma high_entry_sections:
  "high_entry p (8 * i) =
    (if i = 0 then p + 4096 OR 3 else if i = 512 then p + 8192 OR 3
     else if i = 513 then p + 12288 OR 3 else if i = 514 then p + 16384 OR 3
     else if i = 515 then p + 20480 OR 3 else if i < 1024 then 0
     else if i < 1530 \<or> 1536 \<le> i \<and> i < 3040 then 0x40000000000705 + sections (i - 1024)
     else if 3040 \<le> i then 0x40000000000701 + sections (i - 1024) else 0)"
proof -
  have "(8 * i - 8192) div 8 = i - 1024" by simp
  moreover have "512 \<le> i \<Longrightarrow> i < 516 \<Longrightarrow> i = 512 \<or> i = 513 \<or> i = 514 \<or> i = 515" by auto
  moreover have "1024 \<le> i \<Longrightarrow> i - 1024 < 0x1fa \<or> 0x200 \<le> i - 1024 \<and> i - 1024 < 0x7e0 \<longleftrightarrow>
      i < 1530 \<or> 1536 \<le> i \<and> i < 3040" by auto
  moreover have "1024 \<le> i \<Longrightarrow> 0x7e0 \<le> i - 1024 \<longleftrightarrow> 3040 \<le> i" by auto
  ultimately show ?thesis by (cases "i < 1024") (auto simp: high_entry_def Let_def)
qed

lemma section_words:
  "3040 \<le> i \<Longrightarrow> 4227858432 + sections (i - 3040) = sections (i - 1024)"
  "2560 \<le> i \<Longrightarrow> 3221225472 + sections (i - 2560) = sections (i - 1024)"
  "2048 \<le> i \<Longrightarrow> 2147483648 + sections (i - 2048) = sections (i - 1024)"
  "1536 \<le> i \<Longrightarrow> 1073741824 + sections (i - 1536) = sections (i - 1024)"
  using section_word [of 2016 "i - 1024" "sections 2016" 0] section_word [of 1536 "i - 1024" "sections 1536" 0]
    section_word [of 1024 "i - 1024" "sections 1024" 0] section_word [of 512 "i - 1024" "sections 512" 0]
  by (simp_all add: sections_def [of "numeral _"])

lemma map_high_table:
  assumes "page_aligned p"
  shows "\<exists>m'. map_high p m = Some m' \<and> has_table p 24576 (high_entry p) m m'"
proof (intro exI conjI, rule map_high_runs, unfold adrp_aligned [OF assms] has_table_def, intro allI)
  fix a
  let ?d = "unat (a - p)"
  have mz: "memzero p (of_nat (8 * 3072)) m a = (if ?d < 24576 \<and> 8 dvd ?d then 0 else m a)"
    by (subst memzero_apply) simp_all
  let ?m' = "filled (p + 20480) 0x1e0 0x1ff 0x400000fc000701
    (filled (p + 20480) 0 0x1df 0x400000c0000705
    (filled (p + 16384) 0 0x1ff 0x40000080000705
    (filled (p + 12288) 0 0x1ff 0x40000040000705
    (filled (p + 8192) 0 0x1f9 0x40000000000705
     ((memzero p (of_nat (8 * 3072)) m)
       (p := p + 4096 OR 3, p + 4096 := p + 8192 OR 3, p + 4104 := p + 12288 OR 3,
        p + 4112 := p + 16384 OR 3, p + 4120 := p + 20480 OR 3))))))"
  show "?m' a = (if ?d < 24576 \<and> 8 dvd ?d then high_entry p ?d else m a)"
  proof (cases "?d < 24576 \<and> 8 dvd ?d")
    case False
    then have "?m' a = m a"
      by (auto simp: filled_off Let_def fun_upd_def at_base [of a p] at_off [of a p] mz [simplified])
    then show ?thesis using False by auto
  next
    case True
    then obtain i where d: "?d = 8 * i" and i: "i < 3072" by (auto elim!: dvdE)
    let ?z = "(memzero p (of_nat (8 * 3072)) m)(p := p + 4096 OR 3, p + 4096 := p + 8192 OR 3,
        p + 4104 := p + 12288 OR 3, p + 4112 := p + 16384 OR 3, p + 4120 := p + 20480 OR 3)"
    have at: "a = p \<longleftrightarrow> i = 0" "a = p + 4096 \<longleftrightarrow> i = 512" "a = p + 4104 \<longleftrightarrow> i = 513"
        "a = p + 4112 \<longleftrightarrow> i = 514" "a = p + 4120 \<longleftrightarrow> i = 515"
      unfolding at_base [of a p] at_off [of a p] d by simp_all
    have z: "?z a = (if i = 0 then p + 4096 OR 3 else if i = 512 then p + 8192 OR 3
        else if i = 513 then p + 12288 OR 3 else if i = 514 then p + 16384 OR 3
        else if i = 515 then p + 20480 OR 3 else 0)"
      unfolding fun_upd_apply at mz d using i by auto
    have "?m' a = high_entry p (8 * i)"
      unfolding filled_high [OF d i] z high_entry_sections
      using i by (auto simp: section_words)
    then show ?thesis using True d by simp
  qed
qed

subsection \<open>Walking the tables\<close>

lemma bits_of_take: "bits_of w lo n = take_bit n (drop_bit lo w)"
  by (simp add: bits_of_def take_bit_eq_mask)

lemma unat_take_bit: "unat (take_bit n w) = unat w mod 2 ^ n" for w :: "64 word"
  by (simp only: unsigned_take_bit_eq take_bit_eq_mod [of n "unat w"])

lemma unat_drop_bit: "unat (drop_bit n w) = unat w div 2 ^ n" for w :: "64 word"
  by (simp only: unat_drop_bit_eq drop_bit_eq_div [of n "unat w"])

lemma unat_bits_of: "unat (bits_of w lo n) = unat w div 2 ^ lo mod 2 ^ n"
  by (simp only: bits_of_take unat_take_bit unat_drop_bit)

lemma bits_of_eq_iff: "bits_of w lo n = v \<longleftrightarrow> unat w div 2 ^ lo mod 2 ^ n = unat v"
  by (simp add: word_unat_eq_iff unat_bits_of)

lemma bit_unat: "bit (w :: 64 word) n \<longleftrightarrow> odd (unat w div 2 ^ n)"
  by (simp add: bit_iff_odd_drop_bit [of "unat w", symmetric] bit_unsigned_iff bit_iff_odd [symmetric])

lemma page_aligned_iff: "page_aligned p \<longleftrightarrow> 4096 dvd unat p"
proof -
  have "p AND 0xfff = take_bit 12 p" by (simp add: take_bit_eq_mask mask_numeral)
  then have "unat (p AND 0xfff) = unat p mod 4096"
    by (simp only: unat_take_bit) simp
  then show ?thesis by (auto simp: page_aligned_def dvd_eq_mod_eq_0 unat_eq_0)
qed

lemma unat_or_3:
  assumes "4 dvd unat (q :: 64 word)"
  shows "unat (q OR 3) = unat q + 3"
proof -
  have "q AND 3 = take_bit 2 q" by (simp add: take_bit_eq_mask mask_numeral)
  also have "unat (take_bit 2 q) = 0" using assms by (simp only: unat_take_bit) simp
  then have "take_bit 2 q = 0" by (simp add: unat_eq_0)
  finally have "q AND 3 = 0" .
  then have "q OR 3 = q + 3" by (simp add: disjunctive_add_eq_or)
  moreover have "unat q + 3 < 2 ^ 64"
    using assms unsigned_less [of q, where ?'a = nat] by (auto elim!: dvdE)
  ultimately show ?thesis by (simp add: unat_word_ariths)
qed

lemma table_descriptor:
  assumes "page_aligned q" "q < 2 ^ 32"
  shows "bit (q OR 3) 0" "bit (q OR 3) 1" "push_bit 12 (bits_of (q OR 3) 12 36) = q"
proof -
  obtain k where k: "unat q = 4096 * k" using assms(1) by (auto simp: page_aligned_iff)
  then have k32: "k < 2 ^ 20" using assms(2) by (simp add: word_less_nat_alt)
  have u: "unat (q OR 3) = 4096 * k + 3" using unat_or_3 [of q] k by auto
  have half: "(4096 * k + 3) div 2 ^ 1 = 2 * (1024 * k) + 1"
    using div_mult_self4 [of 2 "2048 * k" 3] by simp
  show "bit (q OR 3) 1" unfolding bit_unat u half by simp
  show "bit (q OR 3) 0" unfolding bit_unat u by simp
  have "unat (bits_of (q OR 3) 12 36) = k" using k32 by (simp add: unat_bits_of u)
  then have "unat (push_bit 12 (bits_of (q OR 3) 12 36)) = unat q"
    using k k32 by (simp add: push_bit_eq_mult unat_word_ariths)
  then show "push_bit 12 (bits_of (q OR 3) 12 36) = q" by (simp add: word_unat_eq_iff)
qed

definition normal_memory :: "64 word \<Rightarrow> translation" where
  "normal_memory pa = \<lparr>out_address = pa, attribute = 0xFF, el0_access = False, el0_execute = False,
     el1_write = True, el1_execute = True, shareability = 3\<rparr>"

definition device_memory :: "64 word \<Rightarrow> translation" where
  "device_memory pa = (normal_memory pa)\<lparr>attribute := 0\<rparr>"

lemma low_part_div: "n \<le> 21 \<Longrightarrow> (2 ^ 21 * x + c) div 2 ^ n = 2 ^ (21 - n) * x + c div (2 ^ n :: nat)"
  using div_mult_self4 [of "2 ^ n" "2 ^ (21 - n) * x" c]
  by (simp add: mult.assoc [symmetric] power_add [symmetric])

lemma high_part_div:
  assumes "(r :: nat) < 2 ^ 53"
  shows "(2 ^ 54 + r) div 2 ^ 54 = 1" "(2 ^ 54 + r) div 2 ^ 53 = 2"
proof -
  have "(2 ^ 53 * 2 + r) div 2 ^ 53 = 2 + r div 2 ^ 53" by (rule div_mult_self4) simp
  then show "(2 ^ 54 + r) div 2 ^ 53 = 2" using assms by simp
  have "(2 ^ 54 * 1 + r) div 2 ^ 54 = 1 + r div 2 ^ 54" by (rule div_mult_self4) simp
  then show "(2 ^ 54 + r) div 2 ^ 54 = 1" using assms by simp
qed

lemma section_bits:
  assumes "j < 2048" "c = 0x705 \<or> c = 0x701"
  defines "d \<equiv> 0x40000000000000 + of_nat c + sections j"
  shows "unat d = 2 ^ 21 * (2 ^ 33 + j) + c"
    "bit d 0" "\<not> bit d 1" "bit d 10" "\<not> bit d 6" "\<not> bit d 7" "bits_of d 8 2 = 3" "bit d 54" "\<not> bit d 53"
    "bits_of d 2 3 = (if c = 0x705 then 1 else 0)" "bits_of d 21 27 = of_nat j"
proof -
  have s: "unat (sections j) = 2 ^ 21 * j"
    using assms(1) by (simp add: sections_def unat_word_ariths unat_of_nat)
  have c: "unat (of_nat c :: 64 word) = c" using assms(2) by auto
  show u: "unat d = 2 ^ 21 * (2 ^ 33 + j) + c"
    using assms(1,2) c by (simp add: d_def unat_word_ariths s) auto
  define x where "x = 2 ^ 33 + j"
  have u': "unat d = 2097152 * x + c" using u by (simp add: x_def)
  have dv: "n \<le> 21 \<Longrightarrow> unat d div 2 ^ n = 2 ^ (21 - n) * x + c div 2 ^ n" for n
    using low_part_div [of n x c] u' by simp
  show "bit d 0" "\<not> bit d 1" "bit d 10" "\<not> bit d 6" "\<not> bit d 7"
    using dv [of 0] dv [of 1] dv [of 10] dv [of 6] dv [of 7] assms(2) unfolding bit_unat by auto
  have "c div 256 = 7" "c div 4 = (if c = 0x705 then 449 else 448)" "c div 2097152 = 0" using assms(2) by auto
  with dv [of 8] dv [of 2] dv [of 21] have "unat d div 2 ^ 8 = 8192 * x + 7" "unat d div 2 ^ 2 = 524288 * x + (if c = 0x705 then 449 else 448)"
    "unat d div 2 ^ 21 = x"
    by auto
  note div_values = this
  have "(8192 * x + 7) mod 4 = 3"
    using mod_mult_self2 [of 7 4 "2048 * x"] by (simp add: add.commute)
  then show "bits_of d 8 2 = 3" unfolding bits_of_eq_iff div_values by simp
  have "(524288 * x + 449) mod 8 = 1" "(524288 * x + 448) mod 8 = 0"
    using mod_mult_self2 [of 449 8 "65536 * x"] mod_mult_self2 [of 448 8 "65536 * x"] by (simp_all add: add.commute)
  then show "bits_of d 2 3 = (if c = 0x705 then 1 else 0)" unfolding bits_of_eq_iff div_values by simp
  have "x mod 2 ^ 27 = j"
    using mod_mult_self2 [of j "2 ^ 27" 64] assms(1) by (simp add: add.commute x_def)
  then show "bits_of d 21 27 = of_nat j"
    using assms(1) unfolding bits_of_eq_iff div_values by (simp add: unat_of_nat)
  have "unat d = 2 ^ 54 + (2 ^ 21 * j + c)" unfolding u by simp
  moreover have "2 ^ 21 * j + c < 2 ^ 53" using assms(1,2) by auto
  ultimately show "bit d 54" "\<not> bit d 53" unfolding bit_unat by (simp_all only: high_part_div) simp_all
qed

lemma section_output:
  assumes "bits_of d 21 27 = of_nat j"
  shows "push_bit 21 (bits_of d 21 27) OR bits_of va 0 21 = of_nat (j * 2097152 + unat va mod 2097152)"
proof -
  have "push_bit 21 (bits_of d 21 27) AND bits_of va 0 21 = 0"
    by (rule bit_word_eqI) (auto simp: bits_of_take bit_simps)
  then have "push_bit 21 (bits_of d 21 27) OR bits_of va 0 21 = push_bit 21 (bits_of d 21 27) + bits_of va 0 21"
    by (simp add: disjunctive_add_eq_or)
  moreover have "bits_of va 0 21 = of_nat (unat va mod 2097152)"
    by (simp add: bits_of_eq_iff unat_of_nat)
  ultimately show ?thesis unfolding assms by (simp add: push_bit_eq_mult)
qed

lemma section_descriptor:
  assumes "j < 2048"
  shows "leaf_entry MAIR_EL1_VAL (0x40000000000705 + sections j) 21 va = Some (normal_memory (of_nat (j * 2097152 + unat va mod 2097152)))"
    "leaf_entry MAIR_EL1_VAL (0x40000000000701 + sections j) 21 va = Some (device_memory (of_nat (j * 2097152 + unat va mod 2097152)))"
  using section_bits [OF assms, of 1797] section_bits [OF assms, of 1793]
    section_output [of "0x40000000000705 + sections j" j] section_output [of "0x40000000000701 + sections j" j]
  by (simp_all add: leaf_entry_def normal_memory_def device_memory_def constant_values)

text \<open>The number of the section an address lies in, and the index of each level in terms of it.\<close>

definition section_of :: "64 word \<Rightarrow> nat" where
  "section_of va = unat va div 2 ^ 21 mod 2 ^ 27"

definition level_index :: "64 word \<Rightarrow> nat \<Rightarrow> nat" where
  "level_index va s = unat va div 2 ^ s mod 512"

lemma section_of_split:
  "section_of va = level_index va 21 + 512 * level_index va 30 + 262144 * level_index va 39"
proof -
  define x where "x = unat va div 2 ^ 21"
  have "unat va div 2 ^ 30 = x div 512" "unat va div 2 ^ 39 = x div 512 div 512"
    by (simp_all add: x_def div_mult2_eq [symmetric])
  moreover have "x mod (512 * (512 * 512)) = x mod 512 + 512 * (x div 512 mod 512) + 262144 * (x div 512 div 512 mod 512)"
    by (subst mod_mult2_eq, subst mod_mult2_eq) simp
  ultimately show ?thesis by (simp add: section_of_def level_index_def x_def)
qed

lemma level_index_less: "level_index va s < 512"
  by (simp add: level_index_def)

lemma unat_index:
  assumes "unat w < 2 ^ 20"
  shows "unat (w + push_bit 3 (bits_of va s 9)) = unat w + 8 * level_index va s"
  using assms level_index_less [of va s]
  by (simp add: push_bit_eq_mult unat_word_ariths unat_bits_of level_index_def)

lemma has_table_index:
  assumes "has_table p n entry m m'" "unat w < 2 ^ 20" "8 dvd unat w" "unat w + 4096 \<le> n"
  shows "m' (p + w + push_bit 3 (bits_of va s 9)) = entry (unat w + 8 * level_index va s)"
proof -
  have "p + w + push_bit 3 (bits_of va s 9) - p = w + push_bit 3 (bits_of va s 9)" by simp
  moreover have "unat w + 8 * level_index va s < n" using assms(4) level_index_less [of va s] by simp
  ultimately show ?thesis
    using assms(1,2,3) unfolding has_table_def by (metis dvd_add dvd_triv_left unat_index)
qed

lemma offset_page:
  assumes "page_aligned p" "unat p + n \<le> 2 ^ 32" "unat w < n" "4096 dvd unat w"
  shows "page_aligned (p + w)" "p + w < 2 ^ 32"
proof -
  have "unat (p + w) = unat p + unat w" using assms(2,3) by (simp add: unat_word_ariths)
  then show "page_aligned (p + w)" "p + w < 2 ^ 32"
    using assms by (simp_all add: page_aligned_iff word_less_nat_alt)
qed

lemma walk_table:
  assumes "m (tbl + push_bit 3 (bits_of va s 9)) = q OR 3" "page_aligned q" "q < 2 ^ 32" "tbl < 2 ^ 32" "s \<noteq> 12"
  shows "table_walk m mv tbl va (s # ss) = table_walk m mv q va ss"
  using assms table_descriptor [OF assms(2,3)] by (simp add: Let_def)

lemma walk_nothing:
  "m (tbl + push_bit 3 (bits_of va s 9)) = 0 \<Longrightarrow> table_walk m mv tbl va (s # ss) = None"
  by (simp add: Let_def)

lemma walk_normal:
  assumes "m (tbl + push_bit 3 (bits_of va 21 9)) = 0x40000000000705 + sections j" "j < 2048" "tbl < 2 ^ 32"
  shows "table_walk m MAIR_EL1_VAL tbl va (21 # ss) = Some (normal_memory (of_nat (j * 2097152 + unat va mod 2097152)))"
  using assms section_bits [of j 1797] section_descriptor [of j va] by (simp add: Let_def)

lemma walk_device:
  assumes "m (tbl + push_bit 3 (bits_of va 21 9)) = 0x40000000000701 + sections j" "j < 2048" "tbl < 2 ^ 32"
  shows "table_walk m MAIR_EL1_VAL tbl va (21 # ss) = Some (device_memory (of_nat (j * 2097152 + unat va mod 2097152)))"
  using assms section_bits [of j 1793] section_descriptor [of j va] by (simp add: Let_def)

lemma identity_walk:
  assumes p: "page_aligned p" "unat p + 12288 \<le> 2 ^ 32" and t: "has_table p 12288 (id_entry p) m m'"
  shows "table_walk m' MAIR_EL1_VAL p va [39, 30, 21, 12] =
    (if section_of va < 8 then Some (normal_memory (of_nat (section_of va * 2097152 + unat va mod 2097152)))
     else None)"
proof -
  let ?i0 = "level_index va 39" and ?i1 = "level_index va 30" and ?i2 = "level_index va 21"
  have r0: "m' (p + push_bit 3 (bits_of va 39 9)) = (if ?i0 = 0 then p + 4096 OR 3 else 0)"
    and r1: "m' (p + 4096 + push_bit 3 (bits_of va 30 9)) = (if ?i1 = 0 then p + 8192 OR 3 else 0)"
    and r2: "m' (p + 8192 + push_bit 3 (bits_of va 21 9)) = (if ?i2 < 8 then 0x40000000000705 + sections ?i2 else 0)"
    using has_table_index [OF t, of 0 va 39] has_table_index [OF t, of 4096 va 30] has_table_index [OF t, of 8192 va 21]
      level_index_less [of va 39] level_index_less [of va 30] level_index_less [of va 21]
    by (auto simp: id_entry_def)
  have o: "p < 2 ^ 32" "page_aligned (p + 4096)" "p + 4096 < 2 ^ 32" "page_aligned (p + 8192)" "p + 8192 < 2 ^ 32"
    using offset_page [OF p, of 0] offset_page [OF p, of 4096] offset_page [OF p, of 8192] by simp_all
  have walk1: "table_walk m' MAIR_EL1_VAL p va [39, 30, 21, 12] =
      (if ?i0 = 0 then table_walk m' MAIR_EL1_VAL (p + 4096) va [30, 21, 12] else None)"
    using walk_table [OF _ o(2,3,1), of m' va 39] walk_nothing [of m' p va 39] r0 by simp
  have walk2: "table_walk m' MAIR_EL1_VAL (p + 4096) va [30, 21, 12] =
      (if ?i1 = 0 then table_walk m' MAIR_EL1_VAL (p + 8192) va [21, 12] else None)"
    using walk_table [OF _ o(4,5,3), of m' va 30] walk_nothing [of m' "p + 4096" va 30] r1 by simp
  have walk3: "table_walk m' MAIR_EL1_VAL (p + 8192) va [21, 12] =
      (if ?i2 < 8 then Some (normal_memory (of_nat (?i2 * 2097152 + unat va mod 2097152))) else None)"
    using walk_normal [of m' "p + 8192" va ?i2 "[12]"] walk_nothing [of m' "p + 8192" va 21] r2 o(5) by simp
  have "section_of va < 8 \<longleftrightarrow> ?i0 = 0 \<and> ?i1 = 0 \<and> ?i2 < 8" "?i0 = 0 \<and> ?i1 = 0 \<longrightarrow> section_of va = ?i2"
    unfolding section_of_split by auto
  then show ?thesis unfolding walk1 walk2 walk3 by auto
qed

lemma high_walk:
  assumes p: "page_aligned p" "unat p + 24576 \<le> 2 ^ 32" and t: "has_table p 24576 (high_entry p) m m'"
  shows "table_walk m' MAIR_EL1_VAL p va [39, 30, 21, 12] =
    (let n = section_of va; pa = of_nat (n * 2097152 + unat va mod 2097152)
     in if n < 0x1fa \<or> 0x200 \<le> n \<and> n < 0x7e0 then Some (normal_memory pa)
        else if 0x7e0 \<le> n \<and> n < 0x800 then Some (device_memory pa) else None)"
proof -
  let ?i0 = "level_index va 39" and ?i1 = "level_index va 30" and ?i2 = "level_index va 21"
  let ?q = "p + (8192 + of_nat ?i1 * 4096)"
  define j where "j = 512 * ?i1 + ?i2"
  have less: "?i0 < 512" "?i1 < 512" "?i2 < 512" by (simp_all add: level_index_less)
  have r0: "m' (p + push_bit 3 (bits_of va 39 9)) = (if ?i0 = 0 then p + 4096 OR 3 else 0)"
    and r1: "m' (p + 4096 + push_bit 3 (bits_of va 30 9)) = (if ?i1 < 4 then ?q OR 3 else 0)"
    using has_table_index [OF t, of 0 va 39] has_table_index [OF t, of 4096 va 30] less
    by (auto simp: high_entry_def)
  have q: "unat (8192 + of_nat ?i1 * 4096 :: 64 word) = 8192 + 4096 * ?i1" if "?i1 < 4"
    using that by (simp add: unat_word_ariths unat_of_nat)
  have r2: "m' (?q + push_bit 3 (bits_of va 21 9)) =
      (if j < 0x1fa \<or> 0x200 \<le> j \<and> j < 0x7e0 then 0x40000000000705 + sections j
       else if 0x7e0 \<le> j then 0x40000000000701 + sections j else 0)" if "?i1 < 4"
    using has_table_index [OF t, of "8192 + of_nat ?i1 * 4096" va 21] that less
    by (simp add: q high_entry_def Let_def j_def)
  have o: "p < 2 ^ 32" "page_aligned (p + 4096)" "p + 4096 < 2 ^ 32"
    using offset_page [OF p, of 0] offset_page [OF p, of 4096] by simp_all
  have oq: "page_aligned ?q" "?q < 2 ^ 32" if "?i1 < 4"
    using offset_page [OF p, of "8192 + of_nat ?i1 * 4096"] that by (simp_all add: q)
  have walk1: "table_walk m' MAIR_EL1_VAL p va [39, 30, 21, 12] =
      (if ?i0 = 0 then table_walk m' MAIR_EL1_VAL (p + 4096) va [30, 21, 12] else None)"
    using walk_table [OF _ o(2,3,1), of m' va 39] walk_nothing [of m' p va 39] r0 by simp
  have walk2: "table_walk m' MAIR_EL1_VAL (p + 4096) va [30, 21, 12] =
      (if ?i1 < 4 then table_walk m' MAIR_EL1_VAL ?q va [21, 12] else None)"
    using walk_table [OF _ oq o(3), of m' va 30] walk_nothing [of m' "p + 4096" va 30] r1 by simp
  have walk3: "table_walk m' MAIR_EL1_VAL ?q va [21, 12] =
      (let pa = of_nat (j * 2097152 + unat va mod 2097152)
       in if j < 0x1fa \<or> 0x200 \<le> j \<and> j < 0x7e0 then Some (normal_memory pa)
          else if 0x7e0 \<le> j then Some (device_memory pa) else None)" if "?i1 < 4"
  proof -
    have "j < 2048" using that less by (simp add: j_def)
    note normal = walk_normal [OF _ this oq(2) [OF that], of m' va "[12]"]
      and device = walk_device [OF _ this oq(2) [OF that], of m' va "[12]"]
      and nothing = walk_nothing [of m' ?q va 21 MAIR_EL1_VAL "[12]"]
    consider "j < 0x1fa \<or> 0x200 \<le> j \<and> j < 0x7e0" | "0x7e0 \<le> j" | "0x1fa \<le> j" "j < 0x200" by linarith
    then show ?thesis
    proof cases
      case 1
      then show ?thesis using normal r2 [OF that] by (simp only: if_True Let_def)
    next
      case 2
      then show ?thesis using device r2 [OF that] by simp
    next
      case 3
      then show ?thesis using nothing r2 [OF that] by simp
    qed
  qed
  have "section_of va < 2048 \<longleftrightarrow> ?i0 = 0 \<and> ?i1 < 4" "?i0 = 0 \<longrightarrow> section_of va = j"
    using less unfolding section_of_split j_def by auto
  then show ?thesis unfolding walk1 walk2 using walk3 by (auto simp: Let_def)
qed

subsection \<open>The address space of the kernel\<close>

text \<open>What the comments of the sources intend: the first 16 MB map to themselves, and from
  \<open>LINEAR_MAP_BASE\<close> on follow the 4 GB of physical addresses, as device memory from \<open>0xFC000000\<close> on,
  without the part the video core keeps.\<close>

definition kernel_map :: "64 word \<Rightarrow> translation option" where
  "kernel_map va =
     (if va < 0x1000000 then Some (normal_memory va)
      else if LINEAR_MAP_BASE \<le> va then
        (let pa = va - LINEAR_MAP_BASE
         in if pa < 0x3F400000 \<or> 0x40000000 \<le> pa \<and> pa < 0xFC000000 then Some (normal_memory pa)
            else if 0xFC000000 \<le> pa \<and> pa < 0x100000000 then Some (device_memory pa) else None)
      else None)"

text \<open>Where the linker puts the tables: aligned to a page, the identity tables before the high ones, below 4 GB.\<close>

definition tables_placed :: "64 word \<Rightarrow> 64 word \<Rightarrow> bool" where
  "tables_placed id_pg_dir high_pg_dir \<longleftrightarrow> page_aligned id_pg_dir \<and> page_aligned high_pg_dir \<and>
     unat id_pg_dir + 12288 \<le> unat high_pg_dir \<and> unat high_pg_dir + 24576 \<le> 2 ^ 32"

definition kernel_mmu :: "64 word \<Rightarrow> 64 word \<Rightarrow> mmu_regs" where
  "kernel_mmu id_pg_dir high_pg_dir =
     \<lparr>ttbr0 = id_pg_dir, ttbr1 = high_pg_dir, tcr = TCR_EL1_VAL, mair = MAIR_EL1_VAL\<rparr>"

lemma table_base:
  assumes "page_aligned q" "unat q < 2 ^ 32"
  shows "push_bit 12 (bits_of q 12 36) = q"
proof -
  obtain k where k: "unat q = 4096 * k" using assms(1) by (auto simp: page_aligned_iff)
  then have "k < 2 ^ 20" using assms(2) by simp
  then have "unat (push_bit 12 (bits_of q 12 36)) = unat q"
    using k by (simp add: push_bit_eq_mult unat_word_ariths unat_bits_of)
  then show ?thesis by (simp add: word_unat_eq_iff)
qed

lemma tcr_supported_kernel: "tcr_supported TCR_EL1_VAL"
  by (simp add: tcr_supported_def bits_of_eq_iff constant_values bit_unat)

lemma low_section:
  assumes "bits_of va 48 16 = 0"
  shows "section_of va = unat va div 2 ^ 21" "of_nat (section_of va * 2097152 + unat va mod 2097152) = va"
proof -
  have "unat va div 2 ^ 48 < 2 ^ 16" using unsigned_less [of va, where ?'a = nat] by (simp add: less_mult_imp_div_less)
  then have "unat va < 2 ^ 48" using assms by (simp add: bits_of_eq_iff)
  then show "section_of va = unat va div 2 ^ 21" by (simp add: section_of_def less_mult_imp_div_less)
  then show "of_nat (section_of va * 2097152 + unat va mod 2097152) = va" by (simp add: word_unat_eq_iff)
qed

lemma high_section:
  assumes "bits_of va 48 16 = mask 16"
  shows "\<exists>w < 2 ^ 48. unat va = unat LINEAR_MAP_BASE + w \<and> va - LINEAR_MAP_BASE = of_nat w \<and>
    section_of va = w div 2 ^ 21 \<and> section_of va * 2097152 + unat va mod 2097152 = w"
proof -
  define w where "w = unat va mod 2 ^ 48"
  have "unat va div 2 ^ 48 < 2 ^ 16" using unsigned_less [of va, where ?'a = nat] by (simp add: less_mult_imp_div_less)
  then have "unat va div 2 ^ 48 = 0xffff" using assms by (simp add: bits_of_eq_iff mask_numeral)
  then have va: "unat va = 2 ^ 48 * 0xffff + w"
    using mult_div_mod_eq [of "2 ^ 48" "unat va"] by (simp add: w_def)
  have base: "unat LINEAR_MAP_BASE = 2 ^ 48 * 0xffff" by (simp add: LINEAR_MAP_BASE_def)
  have w: "w < 2 ^ 48" by (simp add: w_def)
  have "va = of_nat (unat LINEAR_MAP_BASE + w)" unfolding base va [symmetric] by simp
  then have diff: "va - LINEAR_MAP_BASE = of_nat w" by simp
  have "unat va div 2 ^ 21 = 2 ^ 27 * 0xffff + w div 2 ^ 21"
    using div_mult_self4 [of "2 ^ 21" "2 ^ 27 * 0xffff" w] va by simp
  moreover have "w div 2 ^ 21 < 2 ^ 27" using w by (simp add: less_mult_imp_div_less)
  ultimately have sec: "section_of va = w div 2 ^ 21"
    using mod_mult_self2 [of "w div 2 ^ 21" "2 ^ 27" "0xffff"] by (simp add: section_of_def add.commute)
  have "unat va mod 2097152 = w mod 2097152"
    using mod_mult_self2 [of w "2 ^ 21" "2 ^ 27 * 0xffff"] va by (simp add: add.commute)
  then have "section_of va * 2097152 + unat va mod 2097152 = w" using sec by simp
  then show ?thesis using va base w diff sec by auto
qed

lemma identity_translation:
  assumes "bits_of va 48 16 = 0" "page_aligned p" "unat p + 12288 \<le> 2 ^ 32" "has_table p 12288 (id_entry p) m m'"
  shows "table_walk m' MAIR_EL1_VAL p va [39, 30, 21, 12] = kernel_map va"
proof -
  have "unat va div 2 ^ 48 < 2 ^ 16" using unsigned_less [of va, where ?'a = nat] by (simp add: less_mult_imp_div_less)
  then have "unat va < 2 ^ 48" using assms(1) by (simp add: bits_of_eq_iff)
  then have "\<not> LINEAR_MAP_BASE \<le> va" by (simp add: word_le_nat_alt LINEAR_MAP_BASE_def)
  moreover have "section_of va < 8 \<longleftrightarrow> va < 0x1000000"
    using low_section(1) [OF assms(1)] by (simp add: word_less_nat_alt div_less_iff_less_mult)
  ultimately show ?thesis
    using identity_walk [OF assms(2,3,4), of va] low_section(2) [OF assms(1)]
    by (simp add: kernel_map_def)
qed

lemma high_translation:
  assumes "bits_of va 48 16 = mask 16" "page_aligned p" "unat p + 24576 \<le> 2 ^ 32" "has_table p 24576 (high_entry p) m m'"
  shows "table_walk m' MAIR_EL1_VAL p va [39, 30, 21, 12] = kernel_map va"
proof -
  obtain w where w: "w < 2 ^ 48" "unat va = unat LINEAR_MAP_BASE + w" "va - LINEAR_MAP_BASE = of_nat w"
    "section_of va = w div 2 ^ 21" "section_of va * 2097152 + unat va mod 2097152 = w"
    using high_section [OF assms(1)] by blast
  have n: "unat (of_nat w :: 64 word) = w" using w(1) by (simp add: unat_of_nat)
  have le: "LINEAR_MAP_BASE \<le> va" "\<not> va < 0x1000000"
    using w(2) by (simp_all add: word_le_nat_alt word_less_nat_alt LINEAR_MAP_BASE_def)
  have cmp: "section_of va < 0x1fa \<longleftrightarrow> w < 0x3F400000" "0x200 \<le> section_of va \<longleftrightarrow> 0x40000000 \<le> w"
    "section_of va < 0x7e0 \<longleftrightarrow> w < 0xFC000000" "0x7e0 \<le> section_of va \<longleftrightarrow> 0xFC000000 \<le> w"
    "section_of va < 0x800 \<longleftrightarrow> w < 0x100000000"
    by (simp_all add: w(4) div_less_iff_less_mult less_eq_div_iff_mult_less_eq)
  show ?thesis
    using high_walk [OF assms(2,3,4), of va] le
    unfolding w(5) Let_def cmp
    by (simp add: kernel_map_def w(3) Let_def word_less_nat_alt word_le_nat_alt n)
qed

lemma kernel_map_hole:
  assumes "bits_of va 48 16 \<noteq> 0" "bits_of va 48 16 \<noteq> mask 16"
  shows "kernel_map va = None"
proof -
  have d: "unat va div 2 ^ 48 < 2 ^ 16" using unsigned_less [of va, where ?'a = nat] by (simp add: less_mult_imp_div_less)
  then have "unat va div 2 ^ 48 \<noteq> 0" "unat va div 2 ^ 48 \<noteq> 0xffff"
    using assms by (auto simp: bits_of_eq_iff mask_numeral)
  then have "2 ^ 48 \<le> unat va" "unat va div 2 ^ 48 < 0xffff" using d by (auto simp: div_eq_0_iff)
  then have "\<not> va < 0x1000000" "\<not> LINEAR_MAP_BASE \<le> va"
    by (simp_all add: word_less_nat_alt word_le_nat_alt LINEAR_MAP_BASE_def div_less_iff_less_mult)
  then show ?thesis by (simp add: kernel_map_def)
qed

lemma kernel_map_small: "kernel_map va = Some t \<Longrightarrow> address_size_ok t"
  by (auto simp: kernel_map_def address_size_ok_def normal_memory_def device_memory_def Let_def word_less_nat_alt
      split: if_splits)

text \<open>The tables are in memory; that is all a translation depends on.\<close>

definition tables_in :: "64 word \<Rightarrow> 64 word \<Rightarrow> ram \<Rightarrow> bool" where
  "tables_in p q m \<longleftrightarrow> has_table p 12288 (id_entry p) m m \<and> has_table q 24576 (high_entry q) m m"

lemma tables_in_cong:
  assumes "tables_in p q m" "\<And>a. unat (a - p) < 12288 \<or> unat (a - q) < 24576 \<Longrightarrow> m' a = m a"
  shows "tables_in p q m'"
  using assms unfolding tables_in_def has_table_def by metis

lemma tables_inI:
  assumes "tables_placed p q" "has_table p 12288 (id_entry p) m m1" "has_table q 24576 (high_entry q) m1 m2"
  shows "tables_in p q m2"
proof -
  have u: "unat p + 12288 \<le> unat q" "unat q + 24576 \<le> 2 ^ 32" using assms(1) by (simp_all add: tables_placed_def)
  have k: "unat (q - p) = unat q - unat p" using u(1) by (simp add: unat_sub word_le_nat_alt)
  have apart: "24576 \<le> unat (x - q)" if "unat (x - p) < 12288" for x
  proof -
    have "\<not> unat q - unat p \<le> unat (x - p)" using that u(1) by linarith
    moreover have "24576 \<le> 18446744073709551616 - (unat q - unat p)" using u(2) by simp
    ultimately show ?thesis using unat_off [of x p "q - p"] unfolding k by simp
  qed
  then show ?thesis using assms(2,3) unfolding tables_in_def has_table_def by (metis not_less)
qed

lemma translate_kernel:
  assumes "tables_placed p q" "tables_in p q m"
  shows "translate (kernel_mmu p q) m va = kernel_map va"
proof -
  have a: "page_aligned p" "page_aligned q" and u: "unat p + 12288 \<le> unat q" "unat q + 24576 \<le> 2 ^ 32"
    using assms(1) by (simp_all add: tables_placed_def)
  have base: "push_bit 12 (bits_of p 12 36) = p" "push_bit 12 (bits_of q 12 36) = q"
    using u by (intro table_base a; simp)+
  note t = assms(2) [unfolded tables_in_def]
  have walks: "(if bits_of va 48 16 = 0 then table_walk m MAIR_EL1_VAL p va [39, 30, 21, 12]
      else if bits_of va 48 16 = mask 16 then table_walk m MAIR_EL1_VAL q va [39, 30, 21, 12] else None) = kernel_map va"
    using identity_translation [OF _ a(1) _ conjunct1 [OF t], of va]
      high_translation [OF _ a(2) _ conjunct2 [OF t], of va] kernel_map_hole [of va] u
    by (simp del: table_walk.simps)
  show ?thesis
    using kernel_map_small [of va]
    by (simp only: translate_def kernel_mmu_def mmu_regs.simps tcr_supported_kernel base walks not_True_eq_False if_False)
      (simp split: option.split)
qed

lemma map_both:
  assumes "tables_placed p q"
  shows "\<exists>m1 m2. map_identity p m = Some m1 \<and> map_high q m1 = Some m2 \<and> tables_in p q m2 \<and>
    (\<forall>a. 12288 \<le> unat (a - p) \<longrightarrow> 24576 \<le> unat (a - q) \<longrightarrow> m2 a = m a)"
proof -
  have a: "page_aligned p" "page_aligned q" using assms by (simp_all add: tables_placed_def)
  obtain m1 where m1: "map_identity p m = Some m1" "has_table p 12288 (id_entry p) m m1"
    using map_identity_table [OF a(1)] by blast
  obtain m2 where m2: "map_high q m1 = Some m2" "has_table q 24576 (high_entry q) m1 m2"
    using map_high_table [OF a(2)] by blast
  have "m2 x = m x" if "12288 \<le> unat (x - p)" "24576 \<le> unat (x - q)" for x
    using m1(2) m2(2) that unfolding has_table_def by (metis not_less)
  then show ?thesis using m1(1) m2(1) tables_inI [OF assms m1(2) m2(2)] by blast
qed



end
