(* ===== verification/Sysregs.thy ===== *)
theory Sysregs
  imports Mmu
begin

text \<open>
  The system registers of a core: the constants of \<open>src/include/Pstate.h\<close> and \<open>src/include/Sysregs.h\<close>, the
  functions of \<open>Pstate.h\<close> that read and write the registers, and the ones of \<open>src/asm/functions.S\<close> that do
  (\<open>get_el\<close>, \<open>get_core\<close>, \<open>enable_irq\<close> and so on).

  An access that the exception level does not allow is an exception of the processor; the functions are
  partial for that reason (\<open>None\<close>). Traps that another register can ask for are left out.
\<close>

subsection \<open>Constants of \<open>Pstate.h\<close>\<close>

definition EL0 :: "32 word" where "EL0 = 0"
definition EL1 :: "32 word" where "EL1 = 1"
definition EL2 :: "32 word" where "EL2 = 2"
definition EL3 :: "32 word" where "EL3 = 3"
definition CURRENT_EL_MASK :: "32 word" where "CURRENT_EL_MASK = 0x3"
definition CURRENT_EL_SHIFT :: nat where "CURRENT_EL_SHIFT = 2"
definition SPSR_USE_L :: "32 word" where "SPSR_USE_L = 0"
definition SPSR_USE_H :: "32 word" where "SPSR_USE_H = 1"
definition SPSR_L_H_MASK :: "32 word" where "SPSR_L_H_MASK = 1"
definition SPSR_M_SHIFT :: nat where "SPSR_M_SHIFT = 4"
definition SPSR_ERET_32 :: "32 word" where "SPSR_ERET_32 = push_bit SPSR_M_SHIFT 1"
definition SPSR_ERET_64 :: "32 word" where "SPSR_ERET_64 = push_bit SPSR_M_SHIFT 0"
definition SPSR_FIQ :: "32 word" where "SPSR_FIQ = push_bit 6 1"
definition SPSR_IRQ :: "32 word" where "SPSR_IRQ = push_bit 7 1"
definition SPSR_SERROR :: "32 word" where "SPSR_SERROR = push_bit 8 1"
definition SPSR_DEBUG :: "32 word" where "SPSR_DEBUG = push_bit 9 1"
definition SPSR_EXCEPTION_MASK :: "32 word" where "SPSR_EXCEPTION_MASK = SPSR_FIQ OR SPSR_IRQ OR SPSR_SERROR OR SPSR_DEBUG"
definition SCR_NS_SHIFT :: nat where "SCR_NS_SHIFT = 0"
definition SCR_NS_MASK :: "32 word" where "SCR_NS_MASK = push_bit SCR_NS_SHIFT 1"
definition SCR_NS_ENABLE :: "32 word" where "SCR_NS_ENABLE = push_bit SCR_NS_SHIFT 1"
definition SCR_NS_DISABLE :: "32 word" where "SCR_NS_DISABLE = push_bit SCR_NS_SHIFT 0"
definition SCR_NS :: "32 word" where "SCR_NS = SCR_NS_ENABLE"
definition SCR_RES1 :: "32 word" where "SCR_RES1 = push_bit 4 0x3"
definition SCR_IRQ_SHIFT :: nat where "SCR_IRQ_SHIFT = 2"
definition SCR_IRQ_MASK :: "32 word" where "SCR_IRQ_MASK = push_bit SCR_IRQ_SHIFT 1"
definition SCR_IRQ_ENABLE :: "32 word" where "SCR_IRQ_ENABLE = push_bit SCR_IRQ_SHIFT 1"
definition SCR_IRQ_DISABLE :: "32 word" where "SCR_IRQ_DISABLE = push_bit SCR_IRQ_SHIFT 0"
definition SCR_FIQ_SHIFT :: nat where "SCR_FIQ_SHIFT = 2"
definition SCR_FIQ_MASK :: "32 word" where "SCR_FIQ_MASK = push_bit SCR_FIQ_SHIFT 1"
definition SCR_FIQ_ENABLE :: "32 word" where "SCR_FIQ_ENABLE = push_bit SCR_FIQ_SHIFT 1"
definition SCR_FIQ_DISABLE :: "32 word" where "SCR_FIQ_DISABLE = push_bit SCR_FIQ_SHIFT 0"
definition SCR_EA_SHIFT :: nat where "SCR_EA_SHIFT = 3"
definition SCR_EA_MASK :: "32 word" where "SCR_EA_MASK = push_bit SCR_EA_SHIFT 1"
definition SCR_EA_ENABLE :: "32 word" where "SCR_EA_ENABLE = push_bit SCR_EA_SHIFT 1"
definition SCR_EA_DISABLE :: "32 word" where "SCR_EA_DISABLE = push_bit SCR_EA_SHIFT 0"
definition SCR_SMC_SHIFT :: nat where "SCR_SMC_SHIFT = 7"
definition SCR_SMC_MASK :: "32 word" where "SCR_SMC_MASK = push_bit SCR_SMC_SHIFT 1"
definition SCR_SMC_DISABLE :: "32 word" where "SCR_SMC_DISABLE = push_bit SCR_SMC_SHIFT 1"
definition SCR_SMC_ENABLE :: "32 word" where "SCR_SMC_ENABLE = push_bit SCR_SMC_SHIFT 0"
definition SCR_HVC_SHIFT :: nat where "SCR_HVC_SHIFT = 8"
definition SCR_HVC_MASK :: "32 word" where "SCR_HVC_MASK = push_bit SCR_HVC_SHIFT 1"
definition SCR_HVC_DISABLE :: "32 word" where "SCR_HVC_DISABLE = push_bit SCR_HVC_SHIFT 0"
definition SCR_HVC_ENABLE :: "32 word" where "SCR_HVC_ENABLE = push_bit SCR_HVC_SHIFT 1"
definition SCR_SIF_SHIFT :: nat where "SCR_SIF_SHIFT = 9"
definition SCR_SIF_MASK :: "32 word" where "SCR_SIF_MASK = push_bit SCR_SIF_SHIFT 1"
definition SCR_SIF_ENABLE :: "32 word" where "SCR_SIF_ENABLE = push_bit SCR_SIF_SHIFT 1"
definition SCR_SIF_DISABLE :: "32 word" where "SCR_SIF_DISABLE = push_bit SCR_SIF_SHIFT 0"
definition SCR_RW_SHIFT :: nat where "SCR_RW_SHIFT = 10"
definition SCR_RW_MASK :: "32 word" where "SCR_RW_MASK = push_bit SCR_RW_SHIFT 1"
definition SCR_LOWER_AARCH64 :: "32 word" where "SCR_LOWER_AARCH64 = push_bit SCR_RW_SHIFT 1"
definition SCR_LOWER_AARCH32 :: "32 word" where "SCR_LOWER_AARCH32 = push_bit SCR_RW_SHIFT 0"
definition SCR_ST_SHIFT :: nat where "SCR_ST_SHIFT = 11"
definition SCR_ST_MASK :: "32 word" where "SCR_ST_MASK = push_bit SCR_ST_SHIFT 1"
definition SCR_ST_ENABLE :: "32 word" where "SCR_ST_ENABLE = push_bit SCR_ST_SHIFT 1"
definition SCR_ST_DISABLE :: "32 word" where "SCR_ST_DISABLE = push_bit SCR_ST_SHIFT 0"
definition SCR_TWI_SHIFT :: nat where "SCR_TWI_SHIFT = 12"
definition SCR_TWI_MASK :: "32 word" where "SCR_TWI_MASK = push_bit SCR_TWI_SHIFT 1"
definition SCR_TWI_ENABLE :: "32 word" where "SCR_TWI_ENABLE = push_bit SCR_TWI_SHIFT 1"
definition SCR_TWI_DISABLE :: "32 word" where "SCR_TWI_DISABLE = push_bit SCR_TWI_SHIFT 0"
definition SCR_TWE_SHIFT :: nat where "SCR_TWE_SHIFT = 13"
definition SCR_TWE_MASK :: "32 word" where "SCR_TWE_MASK = push_bit SCR_TWE_SHIFT 1"
definition SCR_TWE_ENABLE :: "32 word" where "SCR_TWE_ENABLE = push_bit SCR_TWE_SHIFT 1"
definition SCR_TWE_DISABLE :: "32 word" where "SCR_TWE_DISABLE = push_bit SCR_TWE_SHIFT 0"
definition HCR_RW_SHIFT :: nat where "HCR_RW_SHIFT = 31"
definition HCR_LOWER_AARCH64 :: "32 word" where "HCR_LOWER_AARCH64 = push_bit HCR_RW_SHIFT 1"
definition HCR_LOWER_AARCH32 :: "32 word" where "HCR_LOWER_AARCH32 = push_bit HCR_RW_SHIFT 0"
definition SCTLR_MMU_ENABLE :: "32 word" where "SCTLR_MMU_ENABLE = 1"
definition SCTLR_MMU_DISABLE :: "32 word" where "SCTLR_MMU_DISABLE = 0"
definition SCTLR_ACE_SHIFT :: nat where "SCTLR_ACE_SHIFT = 1"
definition SCTLR_ACE_ENABLE :: "32 word" where "SCTLR_ACE_ENABLE = push_bit SCTLR_ACE_SHIFT 1"
definition SCTLR_ACE_DISABLE :: "32 word" where "SCTLR_ACE_DISABLE = push_bit SCTLR_ACE_SHIFT 0"
definition SCTLR_CACHE_SHIFT :: nat where "SCTLR_CACHE_SHIFT = 2"
definition SCTLR_CACHE_ENABLE :: "32 word" where "SCTLR_CACHE_ENABLE = push_bit SCTLR_CACHE_SHIFT 1"
definition SCTLR_CACHE_DISABLE :: "32 word" where "SCTLR_CACHE_DISABLE = push_bit SCTLR_CACHE_SHIFT 0"
definition SCTLR_SAE_SHIFT :: nat where "SCTLR_SAE_SHIFT = 3"
definition SCTLR_SAE_ENABLE :: "32 word" where "SCTLR_SAE_ENABLE = push_bit SCTLR_SAE_SHIFT 1"
definition SCTLR_SAE_DISABLE :: "32 word" where "SCTLR_SAE_DISABLE = push_bit SCTLR_SAE_SHIFT 0"
definition SCTLR_RES1 :: "32 word" where "SCTLR_RES1 = push_bit 4 0x3 OR push_bit 11 0x1 OR push_bit 16 0x1 OR push_bit 18 0x1 OR push_bit 22 0x3 OR push_bit 28 0x3"
definition SCTLR_ICE_SHIFT :: nat where "SCTLR_ICE_SHIFT = 12"
definition SCTLR_ICE_ENABLE :: "32 word" where "SCTLR_ICE_ENABLE = push_bit SCTLR_ICE_SHIFT 1"
definition SCTLR_ICE_DISABLE :: "32 word" where "SCTLR_ICE_DISABLE = push_bit SCTLR_ICE_SHIFT 0"
definition SCTLR_WXN_SHIFT :: nat where "SCTLR_WXN_SHIFT = 19"
definition SCTLR_WXN_ENABLE :: "32 word" where "SCTLR_WXN_ENABLE = push_bit SCTLR_WXN_SHIFT 1"
definition SCTLR_WXN_DISABLE :: "32 word" where "SCTLR_WXN_DISABLE = push_bit SCTLR_WXN_SHIFT 0"
definition SCTLR_ENDIAN_SHIFT :: nat where "SCTLR_ENDIAN_SHIFT = 25"
definition SCTLR_LITTLE_END :: "32 word" where "SCTLR_LITTLE_END = push_bit SCTLR_ENDIAN_SHIFT 0"
definition SCTLR_BIG_END :: "32 word" where "SCTLR_BIG_END = push_bit SCTLR_ENDIAN_SHIFT 1"
definition CPTR_EL3_TCPAC_SHIFT :: nat where "CPTR_EL3_TCPAC_SHIFT = 31"
definition CPTR_EL3_TTA_SHIFT :: nat where "CPTR_EL3_TTA_SHIFT = 20"
definition CPTR_EL3_TFP_SHIFT :: nat where "CPTR_EL3_TFP_SHIFT = 10"
definition CPTR_EL3_TCPAC_DISABLE :: "32 word" where "CPTR_EL3_TCPAC_DISABLE = push_bit CPTR_EL3_TCPAC_SHIFT 0"
definition CPTR_EL3_TCPAC_ENABLE :: "32 word" where "CPTR_EL3_TCPAC_ENABLE = push_bit CPTR_EL3_TCPAC_SHIFT 1"
definition CPTR_EL3_TTA_DISABLE :: "32 word" where "CPTR_EL3_TTA_DISABLE = push_bit CPTR_EL3_TTA_SHIFT 0"
definition CPTR_EL3_TTA_ENABLE :: "32 word" where "CPTR_EL3_TTA_ENABLE = push_bit CPTR_EL3_TTA_SHIFT 1"
definition CPTR_EL3_TFP_DISABLE :: "32 word" where "CPTR_EL3_TFP_DISABLE = push_bit CPTR_EL3_TFP_SHIFT 0"
definition CPTR_EL3_TFP_ENABLE :: "32 word" where "CPTR_EL3_TFP_ENABLE = push_bit CPTR_EL3_TFP_SHIFT 1"
definition CPACR_TTA_SHIFT :: nat where "CPACR_TTA_SHIFT = 28"
definition CPACR_TTA_ENABLE :: "32 word" where "CPACR_TTA_ENABLE = push_bit CPACR_TTA_SHIFT 1"
definition CPACR_TTA_DISABLE :: "32 word" where "CPACR_TTA_DISABLE = push_bit CPACR_TTA_SHIFT 0"
definition CPACR_FPEN_SHIFT :: nat where "CPACR_FPEN_SHIFT = 20"
definition CPACR_TRAP_FP_EL0_EL1 :: "32 word" where "CPACR_TRAP_FP_EL0_EL1 = push_bit CPACR_FPEN_SHIFT 0"
definition CPACR_TRAP_FP_EL0 :: "32 word" where "CPACR_TRAP_FP_EL0 = push_bit CPACR_FPEN_SHIFT 1"
definition CPACR_TRAP_FP_DISABLE :: "32 word" where "CPACR_TRAP_FP_DISABLE = push_bit CPACR_FPEN_SHIFT 3"
definition DAIF_DBG_BIT :: "32 word" where "DAIF_DBG_BIT = push_bit 3 1"
definition DAIF_ABT_BIT :: "32 word" where "DAIF_ABT_BIT = push_bit 2 1"
definition DAIF_IRQ_BIT :: "32 word" where "DAIF_IRQ_BIT = push_bit 1 1"
definition DAIF_FIQ_BIT :: "32 word" where "DAIF_FIQ_BIT = push_bit 0 1"

subsection \<open>Constants of \<open>Sysregs.h\<close>\<close>

definition SCTLR_RESERVED :: "32 word" where "SCTLR_RESERVED = push_bit 28 3 OR push_bit 22 3 OR push_bit 20 1 OR push_bit 11 1"
definition SCTLR_EE_LITTLE_ENDIAN :: "32 word" where "SCTLR_EE_LITTLE_ENDIAN = push_bit 25 0"
definition SCTLR_EOE_LITTLE_ENDIAN :: "32 word" where "SCTLR_EOE_LITTLE_ENDIAN = push_bit 24 0"
definition SCTLR_I_CACHE_DISABLED :: "32 word" where "SCTLR_I_CACHE_DISABLED = push_bit 12 0"
definition SCTLR_D_CACHE_DISABLED :: "32 word" where "SCTLR_D_CACHE_DISABLED = push_bit 2 0"
definition SCTLR_I_CACHE_ENABLED :: "32 word" where "SCTLR_I_CACHE_ENABLED = push_bit 12 1"
definition SCTLR_D_CACHE_ENABLED :: "32 word" where "SCTLR_D_CACHE_ENABLED = push_bit 2 1"
definition SCTLR_MMU_DISABLED :: "32 word" where "SCTLR_MMU_DISABLED = push_bit 0 0"
definition SCTLR_MMU_ENABLED :: "32 word" where "SCTLR_MMU_ENABLED = push_bit 0 1"
definition SCTLR_VALUE_MMU_DISABLED :: "32 word" where "SCTLR_VALUE_MMU_DISABLED = SCTLR_RESERVED OR SCTLR_EE_LITTLE_ENDIAN OR SCTLR_I_CACHE_ENABLED OR SCTLR_D_CACHE_ENABLED OR SCTLR_MMU_DISABLED"
definition HCR_RW :: "32 word" where "HCR_RW = push_bit 31 1"
definition HCR_VALUE :: "32 word" where "HCR_VALUE = HCR_RW"
definition SCR_RESERVED :: "32 word" where "SCR_RESERVED = push_bit 4 3"
definition SCR_RW :: "32 word" where "SCR_RW = push_bit 10 1"
definition SCR_VALUE :: "32 word" where "SCR_VALUE = SCR_RESERVED OR SCR_RW OR SCR_NS"
definition SPSR_MASK_ALL :: "32 word" where "SPSR_MASK_ALL = push_bit 6 7"
definition SPSR_EL1h :: "32 word" where "SPSR_EL1h = push_bit 0 5"
definition SPSR_VALUE :: "32 word" where "SPSR_VALUE = SPSR_MASK_ALL OR SPSR_EL1h"

lemmas scr_defs = SCR_NS_def SCR_NS_ENABLE_def SCR_NS_SHIFT_def SCR_RES1_def SCR_SMC_DISABLE_def SCR_SMC_SHIFT_def
  SCR_HVC_ENABLE_def SCR_HVC_SHIFT_def SCR_LOWER_AARCH64_def SCR_RW_SHIFT_def

lemmas spsr_defs = SPSR_EXCEPTION_MASK_def SPSR_FIQ_def SPSR_IRQ_def SPSR_SERROR_def SPSR_DEBUG_def
  CURRENT_EL_SHIFT_def EL1_def EL2_def SPSR_USE_L_def SPSR_USE_H_def

text \<open>The numbers \<open>boot.S\<close> and \<open>functions.S\<close> load, in terms of the constants; the values \<open>Sysregs.h\<close> names are
  others.\<close>

lemma boot_constants:
  "SCR_NS OR SCR_RES1 OR SCR_SMC_DISABLE OR SCR_HVC_ENABLE OR SCR_LOWER_AARCH64 = 0x5b1"
  "SPSR_EXCEPTION_MASK OR push_bit CURRENT_EL_SHIFT EL2 OR SPSR_USE_H = 0x3c9"
  "SPSR_EXCEPTION_MASK OR push_bit CURRENT_EL_SHIFT EL1 OR SPSR_USE_L = 0x3c4"
  "SCTLR_MMU_ENABLE OR SCTLR_CACHE_ENABLE = 5"
  by (simp_all add: scr_defs spsr_defs SCTLR_MMU_ENABLE_def SCTLR_CACHE_ENABLE_def SCTLR_CACHE_SHIFT_def
      push_bit_eq_mult)

lemma unused_values:
  "SCR_VALUE = 0x431" "SPSR_VALUE = 0x1c5" "SCTLR_VALUE_MMU_DISABLED = 0x30d01804" "HCR_VALUE = 0x80000000"
  by (simp_all add: SCR_VALUE_def SCR_RESERVED_def SCR_RW_def scr_defs SPSR_VALUE_def SPSR_MASK_ALL_def SPSR_EL1h_def
      SCTLR_VALUE_MMU_DISABLED_def SCTLR_RESERVED_def SCTLR_EE_LITTLE_ENDIAN_def SCTLR_I_CACHE_ENABLED_def
      SCTLR_D_CACHE_ENABLED_def SCTLR_MMU_DISABLED_def HCR_VALUE_def HCR_RW_def push_bit_eq_mult)

subsection \<open>A core\<close>

text \<open>\<open>level\<close> is the exception level. \<open>SP\<close>, \<open>ELR\<close> and \<open>SPSR\<close> stand for the registers of every level
  (\<open>SP_EL0\<close> is \<open>SP s 0\<close>); \<open>X\<close> are the general registers. \<open>DAIF\<close> has the masks in bits 9 to 6, as the register.\<close>

record cpu =
  level :: nat
  debug_state :: bool
  DAIF :: "32 word"
  SPSel :: "32 word"
  NZCV :: "32 word"
  FPCR :: "32 word"
  FPSR :: "32 word"
  DLR_EL0 :: "64 word"
  DSPSR_EL0 :: "64 word"
  SP :: "nat \<Rightarrow> 64 word"
  ELR :: "nat \<Rightarrow> 64 word"
  SPSR :: "nat \<Rightarrow> 32 word"
  SPSR_abt :: "32 word"
  SPSR_fiq :: "32 word"
  SPSR_irq :: "32 word"
  SPSR_und :: "32 word"
  MPIDR_EL1 :: "64 word"
  ESR_EL1 :: "64 word"
  FAR_EL1 :: "64 word"
  VBAR_EL1 :: "64 word"
  SCTLR_EL1 :: "64 word"
  SCR_EL3 :: "64 word"
  HCR_EL2 :: "64 word"
  CNTHCTL_EL2 :: "64 word"
  CNTVOFF_EL2 :: "64 word"
  MMU :: mmu_regs
  X :: "nat \<Rightarrow> 64 word"

text \<open>\<open>mrs\<close> and \<open>msr\<close>: a register can be accessed where the condition \<open>ok\<close> holds.\<close>

definition mrs :: "(cpu \<Rightarrow> bool) \<Rightarrow> (cpu \<Rightarrow> 'a) \<Rightarrow> cpu \<Rightarrow> ('a \<times> cpu) option" where
  "mrs allowed reg s = (if allowed s then Some (reg s, s) else None)"

definition msr :: "(cpu \<Rightarrow> bool) \<Rightarrow> (cpu \<Rightarrow> cpu) \<Rightarrow> cpu \<Rightarrow> cpu option" where
  "msr allowed upd s = (if allowed s then Some (upd s) else None)"

definition from_level :: "nat \<Rightarrow> cpu \<Rightarrow> bool" where
  "from_level n s \<longleftrightarrow> n \<le> level s"

text \<open>The stack pointer in use.\<close>

definition sp_index :: "cpu \<Rightarrow> nat" where
  "sp_index s = (if SPSel s = 0 then 0 else level s)"

subsection \<open>Functions of \<open>Pstate.h\<close>\<close>

definition raw_read_current_el :: "cpu \<Rightarrow> (32 word \<times> cpu) option" where
  "raw_read_current_el = mrs (from_level 1) (\<lambda>s. push_bit 2 (of_nat (level s)))"

definition get_current_el :: "cpu \<Rightarrow> (32 word \<times> cpu) option" where
  "get_current_el s = Option.bind (raw_read_current_el s)
     (\<lambda>(current_el, s). Some (drop_bit CURRENT_EL_SHIFT current_el AND CURRENT_EL_MASK, s))"

definition raw_read_daif :: "cpu \<Rightarrow> (32 word \<times> cpu) option" where
  "raw_read_daif = mrs (from_level 1) DAIF"

definition raw_write_daif :: "32 word \<Rightarrow> cpu \<Rightarrow> cpu option" where
  "raw_write_daif v = msr (from_level 1) (\<lambda>s. s\<lparr>DAIF := v AND 0x3c0\<rparr>)"

text \<open>\<open>msr DAIFClr\<close> and \<open>msr DAIFSet\<close> take the four masks as a number.\<close>

definition daif_clr :: "32 word \<Rightarrow> cpu \<Rightarrow> cpu option" where
  "daif_clr bits = msr (from_level 1) (\<lambda>s. s\<lparr>DAIF := DAIF s AND NOT (push_bit 6 bits)\<rparr>)"

definition daif_set :: "32 word \<Rightarrow> cpu \<Rightarrow> cpu option" where
  "daif_set bits = msr (from_level 1) (\<lambda>s. s\<lparr>DAIF := DAIF s OR push_bit 6 bits\<rparr>)"

definition enable_debug_exceptions :: "cpu \<Rightarrow> cpu option" where
  "enable_debug_exceptions = daif_clr DAIF_DBG_BIT"

definition enable_serror_exceptions :: "cpu \<Rightarrow> cpu option" where
  "enable_serror_exceptions = daif_clr DAIF_ABT_BIT"

definition enable_fiq :: "cpu \<Rightarrow> cpu option" where
  "enable_fiq = daif_clr DAIF_FIQ_BIT"

definition disable_debug_exceptions :: "cpu \<Rightarrow> cpu option" where
  "disable_debug_exceptions = daif_set DAIF_DBG_BIT"

definition disable_serror_exceptions :: "cpu \<Rightarrow> cpu option" where
  "disable_serror_exceptions = daif_set DAIF_ABT_BIT"

definition disable_fiq :: "cpu \<Rightarrow> cpu option" where
  "disable_fiq = daif_set DAIF_FIQ_BIT"

definition raw_read_dlr_el0 :: "cpu \<Rightarrow> (64 word \<times> cpu) option" where
  "raw_read_dlr_el0 = mrs debug_state DLR_EL0"

definition raw_write_dlr_el0 :: "64 word \<Rightarrow> cpu \<Rightarrow> cpu option" where
  "raw_write_dlr_el0 v = msr debug_state (\<lambda>s. s\<lparr>DLR_EL0 := v\<rparr>)"

definition raw_read_dspsr_el0 :: "cpu \<Rightarrow> (64 word \<times> cpu) option" where
  "raw_read_dspsr_el0 = mrs debug_state DSPSR_EL0"

definition raw_write_dspsr_el0 :: "64 word \<Rightarrow> cpu \<Rightarrow> cpu option" where
  "raw_write_dspsr_el0 v = msr debug_state (\<lambda>s. s\<lparr>DSPSR_EL0 := v\<rparr>)"

text \<open>The macros that choose a function by the level.\<close>

definition SWITCH_CASE_READ ::
    "(cpu \<Rightarrow> ('a :: len word \<times> cpu) option) \<Rightarrow> (cpu \<Rightarrow> ('a word \<times> cpu) option) \<Rightarrow>
     (cpu \<Rightarrow> ('a word \<times> cpu) option) \<Rightarrow> 32 word \<Rightarrow> cpu \<Rightarrow> ('a word \<times> cpu) option" where
  "SWITCH_CASE_READ func_el1 func_el2 func_el3 el s =
     (if el = EL1 then func_el1 s else if el = EL2 then func_el2 s else if el = EL3 then func_el3 s
      else Some (- 1, s))"

definition SWITCH_CASE_WRITE ::
    "('a \<Rightarrow> cpu \<Rightarrow> cpu option) \<Rightarrow> ('a \<Rightarrow> cpu \<Rightarrow> cpu option) \<Rightarrow> ('a \<Rightarrow> cpu \<Rightarrow> cpu option) \<Rightarrow>
     'a \<Rightarrow> 32 word \<Rightarrow> cpu \<Rightarrow> cpu option" where
  "SWITCH_CASE_WRITE func_el1 func_el2 func_el3 v el s =
     (if el = EL1 then func_el1 v s else if el = EL2 then func_el2 v s else if el = EL3 then func_el3 v s
      else Some s)"

definition raw_read_elr_el1 :: "cpu \<Rightarrow> (64 word \<times> cpu) option" where
  "raw_read_elr_el1 = mrs (from_level 1) (\<lambda>s. ELR s 1)"

definition raw_write_elr_el1 :: "64 word \<Rightarrow> cpu \<Rightarrow> cpu option" where
  "raw_write_elr_el1 v = msr (from_level 1) (\<lambda>s. s\<lparr>ELR := (ELR s)(1 := v)\<rparr>)"

definition raw_read_elr_el2 :: "cpu \<Rightarrow> (64 word \<times> cpu) option" where
  "raw_read_elr_el2 = mrs (from_level 2) (\<lambda>s. ELR s 2)"

definition raw_write_elr_el2 :: "64 word \<Rightarrow> cpu \<Rightarrow> cpu option" where
  "raw_write_elr_el2 v = msr (from_level 2) (\<lambda>s. s\<lparr>ELR := (ELR s)(2 := v)\<rparr>)"

definition raw_read_elr_el3 :: "cpu \<Rightarrow> (64 word \<times> cpu) option" where
  "raw_read_elr_el3 = mrs (from_level 3) (\<lambda>s. ELR s 3)"

definition raw_write_elr_el3 :: "64 word \<Rightarrow> cpu \<Rightarrow> cpu option" where
  "raw_write_elr_el3 v = msr (from_level 3) (\<lambda>s. s\<lparr>ELR := (ELR s)(3 := v)\<rparr>)"

definition raw_read_elr :: "32 word \<Rightarrow> cpu \<Rightarrow> (64 word \<times> cpu) option" where
  "raw_read_elr = SWITCH_CASE_READ raw_read_elr_el1 raw_read_elr_el2 raw_read_elr_el3"

definition raw_write_elr :: "64 word \<Rightarrow> 32 word \<Rightarrow> cpu \<Rightarrow> cpu option" where
  "raw_write_elr = SWITCH_CASE_WRITE raw_write_elr_el1 raw_write_elr_el2 raw_write_elr_el3"

definition raw_read_elr_current :: "cpu \<Rightarrow> (64 word \<times> cpu) option" where
  "raw_read_elr_current s = Option.bind (get_current_el s) (\<lambda>(el, s). raw_read_elr el s)"

definition raw_write_elr_current :: "64 word \<Rightarrow> cpu \<Rightarrow> cpu option" where
  "raw_write_elr_current v s = Option.bind (get_current_el s) (\<lambda>(el, s). raw_write_elr v el s)"

definition raw_read_fpcr :: "cpu \<Rightarrow> (32 word \<times> cpu) option" where
  "raw_read_fpcr = mrs (from_level 0) FPCR"

definition raw_write_fpcr :: "32 word \<Rightarrow> cpu \<Rightarrow> cpu option" where
  "raw_write_fpcr v = msr (from_level 0) (\<lambda>s. s\<lparr>FPCR := v\<rparr>)"

definition raw_read_fpsr :: "cpu \<Rightarrow> (32 word \<times> cpu) option" where
  "raw_read_fpsr = mrs (from_level 0) FPSR"

definition raw_write_fpsr :: "32 word \<Rightarrow> cpu \<Rightarrow> cpu option" where
  "raw_write_fpsr v = msr (from_level 0) (\<lambda>s. s\<lparr>FPSR := v\<rparr>)"

definition raw_read_nzcv :: "cpu \<Rightarrow> (32 word \<times> cpu) option" where
  "raw_read_nzcv = mrs (from_level 0) NZCV"

definition raw_write_nzcv :: "32 word \<Rightarrow> cpu \<Rightarrow> cpu option" where
  "raw_write_nzcv v = msr (from_level 0) (\<lambda>s. s\<lparr>NZCV := v AND 0xf0000000\<rparr>)"

text \<open>\<open>SP_EL0\<close> cannot be named while it is the stack pointer in use; \<open>SP_EL1\<close> and \<open>SP_EL2\<close> belong to the level above.\<close>

definition sp_el0_allowed :: "cpu \<Rightarrow> bool" where
  "sp_el0_allowed s \<longleftrightarrow> from_level 1 s \<and> SPSel s \<noteq> 0"

definition raw_read_sp_el0 :: "cpu \<Rightarrow> (64 word \<times> cpu) option" where
  "raw_read_sp_el0 = mrs sp_el0_allowed (\<lambda>s. SP s 0)"

definition raw_write_sp_el0 :: "64 word \<Rightarrow> cpu \<Rightarrow> cpu option" where
  "raw_write_sp_el0 v = msr sp_el0_allowed (\<lambda>s. s\<lparr>SP := (SP s)(0 := v)\<rparr>)"

definition raw_read_sp_el1 :: "cpu \<Rightarrow> (64 word \<times> cpu) option" where
  "raw_read_sp_el1 = mrs (from_level 2) (\<lambda>s. SP s 1)"

definition raw_write_sp_el1 :: "64 word \<Rightarrow> cpu \<Rightarrow> cpu option" where
  "raw_write_sp_el1 v = msr (from_level 2) (\<lambda>s. s\<lparr>SP := (SP s)(1 := v)\<rparr>)"

definition raw_read_sp_el2 :: "cpu \<Rightarrow> (64 word \<times> cpu) option" where
  "raw_read_sp_el2 = mrs (from_level 3) (\<lambda>s. SP s 2)"

definition raw_write_sp_el2 :: "64 word \<Rightarrow> cpu \<Rightarrow> cpu option" where
  "raw_write_sp_el2 v = msr (from_level 3) (\<lambda>s. s\<lparr>SP := (SP s)(2 := v)\<rparr>)"

definition raw_read_spsel :: "cpu \<Rightarrow> (32 word \<times> cpu) option" where
  "raw_read_spsel = mrs (from_level 1) SPSel"

definition raw_write_spsel :: "32 word \<Rightarrow> cpu \<Rightarrow> cpu option" where
  "raw_write_spsel v = msr (from_level 1) (\<lambda>s. s\<lparr>SPSel := v AND 1\<rparr>)"

definition raw_read_sp_el3 :: "cpu \<Rightarrow> (64 word \<times> cpu) option" where
  "raw_read_sp_el3 s = Option.bind (raw_read_spsel s) (\<lambda>(spsel, s).
     Option.bind (if spsel = 0 then raw_write_spsel 1 s else Some s) (\<lambda>s.
     let sp_el3 = SP s (sp_index s) in
     Option.bind (if spsel = 0 then raw_write_spsel spsel s else Some s) (\<lambda>s. Some (sp_el3, s))))"

text \<open>\<open>raw_write_sp_el3\<close> declares its argument as an output of the assembly (\<open>"=r"(sp_el3)\<close>), so the register that
  is moved to the stack pointer holds whatever it held before: the parameter \<open>junk\<close>.\<close>

definition raw_write_sp_el3 :: "64 word \<Rightarrow> 64 word \<Rightarrow> cpu \<Rightarrow> cpu option" where
  "raw_write_sp_el3 junk sp_el3 s = Option.bind (raw_read_spsel s) (\<lambda>(spsel, s).
     Option.bind (if spsel = 0 then raw_write_spsel 1 s else Some s) (\<lambda>s.
     let s = s\<lparr>SP := (SP s)(sp_index s := junk)\<rparr> in
     if spsel = 0 then raw_write_spsel spsel s else Some s))"

definition raw_read_sp_elx :: "32 word \<Rightarrow> cpu \<Rightarrow> (64 word \<times> cpu) option" where
  "raw_read_sp_elx = SWITCH_CASE_READ raw_read_sp_el1 raw_read_sp_el2 raw_read_sp_el3"

definition raw_write_sp_elx :: "64 word \<Rightarrow> 64 word \<Rightarrow> 32 word \<Rightarrow> cpu \<Rightarrow> cpu option" where
  "raw_write_sp_elx junk = SWITCH_CASE_WRITE raw_write_sp_el1 raw_write_sp_el2 (raw_write_sp_el3 junk)"

definition raw_read_spsr_abt :: "cpu \<Rightarrow> (32 word \<times> cpu) option" where
  "raw_read_spsr_abt = mrs (from_level 2) SPSR_abt"

definition raw_write_spsr_abt :: "32 word \<Rightarrow> cpu \<Rightarrow> cpu option" where
  "raw_write_spsr_abt v = msr (from_level 2) (\<lambda>s. s\<lparr>SPSR_abt := v\<rparr>)"

definition raw_read_spsr_el1 :: "cpu \<Rightarrow> (32 word \<times> cpu) option" where
  "raw_read_spsr_el1 = mrs (from_level 1) (\<lambda>s. SPSR s 1)"

definition raw_write_spsr_el1 :: "32 word \<Rightarrow> cpu \<Rightarrow> cpu option" where
  "raw_write_spsr_el1 v = msr (from_level 1) (\<lambda>s. s\<lparr>SPSR := (SPSR s)(1 := v)\<rparr>)"

definition raw_read_spsr_el2 :: "cpu \<Rightarrow> (32 word \<times> cpu) option" where
  "raw_read_spsr_el2 = mrs (from_level 2) (\<lambda>s. SPSR s 2)"

definition raw_write_spsr_el2 :: "32 word \<Rightarrow> cpu \<Rightarrow> cpu option" where
  "raw_write_spsr_el2 v = msr (from_level 2) (\<lambda>s. s\<lparr>SPSR := (SPSR s)(2 := v)\<rparr>)"

definition raw_read_spsr_el3 :: "cpu \<Rightarrow> (32 word \<times> cpu) option" where
  "raw_read_spsr_el3 = mrs (from_level 3) (\<lambda>s. SPSR s 3)"

definition raw_write_spsr_el3 :: "32 word \<Rightarrow> cpu \<Rightarrow> cpu option" where
  "raw_write_spsr_el3 v = msr (from_level 3) (\<lambda>s. s\<lparr>SPSR := (SPSR s)(3 := v)\<rparr>)"

definition raw_read_spsr :: "32 word \<Rightarrow> cpu \<Rightarrow> (32 word \<times> cpu) option" where
  "raw_read_spsr = SWITCH_CASE_READ raw_read_spsr_el1 raw_read_spsr_el2 raw_read_spsr_el3"

definition raw_write_spsr :: "32 word \<Rightarrow> 32 word \<Rightarrow> cpu \<Rightarrow> cpu option" where
  "raw_write_spsr = SWITCH_CASE_WRITE raw_write_spsr_el1 raw_write_spsr_el2 raw_write_spsr_el3"

definition raw_read_spsr_current :: "cpu \<Rightarrow> (32 word \<times> cpu) option" where
  "raw_read_spsr_current s = Option.bind (get_current_el s) (\<lambda>(el, s). raw_read_spsr el s)"

definition raw_write_spsr_current :: "32 word \<Rightarrow> cpu \<Rightarrow> cpu option" where
  "raw_write_spsr_current v s = Option.bind (get_current_el s) (\<lambda>(el, s). raw_write_spsr v el s)"

definition raw_read_spsr_fiq :: "cpu \<Rightarrow> (32 word \<times> cpu) option" where
  "raw_read_spsr_fiq = mrs (from_level 2) SPSR_fiq"

definition raw_write_spsr_fiq :: "32 word \<Rightarrow> cpu \<Rightarrow> cpu option" where
  "raw_write_spsr_fiq v = msr (from_level 2) (\<lambda>s. s\<lparr>SPSR_fiq := v\<rparr>)"

definition raw_read_spsr_irq :: "cpu \<Rightarrow> (32 word \<times> cpu) option" where
  "raw_read_spsr_irq = mrs (from_level 2) SPSR_irq"

definition raw_write_spsr_irq :: "32 word \<Rightarrow> cpu \<Rightarrow> cpu option" where
  "raw_write_spsr_irq v = msr (from_level 2) (\<lambda>s. s\<lparr>SPSR_irq := v\<rparr>)"

definition raw_read_spsr_und :: "cpu \<Rightarrow> (32 word \<times> cpu) option" where
  "raw_read_spsr_und = mrs (from_level 2) SPSR_und"

definition raw_write_spsr_und :: "32 word \<Rightarrow> cpu \<Rightarrow> cpu option" where
  "raw_write_spsr_und v = msr (from_level 2) (\<lambda>s. s\<lparr>SPSR_und := v\<rparr>)"

subsection \<open>Functions of \<open>functions.S\<close>\<close>

definition enable_irq :: "cpu \<Rightarrow> cpu option" where
  "enable_irq = daif_clr 2"

definition disable_irq :: "cpu \<Rightarrow> cpu option" where
  "disable_irq = daif_set 2"

definition get_el :: "cpu \<Rightarrow> (64 word \<times> cpu) option" where
  "get_el s = Option.bind (raw_read_current_el s) (\<lambda>(x0, s).
     let x0 = ucast x0 AND 12; x0 = drop_bit 2 x0 in Some (x0, s))"

definition get_sp :: "cpu \<Rightarrow> 64 word" where
  "get_sp s = SP s (sp_index s)"

definition get_esr_el1 :: "cpu \<Rightarrow> (64 word \<times> cpu) option" where
  "get_esr_el1 = mrs (from_level 1) ESR_EL1"

definition get_elr_el1 :: "cpu \<Rightarrow> (64 word \<times> cpu) option" where
  "get_elr_el1 = mrs (from_level 1) (\<lambda>s. ELR s 1)"

definition get_far_el1 :: "cpu \<Rightarrow> (64 word \<times> cpu) option" where
  "get_far_el1 = mrs (from_level 1) FAR_EL1"

definition get_core :: "cpu \<Rightarrow> (64 word \<times> cpu) option" where
  "get_core s = Option.bind (mrs (from_level 1) MPIDR_EL1 s) (\<lambda>(x0, s). Some (x0 AND 0xFF, s))"

subsection \<open>What the functions do\<close>

lemmas access_defs = mrs_def msr_def from_level_def SWITCH_CASE_READ_def SWITCH_CASE_WRITE_def EL1_def EL2_def EL3_def

lemmas elr_defs = raw_read_elr_def raw_write_elr_def raw_read_elr_el1_def raw_read_elr_el2_def raw_read_elr_el3_def
  raw_write_elr_el1_def raw_write_elr_el2_def raw_write_elr_el3_def

lemmas spsr_access_defs = raw_read_spsr_def raw_write_spsr_def raw_read_spsr_el1_def raw_read_spsr_el2_def
  raw_read_spsr_el3_def raw_write_spsr_el1_def raw_write_spsr_el2_def raw_write_spsr_el3_def

lemma level_cases: "1 \<le> n \<Longrightarrow> n \<le> 3 \<Longrightarrow> n = 1 \<or> n = 2 \<or> n = (3 :: nat)"
  by auto

lemma elr_access:
  assumes "1 \<le> n" "n \<le> level s" "n \<le> 3"
  shows "raw_read_elr (of_nat n) s = Some (ELR s n, s)"
    "raw_write_elr v (of_nat n) s = Some (s\<lparr>ELR := (ELR s)(n := v)\<rparr>)"
  using level_cases [OF assms(1,3)] assms(2) by (elim disjE; simp add: elr_defs access_defs)+

lemma spsr_access:
  assumes "1 \<le> n" "n \<le> level s" "n \<le> 3"
  shows "raw_read_spsr (of_nat n) s = Some (SPSR s n, s)"
    "raw_write_spsr w (of_nat n) s = Some (s\<lparr>SPSR := (SPSR s)(n := w)\<rparr>)"
  using level_cases [OF assms(1,3)] assms(2) by (elim disjE; simp add: spsr_access_defs access_defs)+

lemma get_current_el_level:
  assumes "1 \<le> level s" "level s \<le> 3"
  shows "get_current_el s = Some (of_nat (level s), s)"
  using level_cases [OF assms]
  by (auto simp: get_current_el_def raw_read_current_el_def access_defs CURRENT_EL_SHIFT_def CURRENT_EL_MASK_def)

lemma get_el_level:
  assumes "1 \<le> level s" "level s \<le> 3"
  shows "get_el s = Some (of_nat (level s), s)"
  using level_cases [OF assms]
  by (auto simp: get_el_def raw_read_current_el_def access_defs Let_def)

lemma read_sp_el3:
  assumes "level s = 3" "SPSel s = 0 \<or> SPSel s = 1"
  shows "raw_read_sp_el3 s = Some (SP s 3, s)"
  using assms by (auto simp: raw_read_sp_el3_def raw_read_spsel_def raw_write_spsel_def access_defs sp_index_def Let_def)

lemma write_sp_el3:
  assumes "level s = 3" "SPSel s = 0 \<or> SPSel s = 1"
  shows "raw_write_sp_el3 junk v s = Some (s\<lparr>SP := (SP s)(3 := junk)\<rparr>)"
  using assms by (auto simp: raw_write_sp_el3_def raw_read_spsel_def raw_write_spsel_def access_defs sp_index_def Let_def)

lemma irq_mask:
  assumes "1 \<le> level s"
  shows "enable_irq s = Some (s\<lparr>DAIF := DAIF s AND NOT 0x80\<rparr>)" "disable_irq s = Some (s\<lparr>DAIF := DAIF s OR 0x80\<rparr>)"
  using assms by (simp_all add: enable_irq_def disable_irq_def daif_clr_def daif_set_def access_defs push_bit_eq_mult)

text \<open>At any exception level from 1 to 3, what is written to the return address or the saved status of that
  level or a lower one is read back and nothing else changes; the functions for the current level use the
  registers of that level, and a level that does not exist is read as all ones and written nowhere;
  \<open>raw_read_sp_el3\<close> gives the stack pointer of level 3 and changes nothing, but \<open>raw_write_sp_el3\<close> stores
  whatever the register held that the compiler chose, and never its argument.\<close>

theorem register_access_correct:
  assumes "1 \<le> n" "n \<le> level s" "level s \<le> 3" "SPSel s = 0 \<or> SPSel s = 1"
  shows "raw_write_elr v (of_nat n) s = Some (s\<lparr>ELR := (ELR s)(n := v)\<rparr>) \<and>
      raw_read_elr (of_nat n) (s\<lparr>ELR := (ELR s)(n := v)\<rparr>) = Some (v, s\<lparr>ELR := (ELR s)(n := v)\<rparr>) \<and>
      raw_write_spsr w (of_nat n) s = Some (s\<lparr>SPSR := (SPSR s)(n := w)\<rparr>) \<and>
      raw_read_spsr (of_nat n) (s\<lparr>SPSR := (SPSR s)(n := w)\<rparr>) = Some (w, s\<lparr>SPSR := (SPSR s)(n := w)\<rparr>) \<and>
      raw_read_elr_current s = Some (ELR s (level s), s) \<and>
      raw_write_elr_current v s = Some (s\<lparr>ELR := (ELR s)(level s := v)\<rparr>) \<and>
      raw_read_spsr_current s = Some (SPSR s (level s), s) \<and>
      raw_write_spsr_current w s = Some (s\<lparr>SPSR := (SPSR s)(level s := w)\<rparr>) \<and>
      raw_read_elr 0 s = Some (- 1, s) \<and> raw_write_elr v 0 s = Some s \<and>
      (level s \<noteq> 3 \<or> raw_read_sp_el3 s = Some (SP s 3, s) \<and>
         raw_write_sp_el3 junk v s = Some (s\<lparr>SP := (SP s)(3 := junk)\<rparr>))"
proof -
  have l: "1 \<le> level s" "n \<le> 3" using assms by auto
  let ?e = "s\<lparr>ELR := (ELR s)(n := v)\<rparr>" and ?p = "s\<lparr>SPSR := (SPSR s)(n := w)\<rparr>"
  have "raw_read_elr (of_nat n) ?e = Some (v, ?e)" "raw_read_spsr (of_nat n) ?p = Some (w, ?p)"
    using elr_access(1) [of n ?e] spsr_access(1) [of n ?p] assms l by simp_all
  moreover have "raw_read_elr 0 s = Some (- 1, s)" "raw_write_elr v 0 s = Some s"
    by (simp_all add: elr_defs access_defs)
  moreover have "get_current_el s = Some (of_nat (level s), s)" using get_current_el_level l assms by simp
  ultimately show ?thesis
    using elr_access(2) [OF assms(1,2) l(2)] spsr_access(2) [OF assms(1,2) l(2)] elr_access [OF l(1) order_refl assms(3)]
      spsr_access [OF l(1) order_refl assms(3)] read_sp_el3 [OF _ assms(4)] write_sp_el3 [OF _ assms(4)]
    by (auto simp: raw_read_elr_current_def raw_write_elr_current_def raw_read_spsr_current_def raw_write_spsr_current_def)
qed

text \<open>A core as reset leaves it, at level 3 with everything masked.\<close>

definition reset_core :: "64 word \<Rightarrow> cpu" where
  "reset_core mpidr = \<lparr>level = 3, debug_state = False, DAIF = 0x3c0, SPSel = 1, NZCV = 0, FPCR = 0, FPSR = 0,
     DLR_EL0 = 0, DSPSR_EL0 = 0, SP = (\<lambda>_. 0), ELR = (\<lambda>_. 0), SPSR = (\<lambda>_. 0), SPSR_abt = 0, SPSR_fiq = 0,
     SPSR_irq = 0, SPSR_und = 0, MPIDR_EL1 = mpidr, ESR_EL1 = 0, FAR_EL1 = 0, VBAR_EL1 = 0, SCTLR_EL1 = 0,
     SCR_EL3 = 0, HCR_EL2 = 0, CNTHCTL_EL2 = 0, CNTVOFF_EL2 = 0,
     MMU = \<lparr>ttbr0 = 0, ttbr1 = 0, tcr = 0, mair = 0\<rparr>, X = (\<lambda>_. 0)\<rparr>"

lemma register_access_correct_witness:
  "raw_read_elr 2 ((reset_core 0)\<lparr>ELR := (\<lambda>_. 0)(2 := 0x80000)\<rparr>) =
     Some (0x80000, (reset_core 0)\<lparr>ELR := (\<lambda>_. 0)(2 := 0x80000)\<rparr>) \<and>
   raw_write_sp_el3 7 0x80000 (reset_core 0) = Some ((reset_core 0)\<lparr>SP := (\<lambda>_. 0)(3 := 7)\<rparr>)"
proof -
  have "(1 :: nat) \<le> 2" "2 \<le> level (reset_core 0)" "level (reset_core 0) \<le> 3"
    "SPSel (reset_core 0) = 0 \<or> SPSel (reset_core 0) = 1"
    by (simp_all add: reset_core_def)
  from register_access_correct [OF this, of "0x80000" 0 7]
  have "raw_read_elr (of_nat 2) ((reset_core 0)\<lparr>ELR := (ELR (reset_core 0))(2 := 0x80000)\<rparr>) =
      Some (0x80000, (reset_core 0)\<lparr>ELR := (ELR (reset_core 0))(2 := 0x80000)\<rparr>)"
    "raw_write_sp_el3 7 0x80000 (reset_core 0) = Some ((reset_core 0)\<lparr>SP := (SP (reset_core 0))(3 := 7)\<rparr>)"
    by (auto simp: reset_core_def)
  then show ?thesis by (simp add: reset_core_def)
qed

end
