(* ===== verification/BootEntry.thy ===== *)
theory BootEntry
  imports MmuSpec Sysregs "HOL-Library.Monad_Syntax"
begin

text \<open>
  How a core gets to C++ code: \<open>_start\<close> of \<open>src/boot/boot.S\<close> for core 0 and \<open>init_core\<close> of
  \<open>src/asm/functions.S\<close> for the others, with the layout of \<open>src/linker.ld\<close> they rely on.

  The code runs on the registers of \<open>Sysregs\<close> and the memory of \<open>Mmu\<close>; general registers are variables.
  It is straight-line code with a few forward jumps, so each label that is jumped to starts a definition.
  \<open>None\<close> is an exception: an access that is not allowed, an exception return that is illegal, an address
  that is not mapped. Barriers have no effect in this model.
\<close>

subsection \<open>Symbols and the exception return\<close>

text \<open>The addresses the linker gives to the symbols the code uses. \<open>sym_level_2\<close> and \<open>sym_level_1\<close> are the
  two labels \<open>5\<close>.\<close>

record image =
  sym_vector :: "64 word"
  sym_cpu0_stack :: "64 word"
  sym_id_pg_dir :: "64 word"
  sym_high_pg_dir :: "64 word"
  sym_bss_start :: "64 word"
  sym_bss_size :: "32 word"
  sym_kernel_main :: "64 word"
  sym_initSecondaryCore :: "64 word"
  sym_level_2 :: "64 word"
  sym_level_1 :: "64 word"

text \<open>How the start of a core ends: in the loop of the cores that are not wanted, in the loop behind the call of
  \<open>kernel_main\<close>, or by a jump to an address.\<close>

datatype start = Parked | Waits cpu ram | Runs "64 word" cpu ram

text \<open>\<open>eret\<close>: the saved status says the level (bits 3 and 2) and the stack pointer (bit 0) to go on with. It is
  illegal to return to a higher level, to AArch32 (bit 4, which this model leaves out) or with bit 1 set.\<close>

definition eret :: "cpu \<Rightarrow> (64 word \<times> cpu) option" where
  "eret s =
     (let p = SPSR s (level s); target = unat (drop_bit 2 p AND 3)
      in if level s = 0 \<or> level s < target \<or> bit p 4 \<or> bit p 1 \<or> (target = 0 \<and> bit p 0) then None
         else Some (ELR s (level s), s\<lparr>level := target, SPSel := p AND 1, DAIF := p AND 0x3c0, NZCV := p AND 0xf0000000\<rparr>))"

text \<open>A return is followed where it leads to the label the code names.\<close>

definition eret_to :: "64 word \<Rightarrow> cpu \<Rightarrow> cpu option" where
  "eret_to label s = do { (pc, s) \<leftarrow> eret s; if pc = label then Some s else None }"

text \<open>With the MMU on, the next instruction is fetched from where its address is mapped.\<close>

definition fetches :: "mmu_regs \<Rightarrow> ram \<Rightarrow> 64 word \<Rightarrow> bool" where
  "fetches r m pc =
     (case translate r m pc of None \<Rightarrow> False | Some t \<Rightarrow> out_address t = pc \<and> el1_execute t)"

subsection \<open>Core 0\<close>

text \<open>The loop over the BSS section. \<open>cbz\<close> leaves for the label \<open>4\<close>, which is the loop behind
  the call of \<open>kernel_main\<close>; only the end of the loop leads to the call.\<close>

function clear_bss :: "mmu_regs \<Rightarrow> 64 word \<Rightarrow> 32 word \<Rightarrow> ram \<Rightarrow> (bool \<times> ram) option" where
  "clear_bss r x1 w2 m =
     (if w2 = 0 then Some (False, m)
      else do {
        t \<leftarrow> translate r m x1;
        let m = m(out_address t := 0);
        let x1 = x1 + 8;
        let w2 = w2 - 1;
        if w2 \<noteq> 0 then clear_bss r x1 w2 m else Some (True, m) })"
  by pat_completeness auto

termination clear_bss
  by (relation "measure (\<lambda>(r, x1, w2, m). unat w2)") (auto simp: unat_minus_one word_less_nat_alt unat_gt_0)

declare clear_bss.simps [simp del]

text \<open>From the second label \<open>5\<close> on, at level 1.\<close>

definition start_level_1 :: "image \<Rightarrow> cpu \<Rightarrow> ram \<Rightarrow> start option" where
  "start_level_1 img s m = do {
     s \<leftarrow> msr (from_level 1) (\<lambda>s. s\<lparr>SPSel := 1\<rparr>) s;
     m \<leftarrow> map_identity (sym_id_pg_dir img) m;
     m \<leftarrow> map_high (sym_high_pg_dir img) m;
     s \<leftarrow> msr (from_level 1) (\<lambda>s. s\<lparr>MMU := (MMU s)\<lparr>ttbr0 := sym_id_pg_dir img\<rparr>\<rparr>) s;
     s \<leftarrow> msr (from_level 1) (\<lambda>s. s\<lparr>MMU := (MMU s)\<lparr>ttbr1 := sym_high_pg_dir img\<rparr>\<rparr>) s;
     s \<leftarrow> msr (from_level 1) (\<lambda>s. s\<lparr>MMU := (MMU s)\<lparr>tcr := TCR_EL1_VAL\<rparr>\<rparr>) s;
     s \<leftarrow> msr (from_level 1) (\<lambda>s. s\<lparr>MMU := (MMU s)\<lparr>mair := MAIR_EL1_VAL\<rparr>\<rparr>) s;
     s \<leftarrow> msr (from_level 1) (\<lambda>s. s\<lparr>SCTLR_EL1 := 5\<rparr>) s;
     if \<not> fetches (MMU s) m (sym_level_1 img) then None
     else do {
       (launch, m) \<leftarrow> clear_bss (MMU s) (sym_bss_start img) (sym_bss_size img) m;
       Some (if launch then Runs (sym_kernel_main img) s m else Waits s m) } }"

text \<open>From the first label \<open>5\<close> on; \<open>x0\<close> holds what \<open>CurrentEL\<close> was at the start.\<close>

definition start_level_2 :: "image \<Rightarrow> 64 word \<Rightarrow> cpu \<Rightarrow> ram \<Rightarrow> start option" where
  "start_level_2 img x0 s m =
     (if x0 = 4 then start_level_1 img s m
      else do {
        s \<leftarrow> msr (from_level 2) (\<lambda>s. s\<lparr>CNTHCTL_EL2 := CNTHCTL_EL2 s OR 3\<rparr>) s;
        s \<leftarrow> msr (from_level 2) (\<lambda>s. s\<lparr>CNTVOFF_EL2 := 0\<rparr>) s;
        s \<leftarrow> msr (from_level 2) (\<lambda>s. s\<lparr>HCR_EL2 := push_bit 31 1 OR push_bit 1 1\<rparr>) s;
        s \<leftarrow> msr (from_level 1) (\<lambda>s. s\<lparr>VBAR_EL1 := sym_vector img\<rparr>) s;
        let x1 = sym_cpu0_stack img;
        s \<leftarrow> msr (from_level 2) (\<lambda>s. s\<lparr>SP := (SP s)(1 := x1)\<rparr>) s;
        let s = s\<lparr>SP := (SP s)(sp_index s := x1)\<rparr>;
        s \<leftarrow> msr (from_level 2) (\<lambda>s. s\<lparr>SPSR := (SPSR s)(2 := 0x3c4)\<rparr>) s;
        s \<leftarrow> msr (from_level 2) (\<lambda>s. s\<lparr>ELR := (ELR s)(2 := sym_level_1 img)\<rparr>) s;
        s \<leftarrow> eret_to (sym_level_1 img) s;
        start_level_1 img s m })"

text \<open>\<open>_start\<close>.\<close>

definition boot_start :: "image \<Rightarrow> cpu \<Rightarrow> ram \<Rightarrow> start option" where
  "boot_start img s m = do {
     (x1, s) \<leftarrow> mrs (from_level 1) MPIDR_EL1 s;
     let x1 = x1 AND 3;
     let x1 = x1 - 0;
     if x1 \<noteq> 0 then Some Parked
     else do {
       (x0, s) \<leftarrow> mrs (from_level 1) (\<lambda>s. push_bit 2 (of_nat (level s))) s;
       let x0 = x0 AND 12;
       if x0 \<noteq> 12 then start_level_2 img x0 s m
       else do {
         s \<leftarrow> msr (from_level 3) (\<lambda>s. s\<lparr>SCR_EL3 := 0x5b1\<rparr>) s;
         s \<leftarrow> msr (from_level 3) (\<lambda>s. s\<lparr>SPSR := (SPSR s)(3 := 0x3c9)\<rparr>) s;
         s \<leftarrow> msr (from_level 3) (\<lambda>s. s\<lparr>ELR := (ELR s)(3 := sym_level_2 img)\<rparr>) s;
         s \<leftarrow> eret_to (sym_level_2 img) s;
         start_level_2 img x0 s m } } }"

subsection \<open>The other cores\<close>

definition init_core_level_1 :: "image \<Rightarrow> cpu \<Rightarrow> ram \<Rightarrow> start option" where
  "init_core_level_1 img s m = do {
     s \<leftarrow> msr (from_level 1) (\<lambda>s. s\<lparr>SPSel := 1\<rparr>) s;
     s \<leftarrow> msr (from_level 1) (\<lambda>s. s\<lparr>MMU := (MMU s)\<lparr>ttbr0 := sym_id_pg_dir img\<rparr>\<rparr>) s;
     s \<leftarrow> msr (from_level 1) (\<lambda>s. s\<lparr>MMU := (MMU s)\<lparr>ttbr1 := sym_high_pg_dir img\<rparr>\<rparr>) s;
     s \<leftarrow> msr (from_level 1) (\<lambda>s. s\<lparr>MMU := (MMU s)\<lparr>tcr := TCR_EL1_VAL\<rparr>\<rparr>) s;
     s \<leftarrow> msr (from_level 1) (\<lambda>s. s\<lparr>MMU := (MMU s)\<lparr>mair := MAIR_EL1_VAL\<rparr>\<rparr>) s;
     s \<leftarrow> msr (from_level 1) (\<lambda>s. s\<lparr>SCTLR_EL1 := 5\<rparr>) s;
     if \<not> fetches (MMU s) m (sym_level_1 img) then None
     else do {
       let s = s\<lparr>X := (X s)(0 := 0, 1 := 0, 2 := 0, 3 := 0)\<rparr>;
       Some (Runs (sym_initSecondaryCore img) s m) } }"

definition init_core_level_2 :: "image \<Rightarrow> 64 word \<Rightarrow> cpu \<Rightarrow> ram \<Rightarrow> start option" where
  "init_core_level_2 img x0 s m =
     (if x0 = 4 then init_core_level_1 img s m
      else do {
        s \<leftarrow> msr (from_level 2) (\<lambda>s. s\<lparr>CNTHCTL_EL2 := CNTHCTL_EL2 s OR 3\<rparr>) s;
        s \<leftarrow> msr (from_level 2) (\<lambda>s. s\<lparr>CNTVOFF_EL2 := 0\<rparr>) s;
        s \<leftarrow> msr (from_level 2) (\<lambda>s. s\<lparr>HCR_EL2 := push_bit 31 1 OR push_bit 1 1\<rparr>) s;
        s \<leftarrow> msr (from_level 1) (\<lambda>s. s\<lparr>VBAR_EL1 := sym_vector img\<rparr>) s;
        (x1, s) \<leftarrow> mrs (from_level 1) MPIDR_EL1 s;
        let x1 = x1 AND 3;
        let x2 = sym_cpu0_stack img;
        let x1 = push_bit 12 x1;
        let x3 = x2 + x1;
        let s = s\<lparr>SP := (SP s)(sp_index s := x3)\<rparr>;
        s \<leftarrow> msr (from_level 2) (\<lambda>s. s\<lparr>SP := (SP s)(1 := x3)\<rparr>) s;
        s \<leftarrow> msr (from_level 2) (\<lambda>s. s\<lparr>SPSR := (SPSR s)(2 := 0x3c4)\<rparr>) s;
        s \<leftarrow> msr (from_level 2) (\<lambda>s. s\<lparr>ELR := (ELR s)(2 := sym_level_1 img)\<rparr>) s;
        s \<leftarrow> eret_to (sym_level_1 img) s;
        init_core_level_1 img s m })"

definition init_core :: "image \<Rightarrow> cpu \<Rightarrow> ram \<Rightarrow> start option" where
  "init_core img s m = do {
     (x0, s) \<leftarrow> mrs (from_level 1) (\<lambda>s. push_bit 2 (of_nat (level s))) s;
     let x0 = x0 AND 12;
     if x0 \<noteq> 12 then init_core_level_2 img x0 s m
     else do {
       s \<leftarrow> msr (from_level 3) (\<lambda>s. s\<lparr>SCR_EL3 := 0x5b1\<rparr>) s;
       s \<leftarrow> msr (from_level 3) (\<lambda>s. s\<lparr>SPSR := (SPSR s)(3 := 0x3c9)\<rparr>) s;
       s \<leftarrow> msr (from_level 3) (\<lambda>s. s\<lparr>ELR := (ELR s)(3 := sym_level_2 img)\<rparr>) s;
       s \<leftarrow> eret_to (sym_level_2 img) s;
       init_core_level_2 img x0 s m } }"

subsection \<open>The layout of \<open>linker.ld\<close>\<close>

definition ld_align :: "nat \<Rightarrow> nat \<Rightarrow> nat" where
  "ld_align n dot = (dot + (n - 1)) div n * n"

definition stack_start :: "nat \<Rightarrow> nat" where
  "stack_start boot_alloc_end = (let dot = boot_alloc_end; dot = ld_align 0x1000 dot in dot)"

definition cpu0_stack :: "nat \<Rightarrow> nat" where
  "cpu0_stack boot_alloc_end =
     (let dot = stack_start boot_alloc_end; dot = dot + 4096; dot = ld_align 16 dot in dot)"

definition next_cpu_stack :: "nat \<Rightarrow> nat" where
  "next_cpu_stack dot = (let dot = ld_align 16 dot; dot = dot + 4096 in dot)"

definition cpu1_stack :: "nat \<Rightarrow> nat" where
  "cpu1_stack boot_alloc_end = next_cpu_stack (cpu0_stack boot_alloc_end)"

definition cpu2_stack :: "nat \<Rightarrow> nat" where
  "cpu2_stack boot_alloc_end = next_cpu_stack (cpu1_stack boot_alloc_end)"

definition cpu3_stack :: "nat \<Rightarrow> nat" where
  "cpu3_stack boot_alloc_end = next_cpu_stack (cpu2_stack boot_alloc_end)"

definition bss_words :: "nat \<Rightarrow> nat \<Rightarrow> nat" where
  "bss_words bss_start bss_end = drop_bit 3 (bss_end - bss_start)"

end
