(* ===== verification/BootEntrySpec.thy ===== *)
theory BootEntrySpec
  imports BootEntry
begin

text \<open>
  The cores reach \<open>kernel_main\<close> and \<open>initSecondaryCore\<close> as intended: at level 1, with the memory mapped, a
  stack of their own, the exception vectors in place, interrupts masked, and (core 0) the BSS section cleared.
\<close>

subsection \<open>The BSS section\<close>

lemma kernel_map_linear:
  assumes "n < 0x3F400000"
  shows "kernel_map (LINEAR_MAP_BASE + of_nat n) = Some (normal_memory (of_nat n))"
proof -
  have u: "unat (LINEAR_MAP_BASE + of_nat n) = 0xffff000000000000 + n" "unat (of_nat n :: 64 word) = n"
    using assms by (simp_all add: LINEAR_MAP_BASE_def unat_word_ariths unat_of_nat)
  have "\<not> LINEAR_MAP_BASE + of_nat n < 0x1000000" "LINEAR_MAP_BASE \<le> LINEAR_MAP_BASE + of_nat n"
    unfolding word_less_nat_alt word_le_nat_alt u by (simp_all add: LINEAR_MAP_BASE_def)
  moreover have "(of_nat n :: 64 word) < 0x3F400000" using assms unfolding word_less_nat_alt u by simp
  ultimately show ?thesis by (simp add: kernel_map_def Let_def)
qed

text \<open>The tables lie below physical address \<open>n\<close>.\<close>

definition tables_below :: "64 word \<Rightarrow> 64 word \<Rightarrow> nat \<Rightarrow> bool" where
  "tables_below p q n \<longleftrightarrow> tables_placed p q \<and> unat q + 24576 \<le> n"

lemma unat_in_table:
  fixes a p :: "64 word"
  assumes "unat (a - p) < n" "unat p + n \<le> 2 ^ 32"
  shows "unat a < unat p + n"
proof -
  have "unat (p + (a - p)) = unat p + unat (a - p)"
    using assms by (subst unat_word_ariths) simp
  then show ?thesis using assms(1) by simp
qed

lemma table_address:
  assumes "tables_below p q b" "unat (a - p) < 12288 \<or> unat (a - q) < 24576"
  shows "unat a < b"
  using assms unat_in_table [of a p 12288] unat_in_table [of a q 24576]
  unfolding tables_below_def tables_placed_def by linarith

lemma tables_in_upd:
  assumes "tables_below p q b" "tables_in p q m" "b \<le> k" "k < 2 ^ 32"
  shows "tables_in p q (m(of_nat k := v))"
proof (rule tables_in_cong [OF assms(2)])
  fix a :: "64 word"
  assume "unat (a - p) < 12288 \<or> unat (a - q) < 24576"
  then have "unat a < k" using table_address [OF assms(1)] assms(3) by fastforce
  moreover have "unat (of_nat k :: 64 word) = k" using assms(4) by (simp add: unat_of_nat)
  ultimately have "a \<noteq> of_nat k" by auto
  then show "(m(of_nat k := v)) a = m a" by simp
qed

definition bss_cleared :: "nat \<Rightarrow> nat \<Rightarrow> ram \<Rightarrow> ram" where
  "bss_cleared start n m a = (if start \<le> unat a \<and> unat a < start + 8 * n \<and> 8 dvd (unat a - start) then 0 else m a)"

lemma cleared_0: "bss_cleared k 0 m = m"
  by (auto simp: bss_cleared_def fun_eq_iff)

lemma bss_cleared_Suc:
  assumes "k + 8 < 2 ^ 64"
  shows "bss_cleared (k + 8) n (m(of_nat k := 0)) = bss_cleared k (Suc n) m"
proof
  fix a :: "64 word"
  have k: "unat (of_nat k :: 64 word) = k" using assms by (simp add: unat_of_nat)
  have at: "a = of_nat k \<longleftrightarrow> unat a = k" by (auto simp: word_unat_eq_iff k)
  show "bss_cleared (k + 8) n (m(of_nat k := 0)) a = bss_cleared k (Suc n) m a"
  proof (cases "k + 8 \<le> unat a")
    case True
    then obtain d where d: "unat a = k + 8 + d" by (auto simp: le_iff_add)
    have "8 dvd (8 + d) \<longleftrightarrow> 8 dvd d" by simp
    then show ?thesis by (simp add: bss_cleared_def at d add.assoc)
  next
    case False
    then have "k \<le> unat a \<and> unat a < k + 8 * Suc n \<and> 8 dvd (unat a - k) \<longleftrightarrow> unat a = k"
      by (auto dest: dvd_imp_le)
    then show ?thesis using False by (simp add: bss_cleared_def at)
  qed
qed

lemma clear_bss_spec:
  assumes "tables_below p q b" "tables_in p q m" "b \<le> k" "k + 8 * Suc n \<le> 0x3F400000"
  shows "clear_bss (kernel_mmu p q) (LINEAR_MAP_BASE + of_nat k) (of_nat (Suc n)) m = Some (True, bss_cleared k (Suc n) m)"
  using assms(2-)
proof (induction n arbitrary: k m)
  case 0
  have t: "translate (kernel_mmu p q) m (LINEAR_MAP_BASE + of_nat k) = Some (normal_memory (of_nat k))"
    using translate_kernel assms(1) 0 kernel_map_linear by (simp add: tables_below_def)
  have "m(of_nat k := 0) = bss_cleared k (Suc 0) m"
    using bss_cleared_Suc [of k 0 m] 0 by (simp add: cleared_0)
  then show ?case by (subst clear_bss.simps) (simp add: t normal_memory_def)
next
  case (Suc n)
  have t: "translate (kernel_mmu p q) m (LINEAR_MAP_BASE + of_nat k) = Some (normal_memory (of_nat k))"
    using translate_kernel assms(1) Suc.prems kernel_map_linear by (simp add: tables_below_def)
  have nz: "(of_nat (Suc (Suc n)) :: 32 word) \<noteq> 0" "(of_nat (Suc n) :: 32 word) \<noteq> 0"
    using Suc.prems by (simp_all add: word_unat_eq_iff unat_of_nat del: of_nat_Suc)
  have step: "(of_nat (Suc (Suc n)) :: 32 word) - 1 = of_nat (Suc n)"
    "LINEAR_MAP_BASE + of_nat k + 8 = LINEAR_MAP_BASE + of_nat (k + 8)" by simp_all
  have "clear_bss (kernel_mmu p q) (LINEAR_MAP_BASE + of_nat k) (of_nat (Suc (Suc n))) m =
      clear_bss (kernel_mmu p q) (LINEAR_MAP_BASE + of_nat (k + 8)) (of_nat (Suc n)) (m(of_nat k := 0))"
    using nz by (subst clear_bss.simps) (simp only: t Let_def step if_False Option.bind.simps bind_def [abs_def] normal_memory_def translation.simps
        not_False_eq_True if_True)
  also have "\<dots> = Some (True, bss_cleared (k + 8) (Suc n) (m(of_nat k := 0)))"
    using Suc.prems by (intro Suc.IH tables_in_upd [OF assms(1)]) auto
  also have "bss_cleared (k + 8) (Suc n) (m(of_nat k := 0)) = bss_cleared k (Suc (Suc n)) m"
    using Suc.prems by (intro bss_cleared_Suc) simp
  finally show ?case .
qed

subsection \<open>Exception returns\<close>

lemma eret_simps:
  "level s = 3 \<Longrightarrow> SPSR s 3 = 0x3c9 \<Longrightarrow> ELR s 3 = label \<Longrightarrow>
     eret_to label s = Some (s\<lparr>level := 2, SPSel := 1, DAIF := 0x3c0, NZCV := 0\<rparr>)"
  "level s = 2 \<Longrightarrow> SPSR s 2 = 0x3c4 \<Longrightarrow> ELR s 2 = label \<Longrightarrow>
     eret_to label s = Some (s\<lparr>level := 1, SPSel := 0, DAIF := 0x3c0, NZCV := 0\<rparr>)"
  by (simp_all add: eret_to_def eret_def Let_def drop_bit_eq_div)

text \<open>The state at level 1 after the code for level 2, with the stack pointer it has loaded.\<close>

definition from_level_2 :: "image \<Rightarrow> 64 word \<Rightarrow> cpu \<Rightarrow> cpu" where
  "from_level_2 img stack s = s\<lparr>CNTHCTL_EL2 := CNTHCTL_EL2 s OR 3, CNTVOFF_EL2 := 0, HCR_EL2 := 0x80000002,
     VBAR_EL1 := sym_vector img, SP := (SP s)(1 := stack, sp_index s := stack), SPSR := (SPSR s)(2 := 0x3c4),
     ELR := (ELR s)(2 := sym_level_1 img), level := 1, SPSel := 0, DAIF := 0x3c0, NZCV := 0\<rparr>"

definition from_level_3 :: "image \<Rightarrow> cpu \<Rightarrow> cpu" where
  "from_level_3 img s = s\<lparr>SCR_EL3 := 0x5b1, SPSR := (SPSR s)(3 := 0x3c9), ELR := (ELR s)(3 := sym_level_2 img),
     level := 2, SPSel := 1, DAIF := 0x3c0, NZCV := 0\<rparr>"

lemma hcr_value: "push_bit 31 1 OR push_bit 1 1 = (0x80000002 :: 64 word)"
  by (simp add: push_bit_eq_mult)

lemma start_level_2_eq:
  assumes "level s = 2" "x0 \<noteq> 4"
  shows "start_level_2 img x0 s m = start_level_1 img (from_level_2 img (sym_cpu0_stack img) s) m"
  using assms
  by (simp add: start_level_2_def msr_def from_level_def hcr_value sp_index_def eret_simps from_level_2_def Let_def
      fun_upd_twist)

lemma init_core_level_2_eq:
  assumes "level s = 2" "x0 \<noteq> 4"
  shows "init_core_level_2 img x0 s m =
    init_core_level_1 img (from_level_2 img (sym_cpu0_stack img + push_bit 12 (MPIDR_EL1 s AND 3)) s) m"
  using assms
  by (simp add: init_core_level_2_def msr_def mrs_def from_level_def hcr_value sp_index_def eret_simps from_level_2_def
      Let_def fun_upd_twist)

text \<open>The state at the second label \<open>5\<close>, by the level the core starts at. A core that starts at level 1 gets neither
  a stack nor the exception vectors.\<close>

definition entry_state :: "image \<Rightarrow> 64 word \<Rightarrow> cpu \<Rightarrow> cpu" where
  "entry_state img stack s =
     (if level s = 3 then from_level_2 img stack (from_level_3 img s)
      else if level s = 2 then from_level_2 img stack s else s)"

lemma boot_start_eq:
  assumes "1 \<le> level s" "level s \<le> 3" "MPIDR_EL1 s AND 3 = 0"
  shows "boot_start img s m = start_level_1 img (entry_state img (sym_cpu0_stack img) s) m"
proof -
  consider "level s = 1" | "level s = 2" | "level s = 3" using level_cases [OF assms(1,2)] by blast
  then show ?thesis
  proof cases
    case 1
    then show ?thesis using assms(3)
      by (simp add: boot_start_def mrs_def from_level_def entry_state_def start_level_2_def)
  next
    case 2
    then show ?thesis using assms(3) start_level_2_eq [OF 2, of 8]
      by (simp add: boot_start_def mrs_def from_level_def entry_state_def)
  next
    case 3
    have "level (from_level_3 img s) = 2" by (simp add: from_level_3_def)
    from start_level_2_eq [OF this, of 12] show ?thesis using assms(3) 3
      by (simp add: boot_start_def mrs_def msr_def from_level_def entry_state_def eret_simps from_level_3_def)
  qed
qed

lemma init_core_eq:
  assumes "1 \<le> level s" "level s \<le> 3"
  shows "init_core img s m =
    init_core_level_1 img (entry_state img (sym_cpu0_stack img + push_bit 12 (MPIDR_EL1 s AND 3)) s) m"
proof -
  consider "level s = 1" | "level s = 2" | "level s = 3" using level_cases [OF assms(1,2)] by blast
  then show ?thesis
  proof cases
    case 1
    then show ?thesis
      by (simp add: init_core_def mrs_def from_level_def entry_state_def init_core_level_2_def)
  next
    case 2
    then show ?thesis using init_core_level_2_eq [OF 2, of 8]
      by (simp add: init_core_def mrs_def from_level_def entry_state_def)
  next
    case 3
    have l: "level (from_level_3 img s) = 2" "MPIDR_EL1 (from_level_3 img s) = MPIDR_EL1 s"
      by (simp_all add: from_level_3_def)
    from init_core_level_2_eq [OF l(1), of 12] show ?thesis using 3 l(2)
      by (simp add: init_core_def mrs_def msr_def from_level_def entry_state_def eret_simps from_level_3_def)
  qed
qed

lemma entry_level:
  assumes "1 \<le> level s" "level s \<le> 3"
  shows "level (entry_state img stack s) = 1"
  using level_cases [OF assms] by (auto simp: entry_state_def from_level_2_def)

text \<open>A linked image: the tables below the BSS section, which lies in the linear map, and the code of
  the start in the identity map.\<close>

definition image_ok :: "image \<Rightarrow> bool" where
  "image_ok img \<longleftrightarrow>
     tables_below (sym_id_pg_dir img) (sym_high_pg_dir img) (unat (sym_bss_start img - LINEAR_MAP_BASE)) \<and>
     unat (sym_bss_start img - LINEAR_MAP_BASE) + 8 * unat (sym_bss_size img) \<le> 0x3F400000 \<and>
     sym_level_1 img < 0x1000000"

definition image_mmu :: "image \<Rightarrow> mmu_regs" where
  "image_mmu img = kernel_mmu (sym_id_pg_dir img) (sym_high_pg_dir img)"

lemma fetches_identity:
  assumes "image_ok img" "tables_in (sym_id_pg_dir img) (sym_high_pg_dir img) m"
  shows "fetches (image_mmu img) m (sym_level_1 img)"
  using assms translate_kernel [of "sym_id_pg_dir img" "sym_high_pg_dir img" m]
  by (simp add: fetches_def image_mmu_def image_ok_def tables_below_def kernel_map_def normal_memory_def)

lemma mmu_loaded:
  "r\<lparr>ttbr0 := p, ttbr1 := q, tcr := TCR_EL1_VAL, mair := MAIR_EL1_VAL\<rparr> = kernel_mmu p q"
  by (cases r) (simp add: kernel_mmu_def)

text \<open>The memory after the start of core 0: the tables, and zeros in the BSS section.\<close>

definition memory_started :: "image \<Rightarrow> ram \<Rightarrow> ram \<Rightarrow> bool" where
  "memory_started img m m' \<longleftrightarrow>
     tables_in (sym_id_pg_dir img) (sym_high_pg_dir img) m' \<and>
     (\<forall>i < unat (sym_bss_size img). m' (sym_bss_start img - LINEAR_MAP_BASE + 8 * of_nat i) = 0) \<and>
     (\<forall>a. 12288 \<le> unat (a - sym_id_pg_dir img) \<and> 24576 \<le> unat (a - sym_high_pg_dir img) \<and>
          8 * unat (sym_bss_size img) \<le> unat (a - (sym_bss_start img - LINEAR_MAP_BASE)) \<longrightarrow> m' a = m a)"

lemma tables_in_cleared:
  assumes "tables_below p q k" "tables_in p q m"
  shows "tables_in p q (bss_cleared k n m)"
proof (rule tables_in_cong [OF assms(2)])
  fix a :: "64 word"
  assume "unat (a - p) < 12288 \<or> unat (a - q) < 24576"
  then have "unat a < k" by (rule table_address [OF assms(1)])
  then show "bss_cleared k n m a = m a" by (simp add: bss_cleared_def)
qed

lemma clear_bss_image:
  assumes "image_ok img" "tables_in (sym_id_pg_dir img) (sym_high_pg_dir img) m"
    "sym_bss_size img \<noteq> 0"
  shows "clear_bss (image_mmu img) (sym_bss_start img) (sym_bss_size img) m =
    Some (True, bss_cleared (unat (sym_bss_start img - LINEAR_MAP_BASE)) (unat (sym_bss_size img)) m)"
proof -
  let ?k = "unat (sym_bss_start img - LINEAR_MAP_BASE)"
  obtain n where n: "unat (sym_bss_size img) = Suc n" using assms(3) by (metis not0_implies_Suc unat_eq_0)
  then have "sym_bss_size img = of_nat (Suc n)" by (simp add: n [symmetric] del: of_nat_Suc)
  moreover have "sym_bss_start img = LINEAR_MAP_BASE + of_nat ?k" by simp
  moreover have "clear_bss (image_mmu img) (LINEAR_MAP_BASE + of_nat ?k) (of_nat (Suc n)) m = Some (True, bss_cleared ?k (Suc n) m)"
    using assms(1,2) n unfolding image_mmu_def
    by (intro clear_bss_spec [of _ _ ?k]) (auto simp: image_ok_def)
  ultimately show ?thesis using n by metis
qed

lemma memory_startedI:
  assumes "image_ok img" "tables_in (sym_id_pg_dir img) (sym_high_pg_dir img) m2"
    "\<forall>a. 12288 \<le> unat (a - sym_id_pg_dir img) \<longrightarrow> 24576 \<le> unat (a - sym_high_pg_dir img) \<longrightarrow> m2 a = m a"
  shows "memory_started img m (bss_cleared (unat (sym_bss_start img - LINEAR_MAP_BASE)) (unat (sym_bss_size img)) m2)"
proof -
  let ?b = "sym_bss_start img - LINEAR_MAP_BASE" and ?n = "unat (sym_bss_size img)"
  have bound: "unat ?b + 8 * ?n \<le> 0x3F400000" using assms(1) by (simp add: image_ok_def)
  have "bss_cleared (unat ?b) ?n m2 (?b + 8 * of_nat i) = 0" if "i < ?n" for i
  proof -
    have "unat (?b + 8 * of_nat i) = unat ?b + 8 * i"
      using that bound by (simp add: unat_word_ariths unat_of_nat)
    then show ?thesis using that by (simp add: bss_cleared_def)
  qed
  moreover have "bss_cleared (unat ?b) ?n m2 a = m2 a" if "8 * ?n \<le> unat (a - ?b)" for a
  proof -
    have "unat ?b \<le> unat a \<Longrightarrow> unat (a - ?b) = unat a - unat ?b" by (simp add: unat_sub word_le_nat_alt)
    then show ?thesis using that by (auto simp: bss_cleared_def)
  qed
  ultimately show ?thesis
    using assms(2,3) tables_in_cleared [of "sym_id_pg_dir img" "sym_high_pg_dir img" "unat ?b" m2 ?n] assms(1)
    by (auto simp: memory_started_def image_ok_def)
qed

lemma tables_made:
  assumes "image_ok img"
  obtains m1 m2 where "map_identity (sym_id_pg_dir img) m = Some m1" "map_high (sym_high_pg_dir img) m1 = Some m2"
    "tables_in (sym_id_pg_dir img) (sym_high_pg_dir img) m2"
    "\<forall>a. 12288 \<le> unat (a - sym_id_pg_dir img) \<longrightarrow> 24576 \<le> unat (a - sym_high_pg_dir img) \<longrightarrow> m2 a = m a"
proof -
  have "tables_placed (sym_id_pg_dir img) (sym_high_pg_dir img)"
    using assms by (simp add: image_ok_def tables_below_def)
  from map_both [OF this, of m] show ?thesis using that by blast
qed

definition kernel_state :: "image \<Rightarrow> cpu \<Rightarrow> cpu" where
  "kernel_state img s = s\<lparr>SPSel := 1, MMU := image_mmu img, SCTLR_EL1 := 5\<rparr>"

lemma start_level_1_spec:
  assumes "image_ok img" "level s = 1" "sym_bss_size img \<noteq> 0"
  shows "\<exists>m'. start_level_1 img s m = Some (Runs (sym_kernel_main img) (kernel_state img s) m') \<and>
    memory_started img m m'"
proof -
  obtain m1 m2 where m: "map_identity (sym_id_pg_dir img) m = Some m1"
    "map_high (sym_high_pg_dir img) m1 = Some m2" "tables_in (sym_id_pg_dir img) (sym_high_pg_dir img) m2"
    "\<forall>a. 12288 \<le> unat (a - sym_id_pg_dir img) \<longrightarrow> 24576 \<le> unat (a - sym_high_pg_dir img) \<longrightarrow> m2 a = m a"
    by (rule tables_made [OF assms(1), of m])
  have "start_level_1 img s m = Some (Runs (sym_kernel_main img) (kernel_state img s)
      (bss_cleared (unat (sym_bss_start img - LINEAR_MAP_BASE)) (unat (sym_bss_size img)) m2))"
    using assms(2) m(1,2) fetches_identity [OF assms(1) m(3)] clear_bss_image [OF assms(1) m(3) assms(3)]
    by (simp add: start_level_1_def msr_def from_level_def mmu_loaded kernel_state_def image_mmu_def)
  then show ?thesis using memory_startedI [OF assms(1) m(3,4)] by blast
qed

lemma start_level_1_empty_bss:
  assumes "image_ok img" "level s = 1" "sym_bss_size img = 0"
  shows "\<exists>m'. start_level_1 img s m = Some (Waits (kernel_state img s) m')"
proof -
  obtain m1 m2 where m: "map_identity (sym_id_pg_dir img) m = Some m1"
    "map_high (sym_high_pg_dir img) m1 = Some m2" "tables_in (sym_id_pg_dir img) (sym_high_pg_dir img) m2"
    by (rule tables_made [OF assms(1), of m])
  then show ?thesis
    using assms(2) fetches_identity [OF assms(1) m(3)]
    by (simp add: start_level_1_def msr_def from_level_def mmu_loaded kernel_state_def image_mmu_def assms(3)
        clear_bss.simps)
qed

subsection \<open>Core 0 reaches \<open>kernel_main\<close>\<close>

text \<open>What C++ code on a core relies on. \<open>DAIF\<close> is all masks set.\<close>

definition core_ready :: "image \<Rightarrow> 64 word \<Rightarrow> cpu \<Rightarrow> bool" where
  "core_ready img stack s \<longleftrightarrow> level s = 1 \<and> get_sp s = stack \<and> DAIF s = SPSR_EXCEPTION_MASK \<and>
     VBAR_EL1 s = sym_vector img \<and> MMU s = image_mmu img \<and>
     SCTLR_EL1 s = ucast (SCTLR_MMU_ENABLE OR SCTLR_CACHE_ENABLE) \<and> bit (HCR_EL2 s) HCR_RW_SHIFT \<and>
     CNTVOFF_EL2 s = 0 \<and> bit (CNTHCTL_EL2 s) 0 \<and> bit (CNTHCTL_EL2 s) 1"

lemma core_ready_entry:
  assumes "level s = 2 \<or> level s = 3"
  shows "core_ready img stack (kernel_state img (entry_state img stack s))"
proof -
  have "SPSR_EXCEPTION_MASK = 0x3c0" by (simp add: spsr_defs push_bit_eq_mult)
  moreover have "bit (0x80000002 :: 64 word) 31" by (simp add: bit_unat)
  moreover have "bit (3 :: 64 word) 0" "bit (3 :: 64 word) 1" by (simp_all add: bit_unat)
  ultimately show ?thesis
    using assms
    by (auto simp: core_ready_def kernel_state_def entry_state_def from_level_2_def from_level_3_def get_sp_def
        sp_index_def boot_constants HCR_RW_SHIFT_def bit_or_iff)
qed

lemma boot_start_spec:
  assumes "image_ok img" "level s = 2 \<or> level s = 3" "MPIDR_EL1 s AND 3 = 0" "sym_bss_size img \<noteq> 0"
  shows "\<exists>s' m'. boot_start img s m = Some (Runs (sym_kernel_main img) s' m') \<and>
    core_ready img (sym_cpu0_stack img) s' \<and> memory_started img m m'"
proof -
  have l: "1 \<le> level s" "level s \<le> 3" using assms(2) by auto
  show ?thesis
    using boot_start_eq [OF l assms(3), of img m] start_level_1_spec [OF assms(1) entry_level [OF l] assms(4)]
      core_ready_entry [OF assms(2)] by metis
qed

text \<open>C12: core 0, started at level 2 or 3, gets to \<open>kernel_main\<close> at level 1 with its stack, the
  exception vectors, masked interrupts and the memory mapped as intended; the BSS section is zero, and memory
  outside it and the tables is as before. Any other core parks. With an empty BSS section \<open>kernel_main\<close>
  is never called.\<close>

theorem boot_start_correct:
  assumes "image_ok img" "level s = 2 \<or> level s = 3"
  shows "(MPIDR_EL1 s AND 3 = 0 \<and> sym_bss_size img \<noteq> 0 \<longrightarrow>
      (\<exists>s' m'. boot_start img s m = Some (Runs (sym_kernel_main img) s' m') \<and>
        core_ready img (sym_cpu0_stack img) s' \<and> memory_started img m m' \<and>
        (\<forall>va. translate (MMU s') m' va = kernel_map va))) \<and>
    (MPIDR_EL1 s AND 3 \<noteq> 0 \<longrightarrow> boot_start img s m = Some Parked) \<and>
    (MPIDR_EL1 s AND 3 = 0 \<and> sym_bss_size img = 0 \<longrightarrow>
      (\<exists>s' m'. boot_start img s m = Some (Waits s' m')))"
proof (intro conjI impI; (elim conjE)?)
  assume "MPIDR_EL1 s AND 3 = 0" "sym_bss_size img \<noteq> 0"
  from boot_start_spec [OF assms this] obtain s' m' where
    "boot_start img s m = Some (Runs (sym_kernel_main img) s' m')" "core_ready img (sym_cpu0_stack img) s'"
    "memory_started img m m'" by blast
  then show "\<exists>s' m'. boot_start img s m = Some (Runs (sym_kernel_main img) s' m') \<and>
      core_ready img (sym_cpu0_stack img) s' \<and> memory_started img m m' \<and>
      (\<forall>va. translate (MMU s') m' va = kernel_map va)"
    using translate_kernel assms(1)
    by (auto simp: core_ready_def memory_started_def image_mmu_def image_ok_def tables_below_def)
next
  assume "MPIDR_EL1 s AND 3 \<noteq> 0"
  then show "boot_start img s m = Some Parked"
    using assms(2) by (auto simp: boot_start_def mrs_def from_level_def)
next
  assume b: "MPIDR_EL1 s AND 3 = 0" "sym_bss_size img = 0"
  have l: "1 \<le> level s" "level s \<le> 3" using assms(2) by auto
  from start_level_1_empty_bss [OF assms(1) entry_level [OF l] b(2)] boot_start_eq [OF l b(1)]
  show "\<exists>s' m'. boot_start img s m = Some (Waits s' m')" by metis
qed

text \<open>A layout as the linker makes it, and the state of a core after reset.\<close>

definition example_image :: image where
  "example_image = \<lparr>sym_vector = 0xffff000000091000, sym_cpu0_stack = 0xffff0000006a1000, sym_id_pg_dir = 0x81000,
     sym_high_pg_dir = 0x84000, sym_bss_start = 0xffff0000000a5000, sym_bss_size = 2,
     sym_kernel_main = 0xffff000000092000, sym_initSecondaryCore = 0xffff000000093000,
     sym_level_2 = 0x80050, sym_level_1 = 0x800a0\<rparr>"

lemma example_image_ok: "image_ok example_image"
  by (simp add: image_ok_def tables_below_def tables_placed_def page_aligned_def example_image_def LINEAR_MAP_BASE_def)

lemma boot_start_correct_witness:
  "\<exists>s' m'. boot_start example_image (reset_core 0x80000000) (\<lambda>_. 7) = Some (Runs 0xffff000000092000 s' m') \<and>
     core_ready example_image 0xffff0000006a1000 s' \<and> memory_started example_image (\<lambda>_. 7) m' \<and>
     translate (MMU s') m' 0xffff000000092000 = Some (normal_memory 0x92000)"
proof -
  have "level (reset_core 0x80000000) = 2 \<or> level (reset_core 0x80000000) = 3" by (simp add: reset_core_def)
  from boot_start_correct [OF example_image_ok this, of "\<lambda>_. 7"]
  obtain s' m' where r: "boot_start example_image (reset_core 0x80000000) (\<lambda>_. 7) = Some (Runs (sym_kernel_main example_image) s' m')"
    "core_ready example_image (sym_cpu0_stack example_image) s'" "memory_started example_image (\<lambda>_. 7) m'"
    "\<forall>va. translate (MMU s') m' va = kernel_map va"
    by (auto simp: reset_core_def example_image_def)
  moreover have "kernel_map 0xffff000000092000 = Some (normal_memory 0x92000)"
    by (simp add: kernel_map_def LINEAR_MAP_BASE_def)
  ultimately show ?thesis by (auto simp: example_image_def)
qed

subsection \<open>The other cores reach \<open>initSecondaryCore\<close>\<close>

lemma ld_align_dvd:
  assumes "0 < n" "n dvd dot"
  shows "ld_align n dot = dot"
proof -
  obtain k where k: "dot = n * k" using assms(2) by (rule dvdE)
  have "(n * k + (n - 1)) div n = k + (n - 1) div n" using assms(1) by (intro div_mult_self4) simp
  then show ?thesis using assms(1) by (simp add: ld_align_def k)
qed

lemma ld_align_ge:
  assumes "0 < n"
  shows "dot \<le> ld_align n dot" "n dvd ld_align n dot"
proof -
  have "ld_align n dot + (dot + (n - 1)) mod n = dot + (n - 1)" by (simp add: ld_align_def)
  moreover have "(dot + (n - 1)) mod n \<le> n - 1" using assms mod_less_divisor [of n "dot + (n - 1)"] by linarith
  ultimately show "dot \<le> ld_align n dot" by linarith
  show "n dvd ld_align n dot" by (simp add: ld_align_def)
qed

lemma stack_tops:
  "cpu0_stack e = stack_start e + 4096" "cpu1_stack e = stack_start e + 2 * 4096"
  "cpu2_stack e = stack_start e + 3 * 4096" "cpu3_stack e = stack_start e + 4 * 4096" "e \<le> stack_start e"
proof -
  have a: "e \<le> stack_start e" "4096 dvd stack_start e"
    using ld_align_ge [of 4096 e] by (simp_all add: stack_start_def)
  then have "16 dvd stack_start e" by (auto elim!: dvdE)
  then have d: "16 dvd stack_start e + k * 4096" for k by (auto elim!: dvdE)
  show c0: "cpu0_stack e = stack_start e + 4096"
    using d [of 1] by (simp add: cpu0_stack_def Let_def ld_align_dvd)
  show c1: "cpu1_stack e = stack_start e + 2 * 4096"
    using d [of 1] by (simp add: cpu1_stack_def c0 next_cpu_stack_def Let_def ld_align_dvd)
  show c2: "cpu2_stack e = stack_start e + 3 * 4096"
    using d [of 2] by (simp add: cpu2_stack_def c1 next_cpu_stack_def Let_def ld_align_dvd)
  show "cpu3_stack e = stack_start e + 4 * 4096"
    using d [of 3] by (simp add: cpu3_stack_def c2 next_cpu_stack_def Let_def ld_align_dvd)
  show "e \<le> stack_start e" by (rule a(1))
qed

definition stack_of :: "nat \<Rightarrow> nat \<Rightarrow> nat" where
  "stack_of e c = [cpu0_stack e, cpu1_stack e, cpu2_stack e, cpu3_stack e] ! c"

lemma stack_of_eq:
  assumes "c < 4"
  shows "stack_of e c = stack_start e + 4096 * (c + 1)"
proof -
  have "c = 0 \<or> c = 1 \<or> c = 2 \<or> c = 3" using assms by auto
  then show ?thesis by (auto simp: stack_of_def stack_tops)
qed

lemma core_stack:
  assumes "c < 4" "sym_cpu0_stack img = of_nat (cpu0_stack e)"
  shows "sym_cpu0_stack img + push_bit 12 (of_nat c) = of_nat (stack_of e c)"
  using assms by (simp add: stack_of_eq stack_tops push_bit_eq_mult algebra_simps)

lemma init_core_level_1_spec:
  assumes "image_ok img" "level s = 1" "tables_in (sym_id_pg_dir img) (sym_high_pg_dir img) m"
  shows "init_core_level_1 img s m = Some (Runs (sym_initSecondaryCore img)
    ((kernel_state img s)\<lparr>X := (X s)(0 := 0, 1 := 0, 2 := 0, 3 := 0)\<rparr>) m)"
  using assms(2) fetches_identity [OF assms(1,3)]
  by (simp add: init_core_level_1_def msr_def from_level_def mmu_loaded kernel_state_def image_mmu_def)

lemma core_ready_X: "core_ready img stack (s\<lparr>X := f\<rparr>) = core_ready img stack s"
  by (simp add: core_ready_def get_sp_def sp_index_def)

text \<open>C24: a core number \<open>c\<close> that core 0 sends to \<open>init_core\<close>, once the tables are in memory, gets to
  \<open>initSecondaryCore\<close> in the state C++ code relies on and with its own stack, the one \<open>linker.ld\<close>
  reserves for it: 4096 bytes that no other core's stack overlaps. Memory is as before.\<close>

theorem init_core_correct:
  assumes "image_ok img" "level s = 2 \<or> level s = 3" "tables_in (sym_id_pg_dir img) (sym_high_pg_dir img) m"
    "sym_cpu0_stack img = of_nat (cpu0_stack e)" "c < 4" "MPIDR_EL1 s AND 3 = of_nat c"
  shows "(\<exists>s'. init_core img s m = Some (Runs (sym_initSecondaryCore img) s' m) \<and>
      core_ready img (of_nat (stack_of e c)) s' \<and> X s' 0 = 0 \<and> X s' 1 = 0 \<and> X s' 2 = 0 \<and> X s' 3 = 0) \<and>
    e \<le> stack_of e c - 4096 \<and> stack_of e c = stack_of e 0 + 4096 * c"
proof -
  have l: "1 \<le> level s" "level s \<le> 3" using assms(2) by auto
  let ?stack = "of_nat (stack_of e c) :: 64 word"
  let ?s = "(kernel_state img (entry_state img ?stack s))
    \<lparr>X := (X (entry_state img ?stack s))(0 := 0, 1 := 0, 2 := 0, 3 := 0)\<rparr>"
  have "init_core img s m = Some (Runs (sym_initSecondaryCore img) ?s m)"
    unfolding init_core_eq [OF l] assms(6) core_stack [OF assms(5,4)]
    by (rule init_core_level_1_spec [OF assms(1) entry_level [OF l] assms(3)])
  moreover have "core_ready img ?stack ?s"
    unfolding core_ready_X by (rule core_ready_entry [OF assms(2)])
  moreover have "e \<le> stack_of e c - 4096" "stack_of e c = stack_of e 0 + 4096 * c"
    using assms(5) stack_tops(5) [of e] by (simp_all add: stack_of_eq)
  ultimately show ?thesis by auto
qed

lemma init_core_correct_witness:
  "\<exists>m' s'. tables_in 0x81000 0x84000 m' \<and>
     init_core example_image (reset_core 0x80000002) m' = Some (Runs 0xffff000000093000 s' m') \<and>
     core_ready example_image 0xffff0000006a3000 s'"
proof -
  have placed: "tables_placed 0x81000 0x84000" by (simp add: tables_placed_def page_aligned_def)
  obtain m' where t: "tables_in 0x81000 0x84000 m'" using map_both [OF placed] by blast
  let ?e = "0xffff00000069ffff :: nat"
  have "stack_start ?e = 0xffff0000006a0000" by (simp add: stack_start_def ld_align_def)
  then have k: "cpu0_stack ?e = 0xffff0000006a1000" "stack_of ?e 2 = 0xffff0000006a3000"
    by (simp_all add: stack_tops stack_of_eq)
  have "level (reset_core 0x80000002) = 2 \<or> level (reset_core 0x80000002) = 3"
    "MPIDR_EL1 (reset_core 0x80000002) AND 3 = of_nat 2" "sym_cpu0_stack example_image = of_nat (cpu0_stack ?e)"
    by (simp_all add: reset_core_def example_image_def k)
  from init_core_correct [OF example_image_ok this(1) _ this(3) _ this(2), of m'] t
  show ?thesis by (auto simp: example_image_def k)
qed

end
