(* ===== verification/Machine.thy ===== *)
theory Machine
  imports Prelude "HOL-Library.Monad_Syntax"
begin

text \<open>
  The hardware as the kernel sees it (\<open>class MMIO\<close> of \<open>src/include/Mem.h\<close> and \<open>src/Mem.cpp\<close>,
  \<open>src/IO.cpp\<close>) and the ways in which a handler can end.

  Devices are not part of the sources. A device is a parameter of the model: a function
  \<open>dev\<close> that gives the value a register has after a history of accesses. The history is the
  state: every load and store of a device register is recorded in it, the latest first. What
  the kernel does to the hardware is the history it leaves behind; what a theorem needs of a
  device is a hypothesis about \<open>dev\<close>.
\<close>

subsection \<open>Device registers\<close>

datatype io = Read nat "32 word" | Write nat "32 word"

type_synonym history = "io list"

type_synonym device = "history \<Rightarrow> nat \<Rightarrow> 32 word"

definition mmio_write :: "nat \<Rightarrow> 32 word \<Rightarrow> history \<Rightarrow> history" where
  "mmio_write reg val h = Write reg val # h"

definition mmio_read :: "device \<Rightarrow> nat \<Rightarrow> history \<Rightarrow> 32 word \<times> history" where
  "mmio_read dev reg h = (dev h reg, Read reg (dev h reg) # h)"

definition PERIPHERAL_BASE :: nat where
  "PERIPHERAL_BASE = 0xffff0000FE000000"

text \<open>A register that reads back the last value written to it behaves like memory.\<close>

primrec last_write :: "history \<Rightarrow> nat \<Rightarrow> 32 word" where
  "last_write [] reg = 0"
| "last_write (a # h) reg =
     (case a of Write r v \<Rightarrow> if r = reg then v else last_write h reg | Read r v \<Rightarrow> last_write h reg)"

definition memory_like :: "device \<Rightarrow> nat set \<Rightarrow> bool" where
  "memory_like dev R \<longleftrightarrow> (\<forall>h. \<forall>r \<in> R. dev h r = last_write h r)"

primrec writes_of :: "history \<Rightarrow> (nat \<times> 32 word) list" where
  "writes_of [] = []"
| "writes_of (a # h) = (case a of Write r v \<Rightarrow> writes_of h @ [(r, v)] | Read r v \<Rightarrow> writes_of h)"

lemma mmio_simps [simp]:
  "fst (mmio_read dev reg h) = dev h reg"
  "last_write (mmio_write r v h) reg = (if r = reg then v else last_write h reg)"
  "last_write (snd (mmio_read dev r h)) reg = last_write h reg"
  "writes_of (mmio_write r v h) = writes_of h @ [(r, v)]"
  "writes_of (snd (mmio_read dev r h)) = writes_of h"
  by (simp_all add: mmio_write_def mmio_read_def)

lemma memory_likeD: "memory_like dev R \<Longrightarrow> r \<in> R \<Longrightarrow> dev h r = last_write h r"
  by (simp add: memory_like_def)

lemma bit_single [simp]: "bit (2 ^ n :: 32 word) i \<longleftrightarrow> i = n \<and> n < 32"
  by (auto simp: bit_exp_iff)

text \<open>\<open>later h h'\<close>: the history \<open>h'\<close> extends \<open>h\<close>.\<close>

definition later :: "history \<Rightarrow> history \<Rightarrow> bool" where
  "later h h' \<longleftrightarrow> (\<exists>w. h' = w @ h)"

lemma later_refl [simp, intro]: "later h h"
  by (simp add: later_def)

lemma later_trans [trans]: "later a b \<Longrightarrow> later b c \<Longrightarrow> later a c"
  by (auto simp: later_def)

lemma later_access [simp]:
  "later h (mmio_write r v h)" "later h (snd (mmio_read dev r h))" "later h (a # h)"
  by (simp_all add: later_def mmio_write_def mmio_read_def)

subsection \<open>How a handler ends\<close>

text \<open>
  \<open>Done x\<close>: it returns \<open>x\<close>. \<open>Hung s\<close>: the core ends in \<open>_hang_forever\<close> in the state \<open>s\<close>.
  \<open>Undefined\<close>: it uses a pointer that was never set. \<open>None\<close> stands for a call that never
  returns without hanging the core: it waits for a lock or for a device.
\<close>

datatype ('s, 'a) result = Done 'a | Hung 's | Undefined string

type_synonym ('s, 'a) run = "('s, 'a) result option"

definition ret :: "'a \<Rightarrow> ('s, 'a) run" where
  "ret x = Some (Done x)"

definition hung :: "'s \<Rightarrow> ('s, 'a) run" where
  "hung s = Some (Hung s)"

definition undefined_use :: "string \<Rightarrow> ('s, 'a) run" where
  "undefined_use what = Some (Undefined what)"

definition waiting :: "('s, 'a) run" where
  "waiting = None"

definition thn :: "('s, 'a) run \<Rightarrow> ('a \<Rightarrow> ('s, 'b) run) \<Rightarrow> ('s, 'b) run" where
  "thn m f = (case m of None \<Rightarrow> None
     | Some r \<Rightarrow> (case r of Done x \<Rightarrow> f x | Hung s \<Rightarrow> Some (Hung s) | Undefined w \<Rightarrow> Some (Undefined w)))"

definition of_option :: "'a option \<Rightarrow> ('s, 'a) run" where
  "of_option m = map_option Done m"

lemma thn_simps [simp]:
  "thn (ret x) f = f x" "thn (hung s) f = hung s" "thn waiting f = waiting"
  "thn (undefined_use w) f = undefined_use w"
  by (simp_all add: thn_def ret_def hung_def waiting_def undefined_use_def)

lemma of_option_simps [simp]: "of_option (Some x) = ret x" "of_option None = waiting"
  by (simp_all add: of_option_def ret_def waiting_def)

lemma run_distinct [simp]:
  "ret x = ret y \<longleftrightarrow> x = y" "hung s = hung t \<longleftrightarrow> s = t"
  "ret x \<noteq> hung s" "hung s \<noteq> ret x" "ret x \<noteq> waiting" "waiting \<noteq> ret x"
  "hung s \<noteq> waiting" "waiting \<noteq> hung s" "undefined_use w \<noteq> ret x" "ret x \<noteq> undefined_use w"
  "undefined_use w \<noteq> hung s" "hung s \<noteq> undefined_use w" "undefined_use w \<noteq> waiting"
  "waiting \<noteq> undefined_use w"
  by (simp_all add: ret_def hung_def waiting_def undefined_use_def)

lemma run_cases [case_names Done Hung Undefined Waiting]:
  obtains (Done) x where "m = ret x" | (Hung) s where "m = hung s"
    | (Undefined) w where "m = undefined_use w" | (Waiting) "m = waiting"
  by (cases m; (cases "the m")?)
    (auto simp: ret_def hung_def waiting_def undefined_use_def split: result.splits)

lemma thn_ret_iff: "thn m f = ret y \<longleftrightarrow> (\<exists>x. m = ret x \<and> f x = ret y)"
  by (cases m rule: run_cases) auto

lemma thn_mono [partial_function_mono]:
  fixes B :: "('x \<Rightarrow> 'y option) \<Rightarrow> ('s, 'a) run"
  assumes "mono_option B" "\<And>y. mono_option (\<lambda>f. C y f)"
  shows "mono_option (\<lambda>f. thn (B f) (\<lambda>y. C y f))"
proof (rule monotoneI)
  fix f g :: "'x \<Rightarrow> 'y option"
  assume fg: "option.le_fun f g"
  have b: "option_ord (B f) (B g)" using assms(1) fg by (rule monotoneD [of _ _ _ f g])
  have c: "option_ord (C y f) (C y g)" for y using assms(2) fg by (rule monotoneD [of _ _ _ f g])
  show "option_ord (thn (B f) (\<lambda>y. C y f)) (thn (B g) (\<lambda>y. C y g))"
  proof (cases "B f")
    case None
    then show ?thesis by (simp add: thn_def flat_ord_def)
  next
    case (Some r)
    then have "B g = Some r" using b by (auto simp: flat_ord_def)
    then show ?thesis using Some c by (cases r) (auto simp: thn_def flat_ord_def)
  qed
qed

end
