(* ===== verification/Gpio.thy ===== *)
theory Gpio
  imports Machine
begin

text \<open>
  \<open>class GPIO\<close> (\<open>src/drivers/GPIO.cpp\<close>, \<open>src/include/GPIO.h\<close>): pin functions, pulls and outputs,
  all through \<open>call\<close>, which replaces one field of one register.
\<close>

definition GPFSEL0 :: nat where "GPFSEL0 = PERIPHERAL_BASE + 0x200000"
definition GPSET0 :: nat where "GPSET0 = PERIPHERAL_BASE + 0x20001C"
definition GPCLR0 :: nat where "GPCLR0 = PERIPHERAL_BASE + 0x200028"
definition GPPUPPDN0 :: nat where "GPPUPPDN0 = PERIPHERAL_BASE + 0x2000E4"

definition GPIO_MAX_PIN :: nat where "GPIO_MAX_PIN = 53"
definition GPIO_FUNCTION_OUT :: "32 word" where "GPIO_FUNCTION_OUT = 1"
definition GPIO_FUNCTION_ALT5 :: "32 word" where "GPIO_FUNCTION_ALT5 = 2"
definition GPIO_FUNCTION_ALT3 :: "32 word" where "GPIO_FUNCTION_ALT3 = 7"
definition Pull_None :: "32 word" where "Pull_None = 0"

definition field_mask :: "nat \<Rightarrow> 32 word" where
  "field_mask field_size = push_bit field_size 1 - 1"

definition gpio_call ::
  "device \<Rightarrow> nat \<Rightarrow> 32 word \<Rightarrow> nat \<Rightarrow> nat \<Rightarrow> nat \<Rightarrow> history \<Rightarrow> nat \<times> history" where
  "gpio_call dev pin_number val base field_size field_max h =
     (if pin_number > field_max then (0, h)
      else if val > field_mask field_size then (0, h)
      else
        let num_fields = 32 div field_size;
               reg = base + (pin_number div num_fields) * 4;
               shift = (pin_number mod num_fields) * field_size;
               (curval, h) = mmio_read dev reg h;
               curval = curval AND NOT (push_bit shift (field_mask field_size));
               curval = curval OR push_bit shift val
           in (1, mmio_write reg curval h))"

definition gpio_set :: "device \<Rightarrow> nat \<Rightarrow> 32 word \<Rightarrow> history \<Rightarrow> nat \<times> history" where
  "gpio_set dev pin_number val = gpio_call dev pin_number val GPSET0 1 GPIO_MAX_PIN"

definition gpio_clear :: "device \<Rightarrow> nat \<Rightarrow> 32 word \<Rightarrow> history \<Rightarrow> nat \<times> history" where
  "gpio_clear dev pin_number val = gpio_call dev pin_number val GPCLR0 1 GPIO_MAX_PIN"

definition gpio_pull :: "device \<Rightarrow> nat \<Rightarrow> 32 word \<Rightarrow> history \<Rightarrow> nat \<times> history" where
  "gpio_pull dev pin_number val = gpio_call dev pin_number val GPPUPPDN0 2 GPIO_MAX_PIN"

definition gpio_function :: "device \<Rightarrow> nat \<Rightarrow> 32 word \<Rightarrow> history \<Rightarrow> nat \<times> history" where
  "gpio_function dev pin_number val = gpio_call dev pin_number val GPFSEL0 3 GPIO_MAX_PIN"

definition useAsAlt3 :: "device \<Rightarrow> nat \<Rightarrow> history \<Rightarrow> history" where
  "useAsAlt3 dev pin_number h =
     (let h = snd (gpio_pull dev pin_number Pull_None h)
      in snd (gpio_function dev pin_number GPIO_FUNCTION_ALT3 h))"

definition useAsAlt5 :: "device \<Rightarrow> nat \<Rightarrow> history \<Rightarrow> history" where
  "useAsAlt5 dev pin_number h =
     (let h = snd (gpio_pull dev pin_number Pull_None h)
      in snd (gpio_function dev pin_number GPIO_FUNCTION_ALT5 h))"

definition initOutputPinWithPullNone :: "device \<Rightarrow> nat \<Rightarrow> history \<Rightarrow> history" where
  "initOutputPinWithPullNone dev pin_number h =
     (let h = snd (gpio_pull dev pin_number Pull_None h)
      in snd (gpio_function dev pin_number GPIO_FUNCTION_OUT h))"

definition setPinOutputBool :: "device \<Rightarrow> nat \<Rightarrow> nat \<Rightarrow> history \<Rightarrow> history" where
  "setPinOutputBool dev pin_number onOrOff h =
     (if onOrOff \<noteq> 0 then snd (gpio_set dev pin_number 1 h) else snd (gpio_clear dev pin_number 1 h))"

subsection \<open>Fields\<close>

text \<open>Field \<open>i\<close> of a register that is divided into fields of \<open>w\<close> bits.\<close>

definition field :: "nat \<Rightarrow> nat \<Rightarrow> 32 word \<Rightarrow> 32 word" where
  "field w i r = take_bit w (drop_bit (i * w) r)"

lemma bit_field: "bit (field w i r) k \<longleftrightarrow> k < w \<and> bit r (i * w + k)"
  by (simp add: field_def bit_take_bit_iff bit_drop_bit_eq)

lemma field_mask_eq: "field_mask w = mask w"
  by (simp add: field_mask_def mask_eq_exp_minus_1 push_bit_eq_mult)

lemma bit_field_mask: "w < 32 \<Longrightarrow> bit (field_mask w) k \<longleftrightarrow> k < w"
  by (auto simp: field_mask_eq bit_mask_iff)

lemma le_mask_bits:
  assumes "w < 32" "v \<le> field_mask w" "bit v k"
  shows "k < w"
proof -
  have "unat v \<le> unat (mask w :: 32 word)" using assms(2) by (simp add: field_mask_eq word_le_nat_alt)
  moreover have "unat (mask w :: 32 word) = mask w"
  proof -
    have "(mask w :: nat) < 2 ^ w" by (rule mask_nat_less_exp)
    also have "\<dots> \<le> (2::nat) ^ 32" using assms(1) by (intro power_increasing) auto
    finally have "unat (of_nat (mask w) :: 32 word) = mask w" by (simp add: unat_of_nat take_bit_nat_eq_self)
    moreover have "(of_nat (mask w) :: 32 word) = mask w" by (rule of_nat_mask_eq)
    ultimately show ?thesis by metis
  qed
  ultimately have "unat v < 2 ^ w" using mask_nat_less_exp [of w] by linarith
  then have "take_bit w v = v" by (intro word_unat_eq_iff [THEN iffD2]) (simp add: unsigned_take_bit_eq take_bit_nat_eq_self)
  then show ?thesis using assms(3) by (metis bit_take_bit_iff)
qed

lemma disjoint_fields:
  fixes i j w k :: nat
  assumes "i \<noteq> j" "k < w"
  shows "\<not> (i * w \<le> j * w + k \<and> j * w + k < i * w + w)"
proof (cases "i < j")
  case True
  then have "(i + 1) * w \<le> j * w" by (intro mult_right_mono) auto
  then show ?thesis by simp
next
  case False
  then have "(j + 1) * w \<le> i * w" using assms(1) by (intro mult_right_mono) auto
  then show ?thesis using assms(2) by simp
qed

lemma update_field:
  fixes cur v :: "32 word"
  assumes "0 < w" "w < 32" "i < 32 div w" "j < 32 div w" "v \<le> field_mask w"
  shows "field w j ((cur AND NOT (push_bit (i * w) (field_mask w))) OR push_bit (i * w) v) =
    (if j = i then v else field w j cur)"
proof (rule bit_word_eqI)
  fix k
  have fits: "l < 32 div w \<Longrightarrow> m < w \<Longrightarrow> l * w + m < 32" for l m
  proof -
    assume a: "l < 32 div w" "m < w"
    then have "(l + 1) * w \<le> (32 div w) * w" by (intro mult_right_mono) auto
    also have "\<dots> \<le> 32" by simp
    finally show "l * w + m < 32" using a(2) by simp
  qed
  show "bit (field w j ((cur AND NOT (push_bit (i * w) (field_mask w))) OR push_bit (i * w) v)) k =
    bit (if j = i then v else field w j cur) k"
  proof (cases "k < w")
    case False
    then show ?thesis using le_mask_bits [OF assms(2,5)] by (auto simp: bit_field)
  next
    case True
    have b: "j * w + k < 32" using fits assms(4) True by blast
    have m: "bit (push_bit (i * w) (field_mask w)) (j * w + k) \<longleftrightarrow>
        i * w \<le> j * w + k \<and> j * w + k < i * w + w"
      using b assms(2) by (auto simp: bit_push_bit_iff bit_field_mask)
    have v: "bit (push_bit (i * w) v) (j * w + k) \<longleftrightarrow> i * w \<le> j * w + k \<and> bit v (j * w + k - i * w)"
      using b by (auto simp: bit_push_bit_iff)
    show ?thesis
    proof (cases "j = i")
      case True
      then show ?thesis using \<open>k < w\<close> b m v by (simp add: bit_field bit_or_iff bit_and_iff bit_not_iff)
    next
      case False
      have "\<not> (i * w \<le> j * w + k \<and> j * w + k < i * w + w)" using disjoint_fields [of i j k w] False True by auto
      moreover have "i * w \<le> j * w + k \<Longrightarrow> bit v (j * w + k - i * w) \<Longrightarrow> j * w + k < i * w + w"
        using le_mask_bits [OF assms(2,5)] by fastforce
      ultimately show ?thesis using \<open>k < w\<close> b m v False
        by (auto simp: bit_field bit_or_iff bit_and_iff bit_not_iff)
    qed
  qed
qed

text \<open>On registers that read back what was written, \<open>call\<close> on a pin and a value within bounds
  stores the value in the field of that pin, leaves the fields of all other pins as they were and
  reports success; out of bounds it reports failure and touches no register.\<close>

theorem gpio_call_correct:
  assumes dev: "memory_like dev {reg}" and width: "0 < width" "width < 32"
    and reg: "reg = base + pin div (32 div width) * 4"
  shows "(pin > field_max \<or> val > field_mask width \<longrightarrow>
           gpio_call dev pin val base width field_max h = (0, h)) \<and>
    (pin \<le> field_max \<and> val \<le> field_mask width \<longrightarrow>
      (\<exists>h'. gpio_call dev pin val base width field_max h = (1, h') \<and>
        (\<forall>r. r \<noteq> reg \<longrightarrow> last_write h' r = last_write h r) \<and>
        (\<forall>i < 32 div width. field width i (last_write h' reg) =
           (if i = pin mod (32 div width) then val else field width i (last_write h reg)))))"
proof (intro conjI impI)
  assume "pin > field_max \<or> val > field_mask width"
  then show "gpio_call dev pin val base width field_max h = (0, h)"
    by (auto simp: gpio_call_def Let_def)
next
  assume b: "pin \<le> field_max \<and> val \<le> field_mask width"
  let ?i = "pin mod (32 div width)"
  let ?v = "(last_write h reg AND NOT (push_bit (?i * width) (field_mask width))) OR push_bit (?i * width) val"
  have cur: "dev h reg = last_write h reg" using dev by (simp add: memory_like_def)
  have "gpio_call dev pin val base width field_max h =
      (1, mmio_write reg ?v (snd (mmio_read dev reg h)))"
    using b unfolding gpio_call_def Let_def reg [symmetric]
    by (simp add: mmio_read_def cur not_less [symmetric] del: not_less)
  moreover have "0 < 32 div width" using width by (simp add: div_greater_zero_iff)
  ultimately show "\<exists>h'. gpio_call dev pin val base width field_max h = (1, h') \<and>
        (\<forall>r. r \<noteq> reg \<longrightarrow> last_write h' r = last_write h r) \<and>
        (\<forall>i < 32 div width. field width i (last_write h' reg) =
           (if i = ?i then val else field width i (last_write h reg)))"
    using width b by (simp add: update_field)
qed

theorem gpio_call_correct_witness:
  "\<exists>h'. gpio_function last_write 14 2 [] = (1, h') \<and> field 3 4 (last_write h' (GPFSEL0 + 4)) = 2"
proof -
  have m: "field_mask 3 = 7" by (simp add: field_mask_def push_bit_eq_mult)
  have d: "memory_like last_write {GPFSEL0 + 4}" by (simp add: memory_like_def)
  have r: "GPFSEL0 + 4 = GPFSEL0 + 14 div (32 div 3) * 4" "14 \<le> GPIO_MAX_PIN" "2 \<le> field_mask 3"
    using m by (simp_all add: GPIO_MAX_PIN_def)
  have "(0::nat) < 3" "(3::nat) < 32" by simp_all
  from gpio_call_correct [OF d this r(1), THEN conjunct2, THEN mp, OF conjI [OF r(2,3)], of "[]"]
  obtain h' where h': "gpio_call last_write 14 2 GPFSEL0 3 GPIO_MAX_PIN [] = (1, h')"
    "\<forall>i < 32 div 3. field 3 i (last_write h' (GPFSEL0 + 4)) =
       (if i = 14 mod (32 div 3) then 2 else field 3 i (last_write [] (GPFSEL0 + 4)))" by blast
  from h'(2) [rule_format, of 4] have "field 3 4 (last_write h' (GPFSEL0 + 4)) = 2" by simp
  then show ?thesis using h'(1) by (simp add: gpio_function_def)
qed

end
