(* ===== verification/Uart.thy ===== *)
theory Uart
  imports Gpio
begin

text \<open>
  \<open>class UART\<close> (\<open>src/drivers/Uart.cpp\<close>, \<open>src/include/Uart.h\<close>): the mini UART, its polled output
  and its output queue, a ring buffer of \<open>UART_MAX_QUEUE\<close> bytes that holds one byte less. Polling
  a device that never becomes ready does not end.
\<close>

definition AUX_BASE :: nat where "AUX_BASE = PERIPHERAL_BASE + 0x215000"
definition AUX_ENABLES :: nat where "AUX_ENABLES = AUX_BASE + 4"
definition AUX_MU_IO_REG :: nat where "AUX_MU_IO_REG = AUX_BASE + 64"
definition AUX_MU_IER_REG :: nat where "AUX_MU_IER_REG = AUX_BASE + 68"
definition AUX_MU_LCR_REG :: nat where "AUX_MU_LCR_REG = AUX_BASE + 76"
definition AUX_MU_MCR_REG :: nat where "AUX_MU_MCR_REG = AUX_BASE + 80"
definition AUX_MU_LSR_REG :: nat where "AUX_MU_LSR_REG = AUX_BASE + 84"
definition AUX_MU_CNTL_REG :: nat where "AUX_MU_CNTL_REG = AUX_BASE + 96"
definition AUX_MU_BAUD_REG :: nat where "AUX_MU_BAUD_REG = AUX_BASE + 104"
definition AUX_UART_CLOCK :: nat where "AUX_UART_CLOCK = 500000000"
definition UART_MAX_QUEUE :: nat where "UART_MAX_QUEUE = 16 * 1024"

definition AUX_MU_BAUD :: "nat \<Rightarrow> nat" where
  "AUX_MU_BAUD baud = AUX_UART_CLOCK div (baud * 8) - 1"

lemmas uart_registers = AUX_BASE_def AUX_ENABLES_def AUX_MU_IO_REG_def AUX_MU_IER_REG_def
  AUX_MU_LCR_REG_def AUX_MU_MCR_REG_def AUX_MU_LSR_REG_def AUX_MU_CNTL_REG_def AUX_MU_BAUD_REG_def
  PERIPHERAL_BASE_def

record uart =
  uart_output_queue :: "nat \<Rightarrow> 8 word"
  uart_output_queue_write :: nat
  uart_output_queue_read :: nat
  uart_io :: history

definition uart_new :: "(nat \<Rightarrow> 8 word) \<Rightarrow> history \<Rightarrow> uart" where
  "uart_new contents h =
     \<lparr>uart_output_queue = contents, uart_output_queue_write = 0, uart_output_queue_read = 0, uart_io = h\<rparr>"

definition uart_init :: "device \<Rightarrow> history \<Rightarrow> history" where
  "uart_init dev h =
     (let h = mmio_write AUX_ENABLES 1 h;
          h = mmio_write AUX_MU_CNTL_REG 0 h;
          h = mmio_write AUX_MU_LCR_REG 3 h;
          h = mmio_write AUX_MU_MCR_REG 0 h;
          h = mmio_write AUX_MU_IER_REG 0xD h;
          h = mmio_write AUX_MU_BAUD_REG (of_nat (AUX_MU_BAUD 115200)) h;
          h = useAsAlt5 dev 14 h;
          h = useAsAlt5 dev 15 h
      in mmio_write AUX_MU_CNTL_REG 3 h)"

definition isOutputQueueEmpty :: "uart \<Rightarrow> bool" where
  "isOutputQueueEmpty u \<longleftrightarrow> uart_output_queue_read u = uart_output_queue_write u"

definition isReadByteReady :: "device \<Rightarrow> history \<Rightarrow> 32 word \<times> history" where
  "isReadByteReady dev h = (let (v, h) = mmio_read dev AUX_MU_LSR_REG h in (v AND 0x01, h))"

definition isWriteByteReady :: "device \<Rightarrow> history \<Rightarrow> 32 word \<times> history" where
  "isWriteByteReady dev h = (let (v, h) = mmio_read dev AUX_MU_LSR_REG h in (v AND 0x20, h))"

partial_function (option) readByte :: "device \<Rightarrow> history \<Rightarrow> (8 word \<times> history) option" where
  "readByte dev h =
     (let (ready, h) = isReadByteReady dev h
      in if ready = 0 then readByte dev h
         else let (v, h) = mmio_read dev AUX_MU_IO_REG h in Some (ucast v, h))"

declare readByte.simps [code]

definition readChar :: "device \<Rightarrow> history \<Rightarrow> (8 word \<times> history) option" where
  "readChar = readByte"

partial_function (option) writeByteBlockingActual :: "device \<Rightarrow> 8 word \<Rightarrow> history \<Rightarrow> history option" where
  "writeByteBlockingActual dev ch h =
     (let (ready, h) = isWriteByteReady dev h
      in if ready = 0 then writeByteBlockingActual dev ch h
         else Some (mmio_write AUX_MU_IO_REG (ucast ch) h))"

declare writeByteBlockingActual.simps [code]

definition queue_next :: "nat \<Rightarrow> nat" where
  "queue_next i = (i + 1) AND (UART_MAX_QUEUE - 1)"

partial_function (option) loadOutputFifo :: "device \<Rightarrow> uart \<Rightarrow> uart option" where
  "loadOutputFifo dev u =
     (if \<not> isOutputQueueEmpty u then
        let (ready, h) = isWriteByteReady dev (uart_io u); u = u\<lparr>uart_io := h\<rparr>
        in if ready \<noteq> 0 then do {
             h \<leftarrow> writeByteBlockingActual dev (uart_output_queue u (uart_output_queue_read u)) (uart_io u);
             loadOutputFifo dev
               (u\<lparr>uart_io := h, uart_output_queue_read := queue_next (uart_output_queue_read u)\<rparr>)
           }
           else Some u
      else Some u)"

declare loadOutputFifo.simps [code]

partial_function (option) wait_for_slot :: "device \<Rightarrow> nat \<Rightarrow> uart \<Rightarrow> uart option" where
  "wait_for_slot dev next u =
     (if next = uart_output_queue_read u then do {
        u \<leftarrow> loadOutputFifo dev u;
        wait_for_slot dev next u
      }
      else Some u)"

declare wait_for_slot.simps [code]

definition writeByteBlocking :: "device \<Rightarrow> 8 word \<Rightarrow> uart \<Rightarrow> uart option" where
  "writeByteBlocking dev ch u = do {
     let next = queue_next (uart_output_queue_write u);
     u \<leftarrow> wait_for_slot dev next u;
     let u = u\<lparr>uart_output_queue := (uart_output_queue u)(uart_output_queue_write u := ch)\<rparr>;
     Some (u\<lparr>uart_output_queue_write := next\<rparr>)
   }"

definition char_byte :: "char \<Rightarrow> 8 word" where
  "char_byte c = of_nat (of_char c)"

definition uart_write_char :: "device \<Rightarrow> char \<Rightarrow> history \<Rightarrow> history option" where
  "uart_write_char dev b h = writeByteBlockingActual dev (char_byte b) h"

text \<open>\<open>write(const char*)\<close> sends a carriage return before every line feed.\<close>

primrec uart_write :: "device \<Rightarrow> string \<Rightarrow> history \<Rightarrow> history option" where
  "uart_write dev [] h = Some h"
| "uart_write dev (c # buffer) h = do {
     h \<leftarrow> (if c = CHR 0x0A then writeByteBlockingActual dev 13 h else Some h);
     h \<leftarrow> writeByteBlockingActual dev (char_byte c) h;
     uart_write dev buffer h
   }"

partial_function (option) drainOutputQueue :: "device \<Rightarrow> uart \<Rightarrow> uart option" where
  "drainOutputQueue dev u =
     (if \<not> isOutputQueueEmpty u then do {
        u \<leftarrow> loadOutputFifo dev u;
        drainOutputQueue dev u
      }
      else Some u)"

declare drainOutputQueue.simps [code]

definition uart_flush :: "device \<Rightarrow> uart \<Rightarrow> uart option" where
  "uart_flush dev u = do {
     u \<leftarrow> loadOutputFifo dev u;
     let (ready, h) = isReadByteReady dev (uart_io u);
     let u = u\<lparr>uart_io := h\<rparr>;
     if ready \<noteq> 0 then do {
       (ch, h) \<leftarrow> readByte dev (uart_io u);
       let u = u\<lparr>uart_io := h\<rparr>;
       if ch = 13 then do {
         h \<leftarrow> uart_write_char dev (CHR 0x0A) (uart_io u);
         Some (u\<lparr>uart_io := h\<rparr>)
       }
       else writeByteBlocking dev ch u
     }
     else Some u
   }"

subsection \<open>The bytes that were sent\<close>

definition sent :: "history \<Rightarrow> 8 word list" where
  "sent h = map (\<lambda>(r, v). ucast v) (filter (\<lambda>(r, v). r = AUX_MU_IO_REG) (writes_of h))"

lemma sent_simps [simp]:
  "sent (mmio_write r v h) = sent h @ (if r = AUX_MU_IO_REG then [ucast v] else [])"
  "sent (snd (mmio_read dev r h)) = sent h"
  by (simp_all add: sent_def)

text \<open>\<open>accepts dev\<close>: polling the line status, the transmitter gets ready after finitely many polls.\<close>

primrec polled :: "device \<Rightarrow> nat \<Rightarrow> history \<Rightarrow> history" where
  "polled dev 0 h = h"
| "polled dev (Suc k) h = polled dev k (snd (mmio_read dev AUX_MU_LSR_REG h))"

definition accepts :: "device \<Rightarrow> bool" where
  "accepts dev \<longleftrightarrow> (\<forall>h. \<exists>k. dev (polled dev k h) AUX_MU_LSR_REG AND 0x20 \<noteq> 0)"

lemma isWriteByteReady_simps [simp]:
  "fst (isWriteByteReady dev h) = dev h AUX_MU_LSR_REG AND 0x20"
  "snd (isWriteByteReady dev h) = snd (mmio_read dev AUX_MU_LSR_REG h)"
  by (simp_all add: isWriteByteReady_def mmio_read_def)

lemma ucast_byte [simp]: "ucast (ucast (ch :: 8 word) :: 32 word) = ch"
  by (rule bit_word_eqI) (auto simp: bit_ucast_iff)

lemma writeByteBlockingActual_sends:
  assumes "accepts dev"
  shows "\<exists>h'. writeByteBlockingActual dev ch h = Some h' \<and>
    writes_of h' = writes_of h @ [(AUX_MU_IO_REG, ucast ch)]"
proof -
  obtain k where "dev (polled dev k h) AUX_MU_LSR_REG AND 0x20 \<noteq> 0" using assms unfolding accepts_def by blast
  then show ?thesis
  proof (induction k arbitrary: h)
    case 0
    then show ?case by (subst writeByteBlockingActual.simps) (simp add: case_prod_beta Let_def)
  next
    case (Suc k)
    let ?h = "snd (mmio_read dev AUX_MU_LSR_REG h)"
    obtain h' where h': "writeByteBlockingActual dev ch ?h = Some h'"
        "writes_of h' = writes_of ?h @ [(AUX_MU_IO_REG, ucast ch)]"
      using Suc.IH [of ?h] Suc.prems by auto
    show ?case
      by (subst writeByteBlockingActual.simps) (use h' in \<open>simp add: case_prod_beta Let_def\<close>)
  qed
qed

lemma sent_byte: "writes_of h' = writes_of h @ [(AUX_MU_IO_REG, ucast (ch :: 8 word))] \<Longrightarrow> sent h' = sent h @ [ch]"
  by (simp add: sent_def)

subsection \<open>The output queue as a list\<close>

definition queue_valid :: "uart \<Rightarrow> bool" where
  "queue_valid u \<longleftrightarrow> uart_output_queue_read u < UART_MAX_QUEUE \<and> uart_output_queue_write u < UART_MAX_QUEUE"

definition queue_count :: "uart \<Rightarrow> nat" where
  "queue_count u = (uart_output_queue_write u + UART_MAX_QUEUE - uart_output_queue_read u) mod UART_MAX_QUEUE"

definition queued :: "uart \<Rightarrow> 8 word list" where
  "queued u = map (\<lambda>i. uart_output_queue u ((uart_output_queue_read u + i) mod UART_MAX_QUEUE)) [0..<queue_count u]"

lemma queue_next_mod: "queue_next i = (i + 1) mod UART_MAX_QUEUE"
proof -
  have "UART_MAX_QUEUE - 1 = mask 14" "UART_MAX_QUEUE = 2 ^ 14"
    by (simp_all add: UART_MAX_QUEUE_def mask_eq_exp_minus_1)
  then show ?thesis by (simp only: queue_next_def take_bit_eq_mask [symmetric] take_bit_eq_mod)
qed

lemma queue_next_cases:
  "i < UART_MAX_QUEUE \<Longrightarrow> queue_next i = (if i = UART_MAX_QUEUE - 1 then 0 else i + 1)"
  by (auto simp: queue_next_mod UART_MAX_QUEUE_def)

lemma mod_once: "x < 2 * m \<Longrightarrow> x mod m = (if x < m then x else x - m)" for x m :: nat
  by (simp add: le_mod_geq)

lemma queue_count_cases:
  "queue_valid u \<Longrightarrow> queue_count u =
    (if uart_output_queue_read u \<le> uart_output_queue_write u
     then uart_output_queue_write u - uart_output_queue_read u
     else uart_output_queue_write u + UART_MAX_QUEUE - uart_output_queue_read u)"
  by (auto simp: queue_count_def queue_valid_def mod_once)

lemma queue_empty: "queue_valid u \<Longrightarrow> isOutputQueueEmpty u \<longleftrightarrow> queued u = []"
  by (auto simp: queued_def queue_count_cases isOutputQueueEmpty_def queue_valid_def)

lemma queued_read:
  assumes "queue_valid u" "\<not> isOutputQueueEmpty u"
  defines "u' \<equiv> u\<lparr>uart_output_queue_read := queue_next (uart_output_queue_read u)\<rparr>"
  shows "queue_valid u'" "queued u = uart_output_queue u (uart_output_queue_read u) # queued u'"
proof -
  let ?r = "uart_output_queue_read u" and ?w = "uart_output_queue_write u"
  show v: "queue_valid u'" using assms(1) by (auto simp: u'_def queue_valid_def queue_next_cases UART_MAX_QUEUE_def)
  have c: "queue_count u = Suc (queue_count u')"
    unfolding queue_count_cases [OF assms(1)] queue_count_cases [OF v] using assms(1,2)
    by (auto simp: u'_def queue_valid_def queue_next_cases isOutputQueueEmpty_def UART_MAX_QUEUE_def)
  have "uart_output_queue u ((?r + Suc i) mod UART_MAX_QUEUE) =
      uart_output_queue u' ((uart_output_queue_read u' + i) mod UART_MAX_QUEUE)" for i
    by (simp add: u'_def queue_next_mod mod_simps)
  moreover have "?r mod UART_MAX_QUEUE = ?r" using assms(1) by (simp add: queue_valid_def)
  ultimately show "queued u = uart_output_queue u ?r # queued u'"
    by (simp add: queued_def c map_upt_Suc del: upt_Suc)
qed

lemma queued_write:
  fixes ch :: "8 word"
  assumes "queue_valid u" "queue_next (uart_output_queue_write u) \<noteq> uart_output_queue_read u"
  defines "u' \<equiv> u\<lparr>uart_output_queue := (uart_output_queue u)(uart_output_queue_write u := ch),
                   uart_output_queue_write := queue_next (uart_output_queue_write u)\<rparr>"
  shows "queue_valid u'" "queued u' = queued u @ [ch]"
proof -
  let ?r = "uart_output_queue_read u" and ?w = "uart_output_queue_write u"
  show v: "queue_valid u'" using assms(1) by (auto simp: u'_def queue_valid_def queue_next_cases UART_MAX_QUEUE_def)
  have c: "queue_count u' = Suc (queue_count u)"
    unfolding queue_count_cases [OF assms(1)] queue_count_cases [OF v] using assms(1,2)
    by (auto simp: u'_def queue_valid_def queue_next_cases UART_MAX_QUEUE_def split: if_splits)
  have slot: "(?r + queue_count u) mod UART_MAX_QUEUE = ?w"
    using assms(1) by (auto simp: queue_count_cases queue_valid_def mod_once)
  have "(?r + i) mod UART_MAX_QUEUE \<noteq> ?w" if "i < queue_count u" for i
    using that assms(1) by (auto simp: queue_count_cases queue_valid_def mod_once split: if_splits)
  then show "queued u' = queued u @ [ch]"
    using slot by (simp add: queued_def c) (simp add: u'_def)
qed

text \<open>\<open>shifted u u'\<close>: some bytes have moved from the front of the queue to the line.\<close>

definition shifted :: "uart \<Rightarrow> uart \<Rightarrow> bool" where
  "shifted u u' \<longleftrightarrow> queue_valid u' \<and> sent (uart_io u') @ queued u' = sent (uart_io u) @ queued u \<and>
     uart_output_queue_write u' = uart_output_queue_write u"

lemma shifted_refl: "queue_valid u \<Longrightarrow> shifted u u"
  by (simp add: shifted_def)

lemma shifted_trans: "shifted u v \<Longrightarrow> shifted v w \<Longrightarrow> shifted u w"
  by (simp add: shifted_def)

lemma queued_io [simp]: "queued (u\<lparr>uart_io := h\<rparr>) = queued u" "queue_valid (u\<lparr>uart_io := h\<rparr>) = queue_valid u"
  "isOutputQueueEmpty (u\<lparr>uart_io := h\<rparr>) = isOutputQueueEmpty u"
  by (simp_all add: queued_def queue_count_def queue_valid_def isOutputQueueEmpty_def)

lemma loadOutputFifo_not_ready:
  "\<not> isOutputQueueEmpty u \<Longrightarrow> dev (uart_io u) AUX_MU_LSR_REG AND 0x20 = 0 \<Longrightarrow>
   loadOutputFifo dev u = Some (u\<lparr>uart_io := snd (mmio_read dev AUX_MU_LSR_REG (uart_io u))\<rparr>)"
  by (subst loadOutputFifo.simps) (simp add: case_prod_beta Let_def)

lemma loadOutputFifo_empty: "isOutputQueueEmpty u \<Longrightarrow> loadOutputFifo dev u = Some u"
  by (subst loadOutputFifo.simps) simp

lemma loadOutputFifo_shifts:
  assumes "accepts dev" "queue_valid u"
  shows "\<exists>u'. loadOutputFifo dev u = Some u' \<and> shifted u u' \<and>
    (dev (uart_io u) AUX_MU_LSR_REG AND 0x20 \<noteq> 0 \<and> queued u \<noteq> [] \<longrightarrow> length (queued u') < length (queued u)) \<and>
    length (queued u') \<le> length (queued u)"
  using assms(2)
proof (induction "length (queued u)" arbitrary: u rule: less_induct)
  case less
  consider "isOutputQueueEmpty u" | "\<not> isOutputQueueEmpty u" "dev (uart_io u) AUX_MU_LSR_REG AND 0x20 = 0"
    | "\<not> isOutputQueueEmpty u" "dev (uart_io u) AUX_MU_LSR_REG AND 0x20 \<noteq> 0" by blast
  then show ?case
  proof cases
    case 1
    then show ?thesis using less.prems by (simp add: loadOutputFifo_empty shifted_refl queue_empty)
  next
    case 2
    then show ?thesis using less.prems by (simp add: loadOutputFifo_not_ready shifted_def)
  next
    case 3
    let ?h = "snd (mmio_read dev AUX_MU_LSR_REG (uart_io u))" and ?b = "uart_output_queue u (uart_output_queue_read u)"
    obtain h' where h': "writeByteBlockingActual dev ?b ?h = Some h'"
        "writes_of h' = writes_of ?h @ [(AUX_MU_IO_REG, ucast ?b)]"
      using writeByteBlockingActual_sends [OF assms(1)] by blast
    define v where "v = u\<lparr>uart_io := h', uart_output_queue_read := queue_next (uart_output_queue_read u)\<rparr>"
    have veq: "v = (u\<lparr>uart_output_queue_read := queue_next (uart_output_queue_read u)\<rparr>)\<lparr>uart_io := h'\<rparr>"
      by (simp add: v_def)
    have v: "queue_valid v" "queued u = ?b # queued v"
      using queued_read [OF less.prems 3(1)] by (simp_all add: veq)
    have "sent h' = sent (uart_io u) @ [?b]" using sent_byte [OF h'(2)] by simp
    then have uv: "shifted u v" using v by (simp add: shifted_def) (simp add: v_def)
    have "length (queued v) < length (queued u)" using v(2) by simp
    from less.hyps [OF this v(1)] obtain u' where u': "loadOutputFifo dev v = Some u'" "shifted v u'"
      "length (queued u') \<le> length (queued v)" by blast
    have "loadOutputFifo dev u = Some u'"
      using 3 h'(1) u'(1) by (subst loadOutputFifo.simps) (simp add: case_prod_beta Let_def v_def)
    then show ?thesis using u' v(2) shifted_trans [OF uv u'(2)] by simp
  qed
qed

text \<open>What decreases while the code waits for the transmitter: the queue, or else the number of polls
  until the transmitter is ready.\<close>

definition polls_left :: "device \<Rightarrow> history \<Rightarrow> nat" where
  "polls_left dev h = (LEAST k. dev (polled dev k h) AUX_MU_LSR_REG AND 0x20 \<noteq> 0)"

lemma polls_left_poll:
  assumes "accepts dev" "dev h AUX_MU_LSR_REG AND 0x20 = 0"
  shows "polls_left dev h = Suc (polls_left dev (snd (mmio_read dev AUX_MU_LSR_REG h)))"
proof -
  obtain k where "dev (polled dev k h) AUX_MU_LSR_REG AND 0x20 \<noteq> 0"
    using assms(1) unfolding accepts_def by blast
  then show ?thesis unfolding polls_left_def
    by (subst Least_Suc [where n = k]) (use assms(2) in simp_all)
qed

definition waiting_order :: "device \<Rightarrow> (uart \<times> uart) set" where
  "waiting_order dev = measures [\<lambda>u. length (queued u), \<lambda>u. polls_left dev (uart_io u)]"

lemma loadOutputFifo_decreases:
  assumes "accepts dev" "queue_valid u" "\<not> isOutputQueueEmpty u"
  shows "\<exists>u'. loadOutputFifo dev u = Some u' \<and> shifted u u' \<and> (u', u) \<in> waiting_order dev"
proof (cases "dev (uart_io u) AUX_MU_LSR_REG AND 0x20 = 0")
  case True
  then show ?thesis using assms polls_left_poll [OF assms(1) True]
    by (simp add: loadOutputFifo_not_ready shifted_def waiting_order_def)
next
  case False
  then show ?thesis using loadOutputFifo_shifts [OF assms(1,2)] queue_empty [OF assms(2)] assms(3)
    by (auto simp: waiting_order_def)
qed

lemma waiting_induct [consumes 1, case_names step]:
  assumes "queue_valid u" "\<And>u. queue_valid u \<Longrightarrow> (\<And>v. (v, u) \<in> waiting_order dev \<Longrightarrow> queue_valid v \<Longrightarrow> P v) \<Longrightarrow> P u"
  shows "P u"
proof -
  have "wf (waiting_order dev)" by (simp add: waiting_order_def)
  then show ?thesis using assms(1)
    by (induction u rule: wf_induct_rule) (use assms(2) in blast)
qed

lemma drainOutputQueue_drains:
  assumes "accepts dev" "queue_valid u"
  shows "\<exists>u'. drainOutputQueue dev u = Some u' \<and> shifted u u' \<and> queued u' = []"
  using assms(2)
proof (induction u rule: waiting_induct [where dev = dev])
  case (step u)
  show ?case
  proof (cases "isOutputQueueEmpty u")
    case True
    then show ?thesis using step(1) by (subst drainOutputQueue.simps) (simp add: queue_empty shifted_refl)
  next
    case False
    obtain v where v: "loadOutputFifo dev u = Some v" "shifted u v" "(v, u) \<in> waiting_order dev"
      using loadOutputFifo_decreases [OF assms(1) step(1) False] by blast
    moreover have "queue_valid v" using v(2) by (simp add: shifted_def)
    ultimately obtain u' where u': "drainOutputQueue dev v = Some u'" "shifted v u'" "queued u' = []"
      using step(2) by blast
    have "drainOutputQueue dev u = Some u'"
      using False v(1) u'(1) by (subst drainOutputQueue.simps) simp
    then show ?thesis using u' shifted_trans [OF v(2)] by blast
  qed
qed

lemma wait_for_slot_returns:
  assumes "accepts dev" "queue_valid u" "queue_next (uart_output_queue_write u) = next"
  shows "\<exists>u'. wait_for_slot dev next u = Some u' \<and> shifted u u' \<and> next \<noteq> uart_output_queue_read u'"
  using assms(2,3)
proof (induction u rule: waiting_induct [where dev = dev])
  case (step u)
  show ?case
  proof (cases "next = uart_output_queue_read u")
    case False
    then show ?thesis using step(1) by (subst wait_for_slot.simps) (simp add: shifted_refl)
  next
    case True
    have "\<not> isOutputQueueEmpty u" using True step(1,3)
      by (auto simp: isOutputQueueEmpty_def queue_valid_def queue_next_cases UART_MAX_QUEUE_def split: if_splits)
    then obtain v where v: "loadOutputFifo dev u = Some v" "shifted u v" "(v, u) \<in> waiting_order dev"
      using loadOutputFifo_decreases [OF assms(1) step(1)] by blast
    moreover have "queue_valid v" "queue_next (uart_output_queue_write v) = next"
      using v(2) step(3) by (simp_all add: shifted_def)
    ultimately obtain u' where u': "wait_for_slot dev next v = Some u'" "shifted v u'" "next \<noteq> uart_output_queue_read u'"
      using step(2) by blast
    have "wait_for_slot dev next u = Some u'"
      using True v(1) u'(1) by (subst wait_for_slot.simps) simp
    then show ?thesis using u' shifted_trans [OF v(2)] by blast
  qed
qed

text \<open>C35: the output queue is a first-in first-out buffer in front of the line: with a transmitter that
  gets ready after finitely many polls, queueing a byte returns, even on a full queue, and adds it
  behind everything that was sent or queued before; loading the FIFO only moves bytes from the
  queue to the line; draining returns with an empty queue and everything sent.\<close>

theorem uart_queue_fifo:
  assumes "accepts dev" "queue_valid u"
  shows "(\<exists>u'. writeByteBlocking dev ch u = Some u' \<and> queue_valid u' \<and>
      sent (uart_io u') @ queued u' = sent (uart_io u) @ queued u @ [ch]) \<and>
    (\<exists>u'. loadOutputFifo dev u = Some u' \<and> queue_valid u' \<and>
      sent (uart_io u') @ queued u' = sent (uart_io u) @ queued u) \<and>
    (\<exists>u'. drainOutputQueue dev u = Some u' \<and> queue_valid u' \<and> queued u' = [] \<and>
      sent (uart_io u') = sent (uart_io u) @ queued u)"
proof (intro conjI)
  let ?next = "queue_next (uart_output_queue_write u)"
  obtain v where v: "wait_for_slot dev ?next u = Some v" "shifted u v" "?next \<noteq> uart_output_queue_read v"
    using wait_for_slot_returns [OF assms refl] by blast
  then have w: "uart_output_queue_write v = uart_output_queue_write u" "queue_valid v"
    by (simp_all add: shifted_def)
  show "\<exists>u'. writeByteBlocking dev ch u = Some u' \<and> queue_valid u' \<and>
      sent (uart_io u') @ queued u' = sent (uart_io u) @ queued u @ [ch]"
    using queued_write [OF w(2), of ch] v w by (simp add: writeByteBlocking_def Let_def shifted_def)
  show "\<exists>u'. loadOutputFifo dev u = Some u' \<and> queue_valid u' \<and>
      sent (uart_io u') @ queued u' = sent (uart_io u) @ queued u"
    using loadOutputFifo_shifts [OF assms] by (auto simp: shifted_def)
  show "\<exists>u'. drainOutputQueue dev u = Some u' \<and> queue_valid u' \<and> queued u' = [] \<and>
      sent (uart_io u') = sent (uart_io u) @ queued u"
    using drainOutputQueue_drains [OF assms] by (auto simp: shifted_def)
qed

lemma always_ready: "accepts (\<lambda>h r. 0x20)"
  unfolding accepts_def by (intro allI exI [of _ 0]) simp

theorem uart_queue_fifo_witness:
  "\<exists>u'. writeByteBlocking (\<lambda>h r. 0x20) 65 (uart_new (\<lambda>_. 0) []) = Some u' \<and> sent (uart_io u') @ queued u' = [65]"
proof -
  have "queue_valid (uart_new (\<lambda>_. 0) [])" "queued (uart_new (\<lambda>_. 0) []) = []"
    by (simp_all add: queue_valid_def queued_def queue_count_def uart_new_def UART_MAX_QUEUE_def)
  with uart_queue_fifo [OF always_ready this(1), of 65] show ?thesis
    by (auto simp: uart_new_def sent_def)
qed

end
