(* ===== verification/Std.thy ===== *)
theory Std
  imports Prelude "HOL-Library.Signed_Division" "HOL-Library.Monad_Syntax"
begin

text \<open>
  \<open>class Std\<close> (\<open>src/include/Stdlib.h\<close>, \<open>src/stdlib/Stdlib.cpp\<close>): the hash that drives the
  scheduler's choice, the two number printers and the C string functions.
\<close>

subsection \<open>Hash\<close>

definition hash_round :: "64 word \<Rightarrow> 32 word \<Rightarrow> nat \<Rightarrow> 32 word" where
  "hash_round inp h len =
     (let h = h + ucast (inp AND push_bit (len * 2) 0xFF);
          h = h + push_bit 10 h
      in h XOR drop_bit 6 h)"

definition hash :: "64 word \<Rightarrow> 32 word" where
  "hash inp =
     (let h = foldl (hash_round inp) 0 [1..<9];
          h = h + push_bit 3 h;
          h = h XOR drop_bit 11 h
      in h + push_bit 15 h)"

lemma hash_round_cong:
  assumes "\<And>i. 2 \<le> i \<Longrightarrow> i < 24 \<Longrightarrow> bit x i = bit y i" "1 \<le> len" "len \<le> 8"
  shows "hash_round x h len = hash_round y h len"
proof -
  have ff: "bit (0xFF :: 64 word) j \<longleftrightarrow> j < 8" for j
  proof -
    have "(0xFF :: 64 word) = mask 8" by (simp add: mask_eq_exp_minus_1)
    then show ?thesis by (simp only: bit_mask_iff) auto
  qed
  have "x AND push_bit (len * 2) 0xFF = y AND push_bit (len * 2) 0xFF"
  proof (rule bit_word_eqI)
    fix n
    show "bit (x AND push_bit (len * 2) 0xFF) n = bit (y AND push_bit (len * 2) 0xFF) n"
    proof (cases "2 \<le> n \<and> n < 24")
      case True
      then show ?thesis using assms(1) by (simp add: bit_and_iff)
    next
      case False
      then have "\<not> (len * 2 \<le> n \<and> bit (0xFF :: 64 word) (n - len * 2))"
        using assms(2,3) ff [of "n - len * 2"] by linarith
      then show ?thesis by (auto simp: bit_and_iff bit_push_bit_iff)
    qed
  qed
  then show ?thesis by (simp add: hash_round_def)
qed

text \<open>The hash of a number is a function of its bits 2 to 23: it does not change while a counter
  runs through four consecutive values from a multiple of four on, and it repeats after
  \<open>2 ^ 24\<close> values.\<close>

theorem hash_depends_on:
  assumes "\<And>i. 2 \<le> i \<Longrightarrow> i < 24 \<Longrightarrow> bit x i = bit y i"
  shows "hash x = hash y"
proof -
  have "foldl (hash_round x) h ls = foldl (hash_round y) h ls" if "set ls \<subseteq> {1..8}" for h ls
    using that by (induction ls arbitrary: h) (auto simp: hash_round_cong [OF assms])
  from this [of "[1..<9]" 0] have "foldl (hash_round x) 0 [1..<9] = foldl (hash_round y) 0 [1..<9]"
    by force
  then show ?thesis by (simp only: hash_def)
qed

theorem hash_depends_on_witness: "hash 40 = hash 43"
  by (rule hash_depends_on) (auto simp: bit_numeral_rec split: nat.splits)

subsection \<open>Printing numbers\<close>

text \<open>A digit below ten is \<open>digit + '0'\<close>, any other \<open>digit + 'a' - 10\<close>.\<close>

definition digit_char :: "nat \<Rightarrow> char" where
  "digit_char digit = char_of (if digit < 10 then digit + 48 else digit + 97 - 10)"

definition divisor_of :: "char \<Rightarrow> nat" where
  "divisor_of base = (if base = CHR ''x'' then 16 else 10)"

text \<open>The loop stores the digits with the least significant one first.\<close>

function itoa1_digits :: "char \<Rightarrow> nat \<Rightarrow> string" where
  "itoa1_digits base ud =
     digit_char (ud mod divisor_of base) #
     (let ud = ud div divisor_of base in if ud \<noteq> 0 then itoa1_digits base ud else [])"
  by pat_completeness auto
termination by (relation "measure snd") (auto simp: divisor_of_def)

declare itoa1_digits.simps [simp del]

text \<open>The reversal in place, \<open>p1\<close> and \<open>p2\<close> being offsets.\<close>

function reverse_loop :: "string \<Rightarrow> int \<Rightarrow> int \<Rightarrow> string" where
  "reverse_loop buf p1 p2 =
     (if p1 < p2 then
        let tmp = buf ! nat p1;
            buf = buf[nat p1 := buf ! nat p2];
            buf = buf[nat p2 := tmp]
        in reverse_loop buf (p1 + 1) (p2 - 1)
      else buf)"
  by pat_completeness auto
termination by (relation "measure (\<lambda>(_, p1, p2). nat (p2 - p1))") auto

declare reverse_loop.simps [simp del]

text \<open>\<open>d\<close> is a \<open>long\<close>; \<open>unsigned long ud = d\<close>.\<close>

definition itoa1 :: "char \<Rightarrow> int \<Rightarrow> string" where
  "itoa1 base d =
     (let minus = (base = CHR ''d'' \<and> d < 0);
          ud = nat ((if minus then - d else d) mod 2 ^ 64);
          digits = itoa1_digits base ud
      in (if minus then ''-'' else '''') @ reverse_loop digits 0 (int (length digits) - 1))"

text \<open>\<open>itoa\<close> ignores \<open>base\<close> and fills its buffer from the end; \<open>%\<close> and \<open>/\<close> truncate.\<close>

function itoa_loop :: "bool \<Rightarrow> int \<Rightarrow> string \<Rightarrow> string" where
  "itoa_loop neg d p =
     (let p = char_of (nat (if neg then 48 - (d smod 10) else 48 + (d smod 10))) # p;
          d = d sdiv 10
      in if d \<noteq> 0 then itoa_loop neg d p else p)"
  by pat_completeness auto
termination
proof (relation "measure (\<lambda>(_, d, _). nat \<bar>d\<bar>)", simp)
  fix neg :: bool and d x :: int and p xa
  assume x: "x = d sdiv 10" "x \<noteq> 0"
  have "\<bar>d sdiv 10\<bar> = \<bar>d\<bar> div 10" by (simp add: signed_divide_int_def abs_mult sgn_if)
  then have "\<bar>x\<bar> < \<bar>d\<bar>" using x by (cases "d = 0") simp_all
  then show "((neg, x, xa), neg, d, p) \<in> measure (\<lambda>(_, d, _). nat \<bar>d\<bar>)" by simp
qed

declare itoa_loop.simps [simp del]

definition itoa :: "int \<Rightarrow> int \<Rightarrow> string" where
  "itoa base d = (if d \<ge> 0 then itoa_loop False d '''' else ''-'' @ itoa_loop True d '''')"

subsection \<open>Reading a printed number back\<close>

definition char_digit :: "char \<Rightarrow> nat" where
  "char_digit c = (let n = of_char c in if n < 58 then n - 48 else n - 87)"

primrec digits_value :: "nat \<Rightarrow> string \<Rightarrow> nat" where
  "digits_value b [] = 0"
| "digits_value b (c # s) = char_digit c + b * digits_value b s"

definition number_of :: "char \<Rightarrow> string \<Rightarrow> int" where
  "number_of base s =
     (case s of CHR ''-'' # t \<Rightarrow> - int (digits_value (divisor_of base) (rev t))
      | _ \<Rightarrow> int (digits_value (divisor_of base) (rev s)))"

lemma char_digit_inverse: "n < 16 \<Longrightarrow> char_digit (digit_char n) = n"
  by (auto simp: char_digit_def digit_char_def)

lemma digit_char_not_minus: "n < 16 \<Longrightarrow> digit_char n \<noteq> CHR ''-''"
proof
  assume "n < 16" "digit_char n = CHR ''-''"
  then have "of_char (digit_char n) = (45 :: nat)" by simp
  then show False using \<open>n < 16\<close> by (auto simp: digit_char_def split: if_splits)
qed

lemma divisor_bounds: "1 < divisor_of base" "divisor_of base \<le> 16"
  by (simp_all add: divisor_of_def)

lemma itoa1_digits_value: "digits_value (divisor_of base) (itoa1_digits base ud) = ud"
proof (induction base ud rule: itoa1_digits.induct)
  case (1 base ud)
  have "ud mod divisor_of base < 16" using divisor_bounds [of base]
    by (metis less_le_trans less_trans mod_less_divisor zero_less_one)
  moreover have "ud div divisor_of base = 0 \<Longrightarrow> ud mod divisor_of base = ud"
    using mod_mult_div_eq [of ud "divisor_of base"] by simp
  ultimately show ?case
    using 1 by (subst itoa1_digits.simps) (auto simp: Let_def char_digit_inverse)
qed

lemma itoa1_digits_chars: "c \<in> set (itoa1_digits base ud) \<Longrightarrow> \<exists>n < 16. c = digit_char n"
proof (induction base ud rule: itoa1_digits.induct)
  case (1 base ud)
  have "ud mod divisor_of base < 16" using divisor_bounds [of base]
    by (metis less_le_trans less_trans mod_less_divisor zero_less_one)
  moreover have "itoa1_digits base ud = digit_char (ud mod divisor_of base) #
    (if ud div divisor_of base \<noteq> 0 then itoa1_digits base (ud div divisor_of base) else [])"
    by (subst itoa1_digits.simps) (simp add: Let_def)
  ultimately show ?case using 1 by (auto split: if_splits)
qed

lemma itoa1_digits_not_empty [simp]: "itoa1_digits base ud \<noteq> []"
  by (subst itoa1_digits.simps) simp

lemma itoa1_digits_length:
  "ud < divisor_of base ^ k \<Longrightarrow> 0 < k \<Longrightarrow> length (itoa1_digits base ud) \<le> k"
proof (induction base ud arbitrary: k rule: itoa1_digits.induct)
  case (1 base ud)
  show ?case
  proof (cases "ud div divisor_of base = 0")
    case True
    then show ?thesis using 1(3) by (subst itoa1_digits.simps) simp
  next
    case False
    obtain j where j: "k = Suc j" using 1(3) by (cases k) auto
    have lt: "ud div divisor_of base < divisor_of base ^ j"
      using 1(2) j by (simp add: less_mult_imp_div_less mult.commute)
    then have "0 < j" using False by (cases j) auto
    then have "length (itoa1_digits base (ud div divisor_of base)) \<le> j" using 1(1) False lt by blast
    then show ?thesis using False j by (subst itoa1_digits.simps) simp
  qed
qed

lemma reverse_loop_rev:
  "length mid = nat (p2 - p1 + 1) \<Longrightarrow> int (length pre) = p1 \<Longrightarrow> p1 \<le> p2 + 1 \<Longrightarrow>
   reverse_loop (pre @ mid @ post) p1 p2 = pre @ rev mid @ post"
proof (induction "nat (p2 - p1)" arbitrary: p1 p2 pre mid post rule: less_induct)
  case less
  show ?case
  proof (cases "p1 < p2")
    case False
    then have "length mid \<le> 1" using less.prems by simp
    then have "rev mid = mid" by (cases mid) auto
    then show ?thesis using False by (subst reverse_loop.simps) simp
  next
    case True
    obtain a m where m: "mid = a # m" using less.prems True by (cases mid) auto
    then have "m \<noteq> []" using less.prems True by auto
    then obtain m' b where b: "m = m' @ [b]" by (meson rev_exhaust)
    have n: "nat p1 = length pre" "nat p2 = length pre + Suc (length m')"
      using less.prems m b by auto
    have "reverse_loop (pre @ mid @ post) p1 p2 =
      reverse_loop ((pre @ [b]) @ m' @ (a # post)) (p1 + 1) (p2 - 1)"
      using True by (subst reverse_loop.simps) (simp add: m b n Let_def nth_append list_update_append)
    also have "\<dots> = (pre @ [b]) @ rev m' @ (a # post)"
      by (rule less.hyps) (use True less.prems m b in auto)
    finally show ?thesis using m b by simp
  qed
qed

lemma reverse_loop_all: "reverse_loop xs 0 (int (length xs) - 1) = rev xs"
  using reverse_loop_rev [of xs "int (length xs) - 1" 0 "[]" "[]"] by simp

lemma itoa1_text:
  "itoa1 base d = (if base = CHR ''d'' \<and> d < 0 then ''-'' @ rev (itoa1_digits base (nat (- d mod 2 ^ 64)))
     else rev (itoa1_digits base (nat (d mod 2 ^ 64))))"
  by (simp add: itoa1_def Let_def reverse_loop_all)

lemma number_of_digits: "number_of base (rev (itoa1_digits base n)) = int n"
proof (cases "rev (itoa1_digits base n)")
  case Nil
  then show ?thesis by simp
next
  case (Cons c t)
  have "c \<in> set (itoa1_digits base n)" using Cons by (metis list.set_intros(1) set_rev)
  then obtain m where "m < 16" "c = digit_char m" using itoa1_digits_chars by blast
  then have "c \<noteq> CHR ''-''" using digit_char_not_minus by simp
  then have "number_of base (c # t) = int (digits_value (divisor_of base) (rev (c # t)))"
    unfolding number_of_def by (simp split: char.split bool.split)
  then show ?thesis using Cons itoa1_digits_value [of base n] by (metis rev_rev_ident)
qed

text \<open>What \<open>itoa1\<close> prints reads back as the number that was printed: as a signed number for
  \<open>%d\<close>, as an unsigned 64-bit number for \<open>%u\<close> and \<open>%x\<close>; with its terminator it fits the 40
  characters of the caller's buffer.\<close>

theorem itoa1_round_trip:
  assumes "- (2 ^ 63) \<le> d" "d < 2 ^ 63"
  shows "number_of base (itoa1 base d) = (if base = CHR ''d'' then d else d mod 2 ^ 64) \<and>
    length (itoa1 base d) \<le> 21"
proof -
  have len: "length (itoa1_digits base (nat (x mod 2 ^ 64))) \<le> 20" for x
  proof (rule itoa1_digits_length)
    have "nat (x mod 2 ^ 64) < 2 ^ 64" by (simp add: nat_less_iff)
    also have "\<dots> \<le> divisor_of base ^ 20" by (simp add: divisor_of_def)
    finally show "nat (x mod 2 ^ 64) < divisor_of base ^ 20" .
  qed simp
  show ?thesis
  proof (cases "base = CHR ''d'' \<and> d < 0")
    case True
    have "(- d) mod 2 ^ 64 = - d" using assms True by (intro mod_pos_pos_trivial) auto
    then have "itoa1 base d = CHR ''-'' # rev (itoa1_digits base (nat (- d)))"
      using True by (simp add: itoa1_text)
    then show ?thesis using True len [of "- d"] \<open>(- d) mod 2 ^ 64 = - d\<close>
      by (simp add: number_of_def itoa1_digits_value)
  next
    case False
    have "base = CHR ''d'' \<Longrightarrow> d mod 2 ^ 64 = d" using assms False by (intro mod_pos_pos_trivial) auto
    then show ?thesis using False len [of d] by (auto simp: itoa1_text number_of_digits)
  qed
qed

theorem itoa1_round_trip_witness:
  "number_of CHR ''d'' (itoa1 CHR ''d'' (- 42)) = - 42 \<and> number_of CHR ''x'' (itoa1 CHR ''x'' (- 1)) = 2 ^ 64 - 1"
  using itoa1_round_trip [of "- 42" "CHR ''d''"] itoa1_round_trip [of "- 1" "CHR ''x''"] by simp

text \<open>The older printer agrees with the newer one on every \<open>long\<close> but the smallest.\<close>

lemma char_of_digit: "n < 10 \<Longrightarrow> char_of (nat (48 + int n)) = digit_char n"
  by (simp add: digit_char_def nat_add_distrib add.commute)

lemma smod_sdiv_10:
  "int m smod 10 = int (m mod 10)" "int m sdiv 10 = int (m div 10)"
  "(- int m) smod 10 = - int (m mod 10)" "(- int m) sdiv 10 = - int (m div 10)"
  by (simp_all add: signed_modulo_int_def signed_divide_int_def zmod_int zdiv_int sgn_if
      minus_mult_div_eq_mod)

lemma itoa_loop_digits:
  "itoa_loop neg (if neg then - int m else int m) p = rev (itoa1_digits CHR ''d'' m) @ p"
proof (induction m arbitrary: p rule: less_induct)
  case (less m)
  have c: "char_of (nat (48 + int (m mod 10))) = digit_char (m mod 10)" by (rule char_of_digit) simp
  have step: "itoa_loop neg (if neg then - int m else int m) p =
    (if m div 10 = 0 then digit_char (m mod 10) # p
     else itoa_loop neg (if neg then - int (m div 10) else int (m div 10)) (digit_char (m mod 10) # p))"
    by (subst itoa_loop.simps) (simp add: Let_def smod_sdiv_10 c char_of_digit)
  have digits: "itoa1_digits CHR ''d'' m = digit_char (m mod 10) #
    (if m div 10 = 0 then [] else itoa1_digits CHR ''d'' (m div 10))"
    by (subst itoa1_digits.simps) (simp add: Let_def divisor_of_def)
  show ?case
  proof (cases "m div 10 = 0")
    case True
    then show ?thesis by (simp only: step digits) simp
  next
    case False
    then show ?thesis using less [of "m div 10" "digit_char (m mod 10) # p"]
      by (simp only: step digits) simp
  qed
qed

lemma itoa_agrees:
  assumes "- (2 ^ 63) < d" "d < 2 ^ 63"
  shows "itoa base d = itoa1 CHR ''d'' d"
proof (cases "d \<ge> 0")
  case True
  then have "d mod 2 ^ 64 = d" using assms by (intro mod_pos_pos_trivial) auto
  then show ?thesis using True itoa_loop_digits [of False "nat d" "[]"] by (simp add: itoa_def itoa1_text)
next
  case False
  then have "(- d) mod 2 ^ 64 = - d" using assms by (intro mod_pos_pos_trivial) auto
  then show ?thesis using False itoa_loop_digits [of True "nat (- d)" "[]"] by (simp add: itoa_def itoa1_text)
qed

subsection \<open>C strings\<close>

text \<open>Memory maps addresses to characters. A search for a terminator that is not there does not
  end.\<close>

type_synonym char_memory = "nat \<Rightarrow> char"

abbreviation NUL :: char where "NUL \<equiv> CHR 0x00"

partial_function (option) strlen_loop :: "char_memory \<Rightarrow> nat \<Rightarrow> nat \<Rightarrow> nat option" where
  "strlen_loop mem s len = (if mem s \<noteq> NUL then strlen_loop mem (s + 1) (len + 1) else Some len)"

declare strlen_loop.simps [code]

definition strlen :: "char_memory \<Rightarrow> nat \<Rightarrow> nat option" where
  "strlen mem s = strlen_loop mem s 0"

partial_function (option) strcat_loop :: "char_memory \<Rightarrow> nat \<Rightarrow> nat \<Rightarrow> nat \<Rightarrow> nat \<Rightarrow> char_memory option" where
  "strcat_loop mem dest src i j =
     (if mem (src + j) \<noteq> NUL then strcat_loop (mem(dest + (i + j) := mem (src + j))) dest src i (j + 1)
      else Some (mem(dest + (i + j) := NUL)))"

declare strcat_loop.simps [code]

definition strcat :: "char_memory \<Rightarrow> nat \<Rightarrow> nat \<Rightarrow> char_memory option" where
  "strcat mem dest src = do {
     i \<leftarrow> strlen_loop mem dest 0;
     strcat_loop mem dest src i 0
   }"

partial_function (option) strcpy :: "char_memory \<Rightarrow> nat \<Rightarrow> nat \<Rightarrow> char_memory option" where
  "strcpy mem strDest strSrc =
     (let c = mem strSrc; mem = mem(strDest := c)
      in if c \<noteq> NUL then strcpy mem (strDest + 1) (strSrc + 1) else Some mem)"

declare strcpy.simps [code]

text \<open>\<open>holds mem p xs\<close>: the terminated string \<open>xs\<close> lies at \<open>p\<close>.\<close>

primrec holds :: "char_memory \<Rightarrow> nat \<Rightarrow> string \<Rightarrow> bool" where
  "holds mem p [] \<longleftrightarrow> mem p = NUL"
| "holds mem p (x # xs) \<longleftrightarrow> mem p = x \<and> x \<noteq> NUL \<and> holds mem (Suc p) xs"

lemma holds_cong:
  "holds mem p xs \<Longrightarrow> \<forall>a. p \<le> a \<and> a \<le> p + length xs \<longrightarrow> mem' a = mem a \<Longrightarrow> holds mem' p xs"
  by (induction xs arbitrary: p) auto

lemma strlen_loop_holds: "holds mem p xs \<Longrightarrow> strlen_loop mem p n = Some (n + length xs)"
proof (induction xs arbitrary: p n)
  case Nil
  then show ?case by (subst strlen_loop.simps) simp
next
  case (Cons x xs)
  then show ?case by (subst strlen_loop.simps) simp
qed

lemma strcpy_holds:
  "holds mem s xs \<Longrightarrow> d \<le> s \<or> s + length xs < d \<Longrightarrow>
   \<exists>mem'. strcpy mem d s = Some mem' \<and> holds mem' d xs \<and>
     (\<forall>a. a < d \<or> d + length xs < a \<longrightarrow> mem' a = mem a)"
proof (induction xs arbitrary: mem s d)
  case Nil
  then show ?case by (subst strcpy.simps) simp
next
  case (Cons x xs)
  let ?m = "mem(d := x)"
  have "holds ?m (Suc s) xs" by (rule holds_cong [of mem]) (use Cons.prems in auto)
  moreover have "Suc d \<le> Suc s \<or> Suc s + length xs < Suc d" using Cons.prems(2) by auto
  ultimately obtain mem' where m: "strcpy ?m (Suc d) (Suc s) = Some mem'" "holds mem' (Suc d) xs"
      "\<And>a. a < Suc d \<or> Suc d + length xs < a \<Longrightarrow> mem' a = ?m a"
    using Cons.IH by blast
  have "strcpy mem d s = Some mem'" using m(1) Cons.prems(1) by (subst strcpy.simps) simp
  then show ?case using m Cons.prems(1) by auto
qed

lemma strcat_loop_holds:
  "holds mem (s + j) xs \<Longrightarrow> d + i + j + length xs < s + j \<or> s + j + length xs < d + i + j \<Longrightarrow>
   \<exists>mem'. strcat_loop mem d s i j = Some mem' \<and> holds mem' (d + i + j) xs \<and>
     (\<forall>a. a < d + i + j \<or> d + i + j + length xs < a \<longrightarrow> mem' a = mem a)"
proof (induction xs arbitrary: mem j)
  case Nil
  then show ?case by (subst strcat_loop.simps) (simp add: add.assoc)
next
  case (Cons x xs)
  let ?m = "mem(d + (i + j) := x)"
  have "holds ?m (s + Suc j) xs" by (rule holds_cong [of mem]) (use Cons.prems in auto)
  moreover have "d + i + Suc j + length xs < s + Suc j \<or> s + Suc j + length xs < d + i + Suc j"
    using Cons.prems(2) by auto
  ultimately obtain mem' where m: "strcat_loop ?m d s i (Suc j) = Some mem'" "holds mem' (d + i + Suc j) xs"
      "\<And>a. a < d + i + Suc j \<or> d + i + Suc j + length xs < a \<Longrightarrow> mem' a = ?m a"
    using Cons.IH by blast
  have "strcat_loop mem d s i j = Some mem'" using m(1) Cons.prems(1) by (subst strcat_loop.simps) simp
  then show ?case using m Cons.prems(1) by (auto simp: add.assoc)
qed

lemma holds_append:
  "holds mem p (xs @ ys) \<longleftrightarrow> (\<forall>i < length xs. mem (p + i) = xs ! i \<and> xs ! i \<noteq> NUL) \<and> holds mem (p + length xs) ys"
proof (induction xs arbitrary: p)
  case (Cons x xs)
  have "(\<forall>i < Suc (length xs). mem (p + i) = (x # xs) ! i \<and> (x # xs) ! i \<noteq> NUL) \<longleftrightarrow>
    (mem p = x \<and> x \<noteq> NUL) \<and> (\<forall>i < length xs. mem (Suc p + i) = xs ! i \<and> xs ! i \<noteq> NUL)"
    by (simp add: All_less_Suc2)
  then show ?case using Cons by auto
qed simp

text \<open>\<open>strlen\<close>, \<open>strcpy\<close> and \<open>strcat\<close> on terminated strings return, leave the string they should
  at the destination, and write nothing else. \<open>strcpy\<close> may copy a string onto a lower address it
  overlaps with; \<open>strcat\<close> needs a source apart from the bytes it writes.\<close>

theorem c_strings_correct:
  assumes s: "holds mem src xs" and d: "holds mem dest ds"
    and copy: "dest \<le> src \<or> src + length xs < dest"
    and apart: "dest + length ds + length xs < src \<or> src + length xs < dest"
  shows "strlen mem src = Some (length xs) \<and>
    (\<exists>mem'. strcpy mem dest src = Some mem' \<and> holds mem' dest xs \<and>
       (\<forall>a. a < dest \<or> dest + length xs < a \<longrightarrow> mem' a = mem a)) \<and>
    (\<exists>mem'. strcat mem dest src = Some mem' \<and> holds mem' dest (ds @ xs) \<and>
       (\<forall>a. a < dest + length ds \<or> dest + length ds + length xs < a \<longrightarrow> mem' a = mem a))"
proof (intro conjI)
  show "strlen mem src = Some (length xs)" using strlen_loop_holds [OF s, of 0] by (simp add: strlen_def)
  show "\<exists>mem'. strcpy mem dest src = Some mem' \<and> holds mem' dest xs \<and>
      (\<forall>a. a < dest \<or> dest + length xs < a \<longrightarrow> mem' a = mem a)"
    by (rule strcpy_holds [OF s copy])
  obtain mem' where m: "strcat_loop mem dest src (length ds) 0 = Some mem'" "holds mem' (dest + length ds) xs"
      "\<forall>a. a < dest + length ds \<or> dest + length ds + length xs < a \<longrightarrow> mem' a = mem a"
    using strcat_loop_holds [of mem src 0 xs dest "length ds"] s apart by auto
  have "holds mem dest (ds @ [])" using d by simp
  then have "holds mem' dest (ds @ xs)" using m by (simp only: holds_append) simp
  then show "\<exists>mem'. strcat mem dest src = Some mem' \<and> holds mem' dest (ds @ xs) \<and>
      (\<forall>a. a < dest + length ds \<or> dest + length ds + length xs < a \<longrightarrow> mem' a = mem a)"
    using m strlen_loop_holds [OF d, of 0] by (simp add: strcat_def)
qed

theorem c_strings_correct_witness:
  "\<exists>mem'. strcat ((\<lambda>_. NUL)(0 := CHR ''a'', 20 := CHR ''b'')) 0 20 = Some mem' \<and> holds mem' 0 ''ab''"
proof -
  let ?mem = "(\<lambda>_. NUL)(0 := CHR ''a'', 20 := CHR ''b'')"
  have "holds ?mem 20 ''b''" "holds ?mem 0 ''a''" by simp_all
  from c_strings_correct [OF this] show ?thesis by (simp del: fun_upd_apply holds.simps) blast
qed

end
