(* ===== verification/Spinlocks.thy ===== *)
theory Spinlocks
  imports Prelude
begin

text \<open>
  \<open>class Spinlock\<close> (\<open>src/include/Spinlock.h\<close>, \<open>src/Spinlock.cpp\<close>, the lock primitives of
  \<open>src/asm/functions.S\<close>) as seen by one caller: the lock word and the process that owns it.
  A caller that finds the lock taken waits for somebody else, which is \<open>None\<close> here.
\<close>

definition SPLCK_UNLOCKED :: nat where
  "SPLCK_UNLOCKED = 0"

definition SPLCK_LOCKED :: nat where
  "SPLCK_LOCKED = 1"

record spinlock =
  lock_val :: nat
  ownerPid :: nat

definition spinlock_init :: "spinlock \<Rightarrow> spinlock" where
  "spinlock_init l = l\<lparr>lock_val := SPLCK_UNLOCKED\<rparr>"

definition spinlock_spin :: "nat \<Rightarrow> spinlock \<Rightarrow> spinlock option" where
  "spinlock_spin pid l =
     (if lock_val l \<noteq> 0 then None else Some (l\<lparr>lock_val := SPLCK_LOCKED, ownerPid := pid\<rparr>))"

definition spinlock_release :: "spinlock \<Rightarrow> spinlock" where
  "spinlock_release l = l\<lparr>ownerPid := 0, lock_val := SPLCK_UNLOCKED\<rparr>"

text \<open>The exclusive store of \<open>_test_set_lock\<close> may fail; \<open>exclusive\<close> says whether it succeeds.\<close>

definition spinlock_testAndSet :: "bool \<Rightarrow> spinlock \<Rightarrow> nat \<times> spinlock" where
  "spinlock_testAndSet exclusive l =
     (if lock_val l \<noteq> 0 \<or> \<not> exclusive then (0, l) else (1, l\<lparr>lock_val := SPLCK_LOCKED\<rparr>))"

lemma spin_release:
  "lock_val l = 0 \<Longrightarrow> \<exists>l'. spinlock_spin pid l = Some l' \<and> lock_val (spinlock_release l') = 0"
  by (simp add: spinlock_spin_def spinlock_release_def SPLCK_UNLOCKED_def)

end
