(* ===== verification/Console.thy ===== *)
theory Console
  imports Uart Std Spinlocks
begin

text \<open>
  \<open>class Console\<close> (\<open>src/Console.cpp\<close>, \<open>src/include/Console.h\<close>): the format interpreter of
  \<open>print\<close> and \<open>print_no_lock\<close>, and printing on the UART.

  A variable argument is an integer (\<open>va_arg\<close> takes a \<open>long\<close> or an \<open>int\<close>) or a string that may be
  \<open>NULL\<close>. Taking an argument that is not there or of the other kind, and reading behind the end of
  the format, are undefined in C and \<open>None\<close> here.
\<close>

datatype arg = Num int | Str "string option"

subsection \<open>One conversion\<close>

text \<open>The part of the format behind a \<open>%\<close>: a zero flag, one digit of width, the conversion.\<close>

fun parse_flag :: "string \<Rightarrow> (bool \<times> string) option" where
  "parse_flag [] = None"
| "parse_flag (c # f) = (if c = CHR ''0'' then Some (True, f) else Some (False, c # f))"

fun parse_width :: "string \<Rightarrow> (nat \<times> string) option" where
  "parse_width [] = None"
| "parse_width (c # f) =
     (if of_char c \<ge> (48 :: nat) \<and> of_char c \<le> (57 :: nat) then Some (of_char c - 48, f) else Some (0, c # f))"

definition parse_conversion :: "string \<Rightarrow> (bool \<times> nat \<times> char \<times> string) option" where
  "parse_conversion f = do {
     (pad0, f) \<leftarrow> parse_flag f;
     (pad, f) \<leftarrow> parse_width f;
     (case f of [] \<Rightarrow> None | c # f \<Rightarrow> Some (pad0, pad, c, f))
   }"

lemma parse_flag_length: "parse_flag f = Some (p, f') \<Longrightarrow> length f' \<le> length f"
  by (cases f) (auto split: if_splits)

lemma parse_width_length: "parse_width f = Some (w, f') \<Longrightarrow> length f' \<le> length f"
  by (cases f) (auto split: if_splits)

lemma parse_conversion_shorter:
  assumes "parse_conversion f = Some (pad0, pad, c, f')"
  shows "length f' < length f"
proof -
  obtain g where g: "parse_flag f = Some (pad0, g)" "parse_width g = Some (pad, c # f')"
    using assms by (auto simp: parse_conversion_def split: list.splits Option.bind_splits)
  then show ?thesis using parse_flag_length [OF g(1)] parse_width_length [OF g(2)] by simp
qed

definition padded :: "bool \<Rightarrow> nat \<Rightarrow> string \<Rightarrow> string" where
  "padded pad0 pad p = replicate (pad - length p) (if pad0 then CHR ''0'' else CHR '' '') @ p"

definition convert :: "bool \<Rightarrow> nat \<Rightarrow> char \<Rightarrow> arg list \<Rightarrow> (string \<times> arg list) option" where
  "convert pad0 pad c args =
     (if c = CHR ''d'' \<or> c = CHR ''u'' \<or> c = CHR ''x'' then
        (case args of Num n # args \<Rightarrow> Some (padded pad0 pad (itoa1 c n), args) | _ \<Rightarrow> None)
      else if c = CHR ''s'' then
        (case args of Str p # args \<Rightarrow>
           Some (padded pad0 pad (case p of None \<Rightarrow> ''(null)'' | Some p \<Rightarrow> p), args) | _ \<Rightarrow> None)
      else (case args of Num n # args \<Rightarrow> Some ([char_of (nat (n mod 256))], args) | _ \<Rightarrow> None))"

subsection \<open>The format loop\<close>

function format :: "string \<Rightarrow> arg list \<Rightarrow> string option" where
  "format [] args = Some []"
| "format (c # f) args =
     (if c \<noteq> CHR ''%'' then map_option ((#) c) (format f args)
      else case parse_conversion f of None \<Rightarrow> None
        | Some (pad0, pad, c, f) \<Rightarrow>
            (case convert pad0 pad c args of None \<Rightarrow> None
             | Some (out, args) \<Rightarrow> map_option ((@) out) (format f args)))"
  by pat_completeness auto
termination
  by (relation "measure (\<lambda>(f, _). length f)") (auto dest: parse_conversion_shorter)


declare format.simps [simp del]

lemma format_Nil [simp]: "format [] args = Some []"
  by (simp add: format.simps)

lemma format_literal: "CHR ''%'' \<notin> set s \<Longrightarrow> format (s @ f) args = map_option ((@) s) (format f args)"
proof (induction s)
  case Nil
  then show ?case by (cases "format f args") simp_all
next
  case (Cons c s)
  then show ?case by (cases "format f args") (auto simp: format.simps)
qed

subsection \<open>Printing\<close>

text \<open>The console: whether \<open>kernel_console\<close> is set, and its lock, which may be missing.\<close>

record console =
  console_set :: bool
  console_lock :: "spinlock option"

definition setKernelConsole :: "console \<Rightarrow> console" where
  "setKernelConsole con =
     con\<lparr>console_set := True, console_lock := Some (spinlock_init \<lparr>lock_val = 0, ownerPid = 0\<rparr>)\<rparr>"

primrec put_string :: "device \<Rightarrow> string \<Rightarrow> history \<Rightarrow> history option" where
  "put_string dev [] h = Some h"
| "put_string dev (c # s) h = do {
     h \<leftarrow> uart_write_char dev c h;
     put_string dev s h
   }"

definition print_no_lock :: "device \<Rightarrow> console \<Rightarrow> string \<Rightarrow> arg list \<Rightarrow> history \<Rightarrow> history option" where
  "print_no_lock dev con f args h =
     (if \<not> console_set con then Some h
      else do {
        out \<leftarrow> format f args;
        put_string dev out h
      })"

definition print :: "device \<Rightarrow> nat \<Rightarrow> console \<Rightarrow> string \<Rightarrow> arg list \<Rightarrow> history \<Rightarrow> (console \<times> history) option" where
  "print dev pid con f args h =
     (if \<not> console_set con then Some (con, h)
      else do {
        con \<leftarrow> (case console_lock con of None \<Rightarrow> Some con
          | Some l \<Rightarrow> map_option (\<lambda>l. con\<lparr>console_lock := Some l\<rparr>) (spinlock_spin pid l));
        out \<leftarrow> format f args;
        h \<leftarrow> put_string dev out h;
        Some (con\<lparr>console_lock := map_option spinlock_release (console_lock con)\<rparr>, h)
      })"

lemma put_string_sends:
  assumes "accepts dev"
  shows "\<exists>h'. put_string dev s h = Some h' \<and> sent h' = sent h @ map char_byte s"
proof (induction s arbitrary: h)
  case (Cons c s)
  obtain h1 where h1: "uart_write_char dev c h = Some h1" "sent h1 = sent h @ [char_byte c]"
    using writeByteBlockingActual_sends [OF assms, of "char_byte c" h] sent_byte
    unfolding uart_write_char_def by blast
  then show ?case using Cons [of h1] by auto
qed simp

subsection \<open>Formats as templates\<close>

text \<open>A format is put together from text without \<open>%\<close> and conversions with one argument each.\<close>

datatype piece = Lit string | Conv bool nat char arg

primrec piece_format :: "piece \<Rightarrow> string" where
  "piece_format (Lit s) = s"
| "piece_format (Conv pad0 pad c a) =
     CHR ''%'' # (if pad0 then ''0'' else []) @ (if pad = 0 then [] else [digit_char pad]) @ [c]"

primrec piece_args :: "piece \<Rightarrow> arg list" where
  "piece_args (Lit s) = []"
| "piece_args (Conv pad0 pad c a) = [a]"

primrec piece_text :: "piece \<Rightarrow> string" where
  "piece_text (Lit s) = s"
| "piece_text (Conv pad0 pad c a) = (case a of
     Num n \<Rightarrow> if c \<in> {CHR ''d'', CHR ''u'', CHR ''x''} then padded pad0 pad (itoa1 c n) else [char_of (nat (n mod 256))]
   | Str p \<Rightarrow> padded pad0 pad (case p of None \<Rightarrow> ''(null)'' | Some p \<Rightarrow> p))"

primrec piece_ok :: "piece \<Rightarrow> bool" where
  "piece_ok (Lit s) \<longleftrightarrow> CHR ''%'' \<notin> set s"
| "piece_ok (Conv pad0 pad c a) \<longleftrightarrow> pad \<le> 9 \<and> (of_char c < (48 :: nat) \<or> (57 :: nat) < of_char c) \<and>
     (case a of Num n \<Rightarrow> c \<noteq> CHR ''s'' | Str p \<Rightarrow> c = CHR ''s'')"

lemma of_char_digit: "pad \<le> 9 \<Longrightarrow> of_char (digit_char pad) = 48 + pad"
  by (simp add: digit_char_def)

lemma digit_char_not_zero: "0 < pad \<Longrightarrow> pad \<le> 9 \<Longrightarrow> digit_char pad \<noteq> CHR ''0''"
  using of_char_digit [of pad] by auto

lemma parse_conversion_piece:
  assumes "piece_ok (Conv pad0 pad c a)"
  shows "parse_conversion (tl (piece_format (Conv pad0 pad c a)) @ f) = Some (pad0, pad, c, f)"
proof -
  have c: "c \<noteq> CHR ''0''" "\<not> (of_char c \<ge> (48 :: nat) \<and> of_char c \<le> (57 :: nat))" "pad \<le> 9"
    using assms by auto
  have w: "parse_width ((if pad = 0 then [] else [digit_char pad]) @ c # f) = Some (pad, c # f)"
    using c of_char_digit [of pad] by auto
  moreover have "parse_flag ((if pad = 0 then [] else [digit_char pad]) @ c # f) =
      Some (False, (if pad = 0 then [] else [digit_char pad]) @ c # f)"
    using c digit_char_not_zero [of pad] by auto
  ultimately show ?thesis by (cases pad0) (simp_all add: parse_conversion_def)
qed

lemma convert_piece:
  "piece_ok (Conv pad0 pad c a) \<Longrightarrow> convert pad0 pad c (a # args) = Some (piece_text (Conv pad0 pad c a), args)"
  by (cases a) (auto simp: convert_def)

lemma format_piece:
  assumes "piece_ok p"
  shows "format (piece_format p @ f) (piece_args p @ args) = map_option ((@) (piece_text p)) (format f args)"
proof (cases p)
  case (Lit s)
  then show ?thesis using assms by (simp add: format_literal)
next
  case (Conv pad0 pad c a)
  have "format (piece_format p @ f) (piece_args p @ args) =
    format (CHR ''%'' # (tl (piece_format p) @ f)) (a # args)" by (simp add: Conv)
  also have "\<dots> = map_option ((@) (piece_text p)) (format f args)"
    using parse_conversion_piece [of pad0 pad c a f] convert_piece [of pad0 pad c a args] assms
    by (subst format.simps) (simp add: Conv del: piece_format.simps piece_text.simps piece_ok.simps)
  finally show ?thesis .
qed

lemma print_template:
  assumes "accepts dev" "console_set con" "\<forall>p \<in> set ps. piece_ok p"
    and "\<forall>l. console_lock con = Some l \<longrightarrow> lock_val l = 0"
    and f_def: "f = concat (map piece_format ps)" and args_def: "args = concat (map piece_args ps)"
  shows "\<exists>h'. print_no_lock dev con f args h = Some h' \<and>
    sent h' = sent h @ map char_byte (concat (map piece_text ps)) \<and>
    (\<exists>con'. print dev pid con f args h = Some (con', h') \<and>
       (\<forall>l. console_lock con' = Some l \<longrightarrow> lock_val l = 0) \<and> console_set con')"
proof -
  have "format (concat (map piece_format ps)) (concat (map piece_args ps)) = Some (concat (map piece_text ps))"
    using assms(3) by (induction ps) (simp_all add: format_piece)
  then have f: "format f args = Some (concat (map piece_text ps))" by (simp add: f_def args_def)
  obtain h' where h': "put_string dev (concat (map piece_text ps)) h = Some h'"
      "sent h' = sent h @ map char_byte (concat (map piece_text ps))"
    using put_string_sends [OF assms(1)] by blast
  have "print_no_lock dev con f args h = Some h'" using assms(2) f h'(1) by (simp add: print_no_lock_def)
  moreover have "\<exists>con'. print dev pid con f args h = Some (con', h') \<and>
      (\<forall>l. console_lock con' = Some l \<longrightarrow> lock_val l = 0) \<and> console_set con'"
    using assms(2,4) f h'(1)
    by (cases "console_lock con") (auto simp: print_def spinlock_spin_def spinlock_release_def SPLCK_UNLOCKED_def)
  ultimately show ?thesis using h'(2) by blast
qed



text \<open>\<open>%%\<close> is not a percent sign: it takes an argument and prints the character it encodes.\<close>

theorem format_percent:
  "format (''%%'' @ f) (Num n # args) = map_option ((#) (char_of (nat (n mod 256)))) (format f args) \<and>
   format (''%%'' @ f) [] = None"
  by (simp add: format.simps parse_conversion_def convert_def) (cases "format f args"; simp)

end
