(* ===== verification/Gic.thy ===== *)
theory Gic
  imports Console
begin

text \<open>
  \<open>class GIC400\<close> (\<open>src/drivers/GIC.cpp\<close>, \<open>src/include/GIC.h\<close>): the interrupt controller, its
  configuration and the software-generated interrupts the kernel sends to itself.
\<close>

definition GIC_BASE :: nat where "GIC_BASE = 0xffff0000FF840000"
definition GICD_DIST_BASE :: nat where "GICD_DIST_BASE = GIC_BASE + 0x1000"
definition GICC_CPU_BASE :: nat where "GICC_CPU_BASE = GIC_BASE + 0x2000"
definition GICD_ENABLE_IRQ_BASE :: nat where "GICD_ENABLE_IRQ_BASE = GICD_DIST_BASE + 0x100"
definition GICD_SGIR :: nat where "GICD_SGIR = GICD_DIST_BASE + 0xF00"
definition GICC_IAR :: nat where "GICC_IAR = GICC_CPU_BASE + 0xC"
definition GICC_EOIR :: nat where "GICC_EOIR = GICC_CPU_BASE + 0x10"
definition GIC_IRQ_TARGET_BASE :: nat where "GIC_IRQ_TARGET_BASE = GICD_DIST_BASE + 0x800"

lemmas gic_registers = GIC_BASE_def GICD_DIST_BASE_def GICC_CPU_BASE_def GICD_ENABLE_IRQ_BASE_def
  GICD_SGIR_def GICC_IAR_def GICC_EOIR_def GIC_IRQ_TARGET_BASE_def

definition SYSTEM_TIMER_IRQ_1 :: nat where "SYSTEM_TIMER_IRQ_1 = 0x61"
definition SYS_TIMER_IRQ_3 :: nat where "SYS_TIMER_IRQ_3 = 8"
definition SYSTEM_RESCHEDULE_IRQ :: nat where "SYSTEM_RESCHEDULE_IRQ = 2"
definition SYSTEM_HALT_IRQ :: nat where "SYSTEM_HALT_IRQ = 1"
definition SYSTEM_SLEEP_IRQ :: nat where "SYSTEM_SLEEP_IRQ = 3"
definition SYSTEM_WAKEUP_ALL :: nat where "SYSTEM_WAKEUP_ALL = 4"
definition SYSTEM_UARTRX_IRQ :: nat where "SYSTEM_UARTRX_IRQ = 125"
definition SYSTEM_SPOURIOUS_IRQ :: nat where "SYSTEM_SPOURIOUS_IRQ = 1023"

lemmas irq_numbers = SYSTEM_TIMER_IRQ_1_def SYS_TIMER_IRQ_3_def SYSTEM_RESCHEDULE_IRQ_def SYSTEM_HALT_IRQ_def
  SYSTEM_SLEEP_IRQ_def SYSTEM_WAKEUP_ALL_def SYSTEM_UARTRX_IRQ_def SYSTEM_SPOURIOUS_IRQ_def

subsection \<open>The register blocks\<close>

text \<open>
  The members of the two structs the driver lays over the register blocks, each with the number of
  bytes it takes, in the order of the declarations.
\<close>

definition gic400_gicd_t :: "(string \<times> nat) list" where
  "gic400_gicd_t =
     [(''ctl'', 4), (''type'', 4), (''iid'', 4), (''_res0'', (0x80 - 0xC) div 4 * 4),
      (''igroup'', (0x100 - 0x80) div 4 * 4), (''isenable'', (0x180 - 0x100) div 4 * 4),
      (''icenable'', (0x200 - 0x180) div 4 * 4), (''ispend'', (0x280 - 0x200) div 4 * 4),
      (''icpend'', (0x300 - 0x280) div 4 * 4), (''isactive'', (0x380 - 0x300) div 4 * 4),
      (''icactive'', (0x400 - 0x380) div 4 * 4), (''ipriority'', 0x800 - 0x400),
      (''istargets'', 0xC00 - 0x800), (''icfg'', (0xD00 - 0xC08) div 4 * 4), (''ppis'', 4),
      (''spis'', (0xF00 - 0xD04) div 4 * 4), (''sgi'', 4), (''_res1'', (0xF10 - 0xF04) div 4 * 4),
      (''cpendsgi'', (0xF20 - 0xF10) div 4 * 4), (''spendsgi'', (0xF30 - 0xF20) div 4 * 4),
      (''_res2'', (0xFD0 - 0xF30) div 4 * 4), (''pid'', (0xFF0 - 0xFD0) div 4 * 4),
      (''cid'', (0x1000 - 0xFF0) div 4 * 4)]"

definition gic400_gicc_t :: "(string \<times> nat) list" where
  "gic400_gicc_t =
     [(''ctl'', 4), (''pm'', 4), (''bp'', 4), (''ia'', 4), (''eoi'', 4), (''rp'', 4), (''hppi'', 4),
      (''abp'', 4), (''aia'', 4), (''aeoi'', 4), (''ahppi'', 4), (''_res0'', (0xD0 - 0x2C) div 4 * 4),
      (''ap'', 4), (''_res1'', (0xE0 - 0xD4) div 4 * 4), (''nasp'', 4), (''_res2'', (0xFC - 0xE4) div 4 * 4),
      (''iid'', 4), (''_res3'', (0x1000 - 0x100) div 4 * 4), (''dir'', 4)]"

fun member_offset :: "(string \<times> nat) list \<Rightarrow> string \<Rightarrow> nat" where
  "member_offset [] m = 0"
| "member_offset ((n, bytes) # s) m = (if n = m then 0 else bytes + member_offset s m)"

definition gicd :: "string \<Rightarrow> nat" where
  "gicd m = GICD_DIST_BASE + member_offset gic400_gicd_t m"

definition gicc :: "string \<Rightarrow> nat" where
  "gicc m = GICC_CPU_BASE + member_offset gic400_gicc_t m"

subsection \<open>Operations\<close>

definition enable_interrupt :: "nat \<Rightarrow> history \<Rightarrow> history" where
  "enable_interrupt irq h =
     (let n = irq div 32; offset = irq mod 32; enableRegister = GICD_ENABLE_IRQ_BASE + 4 * n
      in mmio_write enableRegister (push_bit offset 1) h)"

definition dis_interrupt :: "nat \<Rightarrow> history \<Rightarrow> history" where
  "dis_interrupt irq h =
     (let n = irq div 32; offset = irq mod 32; enableRegister = GICD_ENABLE_IRQ_BASE + 4 * n
      in mmio_write enableRegister (push_bit offset 0) h)"

definition assign_target :: "device \<Rightarrow> nat \<Rightarrow> nat \<Rightarrow> history \<Rightarrow> history" where
  "assign_target dev irq cpu h =
     (let n = irq div 4; targetRegister = GIC_IRQ_TARGET_BASE + 4 * n;
          byte_offset = irq mod 4; shift = byte_offset * 8 + cpu;
          (v, h) = mmio_read dev targetRegister h
      in mmio_write targetRegister (v OR push_bit shift 1) h)"

definition send_sgi :: "nat \<Rightarrow> nat \<Rightarrow> history \<Rightarrow> history" where
  "send_sgi irq cpu h = mmio_write GICD_SGIR (push_bit (16 + cpu) 1 OR of_nat irq) h"

text \<open>\<open>print_gic_state\<close> reads its registers to print them; the arguments of one \<open>print\<close> are read
  from left to right here, an order C leaves open. Two of the members it reads are bytes.\<close>

definition member_width :: "nat \<Rightarrow> nat" where
  "member_width r = (if r = gicd ''ipriority'' \<or> r = gicd ''istargets'' then 8 else 32)"

fun read_all :: "device \<Rightarrow> nat list \<Rightarrow> history \<Rightarrow> arg list \<times> history" where
  "read_all dev [] h = ([], h)"
| "read_all dev (r # rs) h =
     (let (v, h) = mmio_read dev r h; (vs, h) = read_all dev rs h in (Num (uint (take_bit (member_width r) v)) # vs, h))"

definition print_registers ::
  "device \<Rightarrow> nat \<Rightarrow> string \<Rightarrow> nat list \<Rightarrow> console \<times> history \<Rightarrow> (console \<times> history) option" where
  "print_registers dev pid f rs s =
     (case s of (con, h) \<Rightarrow> (case read_all dev rs h of (args, h) \<Rightarrow> print dev pid con f args h))"

definition print_gic_state :: "device \<Rightarrow> nat \<Rightarrow> console \<times> history \<Rightarrow> (console \<times> history) option" where
  "print_gic_state dev pid s = do {
     let reg = GICD_DIST_BASE + 8;
     s \<leftarrow> print_registers dev pid (''############################################'' @ [CHR 0x0A, CHR 0x0A] @
            ''GICC_CTLR: 0x%x  GICC_PMR: 0x%x  GICC_BPR: 0x%x'' @ [CHR 0x0A]) [gicc ''ctl'', gicc ''pm'', gicc ''bp''] s;
     s \<leftarrow> print_registers dev pid (''GICID 0x%x OTHER: 0x%x'' @ [CHR 0x0A]) [gicd ''iid'', reg] s;
     s \<leftarrow> print_registers dev pid (''GICC_RPR: 0x%x  GICC_HPPIR: 0x%x'' @ [CHR 0x0A]) [gicc ''rp'', gicc ''hppi''] s;
     s \<leftarrow> print_registers dev pid (''GICC_ABPR: 0x%x  GICC_AHPPIR: 0x%x'' @ [CHR 0x0A, CHR 0x0A])
            [gicc ''abp'', gicc ''ahppi''] s;
     s \<leftarrow> print_registers dev pid (''GICD_CTLR: 0x%x  GICD_TYPE: 0x%x  GICD_IGGRP0: 0x%x'' @ [CHR 0x0A])
            [gicd ''ctl'', gicd ''type'', gicd ''igroup''] s;
     s \<leftarrow> print_registers dev pid (''GICD_ISENABLER0: 0x%x  GICD_ISPEND0: 0x%x  GICD_ISACTIVE: 0x%x'' @ [CHR 0x0A])
            [gicd ''isenable'', gicd ''ispend'', gicd ''isactive''] s;
     s \<leftarrow> print_registers dev pid (''GICD_IPRI0: 0x%x  GICD_ITARGET0: 0x%x  GICD_ICFGR0: %x'' @ [CHR 0x0A])
            [gicd ''ipriority'', gicd ''istargets'', gicd ''icfg''] s;
     print_registers dev pid (''GICD_PPIS: 0x%x  GICD_SPI0: 0x%x  GICD_SPENSGI0: 0x%x'' @ [CHR 0x0A])
            [gicd ''ppis'', gicd ''spis'', gicd ''spendsgi''] s
   }"

definition gic_configure :: "device \<Rightarrow> history \<Rightarrow> history" where
  "gic_configure dev h =
     (let h = mmio_write (gicc ''pm'') 0xFF h;
          h = mmio_write (gicc ''bp'') 2 h;
          h = assign_target dev SYSTEM_TIMER_IRQ_1 0 h;
          h = enable_interrupt SYSTEM_TIMER_IRQ_1 h;
          h = assign_target dev SYSTEM_UARTRX_IRQ 0 h;
          h = enable_interrupt SYSTEM_UARTRX_IRQ h;
          h = assign_target dev SYSTEM_RESCHEDULE_IRQ 2 h;
          h = assign_target dev SYSTEM_RESCHEDULE_IRQ 1 h;
          h = assign_target dev SYSTEM_RESCHEDULE_IRQ 3 h;
          h = enable_interrupt SYSTEM_RESCHEDULE_IRQ h;
          h = assign_target dev SYSTEM_HALT_IRQ 0 h;
          h = assign_target dev SYSTEM_HALT_IRQ 2 h;
          h = assign_target dev SYSTEM_HALT_IRQ 1 h;
          h = assign_target dev SYSTEM_HALT_IRQ 3 h;
          h = enable_interrupt SYSTEM_HALT_IRQ h;
          h = assign_target dev SYSTEM_SLEEP_IRQ 0 h;
          h = assign_target dev SYSTEM_SLEEP_IRQ 1 h;
          h = assign_target dev SYSTEM_SLEEP_IRQ 2 h;
          h = assign_target dev SYSTEM_SLEEP_IRQ 3 h;
          h = enable_interrupt SYSTEM_SLEEP_IRQ h;
          h = assign_target dev SYSTEM_WAKEUP_ALL 0 h;
          h = assign_target dev SYSTEM_WAKEUP_ALL 1 h;
          h = assign_target dev SYSTEM_WAKEUP_ALL 2 h;
          h = assign_target dev SYSTEM_WAKEUP_ALL 3 h
      in enable_interrupt SYSTEM_WAKEUP_ALL h)"

definition gic_init :: "device \<Rightarrow> nat \<Rightarrow> console \<times> history \<Rightarrow> (console \<times> history) option" where
  "gic_init dev pid s = do {
     let (con, h) = s;
     let h = mmio_write (gicd ''ctl'') 0 h;
     let h = mmio_write (gicc ''ctl'') 0 h;
     (con, h) \<leftarrow> print_gic_state dev pid (con, h);
     let h = gic_configure dev h;
     let h = mmio_write (gicc ''ctl'') 1 h;
     Some (con, mmio_write (gicd ''ctl'') 1 h)
   }"

subsection \<open>What the controller is told\<close>

text \<open>
  Set-enable registers (\<open>GICD_ISENABLERn\<close>): a 1 written to a bit enables that interrupt, a 0 has no
  effect. \<open>enabled h irq\<close>: the writes of \<open>h\<close> have enabled \<open>irq\<close>.
\<close>

definition enabled :: "history \<Rightarrow> nat \<Rightarrow> bool" where
  "enabled h irq \<longleftrightarrow> (\<exists>v. (GICD_ENABLE_IRQ_BASE + 4 * (irq div 32), v) \<in> set (writes_of h) \<and> bit v (irq mod 32))"

text \<open>\<open>routed h irq cpu\<close>: the byte of \<open>irq\<close> in the target registers names \<open>cpu\<close>.\<close>

definition routed :: "history \<Rightarrow> nat \<Rightarrow> nat \<Rightarrow> bool" where
  "routed h irq cpu \<longleftrightarrow> bit (last_write h (GIC_IRQ_TARGET_BASE + 4 * (irq div 4))) (irq mod 4 * 8 + cpu)"

definition target_registers :: "nat set" where
  "target_registers = {GIC_IRQ_TARGET_BASE + 4 * n | n. n < 256}"

lemma enabled_write: "enabled (mmio_write r v h) irq \<longleftrightarrow>
    enabled h irq \<or> r = GICD_ENABLE_IRQ_BASE + 4 * (irq div 32) \<and> bit v (irq mod 32)"
  by (auto simp: enabled_def)

lemma enabled_read [simp]: "enabled (snd (mmio_read dev r h)) irq = enabled h irq"
  by (simp add: enabled_def)

lemma div_mod_eq_iff:
  fixes i j w :: nat
  shows "i div w = j div w \<and> i mod w = j mod w \<longleftrightarrow> i = j"
  by (metis div_mult_mod_eq)

lemma enabled_enable: "enabled (enable_interrupt irq' h) irq \<longleftrightarrow> enabled h irq \<or> irq = irq'"
  using div_mod_eq_iff [of irq 32 irq'] by (auto simp: enable_interrupt_def Let_def enabled_write)

lemma enabled_elsewhere:
  "r < GICD_ENABLE_IRQ_BASE \<or> GIC_IRQ_TARGET_BASE \<le> r \<Longrightarrow> irq < 1024 \<Longrightarrow>
   enabled (mmio_write r v h) irq = enabled h irq"
  by (auto simp: enabled_write gic_registers)

lemma enabled_assign: "irq < 1024 \<Longrightarrow> enabled (assign_target dev irq' cpu h) irq = enabled h irq"
  by (simp add: assign_target_def Let_def case_prod_beta enabled_elsewhere)

lemma byte_bit_eq: "c < 8 \<Longrightarrow> d < 8 \<Longrightarrow> a * 8 + c = b * 8 + d \<longleftrightarrow> a = b \<and> c = d" for a b c d :: nat
  by presburger

lemma routed_assign:
  assumes "memory_like dev target_registers" "irq' < 1024" "cpu < 8" "cpu' < 8"
  shows "routed (assign_target dev irq' cpu' h) irq cpu \<longleftrightarrow> routed h irq cpu \<or> irq = irq' \<and> cpu = cpu'"
proof -
  let ?r = "GIC_IRQ_TARGET_BASE + 4 * (irq' div 4)"
  have "irq' div 4 < 256" using assms(2) by simp
  then have "?r \<in> target_registers" unfolding target_registers_def by blast
  then have v: "dev h ?r = last_write h ?r" by (rule memory_likeD [OF assms(1)])
  have "irq mod 4 * 8 + cpu = irq' mod 4 * 8 + cpu' \<longleftrightarrow> irq mod 4 = irq' mod 4 \<and> cpu = cpu'"
    by (rule byte_bit_eq) (use assms in simp_all)
  moreover have "irq' mod 4 * 8 + cpu' < 32"
  proof -
    have "irq' mod 4 \<le> 3" by simp
    then show ?thesis using assms(4) by linarith
  qed
  ultimately show ?thesis using v div_mod_eq_iff [of irq 4 irq']
    by (auto simp: routed_def assign_target_def Let_def case_prod_beta bit_or_iff)
qed

lemma routed_elsewhere:
  "r < GIC_IRQ_TARGET_BASE \<or> GICD_DIST_BASE + 0xC00 \<le> r \<Longrightarrow> irq < 1024 \<Longrightarrow>
   routed (mmio_write r v h) irq cpu = routed h irq cpu"
  by (auto simp: routed_def gic_registers)

lemma routed_enable: "irq' < 1024 \<Longrightarrow> irq < 1024 \<Longrightarrow> routed (enable_interrupt irq' h) irq cpu = routed h irq cpu"
  unfolding enable_interrupt_def Let_def by (rule routed_elsewhere) (auto simp: gic_registers)

lemma gicd_ctl: "gicd ''ctl'' = GICD_DIST_BASE" and gicc_ctl: "gicc ''ctl'' = GICC_CPU_BASE"
  and gicc_pm: "gicc ''pm'' = GICC_CPU_BASE + 4" and gicc_bp: "gicc ''bp'' = GICC_CPU_BASE + 8"
  by (simp_all add: gicd_def gicc_def gic400_gicd_t_def gic400_gicc_t_def)

lemma read_all_only_reads:
  "writes_of (snd (read_all dev rs h)) = writes_of h \<and> last_write (snd (read_all dev rs h)) = last_write h"
proof (induction rs arbitrary: h)
  case (Cons r rs)
  then show ?case by (auto simp: case_prod_beta Let_def)
qed simp

lemma print_registers_silent:
  assumes "\<not> console_set con"
  shows "\<exists>h'. print_registers dev pid f rs (con, h) = Some (con, h') \<and> writes_of h' = writes_of h \<and>
    last_write h' = last_write h"
  using assms read_all_only_reads [of dev rs h]
  by (auto simp: print_registers_def print_def case_prod_beta)

lemma print_gic_state_silent:
  assumes "\<not> console_set con"
  shows "\<exists>h'. print_gic_state dev pid (con, h) = Some (con, h') \<and> writes_of h' = writes_of h \<and>
    last_write h' = last_write h"
proof -
  have chain: "\<exists>h'. (do { s \<leftarrow> print_registers dev pid f rs (con, h); k s }) = Some (con, h') \<and>
      writes_of h' = writes_of h \<and> last_write h' = last_write h"
    if k: "\<And>h. \<exists>h'. k (con, h) = Some (con, h') \<and> writes_of h' = writes_of h \<and> last_write h' = last_write h"
    for f rs k h
  proof -
    obtain h1 where h1: "print_registers dev pid f rs (con, h) = Some (con, h1)" "writes_of h1 = writes_of h"
        "last_write h1 = last_write h"
      using print_registers_silent [OF assms] by blast
    obtain h2 where "k (con, h1) = Some (con, h2)" "writes_of h2 = writes_of h1" "last_write h2 = last_write h1"
      using k by blast
    then show ?thesis using h1 by simp
  qed
  show ?thesis unfolding print_gic_state_def Let_def
    by (rule chain chain [OF print_registers_silent [OF assms]])+ (rule print_registers_silent [OF assms])
qed

definition routing :: "(nat \<times> nat) set" where
  "routing = {(97, 0), (125, 0), (2, 1), (2, 2), (2, 3)} \<union> {1, 3, 4} \<times> {0, 1, 2, 3}"

lemma gic_configure_enabled:
  "irq < 1024 \<Longrightarrow> enabled (gic_configure dev h) irq \<longleftrightarrow> enabled h irq \<or> irq \<in> {97, 125, 1, 2, 3, 4}"
  unfolding gic_configure_def Let_def
  by (auto simp: enabled_enable enabled_assign enabled_elsewhere gicc_pm gicc_bp irq_numbers gic_registers)

lemma gic_configure_routed:
  assumes "memory_like dev target_registers" "irq < 1024" "cpu < 8"
  shows "routed (gic_configure dev h) irq cpu \<longleftrightarrow> routed h irq cpu \<or> (irq, cpu) \<in> routing"
proof -
  have "routed (mmio_write (gicc ''bp'') 2 (mmio_write (gicc ''pm'') 0xFF h)) irq cpu = routed h irq cpu"
    using assms(2) by (simp add: routed_elsewhere gicc_pm gicc_bp gic_registers)
  then show ?thesis unfolding gic_configure_def Let_def using assms
    by (auto simp: routed_enable routed_assign irq_numbers routing_def)
qed

text \<open>Configuring writes no control register.\<close>

definition configures :: "history \<Rightarrow> history \<Rightarrow> bool" where
  "configures h h' \<longleftrightarrow> (\<exists>w. writes_of h' = writes_of h @ w \<and>
     (\<forall>(r, v) \<in> set w. r \<noteq> GICD_DIST_BASE \<and> r \<noteq> GICC_CPU_BASE))"

lemma configures_refl: "configures h h"
  by (simp add: configures_def)

lemma configures_write:
  "configures h h' \<Longrightarrow> r \<noteq> GICD_DIST_BASE \<Longrightarrow> r \<noteq> GICC_CPU_BASE \<Longrightarrow> configures h (mmio_write r v h')"
  by (auto simp: configures_def)

lemma configures_enable: "configures h h' \<Longrightarrow> irq < 1024 \<Longrightarrow> configures h (enable_interrupt irq h')"
  unfolding enable_interrupt_def Let_def by (rule configures_write) (simp_all add: gic_registers)

lemma configures_assign: "configures h h' \<Longrightarrow> irq < 1024 \<Longrightarrow> configures h (assign_target dev irq cpu h')"
  unfolding assign_target_def Let_def case_prod_beta
  by (rule configures_write) (auto simp: gic_registers configures_def)

lemma configures_gic: "configures h (gic_configure dev h)"
  unfolding gic_configure_def Let_def
  by (intro configures_enable configures_assign configures_write configures_refl)
    (simp_all add: irq_numbers gicc_pm gicc_bp gic_registers)

lemma gic_init_spec:
  assumes "memory_like dev target_registers" "\<not> console_set con"
  shows "\<exists>h' w. gic_init dev pid (con, h) = Some (con, h') \<and>
    writes_of h' = writes_of h @ [(GICD_DIST_BASE, 0), (GICC_CPU_BASE, 0)] @ w @
      [(GICC_CPU_BASE, 1), (GICD_DIST_BASE, 1)] \<and>
    (\<forall>(r, v) \<in> set w. r \<noteq> GICD_DIST_BASE \<and> r \<noteq> GICC_CPU_BASE) \<and>
    (\<forall>irq < 1024. (enabled h' irq \<longleftrightarrow> enabled h irq \<or> irq \<in> {97, 125, 1, 2, 3, 4}) \<and>
      (\<forall>cpu < 8. routed h' irq cpu \<longleftrightarrow> routed h irq cpu \<or> (irq, cpu) \<in> routing))"
proof -
  let ?off = "mmio_write GICC_CPU_BASE 0 (mmio_write GICD_DIST_BASE 0 h)"
  obtain h1 where h1: "print_gic_state dev pid (con, ?off) = Some (con, h1)" "writes_of h1 = writes_of ?off"
      "last_write h1 = last_write ?off"
    using print_gic_state_silent [OF assms(2)] by blast
  let ?h2 = "gic_configure dev h1"
  let ?h' = "mmio_write GICD_DIST_BASE 1 (mmio_write GICC_CPU_BASE 1 ?h2)"
  obtain w where w: "writes_of ?h2 = writes_of h1 @ w"
      "\<forall>(r, v) \<in> set w. r \<noteq> GICD_DIST_BASE \<and> r \<noteq> GICC_CPU_BASE"
    using configures_gic [of h1 dev] unfolding configures_def by blast
  have "gic_init dev pid (con, h) = Some (con, ?h')"
    using h1(1) by (simp add: gic_init_def gicd_ctl gicc_ctl Let_def)
  moreover have "writes_of ?h' = writes_of h @ [(GICD_DIST_BASE, 0), (GICC_CPU_BASE, 0)] @ w @
      [(GICC_CPU_BASE, 1), (GICD_DIST_BASE, 1)]"
    using w(1) h1(2) by simp
  moreover have "enabled ?h' irq \<longleftrightarrow> enabled h irq \<or> irq \<in> {97, 125, 1, 2, 3, 4}" if "irq < 1024" for irq
  proof -
    have "enabled h1 irq = enabled ?off irq" using h1(2) by (simp add: enabled_def)
    moreover have "enabled ?off irq = enabled h irq" "enabled ?h' irq = enabled ?h2 irq"
      using that by (simp_all add: enabled_elsewhere gic_registers)
    ultimately show ?thesis using gic_configure_enabled [OF that] by simp
  qed
  moreover have "routed ?h' irq cpu \<longleftrightarrow> routed h irq cpu \<or> (irq, cpu) \<in> routing" if "irq < 1024" "cpu < 8" for irq cpu
  proof -
    have "routed h1 irq cpu = routed ?off irq cpu" using h1(3) by (simp add: routed_def)
    moreover have "\<dots> = routed h irq cpu" and "routed ?h' irq cpu = routed ?h2 irq cpu"
      using that(1) by (simp_all add: routed_elsewhere gic_registers)
    ultimately show ?thesis using gic_configure_routed [OF assms(1) that] by simp
  qed
  ultimately show ?thesis using w(2) by blast
qed



text \<open>A software-generated interrupt names its number in the low bits and exactly its target core in
  the target list of the register.\<close>

theorem send_sgi_correct:
  assumes "irq < 16" "cpu < 8"
  shows "\<exists>v. writes_of (send_sgi irq cpu h) = writes_of h @ [(GICD_SGIR, v)] \<and> unat (take_bit 4 v) = irq \<and>
    (\<forall>i < 8. bit v (16 + i) \<longleftrightarrow> i = cpu) \<and> (\<forall>i \<ge> 24. \<not> bit v i)"
proof -
  let ?v = "2 ^ (16 + cpu) OR of_nat irq :: 32 word"
  have b: "bit (of_nat irq :: 32 word) i \<Longrightarrow> i < 4" for i
  proof -
    assume "bit (of_nat irq :: 32 word) i"
    moreover have "unat (of_nat irq :: 32 word) = irq"
      using assms(1) by (simp add: unat_of_nat take_bit_nat_eq_self)
    ultimately have "bit irq i" using bit_unsigned_iff [where 'a = nat, of "of_nat irq :: 32 word" i] by simp
    moreover have "take_bit 4 irq = irq" using assms(1) by (simp add: take_bit_nat_eq_self)
    ultimately show ?thesis by (metis bit_take_bit_iff)
  qed
  have "take_bit 4 ?v = of_nat irq"
  proof (rule bit_word_eqI)
    fix n
    show "bit (take_bit 4 ?v) n = bit (of_nat irq :: 32 word) n"
      using b [of n] by (auto simp: bit_take_bit_iff bit_or_iff)
  qed
  then have "unat (take_bit 4 ?v) = irq" using assms(1) by (simp add: unat_of_nat take_bit_nat_eq_self)
  moreover have "\<forall>i < 8. bit ?v (16 + i) \<longleftrightarrow> i = cpu" and "\<forall>i \<ge> 24. \<not> bit ?v i"
    using assms(2) b by (fastforce simp: bit_or_iff)+
  ultimately show ?thesis by (intro exI [of _ ?v]) (simp add: send_sgi_def)
qed

theorem send_sgi_correct_witness:
  "\<exists>v. writes_of (send_sgi SYSTEM_SLEEP_IRQ 2 []) = [(GICD_SGIR, v)] \<and> bit v 18 \<and> \<not> bit v 16"
proof -
  obtain v where v: "writes_of (send_sgi SYSTEM_SLEEP_IRQ 2 []) = [(GICD_SGIR, v)]"
    "\<forall>i < 8. bit v (16 + i) \<longleftrightarrow> i = 2"
    using send_sgi_correct [of SYSTEM_SLEEP_IRQ 2 "[]"] by (auto simp: SYSTEM_SLEEP_IRQ_def)
  from v(2) [rule_format, of 2] v(2) [rule_format, of 0] show ?thesis using v(1) by simp
qed

text \<open>Two slips. Disabling an interrupt writes a zero to a set-enable register, which does nothing. And
  the distributor struct places \<open>icfg\<close> at \<open>0xC00\<close> but counts its size from \<open>0xC08\<close>, so that every later
  member lies 8 bytes below its register.\<close>

lemma dis_interrupt_keeps_enabled: "enabled (dis_interrupt irq h) irq' = enabled h irq'"
  by (simp add: dis_interrupt_def Let_def enabled_write)

lemma gicd_layout_off: "gicd ''icfg'' = GICD_DIST_BASE + 0xC00" "gicd ''sgi'' = GICD_SGIR - 8"
  "gicd ''spendsgi'' = GICD_DIST_BASE + 0xF20 - 8"
  by (simp_all add: gicd_def gic400_gicd_t_def gic_registers)

end
