(* ===== verification/Timer.thy ===== *)
theory Timer
  imports Machine
begin

text \<open>
  \<open>class SystemTimer\<close> (\<open>src/drivers/SystemTimer.cpp\<close>, \<open>src/include/SystemTimer.h\<close>): the
  64-bit microsecond counter that is read as two 32-bit registers, and the compare registers.
\<close>

definition RPI_SYSTIMER_BASE :: nat where
  "RPI_SYSTIMER_BASE = PERIPHERAL_BASE + 0x3000"

definition timer_control_status :: nat where "timer_control_status = RPI_SYSTIMER_BASE"
definition timer_counter_lo :: nat where "timer_counter_lo = RPI_SYSTIMER_BASE + 4"
definition timer_counter_hi :: nat where "timer_counter_hi = RPI_SYSTIMER_BASE + 8"
definition timer_compare0 :: nat where "timer_compare0 = RPI_SYSTIMER_BASE + 12"
definition timer_compare1 :: nat where "timer_compare1 = RPI_SYSTIMER_BASE + 16"
definition timer_compare3 :: nat where "timer_compare3 = RPI_SYSTIMER_BASE + 24"

lemmas timer_registers = timer_control_status_def timer_counter_lo_def timer_counter_hi_def
  timer_compare0_def timer_compare1_def timer_compare3_def RPI_SYSTIMER_BASE_def PERIPHERAL_BASE_def

text \<open>The loop the three functions share: low half, high half, high half again.\<close>

partial_function (option) read_counter :: "device \<Rightarrow> history \<Rightarrow> (32 word \<times> 32 word \<times> history) option" where
  "read_counter dev h =
     (let (lo, h) = mmio_read dev timer_counter_lo h;
          (hi, h) = mmio_read dev timer_counter_hi h;
          (hi', h) = mmio_read dev timer_counter_hi h
      in if hi \<noteq> hi' then read_counter dev h else Some (lo, hi, h))"

declare read_counter.simps [code]

definition getCounter :: "device \<Rightarrow> history \<Rightarrow> (nat \<times> history) option" where
  "getCounter dev h = do {
     (lo, hi, h) \<leftarrow> read_counter dev h;
     Some (unat hi * 2 ^ 32 + unat lo, h)
   }"

definition WaitMicroT1 :: "device \<Rightarrow> 32 word \<Rightarrow> history \<Rightarrow> history option" where
  "WaitMicroT1 dev us h = do {
     (lo, hi, h) \<leftarrow> read_counter dev h;
     Some (mmio_write timer_compare1 (lo + us) h)
   }"

definition WaitMicroT3 :: "device \<Rightarrow> 32 word \<Rightarrow> history \<Rightarrow> history option" where
  "WaitMicroT3 dev us h = do {
     (lo, hi, h) \<leftarrow> read_counter dev h;
     Some (mmio_write timer_compare3 (lo + us) h)
   }"

text \<open>\<open>getTimer()->control_status |= bits\<close>\<close>

definition timer_acknowledge :: "device \<Rightarrow> 32 word \<Rightarrow> history \<Rightarrow> history" where
  "timer_acknowledge dev bits h =
     (let (v, h) = mmio_read dev timer_control_status h in mmio_write timer_control_status (v OR bits) h)"

subsection \<open>A counter that runs\<close>

text \<open>
  \<open>clocked dev ticks\<close>: the two registers show the halves of a counter that never runs
  backwards and does not wrap.
\<close>

definition clocked :: "device \<Rightarrow> (history \<Rightarrow> nat) \<Rightarrow> bool" where
  "clocked dev ticks \<longleftrightarrow>
     (\<forall>h. dev h timer_counter_lo = of_nat (ticks h) \<and> dev h timer_counter_hi = of_nat (ticks h div 2 ^ 32) \<and>
          ticks h < 2 ^ 64) \<and>
     (\<forall>h a. ticks h \<le> ticks (a # h))"

lemma clockedD:
  assumes "clocked dev ticks"
  shows "dev h timer_counter_lo = of_nat (ticks h)" "dev h timer_counter_hi = of_nat (ticks h div 2 ^ 32)"
    "ticks h < 2 ^ 64" "ticks h \<le> ticks (a # h)"
  using assms by (simp_all add: clocked_def)

lemma clocked_later:
  assumes "clocked dev ticks" "later h h'"
  shows "ticks h \<le> ticks h'"
proof -
  have "ticks h \<le> ticks (w @ h)" for w
    by (induction w) (auto intro: order_trans clockedD(4) [OF assms(1)])
  then show ?thesis using assms(2) by (auto simp: later_def)
qed

lemma unat_counter_halves:
  assumes "clocked dev ticks"
  shows "unat (dev h timer_counter_lo) = ticks h mod 2 ^ 32" "unat (dev h timer_counter_hi) = ticks h div 2 ^ 32"
proof -
  have "ticks h div 2 ^ 32 < 2 ^ 32" using clockedD(3) [OF assms, of h] by (simp add: less_mult_imp_div_less)
  then show "unat (dev h timer_counter_hi) = ticks h div 2 ^ 32"
    by (simp add: clockedD(2) [OF assms] unat_of_nat take_bit_eq_mod)
  show "unat (dev h timer_counter_lo) = ticks h mod 2 ^ 32"
    by (simp add: clockedD(1) [OF assms] unat_of_nat take_bit_eq_mod)
qed

text \<open>Each retry means that the high half has grown, which it can do at most \<open>2 ^ 32\<close> times.\<close>

lemma read_counter_spec:
  assumes c: "clocked dev ticks"
  shows "\<exists>h1 h2 h'. later h h1 \<and> later h1 h2 \<and> later h2 h' \<and>
    read_counter dev h = Some (dev h1 timer_counter_lo, dev h2 timer_counter_hi, h') \<and>
    writes_of h' = writes_of h"
proof (induction "2 ^ 32 - ticks h div 2 ^ 32" arbitrary: h rule: less_induct)
  case less
  define h1 where "h1 = snd (mmio_read dev timer_counter_lo h)"
  define h2 where "h2 = snd (mmio_read dev timer_counter_hi h1)"
  define h3 where "h3 = snd (mmio_read dev timer_counter_hi h2)"
  have l: "later h h1" "later h1 h2" "later h2 h3"
    by (simp_all add: h1_def h2_def h3_def)
  have w: "writes_of h3 = writes_of h" by (simp add: h1_def h2_def h3_def)
  have unroll: "read_counter dev h =
    (if dev h1 timer_counter_hi \<noteq> dev h2 timer_counter_hi then read_counter dev h3
     else Some (dev h timer_counter_lo, dev h1 timer_counter_hi, h3))"
    by (subst read_counter.simps) (simp add: h1_def h2_def h3_def mmio_read_def)
  have m: "ticks h \<le> ticks h1" "ticks h1 \<le> ticks h2" "ticks h2 \<le> ticks h3"
    using clocked_later [OF c] l by blast+
  show ?case
  proof (cases "dev h1 timer_counter_hi = dev h2 timer_counter_hi")
    case True
    moreover have "later h1 h3" using l(2,3) by (rule later_trans)
    ultimately show ?thesis using unroll l(1) w
      by (intro exI [of _ h] exI [of _ h1] exI [of _ h3]) simp
  next
    case False
    have "ticks h1 div 2 ^ 32 \<noteq> ticks h2 div 2 ^ 32" using False clockedD(2) [OF c] by metis
    moreover have "ticks h div 2 ^ 32 \<le> ticks h1 div 2 ^ 32" "ticks h1 div 2 ^ 32 \<le> ticks h2 div 2 ^ 32"
      "ticks h2 div 2 ^ 32 \<le> ticks h3 div 2 ^ 32" using m by (simp_all add: div_le_mono)
    moreover have "ticks h3 div 2 ^ 32 < 2 ^ 32"
      using clockedD(3) [OF c, of h3] by (simp add: less_mult_imp_div_less)
    ultimately have "2 ^ 32 - ticks h3 div 2 ^ 32 < 2 ^ 32 - ticks h div 2 ^ 32" by linarith
    from less [OF this] obtain k1 k2 k' where k: "later h3 k1" "later k1 k2" "later k2 k'"
      "read_counter dev h3 = Some (dev k1 timer_counter_lo, dev k2 timer_counter_hi, k')"
      "writes_of k' = writes_of h3" by blast
    have "later h k1" using l k(1) by (blast intro: later_trans)
    then show ?thesis
      by (intro exI [of _ k1] exI [of _ k2] exI [of _ k']) (simp only: k unroll False w simp_thms if_True)
  qed
qed

lemma getCounter_spec:
  assumes "clocked dev ticks"
  shows "\<exists>h1 h2 h'. later h h1 \<and> later h1 h2 \<and> later h2 h' \<and>
    getCounter dev h = Some (ticks h2 div 2 ^ 32 * 2 ^ 32 + ticks h1 mod 2 ^ 32, h') \<and>
    writes_of h' = writes_of h"
proof -
  obtain h1 h2 h' where "later h h1" "later h1 h2" "later h2 h'" "writes_of h' = writes_of h"
    "read_counter dev h = Some (dev h1 timer_counter_lo, dev h2 timer_counter_hi, h')"
    using read_counter_spec [OF assms] by blast
  then show ?thesis
    by (intro exI [of _ h1] exI [of _ h2] exI [of _ h'])
      (simp only: getCounter_def unat_counter_halves [OF assms] Option.bind.simps prod.case simp_thms)
qed

lemma getCounter_bounds:
  assumes "clocked dev ticks"
  shows "\<exists>c h1 h2 h'. getCounter dev h = Some (c, h') \<and> later h h1 \<and> later h1 h2 \<and> later h2 h' \<and>
    writes_of h' = writes_of h \<and> ticks h \<le> c \<and> c < ticks h2 + 2 ^ 32 \<and>
    (ticks h1 div 2 ^ 32 = ticks h2 div 2 ^ 32 \<longrightarrow> c = ticks h1)"
proof -
  obtain h1 h2 h' where r: "later h h1" "later h1 h2" "later h2 h'"
    "getCounter dev h = Some (ticks h2 div 2 ^ 32 * 2 ^ 32 + ticks h1 mod 2 ^ 32, h')"
    "writes_of h' = writes_of h"
    using getCounter_spec [OF assms] by blast
  let ?c = "ticks h2 div 2 ^ 32 * 2 ^ 32 + ticks h1 mod 2 ^ 32"
  have m: "ticks h \<le> ticks h1" "ticks h1 \<le> ticks h2" using clocked_later [OF assms] r(1,2) by blast+
  have split: "ticks h1 div 2 ^ 32 * 2 ^ 32 + ticks h1 mod 2 ^ 32 = ticks h1" by (rule div_mult_mod_eq)
  have "ticks h1 div 2 ^ 32 \<le> ticks h2 div 2 ^ 32" using m(2) by (rule div_le_mono)
  then have "ticks h1 div 2 ^ 32 * 2 ^ 32 \<le> ticks h2 div 2 ^ 32 * 2 ^ 32" by simp
  then have "ticks h \<le> ?c" using m(1) split by linarith
  moreover have "ticks h2 div 2 ^ 32 * 2 ^ 32 \<le> ticks h2" by simp
  then have "?c < ticks h2 + 2 ^ 32" by (simp add: add_le_less_mono)
  moreover have "ticks h1 div 2 ^ 32 = ticks h2 div 2 ^ 32 \<longrightarrow> ?c = ticks h1"
    by (rule impI, erule subst) (rule split)
  ultimately show ?thesis using r by blast
qed

text \<open>On a counter that does not run backwards \<open>getCounter\<close> returns, and writes no register.
  What it returns is not behind the counter at the instant of the call, and it is the exact value
  of the counter at an instant within the call unless a carry into the high half falls between the
  reads of the two halves, in which case it is less than \<open>2 ^ 32\<close> microseconds ahead of the
  counter.\<close>

theorem getCounter_correct:
  assumes "clocked dev ticks"
  shows "\<exists>c h1 h2 h'. getCounter dev h = Some (c, h') \<and> later h h1 \<and> later h1 h2 \<and> later h2 h' \<and>
    writes_of h' = writes_of h \<and> ticks h \<le> c \<and> c < ticks h2 + 2 ^ 32 \<and>
    (ticks h1 div 2 ^ 32 = ticks h2 div 2 ^ 32 \<longrightarrow> c = ticks h1)"
  by (rule getCounter_bounds [OF assms])

text \<open>A timer whose counter advances by one with every access of any register.\<close>

definition stepping :: "nat \<Rightarrow> history \<Rightarrow> nat" where
  "stepping start h = min (start + length h) (2 ^ 64 - 1)"

definition stepping_timer :: "nat \<Rightarrow> device" where
  "stepping_timer start h reg =
     (if reg = timer_counter_lo then of_nat (stepping start h)
      else if reg = timer_counter_hi then of_nat (stepping start h div 2 ^ 32) else 0)"

lemma clocked_stepping: "clocked (stepping_timer start) (stepping start)"
  by (auto simp: clocked_def stepping_timer_def stepping_def timer_registers)

theorem getCounter_correct_witness:
  "\<exists>c h'. getCounter (stepping_timer 5) [] = Some (c, h') \<and> 5 \<le> c"
  using getCounter_correct [OF clocked_stepping, of 5 "[]"] by (auto simp: stepping_def)

text \<open>The low half is read before the high half and only the high half is read twice, so a
  carry between the first two reads goes unnoticed: read one microsecond before the carry into the
  high half, the counter appears more than an hour ahead.\<close>

theorem getCounter_torn:
  "\<exists>h'. getCounter (stepping_timer (2 ^ 32 - 1)) [] = Some (2 * 2 ^ 32 - 1, h') \<and>
     stepping (2 ^ 32 - 1) [] = 2 ^ 32 - 1 \<and> stepping (2 ^ 32 - 1) h' = 2 ^ 32 + 2"
  by (simp add: getCounter_def read_counter.simps mmio_read_def stepping_timer_def stepping_def
      timer_registers Let_def unat_of_nat take_bit_eq_mod)

end
