(* ===== verification/ArrayList.thy ===== *)
theory ArrayList
  imports Prelude "HOL-Library.Multiset" "HOL-Library.Monad_Syntax"
begin

text \<open>
  \<open>class ArrayList\<close> (\<open>src/include/List.h\<close>), the container of the run queues, of the sleeping
  queue and of the driver list.

  The backing array is a function from offsets to elements, so that an access behind its end
  has a meaning (the memory that lies there); \<open>al_len\<close> is the number of elements it was
  allocated with. \<open>fresh\<close> is what \<open>new T[n]\<close> finds in memory. Offsets are \<open>int\<close>s. A pointer to
  an element is its offset, \<open>None\<close> is \<open>NULL\<close>.
\<close>

subsection \<open>Data\<close>

record 'a array_list =
  arr :: "int \<Rightarrow> 'a"
  al_len :: int
  al_size :: int
  al_capacity :: int
  al_sorted :: bool

text \<open>The constructors leave \<open>sorted\<close> as they find it.\<close>

definition array_list_new :: "(int \<Rightarrow> 'a) \<Rightarrow> bool \<Rightarrow> 'a array_list" where
  "array_list_new fresh garbage =
     \<lparr>arr = fresh, al_len = 20, al_size = 0, al_capacity = 20, al_sorted = garbage\<rparr>"

definition array_list_new_size :: "(int \<Rightarrow> 'a) \<Rightarrow> bool \<Rightarrow> int \<Rightarrow> 'a array_list" where
  "array_list_new_size fresh garbage theSize =
     \<lparr>arr = fresh, al_len = theSize, al_size = 0, al_capacity = theSize, al_sorted = garbage\<rparr>"

definition array_list_copy :: "(int \<Rightarrow> 'a) \<Rightarrow> bool \<Rightarrow> 'a array_list \<Rightarrow> 'a array_list" where
  "array_list_copy fresh garbage l =
     \<lparr>arr = (\<lambda>i. if 0 \<le> i \<and> i < al_size l then arr l i else fresh i), al_len = al_size l * 2,
      al_size = al_size l, al_capacity = al_size l * 2, al_sorted = garbage\<rparr>"

definition array_list_getSize :: "'a array_list \<Rightarrow> nat" where
  "array_list_getSize l = nat (al_size l)"

definition array_list_getCapacity :: "'a array_list \<Rightarrow> nat" where
  "array_list_getCapacity l = nat (al_capacity l)"

definition array_list_get :: "'a array_list \<Rightarrow> int \<Rightarrow> int option" where
  "array_list_get l index = (if index \<ge> 0 \<and> index < al_size l then Some index else None)"

text \<open>What an iteration from \<open>begin()\<close> to \<open>end()\<close> sees.\<close>

definition elements :: "'a array_list \<Rightarrow> 'a list" where
  "elements l = map (arr l) [0..al_size l - 1]"

subsection \<open>Adding\<close>

definition reallocate :: "(int \<Rightarrow> 'a) \<Rightarrow> 'a array_list \<Rightarrow> 'a array_list" where
  "reallocate fresh l =
     l\<lparr>al_capacity := al_capacity l * 2, al_len := al_capacity l * 2,
       arr := (\<lambda>i. if 0 \<le> i \<and> i < al_size l then arr l i else fresh i)\<rparr>"

text \<open>
  \<open>reallocate(newSize)\<close> frees the old array and switches to the new one inside its copying loop:
  from the second pass on it copies the array onto itself, and an empty list keeps the old array.
\<close>

definition reallocate_to :: "(int \<Rightarrow> 'a) \<Rightarrow> int \<Rightarrow> 'a array_list \<Rightarrow> 'a array_list" where
  "reallocate_to fresh newSize l =
     (let l = l\<lparr>al_capacity := newSize\<rparr>
      in if al_size l > 0 then l\<lparr>arr := fresh(0 := arr l 0), al_len := newSize\<rparr> else l)"

definition array_list_add :: "(int \<Rightarrow> 'a) \<Rightarrow> 'a array_list \<Rightarrow> 'a \<Rightarrow> 'a array_list" where
  "array_list_add fresh l element =
     (let l = (if al_size l - 1 = al_capacity l then reallocate fresh l else l)
      in l\<lparr>arr := (arr l)(al_size l := element), al_size := al_size l + 1, al_sorted := False\<rparr>)"

primrec shift_right_loop :: "nat \<Rightarrow> (int \<Rightarrow> 'a) \<Rightarrow> int \<Rightarrow> (int \<Rightarrow> 'a)" where
  "shift_right_loop 0 a i = a"
| "shift_right_loop (Suc k) a i = shift_right_loop k (a(i := a (i - 1))) (i - 1)"

definition array_list_add_at ::
  "(int \<Rightarrow> 'a) \<Rightarrow> 'a array_list \<Rightarrow> 'a \<Rightarrow> int \<Rightarrow> 'a array_list" where
  "array_list_add_at fresh l element index =
     (if index \<ge> 0 \<and> index \<le> al_size l then
        let l = (if index \<ge> al_capacity l \<or> al_size l = al_capacity l
                 then reallocate_to fresh ((if index \<ge> al_capacity l then index else al_size l) * 2) l
                 else l);
            a = shift_right_loop (nat (al_size l - index)) (arr l) (al_size l)
        in l\<lparr>arr := a(index := element), al_size := al_size l + 1, al_sorted := False\<rparr>
      else l)"

subsection \<open>Searching, removing and moving\<close>

function binarySearch :: "(int \<Rightarrow> 'a::linorder) \<Rightarrow> 'a \<Rightarrow> int \<Rightarrow> int \<Rightarrow> int" where
  "binarySearch a element index1 index2 =
     (if index1 < index2 then
        let pivot = (index1 + index2) div 2
        in if element < a pivot then binarySearch a element index1 (pivot - 1)
           else if element > a pivot then binarySearch a element (pivot + 1) index2
           else pivot
      else if index1 = index2 then index1
      else -1)"
  by pat_completeness auto
termination
  by (relation "measure (\<lambda>(_, _, index1, index2). nat (index2 - index1 + 1))") auto

declare binarySearch.simps [simp del]

definition array_list_binarySearch :: "'a::linorder array_list \<Rightarrow> 'a \<Rightarrow> int" where
  "array_list_binarySearch l element =
     (if al_sorted l then binarySearch (arr l) element 0 (al_size l - 1) else -1)"

primrec remove_loop :: "nat \<Rightarrow> (int \<Rightarrow> 'a) \<Rightarrow> int \<Rightarrow> (int \<Rightarrow> 'a)" where
  "remove_loop 0 a i = a"
| "remove_loop (Suc k) a i = remove_loop k (a(i := a (i + 1))) (i + 1)"

text \<open>The pointer returned is the slot, which by then holds the next element.\<close>

definition array_list_remove :: "'a array_list \<Rightarrow> int \<Rightarrow> int option \<times> 'a array_list" where
  "array_list_remove l index =
     (if index < al_size l \<and> index \<ge> 0
      then (Some index, l\<lparr>arr := remove_loop (nat (al_size l - index)) (arr l) index,
                          al_size := al_size l - 1\<rparr>)
      else (None, l))"

definition array_list_removeElement :: "'a::linorder array_list \<Rightarrow> 'a \<Rightarrow> bool \<times> 'a array_list" where
  "array_list_removeElement l element =
     (let index = array_list_binarySearch l element
      in if index \<ge> 0 \<and> index < al_size l then (True, snd (array_list_remove l index))
         else (False, l))"

definition array_list_addToSort ::
  "(int \<Rightarrow> 'a::linorder) \<Rightarrow> 'a array_list \<Rightarrow> 'a \<Rightarrow> bool \<times> 'a array_list" where
  "array_list_addToSort fresh l element =
     (if al_sorted l
      then (True, (array_list_add_at fresh l element (array_list_binarySearch l element))
                    \<lparr>al_sorted := True\<rparr>)
      else (False, l))"

definition array_list_removeAll :: "(int \<Rightarrow> 'a) \<Rightarrow> 'a array_list \<Rightarrow> 'a array_list" where
  "array_list_removeAll fresh l =
     l\<lparr>arr := fresh, al_len := al_capacity l, al_sorted := False, al_size := 0\<rparr>"

definition array_list_removeAll_to :: "(int \<Rightarrow> 'a) \<Rightarrow> int \<Rightarrow> 'a array_list \<Rightarrow> 'a array_list" where
  "array_list_removeAll_to fresh newCapacity l =
     l\<lparr>arr := fresh, al_len := newCapacity, al_sorted := False, al_capacity := newCapacity,
       al_size := 0\<rparr>"

definition array_list_move :: "'a array_list \<Rightarrow> int \<Rightarrow> int \<Rightarrow> bool \<times> 'a array_list" where
  "array_list_move l index1 index2 =
     (if index1 \<ge> 0 \<and> index2 \<ge> 0 \<and> index1 < al_size l \<and> index2 < al_size l then
        let temp = arr l index1;
            a = (arr l)(index1 := arr l index2);
            a = a(index2 := temp)
        in (True, l\<lparr>arr := a, al_sorted := False\<rparr>)
      else (False, l))"

abbreviation moved :: "'a array_list \<Rightarrow> int \<Rightarrow> int \<Rightarrow> 'a array_list" where
  "moved l i j \<equiv> snd (array_list_move l i j)"

subsection \<open>Sorting\<close>

text \<open>The inner loop shifts larger elements to the right until \<open>element\<close> fits.\<close>

function insert_loop :: "(int \<Rightarrow> 'a::linorder) \<Rightarrow> 'a \<Rightarrow> int \<Rightarrow> (int \<Rightarrow> 'a)" where
  "insert_loop a element j =
     (if j \<ge> 0 then
        if j = 0 \<or> a (j - 1) \<le> element then a(j := element)
        else insert_loop (a(j := a (j - 1))) element (j - 1)
      else a)"
  by pat_completeness auto
termination
  by (relation "measure (\<lambda>(_, _, j). nat j)") auto

declare insert_loop.simps [simp del]

primrec insertion_loop :: "nat \<Rightarrow> (int \<Rightarrow> 'a::linorder) \<Rightarrow> int \<Rightarrow> (int \<Rightarrow> 'a)" where
  "insertion_loop 0 a i = a"
| "insertion_loop (Suc k) a i = insertion_loop k (insert_loop a (a i) i) (i + 1)"

definition insertionSort_range :: "'a::linorder array_list \<Rightarrow> int \<Rightarrow> int \<Rightarrow> 'a array_list" where
  "insertionSort_range l index1 index2 =
     (if index1 < index2 \<and> index1 \<ge> 0 \<and> index1 < al_size l \<and> index2 \<ge> 0 \<and> index2 < al_size l
      then l\<lparr>arr := insertion_loop (nat (index2 - index1 + 1)) (arr l) index1\<rparr>
      else l)"

definition insertionSort :: "'a::linorder array_list \<Rightarrow> 'a array_list" where
  "insertionSort l = (insertionSort_range l 0 (al_size l - 1))\<lparr>al_sorted := True\<rparr>"

text \<open>The pivot ends in slot \<open>index2 - 1\<close>; the code keeps a reference to that slot.\<close>

definition choosePivot :: "'a::linorder array_list \<Rightarrow> int \<Rightarrow> int \<Rightarrow> 'a array_list" where
  "choosePivot l index1 index2 =
     (let center = (index1 + index2) div 2;
          l = (if arr l center < arr l index1 then moved l index1 center else l);
          l = (if arr l index1 > arr l index2 then moved l index1 index2 else l);
          l = (if arr l center > arr l index2 then moved l center index2 else l)
      in moved l center (index2 - 1))"

partial_function (option) scan_up :: "(int \<Rightarrow> 'a::linorder) \<Rightarrow> int \<Rightarrow> int \<Rightarrow> int option" where
  "scan_up a pivot i = (if a (i + 1) < a pivot then scan_up a pivot (i + 1) else Some (i + 1))"

declare scan_up.simps [code]

partial_function (option) scan_down :: "(int \<Rightarrow> 'a::linorder) \<Rightarrow> int \<Rightarrow> int \<Rightarrow> int option" where
  "scan_down a pivot j = (if a (j - 1) > a pivot then scan_down a pivot (j - 1) else Some (j - 1))"

declare scan_down.simps [code]

partial_function (option) partition_loop ::
  "'a::linorder array_list \<Rightarrow> int \<Rightarrow> int \<Rightarrow> int \<Rightarrow> ('a array_list \<times> int) option" where
  "partition_loop l pivot i j = do {
     i \<leftarrow> scan_up (arr l) pivot i;
     j \<leftarrow> scan_down (arr l) pivot j;
     if i < j then partition_loop (moved l i j) pivot i j else Some (l, i)
   }"

declare partition_loop.simps [code]

partial_function (option) quickSort_range ::
  "'a::linorder array_list \<Rightarrow> int \<Rightarrow> int \<Rightarrow> 'a array_list option" where
  "quickSort_range l index1 index2 =
     (if index2 - index1 \<ge> 10 then do {
        let l = choosePivot l index1 index2;
        (l, i) \<leftarrow> partition_loop l (index2 - 1) index1 (index2 - 1);
        let l = moved l i (index2 - 1);
        l \<leftarrow> quickSort_range l index1 (i - 1);
        quickSort_range l (i + 1) index2
      }
      else Some (insertionSort_range l index1 index2))"

declare quickSort_range.simps [code]

definition quickSort :: "'a::linorder array_list \<Rightarrow> 'a array_list option" where
  "quickSort l = do {
     l \<leftarrow> quickSort_range l 0 (al_size l - 1);
     Some (l\<lparr>al_sorted := True\<rparr>)
   }"

end
