(* ===== verification/ArrayListSort.thy ===== *)
theory ArrayListSort
  imports ArrayList
begin

text \<open>
  Sorting and searching in \<open>ArrayList\<close>: \<open>quickSort\<close> returns, leaves a sorted permutation of the
  elements and touches nothing else; in a sorted list without duplicates \<open>removeElement\<close> of a
  member removes exactly that member.
\<close>

subsection \<open>Permuting a range\<close>

definition range_mset :: "(int \<Rightarrow> 'a) \<Rightarrow> int \<Rightarrow> int \<Rightarrow> 'a multiset" where
  "range_mset a lo hi = image_mset a (mset_set {lo..hi})"

text \<open>\<open>b\<close> permutes the elements \<open>a\<close> has between \<open>lo\<close> and \<open>hi\<close> and leaves the others alone.\<close>

definition perm_on :: "(int \<Rightarrow> 'a) \<Rightarrow> (int \<Rightarrow> 'a) \<Rightarrow> int \<Rightarrow> int \<Rightarrow> bool" where
  "perm_on a b lo hi \<longleftrightarrow>
     range_mset b lo hi = range_mset a lo hi \<and> (\<forall>i. i < lo \<or> hi < i \<longrightarrow> b i = a i)"

definition sorted_on :: "(int \<Rightarrow> 'a::linorder) \<Rightarrow> int \<Rightarrow> int \<Rightarrow> bool" where
  "sorted_on a lo hi \<longleftrightarrow> (\<forall>i j. lo \<le> i \<longrightarrow> i \<le> j \<longrightarrow> j \<le> hi \<longrightarrow> a i \<le> a j)"

lemma perm_on_refl [simp]: "perm_on a a lo hi"
  by (simp add: perm_on_def)

lemma perm_on_trans: "perm_on a b lo hi \<Longrightarrow> perm_on b c lo hi \<Longrightarrow> perm_on a c lo hi"
  by (simp add: perm_on_def)

lemma range_mset_cong: "(\<And>i. lo \<le> i \<Longrightarrow> i \<le> hi \<Longrightarrow> a i = b i) \<Longrightarrow> range_mset a lo hi = range_mset b lo hi"
  unfolding range_mset_def by (rule image_mset_cong) simp

lemma range_mset_split:
  assumes "lo \<le> m + 1" "m \<le> hi"
  shows "range_mset a lo hi = range_mset a lo m + range_mset a (m + 1) hi"
proof -
  have "{lo..hi} = {lo..m} \<union> {m + 1..hi}" "{lo..m} \<inter> {m + 1..hi} = {}" using assms by auto
  then show ?thesis unfolding range_mset_def by (simp add: mset_set_Union)
qed

lemma perm_on_mono:
  assumes "perm_on a b lo hi" "lo' \<le> lo" "hi \<le> hi'"
  shows "perm_on a b lo' hi'"
proof (cases "lo \<le> hi + 1")
  case True
  have eq: "range_mset b lo' hi' = range_mset a lo' hi'"
  proof -
    have s: "range_mset c lo' hi' = range_mset c lo' (lo - 1) + (range_mset c lo hi + range_mset c (hi + 1) hi')" for c
      using range_mset_split [of lo' "lo - 1" hi' c] range_mset_split [of lo hi hi' c] assms(2,3) True
      by simp
    have "range_mset b lo' (lo - 1) = range_mset a lo' (lo - 1)" "range_mset b (hi + 1) hi' = range_mset a (hi + 1) hi'"
      using assms(1) by (auto intro!: range_mset_cong simp: perm_on_def)
    then show ?thesis using assms(1) unfolding s by (simp add: perm_on_def)
  qed
  then show ?thesis using assms by (auto simp: perm_on_def)
next
  case False
  then have "b i = a i" for i using assms(1) by (cases "i < lo") (auto simp: perm_on_def)
  then have "b = a" by (simp add: fun_eq_iff)
  then show ?thesis by simp
qed

lemma range_mset_image: "set_mset (range_mset a lo hi) = a ` {lo..hi}"
  by (simp add: range_mset_def)

text \<open>What holds of all elements of a range survives a permutation of it.\<close>

lemma perm_on_all:
  assumes "perm_on a b lo hi" "\<And>i. lo \<le> i \<Longrightarrow> i \<le> hi \<Longrightarrow> P (a i)" "lo \<le> j" "j \<le> hi"
  shows "P (b j)"
proof -
  have "b j \<in> a ` {lo..hi}"
    using assms(1,3,4) range_mset_image [of a lo hi] range_mset_image [of b lo hi]
    by (auto simp: perm_on_def)
  then show ?thesis using assms(2) by auto
qed

lemma perm_on_swap:
  assumes "lo \<le> i" "i \<le> hi" "lo \<le> j" "j \<le> hi"
  shows "perm_on a (a(i := a j, j := a i)) lo hi"
proof -
  have "range_mset (a(i := a j, j := a i)) lo hi = range_mset a lo hi"
  proof (cases "i = j")
    case False
    have "{lo..hi} = insert i (insert j ({lo..hi} - {i, j}))" using assms by auto
    then have s: "mset_set {lo..hi} = add_mset i (add_mset j (mset_set ({lo..hi} - {i, j})))"
      using False by (metis finite_insert finite_atLeastAtMost_int finite_Diff insertE insert_Diff_single insert_iff Diff_iff mset_set.insert insertCI)
    have "image_mset (a(i := a j, j := a i)) (mset_set ({lo..hi} - {i, j})) = image_mset a (mset_set ({lo..hi} - {i, j}))"
      by (rule image_mset_cong) auto
    then show ?thesis unfolding range_mset_def s using False by simp
  qed simp
  then show ?thesis using assms by (auto simp: perm_on_def)
qed

subsection \<open>Insertion sort\<close>

text \<open>
  The inner loop of the code runs down to slot \<open>0\<close>, not to the left end of the range: it sorts
  the range in place only because the element in front of the range is not larger.
\<close>

definition fits :: "(int \<Rightarrow> 'a::linorder) \<Rightarrow> int \<Rightarrow> 'a \<Rightarrow> bool" where
  "fits a lo x \<longleftrightarrow> 0 \<le> lo \<and> (lo = 0 \<or> a (lo - 1) \<le> x)"

text \<open>Slot \<open>j\<close> is the hole; \<open>x\<close> is the element that moves down.\<close>

lemma insert_loop_spec:
  assumes "fits a lo x" "lo \<le> j" "j \<le> m"
    and "\<And>i k. lo \<le> i \<Longrightarrow> i < k \<Longrightarrow> k \<le> m \<Longrightarrow> i \<noteq> j \<Longrightarrow> k \<noteq> j \<Longrightarrow> a i \<le> a k"
    and "\<And>k. j < k \<Longrightarrow> k \<le> m \<Longrightarrow> x \<le> a k"
  shows "sorted_on (insert_loop a x j) lo m \<and> perm_on (a(j := x)) (insert_loop a x j) lo m"
  using assms
proof (induction "nat j" arbitrary: j a rule: less_induct)
  case less
  have lo: "0 \<le> lo" using less.prems(1) by (simp add: fits_def)
  show ?case
  proof (cases "j = 0 \<or> a (j - 1) \<le> x")
    case True
    then have r: "insert_loop a x j = a(j := x)"
      using less.prems(2) lo by (subst insert_loop.simps) simp
    have "a i \<le> x" if "lo \<le> i" "i < j" for i
    proof (cases "i = j - 1")
      case False
      then show ?thesis using less.prems(4) [of i "j - 1"] that less.prems(3) True lo by fastforce
    qed (use True that lo in auto)
    then have "sorted_on (a(j := x)) lo m"
      using less.prems(4,5) unfolding sorted_on_def by (auto simp: order_le_less)
    then show ?thesis by (simp add: r)
  next
    case False
    define b where "b = a(j := a (j - 1))"
    have r: "insert_loop a x j = insert_loop b x (j - 1)"
      using False less.prems(2) lo by (subst insert_loop.simps) (simp add: b_def)
    have "j \<noteq> lo" using False less.prems(1) by (auto simp: fits_def)
    then have j: "lo \<le> j - 1" "j - 1 \<le> m" "nat (j - 1) < nat j" using lo less.prems(2,3) by auto
    have front: "fits b lo x" using less.prems(1) j by (auto simp: fits_def b_def)
    have skip: "b i \<le> b k" if "lo \<le> i" "i < k" "k \<le> m" "i \<noteq> j - 1" "k \<noteq> j - 1" for i k
      using that less.prems(4) [of i k] less.prems(4) [of i "j - 1"] less.prems(4) [of "j - 1" k] j
      by (auto simp: b_def)
    have large: "x \<le> b k" if "j - 1 < k" "k \<le> m" for k
      using that False less.prems(5) [of k] by (auto simp: b_def)
    have "b(j - 1 := x) = (a(j := x))(j := (a(j := x)) (j - 1), j - 1 := (a(j := x)) j)"
      by (auto simp: b_def fun_eq_iff)
    then have "perm_on (a(j := x)) (b(j - 1 := x)) lo m"
      using perm_on_swap [of lo j m "j - 1" "a(j := x)"] less.prems(2,3) j by simp
    moreover have "sorted_on (insert_loop b x (j - 1)) lo m \<and>
        perm_on (b(j - 1 := x)) (insert_loop b x (j - 1)) lo m"
      using front skip large by (intro less.hyps j)
    ultimately show ?thesis unfolding r using perm_on_trans by blast
  qed
qed

lemma insert_loop_extends:
  assumes "fits a lo (a j)" "lo \<le> j" "sorted_on a lo (j - 1)"
  shows "sorted_on (insert_loop a (a j) j) lo j" "perm_on a (insert_loop a (a j) j) lo j"
  using insert_loop_spec [of a lo "a j" j j] assms by (auto simp: sorted_on_def)

lemma insertion_loop_spec:
  assumes "lo \<le> i" "sorted_on a lo (i - 1)" "\<And>j. lo \<le> j \<Longrightarrow> j < i + int k \<Longrightarrow> fits a lo (a j)"
  shows "sorted_on (insertion_loop k a i) lo (i + int k - 1) \<and>
    perm_on a (insertion_loop k a i) lo (i + int k - 1)"
  using assms
proof (induction k arbitrary: a i)
  case (Suc k)
  let ?b = "insert_loop a (a i) i" and ?hi = "i + int (Suc k) - 1"
  have "fits a lo (a i)" using Suc.prems(1,3) by simp
  note e = insert_loop_extends [OF this Suc.prems(1,2)]
  have p: "perm_on a ?b lo ?hi" using e(2) by (rule perm_on_mono) simp_all
  have "?b (lo - 1) = a (lo - 1)" using e(2) by (simp add: perm_on_def)
  then have "fits ?b lo x \<longleftrightarrow> fits a lo x" for x by (simp add: fits_def)
  moreover have "fits a lo (?b j)" if "lo \<le> j" "j \<le> ?hi" for j
    using p Suc.prems(3) that by (intro perm_on_all [OF p, of "fits a lo"]) auto
  moreover have "i + 1 + int k - 1 = ?hi" by simp
  ultimately show ?case
    using Suc.IH [of "i + 1" ?b] Suc.prems(1) e(1) p perm_on_trans by auto
qed simp

lemma insertionSort_range_spec:
  assumes "0 \<le> lo" "hi < al_size l" "lo \<le> hi + 1" "\<And>j. lo \<le> j \<Longrightarrow> j \<le> hi \<Longrightarrow> fits (arr l) lo (arr l j)"
  shows "\<exists>a. insertionSort_range l lo hi = l\<lparr>arr := a\<rparr> \<and> sorted_on a lo hi \<and> perm_on (arr l) a lo hi"
proof (cases "lo < hi")
  case True
  then have "sorted_on (insertion_loop (nat (hi - lo + 1)) (arr l) lo) lo hi \<and>
      perm_on (arr l) (insertion_loop (nat (hi - lo + 1)) (arr l) lo) lo hi"
    using insertion_loop_spec [of lo lo "arr l" "nat (hi - lo + 1)"] assms by (simp add: sorted_on_def)
  then show ?thesis using True assms by (auto simp: insertionSort_range_def)
next
  case False
  then have "i = j" if "lo \<le> i" "i \<le> j" "j \<le> hi" for i j :: int using that by simp
  then have "sorted_on (arr l) lo hi" unfolding sorted_on_def by (metis order_refl)
  then show ?thesis using False by (intro exI [of _ "arr l"]) (simp add: insertionSort_range_def)
qed

subsection \<open>Quick sort\<close>

definition same_list :: "'a array_list \<Rightarrow> 'a array_list \<Rightarrow> bool" where
  "same_list l l' \<longleftrightarrow> al_size l' = al_size l \<and> al_capacity l' = al_capacity l \<and> al_len l' = al_len l"

lemma same_list_refl [simp]: "same_list l l"
  by (simp add: same_list_def)

lemma same_list_trans: "same_list l l' \<Longrightarrow> same_list l' l'' \<Longrightarrow> same_list l l''"
  by (simp add: same_list_def)

text \<open>\<open>step_on l l' lo hi\<close>: \<open>l'\<close> is \<open>l\<close> with the elements from \<open>lo\<close> to \<open>hi\<close> permuted.\<close>

definition step_on :: "'a array_list \<Rightarrow> 'a array_list \<Rightarrow> int \<Rightarrow> int \<Rightarrow> bool" where
  "step_on l l' lo hi \<longleftrightarrow> same_list l l' \<and> perm_on (arr l) (arr l') lo hi"

lemma step_on_refl [simp]: "step_on l l lo hi"
  by (simp add: step_on_def)

lemma step_on_trans: "step_on l l' lo hi \<Longrightarrow> step_on l' l'' lo hi \<Longrightarrow> step_on l l'' lo hi"
  unfolding step_on_def using same_list_trans perm_on_trans by blast

lemma step_on_mono: "step_on l l' lo hi \<Longrightarrow> lo' \<le> lo \<Longrightarrow> hi \<le> hi' \<Longrightarrow> step_on l l' lo' hi'"
  unfolding step_on_def using perm_on_mono by blast

lemma moved_arr:
  assumes "0 \<le> i" "i < al_size l" "0 \<le> j" "j < al_size l"
  shows "arr (moved l i j) = (arr l)(i := arr l j, j := arr l i)"
  using assms by (simp add: array_list_move_def)

lemma moved_step:
  assumes "lo \<le> i" "i \<le> hi" "lo \<le> j" "j \<le> hi" "0 \<le> lo" "hi < al_size l"
  shows "step_on l (moved l i j) lo hi"
proof -
  have "same_list l (moved l i j)" by (simp add: array_list_move_def same_list_def)
  then show ?thesis
    using assms perm_on_swap [of lo i hi j "arr l"] by (simp add: step_on_def moved_arr)
qed

lemma choosePivot_spec:
  assumes "0 \<le> lo" "hi < al_size l" "10 \<le> hi - lo" "l' = choosePivot l lo hi"
  shows "step_on l l' lo hi" "arr l' lo \<le> arr l' (hi - 1)" "arr l' (hi - 1) \<le> arr l' hi"
proof -
  define c where "c = (lo + hi) div 2"
  have c: "lo < c" "c < hi - 1" using assms(3) by (simp_all add: c_def)
  define l1 where "l1 = (if arr l c < arr l lo then moved l lo c else l)"
  define l2 where "l2 = (if arr l1 lo > arr l1 hi then moved l1 lo hi else l1)"
  define l3 where "l3 = (if arr l2 c > arr l2 hi then moved l2 c hi else l2)"
  have l': "l' = moved l3 c (hi - 1)"
    using assms(4) by (simp add: choosePivot_def Let_def c_def [symmetric] l1_def l2_def l3_def)
  have s1: "step_on l l1 lo hi" and sz1: "al_size l1 = al_size l"
    using moved_step [of lo lo hi c l] assms c by (auto simp: l1_def step_on_def same_list_def)
  have s2: "step_on l1 l2 lo hi" and sz2: "al_size l2 = al_size l"
    using moved_step [of lo lo hi hi l1] assms c sz1 by (auto simp: l2_def step_on_def same_list_def)
  have s3: "step_on l2 l3 lo hi" and sz3: "al_size l3 = al_size l"
    using moved_step [of lo c hi hi l2] assms c sz2 by (auto simp: l3_def step_on_def same_list_def)
  have s4: "step_on l3 l' lo hi"
    using moved_step [of lo c hi "hi - 1" l3] assms c sz3 unfolding l' by auto
  show "step_on l l' lo hi" using s1 s2 s3 s4 step_on_trans by blast
  have a1: "arr l1 lo \<le> arr l1 c" using assms c by (auto simp: l1_def moved_arr)
  have a2: "arr l2 lo \<le> arr l2 c" "arr l2 lo \<le> arr l2 hi"
    using a1 assms c sz1 by (auto simp: l2_def moved_arr)
  have a3: "arr l3 lo \<le> arr l3 c" "arr l3 c \<le> arr l3 hi"
    using a2 assms c sz2 by (auto simp: l3_def moved_arr)
  have "arr l' lo = arr l3 lo" "arr l' (hi - 1) = arr l3 c" "arr l' hi = arr l3 hi"
    using assms(1-3) c sz3 by (simp_all add: l' moved_arr)
  then show "arr l' lo \<le> arr l' (hi - 1)" "arr l' (hi - 1) \<le> arr l' hi" using a3 by simp_all
qed

text \<open>The scans stop at sentinels.\<close>

lemma scan_up_spec:
  assumes "i < k" "a p \<le> a k"
  shows "\<exists>i'. scan_up a p i = Some i' \<and> i < i' \<and> i' \<le> k \<and> a p \<le> a i' \<and> (\<forall>m. i < m \<longrightarrow> m < i' \<longrightarrow> a m < a p)"
  using assms(1)
proof (induction "nat (k - i)" arbitrary: i rule: less_induct)
  case less
  show ?case
  proof (cases "a (i + 1) < a p")
    case False
    then show ?thesis using less.prems by (subst scan_up.simps) (auto simp: not_less)
  next
    case True
    then have "i + 1 \<noteq> k" using assms(2) by auto
    then have "nat (k - (i + 1)) < nat (k - i)" "i + 1 < k" using less.prems by auto
    then obtain i' where "scan_up a p (i + 1) = Some i'" "i + 1 < i'" "i' \<le> k" "a p \<le> a i'"
        "\<forall>m. i + 1 < m \<longrightarrow> m < i' \<longrightarrow> a m < a p"
      using less.hyps [of "i + 1"] by blast
    moreover from this have "\<forall>m. i < m \<longrightarrow> m < i' \<longrightarrow> a m < a p"
      using True by (metis zless_add1_eq not_less_iff_gr_or_eq)
    ultimately show ?thesis using True
      by (intro exI [of _ i']) (simp add: scan_up.simps [of a p i])
  qed
qed

lemma scan_down_spec:
  assumes "k < j" "a k \<le> a p"
  shows "\<exists>j'. scan_down a p j = Some j' \<and> j' < j \<and> k \<le> j' \<and> a j' \<le> a p \<and> (\<forall>m. j' < m \<longrightarrow> m < j \<longrightarrow> a p < a m)"
  using assms(1)
proof (induction "nat (j - k)" arbitrary: j rule: less_induct)
  case less
  show ?case
  proof (cases "a p < a (j - 1)")
    case False
    then show ?thesis using less.prems by (subst scan_down.simps) (auto simp: not_less)
  next
    case True
    then have "j - 1 \<noteq> k" using assms(2) by auto
    then have "nat (j - 1 - k) < nat (j - k)" "k < j - 1" using less.prems by auto
    then obtain j' where "scan_down a p (j - 1) = Some j'" "j' < j - 1" "k \<le> j'" "a j' \<le> a p"
        "\<forall>m. j' < m \<longrightarrow> m < j - 1 \<longrightarrow> a p < a m"
      using less.hyps [of "j - 1"] by blast
    moreover from this have "\<forall>m. j' < m \<longrightarrow> m < j \<longrightarrow> a p < a m"
      using True by (metis zle_diff1_eq order_le_less)
    ultimately show ?thesis using True
      by (intro exI [of _ j']) (simp add: scan_down.simps [of a p j])
  qed
qed

text \<open>The outer loop: everything up to \<open>i\<close> is small, everything from \<open>j\<close> on is large.\<close>

lemma partition_loop_spec:
  assumes "0 \<le> lo" "hi < al_size l" "lo \<le> i" "i < j" "j \<le> hi - 1"
    and "\<And>k. lo \<le> k \<Longrightarrow> k \<le> i \<Longrightarrow> arr l k \<le> arr l (hi - 1)"
    and "\<And>k. j \<le> k \<Longrightarrow> k \<le> hi \<Longrightarrow> arr l (hi - 1) \<le> arr l k"
  shows "\<exists>l' i'. partition_loop l (hi - 1) i j = Some (l', i') \<and> step_on l l' lo hi \<and>
    lo < i' \<and> i' \<le> hi - 1 \<and>
    (\<forall>k. lo \<le> k \<longrightarrow> k < i' \<longrightarrow> arr l' k \<le> arr l' (hi - 1)) \<and>
    (\<forall>k. i' \<le> k \<longrightarrow> k \<le> hi \<longrightarrow> arr l' (hi - 1) \<le> arr l' k)"
  using assms(2-)
proof (induction "nat (j - i)" arbitrary: l i j rule: less_induct)
  case less
  let ?p = "arr l (hi - 1)"
  obtain i' where i': "scan_up (arr l) (hi - 1) i = Some i'" "i < i'" "i' \<le> j" "?p \<le> arr l i'"
      "\<forall>m. i < m \<longrightarrow> m < i' \<longrightarrow> arr l m < ?p"
    using scan_up_spec [of i j "arr l" "hi - 1"] less.prems by fastforce
  obtain j' where j': "scan_down (arr l) (hi - 1) j = Some j'" "j' < j" "i \<le> j'" "arr l j' \<le> ?p"
      "\<forall>m. j' < m \<longrightarrow> m < j \<longrightarrow> ?p < arr l m"
    using scan_down_spec [of i j "arr l" "hi - 1"] less.prems by fastforce
  have small: "arr l k \<le> ?p" if "lo \<le> k" "k < i'" for k
    using that less.prems(5) [of k] i'(5) by (cases "k \<le> i") (auto simp: not_le order_less_imp_le)
  have large: "?p \<le> arr l k" if "j' < k" "k \<le> hi" for k
    using that less.prems(6) [of k] j'(5) by (cases "j \<le> k") (auto simp: not_le order_less_imp_le)
  note unroll = partition_loop.simps [of l "hi - 1" i j]
  show ?case
  proof (cases "i' < j'")
    case False
    have "?p \<le> arr l k" if "i' \<le> k" "k \<le> hi" for k
      using that large [of k] i'(4) False by (cases "k = i'") auto
    then show ?thesis using False small i' j'(1) less.prems(2-4)
      by (intro exI [of _ l] exI [of _ i']) (simp add: unroll)
  next
    case True
    let ?l = "moved l i' j'"
    have ij: "0 \<le> i'" "i' < al_size l" "0 \<le> j'" "j' < al_size l" "j' \<noteq> hi - 1" "i' \<noteq> hi - 1"
      using True i' j' less.prems assms(1) by auto
    note ma = moved_arr [OF ij(1-4)]
    have st: "step_on l ?l lo hi" using moved_step [of lo i' hi j' l] i' j' less.prems assms(1) True by auto
    then have sz: "al_size ?l = al_size l" by (simp add: step_on_def same_list_def)
    have piv: "arr ?l (hi - 1) = ?p" using ij by (simp add: ma)
    have "\<exists>l' k. partition_loop ?l (hi - 1) i' j' = Some (l', k) \<and> step_on ?l l' lo hi \<and>
        lo < k \<and> k \<le> hi - 1 \<and>
        (\<forall>m. lo \<le> m \<longrightarrow> m < k \<longrightarrow> arr l' m \<le> arr l' (hi - 1)) \<and>
        (\<forall>m. k \<le> m \<longrightarrow> m \<le> hi \<longrightarrow> arr l' (hi - 1) \<le> arr l' m)"
    proof (rule less.hyps)
      show "nat (j' - i') < nat (j - i)" using i' j' True by simp
      show "hi < al_size ?l" "lo \<le> i'" "i' < j'" "j' \<le> hi - 1" using sz less.prems i' j' True by auto
      show "arr ?l k \<le> arr ?l (hi - 1)" if "lo \<le> k" "k \<le> i'" for k
        unfolding piv using that small [of k] j'(4) True by (auto simp: ma)
      show "arr ?l (hi - 1) \<le> arr ?l k" if "j' \<le> k" "k \<le> hi" for k
        unfolding piv using that large [of k] i'(4) True by (auto simp: ma)
    qed
    then show ?thesis using st step_on_trans True i'(1) j'(1) by (fastforce simp: unroll)
  qed
qed

lemma sorted_on_join:
  assumes "sorted_on a lo (i - 1)" "sorted_on a (i + 1) hi"
    and "\<And>k. lo \<le> k \<Longrightarrow> k < i \<Longrightarrow> a k \<le> a i" "\<And>k. i < k \<Longrightarrow> k \<le> hi \<Longrightarrow> a i \<le> a k"
  shows "sorted_on a lo hi"
  unfolding sorted_on_def
proof (intro allI impI)
  fix k m assume km: "lo \<le> k" "k \<le> m" "m \<le> hi"
  consider "m < i" | "k < i" "i \<le> m" | "k = i" | "i < k" using km by linarith
  then show "a k \<le> a m"
  proof cases
    case 1
    then show ?thesis using assms(1) km by (simp add: sorted_on_def)
  next
    case 2
    then show ?thesis using assms(3) [of k] assms(4) [of m] km by (cases "m = i") auto
  next
    case 3
    then show ?thesis using assms(4) [of m] km by (cases "m = i") auto
  next
    case 4
    then show ?thesis using assms(2) km by (simp add: sorted_on_def)
  qed
qed

lemma perm_on_other: "perm_on a b lo hi \<Longrightarrow> i < lo \<or> hi < i \<Longrightarrow> b i = a i"
  by (auto simp: perm_on_def)

lemma quickSort_range_spec:
  assumes "0 \<le> lo" "hi < al_size l" "lo \<le> hi + 1"
    and "\<And>j. lo \<le> j \<Longrightarrow> j \<le> hi \<Longrightarrow> fits (arr l) lo (arr l j)"
  shows "\<exists>l'. quickSort_range l lo hi = Some l' \<and> step_on l l' lo hi \<and> sorted_on (arr l') lo hi"
  using assms
proof (induction "nat (hi - lo + 1)" arbitrary: l lo hi rule: less_induct)
  case less
  note unroll = quickSort_range.simps [of l lo hi]
  show ?case
  proof (cases "10 \<le> hi - lo")
    case False
    obtain a where "insertionSort_range l lo hi = l\<lparr>arr := a\<rparr>" "sorted_on a lo hi" "perm_on (arr l) a lo hi"
      using insertionSort_range_spec [OF less.prems] by blast
    then show ?thesis using False by (simp add: unroll step_on_def same_list_def)
  next
    case True
    define l1 where "l1 = choosePivot l lo hi"
    note cp = choosePivot_spec [OF less.prems(1,2) True l1_def]
    have z1: "al_size l1 = al_size l" using cp(1) by (simp add: step_on_def same_list_def)
    have "\<exists>l2 i. partition_loop l1 (hi - 1) lo (hi - 1) = Some (l2, i) \<and> step_on l1 l2 lo hi \<and>
        lo < i \<and> i \<le> hi - 1 \<and>
        (\<forall>k. lo \<le> k \<longrightarrow> k < i \<longrightarrow> arr l2 k \<le> arr l2 (hi - 1)) \<and>
        (\<forall>k. i \<le> k \<longrightarrow> k \<le> hi \<longrightarrow> arr l2 (hi - 1) \<le> arr l2 k)"
    proof (rule partition_loop_spec)
      show "arr l1 k \<le> arr l1 (hi - 1)" if "lo \<le> k" "k \<le> lo" for k using that cp(2) by simp
      show "arr l1 (hi - 1) \<le> arr l1 k" if "hi - 1 \<le> k" "k \<le> hi" for k
      proof -
        have "k = hi \<or> k = hi - 1" using that by linarith
        then show ?thesis using cp(3) by auto
      qed
    qed (use less.prems True z1 in auto)
    then obtain l2 i where p: "partition_loop l1 (hi - 1) lo (hi - 1) = Some (l2, i)" "step_on l1 l2 lo hi"
        "lo < i" "i \<le> hi - 1" "\<And>k. lo \<le> k \<Longrightarrow> k < i \<Longrightarrow> arr l2 k \<le> arr l2 (hi - 1)"
        "\<And>k. i \<le> k \<Longrightarrow> k \<le> hi \<Longrightarrow> arr l2 (hi - 1) \<le> arr l2 k"
      by blast
    have z2: "al_size l2 = al_size l" using p(2) z1 by (simp add: step_on_def same_list_def)
    define l3 where "l3 = moved l2 i (hi - 1)"
    have s3: "step_on l2 l3 lo hi" unfolding l3_def using moved_step [of lo i hi "hi - 1" l2] p(3,4) less.prems(1,2) z2 by simp
    have z3: "al_size l3 = al_size l" using s3 z2 by (simp add: step_on_def same_list_def)
    have a3: "arr l3 = (arr l2)(i := arr l2 (hi - 1), hi - 1 := arr l2 i)"
      unfolding l3_def using p(3,4) less.prems(1,2) z2 by (intro moved_arr) auto
    have left: "arr l3 k \<le> arr l3 i" if "lo \<le> k" "k < i" for k
      using that p(4) p(5) [of k] by (simp add: a3)
    have right: "arr l3 i \<le> arr l3 k" if "i < k" "k \<le> hi" for k
      using that p(4) p(6) [of k] p(6) [of i] by (auto simp: a3)
    have s03: "step_on l l3 lo hi" using cp(1) p(2) s3 step_on_trans by blast
    have fit3: "fits (arr l3) lo (arr l3 k)" if "lo \<le> k" "k \<le> hi" for k
    proof -
      have "arr l3 (lo - 1) = arr l (lo - 1)" using s03 by (simp add: step_on_def perm_on_def)
      then have "fits (arr l3) lo x \<longleftrightarrow> fits (arr l) lo x" for x by (simp add: fits_def)
      then show ?thesis
        using perm_on_all [of "arr l" "arr l3" lo hi "fits (arr l) lo"] s03 less.prems(4) that
        by (simp add: step_on_def)
    qed
    obtain l4 where l4: "quickSort_range l3 lo (i - 1) = Some l4" "step_on l3 l4 lo (i - 1)"
        "sorted_on (arr l4) lo (i - 1)"
      using less.hyps [of "i - 1" lo l3] less.prems(1,2) p(3,4) z3 fit3 by force
    have z4: "al_size l4 = al_size l" using l4(2) z3 by (simp add: step_on_def same_list_def)
    have p4: "perm_on (arr l3) (arr l4) lo (i - 1)" using l4(2) by (simp add: step_on_def)
    have keep4: "arr l4 k = arr l3 k" if "i \<le> k" for k using perm_on_other [OF p4, of k] that by simp
    have left4: "arr l4 k \<le> arr l4 i" if "lo \<le> k" "k < i" for k
      using perm_on_all [OF p4, of "\<lambda>x. x \<le> arr l3 i" k] left that keep4 [of i] by simp
    have fit4: "fits (arr l4) (i + 1) (arr l4 k)" if "i + 1 \<le> k" "k \<le> hi" for k
      using right [of k] that keep4 p(3) less.prems(1) by (simp add: fits_def)
    obtain l5 where l5: "quickSort_range l4 (i + 1) hi = Some l5" "step_on l4 l5 (i + 1) hi"
        "sorted_on (arr l5) (i + 1) hi"
      using less.hyps [of hi "i + 1" l4] less.prems(1,2) p(3,4) z4 fit4 by force
    have p5: "perm_on (arr l4) (arr l5) (i + 1) hi" using l5(2) by (simp add: step_on_def)
    have keep5: "arr l5 k = arr l4 k" if "k \<le> i" for k using perm_on_other [OF p5, of k] that by simp
    have "sorted_on (arr l5) lo hi"
    proof (rule sorted_on_join)
      show "sorted_on (arr l5) lo (i - 1)" using l4(3) keep5 by (simp add: sorted_on_def)
      show "sorted_on (arr l5) (i + 1) hi" by (rule l5(3))
      show "arr l5 k \<le> arr l5 i" if "lo \<le> k" "k < i" for k using left4 that keep5 by simp
      show "arr l5 i \<le> arr l5 k" if "i < k" "k \<le> hi" for k
        using perm_on_all [OF p5, of "\<lambda>x. arr l3 i \<le> x" k] right that keep4 keep5 [of i] by simp
    qed
    moreover have "step_on l3 l4 lo hi" "step_on l4 l5 lo hi"
      using step_on_mono [OF l4(2), of lo hi] step_on_mono [OF l5(2), of lo hi] p(3,4) by simp_all
    then have "step_on l l5 lo hi" using s03 step_on_trans by blast
    moreover have "quickSort_range l lo hi = Some l5"
      using True p(1) l4(1) l5(1) by (simp add: unroll l1_def [symmetric] l3_def [symmetric] Let_def)
    ultimately show ?thesis by blast
  qed
qed

subsection \<open>Lists\<close>

lemma length_elements [simp]: "length (elements l) = nat (al_size l)"
  by (simp add: elements_def)

lemma nth_elements: "k < nat (al_size l) \<Longrightarrow> elements l ! k = arr l (int k)"
  by (simp add: elements_def nth_upto)

lemma mset_elements: "mset (elements l) = range_mset (arr l) 0 (al_size l - 1)"
proof -
  have "mset [0..n] = mset_set {0..n}" for n
    by (metis distinct_upto mset_set_set set_upto)
  then show ?thesis by (simp add: elements_def range_mset_def)
qed

lemma set_elements: "set (elements l) = arr l ` {0..al_size l - 1}"
  by (simp add: elements_def)

lemma sorted_elements: "sorted (elements l) \<longleftrightarrow> sorted_on (arr l) 0 (al_size l - 1)"
proof
  assume s: "sorted (elements l)"
  show "sorted_on (arr l) 0 (al_size l - 1)" unfolding sorted_on_def
  proof (intro allI impI)
    fix i j assume ij: "0 \<le> i" "i \<le> j" "j \<le> al_size l - 1"
    then have "elements l ! nat i \<le> elements l ! nat j" using s by (intro sorted_nth_mono) auto
    then show "arr l i \<le> arr l j" using ij by (simp add: nth_elements)
  qed
qed (auto simp: sorted_on_def sorted_iff_nth_mono nth_elements)

lemma elements_eqI:
  assumes "al_size l' = int (length xs)" "\<And>k. k < length xs \<Longrightarrow> arr l' (int k) = xs ! k"
  shows "elements l' = xs"
  by (rule nth_equalityI) (simp_all add: assms nth_elements)

lemma quickSort_elements:
  assumes "0 \<le> al_size l"
  shows "\<exists>l'. quickSort l = Some l' \<and> al_sorted l' \<and> sorted (elements l') \<and>
    mset (elements l') = mset (elements l) \<and> same_list l l' \<and>
    (\<forall>i. i < 0 \<or> al_size l \<le> i \<longrightarrow> arr l' i = arr l i)"
proof -
  obtain l' where l': "quickSort_range l 0 (al_size l - 1) = Some l'" "step_on l l' 0 (al_size l - 1)"
      "sorted_on (arr l') 0 (al_size l - 1)"
    using quickSort_range_spec [of 0 "al_size l - 1" l] assms by (auto simp: fits_def)
  have z: "al_size l' = al_size l" using l'(2) by (simp add: step_on_def same_list_def)
  have "mset (elements l') = mset (elements l)"
    using l'(2) z by (simp add: mset_elements step_on_def perm_on_def)
  moreover have "elements (l'\<lparr>al_sorted := True\<rparr>) = elements l'" by (simp add: elements_def)
  moreover have "sorted (elements l')" using l'(3) z by (simp add: sorted_elements)
  ultimately show ?thesis
    using l'(1,2) z by (auto simp: quickSort_def step_on_def same_list_def perm_on_def)
qed

lemma binarySearch_found:
  assumes "sorted_on a lo hi" "\<exists>k. lo \<le> k \<and> k \<le> hi \<and> a k = x"
  shows "lo \<le> binarySearch a x lo hi \<and> binarySearch a x lo hi \<le> hi \<and> a (binarySearch a x lo hi) = x"
  using assms
proof (induction a x lo hi rule: binarySearch.induct)
  case (1 a x lo hi)
  obtain k where k: "lo \<le> k" "k \<le> hi" "a k = x" using 1(4) by blast
  show ?case
  proof (cases "lo < hi")
    case False
    then have "lo = hi" "k = lo" using k by auto
    then show ?thesis using k(3) by (simp add: binarySearch.simps)
  next
    case True
    define piv where "piv = (lo + hi) div 2"
    have piv: "lo \<le> piv" "piv \<le> hi" using True by (simp_all add: piv_def)
    note IH = 1(1,2) [OF True refl, folded piv_def]
    have sub: "sorted_on a lo (piv - 1)" "sorted_on a (piv + 1) hi"
      using 1(3) piv unfolding sorted_on_def by auto
    have unroll: "binarySearch a x lo hi = (if x < a piv then binarySearch a x lo (piv - 1)
        else if x > a piv then binarySearch a x (piv + 1) hi else piv)"
      using True by (simp add: binarySearch.simps [of a x lo hi] piv_def)
    consider "x < a piv" | "x > a piv" | "x = a piv" by (rule linorder_cases)
    then show ?thesis
    proof cases
      case 1
      have "k < piv"
        using 1 k piv \<open>sorted_on a lo hi\<close> unfolding sorted_on_def by (metis leD linorder_not_less)
      then show ?thesis using IH(1) 1 sub(1) k piv unroll by force
    next
      case 2
      have "piv < k"
        using 2 k piv \<open>sorted_on a lo hi\<close> unfolding sorted_on_def by (metis leD linorder_not_less)
      then show ?thesis using IH(2) 2 sub(2) k piv unroll by force
    next
      case 3
      then show ?thesis using unroll piv by simp
    qed
  qed
qed

lemma remove_loop_arr:
  "remove_loop n a i = (\<lambda>k. if i \<le> k \<and> k < i + int n then a (k + 1) else a k)"
proof (induction n arbitrary: a i)
  case (Suc n)
  show ?case unfolding remove_loop.simps Suc by (auto simp: fun_eq_iff)
qed (auto simp: fun_eq_iff)

lemma remove_elements:
  assumes "0 \<le> index" "index < al_size l"
  shows "elements (snd (array_list_remove l index)) = take (nat index) (elements l) @ drop (Suc (nat index)) (elements l)"
    and "al_size (snd (array_list_remove l index)) = al_size l - 1"
    and "al_sorted (snd (array_list_remove l index)) = al_sorted l"
proof -
  let ?l = "snd (array_list_remove l index)"
  show sz: "al_size ?l = al_size l - 1" and "al_sorted ?l = al_sorted l"
    using assms by (simp_all add: array_list_remove_def)
  show "elements ?l = take (nat index) (elements l) @ drop (Suc (nat index)) (elements l)"
  proof (rule elements_eqI)
    show "al_size ?l = int (length (take (nat index) (elements l) @ drop (Suc (nat index)) (elements l)))"
      using sz assms by simp
    fix k assume "k < length (take (nat index) (elements l) @ drop (Suc (nat index)) (elements l))"
    then have k: "int k < al_size l - 1" using assms by simp
    show "arr ?l (int k) = (take (nat index) (elements l) @ drop (Suc (nat index)) (elements l)) ! k"
    proof (cases "int k < index")
      case True
      then have "k < nat index" by linarith
      then show ?thesis using True assms k
        by (simp add: array_list_remove_def remove_loop_arr nth_append nth_elements)
    next
      case False
      then have "Suc (nat index) + (k - nat index) = Suc k" "\<not> k < nat index" using assms by simp_all
      then show ?thesis using False assms k
        by (simp add: array_list_remove_def remove_loop_arr nth_append nth_elements add.commute)
    qed
  qed
qed

lemma removeElement_member:
  assumes "al_sorted l" "sorted (elements l)" "x \<in> set (elements l)"
  shows "\<exists>l'. array_list_removeElement l x = (True, l') \<and> mset (elements l') = mset (elements l) - {#x#} \<and>
    sorted (elements l') \<and> al_sorted l' \<and> al_size l' = al_size l - 1"
proof -
  define i where "i = array_list_binarySearch l x"
  have "\<exists>k. 0 \<le> k \<and> k \<le> al_size l - 1 \<and> arr l k = x" using assms(3) by (auto simp: set_elements)
  then have i: "0 \<le> i" "i < al_size l" "arr l i = x"
    using binarySearch_found [of "arr l" 0 "al_size l - 1" x] assms(1,2)
    by (auto simp: i_def array_list_binarySearch_def sorted_elements)
  define l' where "l' = snd (array_list_remove l i)"
  note r = remove_elements [OF i(1,2), folded l'_def]
  have k: "nat i < length (elements l)" "elements l ! nat i = x" using i by (simp_all add: nth_elements)
  have "mset (elements l) = mset (take (nat i) (elements l) @ x # drop (Suc (nat i)) (elements l))"
    using id_take_nth_drop [OF k(1)] k(2) by simp
  then have "mset (elements l') = mset (elements l) - {#x#}" unfolding r(1) by simp
  moreover have "sorted (elements l')"
    using assms(2) id_take_nth_drop [OF k(1)] unfolding r(1) by (metis sorted_append sorted_simps(2) set_drop_subset sorted_wrt_drop sorted_wrt_take in_set_dropD in_set_takeD list.set_intros(2))
  moreover have "array_list_removeElement l x = (True, l')"
    using i by (simp add: array_list_removeElement_def Let_def i_def [symmetric] l'_def)
  ultimately show ?thesis using r assms(1) by auto
qed

lemma add_elements:
  assumes "0 \<le> al_size l"
  shows "elements (array_list_add fresh l x) = elements l @ [x]"
    "al_size (array_list_add fresh l x) = al_size l + 1" "\<not> al_sorted (array_list_add fresh l x)"
proof -
  show sz: "al_size (array_list_add fresh l x) = al_size l + 1" "\<not> al_sorted (array_list_add fresh l x)"
    by (simp_all add: array_list_add_def Let_def reallocate_def)
  show "elements (array_list_add fresh l x) = elements l @ [x]"
  proof (rule elements_eqI)
    fix k assume "k < length (elements l @ [x])"
    then have "int k < al_size l \<or> int k = al_size l" using assms by auto
    then show "arr (array_list_add fresh l x) (int k) = (elements l @ [x]) ! k"
      using assms by (auto simp: array_list_add_def Let_def reallocate_def nth_append nth_elements)
  qed (simp add: sz(1) assms)
qed

subsection \<open>Properties\<close>

text \<open>C28: \<open>quickSort\<close> returns for every list; the result is sorted, has the same elements with
  the same multiplicities, and nothing outside the list's slots is written.\<close>

theorem quickSort_correct:
  assumes "0 \<le> al_size l"
  shows "\<exists>l'. quickSort l = Some l' \<and> al_sorted l' \<and> sorted (elements l') \<and>
    mset (elements l') = mset (elements l) \<and> al_size l' = al_size l \<and> al_capacity l' = al_capacity l \<and>
    (\<forall>i. i < 0 \<or> al_size l \<le> i \<longrightarrow> arr l' i = arr l i)"
  using quickSort_elements [OF assms] unfolding same_list_def by blast

definition list_of :: "int list \<Rightarrow> int array_list" where
  "list_of xs = \<lparr>arr = (\<lambda>i. if 0 \<le> i \<and> i < int (length xs) then xs ! nat i else 0), al_len = 20,
     al_size = int (length xs), al_capacity = 20, al_sorted = False\<rparr>"

lemma elements_list_of: "elements (list_of xs) = xs"
  by (rule elements_eqI) (simp_all add: list_of_def)

theorem quickSort_correct_witness:
  "\<exists>l'. quickSort (list_of [5, 3, 12, 9, 1, 0, 7, 7, 2, 11, 4, 8]) = Some l' \<and>
     elements l' = [0, 1, 2, 3, 4, 5, 7, 7, 8, 9, 11, 12]"
proof -
  obtain l' where l': "quickSort (list_of [5, 3, 12, 9, 1, 0, 7, 7, 2, 11, 4, 8]) = Some l'"
      "sorted (elements l')" "mset (elements l') = mset [5, 3, 12, 9, 1, 0, 7, 7, 2, 11, 4, 8]"
    using quickSort_correct [of "list_of [5, 3, 12, 9, 1, 0, 7, 7, 2, 11, 4, 8]"]
    by (auto simp: elements_list_of) (auto simp: list_of_def)
  have "elements l' = sort [5, 3, 12, 9, 1, 0, 7, 7, 2, 11, 4, 8]"
    by (rule properties_for_sort [symmetric]) (use l' in simp_all)
  then show ?thesis using l'(1) by simp
qed

text \<open>In a sorted list, \<open>removeElement\<close> of an element that is in it removes one occurrence
  of exactly this element and keeps the list sorted.\<close>

theorem removeElement_correct:
  assumes "al_sorted l" "sorted (elements l)" "x \<in> set (elements l)"
  shows "\<exists>l'. array_list_removeElement l x = (True, l') \<and>
    add_mset x (mset (elements l')) = mset (elements l) \<and> sorted (elements l') \<and> al_sorted l'"
  using removeElement_member [OF assms] assms(3) by auto

theorem removeElement_correct_witness:
  "\<exists>l'. array_list_removeElement ((list_of [2, 4, 6, 8])\<lparr>al_sorted := True\<rparr>) 6 = (True, l') \<and>
     mset (elements l') = {#2, 4, 8#}"
proof -
  have e: "elements ((list_of [2, 4, 6, 8])\<lparr>al_sorted := True\<rparr>) = [2, 4, 6, 8]"
    using elements_list_of [of "[2, 4, 6, 8]"] by (simp add: elements_def)
  obtain l' where "array_list_removeElement ((list_of [2, 4, 6, 8])\<lparr>al_sorted := True\<rparr>) 6 = (True, l')"
      "add_mset 6 (mset (elements l')) = {#2, 4, 6, 8#}"
    using removeElement_correct [of "(list_of [2, 4, 6, 8])\<lparr>al_sorted := True\<rparr>" 6] e by auto
  moreover have "{#2, 4, 6, 8 :: int#} = add_mset 6 {#2, 4, 8#}" by (simp add: multiset_eq_iff)
  ultimately show ?thesis by simp
qed

text \<open>The search stops at a range of one slot without looking at it: \<open>removeElement\<close> of an
  element that is not in the list can report success and remove another element.\<close>

theorem removeElement_absent:
  assumes "al_sorted l" "al_size l = 1" "x \<noteq> arr l 0"
  shows "x \<notin> set (elements l) \<and> fst (array_list_removeElement l x) \<and>
    elements (snd (array_list_removeElement l x)) = []"
  using assms remove_elements(1) [of 0 l]
  by (auto simp: set_elements array_list_removeElement_def array_list_binarySearch_def binarySearch.simps
      elements_def)

theorem removeElement_absent_witness:
  "fst (array_list_removeElement ((list_of [5])\<lparr>al_sorted := True\<rparr>) 9)"
  using removeElement_absent [of "(list_of [5])\<lparr>al_sorted := True\<rparr>" 9] by (simp add: list_of_def)

text \<open>\<open>add\<close> appends; but it grows the array one call too late. When the list is full it
  writes the slot behind the end of the array.\<close>

theorem add_when_full:
  assumes "0 \<le> al_size l" "al_size l = al_capacity l" "al_len l = al_capacity l"
  shows "elements (array_list_add fresh l x) = elements l @ [x] \<and>
    al_len (array_list_add fresh l x) = al_len l \<and> al_size (array_list_add fresh l x) = al_len l + 1 \<and>
    arr (array_list_add fresh l x) (al_len l) = x"
  using add_elements [OF assms(1)] assms by (simp add: array_list_add_def)

theorem add_when_full_witness:
  "al_size (array_list_add (\<lambda>_. 0) (list_of [0..19]) 77) = 21"
  using add_when_full [of "list_of [0..19]" "\<lambda>_. 0" 77] by (simp add: list_of_def)

end
