(* ===== verification/Sched.thy ===== *)
theory Sched
  imports Gic Timer ArrayListSort
begin

text \<open>
  Tasks, cores and interrupt handling: \<open>src/include/Task.h\<close>, \<open>src/Task.cpp\<close>,
  \<open>src/include/Core.h\<close>, \<open>src/Core.cpp\<close>, \<open>src/IRQ.cpp\<close>.

  A pointer to a task or to a lock is its address; \<open>tasks\<close> and \<open>locks\<close> are the objects they point
  to. \<open>dev\<close> is the hardware, \<open>fresh\<close> what a newly allocated queue array contains, \<open>core\<close> the core
  that executes (\<open>get_core()\<close>). A lock held by another core means waiting for that core.
\<close>

subsection \<open>Data\<close>

record core_context =
  gpr :: "nat \<Rightarrow> 64 word"
  lr :: "64 word"
  elr_el1 :: "64 word"
  sprs_el1 :: "64 word"
  esr_el1 :: "64 word"
  sp_el0 :: "64 word"
  far_el1 :: "64 word"

record task =
  task_context :: core_context
  t_state :: int
  pid :: nat
  t_priority :: int
  t_ticks :: int
  prio :: nat
  premption :: nat
  t_flags :: nat
  timer :: nat
  sleepingOnLock :: "nat option"
  isCorePinned :: bool
  corePinned :: nat

record kernel =
  tasks :: "nat \<Rightarrow> task"
  locks :: "nat \<Rightarrow> spinlock"
  runningQLock :: "nat \<Rightarrow> spinlock"
  sleepingQLock :: spinlock
  currentTask :: "nat \<Rightarrow> nat"
  runningQ :: "nat \<Rightarrow> nat \<Rightarrow> nat array_list"
  sleepingQ :: "nat array_list"
  freePID :: nat
  nextCore :: nat
  allocations :: nat
  heap_free :: nat
  kernel_con :: console
  kernel_io :: history

definition NUM_CORES :: nat where "NUM_CORES = 4"
definition PRIORITIES :: nat where "PRIORITIES = 21"
definition THREAD_N :: nat where "THREAD_N = 100"

type_synonym 'a krun = "(kernel, 'a) run"

definition current :: "nat \<Rightarrow> kernel \<Rightarrow> task" where
  "current core k = tasks k (currentTask k core)"

definition update_task :: "nat \<Rightarrow> (task \<Rightarrow> task) \<Rightarrow> kernel \<Rightarrow> kernel" where
  "update_task t f k = k\<lparr>tasks := (tasks k)(t := f (tasks k t))\<rparr>"

definition update_queue :: "nat \<Rightarrow> nat \<Rightarrow> nat array_list \<Rightarrow> kernel \<Rightarrow> kernel" where
  "update_queue c q l k = k\<lparr>runningQ := (runningQ k)(c := (runningQ k c)(q := l))\<rparr>"

subsection \<open>Locks, device accesses, printing\<close>

definition spin_running :: "nat \<Rightarrow> nat \<Rightarrow> kernel \<Rightarrow> kernel krun" where
  "spin_running core c k =
     (case spinlock_spin (pid (current core k)) (runningQLock k c) of None \<Rightarrow> waiting
      | Some l \<Rightarrow> ret (k\<lparr>runningQLock := (runningQLock k)(c := l)\<rparr>))"

definition release_running :: "nat \<Rightarrow> kernel \<Rightarrow> kernel" where
  "release_running c k = k\<lparr>runningQLock := (runningQLock k)(c := spinlock_release (runningQLock k c))\<rparr>"

definition spin_sleeping :: "nat \<Rightarrow> kernel \<Rightarrow> kernel krun" where
  "spin_sleeping core k =
     (case spinlock_spin (pid (current core k)) (sleepingQLock k) of None \<Rightarrow> waiting
      | Some l \<Rightarrow> ret (k\<lparr>sleepingQLock := l\<rparr>))"

definition release_sleeping :: "kernel \<Rightarrow> kernel" where
  "release_sleeping k = k\<lparr>sleepingQLock := spinlock_release (sleepingQLock k)\<rparr>"

definition read_time :: "device \<Rightarrow> kernel \<Rightarrow> (nat \<times> kernel) krun" where
  "read_time dev k = thn (of_option (getCounter dev (kernel_io k))) (\<lambda>(c, h). ret (c, k\<lparr>kernel_io := h\<rparr>))"

definition sgi :: "nat \<Rightarrow> nat \<Rightarrow> kernel \<Rightarrow> kernel" where
  "sgi irq cpu k = k\<lparr>kernel_io := send_sgi irq cpu (kernel_io k)\<rparr>"

definition say :: "device \<Rightarrow> string \<Rightarrow> arg list \<Rightarrow> kernel \<Rightarrow> kernel krun" where
  "say dev f args k =
     thn (of_option (print_no_lock dev (kernel_con k) f args (kernel_io k))) (\<lambda>h. ret (k\<lparr>kernel_io := h\<rparr>))"

definition say_locked :: "device \<Rightarrow> nat \<Rightarrow> string \<Rightarrow> arg list \<Rightarrow> kernel \<Rightarrow> kernel krun" where
  "say_locked dev core f args k =
     thn (of_option (print dev (pid (current core k)) (kernel_con k) f args (kernel_io k)))
       (\<lambda>(c, h). ret (k\<lparr>kernel_con := c, kernel_io := h\<rparr>))"

abbreviation nl :: string where "nl \<equiv> [CHR 0x0A]"
abbreviation num :: "nat \<Rightarrow> arg" where "num n \<equiv> Num (int n)"

subsection \<open>Core.cpp\<close>

definition preemptDisable :: "nat \<Rightarrow> kernel \<Rightarrow> kernel" where
  "preemptDisable core k =
     update_task (currentTask k core) (\<lambda>t. t\<lparr>premption := add64 (premption t) 1\<rparr>) k"

definition preemptEnable :: "nat \<Rightarrow> kernel \<Rightarrow> kernel" where
  "preemptEnable core k =
     update_task (currentTask k core) (\<lambda>t. t\<lparr>premption := sub64 (premption t) 1\<rparr>) k"

definition isPreamptable :: "nat \<Rightarrow> kernel \<Rightarrow> bool" where
  "isPreamptable core k \<longleftrightarrow> premption (current core k) \<le> 0"

text \<open>\<open>start\<close> stores the entry point where the firmware's parked core waits for it.\<close>

definition core_start :: "nat \<Rightarrow> nat \<Rightarrow> (nat \<Rightarrow> nat) \<Rightarrow> (nat \<Rightarrow> nat)" where
  "core_start core func mem =
     (if core < 1 \<or> core > 3 then mem
      else if core = 1 then mem(0xffff0000000000E0 := func)
      else if core = 2 then mem(0xffff0000000000E8 := func)
      else mem(0xffff0000000000F0 := func))"

primrec printList :: "device \<Rightarrow> nat \<Rightarrow> nat list \<Rightarrow> kernel \<Rightarrow> kernel krun" where
  "printList dev core [] k = ret k"
| "printList dev core (i # l) k =
     thn (say_locked dev core (''PID: %d'' @ nl) [num (pid (tasks k i))] k) (printList dev core l)"

partial_function (option) spin_until :: "device \<Rightarrow> nat \<Rightarrow> nat \<Rightarrow> kernel \<Rightarrow> kernel krun" where
  "spin_until dev target counter k =
     (if counter < target then thn (read_time dev k) (\<lambda>(counter, k). spin_until dev target counter k)
      else ret k)"

declare spin_until.simps [code]

definition spinms :: "device \<Rightarrow> nat \<Rightarrow> kernel \<Rightarrow> kernel krun" where
  "spinms dev n k =
     thn (read_time dev k) (\<lambda>(counter, k). spin_until dev (add64 counter (n * 1000 mod 2 ^ 32)) counter k)"

text \<open>\<open>panic\<close> halts the other cores, prints its message five times and hangs.\<close>

definition halt_others :: "nat \<Rightarrow> kernel \<Rightarrow> kernel" where
  "halt_others core k = foldl (\<lambda>k i. if core \<noteq> i then sgi 1 i k else k) k [0..<NUM_CORES]"

primrec panic_loop :: "nat \<Rightarrow> device \<Rightarrow> nat \<Rightarrow> string \<Rightarrow> kernel \<Rightarrow> kernel krun" where
  "panic_loop 0 dev core message k = hung k"
| "panic_loop (Suc n) dev core message k =
     thn (say dev (''Panicking on core %d!!!'' @ nl) [num core] k) (\<lambda>k.
     thn (say dev (''Message:'' @ nl @ ''%s'' @ nl) [Str (Some message)] k) (\<lambda>k.
     thn (spinms dev (1000 + core * 10) k) (\<lambda>k.
     panic_loop n dev core message k)))"

definition core_panic :: "device \<Rightarrow> nat \<Rightarrow> string \<Rightarrow> kernel \<Rightarrow> 'a krun" where
  "core_panic dev core message k =
     thn (panic_loop 5 dev core message (halt_others core k)) (\<lambda>_. waiting)"

subsection \<open>Task.cpp\<close>

definition task_init :: "task \<Rightarrow> task" where
  "task_init garbage = garbage\<lparr>premption := 0\<rparr>"

definition pinToCore :: "nat \<Rightarrow> task \<Rightarrow> task" where
  "pinToCore core t = (if core > NUM_CORES - 1 then t else t\<lparr>isCorePinned := True, corePinned := core\<rparr>)"

definition disablePinning :: "task \<Rightarrow> task" where
  "disablePinning t = t\<lparr>isCorePinned := False\<rparr>"

definition isPinnedToCore :: "task \<Rightarrow> bool" where
  "isPinnedToCore t = isCorePinned t"

definition getPinnedCore :: "device \<Rightarrow> nat \<Rightarrow> nat \<Rightarrow> kernel \<Rightarrow> (nat \<times> kernel) krun" where
  "getPinnedCore dev core t k =
     (if \<not> isCorePinned (tasks k t) then core_panic dev core ''Haven't checked if I'm core pinned!!!'' k
      else ret (corePinned (tasks k t), k))"

definition task_sleep :: "nat \<Rightarrow> kernel \<Rightarrow> kernel" where
  "task_sleep core k = sgi SYSTEM_SLEEP_IRQ core k"

definition task_sleep_ms :: "device \<Rightarrow> nat \<Rightarrow> nat \<Rightarrow> kernel \<Rightarrow> kernel krun" where
  "task_sleep_ms dev core ms k =
     (let curr = currentTask k core
      in thn (read_time dev k) (\<lambda>(counter, k).
         ret (task_sleep core (update_task curr (\<lambda>t. t\<lparr>timer := add64 counter (mul64 ms 1000)\<rparr>) k))))"

text \<open>
  \<open>createKernelTask\<close>: \<open>out\<close> and \<open>stack\<close> are what \<open>new\<close> and \<open>alloc\<close> return, \<open>tasks k out\<close> is what the
  memory of the new object holds; the fields that are not set keep it.
\<close>

definition createKernelTask :: "nat \<Rightarrow> nat \<Rightarrow> 64 word \<Rightarrow> kernel \<Rightarrow> kernel" where
  "createKernelTask out stack entryPoint k =
     (let k = update_task out task_init k;
          c = task_context (tasks k out);
          c = c\<lparr>lr := entryPoint, elr_el1 := entryPoint, sp_el0 := of_nat (add64 stack 4096), sprs_el1 := 0x364\<rparr>;
          t = (tasks k out)\<lparr>pid := freePID k\<rparr>;
          k = k\<lparr>freePID := add64 (freePID k) 1\<rparr>;
          c = c\<lparr>gpr := (\<lambda>i. if i < 30 then 0 else gpr c i)\<rparr>;
          t = t\<lparr>isCorePinned := False, corePinned := 0\<rparr>;
          c = c\<lparr>gpr := (gpr c)(10 := of_nat (freePID k))\<rparr>;
          t = t\<lparr>task_context := c, prio := 20, premption := 0, timer := 0\<rparr>
      in k\<lparr>tasks := (tasks k)(out := t)\<rparr>)"

subsection \<open>Choosing a core and a task\<close>

definition copyRegs :: "core_context \<Rightarrow> core_context \<Rightarrow> core_context" where
  "copyRegs s d =
     d\<lparr>gpr := (\<lambda>i. if i < 30 then gpr s i else gpr d i), elr_el1 := elr_el1 s, esr_el1 := esr_el1 s,
       lr := lr s, sprs_el1 := sprs_el1 s, sp_el0 := sp_el0 s\<rparr>"

primrec calcNextCore_loop :: "nat list \<Rightarrow> nat \<Rightarrow> nat \<Rightarrow> nat \<Rightarrow> nat \<Rightarrow> kernel \<Rightarrow> (nat \<times> kernel) krun" where
  "calcNextCore_loop [] core t outCore least k = ret (outCore, k)"
| "calcNextCore_loop (i # is) core t outCore least k =
     thn (spin_running core i k) (\<lambda>k.
       let n = array_list_getSize (runningQ k i (prio (tasks k t)));
           k' = release_running i k
       in if n < least then calcNextCore_loop is core t i n k' else calcNextCore_loop is core t outCore least k')"

definition calcNextCore :: "device \<Rightarrow> nat \<Rightarrow> nat \<Rightarrow> kernel \<Rightarrow> (nat \<times> kernel) krun" where
  "calcNextCore dev core t k =
     (if isPinnedToCore (tasks k t) then getPinnedCore dev core t k
      else calcNextCore_loop [0..<NUM_CORES] core t 0 0xfffffff k)"

text \<open>The search for the next task; \<open>None\<close> leaves the variable \<open>next\<close> unset.\<close>

primrec pick_loop :: "nat list \<Rightarrow> device \<Rightarrow> nat \<Rightarrow> kernel \<Rightarrow> nat option \<times> kernel" where
  "pick_loop [] dev core k = (None, k)"
| "pick_loop (i # is) dev core k =
     (if array_list_getSize (runningQ k core i) > 0 then
        let (lo, h) = mmio_read dev timer_counter_lo (kernel_io k);
            c = unat (hash (ucast lo)) mod array_list_getSize (runningQ k core i)
        in (map_option (arr (runningQ k core i)) (array_list_get (runningQ k core i) (int c)), k\<lparr>kernel_io := h\<rparr>)
      else pick_loop is dev core k)"

text \<open>A task that would resume below the kernel's addresses is reported, and the core hangs.\<close>

definition hang_wrong_address :: "device \<Rightarrow> 64 word \<Rightarrow> kernel \<Rightarrow> 'a krun" where
  "hang_wrong_address dev elr k = thn (say dev (''Returning to wrong address 0x%x'' @ nl) [Num (sint elr)] k) hung"

definition reschedule :: "device \<Rightarrow> nat \<Rightarrow> core_context \<Rightarrow> kernel \<Rightarrow> (core_context \<times> kernel) krun" where
  "reschedule dev core regs k =
     (if isPreamptable core k then
        thn (spin_running core core k) (\<lambda>k.
          let (next, k) = pick_loop [0..<PRIORITIES] dev core k;
              k = release_running core k;
              k = update_task (currentTask k core) (\<lambda>t. t\<lparr>task_context := copyRegs regs (task_context t)\<rparr>) k
          in case next of None \<Rightarrow> undefined_use ''next''
             | Some next \<Rightarrow>
                let regs = copyRegs (task_context (tasks k next)) regs;
                    k = k\<lparr>currentTask := (currentTask k)(core := next)\<rparr>;
                    elr = elr_el1 (task_context (tasks k next))
                in if elr < 0xFFFF000000000000 then hang_wrong_address dev elr k else ret (regs, k))
      else ret (regs, k))"

subsection \<open>Waking tasks\<close>

text \<open>Moving a task that is to be woken from the sleeping queue to a running queue.\<close>

definition wake_up :: "device \<Rightarrow> (int \<Rightarrow> nat) \<Rightarrow> nat \<Rightarrow> nat \<Rightarrow> nat \<Rightarrow> kernel \<Rightarrow> kernel krun" where
  "wake_up dev fresh core t c k =
     thn (spin_running core c k) (\<lambda>k.
       let (found, q) = array_list_removeElement (sleepingQ k) t;
           k = k\<lparr>sleepingQ := q\<rparr>
       in if \<not> found then core_panic dev core (''Not found in sleeping Q.'' @ nl) k
          else ret (release_running c
                 (update_queue c (prio (tasks k t)) (array_list_add fresh (runningQ k c (prio (tasks k t))) t) k)))"

text \<open>The first task whose time has come; the clock is read anew for every task with a timer.\<close>

primrec find_expired :: "nat list \<Rightarrow> device \<Rightarrow> kernel \<Rightarrow> (nat option \<times> kernel) krun" where
  "find_expired [] dev k = ret (None, k)"
| "find_expired (t # ts) dev k =
     (if timer (tasks k t) \<noteq> 0 then
        thn (read_time dev k) (\<lambda>(now, k).
          if timer (tasks k t) \<le> now then ret (Some t, k) else find_expired ts dev k)
      else find_expired ts dev k)"

partial_function (option) wakeUpTimers_loop ::
  "device \<Rightarrow> (int \<Rightarrow> nat) \<Rightarrow> nat \<Rightarrow> kernel \<Rightarrow> kernel krun" where
  "wakeUpTimers_loop dev fresh core k =
     thn (find_expired (elements (sleepingQ k)) dev k) (\<lambda>(found, k).
       case found of None \<Rightarrow> ret k
       | Some t \<Rightarrow>
           thn (calcNextCore dev core t (update_task t (\<lambda>t. t\<lparr>timer := 0\<rparr>) k)) (\<lambda>(c, k).
           thn (wake_up dev fresh core t c (k\<lparr>nextCore := c\<rparr>)) (\<lambda>k.
           wakeUpTimers_loop dev fresh core k)))"

declare wakeUpTimers_loop.simps [code]

definition wakeUpTimers :: "device \<Rightarrow> (int \<Rightarrow> nat) \<Rightarrow> nat \<Rightarrow> kernel \<Rightarrow> kernel krun" where
  "wakeUpTimers dev fresh core k =
     thn (spin_sleeping core k) (\<lambda>k.
     thn (of_option (quickSort (sleepingQ k))) (\<lambda>q.
     thn (wakeUpTimers_loop dev fresh core (k\<lparr>sleepingQ := q\<rparr>)) (\<lambda>k.
     ret (release_sleeping k))))"

definition lock_free :: "kernel \<Rightarrow> nat \<Rightarrow> bool" where
  "lock_free k t = (case sleepingOnLock (tasks k t) of None \<Rightarrow> False | Some l \<Rightarrow> ownerPid (locks k l) = 0)"

partial_function (option) wakeUpLocks_loop ::
  "device \<Rightarrow> (int \<Rightarrow> nat) \<Rightarrow> nat \<Rightarrow> kernel \<Rightarrow> kernel krun" where
  "wakeUpLocks_loop dev fresh core k =
     (case find (lock_free k) (elements (sleepingQ k)) of None \<Rightarrow> ret k
      | Some t \<Rightarrow>
          thn (calcNextCore dev core t (update_task t (\<lambda>t. t\<lparr>sleepingOnLock := None\<rparr>) k)) (\<lambda>(c, k).
          thn (wake_up dev fresh core t c k) (\<lambda>k.
          wakeUpLocks_loop dev fresh core k)))"

declare wakeUpLocks_loop.simps [code]

definition wakeUpLocks :: "device \<Rightarrow> (int \<Rightarrow> nat) \<Rightarrow> nat \<Rightarrow> kernel \<Rightarrow> kernel krun" where
  "wakeUpLocks dev fresh core k =
     thn (spin_sleeping core k) (\<lambda>k.
     thn (of_option (quickSort (sleepingQ k))) (\<lambda>q.
     thn (wakeUpLocks_loop dev fresh core (k\<lparr>sleepingQ := q\<rparr>)) (\<lambda>k.
     ret (release_sleeping k))))"

end
