(* ===== verification/Irq.thy ===== *)
theory Irq
  imports Sched
begin

text \<open>
  The exception vectors of \<open>src/IRQ.cpp\<close>: the interrupt handler, and the handlers of the exceptions
  the kernel does not expect, which report and hang.
\<close>

subsection \<open>The interrupt handler\<close>

text \<open>The handler of \<open>SYSTEM_SLEEP_IRQ\<close>: the current task moves to the sleeping queue.\<close>

definition handle_sleep ::
  "device \<Rightarrow> (int \<Rightarrow> nat) \<Rightarrow> nat \<Rightarrow> core_context \<Rightarrow> kernel \<Rightarrow> (core_context \<times> kernel) krun" where
  "handle_sleep dev fresh core regs k =
     thn (spin_running core core k) (\<lambda>k.
     let p = prio (current core k)
     in thn (of_option (quickSort (runningQ k core p))) (\<lambda>q.
     let (found, q) = array_list_removeElement q (currentTask k core);
         k = release_running core (update_queue core p q k)
     in thn (spin_sleeping core k) (\<lambda>k.
     let k = k\<lparr>sleepingQ := array_list_add fresh (sleepingQ k) (currentTask k core)\<rparr>;
         k = release_sleeping k
     in reschedule dev core regs k)))"

text \<open>The handler of the system timer's compare register 1.\<close>

definition handle_timer ::
  "device \<Rightarrow> (int \<Rightarrow> nat) \<Rightarrow> nat \<Rightarrow> core_context \<Rightarrow> kernel \<Rightarrow> (core_context \<times> kernel) krun" where
  "handle_timer dev fresh core regs k =
     thn (wakeUpTimers dev fresh core k) (\<lambda>k.
     thn (reschedule dev core regs k) (\<lambda>(regs, k).
     let k = sgi SYSTEM_RESCHEDULE_IRQ 1 k;
         k = sgi SYSTEM_RESCHEDULE_IRQ 2 k;
         k = sgi SYSTEM_RESCHEDULE_IRQ 3 k
     in thn (of_option (WaitMicroT1 dev 2000 (kernel_io k))) (\<lambda>h.
        ret (regs, k\<lparr>kernel_io := timer_acknowledge dev 0b0010 h\<rparr>))))"

text \<open>A key press prints the state of the queues, the timer and the memory.\<close>

primrec say_queues :: "nat list \<Rightarrow> device \<Rightarrow> nat \<Rightarrow> kernel \<Rightarrow> kernel krun" where
  "say_queues [] dev i k = ret k"
| "say_queues (p # ps) dev i k =
     (if array_list_getSize (runningQ k i p) > 0 then
        thn (say dev (''RunninQ[%d] Core%d: %d'' @ nl) [num p, num i, num (array_list_getSize (runningQ k i p))] k)
          (say_queues ps dev i)
      else say_queues ps dev i k)"

primrec say_cores :: "nat list \<Rightarrow> device \<Rightarrow> kernel \<Rightarrow> kernel krun" where
  "say_cores [] dev k = ret k"
| "say_cores (i # is) dev k =
     thn (say dev (''#################'' @ nl @ ''Core%d'' @ nl) [num i] k) (\<lambda>k.
     thn (say dev (''Current PID: %d'' @ nl) [num (pid (current i k))] k) (\<lambda>k.
     thn (say_queues [0..<PRIORITIES] dev i k) (\<lambda>k.
     say_cores is dev k)))"

definition say_register :: "device \<Rightarrow> string \<Rightarrow> nat \<Rightarrow> kernel \<Rightarrow> kernel krun" where
  "say_register dev f reg k =
     (let (v, h) = mmio_read dev reg (kernel_io k) in say dev f [Num (uint v)] (k\<lparr>kernel_io := h\<rparr>))"

definition handle_uart :: "device \<Rightarrow> kernel \<Rightarrow> kernel krun" where
  "handle_uart dev k =
     thn (of_option (readChar dev (kernel_io k))) (\<lambda>(car, h).
     thn (say dev (nl @ nl) [] (k\<lparr>kernel_io := h\<rparr>)) (\<lambda>k.
     thn (say_cores [0..<NUM_CORES] dev k) (\<lambda>k.
     thn (say dev (''SleepingQ: %d'' @ nl @ nl) [num (array_list_getSize (sleepingQ k))] k) (\<lambda>k.
     thn (say dev (nl @ nl) [] k) (\<lambda>k.
     thn (read_time dev k) (\<lambda>(counter, k).
     thn (say dev (''System Timer Counter: %x'' @ nl) [num counter] k) (\<lambda>k.
     thn (say_register dev (''System Timer Lo: %x'' @ nl) timer_counter_lo k) (\<lambda>k.
     thn (say_register dev (''System Timer Hi: %x'' @ nl) timer_counter_hi k) (\<lambda>k.
     thn (say_register dev (''System Timer Compare0: %x'' @ nl) timer_compare0 k) (\<lambda>k.
     thn (say dev (''Allocations: %d'' @ nl) [num (allocations k)] k) (\<lambda>k.
     thn (say dev (''Free MEM: %d'' @ nl) [num (heap_free k)] k) (\<lambda>k.
     say dev (nl @ nl) [] k))))))))))))"

definition crlf :: string where "crlf = [CHR 0x0D, CHR 0x0A]"

definition dispatch ::
  "device \<Rightarrow> (int \<Rightarrow> nat) \<Rightarrow> nat \<Rightarrow> nat \<Rightarrow> core_context \<Rightarrow> kernel \<Rightarrow> (core_context \<times> kernel) krun" where
  "dispatch dev fresh irq core regs k =
     (if irq = SYSTEM_TIMER_IRQ_1 then handle_timer dev fresh core regs k
      else if irq = SYSTEM_RESCHEDULE_IRQ then reschedule dev core regs k
      else if irq = SYS_TIMER_IRQ_3 then
        thn (say dev (''Received Timer interrupt 3 on Core%d'' @ nl) [num core] k) (\<lambda>k.
        ret (regs, k\<lparr>kernel_io := timer_acknowledge dev 0b1000 (kernel_io k)\<rparr>))
      else if irq = SYSTEM_WAKEUP_ALL then
        thn (wakeUpTimers dev fresh core k) (\<lambda>k.
        thn (wakeUpLocks dev fresh core k) (\<lambda>k. ret (regs, k)))
      else if irq = SYSTEM_SLEEP_IRQ then handle_sleep dev fresh core regs k
      else if irq = SYSTEM_UARTRX_IRQ then thn (handle_uart dev k) (\<lambda>k. ret (regs, k))
      else if irq = SYSTEM_HALT_IRQ then hung k
      else if irq = SYSTEM_SPOURIOUS_IRQ then
        thn (say dev (''SPOURIOUS INT RECEIVED Core%d: %x'' @ crlf) [num core, num irq] k) (\<lambda>k. ret (regs, k))
      else
        thn (say dev (''Unknown Interrupt %d on  Core%d'' @ crlf) [num irq, num core] k) (\<lambda>k. ret (regs, k)))"

definition irq_handler_spx ::
  "device \<Rightarrow> (int \<Rightarrow> nat) \<Rightarrow> nat \<Rightarrow> core_context \<Rightarrow> kernel \<Rightarrow> (core_context \<times> kernel) krun" where
  "irq_handler_spx dev fresh core regs k =
     (let (irq_ack_reg, h) = mmio_read dev GICC_IAR (kernel_io k);
          irq = unat (irq_ack_reg AND 0x3FF)
      in thn (dispatch dev fresh irq core regs (k\<lparr>kernel_io := h\<rparr>)) (\<lambda>(regs, k).
         ret (regs, k\<lparr>kernel_io := mmio_write GICC_EOIR (of_nat irq) (kernel_io k)\<rparr>)))"

definition irq_handler_sp0 ::
  "device \<Rightarrow> (int \<Rightarrow> nat) \<Rightarrow> nat \<Rightarrow> core_context \<Rightarrow> kernel \<Rightarrow> (core_context \<times> kernel) krun" where
  "irq_handler_sp0 dev fresh core regs k = irq_handler_spx dev fresh core regs k"

subsection \<open>Synchronous exceptions\<close>

primrec print_gprs :: "nat list \<Rightarrow> device \<Rightarrow> core_context \<Rightarrow> kernel \<Rightarrow> kernel krun" where
  "print_gprs [] dev regs k = ret k"
| "print_gprs (i # is) dev regs k =
     thn (say dev (''x%d=%x'' @ nl) [num i, Num (sint (gpr regs i))] k) (print_gprs is dev regs)"

definition printRegs :: "device \<Rightarrow> nat \<Rightarrow> core_context \<Rightarrow> kernel \<Rightarrow> kernel krun" where
  "printRegs dev core regs k =
     thn (print_gprs [0..<30] dev regs k) (\<lambda>k.
     thn (say dev (''SPSR=%x'' @ nl @ ''ELR=%x'' @ nl @ ''ESR=%x'' @ nl @ ''LR=%x'' @ nl @ ''SP_EL0=%x'' @ nl @
            ''FAR_EL1=%x'' @ nl)
            [Num (sint (sprs_el1 regs)), Num (sint (elr_el1 regs)), Num (sint (esr_el1 regs)),
             Num (sint (lr regs)), Num (sint (sp_el0 regs)), Num (sint (far_el1 regs))] k) (\<lambda>k.
     thn (say dev (''Current PID: %d'' @ nl) [num (pid (current core k))] k) (\<lambda>k.
     thn (say dev (''Allocation: %d'' @ nl) [num (allocations k)] k) (\<lambda>k.
     say dev (''Free MEM: %d'' @ nl) [num (heap_free k)] k))))"

primrec sync_loop :: "nat \<Rightarrow> string \<Rightarrow> device \<Rightarrow> nat \<Rightarrow> core_context \<Rightarrow> kernel \<Rightarrow> kernel krun" where
  "sync_loop 0 level dev core regs k = hung k"
| "sync_loop (Suc n) level dev core regs k =
     thn (say dev (''Received SYNC Exception on core %d!!!'' @ nl) [num core] k) (\<lambda>k.
     thn (say dev level [] k) (\<lambda>k.
     thn (printRegs dev core regs k) (\<lambda>k.
     thn (spinms dev (1000 + core * 10) k) (\<lambda>k.
     sync_loop n level dev core regs k))))"

definition sync_handler_sp0 :: "device \<Rightarrow> nat \<Rightarrow> core_context \<Rightarrow> kernel \<Rightarrow> kernel krun" where
  "sync_handler_sp0 dev core regs k =
     sync_loop 5 (''Current Level with SP0'' @ nl) dev core regs (halt_others core k)"

definition sync_handler_spx :: "device \<Rightarrow> nat \<Rightarrow> core_context \<Rightarrow> kernel \<Rightarrow> kernel krun" where
  "sync_handler_spx dev core regs k =
     sync_loop 10 (''Current Level with SPX'' @ nl) dev core regs (halt_others core k)"

subsection \<open>The other vectors\<close>

text \<open>All of them print two lines and hang.\<close>

definition report_and_hang :: "string \<Rightarrow> string \<Rightarrow> device \<Rightarrow> nat \<Rightarrow> kernel \<Rightarrow> kernel krun" where
  "report_and_hang kind level dev core k =
     thn (say_locked dev core (''Received '' @ kind @ '' Exception on core %d!!!'' @ nl) [num core] k) (\<lambda>k.
     thn (say_locked dev core (level @ nl) [] k) hung)"

definition fiq_handler_sp0 :: "device \<Rightarrow> nat \<Rightarrow> kernel \<Rightarrow> kernel krun" where
  "fiq_handler_sp0 = report_and_hang ''FIQ'' ''Current Level with SP0''"

definition serror_handler_sp0 :: "device \<Rightarrow> nat \<Rightarrow> kernel \<Rightarrow> kernel krun" where
  "serror_handler_sp0 = report_and_hang ''SEError'' ''Current Level with SP0''"

definition fiq_handler_spx :: "device \<Rightarrow> nat \<Rightarrow> kernel \<Rightarrow> kernel krun" where
  "fiq_handler_spx = report_and_hang ''FIQ'' ''Current Level with SPX''"

definition serror_handler_spx :: "device \<Rightarrow> nat \<Rightarrow> kernel \<Rightarrow> kernel krun" where
  "serror_handler_spx = report_and_hang ''SEError'' ''Current Level with SPX''"

definition irq_handler_lower_aarch64 :: "device \<Rightarrow> nat \<Rightarrow> kernel \<Rightarrow> kernel krun" where
  "irq_handler_lower_aarch64 = report_and_hang ''IRQ'' ''Lower level with aarch64''"

definition sync_handler_lower_aarch64 :: "device \<Rightarrow> nat \<Rightarrow> kernel \<Rightarrow> kernel krun" where
  "sync_handler_lower_aarch64 = report_and_hang ''SYNC'' ''Lower level with aarch64''"

definition fiq_handler_lower_aarch64 :: "device \<Rightarrow> nat \<Rightarrow> kernel \<Rightarrow> kernel krun" where
  "fiq_handler_lower_aarch64 = report_and_hang ''FIQ'' ''Lower level with aarch64''"

definition serror_handler_lower_aarch64 :: "device \<Rightarrow> nat \<Rightarrow> kernel \<Rightarrow> kernel krun" where
  "serror_handler_lower_aarch64 = report_and_hang ''SEError'' ''Lower level with aarch64''"

definition irq_handler_lower_aarch32 :: "device \<Rightarrow> nat \<Rightarrow> kernel \<Rightarrow> kernel krun" where
  "irq_handler_lower_aarch32 = report_and_hang ''IRQ'' ''Lower level with aarch32''"

definition sync_handler_lower_aarch32 :: "device \<Rightarrow> nat \<Rightarrow> kernel \<Rightarrow> kernel krun" where
  "sync_handler_lower_aarch32 = report_and_hang ''SYNC'' ''Lower level with aarch32''"

definition fiq_handler_lower_aarch32 :: "device \<Rightarrow> nat \<Rightarrow> kernel \<Rightarrow> kernel krun" where
  "fiq_handler_lower_aarch32 = report_and_hang ''FIQ'' ''Lower level with aarch32''"

definition serror_handler_lower_aarch32 :: "device \<Rightarrow> nat \<Rightarrow> kernel \<Rightarrow> kernel krun" where
  "serror_handler_lower_aarch32 = report_and_hang ''SEError'' ''Lower level with aarch32''"

end
