(* ===== verification/SchedSpec.thy ===== *)
theory SchedSpec
  imports Irq
begin

text \<open>
  The scheduler: which core a woken task goes to, which task runs next, what is saved and restored
  when the running task changes, and that waking and sleeping move tasks between the queues and
  never lose or duplicate one.
\<close>

subsection \<open>The contract of the queues\<close>

text \<open>
  The scheduler needs a queue that can be sorted, from which a member can be removed once it is
  sorted, and to which a task can be added; sorted stays sorted when a member is removed.
\<close>

locale task_queue =
  fixes valid :: "'q \<Rightarrow> bool" and ready :: "'q \<Rightarrow> bool" and contents :: "'q \<Rightarrow> 'a multiset"
    and sort_queue :: "'q \<Rightarrow> 'q option" and remove_from :: "'q \<Rightarrow> 'a \<Rightarrow> bool \<times> 'q" and add_to :: "'q \<Rightarrow> 'a \<Rightarrow> 'q"
  assumes sort_law: "valid q \<Longrightarrow> \<exists>q'. sort_queue q = Some q' \<and> valid q' \<and> ready q' \<and> contents q' = contents q"
    and remove_law: "valid q \<Longrightarrow> ready q \<Longrightarrow> x \<in># contents q \<Longrightarrow>
      \<exists>q'. remove_from q x = (True, q') \<and> valid q' \<and> ready q' \<and> contents q' = contents q - {#x#}"
    and add_law: "valid q \<Longrightarrow> valid (add_to q x) \<and> contents (add_to q x) = contents q + {#x#}"
begin

lemma transfer:
  assumes "valid q" "ready q" "valid r" "x \<in># contents q"
  shows "\<exists>q'. remove_from q x = (True, q') \<and> valid q' \<and> ready q' \<and> valid (add_to r x) \<and>
    contents q' + contents (add_to r x) = contents q + contents r"
proof -
  obtain q' where q': "remove_from q x = (True, q')" "valid q'" "ready q'" "contents q' = contents q - {#x#}"
    using remove_law [OF assms(1,2,4)] by blast
  have "contents q' + contents (add_to r x) = contents q + contents r"
    using q'(4) assms(4) add_law [OF assms(3)] by simp
  then show ?thesis using q' add_law [OF assms(3)] by blast
qed

lemma sorted_transfer:
  assumes "valid q" "valid r" "x \<in># contents q"
  shows "\<exists>q1 q'. sort_queue q = Some q1 \<and> remove_from q1 x = (True, q') \<and> valid q' \<and> valid (add_to r x) \<and>
    contents q' + contents (add_to r x) = contents q + contents r"
proof -
  obtain q1 where "sort_queue q = Some q1" "valid q1" "ready q1" "contents q1 = contents q"
    using sort_law [OF assms(1)] by blast
  then show ?thesis using transfer [of q1 r x] assms(2,3) by auto
qed

end

definition queue_ok :: "nat array_list \<Rightarrow> bool" where
  "queue_ok l \<longleftrightarrow> 0 \<le> al_size l"

definition queue_ready :: "nat array_list \<Rightarrow> bool" where
  "queue_ready l \<longleftrightarrow> al_sorted l \<and> sorted (elements l)"

definition members :: "nat array_list \<Rightarrow> nat multiset" where
  "members l = mset (elements l)"

lemma elements_empty_size: "0 \<le> al_size l \<Longrightarrow> length (elements l) = nat (al_size l)"
  by (simp add: elements_def)

interpretation aq: task_queue queue_ok queue_ready members quickSort array_list_removeElement "array_list_add fresh"
  for fresh
proof unfold_locales
  fix q :: "nat array_list" assume "queue_ok q"
  then show "\<exists>q'. quickSort q = Some q' \<and> queue_ok q' \<and> queue_ready q' \<and> members q' = members q"
    using quickSort_elements [of q] by (auto simp: queue_ok_def queue_ready_def members_def same_list_def)
next
  fix q :: "nat array_list" and x assume q: "queue_ok q" "queue_ready q" "x \<in># members q"
  then obtain l' where l': "array_list_removeElement q x = (True, l')" "mset (elements l') = mset (elements q) - {#x#}"
      "sorted (elements l')" "al_sorted l'" "al_size l' = al_size q - 1"
    using removeElement_member [of q x] by (auto simp: queue_ready_def members_def)
  have "0 < al_size q"
  proof (rule ccontr)
    assume "\<not> 0 < al_size q"
    then have "elements q = []" by (simp add: elements_def)
    then show False using q(3) by (simp add: members_def)
  qed
  then show "\<exists>q'. array_list_removeElement q x = (True, q') \<and> queue_ok q' \<and> queue_ready q' \<and>
      members q' = members q - {#x#}"
    using l' by (auto simp: queue_ok_def queue_ready_def members_def)
next
  fix q :: "nat array_list" and x and fresh :: "int \<Rightarrow> nat" assume "queue_ok q"
  then show "queue_ok (array_list_add fresh q x) \<and> members (array_list_add fresh q x) = members q + {#x#}"
    using add_elements [of q fresh x] by (simp add: queue_ok_def members_def)
qed

subsection \<open>Well-formed scheduler states\<close>

definition unlocked :: "(nat \<Rightarrow> spinlock) \<Rightarrow> bool" where
  "unlocked rl \<longleftrightarrow> (\<forall>c < NUM_CORES. lock_val (rl c) = 0)"

definition queued_tasks :: "kernel \<Rightarrow> nat set" where
  "queued_tasks k = set (elements (sleepingQ k)) \<union>
     (\<Union>c < NUM_CORES. \<Union>q < PRIORITIES. set (elements (runningQ k c q)))"

definition task_ok :: "task \<Rightarrow> bool" where
  "task_ok t \<longleftrightarrow> prio t < PRIORITIES \<and> (isCorePinned t \<longrightarrow> corePinned t < NUM_CORES)"

definition sched_ok :: "kernel \<Rightarrow> bool" where
  "sched_ok k \<longleftrightarrow> unlocked (runningQLock k) \<and> lock_val (sleepingQLock k) = 0 \<and> queue_ok (sleepingQ k) \<and>
     (\<forall>c < NUM_CORES. \<forall>q < PRIORITIES. queue_ok (runningQ k c q)) \<and>
     (\<forall>t \<in> queued_tasks k. task_ok (tasks k t))"

definition all_tasks :: "kernel \<Rightarrow> nat multiset" where
  "all_tasks k = members (sleepingQ k) +
     (\<Sum>c \<in> {..<NUM_CORES}. \<Sum>q \<in> {..<PRIORITIES}. members (runningQ k c q))"

lemma unlocked_spin:
  assumes "unlocked (runningQLock k)" "c < NUM_CORES"
  shows "\<exists>rl. spin_running core c k = ret (k\<lparr>runningQLock := rl\<rparr>) \<and>
    unlocked (rl(c := spinlock_release (rl c)))"
  using assms
  by (auto simp: spin_running_def spinlock_spin_def unlocked_def release_running_def spinlock_release_def
      SPLCK_UNLOCKED_def)

subsection \<open>Which core a task goes to\<close>

definition load :: "kernel \<Rightarrow> nat \<Rightarrow> nat \<Rightarrow> nat" where
  "load k c q = array_list_getSize (runningQ k c q)"

lemma calcNextCore_loop_spec:
  assumes "unlocked (runningQLock k)" "set is \<subseteq> {..<NUM_CORES}"
  shows "\<exists>c rl. calcNextCore_loop is core t out best k = ret (c, k\<lparr>runningQLock := rl\<rparr>) \<and> unlocked rl \<and>
    (let n = (\<lambda>i. load k i (prio (tasks k t))) in
      (c = out \<and> (\<forall>i \<in> set is. best \<le> n i)) \<or> (c \<in> set is \<and> n c < best \<and> (\<forall>i \<in> set is. n c \<le> n i)))"
  using assms
proof (induction "is" arbitrary: k out best)
  case Nil
  then show ?case by (intro exI [of _ out] exI [of _ "runningQLock k"]) simp
next
  case (Cons i "is")
  let ?n = "\<lambda>i. load k i (prio (tasks k t))"
  obtain rl where rl: "spin_running core i k = ret (k\<lparr>runningQLock := rl\<rparr>)"
      "unlocked (rl(i := spinlock_release (rl i)))"
    using unlocked_spin [of k i core] Cons.prems by auto
  define rl' where "rl' = rl(i := spinlock_release (rl i))"
  have rel: "release_running i (k\<lparr>runningQLock := rl\<rparr>) = k\<lparr>runningQLock := rl'\<rparr>"
    by (simp add: release_running_def rl'_def)
  have u: "unlocked rl'" using rl(2) by (simp add: rl'_def)
  let ?out = "if ?n i < best then i else out" and ?best = "if ?n i < best then ?n i else best"
  have "calcNextCore_loop (i # is) core t out best k = calcNextCore_loop is core t ?out ?best (k\<lparr>runningQLock := rl'\<rparr>)"
    using rl(1) rel by (simp add: Let_def load_def)
  moreover obtain c rl2 where "calcNextCore_loop is core t ?out ?best (k\<lparr>runningQLock := rl'\<rparr>) =
      ret (c, (k\<lparr>runningQLock := rl'\<rparr>)\<lparr>runningQLock := rl2\<rparr>)" "unlocked rl2"
      "(c = ?out \<and> (\<forall>i \<in> set is. ?best \<le> ?n i)) \<or> (c \<in> set is \<and> ?n c < ?best \<and> (\<forall>i \<in> set is. ?n c \<le> ?n i))"
    using Cons.IH [of "k\<lparr>runningQLock := rl'\<rparr>" ?out ?best] Cons.prems(2) u
    by (auto simp: Let_def load_def)
  ultimately show ?case
    by (intro exI [of _ c] exI [of _ rl2]) (auto simp: Let_def split: if_splits)
qed

lemma calcNextCore_spec:
  assumes "unlocked (runningQLock k)" "isCorePinned (tasks k t) \<longrightarrow> corePinned (tasks k t) < NUM_CORES"
  shows "\<exists>c rl. calcNextCore dev core t k = ret (c, k\<lparr>runningQLock := rl\<rparr>) \<and> unlocked rl \<and> c < NUM_CORES \<and>
    (isCorePinned (tasks k t) \<longrightarrow> c = corePinned (tasks k t)) \<and>
    (\<not> isCorePinned (tasks k t) \<longrightarrow> (\<forall>i < NUM_CORES. load k i (prio (tasks k t)) < 0xfffffff \<longrightarrow>
       load k c (prio (tasks k t)) \<le> load k i (prio (tasks k t))))"
proof (cases "isCorePinned (tasks k t)")
  case True
  then show ?thesis using assms
    by (intro exI [of _ "corePinned (tasks k t)"] exI [of _ "runningQLock k"])
      (simp add: calcNextCore_def isPinnedToCore_def getPinnedCore_def)
next
  case False
  have sub: "set [0..<NUM_CORES] \<subseteq> {..<NUM_CORES}" by auto
  obtain c rl where c: "calcNextCore_loop [0..<NUM_CORES] core t 0 0xfffffff k = ret (c, k\<lparr>runningQLock := rl\<rparr>)"
    "unlocked rl" and d: "let n = (\<lambda>i. load k i (prio (tasks k t))) in
      (c = 0 \<and> (\<forall>i \<in> set [0..<NUM_CORES]. 0xfffffff \<le> n i)) \<or>
      (c \<in> set [0..<NUM_CORES] \<and> n c < 0xfffffff \<and> (\<forall>i \<in> set [0..<NUM_CORES]. n c \<le> n i))"
    using calcNextCore_loop_spec [OF assms(1) sub, of core t 0 "0xfffffff"] by blast
  have "c < NUM_CORES" using d by (auto simp: Let_def NUM_CORES_def)
  moreover have "load k c (prio (tasks k t)) \<le> load k i (prio (tasks k t))"
    if "i < NUM_CORES" "load k i (prio (tasks k t)) < 0xfffffff" for i
  proof -
    have "i \<in> set [0..<NUM_CORES]" using that(1) by simp
    with d that(2) show ?thesis unfolding Let_def by (meson not_less)
  qed
  ultimately show ?thesis using c False
    by (intro exI [of _ c] exI [of _ rl]) (simp add: calcNextCore_def isPinnedToCore_def)
qed

text \<open>C27: a task that is pinned goes to its core; any other goes to a core with the fewest tasks of its
  priority; the queues are not touched and the locks are free again.\<close>

theorem calcNextCore_correct:
  assumes "sched_ok k" "t \<in> queued_tasks k"
  shows "\<exists>c rl. calcNextCore dev core t k = ret (c, k\<lparr>runningQLock := rl\<rparr>) \<and> unlocked rl \<and> c < NUM_CORES \<and>
    (isCorePinned (tasks k t) \<longrightarrow> c = corePinned (tasks k t)) \<and>
    (\<not> isCorePinned (tasks k t) \<longrightarrow> (\<forall>i < NUM_CORES. load k i (prio (tasks k t)) < 0xfffffff \<longrightarrow>
       load k c (prio (tasks k t)) \<le> load k i (prio (tasks k t))))"
  by (rule calcNextCore_spec) (use assms in \<open>auto simp: sched_ok_def task_ok_def\<close>)

subsection \<open>Waking\<close>

text \<open>
  What waking a list \<open>ws\<close> of tasks, each with the core it goes to, does to the scheduler: \<open>reset\<close> is
  what happens to the woken tasks themselves.
\<close>

definition woken :: "(task \<Rightarrow> task) \<Rightarrow> (nat \<times> nat) list \<Rightarrow> kernel \<Rightarrow> kernel \<Rightarrow> bool" where
  "woken reset ws k k' \<longleftrightarrow>
     members (sleepingQ k') + mset (map fst ws) = members (sleepingQ k) \<and>
     (\<forall>c q. elements (runningQ k' c q) =
        elements (runningQ k c q) @ map fst (filter (\<lambda>(t, c'). c' = c \<and> prio (tasks k t) = q) ws)) \<and>
     tasks k' = (\<lambda>t. if t \<in> fst ` set ws then reset (tasks k t) else tasks k t) \<and>
     (\<forall>(t, c) \<in> set ws. c < NUM_CORES \<and> (isCorePinned (tasks k t) \<longrightarrow> c = corePinned (tasks k t))) \<and>
     currentTask k' = currentTask k \<and> locks k' = locks k \<and> sleepingQLock k' = sleepingQLock k \<and>
     freePID k' = freePID k \<and> kernel_con k' = kernel_con k"

text \<open>A reset that does not touch what decides where a task goes.\<close>

definition keeps_place :: "(task \<Rightarrow> task) \<Rightarrow> bool" where
  "keeps_place f \<longleftrightarrow> (\<forall>t. prio (f t) = prio t \<and> isCorePinned (f t) = isCorePinned t \<and> corePinned (f t) = corePinned t \<and>
     premption (f t) = premption t \<and> task_context (f t) = task_context t \<and> f (f t) = f t)"

definition ready_ok :: "kernel \<Rightarrow> bool" where
  "ready_ok k \<longleftrightarrow> unlocked (runningQLock k) \<and> queue_ok (sleepingQ k) \<and> queue_ready (sleepingQ k) \<and>
     (\<forall>c < NUM_CORES. \<forall>q < PRIORITIES. queue_ok (runningQ k c q)) \<and>
     (\<forall>t \<in> set (elements (sleepingQ k)). task_ok (tasks k t))"

lemma task_ok_reset: "keeps_place f \<Longrightarrow> task_ok (f t) = task_ok t"
  by (simp add: keeps_place_def task_ok_def)

lemma woken_refl: "woken reset [] k k"
  by (simp add: woken_def)

lemma woken_trans:
  assumes "keeps_place f" "woken f ws k k1" "woken f ws' k1 k2"
  shows "woken f (ws @ ws') k k2"
proof -
  have p: "prio (tasks k1 t) = prio (tasks k t)" "isCorePinned (tasks k1 t) = isCorePinned (tasks k t)"
    "corePinned (tasks k1 t) = corePinned (tasks k t)" for t
    using assms(1,2) by (simp_all add: woken_def keeps_place_def)
  have idem: "f (f t) = f t" for t using assms(1) by (simp add: keeps_place_def)
  show ?thesis unfolding woken_def
  proof (intro conjI allI)
    show "members (sleepingQ k2) + mset (map fst (ws @ ws')) = members (sleepingQ k)"
    proof -
      have a: "members (sleepingQ k1) + mset (map fst ws) = members (sleepingQ k)"
        and b: "members (sleepingQ k2) + mset (map fst ws') = members (sleepingQ k1)"
        using assms(2,3) by (simp_all add: woken_def)
      show ?thesis by (simp add: a [symmetric] b [symmetric])
    qed
    fix c q
    have "elements (runningQ k2 c q) = elements (runningQ k1 c q) @
        map fst (filter (\<lambda>(t, c'). c' = c \<and> prio (tasks k1 t) = q) ws')"
      using assms(3) by (simp add: woken_def)
    moreover have "elements (runningQ k1 c q) = elements (runningQ k c q) @
        map fst (filter (\<lambda>(t, c'). c' = c \<and> prio (tasks k t) = q) ws)"
      using assms(2) by (simp add: woken_def)
    ultimately show "elements (runningQ k2 c q) = elements (runningQ k c q) @
        map fst (filter (\<lambda>(t, c'). c' = c \<and> prio (tasks k t) = q) (ws @ ws'))"
      by (simp add: p)
    have "tasks k1 = (\<lambda>t. if t \<in> fst ` set ws then f (tasks k t) else tasks k t)"
      "tasks k2 = (\<lambda>t. if t \<in> fst ` set ws' then f (tasks k1 t) else tasks k1 t)"
      using assms(2,3) by (simp_all add: woken_def)
    then show "tasks k2 = (\<lambda>t. if t \<in> fst ` set (ws @ ws') then f (tasks k t) else tasks k t)"
      by (auto simp: fun_eq_iff idem)
    have "\<forall>(t, c) \<in> set ws. c < NUM_CORES \<and> (isCorePinned (tasks k t) \<longrightarrow> c = corePinned (tasks k t))"
      using assms(2) unfolding woken_def by (elim conjE)
    moreover have "\<forall>(t, c) \<in> set ws'. c < NUM_CORES \<and> (isCorePinned (tasks k t) \<longrightarrow> c = corePinned (tasks k t))"
      using assms(3) unfolding woken_def p by (elim conjE)
    ultimately show "\<forall>(t, c) \<in> set (ws @ ws'). c < NUM_CORES \<and> (isCorePinned (tasks k t) \<longrightarrow> c = corePinned (tasks k t))"
      by auto
  qed (use assms(2,3) in \<open>simp_all add: woken_def\<close>)
qed

lemma woken_ready:
  assumes "ready_ok k" "keeps_place f" "woken f ws k k'" "unlocked (runningQLock k')"
    "queue_ok (sleepingQ k')" "queue_ready (sleepingQ k')"
    "\<forall>c < NUM_CORES. \<forall>q < PRIORITIES. queue_ok (runningQ k' c q)"
  shows "ready_ok k'"
proof -
  have "task_ok (tasks k' t)" if "t \<in> set (elements (sleepingQ k'))" for t
  proof -
    have "members (sleepingQ k') + mset (map fst ws) = members (sleepingQ k)"
      using assms(3) by (simp add: woken_def)
    then have "members (sleepingQ k') \<subseteq># members (sleepingQ k)" by (metis mset_subset_eq_add_left)
    then have "t \<in># members (sleepingQ k)" using that by (metis members_def mset_subset_eqD set_mset_mset)
    then have "task_ok (tasks k t)" using assms(1) by (simp add: ready_ok_def members_def)
    then show ?thesis using assms(2,3) by (simp add: woken_def task_ok_reset)
  qed
  then show ?thesis using assms by (simp add: ready_ok_def)
qed

text \<open>One task: reset, choice of the core, transfer. The call always succeeds, because the sleeping queue
  is sorted and the task is in it.\<close>

lemma wake_one:
  assumes k: "ready_ok k" and t: "t \<in> set (elements (sleepingQ k))" and f: "keeps_place f"
  shows "\<exists>c k1. calcNextCore dev core t (update_task t f k) = ret (c, k1) \<and> c < NUM_CORES \<and>
    (\<forall>n. \<exists>k2. wake_up dev fresh core t c (k1\<lparr>nextCore := n\<rparr>) = ret k2 \<and> woken f [(t, c)] k k2 \<and> ready_ok k2 \<and>
       al_size (sleepingQ k2) = al_size (sleepingQ k) - 1 \<and> kernel_io k2 = kernel_io k)"
proof -
  let ?k = "update_task t f k" and ?p = "prio (tasks k t)"
  have tk: "task_ok (tasks k t)" using k t by (simp add: ready_ok_def)
  have fp: "prio (f u) = prio u" "isCorePinned (f u) = isCorePinned u" "corePinned (f u) = corePinned u" for u
    using f by (simp_all add: keeps_place_def)
  have u: "unlocked (runningQLock ?k)" using k by (simp add: ready_ok_def update_task_def)
  obtain c rl where c: "calcNextCore dev core t ?k = ret (c, ?k\<lparr>runningQLock := rl\<rparr>)" "unlocked rl" "c < NUM_CORES"
      "isCorePinned (tasks k t) \<longrightarrow> c = corePinned (tasks k t)"
    using calcNextCore_spec [OF u, of t dev core] tk fp by (auto simp: update_task_def task_ok_def)
  have sq: "queue_ok (sleepingQ k)" "queue_ready (sleepingQ k)" "t \<in># members (sleepingQ k)"
    using k t by (simp_all add: ready_ok_def members_def)
  have rq: "queue_ok (runningQ k c ?p)" using k c(3) tk by (simp add: ready_ok_def task_ok_def)
  obtain l' where l': "array_list_removeElement (sleepingQ k) t = (True, l')" "queue_ok l'" "queue_ready l'"
      "members l' = members (sleepingQ k) - {#t#}"
    using aq.remove_law [OF sq] by blast
  have sz: "al_size l' = al_size (sleepingQ k) - 1"
    using removeElement_member [of "sleepingQ k" t] sq(2) t l'(1) by (auto simp: queue_ready_def)
  have add: "elements (array_list_add fresh (runningQ k c ?p) t) = elements (runningQ k c ?p) @ [t]"
      "queue_ok (array_list_add fresh (runningQ k c ?p) t)"
    using add_elements [of "runningQ k c ?p" fresh t] rq by (simp_all add: queue_ok_def)
  have "\<exists>k2. wake_up dev fresh core t c (?k\<lparr>runningQLock := rl, nextCore := n\<rparr>) = ret k2 \<and> woken f [(t, c)] k k2 \<and>
      ready_ok k2 \<and> al_size (sleepingQ k2) = al_size (sleepingQ k) - 1 \<and> kernel_io k2 = kernel_io k" for n
  proof -
    let ?k1 = "?k\<lparr>runningQLock := rl, nextCore := n\<rparr>"
    obtain rl' where rl': "spin_running core c ?k1 = ret (?k1\<lparr>runningQLock := rl'\<rparr>)"
        "unlocked (rl'(c := spinlock_release (rl' c)))"
      using unlocked_spin [of ?k1 c core] c(2,3) by auto
    define k2 where "k2 = release_running c (update_queue c ?p (array_list_add fresh (runningQ k c ?p) t)
        (?k1\<lparr>runningQLock := rl', sleepingQ := l'\<rparr>))"
    have w: "wake_up dev fresh core t c ?k1 = ret k2"
      using rl'(1) l'(1) fp by (simp add: wake_up_def k2_def update_task_def)
    have rl2: "unlocked (runningQLock k2)"
      using rl'(2) by (simp add: k2_def update_queue_def release_running_def)
    have k2: "sleepingQ k2 = l'" "tasks k2 = (tasks k)(t := f (tasks k t))"
      "runningQ k2 = (runningQ k)(c := (runningQ k c)(?p := array_list_add fresh (runningQ k c ?p) t))"
      "currentTask k2 = currentTask k" "locks k2 = locks k" "sleepingQLock k2 = sleepingQLock k"
      "freePID k2 = freePID k" "kernel_con k2 = kernel_con k" "kernel_io k2 = kernel_io k"
      by (simp_all add: k2_def release_running_def update_queue_def update_task_def)
    have "members l' + {#t#} = members (sleepingQ k)" using l'(4) sq(3) by simp
    then have wk: "woken f [(t, c)] k k2"
      unfolding woken_def k2 using add(1) c(3,4) by (auto simp: fun_eq_iff)
    have "ready_ok k2"
    proof (rule woken_ready [OF k f wk])
      show "\<forall>c' < NUM_CORES. \<forall>q < PRIORITIES. queue_ok (runningQ k2 c' q)"
        using k add(2) by (simp add: k2 ready_ok_def)
    qed (use rl2 l' in \<open>simp_all add: k2\<close>)
    then show ?thesis using w wk sz k2 by blast
  qed
  then show ?thesis using c(1,3) by (intro exI [of _ c] exI [of _ "?k\<lparr>runningQLock := rl\<rparr>"]) simp
qed

subsection \<open>Conservation of tasks\<close>

lemma placed_sum:
  assumes "\<forall>(t, c) \<in> set ws. c < NUM_CORES \<and> p t < PRIORITIES"
  shows "(\<Sum>c \<in> {..<NUM_CORES}. \<Sum>q \<in> {..<PRIORITIES}.
      mset (map fst (filter (\<lambda>(t, c'). c' = c \<and> p t = q) ws))) = mset (map fst ws)"
  using assms
proof (induction ws)
  case Nil
  then show ?case by simp
next
  case (Cons w ws)
  obtain t c where w: "w = (t, c)" by (cases w)
  then have lt: "c < NUM_CORES" "p t < PRIORITIES" using Cons.prems by auto
  have one: "mset (map fst (filter (\<lambda>(t, c'). c' = i \<and> p t = q) (w # ws))) =
      (if i = c then if q = p t then {#t#} else {#} else {#}) + mset (map fst (filter (\<lambda>(t, c'). c' = i \<and> p t = q) ws))"
    for i q by (auto simp: w)
  have "(\<Sum>i \<in> {..<NUM_CORES}. \<Sum>q \<in> {..<PRIORITIES}. if i = c then if q = p t then {#t#} else {#} else {#}) =
      (\<Sum>i \<in> {..<NUM_CORES}. if i = c then (\<Sum>q \<in> {..<PRIORITIES}. if q = p t then {#t#} else {#}) else {#})"
    by (rule sum.cong) auto
  also have "\<dots> = {#t#}" using lt by (simp add: sum.delta)
  finally have single: "(\<Sum>i \<in> {..<NUM_CORES}. \<Sum>q \<in> {..<PRIORITIES}.
      if i = c then if q = p t then {#t#} else {#} else {#}) = {#t#}" .
  show ?case unfolding one sum.distrib single using Cons w by auto
qed

lemma woken_members:
  assumes "ready_ok k" "woken f ws k k'" "(t, c) \<in> set ws"
  shows "t \<in> set (elements (sleepingQ k))" "task_ok (tasks k t)"
proof -
  have "members (sleepingQ k') + mset (map fst ws) = members (sleepingQ k)"
    using assms(2) by (simp add: woken_def)
  moreover have "t \<in># mset (map fst ws)" using assms(3) by force
  ultimately have "t \<in># members (sleepingQ k)" by (metis union_iff)
  then show "t \<in> set (elements (sleepingQ k))" by (simp add: members_def)
  then show "task_ok (tasks k t)" using assms(1) by (simp add: ready_ok_def)
qed

lemma woken_all_tasks:
  assumes "ready_ok k" "woken f ws k k'"
  shows "all_tasks k' = all_tasks k"
proof -
  have c: "\<forall>(t, c) \<in> set ws. c < NUM_CORES \<and> (isCorePinned (tasks k t) \<longrightarrow> c = corePinned (tasks k t))"
    using assms(2) unfolding woken_def by (elim conjE)
  have "\<forall>(t, c) \<in> set ws. c < NUM_CORES \<and> prio (tasks k t) < PRIORITIES"
  proof clarify
    fix t c assume tc: "(t, c) \<in> set ws"
    then show "c < NUM_CORES \<and> prio (tasks k t) < PRIORITIES"
      using c woken_members(2) [OF assms tc] by (auto simp: task_ok_def)
  qed
  note placed = placed_sum [OF this]
  have r: "members (runningQ k' c q) = members (runningQ k c q) +
      mset (map fst (filter (\<lambda>(t, c'). c' = c \<and> prio (tasks k t) = q) ws))" for c q
    using assms(2) by (simp add: woken_def members_def)
  have "members (sleepingQ k) = members (sleepingQ k') + mset (map fst ws)"
    using assms(2) by (simp add: woken_def)
  then show ?thesis unfolding all_tasks_def r sum.distrib placed by (simp only: add_ac)
qed

lemma queued_all_tasks: "set_mset (all_tasks k) = queued_tasks k"
  by (auto simp: all_tasks_def queued_tasks_def members_def set_mset_sum)

lemma sched_ok_sorted:
  assumes "sched_ok k"
  shows "\<exists>l q. spin_sleeping core k = ret (k\<lparr>sleepingQLock := l\<rparr>) \<and> quickSort (sleepingQ k) = Some q \<and>
    members q = members (sleepingQ k) \<and> ready_ok (k\<lparr>sleepingQLock := l, sleepingQ := q\<rparr>)"
proof -
  obtain q where q: "quickSort (sleepingQ k) = Some q" "queue_ok q" "queue_ready q" "members q = members (sleepingQ k)"
    using aq.sort_law [of "sleepingQ k"] assms by (auto simp: sched_ok_def)
  have "set (elements q) = set (elements (sleepingQ k))" using q(4) by (metis members_def set_mset_mset)
  then have "\<forall>t \<in> set (elements q). task_ok (tasks k t)" using assms by (simp add: sched_ok_def queued_tasks_def)
  then show ?thesis using q assms
    by (intro exI [of _ "(sleepingQLock k)\<lparr>lock_val := SPLCK_LOCKED, ownerPid := pid (current core k)\<rparr>"] exI [of _ q])
      (simp add: spin_sleeping_def spinlock_spin_def sched_ok_def ready_ok_def)
qed

lemma woken_sched_ok:
  assumes "sched_ok k" "ready_ok (k\<lparr>sleepingQLock := l, sleepingQ := q\<rparr>)" "members q = members (sleepingQ k)"
    and "keeps_place f" "woken f ws (k\<lparr>sleepingQLock := l, sleepingQ := q\<rparr>) k'" "ready_ok k'"
  shows "sched_ok (release_sleeping k') \<and> all_tasks (release_sleeping k') = all_tasks k \<and>
    woken f ws k (k'\<lparr>sleepingQLock := sleepingQLock k\<rparr>)"
proof -
  let ?k = "k\<lparr>sleepingQLock := l, sleepingQ := q\<rparr>"
  have all: "all_tasks (release_sleeping k') = all_tasks k"
  proof -
    have "all_tasks (release_sleeping k') = all_tasks k'" by (simp add: release_sleeping_def all_tasks_def)
    also have "\<dots> = all_tasks ?k" by (rule woken_all_tasks [OF assms(2,5)])
    finally show ?thesis by (simp add: all_tasks_def assms(3))
  qed
  have "task_ok (tasks k' t)" if "t \<in> queued_tasks (release_sleeping k')" for t
  proof -
    have "t \<in> queued_tasks k" using that all by (metis queued_all_tasks)
    then have "task_ok (tasks k t)" using assms(1) by (simp add: sched_ok_def)
    then show ?thesis using assms(4,5) by (simp add: woken_def task_ok_reset)
  qed
  then have "sched_ok (release_sleeping k')" using assms(6)
    by (simp add: sched_ok_def ready_ok_def release_sleeping_def spinlock_release_def SPLCK_UNLOCKED_def)
  moreover have "woken f ws k (k'\<lparr>sleepingQLock := sleepingQLock k\<rparr>)"
    using assms(3,5) by (simp add: woken_def cong: if_cong)
  ultimately show ?thesis using all by blast
qed

subsection \<open>Waking tasks that wait for a lock\<close>

abbreviation no_lock :: "task \<Rightarrow> task" where
  "no_lock t \<equiv> t\<lparr>sleepingOnLock := None\<rparr>"

abbreviation no_timer :: "task \<Rightarrow> task" where
  "no_timer t \<equiv> t\<lparr>timer := 0\<rparr>"

lemma keeps_place_resets: "keeps_place no_lock" "keeps_place no_timer"
  by (simp_all add: keeps_place_def)

lemma sleeping_shrinks:
  assumes "woken f [(t, c)] k k'" "u \<in> set (elements (sleepingQ k'))"
  shows "u \<in> set (elements (sleepingQ k))"
proof -
  have "members (sleepingQ k') + {#t#} = members (sleepingQ k)" using assms(1) by (simp add: woken_def)
  then have "u \<in># members (sleepingQ k)" using assms(2) by (metis members_def set_mset_mset union_iff)
  then show ?thesis by (simp add: members_def)
qed

lemma sleeping_positive: "t \<in> set (elements l) \<Longrightarrow> 0 < al_size l"
  by (auto simp: elements_def)

lemma wakeUpLocks_loop_spec:
  assumes "ready_ok k"
  shows "\<exists>ws k'. wakeUpLocks_loop dev fresh core k = ret k' \<and> woken no_lock ws k k' \<and> ready_ok k' \<and>
    kernel_io k' = kernel_io k \<and> (\<forall>t \<in> set (elements (sleepingQ k')). \<not> lock_free k' t) \<and>
    (\<forall>(t, c) \<in> set ws. lock_free k t)"
  using assms
proof (induction "nat (al_size (sleepingQ k))" arbitrary: k rule: less_induct)
  case less
  show ?case
  proof (cases "find (lock_free k) (elements (sleepingQ k))")
    case None
    then have "wakeUpLocks_loop dev fresh core k = ret k" by (subst wakeUpLocks_loop.simps) simp
    then show ?thesis using None less.prems woken_refl
      by (intro exI [of _ "[]"] exI [of _ k]) (auto simp: find_None_iff)
  next
    case (Some t)
    then have t: "t \<in> set (elements (sleepingQ k))" "lock_free k t" by (auto simp: find_Some_iff)
    obtain c k1 where c: "calcNextCore dev core t (update_task t no_lock k) = ret (c, k1)"
        "\<And>n. \<exists>k2. wake_up dev fresh core t c (k1\<lparr>nextCore := n\<rparr>) = ret k2 \<and> woken no_lock [(t, c)] k k2 \<and>
          ready_ok k2 \<and> al_size (sleepingQ k2) = al_size (sleepingQ k) - 1 \<and> kernel_io k2 = kernel_io k"
      using wake_one [OF less.prems t(1) keeps_place_resets(1), of dev core fresh] by blast
    have "k1\<lparr>nextCore := nextCore k1\<rparr> = k1" by simp
    then obtain k2 where k2: "wake_up dev fresh core t c k1 = ret k2" "woken no_lock [(t, c)] k k2" "ready_ok k2"
        "al_size (sleepingQ k2) = al_size (sleepingQ k) - 1" "kernel_io k2 = kernel_io k"
      using c(2) [of "nextCore k1"] by metis
    have "nat (al_size (sleepingQ k2)) < nat (al_size (sleepingQ k))"
      using k2(4) sleeping_positive [OF t(1)] by simp
    from less.hyps [OF this k2(3)] obtain ws k' where k': "wakeUpLocks_loop dev fresh core k2 = ret k'"
      "woken no_lock ws k2 k'" "ready_ok k'" "kernel_io k' = kernel_io k2"
      "\<forall>t \<in> set (elements (sleepingQ k')). \<not> lock_free k' t" "\<forall>(t, c) \<in> set ws. lock_free k2 t" by blast
    have "lock_free k2 u \<Longrightarrow> lock_free k u" for u
      using k2(2) by (auto simp: lock_free_def woken_def split: option.splits if_splits)
    then have "\<forall>(t, c) \<in> set ((t, c) # ws). lock_free k t" using k'(6) t(2) by auto
    moreover have "wakeUpLocks_loop dev fresh core k = ret k'"
      using Some c(1) k2(1) k'(1) by (subst wakeUpLocks_loop.simps) simp
    moreover have "woken no_lock ((t, c) # ws) k k'"
      using woken_trans [OF keeps_place_resets(1) k2(2) k'(2)] by simp
    ultimately show ?thesis using k' k2(5) by metis
  qed
qed

lemma wakeUpLocks_spec:
  assumes "sched_ok k"
  shows "\<exists>ws k'. wakeUpLocks dev fresh core k = ret k' \<and> sched_ok k' \<and> all_tasks k' = all_tasks k \<and>
    kernel_io k' = kernel_io k \<and> woken no_lock ws k (k'\<lparr>sleepingQLock := sleepingQLock k\<rparr>) \<and>
    (\<forall>t \<in> set (elements (sleepingQ k')). \<not> lock_free k' t) \<and> (\<forall>(t, c) \<in> set ws. lock_free k t)"
proof -
  obtain l q where lq: "spin_sleeping core k = ret (k\<lparr>sleepingQLock := l\<rparr>)" "quickSort (sleepingQ k) = Some q"
      "members q = members (sleepingQ k)" "ready_ok (k\<lparr>sleepingQLock := l, sleepingQ := q\<rparr>)"
    using sched_ok_sorted [OF assms] by blast
  let ?k = "k\<lparr>sleepingQLock := l, sleepingQ := q\<rparr>"
  obtain ws k' where k': "wakeUpLocks_loop dev fresh core ?k = ret k'" "woken no_lock ws ?k k'" "ready_ok k'"
      "kernel_io k' = kernel_io ?k" "\<forall>t \<in> set (elements (sleepingQ k')). \<not> lock_free k' t"
      "\<forall>(t, c) \<in> set ws. lock_free ?k t"
    using wakeUpLocks_loop_spec [OF lq(4)] by blast
  have "wakeUpLocks dev fresh core k = ret (release_sleeping k')"
    using lq(1,2) k'(1) by (simp add: wakeUpLocks_def)
  moreover have "lock_free ?k t = lock_free k t" "lock_free (release_sleeping k') t = lock_free k' t" for t
    by (simp_all add: lock_free_def release_sleeping_def split: option.split)
  moreover have "elements (sleepingQ (release_sleeping k')) = elements (sleepingQ k')"
    "kernel_io (release_sleeping k') = kernel_io k'"
    "(release_sleeping k')\<lparr>sleepingQLock := sleepingQLock k\<rparr> = k'\<lparr>sleepingQLock := sleepingQLock k\<rparr>"
    by (simp_all add: release_sleeping_def)
  ultimately show ?thesis
    using woken_sched_ok [OF assms lq(4,3) keeps_place_resets(1) k'(2,3)] k'(4,5,6)
    by (intro exI [of _ ws] exI [of _ "release_sleeping k'"]) simp
qed

text \<open>C26: \<open>wakeUpLocks\<close> terminates and moves exactly the sleeping tasks that wait for a mutex nobody
  owns to running queues: none of them is left in the sleeping queue, only such tasks are woken, no
  task is lost, and no device is touched.\<close>

theorem wakeUpLocks_correct:
  assumes "sched_ok k"
  shows "\<exists>ws k'. wakeUpLocks dev fresh core k = ret k' \<and> sched_ok k' \<and> all_tasks k' = all_tasks k \<and>
    kernel_io k' = kernel_io k \<and> woken no_lock ws k (k'\<lparr>sleepingQLock := sleepingQLock k\<rparr>) \<and>
    (\<forall>t \<in> set (elements (sleepingQ k')). \<not> lock_free k' t) \<and> (\<forall>(t, c) \<in> set ws. lock_free k t)"
  by (rule wakeUpLocks_spec [OF assms])

end
