(* ===== verification/Scheduling.thy ===== *)
theory Scheduling
  imports SchedSpec
begin

text \<open>
  What the interrupt handlers do to the queues and the tasks: waking, switching, sleeping, and the
  invariant that every sequence of interrupts keeps.
\<close>

subsection \<open>Waking tasks whose time has come\<close>

lemma read_time_spec:
  assumes "clocked dev ticks"
  shows "\<exists>c h. read_time dev k = ret (c, k\<lparr>kernel_io := h\<rparr>) \<and> later (kernel_io k) h \<and>
    writes_of h = writes_of (kernel_io k) \<and> ticks (kernel_io k) \<le> c \<and> c < ticks h + 2 ^ 32"
proof -
  obtain c h1 h2 h' where h: "getCounter dev (kernel_io k) = Some (c, h')" "later (kernel_io k) h1" "later h1 h2"
      "later h2 h'" "writes_of h' = writes_of (kernel_io k)" "ticks (kernel_io k) \<le> c" "c < ticks h2 + 2 ^ 32"
    using getCounter_bounds [OF assms, of "kernel_io k"] by blast
  have "ticks h2 \<le> ticks h'" by (rule clocked_later [OF assms h(4)])
  then have "c < ticks h' + 2 ^ 32" using h(7) by linarith
  moreover have "later (kernel_io k) h'" using h(2,3,4) by (blast intro: later_trans)
  ultimately show ?thesis using h(1,5,6) by (intro exI [of _ c] exI [of _ h']) (simp add: read_time_def)
qed

text \<open>What a search that begins with the history \<open>h0\<close> and ends with \<open>h\<close> has found.\<close>

definition search_ok ::
  "(history \<Rightarrow> nat) \<Rightarrow> (nat \<Rightarrow> task) \<Rightarrow> nat list \<Rightarrow> history \<Rightarrow> nat option \<Rightarrow> history \<Rightarrow> bool" where
  "search_ok ticks tm ts h0 found h \<longleftrightarrow> later h0 h \<and> writes_of h = writes_of h0 \<and>
     (case found of
        None \<Rightarrow> \<forall>t \<in> set ts. timer (tm t) = 0 \<or> ticks h0 < timer (tm t)
      | Some t \<Rightarrow> t \<in> set ts \<and> timer (tm t) \<noteq> 0 \<and> timer (tm t) < ticks h + 2 ^ 32)"

lemma find_expired_spec:
  assumes "clocked dev ticks"
  shows "\<exists>found h. find_expired ts dev k = ret (found, k\<lparr>kernel_io := h\<rparr>) \<and>
    search_ok ticks (tasks k) ts (kernel_io k) found h"
proof (induction ts arbitrary: k)
  case Nil
  then show ?case by (intro exI [of _ None] exI [of _ "kernel_io k"]) (simp add: search_ok_def)
next
  case (Cons t ts)
  show ?case
  proof (cases "timer (tasks k t) = 0")
    case True
    obtain found h where "find_expired ts dev k = ret (found, k\<lparr>kernel_io := h\<rparr>)"
        "search_ok ticks (tasks k) ts (kernel_io k) found h"
      using Cons by blast
    then show ?thesis using True
      by (intro exI [of _ found] exI [of _ h]) (auto simp: search_ok_def split: option.splits)
  next
    case False
    obtain c h where c: "read_time dev k = ret (c, k\<lparr>kernel_io := h\<rparr>)" "later (kernel_io k) h"
        "writes_of h = writes_of (kernel_io k)" "ticks (kernel_io k) \<le> c" "c < ticks h + 2 ^ 32"
      using read_time_spec [OF assms] by blast
    show ?thesis
    proof (cases "timer (tasks k t) \<le> c")
      case True
      then show ?thesis using False c by (intro exI [of _ "Some t"] exI [of _ h]) (simp add: search_ok_def)
    next
      case past: False
      obtain found h' where r: "find_expired ts dev (k\<lparr>kernel_io := h\<rparr>) = ret (found, k\<lparr>kernel_io := h'\<rparr>)"
          "search_ok ticks (tasks k) ts h found h'"
        using Cons [of "k\<lparr>kernel_io := h\<rparr>"] by auto
      have "later h h'" using r(2) by (simp add: search_ok_def)
      then have "later (kernel_io k) h'" using c(2) by (blast intro: later_trans)
      moreover have "ticks (kernel_io k) < timer (tasks k t)" using c(4) past by simp
      moreover have "ticks (kernel_io k) \<le> ticks h" by (rule clocked_later [OF assms c(2)])
      ultimately show ?thesis using False past c r
        by (intro exI [of _ found] exI [of _ h']) (auto simp: search_ok_def split: option.splits)
    qed
  qed
qed

lemma woken_io [simp]: "woken f ws (k\<lparr>kernel_io := h\<rparr>) k' = woken f ws k k'"
  by (simp add: woken_def cong: if_cong)

lemma ready_ok_io [simp]: "ready_ok (k\<lparr>kernel_io := h\<rparr>) = ready_ok k"
  by (simp add: ready_ok_def)

lemma wakeUpTimers_loop_spec:
  assumes "clocked dev ticks" "ready_ok k"
  shows "\<exists>ws k'. wakeUpTimers_loop dev fresh core k = ret k' \<and> woken no_timer ws k k' \<and> ready_ok k' \<and>
    later (kernel_io k) (kernel_io k') \<and> writes_of (kernel_io k') = writes_of (kernel_io k) \<and>
    (\<forall>t \<in> set (elements (sleepingQ k')). timer (tasks k' t) = 0 \<or> ticks (kernel_io k) < timer (tasks k' t)) \<and>
    (\<forall>(t, c) \<in> set ws. timer (tasks k t) \<noteq> 0 \<and> timer (tasks k t) < ticks (kernel_io k') + 2 ^ 32)"
  using assms(2)
proof (induction "nat (al_size (sleepingQ k))" arbitrary: k rule: less_induct)
  case less
  obtain found h where f0: "find_expired (elements (sleepingQ k)) dev k = ret (found, k\<lparr>kernel_io := h\<rparr>)"
      "search_ok ticks (tasks k) (elements (sleepingQ k)) (kernel_io k) found h"
    using find_expired_spec [OF assms(1)] by blast
  then have f: "find_expired (elements (sleepingQ k)) dev k = ret (found, k\<lparr>kernel_io := h\<rparr>)"
    "later (kernel_io k) h" "writes_of h = writes_of (kernel_io k)" "case found of
       None \<Rightarrow> \<forall>t \<in> set (elements (sleepingQ k)). timer (tasks k t) = 0 \<or> ticks (kernel_io k) < timer (tasks k t)
     | Some t \<Rightarrow> t \<in> set (elements (sleepingQ k)) \<and> timer (tasks k t) \<noteq> 0 \<and> timer (tasks k t) < ticks h + 2 ^ 32"
    by (simp_all add: search_ok_def)
  show ?case
  proof (cases found)
    case None
    then have "wakeUpTimers_loop dev fresh core k = ret (k\<lparr>kernel_io := h\<rparr>)"
      using f(1) by (subst wakeUpTimers_loop.simps) simp
    moreover have "woken no_timer [] k (k\<lparr>kernel_io := h\<rparr>)" by (simp add: woken_def)
    ultimately show ?thesis using None f less.prems
      by (intro exI [of _ "[]"] exI [of _ "k\<lparr>kernel_io := h\<rparr>"]) simp
  next
    case (Some t)
    then have t: "t \<in> set (elements (sleepingQ k))" "timer (tasks k t) \<noteq> 0" "timer (tasks k t) < ticks h + 2 ^ 32"
      using f(4) by simp_all
    let ?k = "k\<lparr>kernel_io := h\<rparr>"
    have rk: "ready_ok ?k" "t \<in> set (elements (sleepingQ ?k))" using less.prems t(1) by simp_all
    obtain c k1 where c: "calcNextCore dev core t (update_task t no_timer ?k) = ret (c, k1)"
        "\<And>n. \<exists>k2. wake_up dev fresh core t c (k1\<lparr>nextCore := n\<rparr>) = ret k2 \<and> woken no_timer [(t, c)] k k2 \<and>
          ready_ok k2 \<and> al_size (sleepingQ k2) = al_size (sleepingQ k) - 1 \<and> kernel_io k2 = h"
      using wake_one [OF rk keeps_place_resets(2), of dev core fresh] by auto
    obtain k2 where k2: "wake_up dev fresh core t c (k1\<lparr>nextCore := c\<rparr>) = ret k2" "woken no_timer [(t, c)] k k2"
        "ready_ok k2" "al_size (sleepingQ k2) = al_size (sleepingQ k) - 1" "kernel_io k2 = h"
      using c(2) by blast
    have "nat (al_size (sleepingQ k2)) < nat (al_size (sleepingQ k))"
      using k2(4) sleeping_positive [OF t(1)] by simp
    from less.hyps [OF this k2(3)] obtain ws k' where k': "wakeUpTimers_loop dev fresh core k2 = ret k'"
      "woken no_timer ws k2 k'" "ready_ok k'" "later h (kernel_io k')" "writes_of (kernel_io k') = writes_of h"
      "\<forall>t \<in> set (elements (sleepingQ k')). timer (tasks k' t) = 0 \<or> ticks h < timer (tasks k' t)"
      "\<forall>(t, c) \<in> set ws. timer (tasks k2 t) \<noteq> 0 \<and> timer (tasks k2 t) < ticks (kernel_io k') + 2 ^ 32"
      unfolding k2(5) by blast
    have m: "ticks (kernel_io k) \<le> ticks h" "ticks h \<le> ticks (kernel_io k')"
      using clocked_later [OF assms(1)] f(2) k'(4) by blast+
    have "timer (tasks k2 u) \<noteq> 0 \<Longrightarrow> timer (tasks k2 u) = timer (tasks k u)" for u
      using k2(2) by (auto simp: woken_def)
    then have "\<forall>(t, c) \<in> set ((t, c) # ws). timer (tasks k t) \<noteq> 0 \<and> timer (tasks k t) < ticks (kernel_io k') + 2 ^ 32"
      using k'(7) t(2,3) m(2) by fastforce
    moreover have "wakeUpTimers_loop dev fresh core k = ret k'"
      using Some f(1) c(1) k2(1) k'(1) by (subst wakeUpTimers_loop.simps) simp
    moreover have "woken no_timer ((t, c) # ws) k k'"
      using woken_trans [OF keeps_place_resets(2) k2(2) k'(2)] by simp
    moreover have "later (kernel_io k) (kernel_io k')" using f(2) k'(4) by (rule later_trans)
    moreover have "\<forall>t \<in> set (elements (sleepingQ k')). timer (tasks k' t) = 0 \<or> ticks (kernel_io k) < timer (tasks k' t)"
      using k'(6) m(1) by (meson le_less_trans)
    ultimately show ?thesis using k'(3,5) f(3) by (intro exI [of _ "(t, c) # ws"] exI [of _ k']) simp
  qed
qed

lemma wakeUpTimers_spec:
  assumes "clocked dev ticks" "sched_ok k"
  shows "\<exists>ws k'. wakeUpTimers dev fresh core k = ret k' \<and> sched_ok k' \<and> all_tasks k' = all_tasks k \<and>
    woken no_timer ws k (k'\<lparr>sleepingQLock := sleepingQLock k\<rparr>) \<and>
    later (kernel_io k) (kernel_io k') \<and> writes_of (kernel_io k') = writes_of (kernel_io k) \<and>
    (\<forall>t \<in> set (elements (sleepingQ k')). timer (tasks k' t) = 0 \<or> ticks (kernel_io k) < timer (tasks k' t)) \<and>
    (\<forall>(t, c) \<in> set ws. timer (tasks k t) \<noteq> 0 \<and> timer (tasks k t) < ticks (kernel_io k') + 2 ^ 32)"
proof -
  obtain l q where lq: "spin_sleeping core k = ret (k\<lparr>sleepingQLock := l\<rparr>)" "quickSort (sleepingQ k) = Some q"
      "members q = members (sleepingQ k)" "ready_ok (k\<lparr>sleepingQLock := l, sleepingQ := q\<rparr>)"
    using sched_ok_sorted [OF assms(2)] by blast
  let ?k = "k\<lparr>sleepingQLock := l, sleepingQ := q\<rparr>"
  obtain ws k' where k': "wakeUpTimers_loop dev fresh core ?k = ret k'" "woken no_timer ws ?k k'" "ready_ok k'"
      "later (kernel_io ?k) (kernel_io k')" "writes_of (kernel_io k') = writes_of (kernel_io ?k)"
      "\<forall>t \<in> set (elements (sleepingQ k')). timer (tasks k' t) = 0 \<or> ticks (kernel_io ?k) < timer (tasks k' t)"
      "\<forall>(t, c) \<in> set ws. timer (tasks ?k t) \<noteq> 0 \<and> timer (tasks ?k t) < ticks (kernel_io k') + 2 ^ 32"
    using wakeUpTimers_loop_spec [OF assms(1) lq(4)] by blast
  have "wakeUpTimers dev fresh core k = ret (release_sleeping k')"
    using lq(1,2) k'(1) by (simp add: wakeUpTimers_def)
  moreover have "elements (sleepingQ (release_sleeping k')) = elements (sleepingQ k')"
    "kernel_io (release_sleeping k') = kernel_io k'" "tasks (release_sleeping k') = tasks k'"
    "(release_sleeping k')\<lparr>sleepingQLock := sleepingQLock k\<rparr> = k'\<lparr>sleepingQLock := sleepingQLock k\<rparr>"
    by (simp_all add: release_sleeping_def)
  ultimately show ?thesis
    using woken_sched_ok [OF assms(2) lq(4,3) keeps_place_resets(2) k'(2,3)] k'(4,5,6,7)
    by (intro exI [of _ ws] exI [of _ "release_sleeping k'"]) simp
qed


subsection \<open>Switching\<close>

lemma pick_loop_find:
  assumes "\<forall>q \<in> set qs. queue_ok (runningQ k core q)"
  shows "case find (\<lambda>q. 0 < load k core q) qs of
      None \<Rightarrow> pick_loop qs dev core k = (None, k)
    | Some q \<Rightarrow> \<exists>t. t \<in> set (elements (runningQ k core q)) \<and> pick_loop qs dev core k =
        (Some t, k\<lparr>kernel_io := snd (mmio_read dev timer_counter_lo (kernel_io k))\<rparr>)"
  using assms
proof (induction qs)
  case Nil
  then show ?case by simp
next
  case (Cons i qs)
  show ?case
  proof (cases "0 < load k core i")
    case False
    then show ?thesis using Cons by (simp add: load_def split: option.splits)
  next
    case True
    let ?q = "runningQ k core i"
    define c where "c = unat (hash (ucast (dev (kernel_io k) timer_counter_lo))) mod array_list_getSize ?q"
    have sz: "0 < al_size ?q" "c < nat (al_size ?q)"
      using True by (simp_all add: load_def array_list_getSize_def c_def)
    then have "arr ?q (int c) \<in> set (elements ?q)" by (auto simp: elements_def)
    moreover have "pick_loop (i # qs) dev core k =
        (Some (arr ?q (int c)), k\<lparr>kernel_io := snd (mmio_read dev timer_counter_lo (kernel_io k))\<rparr>)"
    proof -
      have "map_option (arr ?q) (array_list_get ?q (int c)) = Some (arr ?q (int c))"
        using sz by (simp add: array_list_get_def)
      then show ?thesis using True by (simp add: load_def mmio_read_def c_def Let_def)
    qed
    ultimately show ?thesis using True by auto
  qed
qed

text \<open>The queue of the next task: the first that is not empty.\<close>

definition next_queue :: "kernel \<Rightarrow> nat \<Rightarrow> nat option" where
  "next_queue k core = find (\<lambda>q. 0 < load k core q) [0..<PRIORITIES]"

definition save_context :: "core_context \<Rightarrow> nat \<Rightarrow> kernel \<Rightarrow> kernel" where
  "save_context regs core k =
     update_task (currentTask k core) (\<lambda>t. t\<lparr>task_context := copyRegs regs (task_context t)\<rparr>) k"

text \<open>What an interrupt stores in a task's context is what a later switch to it loads: all general
  registers, the link register, the return address, the saved status, the syndrome and the user stack
  pointer, whatever the other task did in between; the faulting address is not part of the
  switch.\<close>

theorem context_switch_round_trip:
  "copyRegs (copyRegs regs ctx) regs' =
     regs\<lparr>gpr := (\<lambda>i. if i < 30 then gpr regs i else gpr regs' i), far_el1 := far_el1 regs'\<rparr>"
  by (simp add: copyRegs_def fun_eq_iff)

text \<open>\<open>switched\<close>: task \<open>t\<close> runs on \<open>core\<close> with its registers loaded; the registers of the task that ran
  before are in its context; nothing else has changed but the bookkeeping of a lock.\<close>

definition switched :: "nat \<Rightarrow> core_context \<Rightarrow> kernel \<Rightarrow> nat \<Rightarrow> core_context \<Rightarrow> kernel \<Rightarrow> bool" where
  "switched core regs k t regs' k' \<longleftrightarrow>
     (\<exists>rl h. unlocked rl \<and> writes_of h = writes_of (kernel_io k) \<and>
        k' = (save_context regs core k)\<lparr>runningQLock := rl, kernel_io := h, currentTask := (currentTask k)(core := t)\<rparr> \<and>
        regs' = copyRegs (task_context (tasks k' t)) regs)"

lemma hang_wrong_address_stops:
  "hang_wrong_address dev elr k \<noteq> ret x" "hang_wrong_address dev elr k \<noteq> undefined_use w"
  by (cases "print_no_lock dev (kernel_con k) (''Returning to wrong address 0x%x'' @ nl) [Num (sint elr)] (kernel_io k)";
      simp add: hang_wrong_address_def say_def)+

lemma reschedule_spec:
  assumes "unlocked (runningQLock k)" "core < NUM_CORES" "\<forall>q < PRIORITIES. queue_ok (runningQ k core q)"
  shows "if isPreamptable core k then
      (case next_queue k core of
         None \<Rightarrow> reschedule dev core regs k = undefined_use ''next''
       | Some q \<Rightarrow> \<exists>t regs' k'. t \<in> set (elements (runningQ k core q)) \<and> switched core regs k t regs' k' \<and>
           (if elr_el1 (task_context (tasks k' t)) < 0xFFFF000000000000 then
              (\<forall>x. reschedule dev core regs k \<noteq> ret x) \<and> (\<forall>w. reschedule dev core regs k \<noteq> undefined_use w)
            else reschedule dev core regs k = ret (regs', k')))
    else reschedule dev core regs k = ret (regs, k)"
proof (cases "isPreamptable core k")
  case False
  then show ?thesis by (simp add: reschedule_def)
next
  case True
  obtain rl where rl: "spin_running core core k = ret (k\<lparr>runningQLock := rl\<rparr>)"
      "unlocked (rl(core := spinlock_release (rl core)))"
    using unlocked_spin [OF assms(1,2), of core] by blast
  define rl' where "rl' = rl(core := spinlock_release (rl core))"
  let ?k = "k\<lparr>runningQLock := rl\<rparr>"
  have ok: "\<forall>q \<in> set [0..<PRIORITIES]. queue_ok (runningQ ?k core q)" using assms(3) by simp
  have nq: "find (\<lambda>q. 0 < load ?k core q) [0..<PRIORITIES] = next_queue k core"
    by (simp add: next_queue_def load_def)
  note pick = pick_loop_find [OF ok, of dev, unfolded nq]
  show ?thesis
  proof (cases "next_queue k core")
    case None
    then show ?thesis using pick True rl(1) by (simp add: reschedule_def)
  next
    case (Some q)
    let ?h = "snd (mmio_read dev timer_counter_lo (kernel_io k))"
    obtain t where t: "t \<in> set (elements (runningQ k core q))"
        "pick_loop [0..<PRIORITIES] dev core ?k = (Some t, k\<lparr>runningQLock := rl, kernel_io := ?h\<rparr>)"
      using pick Some by auto
    define k' where "k' = (save_context regs core k)\<lparr>runningQLock := rl', kernel_io := ?h,
      currentTask := (currentTask k)(core := t)\<rparr>"
    define regs' where "regs' = copyRegs (task_context (tasks k' t)) regs"
    have sw: "switched core regs k t regs' k'"
      unfolding switched_def
      by (intro exI [of _ rl'] exI [of _ ?h]) (simp add: k'_def regs'_def rl'_def rl(2))
    have "reschedule dev core regs k =
      (if elr_el1 (task_context (tasks k' t)) < 0xFFFF000000000000
       then hang_wrong_address dev (elr_el1 (task_context (tasks k' t))) k'
       else ret (regs', k'))"
    proof -
      have k': "(update_task (currentTask k core) (\<lambda>t. t\<lparr>task_context := copyRegs regs (task_context t)\<rparr>)
          (release_running core (k\<lparr>runningQLock := rl, kernel_io := ?h\<rparr>)))\<lparr>currentTask := (currentTask k)(core := t)\<rparr> = k'"
        by (simp add: k'_def rl'_def save_context_def release_running_def update_task_def)
      have tk: "tasks (update_task (currentTask k core) (\<lambda>t. t\<lparr>task_context := copyRegs regs (task_context t)\<rparr>)
          (release_running core (k\<lparr>runningQLock := rl, kernel_io := ?h\<rparr>))) = tasks k'"
        by (simp flip: k')
      have cur: "currentTask (release_running core x) = currentTask x" "currentTask (update_task a b x) = currentTask x"
        for a b x by (simp_all add: release_running_def update_task_def)
      show ?thesis using True rl(1) t(2)
        by (simp add: reschedule_def Let_def cur k' tk regs'_def)
    qed
    then have end_state: "if elr_el1 (task_context (tasks k' t)) < 0xFFFF000000000000 then
        (\<forall>x. reschedule dev core regs k \<noteq> ret x) \<and> (\<forall>w. reschedule dev core regs k \<noteq> undefined_use w)
      else reschedule dev core regs k = ret (regs', k')"
      by (simp add: hang_wrong_address_stops)
    show ?thesis unfolding Some option.case if_P [OF True] using t(1) sw end_state by blast
  qed
qed

text \<open>C8: a core whose task can be preempted switches to a task of its own queue of the highest priority
  (the smallest number) that is not empty: the registers of the interrupted task are stored in its
  context, those of the new task are loaded, the queues stay as they are; a task that would resume below
  the kernel's addresses is not resumed. With preemption disabled the same task goes on. With all
  queues empty the code goes on with a pointer that was never set.\<close>

theorem reschedule_correct:
  assumes "sched_ok k" "core < NUM_CORES"
  shows "if isPreamptable core k then
      (case next_queue k core of
         None \<Rightarrow> reschedule dev core regs k = undefined_use ''next''
       | Some q \<Rightarrow> \<exists>t regs' k'. t \<in> set (elements (runningQ k core q)) \<and> switched core regs k t regs' k' \<and>
           (if elr_el1 (task_context (tasks k' t)) < 0xFFFF000000000000 then
              (\<forall>x. reschedule dev core regs k \<noteq> ret x) \<and> (\<forall>w. reschedule dev core regs k \<noteq> undefined_use w)
            else reschedule dev core regs k = ret (regs', k')))
    else reschedule dev core regs k = ret (regs, k)"
  by (rule reschedule_spec) (use assms in \<open>simp_all add: sched_ok_def\<close>)

end
