(* ===== verification/Trap.thy ===== *)
theory Trap
  imports BootEntrySpec Scheduling Irq
begin

text \<open>
  How an interrupt gets to C++ code and back: the vector table and the macros \<open>_kernel_entry\<close> and
  \<open>_kernel_exit\<close> of \<open>src/boot/boot.S\<close>, which save the registers of the interrupted task as a
  \<open>CoreContext\<close> (\<open>src/include/Task.h\<close>) on the stack of the core and load them from there again.
  \<open>Sched\<close> and \<open>Irq\<close> describe what the handler does to the \<open>CoreContext\<close>; here this is joined to the registers of
  the core, so a context switch is seen as the tasks see it.

  Addresses are virtual; the stack lies in the linear map, where different addresses are different memory.
\<close>

subsection \<open>Exceptions\<close>

text \<open>What the processor does when an exception is taken from level 1 to level 1: the status and the
  return address are saved, exceptions are masked, the stack pointer of level 1 is chosen, and the code
  goes on in the vector table, at one of four groups of four entries of 128 bytes.\<close>

definition pstate :: "cpu \<Rightarrow> 32 word" where
  "pstate s = NZCV s OR DAIF s OR push_bit 2 (of_nat (level s)) OR SPSel s"

definition take_exception :: "64 word \<Rightarrow> cpu \<Rightarrow> cpu" where
  "take_exception pc s =
     s\<lparr>ELR := (ELR s)(1 := pc), SPSR := (SPSR s)(1 := pstate s), DAIF := 0x3c0, SPSel := 1, level := 1\<rparr>"

datatype exception_kind = Synchronous | Interrupt | Fast_interrupt | System_error
datatype exception_source = Current_SP0 | Current_SPx | Lower_64 | Lower_32

definition vector_offset :: "exception_source \<Rightarrow> exception_kind \<Rightarrow> nat" where
  "vector_offset src kind =
     (case src of Current_SP0 \<Rightarrow> 0 | Current_SPx \<Rightarrow> 0x200 | Lower_64 \<Rightarrow> 0x400 | Lower_32 \<Rightarrow> 0x600) +
     (case kind of Synchronous \<Rightarrow> 0 | Interrupt \<Rightarrow> 0x80 | Fast_interrupt \<Rightarrow> 0x100 | System_error \<Rightarrow> 0x180)"

text \<open>The table of \<open>boot.S\<close>: an entry each 128 bytes (\<open>.balign 128\<close>), a branch to a stub, which saves the registers,
  calls the C++ function of the second list and loads the registers.\<close>

datatype stub = sync_sp0 | irq_sp0 | fiq_sp0 | serror_sp0 | sync_spx | irq_spx | fiq_spx | serror_spx
  | sync_aarch64 | irq_aarch64 | fiq_aarch64 | serror_aarch64
  | sync_aarch32 | irq_aarch32 | fiq_aarch32 | serror_aarch32

definition vector_table :: "stub list" where
  "vector_table =
     [sync_sp0, irq_sp0, fiq_sp0, serror_sp0,
      sync_spx, irq_spx, fiq_spx, serror_spx,
      sync_aarch64, irq_aarch64, fiq_aarch64, serror_aarch64,
      sync_aarch32, irq_aarch32, fiq_aarch32, serror_aarch32]"

fun stub_calls :: "stub \<Rightarrow> string" where
  "stub_calls irq_sp0 = ''irq_handler_sp0''"
| "stub_calls irq_spx = ''irq_handler_spx''"
| "stub_calls irq_aarch64 = ''irq_handler_lower_aarch64''"
| "stub_calls irq_aarch32 = ''irq_handler_lower_aarch32''"
| "stub_calls sync_sp0 = ''sync_handler_sp0''"
| "stub_calls sync_spx = ''sync_handler_spx''"
| "stub_calls sync_aarch64 = ''sync_handler_lower_aarch64''"
| "stub_calls sync_aarch32 = ''sync_handler_lower_aarch32''"
| "stub_calls fiq_sp0 = ''fiq_handler_sp0''"
| "stub_calls fiq_spx = ''fiq_handler_spx''"
| "stub_calls fiq_aarch64 = ''fiq_handler_lower_aarch64''"
| "stub_calls fiq_aarch32 = ''fiq_handler_lower_aarch32''"
| "stub_calls serror_sp0 = ''serror_handler_sp0''"
| "stub_calls serror_spx = ''serror_handler_spx''"
| "stub_calls serror_aarch64 = ''serror_handler_lower_aarch64''"
| "stub_calls serror_aarch32 = ''serror_handler_lower_aarch32''"

text \<open>The handler the names stand for, by the level and the kind.\<close>

definition handler_name :: "exception_source \<Rightarrow> exception_kind \<Rightarrow> string" where
  "handler_name src kind =
     (case kind of Synchronous \<Rightarrow> ''sync'' | Interrupt \<Rightarrow> ''irq'' | Fast_interrupt \<Rightarrow> ''fiq'' | System_error \<Rightarrow> ''serror'') @
     ''_handler_'' @
     (case src of Current_SP0 \<Rightarrow> ''sp0'' | Current_SPx \<Rightarrow> ''spx'' | Lower_64 \<Rightarrow> ''lower_aarch64'' | Lower_32 \<Rightarrow> ''lower_aarch32'')"

lemma vector_dispatch:
  "stub_calls (vector_table ! (vector_offset src kind div 128)) = handler_name src kind"
  by (cases src; cases kind; simp add: vector_table_def vector_offset_def handler_name_def)

subsection \<open>Saving and loading the registers\<close>

definition stp :: "64 word \<Rightarrow> 64 word \<Rightarrow> 64 word \<Rightarrow> ram \<Rightarrow> ram" where
  "stp a b addr m = m(addr := a, addr + 8 := b)"

definition set_sp :: "64 word \<Rightarrow> cpu \<Rightarrow> cpu" where
  "set_sp v s = s\<lparr>SP := (SP s)(sp_index s := v)\<rparr>"

definition kernel_entry :: "cpu \<Rightarrow> ram \<Rightarrow> cpu \<times> ram" where
  "kernel_entry s m =
     (let s = set_sp (get_sp s - 16 * 18) s; sp = get_sp s; x = X s;
          m = stp (x 0) (x 1) (sp + 16 * 0) m;
          m = stp (x 2) (x 3) (sp + 16 * 1) m;
          m = stp (x 4) (x 5) (sp + 16 * 2) m;
          m = stp (x 6) (x 7) (sp + 16 * 3) m;
          m = stp (x 8) (x 9) (sp + 16 * 4) m;
          m = stp (x 10) (x 11) (sp + 16 * 5) m;
          m = stp (x 12) (x 13) (sp + 16 * 6) m;
          m = stp (x 14) (x 15) (sp + 16 * 7) m;
          m = stp (x 16) (x 17) (sp + 16 * 8) m;
          m = stp (x 18) (x 19) (sp + 16 * 9) m;
          m = stp (x 20) (x 21) (sp + 16 * 10) m;
          m = stp (x 22) (x 23) (sp + 16 * 11) m;
          m = stp (x 24) (x 25) (sp + 16 * 12) m;
          m = stp (x 26) (x 27) (sp + 16 * 13) m;
          m = stp (x 28) (x 29) (sp + 16 * 14) m;
          x = x(1 := ELR s 1);
          x = x(2 := ucast (SPSR s 1));
          x = x(3 := ESR_EL1 s);
          m = stp (x 30) (x 1) (sp + 16 * 15) m;
          m = stp (x 2) (x 3) (sp + 16 * 16) m;
          x = x(1 := SP s 0);
          x = x(2 := FAR_EL1 s);
          m = stp (x 1) (x 2) (sp + 16 * 17) m;
          x = x(0 := sp)
      in (s\<lparr>X := x\<rparr>, m))"

definition ldp :: "nat \<Rightarrow> nat \<Rightarrow> 64 word \<Rightarrow> ram \<Rightarrow> (nat \<Rightarrow> 64 word) \<Rightarrow> (nat \<Rightarrow> 64 word)" where
  "ldp i j addr m x = x(i := m addr, j := m (addr + 8))"

text \<open>\<open>ldr w19\<close> loads 32 bits.\<close>

definition kernel_exit :: "cpu \<Rightarrow> ram \<Rightarrow> (64 word \<times> cpu) option" where
  "kernel_exit s m =
     (let sp = get_sp s; x = X s;
          x = x(19 := ucast (ucast (m (sp + 16 * 16)) :: 32 word));
          x = ldp 30 20 (sp + 16 * 15) m x;
          s = s\<lparr>SPSR := (SPSR s)(1 := ucast (x 19))\<rparr>;
          s = s\<lparr>ELR := (ELR s)(1 := x 20)\<rparr>;
          x = ldp 0 1 (sp + 16 * 0) m x;
          x = ldp 2 3 (sp + 16 * 1) m x;
          x = ldp 4 5 (sp + 16 * 2) m x;
          x = ldp 6 7 (sp + 16 * 3) m x;
          x = ldp 8 9 (sp + 16 * 4) m x;
          x = ldp 10 11 (sp + 16 * 5) m x;
          x = ldp 12 13 (sp + 16 * 6) m x;
          x = ldp 14 15 (sp + 16 * 7) m x;
          x = ldp 16 17 (sp + 16 * 8) m x;
          x = ldp 18 19 (sp + 16 * 9) m x;
          x = ldp 20 21 (sp + 16 * 10) m x;
          x = ldp 22 23 (sp + 16 * 11) m x;
          x = ldp 24 25 (sp + 16 * 12) m x;
          x = ldp 26 27 (sp + 16 * 13) m x;
          x = ldp 28 29 (sp + 16 * 17) m x;
          s = s\<lparr>SP := (SP s)(0 := x 28)\<rparr>;
          x = ldp 28 29 (sp + 16 * 14) m x;
          s = set_sp (sp + 16 * 18) s
      in eret (s\<lparr>X := x\<rparr>))"

text \<open>A \<open>CoreContext\<close> in memory: \<open>gpr[30]\<close>, \<open>lr\<close> and the system registers one after the other.\<close>

definition read_context :: "ram \<Rightarrow> 64 word \<Rightarrow> core_context" where
  "read_context m p =
     \<lparr>gpr = (\<lambda>i. if i < 30 then m (p + of_nat (8 * i)) else 0), lr = m (p + 240), elr_el1 = m (p + 248),
      sprs_el1 = m (p + 256), esr_el1 = m (p + 264), sp_el0 = m (p + 272), far_el1 = m (p + 280)\<rparr>"

definition write_context :: "core_context \<Rightarrow> 64 word \<Rightarrow> ram \<Rightarrow> ram" where
  "write_context c p m a =
     (let i = unat (a - p) div 8
      in if unat (a - p) < 288 \<and> 8 dvd unat (a - p) then
           (if i < 30 then gpr c i else [lr c, elr_el1 c, sprs_el1 c, esr_el1 c, sp_el0 c, far_el1 c] ! (i - 30))
         else m a)"

text \<open>An interrupt while the code at \<open>pc\<close> runs: the processor takes it, the stub saves the registers, the C++ handler
  \<open>h\<close> works on the \<open>CoreContext\<close>, the stub loads the registers and returns. The handler may leave
  other values in the registers (\<open>junk\<close>); it gives back the stack pointer it got.\<close>

definition interrupt ::
    "(core_context \<Rightarrow> kernel \<Rightarrow> (core_context \<times> kernel) krun) \<Rightarrow> (nat \<Rightarrow> 64 word) \<Rightarrow> 64 word \<Rightarrow> cpu \<Rightarrow> ram \<Rightarrow> kernel \<Rightarrow>
     (64 word \<times> cpu \<times> kernel) krun" where
  "interrupt h junk pc s m k =
     (let s = take_exception pc s; (s, m) = kernel_entry s m; regs = X s 0
      in thn (h (read_context m regs) k) (\<lambda>(c, k).
           let m = write_context c regs m
           in case kernel_exit (s\<lparr>X := junk\<rparr>) m of
                None \<Rightarrow> undefined_use ''illegal exception return''
              | Some (pc, s) \<Rightarrow> ret (pc, s, k)))"

end
