(* ===== verification/SchedInvariant.thy ===== *)
theory SchedInvariant
  imports Scheduling
begin

text \<open>
  The invariant of the scheduler: the queues and locks are well formed, every task in a running queue
  has the priority of that queue, and the task that runs on a core is in a running queue of that core
  (or in no queue at all, as the code that starts a core). It is kept by every interrupt, and no
  interrupt loses or duplicates a task.
\<close>

subsection \<open>The invariant\<close>

definition placed :: "kernel \<Rightarrow> bool" where
  "placed k \<longleftrightarrow> (\<forall>c < NUM_CORES. \<forall>q < PRIORITIES. \<forall>t \<in> set (elements (runningQ k c q)). prio (tasks k t) = q)"

definition runs_here :: "kernel \<Rightarrow> nat \<Rightarrow> bool" where
  "runs_here k c \<longleftrightarrow> (\<exists>q < PRIORITIES. currentTask k c \<in> set (elements (runningQ k c q)))"

definition sched_inv :: "kernel \<Rightarrow> bool" where
  "sched_inv k \<longleftrightarrow> sched_ok k \<and> placed k \<and>
     (\<forall>c < NUM_CORES. runs_here k c \<or> currentTask k c \<notin> queued_tasks k)"

lemma running_queued:
  "c < NUM_CORES \<Longrightarrow> q < PRIORITIES \<Longrightarrow> t \<in> set (elements (runningQ k c q)) \<Longrightarrow> t \<in> queued_tasks k"
  by (auto simp: queued_tasks_def)

lemma all_tasks_update:
  assumes "c < NUM_CORES" "q < PRIORITIES"
    and "\<And>c' q'. c' \<noteq> c \<or> q' \<noteq> q \<Longrightarrow> members (runningQ k' c' q') = members (runningQ k c' q')"
    and "members (sleepingQ k') + members (runningQ k' c q) = members (sleepingQ k) + members (runningQ k c q)"
  shows "all_tasks k' = all_tasks k"
proof -
  let ?I = "{..<NUM_CORES} \<times> {..<PRIORITIES}"
  have sum: "(\<Sum>c \<in> {..<NUM_CORES}. \<Sum>q \<in> {..<PRIORITIES}. members (runningQ x c q)) =
      members (runningQ x c q) + (\<Sum>i \<in> ?I - {(c, q)}. members (runningQ x (fst i) (snd i)))" for x
    using assms(1,2)
    by (simp add: sum.cartesian_product case_prod_beta sum.remove [of ?I "(c, q)"])
  have "(\<Sum>i \<in> ?I - {(c, q)}. members (runningQ k' (fst i) (snd i))) =
      (\<Sum>i \<in> ?I - {(c, q)}. members (runningQ k (fst i) (snd i)))"
    by (rule sum.cong) (use assms(3) in \<open>auto simp: prod_eq_iff\<close>)
  then show ?thesis unfolding all_tasks_def sum using assms(4) by (simp add: add.assoc [symmetric])
qed

subsection \<open>Changes of the history alone\<close>

definition io_only :: "kernel \<Rightarrow> kernel \<Rightarrow> bool" where
  "io_only k k' \<longleftrightarrow> (\<exists>h. k' = k\<lparr>kernel_io := h\<rparr>)"

lemma io_only_refl [simp]: "io_only k k"
  unfolding io_only_def by (rule exI [of _ "kernel_io k"]) simp

lemma io_only_upd [simp]: "io_only k (k\<lparr>kernel_io := h\<rparr>)"
  by (auto simp: io_only_def)

lemma io_only_trans [trans]: "io_only a b \<Longrightarrow> io_only b c \<Longrightarrow> io_only a c"
  by (auto simp: io_only_def)

lemma sched_inv_io [simp]: "sched_inv (k\<lparr>kernel_io := h\<rparr>) = sched_inv k"
  by (simp add: sched_inv_def sched_ok_def placed_def runs_here_def queued_tasks_def)

lemma all_tasks_io [simp]: "all_tasks (k\<lparr>kernel_io := h\<rparr>) = all_tasks k"
  by (simp add: all_tasks_def)

lemma io_only_keeps: "io_only k k' \<Longrightarrow> sched_inv k' = sched_inv k \<and> all_tasks k' = all_tasks k"
  by (auto simp: io_only_def)

lemma say_io: "say dev f args k = ret k' \<Longrightarrow> io_only k k'"
  by (cases "print_no_lock dev (kernel_con k) f args (kernel_io k)") (auto simp: say_def)

lemma say_register_io: "say_register dev f reg k = ret k' \<Longrightarrow> io_only k k'"
  unfolding say_register_def Let_def case_prod_beta by (blast intro: say_io io_only_trans io_only_upd)

lemma read_time_io: "read_time dev k = ret (c, k') \<Longrightarrow> io_only k k'"
  by (cases "getCounter dev (kernel_io k)") (auto simp: read_time_def)

lemma say_queues_io: "say_queues ps dev i k = ret k' \<Longrightarrow> io_only k k'"
proof (induction ps arbitrary: k)
  case (Cons p ps)
  then show ?case by (auto simp: thn_ret_iff split: if_splits dest!: say_io intro: io_only_trans)
qed simp

lemma say_cores_io: "say_cores is dev k = ret k' \<Longrightarrow> io_only k k'"
proof (induction "is" arbitrary: k)
  case (Cons i "is")
  then show ?case by (auto simp: thn_ret_iff dest!: say_io say_queues_io intro: io_only_trans)
qed simp

lemma handle_uart_io:
  assumes "handle_uart dev k = ret k'"
  shows "io_only k k'"
  using assms unfolding handle_uart_def
  by (auto simp: thn_ret_iff dest!: say_io say_cores_io read_time_io say_register_io) (auto simp: io_only_def)

subsection \<open>Waking\<close>

lemma woken_inv:
  assumes "sched_inv k" "keeps_place f" "woken f ws k (k'\<lparr>sleepingQLock := l\<rparr>)" "sched_ok k'"
    and "all_tasks k' = all_tasks k"
  shows "sched_inv k'"
proof -
  have r: "elements (runningQ k' c q) =
      elements (runningQ k c q) @ map fst (filter (\<lambda>(t, c'). c' = c \<and> prio (tasks k t) = q) ws)" for c q
    using assms(3) by (simp add: woken_def)
  have p: "prio (tasks k' t) = prio (tasks k t)" for t
    using assms(2,3) by (simp add: woken_def keeps_place_def)
  have cur: "currentTask k' = currentTask k" using assms(3) by (simp add: woken_def)
  have "placed k'"
    using assms(1) unfolding placed_def p r by (auto simp: sched_inv_def placed_def)
  moreover have "queued_tasks k' = queued_tasks k" using assms(5) by (metis queued_all_tasks)
  moreover have "runs_here k c \<Longrightarrow> runs_here k' c" for c by (auto simp: runs_here_def cur r)
  ultimately show ?thesis using assms(1,4) by (auto simp: sched_inv_def cur)
qed

lemma wakeUpTimers_inv:
  assumes "clocked dev ticks" "sched_inv k"
  shows "\<exists>k'. wakeUpTimers dev fresh core k = ret k' \<and> sched_inv k' \<and> all_tasks k' = all_tasks k \<and>
    currentTask k' = currentTask k"
proof -
  have "sched_ok k" using assms(2) by (simp add: sched_inv_def)
  then obtain ws k' where k': "wakeUpTimers dev fresh core k = ret k'" "sched_ok k'" "all_tasks k' = all_tasks k"
      "woken no_timer ws k (k'\<lparr>sleepingQLock := sleepingQLock k\<rparr>)"
    using wakeUpTimers_spec [OF assms(1)] by blast
  have "currentTask k' = currentTask k" using k'(4) by (simp add: woken_def)
  then show ?thesis using k' woken_inv [OF assms(2) keeps_place_resets(2) k'(4,2,3)] by blast
qed

lemma wakeUpLocks_inv:
  assumes "sched_inv k"
  shows "\<exists>k'. wakeUpLocks dev fresh core k = ret k' \<and> sched_inv k' \<and> all_tasks k' = all_tasks k"
proof -
  have "sched_ok k" using assms by (simp add: sched_inv_def)
  then obtain ws k' where k': "wakeUpLocks dev fresh core k = ret k'" "sched_ok k'" "all_tasks k' = all_tasks k"
      "woken no_lock ws k (k'\<lparr>sleepingQLock := sleepingQLock k\<rparr>)"
    using wakeUpLocks_spec by blast
  then show ?thesis using woken_inv [OF assms keeps_place_resets(1) k'(4,2,3)] by blast
qed

subsection \<open>Switching and sleeping\<close>

lemma switched_fields:
  assumes "switched core regs k t regs' k'"
  shows "sleepingQ k' = sleepingQ k" "runningQ k' = runningQ k" "currentTask k' = (currentTask k)(core := t)"
    "sleepingQLock k' = sleepingQLock k" "unlocked (runningQLock k')"
    "prio (tasks k' u) = prio (tasks k u)" "isCorePinned (tasks k' u) = isCorePinned (tasks k u)"
    "corePinned (tasks k' u) = corePinned (tasks k u)"
proof -
  obtain rl h where k': "unlocked rl" "k' = (save_context regs core k)\<lparr>runningQLock := rl, kernel_io := h,
      currentTask := (currentTask k)(core := t)\<rparr>"
    using assms by (auto simp: switched_def)
  show "sleepingQ k' = sleepingQ k" "runningQ k' = runningQ k" "currentTask k' = (currentTask k)(core := t)"
    "sleepingQLock k' = sleepingQLock k" "unlocked (runningQLock k')"
    "prio (tasks k' u) = prio (tasks k u)" "isCorePinned (tasks k' u) = isCorePinned (tasks k u)"
    "corePinned (tasks k' u) = corePinned (tasks k u)"
    by (simp_all add: k' save_context_def update_task_def)
qed

lemma switched_inv:
  assumes "sched_ok k" "placed k" "\<forall>c < NUM_CORES. c \<noteq> core \<longrightarrow> runs_here k c \<or> currentTask k c \<notin> queued_tasks k"
    and "switched core regs k t regs' k'" "t \<in> set (elements (runningQ k core q))" "q < PRIORITIES"
  shows "sched_inv k' \<and> all_tasks k' = all_tasks k"
proof -
  note f = switched_fields [OF assms(4)]
  have all: "all_tasks k' = all_tasks k" by (simp add: all_tasks_def f)
  then have qt: "queued_tasks k' = queued_tasks k" by (metis queued_all_tasks)
  have "sched_ok k'" using assms(1) f qt by (simp add: sched_ok_def task_ok_def)
  moreover have "placed k'" using assms(2) f by (simp add: placed_def)
  moreover have "runs_here k' c \<or> currentTask k' c \<notin> queued_tasks k'" if "c < NUM_CORES" for c
    using assms(3,5,6) that qt by (cases "c = core") (auto simp: runs_here_def f)
  ultimately show ?thesis using all by (simp add: sched_inv_def)
qed

lemma next_queue_less: "next_queue k core = Some q \<Longrightarrow> q < PRIORITIES"
  by (auto simp: next_queue_def find_Some_iff)

lemma reschedule_inv:
  assumes "sched_ok k" "placed k" "\<forall>c < NUM_CORES. c \<noteq> core \<longrightarrow> runs_here k c \<or> currentTask k c \<notin> queued_tasks k"
    and "core < NUM_CORES" "isPreamptable core k" "reschedule dev core regs k = ret (regs', k')"
  shows "sched_inv k' \<and> all_tasks k' = all_tasks k"
proof -
  have spec: "case next_queue k core of
         None \<Rightarrow> reschedule dev core regs k = undefined_use ''next''
       | Some q \<Rightarrow> \<exists>t regs' k'. t \<in> set (elements (runningQ k core q)) \<and> switched core regs k t regs' k' \<and>
           (if elr_el1 (task_context (tasks k' t)) < 0xFFFF000000000000 then
              (\<forall>x. reschedule dev core regs k \<noteq> ret x) \<and> (\<forall>w. reschedule dev core regs k \<noteq> undefined_use w)
            else reschedule dev core regs k = ret (regs', k'))"
    using reschedule_spec [of k core dev regs] assms(1,4,5) by (simp add: sched_ok_def)
  then obtain q where q: "next_queue k core = Some q" using assms(6) by (cases "next_queue k core") auto
  then obtain t r k2 where t: "t \<in> set (elements (runningQ k core q))" "switched core regs k t r k2"
      "reschedule dev core regs k = ret (r, k2)"
    using spec assms(6) by (auto split: if_splits)
  then have "k2 = k'" using assms(6) by simp
  then show ?thesis using switched_inv [OF assms(1,2,3) t(2,1) next_queue_less [OF q]] by simp
qed

lemma reschedule_keeps:
  assumes "sched_inv k" "core < NUM_CORES" "reschedule dev core regs k = ret (regs', k')"
  shows "sched_inv k' \<and> all_tasks k' = all_tasks k"
proof (cases "isPreamptable core k")
  case True
  then show ?thesis using reschedule_inv [of k core] assms by (auto simp: sched_inv_def)
next
  case False
  then show ?thesis using assms by (simp add: reschedule_def)
qed

text \<open>Putting the current task to sleep, up to the switch: it leaves its running queue for the sleeping
  queue.\<close>

lemma handle_sleep_spec:
  assumes "sched_inv k" "core < NUM_CORES" "runs_here k core"
  shows "\<exists>k1. (\<forall>dev regs. handle_sleep dev fresh core regs k = reschedule dev core regs k1) \<and>
    sched_ok k1 \<and> placed k1 \<and> (\<forall>c < NUM_CORES. c \<noteq> core \<longrightarrow> runs_here k1 c \<or> currentTask k1 c \<notin> queued_tasks k1) \<and>
    all_tasks k1 = all_tasks k \<and> tasks k1 = tasks k \<and> currentTask k1 = currentTask k \<and> kernel_io k1 = kernel_io k \<and>
    members (sleepingQ k1) = members (sleepingQ k) + {#currentTask k core#} \<and>
    (\<forall>c q. members (runningQ k1 c q) = members (runningQ k c q) -
       (if c = core \<and> q = prio (current core k) then {#currentTask k core#} else {#}))"
proof -
  let ?t = "currentTask k core" and ?p = "prio (current core k)"
  have ok: "sched_ok k" "placed k" using assms(1) by (simp_all add: sched_inv_def)
  obtain q where "q < PRIORITIES" "?t \<in> set (elements (runningQ k core q))" using assms(3) by (auto simp: runs_here_def)
  then have p: "?p < PRIORITIES" "?t \<in># members (runningQ k core ?p)"
    using ok(2) assms(2) by (auto simp: placed_def current_def members_def)
  obtain rl where rl: "spin_running core core k = ret (k\<lparr>runningQLock := rl\<rparr>)"
      "unlocked (rl(core := spinlock_release (rl core)))"
    using unlocked_spin [of k core core] ok(1) assms(2) by (auto simp: sched_ok_def)
  have vq: "queue_ok (runningQ k core ?p)" "queue_ok (sleepingQ k)"
    using ok(1) assms(2) p(1) by (simp_all add: sched_ok_def)
  obtain q1 where q1: "quickSort (runningQ k core ?p) = Some q1" "queue_ok q1" "queue_ready q1"
      "members q1 = members (runningQ k core ?p)"
    using aq.sort_law [OF vq(1)] by blast
  have "?t \<in># members q1" using p(2) q1(4) by simp
  then obtain q' where q': "array_list_removeElement q1 ?t = (True, q')" "queue_ok q'" "members q' = members q1 - {#?t#}"
    using aq.remove_law [OF q1(2,3)] by blast
  define s where "s = array_list_add fresh (sleepingQ k) ?t"
  have s: "queue_ok s" "members s = members (sleepingQ k) + {#?t#}"
    using aq.add_law [OF vq(2)] by (simp_all add: s_def)
  define l where "l = spinlock_release ((sleepingQLock k)\<lparr>lock_val := SPLCK_LOCKED, ownerPid := pid (current core k)\<rparr>)"
  define k1 where "k1 = k\<lparr>runningQ := (runningQ k)(core := (runningQ k core)(?p := q')),
      runningQLock := rl(core := spinlock_release (rl core)), sleepingQ := s, sleepingQLock := l\<rparr>"
  have lock: "lock_val (sleepingQLock k) = 0" using ok(1) by (simp add: sched_ok_def)
  have h: "handle_sleep dev fresh core regs k = reschedule dev core regs k1" for dev regs
    using rl(1) q1(1) q'(1) lock
    by (simp add: handle_sleep_def current_def k1_def update_queue_def release_running_def spin_sleeping_def
        spinlock_spin_def release_sleeping_def s_def l_def)
  have m: "members (runningQ k1 c q) = members (runningQ k c q) - (if c = core \<and> q = ?p then {#?t#} else {#})" for c q
    using q'(3) q1(4) by (simp add: k1_def)
  have all: "all_tasks k1 = all_tasks k"
  proof (rule all_tasks_update [OF assms(2) p(1)])
    show "members (sleepingQ k1) + members (runningQ k1 core ?p) = members (sleepingQ k) + members (runningQ k core ?p)"
      using p(2) s(2) m [of core ?p] by (simp add: k1_def)
  qed (use m in auto)
  then have qt: "queued_tasks k1 = queued_tasks k" by (metis queued_all_tasks)
  have "sched_ok k1"
    using ok(1) rl(2) q'(2) s(1) qt
    by (simp add: sched_ok_def) (simp add: k1_def l_def spinlock_release_def SPLCK_UNLOCKED_def)
  moreover have sub: "set (elements (runningQ k1 c q)) \<subseteq> set (elements (runningQ k c q))" for c q
    using m [of c q] by (metis diff_subset_eq_self members_def set_mset_mono set_mset_mset)
  have tk: "tasks k1 = tasks k" by (simp add: k1_def)
  have "placed k1" using ok(2) sub unfolding placed_def tk by blast
  moreover have "runs_here k1 c \<or> currentTask k1 c \<notin> queued_tasks k1" if "c < NUM_CORES" "c \<noteq> core" for c
    using assms(1) that qt by (simp add: sched_inv_def runs_here_def) (simp add: k1_def)
  moreover have "tasks k1 = tasks k" "currentTask k1 = currentTask k" "kernel_io k1 = kernel_io k"
    "members (sleepingQ k1) = members (sleepingQ k) + {#?t#}"
    using s(2) by (simp_all add: k1_def)
  ultimately show ?thesis using h m all by blast
qed

subsection \<open>Every interrupt keeps the invariant\<close>

text \<open>A task goes to sleep only with preemption enabled, and only a task sleeps, not the code that
  starts a core.\<close>

definition may_sleep :: "kernel \<Rightarrow> nat \<Rightarrow> bool" where
  "may_sleep k core \<longleftrightarrow> isPreamptable core k \<and> runs_here k core"

lemma handle_sleep_inv:
  assumes "sched_inv k" "core < NUM_CORES" "may_sleep k core" "handle_sleep dev fresh core regs k = ret (regs', k')"
  shows "sched_inv k' \<and> all_tasks k' = all_tasks k"
proof -
  have here: "runs_here k core" using assms(3) by (simp add: may_sleep_def)
  obtain k1 where k1: "\<forall>dev regs. handle_sleep dev fresh core regs k = reschedule dev core regs k1"
      "sched_ok k1" "placed k1" "\<forall>c < NUM_CORES. c \<noteq> core \<longrightarrow> runs_here k1 c \<or> currentTask k1 c \<notin> queued_tasks k1"
      "all_tasks k1 = all_tasks k" "tasks k1 = tasks k" "currentTask k1 = currentTask k"
    using handle_sleep_spec [OF assms(1,2) here, of fresh] by blast
  have "isPreamptable core k1" using assms(3) k1(6,7) by (simp add: may_sleep_def isPreamptable_def current_def)
  moreover have "reschedule dev core regs k1 = ret (regs', k')" using assms(4) k1(1) by metis
  ultimately show ?thesis using reschedule_inv [OF k1(2-4) assms(2)] k1(5) by metis
qed

lemma handle_timer_inv:
  assumes "clocked dev ticks" "sched_inv k" "core < NUM_CORES" "handle_timer dev fresh core regs k = ret (regs', k')"
  shows "sched_inv k' \<and> all_tasks k' = all_tasks k"
proof -
  obtain k1 where k1: "wakeUpTimers dev fresh core k = ret k1" "sched_inv k1" "all_tasks k1 = all_tasks k"
    using wakeUpTimers_inv [OF assms(1,2)] by blast
  obtain r k2 where k2: "reschedule dev core regs k1 = ret (r, k2)"
    using assms(4) k1(1) by (auto simp: handle_timer_def thn_ret_iff)
  have "io_only k2 k'"
    using assms(4) k1(1) k2 by (auto simp: handle_timer_def thn_ret_iff sgi_def Let_def io_only_def)
  then show ?thesis using reschedule_keeps [OF k1(2) assms(3) k2] k1(3) by (auto dest: io_only_keeps)
qed

lemma dispatch_inv:
  assumes "clocked dev ticks" "sched_inv k" "core < NUM_CORES" "irq = SYSTEM_SLEEP_IRQ \<longrightarrow> may_sleep k core"
    and "dispatch dev fresh irq core regs k = ret (regs', k')"
  shows "sched_inv k' \<and> all_tasks k' = all_tasks k"
proof -
  have wake: "sched_inv k' \<and> all_tasks k' = all_tasks k"
    if "thn (wakeUpTimers dev fresh core k) (\<lambda>k. thn (wakeUpLocks dev fresh core k) (\<lambda>k. ret (regs, k))) = ret (regs', k')"
  proof -
    obtain k1 where k1: "wakeUpTimers dev fresh core k = ret k1" "sched_inv k1" "all_tasks k1 = all_tasks k"
      using wakeUpTimers_inv [OF assms(1,2)] by blast
    obtain k2 where "wakeUpLocks dev fresh core k1 = ret k2" "sched_inv k2" "all_tasks k2 = all_tasks k1"
      using wakeUpLocks_inv [OF k1(2)] by blast
    then show ?thesis using that k1 by simp
  qed
  have says: "sched_inv k' \<and> all_tasks k' = all_tasks k" if "io_only k k'"
    using io_only_keeps [OF that] assms(2) by simp
  consider "irq = SYSTEM_TIMER_IRQ_1" | "irq = SYSTEM_RESCHEDULE_IRQ" | "irq = SYSTEM_WAKEUP_ALL"
    | "irq = SYSTEM_SLEEP_IRQ" | "irq \<notin> {SYSTEM_TIMER_IRQ_1, SYSTEM_RESCHEDULE_IRQ, SYSTEM_WAKEUP_ALL, SYSTEM_SLEEP_IRQ}"
    by blast
  then show ?thesis
  proof cases
    case 1
    then show ?thesis using handle_timer_inv [OF assms(1-3)] assms(5) by (simp add: dispatch_def)
  next
    case 2
    then show ?thesis using reschedule_keeps [OF assms(2,3)] assms(5) by (simp add: dispatch_def irq_numbers)
  next
    case 3
    then show ?thesis using wake assms(5) by (simp add: dispatch_def irq_numbers)
  next
    case 4
    then show ?thesis using handle_sleep_inv [OF assms(2,3)] assms(4,5) by (simp add: dispatch_def irq_numbers)
  next
    case 5
    then have "io_only k k'"
      using assms(5)
      by (auto simp: dispatch_def thn_ret_iff dest!: say_io handle_uart_io split: if_splits) (auto simp: io_only_def)
    then show ?thesis by (rule says)
  qed
qed

lemma irq_handler_inv:
  assumes "clocked dev ticks" "sched_inv k" "core < NUM_CORES"
    and "unat (dev (kernel_io k) GICC_IAR AND 0x3FF) = SYSTEM_SLEEP_IRQ \<longrightarrow> may_sleep k core"
    and "irq_handler_spx dev fresh core regs k = ret (regs', k')"
  shows "sched_inv k' \<and> all_tasks k' = all_tasks k"
proof -
  let ?irq = "unat (dev (kernel_io k) GICC_IAR AND 0x3FF)"
  let ?k = "k\<lparr>kernel_io := snd (mmio_read dev GICC_IAR (kernel_io k))\<rparr>"
  have "may_sleep ?k core = may_sleep k core"
    by (simp add: may_sleep_def isPreamptable_def current_def runs_here_def)
  moreover obtain k1 where k1: "dispatch dev fresh ?irq core regs ?k = ret (regs', k1)" "io_only k1 k'"
    using assms(5) by (auto simp: irq_handler_spx_def thn_ret_iff case_prod_beta Let_def io_only_def)
  ultimately have "sched_inv k1 \<and> all_tasks k1 = all_tasks ?k"
    using dispatch_inv [of dev ticks ?k core ?irq] assms(1-4) by simp
  then show ?thesis using io_only_keeps [OF k1(2)] by simp
qed

subsection \<open>Runs\<close>

text \<open>
  Between interrupts the tasks run. Of what they do the steps have what touches the scheduler's state:
  asking to sleep, disabling and enabling preemption, acquiring and releasing mutexes, and noting the
  mutex they wait for.
\<close>

inductive sched_step :: "device \<Rightarrow> (int \<Rightarrow> nat) \<Rightarrow> kernel \<Rightarrow> kernel \<Rightarrow> bool" for dev fresh where
  interrupt: "core < NUM_CORES \<Longrightarrow>
    (unat (dev (kernel_io k) GICC_IAR AND 0x3FF) = SYSTEM_SLEEP_IRQ \<longrightarrow> may_sleep k core) \<Longrightarrow>
    irq_handler_spx dev fresh core regs k = ret (regs', k') \<Longrightarrow> sched_step dev fresh k k'"
| sleeps: "core < NUM_CORES \<Longrightarrow> task_sleep_ms dev core ms k = ret k' \<Longrightarrow> sched_step dev fresh k k'"
| disables: "core < NUM_CORES \<Longrightarrow> sched_step dev fresh k (preemptDisable core k)"
| enables: "core < NUM_CORES \<Longrightarrow> sched_step dev fresh k (preemptEnable core k)"
| mutexes: "sched_step dev fresh k (k\<lparr>locks := ls\<rparr>)"
| waits: "core < NUM_CORES \<Longrightarrow>
    sched_step dev fresh k (update_task (currentTask k core) (\<lambda>t. t\<lparr>sleepingOnLock := l\<rparr>) k)"

inductive sched_run :: "device \<Rightarrow> (int \<Rightarrow> nat) \<Rightarrow> kernel \<Rightarrow> kernel \<Rightarrow> bool" for dev fresh where
  start: "sched_run dev fresh k k"
| step: "sched_run dev fresh k k1 \<Longrightarrow> sched_step dev fresh k1 k2 \<Longrightarrow> sched_run dev fresh k k2"

lemma update_task_inv:
  assumes "sched_inv k" "\<And>x. prio (f x) = prio x" "\<And>x. isCorePinned (f x) = isCorePinned x"
    "\<And>x. corePinned (f x) = corePinned x"
  shows "sched_inv (update_task t f k) \<and> all_tasks (update_task t f k) = all_tasks k"
  using assms(1)
  by (auto simp: update_task_def sched_inv_def sched_ok_def placed_def runs_here_def queued_tasks_def all_tasks_def
      task_ok_def assms(2-4))

lemma sched_step_inv:
  assumes "sched_step dev fresh k k'" "clocked dev ticks" "sched_inv k"
  shows "sched_inv k' \<and> all_tasks k' = all_tasks k"
  using assms(1)
proof cases
  case (interrupt core regs regs')
  then show ?thesis using irq_handler_inv [OF assms(2,3)] by blast
next
  case (sleeps core ms)
  then obtain counter k1 where k1: "read_time dev k = ret (counter, k1)"
      "k' = task_sleep core (update_task (currentTask k core) (\<lambda>t. t\<lparr>timer := add64 counter (mul64 ms 1000)\<rparr>) k1)"
    by (auto simp: task_sleep_ms_def thn_ret_iff Let_def)
  have "sched_inv k1 \<and> all_tasks k1 = all_tasks k"
    using io_only_keeps [OF read_time_io [OF k1(1)]] assms(3) by simp
  then have "sched_inv (update_task (currentTask k core) (\<lambda>t. t\<lparr>timer := add64 counter (mul64 ms 1000)\<rparr>) k1) \<and>
      all_tasks (update_task (currentTask k core) (\<lambda>t. t\<lparr>timer := add64 counter (mul64 ms 1000)\<rparr>) k1) = all_tasks k"
    using update_task_inv [of k1] by auto
  then show ?thesis by (simp add: k1(2) task_sleep_def sgi_def)
next
  case (mutexes ls)
  then show ?thesis using assms(3)
    by (simp add: sched_inv_def sched_ok_def placed_def runs_here_def queued_tasks_def all_tasks_def)
qed (use update_task_inv [OF assms(3)] in \<open>simp_all add: preemptDisable_def preemptEnable_def\<close>)

lemma sched_run_inv:
  assumes "sched_run dev fresh k k'" "clocked dev ticks" "sched_inv k"
  shows "sched_inv k' \<and> all_tasks k' = all_tasks k"
  using assms(1,3)
proof (induction rule: sched_run.induct)
  case (start k)
  then show ?case by simp
next
  case (step k k1 k2)
  then show ?case using sched_step_inv [OF step.hyps(2) assms(2)] by simp
qed

lemma distinct_currents:
  assumes "sched_inv k" "\<forall>t. count (all_tasks k) t \<le> 1" "c < NUM_CORES" "c' < NUM_CORES" "c \<noteq> c'"
    and "runs_here k c" "runs_here k c'"
  shows "currentTask k c \<noteq> currentTask k c'"
proof
  assume same: "currentTask k c = currentTask k c'"
  let ?t = "currentTask k c" and ?I = "{..<NUM_CORES} \<times> {..<PRIORITIES}"
  obtain q q' where q: "q < PRIORITIES" "?t \<in># members (runningQ k c q)" "q' < PRIORITIES"
      "?t \<in># members (runningQ k c' q')"
    using assms(6,7) same by (auto simp: runs_here_def members_def)
  let ?rest = "\<Sum>i \<in> ?I - {(c, q)}. members (runningQ k (fst i) (snd i))"
  have "all_tasks k = members (sleepingQ k) + (members (runningQ k c q) + ?rest)"
    using assms(3) q(1)
    by (simp add: all_tasks_def sum.cartesian_product case_prod_beta sum.remove [of ?I "(c, q)"])
  moreover have "?t \<in># ?rest"
    using q(3,4) assms(4,5) by (auto simp: set_mset_sum intro!: bexI [of _ "(c', q')"])
  ultimately have "count (all_tasks k) ?t =
      count (members (sleepingQ k)) ?t + (count (members (runningQ k c q)) ?t + count ?rest ?t)"
    and "0 < count ?rest ?t" by simp_all
  moreover have "0 < count (members (runningQ k c q)) ?t" using q(2) by simp
  ultimately have "2 \<le> count (all_tasks k) ?t" by linarith
  then show False using assms(2) by (metis Suc_1 not_less_eq_eq)
qed


end
