(* ===== verification/SchedDemo.thy ===== *)
theory SchedDemo
  imports SchedInvariant
begin

text \<open>
  A kernel of four tasks on which the theorems about the scheduler are applied: tasks 1 and 2 are in
  the running queue of core 0, task 1 runs there; task 3 sleeps until the counter shows 5, task 4 waits
  for a mutex that is free. The other cores run code that is in no queue.
\<close>

definition queue_of :: "nat list \<Rightarrow> nat array_list" where
  "queue_of xs = \<lparr>arr = (\<lambda>i. if nat i < length xs then xs ! nat i else 0), al_len = 20,
     al_size = int (length xs), al_capacity = 20, al_sorted = False\<rparr>"

definition demo_task :: "nat \<Rightarrow> task" where
  "demo_task t = \<lparr>task_context = \<lparr>gpr = (\<lambda>_. of_nat t), lr = 0, elr_el1 = 0xFFFF000000080000, sprs_el1 = 0x364,
     esr_el1 = 0, sp_el0 = 0, far_el1 = 0\<rparr>, t_state = 0, pid = t, t_priority = 0, t_ticks = 0, prio = 20,
     premption = 0, t_flags = 0, timer = (if t = 3 then 5 else 0),
     sleepingOnLock = (if t = 4 then Some 0 else None), isCorePinned = False, corePinned = 0\<rparr>"

definition free_lock :: spinlock where
  "free_lock = \<lparr>lock_val = 0, ownerPid = 0\<rparr>"

definition demo_kernel :: kernel where
  "demo_kernel = \<lparr>tasks = demo_task, locks = (\<lambda>_. free_lock), runningQLock = (\<lambda>_. free_lock),
     sleepingQLock = free_lock, currentTask = (\<lambda>c. if c = 0 then 1 else 100 + c),
     runningQ = (\<lambda>c q. if c = 0 \<and> q = 20 then queue_of [1, 2] else queue_of []), sleepingQ = queue_of [4, 3],
     freePID = 5, nextCore = 0, allocations = 0, heap_free = 0,
     kernel_con = \<lparr>console_set = True, console_lock = None\<rparr>, kernel_io = []\<rparr>"

lemma queue_of_simps [simp]: "elements (queue_of xs) = xs" "al_size (queue_of xs) = int (length xs)"
proof -
  show "al_size (queue_of xs) = int (length xs)" by (simp add: queue_of_def)
  show "elements (queue_of xs) = xs"
    by (rule nth_equalityI) (simp_all add: elements_def queue_of_def nth_upto)
qed

lemma demo_simps:
  "elements (runningQ demo_kernel c q) = (if c = 0 \<and> q = 20 then [1, 2] else [])"
  "elements (sleepingQ demo_kernel) = [4, 3]" "prio (tasks demo_kernel t) = 20"
  "currentTask demo_kernel c = (if c = 0 then 1 else 100 + c)" "kernel_io demo_kernel = []"
  "isCorePinned (tasks demo_kernel t) = False" "premption (tasks demo_kernel t) = 0"
  "timer (tasks demo_kernel t) = (if t = 3 then 5 else 0)" "lock_free demo_kernel t = (t = 4)"
  by (simp_all add: demo_kernel_def demo_task_def lock_free_def free_lock_def)

lemma demo_queued: "queued_tasks demo_kernel = {1, 2, 3, 4}"
  by (auto simp: queued_tasks_def demo_simps NUM_CORES_def PRIORITIES_def split: if_splits)

lemma demo_ok: "sched_ok demo_kernel"
proof -
  have "queue_ok (runningQ demo_kernel c q)" "queue_ok (sleepingQ demo_kernel)" for c q
    by (simp_all add: queue_ok_def demo_kernel_def)
  moreover have "unlocked (runningQLock demo_kernel)" "lock_val (sleepingQLock demo_kernel) = 0"
    by (simp_all add: unlocked_def demo_kernel_def free_lock_def)
  moreover have "task_ok (tasks demo_kernel t)" for t
    by (simp add: task_ok_def demo_simps PRIORITIES_def)
  ultimately show ?thesis by (simp add: sched_ok_def)
qed

lemma demo_inv: "sched_inv demo_kernel"
proof -
  have "runs_here demo_kernel 0"
    unfolding runs_here_def by (rule exI [of _ 20]) (simp add: demo_simps PRIORITIES_def)
  then show ?thesis
    by (auto simp: sched_inv_def demo_ok demo_queued placed_def demo_simps split: if_splits)
qed

theorem calcNextCore_correct_witness:
  "\<exists>c rl. calcNextCore (stepping_timer 10) 0 3 demo_kernel = ret (c, demo_kernel\<lparr>runningQLock := rl\<rparr>) \<and> c < NUM_CORES"
  using calcNextCore_correct [OF demo_ok, of 3 "stepping_timer 10" 0] by (auto simp: demo_queued)

theorem wakeUpLocks_correct_witness:
  "\<exists>k'. wakeUpLocks (stepping_timer 10) (\<lambda>_. 0) 0 demo_kernel = ret k' \<and> all_tasks k' = all_tasks demo_kernel \<and>
     (\<forall>t \<in> set (elements (sleepingQ k')). \<not> lock_free k' t) \<and> lock_free demo_kernel 4"
  using wakeUpLocks_correct [OF demo_ok, of "stepping_timer 10" "\<lambda>_. 0" 0] by (auto simp: demo_simps)


lemma demo_next_queue: "next_queue demo_kernel 0 = Some 20"
  by (simp add: next_queue_def load_def array_list_getSize_def demo_kernel_def PRIORITIES_def upt_rec)

text \<open>The interrupted code and both tasks resume at kernel addresses.\<close>

definition demo_regs :: core_context where
  "demo_regs = task_context (demo_task 9)"

lemma demo_switch_elr:
  assumes "switched 0 demo_regs (demo_kernel\<lparr>kernel_io := h\<rparr>) t regs' k'"
  shows "elr_el1 (task_context (tasks k' t)) = 0xFFFF000000080000"
  using assms by (auto simp: switched_def save_context_def update_task_def copyRegs_def demo_regs_def demo_task_def
      demo_kernel_def)

lemma demo_io: "demo_kernel\<lparr>kernel_io := []\<rparr> = demo_kernel"
  by (simp add: demo_kernel_def)

lemma demo_preemptable: "isPreamptable 0 demo_kernel"
  by (simp add: isPreamptable_def current_def demo_simps)

theorem reschedule_correct_witness:
  "\<exists>t regs' k'. t \<in> {1, 2} \<and> reschedule (stepping_timer 10) 0 demo_regs demo_kernel = ret (regs', k') \<and>
     switched 0 demo_regs demo_kernel t regs' k'"
  using reschedule_correct [OF demo_ok, of 0 "stepping_timer 10" demo_regs] demo_next_queue demo_preemptable
    demo_switch_elr [of "[]", unfolded demo_io]
  by (fastforce simp: demo_simps NUM_CORES_def)

text \<open>A machine on which every interrupt is the request to choose a task anew.\<close>

definition rescheduling :: device where
  "rescheduling h reg = (if reg = GICC_IAR then 2 else stepping_timer 10 h reg)"

lemma clocked_rescheduling: "clocked rescheduling (stepping 10)"
  using clocked_stepping [of 10]
  by (simp add: clocked_def rescheduling_def timer_registers gic_registers)

lemma demo_interrupt:
  "\<exists>regs' k'. irq_handler_spx rescheduling fresh 0 demo_regs demo_kernel = ret (regs', k')"
proof -
  let ?k = "demo_kernel\<lparr>kernel_io := [Read GICC_IAR 2]\<rparr>"
  have nq: "next_queue ?k 0 = Some 20" "isPreamptable 0 ?k"
    using demo_next_queue demo_preemptable
    by (simp_all add: next_queue_def load_def isPreamptable_def current_def)
  have ok: "unlocked (runningQLock ?k)" "\<forall>q < PRIORITIES. queue_ok (runningQ ?k 0 q)"
    using demo_ok by (simp_all add: sched_ok_def NUM_CORES_def)
  obtain regs' k' where "reschedule rescheduling 0 demo_regs ?k = ret (regs', k')"
    using reschedule_spec [OF ok(1) _ ok(2), of rescheduling demo_regs] nq demo_switch_elr [of "[Read GICC_IAR 2]"]
    by (fastforce simp: NUM_CORES_def)
  then show ?thesis
    by (simp add: irq_handler_spx_def mmio_read_def rescheduling_def dispatch_def irq_numbers demo_simps Let_def)
qed


end
