(* ===== verification/TrapSpec.thy ===== *)
theory TrapSpec
  imports Trap SchedDemo
begin

text \<open>
  The round trip of the registers through an interrupt, and the context switch as the tasks see it.
\<close>


text \<open>The registers as a list of the 36 words of the frame.\<close>

definition frame_words :: "cpu \<Rightarrow> 64 word list" where
  "frame_words s = map (X s) [0..<31] @ [ELR s 1, ucast (SPSR s 1), ESR_EL1 s, SP s 0, FAR_EL1 s]"

lemma frame_words_list:
  "frame_words s = [X s 0, X s 1, X s 2, X s 3, X s 4, X s 5, X s 6, X s 7, X s 8, X s 9, X s 10, X s 11, X s 12, X s 13,
    X s 14, X s 15, X s 16, X s 17, X s 18, X s 19, X s 20, X s 21, X s 22, X s 23, X s 24, X s 25, X s 26, X s 27,
    X s 28, X s 29, X s 30, ELR s 1, ucast (SPSR s 1), ESR_EL1 s, SP s 0, FAR_EL1 s]"
  by (simp add: frame_words_def upt_rec numeral_eq_Suc)

primrec store_words :: "64 word list \<Rightarrow> 64 word \<Rightarrow> ram \<Rightarrow> ram" where
  "store_words [] p m = m"
| "store_words (w # ws) p m = store_words ws (p + 8) (m(p := w))"

lemma store_words_other:
  assumes "8 * length ws \<le> unat (a - p)"
  shows "store_words ws p m a = m a"
  using assms
proof (induction ws arbitrary: p m)
  case Nil
  then show ?case by simp
next
  case (Cons w ws)
  then have d: "a - p \<noteq> 0" "8 \<le> unat (a - p)" by auto
  then have "unat (a - (p + 8)) = unat (a - p) - 8" using unat_diff_8 [OF d(1)] by (simp add: diff_diff_eq)
  then have "store_words ws (p + 8) (m(p := w)) a = (m(p := w)) a"
    using Cons.prems by (intro Cons.IH) simp
  then show ?case using d by auto
qed

lemma store_words_at:
  assumes "i < length ws" "8 * length ws < 2 ^ 64"
  shows "store_words ws p m (p + of_nat (8 * i)) = ws ! i"
  using assms
proof (induction ws arbitrary: i p m)
  case Nil
  then show ?case by simp
next
  case (Cons w ws)
  show ?case
  proof (cases i)
    case 0
    have "unat (p - (p + 8)) = 2 ^ 64 - 8" by (simp add: unat_minus_one unat_word_ariths)
    then have "store_words ws (p + 8) (m(p := w)) p = (m(p := w)) p"
      using Cons.prems(2) by (intro store_words_other) simp
    then show ?thesis using 0 by simp
  next
    case (Suc j)
    have "store_words ws (p + 8) (m(p := w)) (p + 8 + of_nat (8 * j)) = ws ! j"
      using Cons.prems Suc by (intro Cons.IH) auto
    then show ?thesis using Suc by (simp add: algebra_simps)
  qed
qed

lemma kernel_entry_eq:
  assumes "level s = 1" "SPSel s = 1"
  shows "snd (kernel_entry s m) = store_words (frame_words s) (SP s 1 - 288) m"
    "X (fst (kernel_entry s m)) 0 = SP s 1 - 288" "level (fst (kernel_entry s m)) = 1" "SPSel (fst (kernel_entry s m)) = 1"
    "SP (fst (kernel_entry s m)) 1 = SP s 1 - 288"
  using assms
  by (simp_all add: kernel_entry_def Let_def stp_def frame_words_list set_sp_def get_sp_def sp_index_def add.assoc)

lemma less_30: "i < 30 \<longleftrightarrow>
    (i = 0 \<or> i = 1) \<or> (i = 2 \<or> i = 3) \<or> (i = 4 \<or> i = 5) \<or> (i = 6 \<or> i = 7) \<or> (i = 8 \<or> i = 9) \<or>
    (i = 10 \<or> i = 11) \<or> (i = 12 \<or> i = 13) \<or> (i = 14 \<or> i = 15) \<or> (i = 16 \<or> i = 17) \<or> (i = 18 \<or> i = 19) \<or>
    (i = 20 \<or> i = 21) \<or> (i = 22 \<or> i = 23) \<or> (i = 24 \<or> i = 25) \<or> (i = 26 \<or> i = 27) \<or> (i = 28 \<or> i = (29 :: nat))"
  by (auto simp: less_Suc_eq numeral_eq_Suc)

text \<open>The registers \<open>_kernel_exit\<close> leaves, as the frame has them.\<close>

definition loaded :: "core_context \<Rightarrow> cpu \<Rightarrow> cpu" where
  "loaded c s = s\<lparr>SPSR := (SPSR s)(1 := ucast (sprs_el1 c)), ELR := (ELR s)(1 := elr_el1 c),
     SP := (SP s)(0 := sp_el0 c, 1 := SP s 1 + 288),
     X := (\<lambda>i. if i < 30 then gpr c i else if i = 30 then lr c else X s i)\<rparr>"

lemma ucast_status: "ucast (ucast (ucast (w :: 64 word) :: 32 word) :: 64 word) = (ucast w :: 32 word)"
  by (rule bit_word_eqI) (simp add: bit_simps)

lemma kernel_exit_eq:
  assumes "level s = 1" "SPSel s = 1"
  shows "kernel_exit s m = eret (loaded (read_context m (SP s 1)) s)"
proof -
  let ?p = "SP s 1"
  let ?c = "read_context m ?p"
  have regs: "ldp 28 29 (?p + 16 * 14) m (ldp 28 29 (?p + 16 * 17) m (ldp 26 27 (?p + 16 * 13) m (ldp 24 25 (?p + 16 * 12) m
      (ldp 22 23 (?p + 16 * 11) m (ldp 20 21 (?p + 16 * 10) m (ldp 18 19 (?p + 16 * 9) m (ldp 16 17 (?p + 16 * 8) m
      (ldp 14 15 (?p + 16 * 7) m (ldp 12 13 (?p + 16 * 6) m (ldp 10 11 (?p + 16 * 5) m (ldp 8 9 (?p + 16 * 4) m
      (ldp 6 7 (?p + 16 * 3) m (ldp 4 5 (?p + 16 * 2) m (ldp 2 3 (?p + 16 * 1) m (ldp 0 1 (?p + 16 * 0) m
      (ldp 30 20 (?p + 16 * 15) m ((X s)(19 := w)))))))))))))))))) =
      (\<lambda>i. if i < 30 then gpr ?c i else if i = 30 then lr ?c else X s i)" for w
  proof
    fix i
    show "(ldp 28 29 (?p + 16 * 14) m (ldp 28 29 (?p + 16 * 17) m (ldp 26 27 (?p + 16 * 13) m (ldp 24 25 (?p + 16 * 12) m
      (ldp 22 23 (?p + 16 * 11) m (ldp 20 21 (?p + 16 * 10) m (ldp 18 19 (?p + 16 * 9) m (ldp 16 17 (?p + 16 * 8) m
      (ldp 14 15 (?p + 16 * 7) m (ldp 12 13 (?p + 16 * 6) m (ldp 10 11 (?p + 16 * 5) m (ldp 8 9 (?p + 16 * 4) m
      (ldp 6 7 (?p + 16 * 3) m (ldp 4 5 (?p + 16 * 2) m (ldp 2 3 (?p + 16 * 1) m (ldp 0 1 (?p + 16 * 0) m
      (ldp 30 20 (?p + 16 * 15) m ((X s)(19 := w))))))))))))))))))) i =
        (if i < 30 then gpr ?c i else if i = 30 then lr ?c else X s i)"
      unfolding less_30 by (auto simp: ldp_def read_context_def add.assoc)
  qed
  have early: "ldp 30 20 a m y 19 = y 19" "ldp 30 20 a m y 20 = m (a + 8)" "ldp 28 29 a m y 28 = m a" for a y
    by (simp_all add: ldp_def)
  have c: "m (?p + 16 * 15 + 8) = elr_el1 ?c" "m (?p + 16 * 17) = sp_el0 ?c" "m (?p + 16 * 16) = sprs_el1 ?c"
    by (simp_all add: read_context_def add.assoc)
  have sp: "get_sp s = ?p" using assms by (simp add: get_sp_def sp_index_def)
  show ?thesis
    unfolding kernel_exit_def Let_def sp early c fun_upd_same regs ucast_status
    using assms by (simp add: loaded_def set_sp_def sp_index_def del: One_nat_def)
qed

lemma unat_frame:
  assumes "k < 2 ^ 20"
  shows "unat (p + of_nat k - p :: 64 word) = k"
  using assms by (simp add: unat_of_nat)

lemma read_write_context:
  "read_context (write_context c p m) p = c\<lparr>gpr := (\<lambda>i. if i < 30 then gpr c i else 0)\<rparr>"
proof -
  have "write_context c p m (p + of_nat (8 * i)) = gpr c i" if "i < 30" for i
    using that unat_frame [of "8 * i" p] by (simp add: write_context_def Let_def del: of_nat_mult)
  moreover have "write_context c p m (p + 240) = lr c" "write_context c p m (p + 248) = elr_el1 c"
    "write_context c p m (p + 256) = sprs_el1 c" "write_context c p m (p + 264) = esr_el1 c"
    "write_context c p m (p + 272) = sp_el0 c" "write_context c p m (p + 280) = far_el1 c"
    by (simp_all add: write_context_def Let_def)
  ultimately show ?thesis by (cases c) (simp add: read_context_def fun_eq_iff del: of_nat_mult)
qed

text \<open>A running task: level 1, one of the two stack pointers, no bits set in the status fields that are not there.\<close>

definition running :: "cpu \<Rightarrow> bool" where
  "running s \<longleftrightarrow> level s = 1 \<and> (SPSel s = 0 \<or> SPSel s = 1) \<and> DAIF s AND 0x3c0 = DAIF s \<and>
     NZCV s AND 0xf0000000 = NZCV s"

text \<open>\<open>describes c pc s\<close>: the context \<open>c\<close> describes a core that runs the code at \<open>pc\<close> in the state \<open>s\<close>.\<close>

definition status_holds :: "32 word \<Rightarrow> cpu \<Rightarrow> bool" where
  "status_holds p s \<longleftrightarrow> level s = unat (drop_bit 2 p AND 3) \<and> SPSel s = p AND 1 \<and> DAIF s = p AND 0x3c0 \<and>
     NZCV s = p AND 0xf0000000"

definition describes :: "core_context \<Rightarrow> 64 word \<Rightarrow> cpu \<Rightarrow> bool" where
  "describes c pc s \<longleftrightarrow> (\<forall>i < 30. gpr c i = X s i) \<and> lr c = X s 30 \<and> elr_el1 c = pc \<and> sp_el0 c = SP s 0 \<and>
     status_holds (ucast (sprs_el1 c)) s"

lemma describes_unique:
  assumes "describes c pc s" "describes c pc' s'"
  shows "pc' = pc" "\<forall>i < 31. X s' i = X s i" "SP s' 0 = SP s 0" "level s' = level s" "SPSel s' = SPSel s"
    "DAIF s' = DAIF s" "NZCV s' = NZCV s"
proof -
  show "\<forall>i < 31. X s' i = X s i"
  proof (intro allI impI)
    fix i :: nat
    assume "i < 31"
    then have "i < 30 \<or> i = 30" by auto
    then show "X s' i = X s i" using assms by (auto simp: describes_def)
  qed
qed (use assms in \<open>auto simp: describes_def status_holds_def\<close>)

lemma pstate_holds:
  assumes "running s"
  shows "status_holds (pstate s) s" "\<not> bit (pstate s) 4" "\<not> bit (pstate s) 1"
proof -
  have n: "NZCV s = NZCV s AND 0xf0000000" and d: "DAIF s = DAIF s AND 0x3c0" and l: "level s = 1"
    using assms by (simp_all add: running_def)
  have p: "pstate s = (NZCV s AND 0xf0000000) OR (DAIF s AND 0x3c0) OR 4 OR SPSel s"
    using n d by (simp add: pstate_def l push_bit_eq_mult)
  have sel: "SPSel s = 0 \<or> SPSel s = 1" using assms by (simp add: running_def)
  have "pstate s AND 1 = SPSel s" "pstate s AND 0x3c0 = DAIF s AND 0x3c0" "pstate s AND 0xf0000000 = NZCV s AND 0xf0000000"
    "pstate s AND 0xc = 4" "pstate s AND 0x10 = 0" "pstate s AND 2 = 0"
    using sel unfolding p by (auto simp: bit.conj_disj_distrib2 and.assoc)
  moreover have "drop_bit 2 (pstate s) AND 3 = drop_bit 2 (pstate s AND 0xc)" by simp
  moreover have "bit (pstate s) 4 = bit (pstate s AND 0x10) 4" "bit (pstate s) 1 = bit (pstate s AND 2) 1"
    by (simp_all add: bit_and_iff bit_unat)
  ultimately show "status_holds (pstate s) s" "\<not> bit (pstate s) 4" "\<not> bit (pstate s) 1"
    using n d by (simp_all add: status_holds_def l)
qed

subsection \<open>The round trip\<close>

text \<open>The context the handler finds when the code at \<open>pc\<close> is interrupted in the state \<open>s\<close>.\<close>

definition saved :: "64 word \<Rightarrow> cpu \<Rightarrow> core_context" where
  "saved pc s = \<lparr>gpr = (\<lambda>i. if i < 30 then X s i else 0), lr = X s 30, elr_el1 = pc, sprs_el1 = ucast (pstate s),
     esr_el1 = ESR_EL1 s, sp_el0 = SP s 0, far_el1 = FAR_EL1 s\<rparr>"

text \<open>A context that an exception return accepts as a task at level 1.\<close>

definition resumable :: "core_context \<Rightarrow> bool" where
  "resumable c \<longleftrightarrow> (let p = ucast (sprs_el1 c) :: 32 word in drop_bit 2 p AND 3 = 1 \<and> \<not> bit p 4 \<and> \<not> bit p 1)"

lemma ucast_pstate: "ucast (ucast (w :: 32 word) :: 64 word) = w"
  by (rule bit_word_eqI) (simp add: bit_simps)

lemma saved_holds:
  assumes "running s"
  shows "describes (saved pc s) pc s" "resumable (saved pc s)"
proof -
  note p = pstate_holds [OF assms]
  have "unat (drop_bit 2 (pstate s) AND 3) = 1" using p(1) assms by (simp add: status_holds_def running_def)
  then have "drop_bit 2 (pstate s) AND 3 = 1" by (simp add: word_unat_eq_iff)
  then show "describes (saved pc s) pc s" "resumable (saved pc s)"
    using p by (simp_all add: describes_def saved_def resumable_def ucast_pstate Let_def)
qed

lemma entry_context:
  assumes "running s" "kernel_entry (take_exception pc s) m = (s', m')"
  shows "read_context m' (SP s 1 - 288) = saved pc s" "X s' 0 = SP s 1 - 288" "level s' = 1" "SPSel s' = 1"
    "SP s' 1 = SP s 1 - 288" "288 \<le> unat (a - (SP s 1 - 288)) \<Longrightarrow> m' a = m a"
proof -
  let ?s = "take_exception pc s"
  have t: "level ?s = 1" "SPSel ?s = 1" "SP ?s = SP s" "X ?s = X s" "ELR ?s 1 = pc" "SPSR ?s 1 = pstate s"
    "ESR_EL1 ?s = ESR_EL1 s" "FAR_EL1 ?s = FAR_EL1 s"
    by (simp_all add: take_exception_def)
  note e = kernel_entry_eq [OF t(1,2), of m, unfolded assms(2) fst_conv snd_conv t(3)]
  show "X s' 0 = SP s 1 - 288" "level s' = 1" "SPSel s' = 1" "SP s' 1 = SP s 1 - 288" using e by simp_all
  have len: "length (frame_words ?s) = 36" by (simp add: frame_words_def)
  show "m' a = m a" if "288 \<le> unat (a - (SP s 1 - 288))"
    using that store_words_other [of "frame_words ?s"] unfolding e(1) len by simp
  have at: "m' (SP s 1 - 288 + of_nat (8 * i)) = frame_words ?s ! i" if "i < 36" for i
    using that store_words_at [of i "frame_words ?s"] unfolding e(1) len by simp
  have "frame_words ?s ! i = X s i" if "i < 31" for i
    using that unfolding frame_words_def t by (simp add: nth_append)
  moreover have "frame_words ?s ! 31 = pc" "frame_words ?s ! 32 = ucast (pstate s)" "frame_words ?s ! 33 = ESR_EL1 s"
    "frame_words ?s ! 34 = SP s 0" "frame_words ?s ! 35 = FAR_EL1 s"
    unfolding frame_words_def t by (simp_all add: nth_append)
  ultimately show "read_context m' (SP s 1 - 288) = saved pc s"
    using at at [of 30] at [of 31] at [of 32] at [of 33] at [of 34] at [of 35]
    by (simp add: read_context_def saved_def fun_eq_iff del: of_nat_mult)
qed

lemma exit_resumes:
  assumes "level s = 1" "SPSel s = 1" "read_context m (SP s 1) = c\<lparr>gpr := (\<lambda>i. if i < 30 then gpr c i else 0)\<rparr>" "resumable c"
  shows "\<exists>s'. kernel_exit s m = Some (elr_el1 c, s') \<and> describes c (elr_el1 c) s' \<and> SP s' 1 = SP s 1 + 288 \<and> running s'"
proof -
  let ?p = "ucast (sprs_el1 c) :: 32 word"
  have p: "drop_bit 2 ?p AND 3 = 1" "\<not> bit ?p 4" "\<not> bit ?p 1" using assms(4) by (simp_all add: resumable_def Let_def)
  have sel: "?p AND 1 = 0 \<or> ?p AND 1 = 1" by (simp add: and_one_eq mod2_eq_if)
  show ?thesis
    unfolding kernel_exit_eq [OF assms(1,2)] assms(3) eret_def Let_def
    using assms(1) p sel
    by (simp add: loaded_def describes_def status_holds_def running_def and.assoc del: One_nat_def)
qed

lemma interrupt_spec:
  assumes "running s" "h (saved pc s) k = ret (c, k')" "resumable c"
  shows "\<exists>s'. interrupt h junk pc s m k = ret (elr_el1 c, s', k') \<and> describes c (elr_el1 c) s' \<and> SP s' 1 = SP s 1 \<and> running s'"
proof -
  obtain s1 m1 where e: "kernel_entry (take_exception pc s) m = (s1, m1)" by (cases "kernel_entry (take_exception pc s) m")
  note en = entry_context [OF assms(1) e]
  let ?s = "s1\<lparr>X := junk\<rparr>" and ?m = "write_context c (SP s 1 - 288) m1"
  have "level ?s = 1" "SPSel ?s = 1" "SP ?s 1 = SP s 1 - 288" using en by simp_all
  moreover have "read_context ?m (SP ?s 1) = c\<lparr>gpr := (\<lambda>i. if i < 30 then gpr c i else 0)\<rparr>"
    using en(5) by (simp add: read_write_context)
  ultimately obtain s' where "kernel_exit ?s ?m = Some (elr_el1 c, s')" "describes c (elr_el1 c) s'"
    "SP s' 1 = SP s 1" "running s'"
    using exit_resumes [of ?s ?m c] assms(3) by auto
  then show ?thesis using e en(1,2) assms(2) by (simp add: interrupt_def)
qed

text \<open>C23: an interrupt whose handler leaves the \<open>CoreContext\<close> as it got it is invisible to the code it
  interrupts: it goes on at the same address with all 31 registers, both stack pointers, the level, the
  flags and the interrupt masks as they were, whatever the handler left in the registers.\<close>

theorem interrupt_invisible:
  assumes "running s" "\<And>c. h c k = ret (c, k')"
  shows "\<exists>s'. interrupt h junk pc s m k = ret (pc, s', k') \<and> (\<forall>i < 31. X s' i = X s i) \<and> SP s' 0 = SP s 0 \<and>
    SP s' 1 = SP s 1 \<and> level s' = level s \<and> SPSel s' = SPSel s \<and> DAIF s' = DAIF s \<and> NZCV s' = NZCV s"
proof -
  note sv = saved_holds [OF assms(1), of pc]
  obtain s' where s': "interrupt h junk pc s m k = ret (elr_el1 (saved pc s), s', k')"
    "describes (saved pc s) (elr_el1 (saved pc s)) s'" "SP s' 1 = SP s 1"
    using interrupt_spec [where h = h, OF assms(1) assms(2) sv(2)] by blast
  moreover have "elr_el1 (saved pc s) = pc" by (simp add: saved_def)
  ultimately show ?thesis using describes_unique [OF sv(1) s'(2)] by auto
qed

definition demo_cpu :: cpu where
  "demo_cpu = (reset_core 0)\<lparr>level := 1, SPSel := 0, DAIF := 0x340, SP := (\<lambda>n. if n = 0 then 0xffff000000700000 else 0xffff0000006a1000),
     X := of_nat\<rparr>"

lemma demo_cpu_running: "running demo_cpu"
  by (simp add: running_def demo_cpu_def reset_core_def)

theorem interrupt_invisible_witness:
  "\<exists>s'. interrupt (\<lambda>c k. ret (c, k)) (\<lambda>_. 7) 0xffff000000092000 demo_cpu (\<lambda>_. 0) demo_kernel = ret (0xffff000000092000, s', demo_kernel) \<and>
     X s' 29 = 29 \<and> SP s' 1 = 0xffff0000006a1000"
  using interrupt_invisible [OF demo_cpu_running, of "\<lambda>c k. ret (c, k)" demo_kernel demo_kernel "\<lambda>_. 7" "0xffff000000092000" "\<lambda>_. 0"]
  by (auto simp: demo_cpu_def)

subsection \<open>A context switch\<close>

text \<open>The contexts of the tasks in a queue, but for the one that runs, are those of tasks of the kernel.\<close>

definition can_resume :: "kernel \<Rightarrow> nat \<Rightarrow> nat \<Rightarrow> bool" where
  "can_resume k core q \<longleftrightarrow>
     (\<forall>u \<in> set (elements (runningQ k core q)). u \<noteq> currentTask k core \<longrightarrow>
        resumable (task_context (tasks k u)) \<and> 0xFFFF000000000000 \<le> elr_el1 (task_context (tasks k u)))"

lemma holds_copy:
  "describes (copyRegs c d) pc s = describes c pc s" "resumable (copyRegs c d) = resumable c"
  "elr_el1 (copyRegs c d) = elr_el1 c"
  by (simp_all add: describes_def copyRegs_def resumable_def)

lemma switched_tasks:
  assumes "switched core regs k u regs' k'"
  shows "currentTask k' core = u"
    "task_context (tasks k' v) =
      (if v = currentTask k core then copyRegs regs (task_context (tasks k v)) else task_context (tasks k v))"
    "regs' = copyRegs (task_context (tasks k' u)) regs"
  using assms by (auto simp: switched_def save_context_def update_task_def)

lemma sp0_reschedules:
  assumes "unat (dev (kernel_io k) GICC_IAR AND 0x3FF) = SYSTEM_RESCHEDULE_IRQ"
    and "reschedule dev core regs (k\<lparr>kernel_io := Read GICC_IAR (dev (kernel_io k) GICC_IAR) # kernel_io k\<rparr>) = ret (regs', k')"
  shows "irq_handler_sp0 dev fresh core regs k = ret (regs', k'\<lparr>kernel_io := mmio_write GICC_EOIR 2 (kernel_io k')\<rparr>)"
proof -
  have "dev (kernel_io k) GICC_IAR AND 0x3FF = 2" using assms(1) by (simp add: word_unat_eq_iff irq_numbers)
  then show ?thesis using assms
    by (simp add: irq_handler_sp0_def irq_handler_spx_def mmio_read_def dispatch_def irq_numbers Let_def)
qed

text \<open>C7: a rescheduling interrupt that reaches a core while a task runs, through the vector
  table, the stub, the C++ handler and back: the code at \<open>pc\<close> stops, with everything it needs
  to go on in the context of its task; another task of the first queue that is not empty (or the same one)
  goes on exactly where and as its context says; the stack of the core is as before, and the contexts of
  the other tasks are untouched.\<close>

theorem interrupt_switches_tasks:
  assumes "running s" "0xFFFF000000000000 \<le> pc" "sched_ok k" "core < NUM_CORES" "isPreamptable core k"
    "next_queue k core = Some q" "can_resume k core q"
    "unat (dev (kernel_io k) GICC_IAR AND 0x3FF) = SYSTEM_RESCHEDULE_IRQ"
  shows "\<exists>u pc' s' k'. interrupt (irq_handler_sp0 dev fresh core) junk pc s m k = ret (pc', s', k') \<and>
    u \<in> set (elements (runningQ k core q)) \<and> currentTask k' core = u \<and>
    describes (task_context (tasks k' u)) pc' s' \<and>
    describes (task_context (tasks k' (currentTask k core))) pc s \<and>
    (\<forall>v. v \<noteq> currentTask k core \<longrightarrow> task_context (tasks k' v) = task_context (tasks k v)) \<and>
    SP s' 1 = SP s 1 \<and> running s'"
proof -
  let ?k = "k\<lparr>kernel_io := Read GICC_IAR (dev (kernel_io k) GICC_IAR) # kernel_io k\<rparr>"
  let ?regs = "saved pc s"
  have ok: "unlocked (runningQLock ?k)" "\<forall>q < PRIORITIES. queue_ok (runningQ ?k core q)"
    using assms(3,4) by (simp_all add: sched_ok_def)
  have nq: "next_queue ?k core = Some q" "isPreamptable core ?k"
    using assms(5,6) by (simp_all add: next_queue_def load_def isPreamptable_def current_def)
  obtain u regs' k1 where u: "u \<in> set (elements (runningQ k core q))" "switched core ?regs ?k u regs' k1"
    "if elr_el1 (task_context (tasks k1 u)) < 0xFFFF000000000000
     then (\<forall>x. reschedule dev core ?regs ?k \<noteq> ret x) \<and> (\<forall>w. reschedule dev core ?regs ?k \<noteq> undefined_use w)
     else reschedule dev core ?regs ?k = ret (regs', k1)"
    using reschedule_spec [OF ok(1) assms(4) ok(2), of dev ?regs] nq by auto
  note sw = switched_tasks [OF u(2)]
  note sv = saved_holds [OF assms(1), of pc]
  have "elr_el1 ?regs = pc" by (simp add: saved_def)
  then have res: "resumable (task_context (tasks k1 u))" "0xFFFF000000000000 \<le> elr_el1 (task_context (tasks k1 u))"
    using assms(2,7) u(1) sv(2) unfolding sw(2) can_resume_def by (auto simp: holds_copy)
  then have ret: "reschedule dev core ?regs ?k = ret (regs', k1)" using u(3) by (simp add: not_less [symmetric])
  let ?k' = "k1\<lparr>kernel_io := mmio_write GICC_EOIR 2 (kernel_io k1)\<rparr>"
  have "resumable regs'" using res(1) unfolding sw(3) holds_copy .
  with interrupt_spec [where h = "irq_handler_sp0 dev fresh core", OF assms(1) sp0_reschedules [OF assms(8) ret]]
  obtain s' where s': "interrupt (irq_handler_sp0 dev fresh core) junk pc s m k = ret (elr_el1 regs', s', ?k')"
    "describes regs' (elr_el1 regs') s'" "SP s' 1 = SP s 1" "running s'" by blast
  have "describes (task_context (tasks k1 u)) (elr_el1 regs') s'" using s'(2) unfolding sw(3) holds_copy .
  moreover have "describes (task_context (tasks k1 (currentTask k core))) pc s"
    using sv(1) by (simp add: sw(2) holds_copy)
  moreover have "v \<noteq> currentTask k core \<Longrightarrow> task_context (tasks k1 v) = task_context (tasks k v)" for v
    by (simp add: sw(2))
  ultimately show ?thesis using s' u(1) sw(1) by fastforce
qed

theorem interrupt_switches_tasks_witness:
  "\<exists>u s' k'. u \<in> {1, 2} \<and> interrupt (irq_handler_sp0 rescheduling (\<lambda>_. 0) 0) (\<lambda>_. 7) 0xffff000000092000 demo_cpu (\<lambda>_. 0) demo_kernel =
      ret (if u = 1 then 0xffff000000092000 else 0xFFFF000000080000, s', k') \<and> currentTask k' 0 = u"
proof -
  have "next_queue demo_kernel 0 = Some 20" by (rule demo_next_queue)
  have r: "can_resume demo_kernel 0 20"
    by (auto simp: can_resume_def demo_simps) (auto simp: demo_kernel_def demo_task_def resumable_def bit_unat Let_def)
  have i: "unat (rescheduling (kernel_io demo_kernel) GICC_IAR AND 0x3FF) = SYSTEM_RESCHEDULE_IRQ"
    by (simp add: rescheduling_def irq_numbers)
  obtain u pc' s' k' where u: "interrupt (irq_handler_sp0 rescheduling (\<lambda>_. 0) 0) (\<lambda>_. 7) 0xffff000000092000 demo_cpu (\<lambda>_. 0) demo_kernel =
      ret (pc', s', k')" "u \<in> {1, 2}" "currentTask k' 0 = u" "describes (task_context (tasks k' u)) pc' s'"
    "describes (task_context (tasks k' 1)) 0xffff000000092000 demo_cpu"
    "\<forall>v. v \<noteq> 1 \<longrightarrow> task_context (tasks k' v) = task_context (tasks demo_kernel v)"
    using interrupt_switches_tasks [where dev = rescheduling and core = 0 and k = demo_kernel, OF demo_cpu_running _ demo_ok _ demo_preemptable demo_next_queue r i, of "0xffff000000092000" "\<lambda>_. 0" "\<lambda>_. 7" "\<lambda>_. 0"]
    by (auto simp: demo_simps NUM_CORES_def)
  have "pc' = (if u = 1 then 0xffff000000092000 else 0xFFFF000000080000)"
    using u(2,4,5,6) by (auto simp: describes_def demo_kernel_def demo_task_def)
  then show ?thesis using u by auto
qed

end
