(* ===== verification/LockAsm.thy ===== *)
theory LockAsm
  imports Spinlocks
begin

text \<open>
  The lock primitives of \<open>src/asm/functions.S\<close> (\<open>_spin_lock\<close>, \<open>_test_set_lock\<close>, \<open>_spin_unlock\<close>), one
  instruction of one core at a time, for any number of cores in any order. \<open>Spinlocks\<close> and \<open>Mutex\<close> use
  their effect as one step; the theorems here say that this is sound, and that no core
  sleeps while the lock is free.

  The processor: \<open>ldaxr\<close> marks the word for its core; any store by another core removes the mark
  and is an event for the core that had it; \<open>stxr\<close> stores only if the mark is still there, and may fail all the
  same; \<open>wfe\<close> waits for an event, \<open>sevl\<close> makes one for its own core. Taking and leaving an interrupt can remove
  the mark at any time, and leaves an event. Memory is seen in one order: the loads acquire and the stores
  release, as their names say.
\<close>

subsection \<open>Instructions\<close>

text \<open>The instruction a core executes next, and where it is outside the functions.\<close>

datatype lock_place =
    Elsewhere        \<comment> \<open>does not use the lock\<close>
  | S_sevl           \<comment> \<open>\<open>_spin_lock\<close>: \<open>sevl\<close>\<close>
  | S_wfe            \<comment> \<open>\<open>l1: wfe\<close>\<close>
  | S_ldaxr          \<comment> \<open>\<open>l2: ldaxr w1, [x0]\<close>\<close>
  | S_test           \<comment> \<open>\<open>cbnz w1, l1\<close>\<close>
  | S_stxr           \<comment> \<open>\<open>stxr w1, w2, [x0]\<close>\<close>
  | S_retry          \<comment> \<open>\<open>cbnz w1, l2\<close>\<close>
  | T_ldaxr          \<comment> \<open>\<open>_test_set_lock\<close>: \<open>ldaxr w1, [x0]\<close>\<close>
  | T_test           \<comment> \<open>\<open>cbnz w1, busy\<close>\<close>
  | T_stxr           \<comment> \<open>\<open>stxr w1, w2, [x0]\<close>\<close>
  | T_check          \<comment> \<open>\<open>cbnz w1, busy\<close>\<close>
  | T_taken          \<comment> \<open>\<open>mov x0, 1\<close>, then \<open>ret\<close>\<close>
  | T_busy           \<comment> \<open>\<open>mov x0, 0\<close>, then \<open>ret\<close>\<close>
  | Section          \<comment> \<open>returned with the lock\<close>
  | U_stlr           \<comment> \<open>\<open>_spin_unlock\<close>: \<open>stlr wzr, [x0]\<close>\<close>

record lock_machine =
  word_at :: "32 word"
  place_of :: "nat \<Rightarrow> lock_place"
  w1 :: "nat \<Rightarrow> 32 word"
  marked :: "nat \<Rightarrow> bool"
  event :: "nat \<Rightarrow> bool"

definition go :: "nat \<Rightarrow> lock_place \<Rightarrow> lock_machine \<Rightarrow> lock_machine" where
  "go c p s = s\<lparr>place_of := (place_of s)(c := p)\<rparr>"

text \<open>A store to the word by core \<open>c\<close>.\<close>

definition store_word :: "nat \<Rightarrow> 32 word \<Rightarrow> lock_machine \<Rightarrow> lock_machine" where
  "store_word c v s = s\<lparr>word_at := v, event := (\<lambda>d. event s d \<or> (d \<noteq> c \<and> marked s d)),
     marked := (\<lambda>d. d = c \<and> marked s d)\<rparr>"

definition ldaxr :: "nat \<Rightarrow> lock_machine \<Rightarrow> lock_machine" where
  "ldaxr c s = s\<lparr>w1 := (w1 s)(c := word_at s), marked := (marked s)(c := True)\<rparr>"

definition stxr :: "bool \<Rightarrow> nat \<Rightarrow> 32 word \<Rightarrow> lock_machine \<Rightarrow> lock_machine" where
  "stxr fails c v s =
     (if marked s c \<and> \<not> fails
      then let s = store_word c v s in s\<lparr>w1 := (w1 s)(c := 0), marked := (marked s)(c := False)\<rparr>
      else s\<lparr>w1 := (w1 s)(c := 1), marked := (marked s)(c := False)\<rparr>)"

text \<open>The next instruction of core \<open>c\<close>. A core outside the functions and one that holds the lock choose what to do next
  (\<open>spin\<close>); a core at \<open>wfe\<close> with no event has no step.\<close>

definition lock_step :: "bool \<Rightarrow> bool \<Rightarrow> nat \<Rightarrow> lock_machine \<Rightarrow> lock_machine option" where
  "lock_step fails spin c s =
     (case place_of s c of
        Elsewhere \<Rightarrow> Some (go c (if spin then S_sevl else T_ldaxr) s)
      | S_sevl \<Rightarrow> Some (go c S_wfe (s\<lparr>event := (event s)(c := True)\<rparr>))
      | S_wfe \<Rightarrow> (if event s c then Some (go c S_ldaxr (s\<lparr>event := (event s)(c := False)\<rparr>)) else None)
      | S_ldaxr \<Rightarrow> Some (go c S_test (ldaxr c s))
      | S_test \<Rightarrow> Some (go c (if w1 s c \<noteq> 0 then S_wfe else S_stxr) s)
      | S_stxr \<Rightarrow> Some (go c S_retry (stxr fails c 1 s))
      | S_retry \<Rightarrow> Some (go c (if w1 s c \<noteq> 0 then S_ldaxr else Section) s)
      | T_ldaxr \<Rightarrow> Some (go c T_test (ldaxr c s))
      | T_test \<Rightarrow> Some (go c (if w1 s c \<noteq> 0 then T_busy else T_stxr) s)
      | T_stxr \<Rightarrow> Some (go c T_check (stxr fails c 1 s))
      | T_check \<Rightarrow> Some (go c (if w1 s c \<noteq> 0 then T_busy else T_taken) s)
      | T_taken \<Rightarrow> Some (go c Section s)
      | T_busy \<Rightarrow> Some (go c Elsewhere s)
      | Section \<Rightarrow> Some (go c U_stlr s)
      | U_stlr \<Rightarrow> Some (go c Elsewhere (store_word c 0 s)))"

text \<open>An interrupt on core \<open>c\<close>.\<close>

definition disturb :: "nat \<Rightarrow> lock_machine \<Rightarrow> lock_machine" where
  "disturb c s = s\<lparr>marked := (marked s)(c := False), event := (event s)(c := True)\<rparr>"

definition lock_start :: lock_machine where
  "lock_start = \<lparr>word_at = 0, place_of = (\<lambda>_. Elsewhere), w1 = (\<lambda>_. 0), marked = (\<lambda>_. False), event = (\<lambda>_. False)\<rparr>"

inductive lock_run :: "lock_machine \<Rightarrow> bool" where
  start: "lock_run lock_start"
| step: "lock_run s \<Longrightarrow> lock_step fails spin c s = Some s' \<Longrightarrow> lock_run s'"
| interrupted: "lock_run s \<Longrightarrow> lock_run (disturb c s)"

subsection \<open>The invariant\<close>

text \<open>A core has the lock from the exclusive store that succeeds to the store that frees it.\<close>

definition has_lock :: "lock_machine \<Rightarrow> nat \<Rightarrow> bool" where
  "has_lock s c \<longleftrightarrow> (place_of s c = S_retry \<or> place_of s c = T_check) \<and> w1 s c = 0 \<or>
     place_of s c = T_taken \<or> place_of s c = Section \<or> place_of s c = U_stlr"

text \<open>A core between a load that found the lock free and its store.\<close>

definition may_store :: "lock_machine \<Rightarrow> nat \<Rightarrow> bool" where
  "may_store s c \<longleftrightarrow> (place_of s c = S_test \<or> place_of s c = T_test) \<and> w1 s c = 0 \<or>
     place_of s c = S_stxr \<or> place_of s c = T_stxr"

text \<open>A core that has found the lock taken and waits for an event.\<close>

definition will_wait :: "lock_machine \<Rightarrow> nat \<Rightarrow> bool" where
  "will_wait s c \<longleftrightarrow> place_of s c = S_test \<and> w1 s c \<noteq> 0 \<or> place_of s c = S_wfe"

definition lock_inv :: "lock_machine \<Rightarrow> bool" where
  "lock_inv s \<longleftrightarrow> (word_at s = 0 \<or> word_at s = 1) \<and> (word_at s = 1 \<longleftrightarrow> (\<exists>c. has_lock s c)) \<and>
     (\<forall>c d. has_lock s c \<longrightarrow> has_lock s d \<longrightarrow> c = d) \<and>
     (\<forall>c. may_store s c \<longrightarrow> marked s c \<longrightarrow> word_at s = 0) \<and>
     (\<forall>c. will_wait s c \<longrightarrow> event s c \<or> marked s c \<and> word_at s = 1)"

lemmas lock_view = has_lock_def may_store_def will_wait_def

lemma lock_inv_start: "lock_inv lock_start"
  by (simp add: lock_inv_def lock_start_def lock_view)

lemma lock_invD:
  assumes "lock_inv s"
  shows "word_at s = 0 \<or> word_at s = 1" "word_at s = 1 \<longleftrightarrow> (\<exists>c. has_lock s c)"
    "has_lock s c \<Longrightarrow> has_lock s d \<Longrightarrow> c = d" "may_store s c \<Longrightarrow> marked s c \<Longrightarrow> word_at s = 0"
    "will_wait s c \<Longrightarrow> event s c \<or> marked s c \<and> word_at s = 1"
  using assms unfolding lock_inv_def by blast+

text \<open>A step that leaves the word alone: only the core that takes it changes its place.\<close>

lemma lock_inv_local:
  assumes "lock_inv s" "word_at s' = word_at s"
    "\<And>d. d \<noteq> c \<Longrightarrow> place_of s' d = place_of s d \<and> w1 s' d = w1 s d \<and> marked s' d = marked s d \<and> event s' d = event s d"
    "has_lock s' c \<longleftrightarrow> has_lock s c" "may_store s' c \<Longrightarrow> marked s' c \<Longrightarrow> word_at s = 0"
    "will_wait s' c \<Longrightarrow> event s' c \<or> marked s' c \<and> word_at s = 1"
  shows "lock_inv s'"
proof -
  have other: "has_lock s' d \<longleftrightarrow> has_lock s d" "may_store s' d \<longleftrightarrow> may_store s d" "will_wait s' d \<longleftrightarrow> will_wait s d"
    if "d \<noteq> c" for d
    using assms(3) [OF that] by (simp_all add: lock_view)
  have lock: "has_lock s' d \<longleftrightarrow> has_lock s d" for d using other(1) assms(4) by (cases "d = c") auto
  note inv = lock_invD [OF assms(1)]
  have "may_store s' d \<Longrightarrow> marked s' d \<Longrightarrow> word_at s = 0" for d
    using other(2) assms(3,5) inv(4) by (cases "d = c") auto
  moreover have "will_wait s' d \<Longrightarrow> event s' d \<or> marked s' d \<and> word_at s = 1" for d
    using other(3) assms(3,6) inv(5) by (cases "d = c") auto
  ultimately show ?thesis using inv(1,2,3) unfolding lock_inv_def assms(2) lock by blast
qed

lemma lock_inv_disturb:
  assumes "lock_inv s"
  shows "lock_inv (disturb c s)"
  by (rule lock_inv_local [OF assms, where c = c]) (simp_all add: disturb_def lock_view)

lemma lock_inv_acquire:
  assumes "lock_inv s" "may_store s c" "marked s c" "s' = go c p (stxr False c 1 s)" "p = S_retry \<or> p = T_check"
  shows "lock_inv s'" "word_at s = 0" "word_at s' = 1" "has_lock s' c"
proof -
  note inv = lock_invD [OF assms(1)]
  show w: "word_at s = 0" using inv(4) assms(2,3) by blast
  then have none: "\<not> has_lock s d" for d using inv(2) by auto
  have s': "word_at s' = 1" "place_of s' = (place_of s)(c := p)" "w1 s' = (w1 s)(c := 0)" "\<not> marked s' d"
    "event s' d \<longleftrightarrow> event s d \<or> d \<noteq> c \<and> marked s d" for d
    using assms(3) by (simp_all add: assms(4) go_def stxr_def store_word_def Let_def)
  show "word_at s' = 1" by (rule s'(1))
  have lock: "has_lock s' d \<longleftrightarrow> d = c" for d
    using none [of d] assms(5) by (auto simp: lock_view s'(2,3))
  then show "has_lock s' c" by simp
  have "event s' d" if "will_wait s' d" for d
  proof -
    have "d \<noteq> c" using that assms(5) by (auto simp: lock_view s'(2,3))
    then have "will_wait s d" using that by (simp add: lock_view s'(2,3))
    then show ?thesis using inv(5) [of d] w s'(5) by auto
  qed
  then show "lock_inv s'" unfolding lock_inv_def lock using s'(1,4) by auto
qed

lemma lock_inv_release:
  assumes "lock_inv s" "place_of s c = U_stlr" "s' = go c Elsewhere (store_word c 0 s)"
  shows "lock_inv s'" "word_at s = 1" "word_at s' = 0"
proof -
  note inv = lock_invD [OF assms(1)]
  have c: "has_lock s c" using assms(2) by (simp add: lock_view)
  then show "word_at s = 1" using inv(2) by blast
  have s': "word_at s' = 0" "place_of s' = (place_of s)(c := Elsewhere)" "w1 s' = w1 s"
    "event s' d \<longleftrightarrow> event s d \<or> d \<noteq> c \<and> marked s d" for d
    by (simp_all add: assms(3) go_def store_word_def)
  show "word_at s' = 0" by (rule s'(1))
  have none: "\<not> has_lock s' d" for d
  proof (cases "d = c")
    case True
    then show ?thesis by (simp add: lock_view s'(2))
  next
    case False
    then have "has_lock s' d \<longleftrightarrow> has_lock s d" by (simp add: lock_view s'(2,3))
    then show ?thesis using inv(3) [OF c, of d] False by auto
  qed
  have "event s' d" if "will_wait s' d" for d
  proof -
    have "d \<noteq> c" using that by (auto simp: lock_view s'(2))
    then have "will_wait s d" using that by (simp add: lock_view s'(2,3))
    then show ?thesis using inv(5) [of d] s'(4) \<open>d \<noteq> c\<close> by auto
  qed
  then show "lock_inv s'" unfolding lock_inv_def using none s'(1) by auto
qed

text \<open>What a step does: nothing to the word, or it takes the free lock, or the core that has the lock frees it.\<close>

lemma lock_step_cases:
  assumes "lock_inv s" "lock_step fails spin c s = Some s'"
  shows "lock_inv s'" "word_at s' = word_at s \<and> (has_lock s' c \<longleftrightarrow> has_lock s c) \<or>
    word_at s = 0 \<and> word_at s' = 1 \<and> has_lock s' c \<or>
    word_at s = 1 \<and> word_at s' = 0 \<and> place_of s c = U_stlr"
proof -
  note inv = lock_invD [OF assms(1)]
  have "lock_inv s' \<and> (word_at s' = word_at s \<and> (has_lock s' c \<longleftrightarrow> has_lock s c) \<or>
    word_at s = 0 \<and> word_at s' = 1 \<and> has_lock s' c \<or>
    word_at s = 1 \<and> word_at s' = 0 \<and> place_of s c = U_stlr)"
  proof -
    have local: "lock_inv s' \<and> word_at s' = word_at s \<and> (has_lock s' c \<longleftrightarrow> has_lock s c)"
      if "word_at s' = word_at s" "\<And>d. d \<noteq> c \<Longrightarrow> place_of s' d = place_of s d \<and> w1 s' d = w1 s d \<and> marked s' d = marked s d \<and> event s' d = event s d"
        "has_lock s' c \<longleftrightarrow> has_lock s c" "may_store s' c \<Longrightarrow> marked s' c \<Longrightarrow> word_at s = 0"
        "will_wait s' c \<Longrightarrow> event s' c \<or> marked s' c \<and> word_at s = 1"
      using lock_inv_local [OF assms(1) that] that(1,3) by blast
    show ?thesis
    proof (cases "place_of s c = U_stlr")
      case True
      then have "s' = go c Elsewhere (store_word c 0 s)" using assms(2) by (simp add: lock_step_def)
      from lock_inv_release [OF assms(1) True this] show ?thesis using True by blast
    next
      case not_unlock: False
      show ?thesis
      proof (cases "(place_of s c = S_stxr \<or> place_of s c = T_stxr) \<and> marked s c \<and> \<not> fails")
        case True
        then have m: "may_store s c" "marked s c" by (auto simp: lock_view)
        have "s' = go c (if place_of s c = S_stxr then S_retry else T_check) (stxr False c 1 s)"
          using True assms(2) by (auto simp: lock_step_def)
        from lock_inv_acquire [OF assms(1) m this] show ?thesis by auto
      next
        case False
        have "lock_inv s' \<and> word_at s' = word_at s \<and> (has_lock s' c \<longleftrightarrow> has_lock s c)"
        proof (rule local)
          show "word_at s' = word_at s"
            using assms(2) not_unlock False
            by (auto simp: lock_step_def go_def ldaxr_def stxr_def split: lock_place.splits if_splits)
          show "place_of s' d = place_of s d \<and> w1 s' d = w1 s d \<and> marked s' d = marked s d \<and> event s' d = event s d" if "d \<noteq> c" for d
            using assms(2) not_unlock False that
            by (auto simp: lock_step_def go_def ldaxr_def stxr_def split: lock_place.splits if_splits)
          show "has_lock s' c \<longleftrightarrow> has_lock s c"
            using assms(2) not_unlock False
            by (auto simp: lock_step_def go_def ldaxr_def stxr_def lock_view split: lock_place.splits if_splits)
          show "may_store s' c \<Longrightarrow> marked s' c \<Longrightarrow> word_at s = 0"
            using assms(2) not_unlock False inv(4) [of c]
            by (auto simp: lock_step_def go_def ldaxr_def stxr_def lock_view split: lock_place.splits if_splits)
          show "will_wait s' c \<Longrightarrow> event s' c \<or> marked s' c \<and> word_at s = 1"
            using assms(2) not_unlock False inv(1) inv(5) [of c]
            by (auto simp: lock_step_def go_def ldaxr_def stxr_def lock_view split: lock_place.splits if_splits)
        qed
        then show ?thesis by blast
      qed
    qed
  qed
  then show "lock_inv s'" "word_at s' = word_at s \<and> (has_lock s' c \<longleftrightarrow> has_lock s c) \<or>
    word_at s = 0 \<and> word_at s' = 1 \<and> has_lock s' c \<or>
    word_at s = 1 \<and> word_at s' = 0 \<and> place_of s c = U_stlr" by blast+
qed

lemma lock_run_inv: "lock_run s \<Longrightarrow> lock_inv s"
proof (induction rule: lock_run.induct)
  case start
  then show ?case by (rule lock_inv_start)
next
  case (step s fails spin c s')
  then show ?case using lock_step_cases(1) by blast
next
  case (interrupted s c)
  then show ?case by (intro lock_inv_disturb)
qed

subsection \<open>The abstract lock\<close>

definition lock_of :: "lock_machine \<Rightarrow> spinlock" where
  "lock_of s = \<lparr>lock_val = unat (word_at s), ownerPid = 0\<rparr>"

lemma lock_of_ops:
  "word_at s = 0 \<Longrightarrow> word_at s' = 1 \<Longrightarrow> spinlock_testAndSet True (lock_of s) = (1, lock_of s')"
  "word_at s = 0 \<Longrightarrow> word_at s' = 1 \<Longrightarrow> spinlock_spin 0 (lock_of s) = Some (lock_of s')"
  "word_at s' = 0 \<Longrightarrow> lock_of s' = spinlock_release (lock_of s)"
  "word_at s' = word_at s \<Longrightarrow> lock_of s' = lock_of s"
  by (simp_all add: lock_of_def spinlock_testAndSet_def spinlock_spin_def spinlock_release_def SPLCK_LOCKED_def
      SPLCK_UNLOCKED_def)

text \<open>C10: the instructions of \<open>_spin_lock\<close>, \<open>_test_set_lock\<close> and \<open>_spin_unlock\<close>, interleaved in any way by any number
  of cores and interrupts, refine the lock of \<open>Spinlocks\<close>: each instruction leaves the lock as it is, or is
  the one that takes the free lock for its core, as \<open>spin\<close> and a successful \<open>testAndSet\<close> do, or is the release by
  the core that has it; and never do two cores have the lock.\<close>

theorem lock_primitives_refine:
  assumes "lock_run s" "lock_step fails spin c s = Some s'"
  shows "(lock_of s' = lock_of s \<and> (has_lock s' c \<longleftrightarrow> has_lock s c) \<or>
      spinlock_testAndSet True (lock_of s) = (1, lock_of s') \<and> spinlock_spin 0 (lock_of s) = Some (lock_of s') \<and>
        has_lock s' c \<or>
      lock_of s' = spinlock_release (lock_of s) \<and> has_lock s c \<and> \<not> has_lock s' c) \<and>
    (\<forall>d e. has_lock s' d \<and> has_lock s' e \<longrightarrow> d = e) \<and>
    (lock_val (lock_of s') = 0 \<longleftrightarrow> (\<forall>d. \<not> has_lock s' d))"
proof -
  note inv = lock_run_inv [OF assms(1)]
  note st = lock_step_cases [OF inv assms(2)]
  note inv' = lock_invD [OF st(1)]
  have "place_of s c = U_stlr \<Longrightarrow> has_lock s c \<and> \<not> has_lock s' c"
    using assms(2) by (auto simp: lock_step_def lock_view go_def store_word_def)
  moreover have "lock_val (lock_of s') = 0 \<longleftrightarrow> word_at s' = 0" by (simp add: lock_of_def unat_eq_0)
  ultimately show ?thesis
    using st(2) lock_of_ops [where s = s and s' = s'] inv'(1,2,3) by auto
qed

lemma lock_primitives_refine_witness:
  "\<exists>s s'. lock_run s \<and> lock_step False False 1 s = Some s' \<and> lock_val (lock_of s') = 1 \<and> has_lock s' 1 \<and> \<not> has_lock s' 0"
proof -
  define s where "s = lock_start\<lparr>place_of := (\<lambda>_. Elsewhere)(1 := T_stxr), marked := (\<lambda>_. False)(1 := True)\<rparr>"
  have a: "lock_step False False 1 lock_start = Some (go 1 T_ldaxr lock_start)" by (simp add: lock_step_def lock_start_def)
  have b: "lock_step False False 1 (go 1 T_ldaxr lock_start) = Some (go 1 T_test (ldaxr 1 (go 1 T_ldaxr lock_start)))"
    by (simp add: lock_step_def lock_start_def go_def)
  have c: "lock_step False False 1 (go 1 T_test (ldaxr 1 (go 1 T_ldaxr lock_start))) = Some s"
    by (simp add: lock_step_def lock_start_def go_def ldaxr_def s_def fun_eq_iff)
  have r: "lock_run s"
    by (rule lock_run.step [OF lock_run.step [OF lock_run.step [OF lock_run.start a] b] c])
  define s' where "s' = go 1 T_check (stxr False 1 1 s)"
  have d: "lock_step False False 1 s = Some s'" by (simp add: lock_step_def s_def s'_def)
  have "lock_val (lock_of s') = 1" "has_lock s' 1"
    by (simp_all add: s'_def s_def lock_of_def go_def stxr_def store_word_def lock_view lock_start_def Let_def)
  then show ?thesis using lock_primitives_refine [OF r d] r d by (metis One_nat_def zero_neq_one)
qed

subsection \<open>No core sleeps while the lock is free\<close>

text \<open>Core \<open>c\<close> alone, \<open>n\<close> instructions, the exclusive store failing only without the mark.\<close>

primrec alone :: "nat \<Rightarrow> nat \<Rightarrow> lock_machine \<Rightarrow> lock_machine option" where
  "alone 0 c s = Some s"
| "alone (Suc n) c s = (case lock_step False True c s of None \<Rightarrow> None | Some s \<Rightarrow> alone n c s)"

definition in_spin_lock :: "lock_place \<Rightarrow> bool" where
  "in_spin_lock p \<longleftrightarrow> p \<in> {S_sevl, S_wfe, S_ldaxr, S_test, S_stxr, S_retry}"

definition obtains_lock :: "nat \<Rightarrow> nat \<Rightarrow> lock_machine \<Rightarrow> bool" where
  "obtains_lock n c s \<longleftrightarrow> (\<exists>s'. alone n c s = Some s' \<and> place_of s' c = Section \<and> word_at s' = 1)"

lemma obtains_step:
  "lock_step False True c s = Some s1 \<Longrightarrow> obtains_lock n c s1 \<Longrightarrow> obtains_lock (Suc n) c s"
  by (simp add: obtains_lock_def)

lemma obtains_from_ldaxr:
  assumes "place_of s c = S_ldaxr" "word_at s = 0"
  shows "obtains_lock 4 c s"
  using assms
  by (simp add: obtains_lock_def numeral_eq_Suc lock_step_def go_def ldaxr_def stxr_def store_word_def Let_def)

lemma obtains_from_stxr:
  assumes "place_of s c = S_stxr" "word_at s = 0"
  shows "obtains_lock 2 c s \<or> obtains_lock 6 c s"
proof (cases "marked s c")
  case True
  then show ?thesis using assms
    by (simp add: obtains_lock_def numeral_eq_Suc lock_step_def go_def stxr_def store_word_def Let_def)
next
  case False
  then show ?thesis using assms
    by (simp add: obtains_lock_def numeral_eq_Suc lock_step_def go_def ldaxr_def stxr_def store_word_def Let_def)
qed

lemma obtains_from_wfe:
  assumes "place_of s c = S_wfe" "event s c" "word_at s = 0"
  shows "obtains_lock 5 c s"
proof -
  define s1 where "s1 = go c S_ldaxr (s\<lparr>event := (event s)(c := False)\<rparr>)"
  have "lock_step False True c s = Some s1" using assms(1,2) by (simp add: lock_step_def s1_def)
  moreover have "obtains_lock 4 c s1" by (rule obtains_from_ldaxr) (simp_all add: s1_def go_def assms(3))
  ultimately show ?thesis using obtains_step [of c s s1 4] by simp
qed

text \<open>C22: whenever the lock is free, a core anywhere in \<open>_spin_lock\<close>, be it waiting in \<open>wfe\<close>, gets it within seven
  instructions of its own if no other core takes it first: no event is ever lost.\<close>

theorem spin_lock_progress:
  assumes "lock_run s" "word_at s = 0" "in_spin_lock (place_of s c)"
  shows "\<exists>n \<le> 7. obtains_lock n c s"
proof -
  note inv = lock_invD [OF lock_run_inv [OF assms(1)]]
  have "\<not> has_lock s c" using inv(2) assms(2) by auto
  then consider "place_of s c = S_ldaxr" | "place_of s c = S_wfe" | "place_of s c = S_sevl" | "place_of s c = S_stxr"
    | "place_of s c = S_test" "w1 s c = 0" | "place_of s c = S_test" "w1 s c \<noteq> 0" | "place_of s c = S_retry" "w1 s c \<noteq> 0"
    using assms(3) by (auto simp: in_spin_lock_def lock_view)
  then show ?thesis
  proof cases
    case 1
    then show ?thesis using obtains_from_ldaxr assms(2) by (intro exI [of _ 4]) simp
  next
    case 2
    then have "event s c" using inv(5) [of c] assms(2) by (auto simp: will_wait_def)
    then show ?thesis using obtains_from_wfe [OF 2 _ assms(2)] by (intro exI [of _ 5]) simp
  next
    case 3
    define s1 where "s1 = go c S_wfe (s\<lparr>event := (event s)(c := True)\<rparr>)"
    have "lock_step False True c s = Some s1" using 3 by (simp add: lock_step_def s1_def)
    moreover have "obtains_lock 5 c s1" by (rule obtains_from_wfe) (simp_all add: s1_def go_def assms(2))
    ultimately show ?thesis using obtains_step [of c s s1 5] by (intro exI [of _ 6]) simp
  next
    case 4
    then show ?thesis using obtains_from_stxr [OF 4 assms(2)]
      by (elim disjE) (rule exI [of _ 2], simp, rule exI [of _ 6], simp)
  next
    case 5
    define s1 where "s1 = go c S_stxr s"
    have "lock_step False True c s = Some s1" using 5 by (simp add: lock_step_def s1_def)
    moreover have "obtains_lock 2 c s1 \<or> obtains_lock 6 c s1"
      by (rule obtains_from_stxr) (simp_all add: s1_def go_def assms(2))
    ultimately show ?thesis using obtains_step [of c s s1 2] obtains_step [of c s s1 6]
      by (elim disjE) (rule exI [of _ 3], simp, rule exI [of _ 7], simp)
  next
    case 6
    then have e: "event s c" using inv(5) [of c] assms(2) by (auto simp: will_wait_def)
    define s1 where "s1 = go c S_wfe s"
    have "lock_step False True c s = Some s1" using 6 by (simp add: lock_step_def s1_def)
    moreover have "obtains_lock 5 c s1" by (rule obtains_from_wfe) (simp_all add: s1_def go_def assms(2) e)
    ultimately show ?thesis using obtains_step [of c s s1 5] by (intro exI [of _ 6]) simp
  next
    case 7
    define s1 where "s1 = go c S_ldaxr s"
    have "lock_step False True c s = Some s1" using 7 by (simp add: lock_step_def s1_def)
    moreover have "obtains_lock 4 c s1" by (rule obtains_from_ldaxr) (simp_all add: s1_def go_def assms(2))
    ultimately show ?thesis using obtains_step [of c s s1 4] by (intro exI [of _ 5]) simp
  qed
qed

lemma spin_lock_progress_witness:
  "\<exists>s. lock_run s \<and> place_of s 1 = S_sevl \<and> (\<exists>n \<le> 7. obtains_lock n 1 s)"
proof -
  have a: "lock_step False True 1 lock_start = Some (go 1 S_sevl lock_start)"
    by (simp add: lock_step_def lock_start_def)
  note r = lock_run.step [OF lock_run.start a]
  have "place_of (go 1 S_sevl lock_start) 1 = S_sevl" by (simp add: go_def)
  moreover have "\<exists>n \<le> 7. obtains_lock n 1 (go 1 S_sevl lock_start)"
    by (rule spin_lock_progress [OF r])
      (simp_all add: go_def lock_start_def in_spin_lock_def)
  ultimately show ?thesis using r by blast
qed

end
