(* ===== verification/Bits.thy ===== *)
theory Bits
  imports Prelude
begin

text \<open>
  Bit counting and rounding of the buddy allocator (the last part of
  \<open>src/mem/Buddy.cpp\<close>): \<open>popcount_byte\<close>, \<open>highest_bit_position\<close> and
  \<open>ceiling_power_of_two\<close>, with the tables and the branchless tricks of the code.
\<close>

subsection \<open>The code\<close>

definition popcount_lookup :: "nat list" where
  "popcount_lookup = [0, 1, 1, 2, 1, 2, 2, 3, 1, 2, 2, 3, 2, 3, 3, 4]"

definition popcount_byte :: "8 word \<Rightarrow> nat" where
  "popcount_byte b =
     popcount_lookup ! unat (b AND 15) + popcount_lookup ! unat (drop_bit 4 b)"

text \<open>The two parallel tables \<open>all_set\<close> and \<open>count\<close> of the 64-bit build.\<close>

definition hbp_table :: "(nat \<times> nat) list" where
  "hbp_table = [(4294967295, 32), (65535, 16), (255, 8), (15, 4), (7, 2), (3, 1), (1, 1)]"

fun hbp_loop :: "(nat \<times> nat) list \<Rightarrow> nat \<Rightarrow> nat \<Rightarrow> nat" where
  "hbp_loop [] value result = result + value"
| "hbp_loop ((all_set, count) # tab) value result =
     (if value \<ge> all_set then hbp_loop tab (drop_bit count value) (result + count)
      else hbp_loop tab value result)"

definition highest_bit_position :: "nat \<Rightarrow> nat" where
  "highest_bit_position value = hbp_loop hbp_table value 0"

definition ceiling_power_of_two :: "nat \<Rightarrow> nat" where
  "ceiling_power_of_two value =
     (let value = add64 value (of_bool (value = 0))
      in shl64 (sub64 (highest_bit_position (sub64 (add64 value value) 1)) 1))"

subsection \<open>Counting the bits of a byte\<close>

lemma popcount_lookup_nibble:
  "n < 16 \<Longrightarrow> popcount_lookup ! n =
     of_bool (bit n 0) + of_bool (bit n 1) + of_bool (bit n 2) + of_bool (bit n 3)"
  by (drule less_16_cases, elim disjE) (simp_all add: popcount_lookup_def bit_0)

lemma popcount_byte_sum: "popcount_byte b = (\<Sum>i<8. of_bool (bit b i))"
proof -
  have 1: "unat (b AND 15) < 16"
    using word_and_le1 [of b 15] by (simp add: word_le_nat_alt)
  have 2: "unat (drop_bit 4 b) < 16"
    using unsigned_less [of b, where 'a = nat]
    by (simp add: drop_bit_eq_div unat_div less_mult_imp_div_less)
  have m: "bit (15 :: 8 word) i \<longleftrightarrow> i < 4" for i
    using bit_mask_iff [of 4 i, where 'a = "8 word"] by (auto simp: mask_eq_exp_minus_1)
  have s: "(\<Sum>i<8. f i) = f 0 + f 1 + f 2 + f 3 + (f 4 + f 5 + f 6 + f 7)" for f :: "nat \<Rightarrow> nat"
    by (simp add: eval_nat_numeral)
  show ?thesis
    unfolding popcount_byte_def popcount_lookup_nibble [OF 1] popcount_lookup_nibble [OF 2] s
    by (simp add: bit_unsigned_iff bit_and_iff bit_drop_bit_eq m)
qed

lemma popcount_byte_card: "popcount_byte b = card {i. bit b i}"
proof -
  have "{i. bit b i} = {..<8} \<inter> {i. bit b i}" by auto
  then show ?thesis by (simp add: popcount_byte_sum)
qed

subsection \<open>The highest set bit\<close>

fun bit_length :: "nat \<Rightarrow> nat" where
  "bit_length v = (if v = 0 then 0 else Suc (bit_length (v div 2)))"

declare bit_length.simps [simp del]

lemma bit_length_0 [simp]: "bit_length 0 = 0"
  by (simp add: bit_length.simps)

lemma bit_length_pos: "0 < v \<Longrightarrow> bit_length v = Suc (bit_length (v div 2))"
  by (simp add: bit_length.simps [of v])

lemma bit_length_div: "2 ^ c \<le> v \<Longrightarrow> bit_length v = c + bit_length (v div 2 ^ c)"
proof (induction c arbitrary: v)
  case 0
  then show ?case by simp
next
  case (Suc c)
  then have "2 ^ c \<le> v div 2" by simp
  moreover from this have "0 < v div 2" by (rule less_le_trans [rotated]) simp
  then have "0 < v" by (cases v) auto
  ultimately show ?case
    using Suc.IH [of "v div 2"] by (simp add: bit_length_pos div_mult2_eq)
qed

lemma bit_length_le: "v < 2 ^ k \<Longrightarrow> bit_length v \<le> k"
proof (induction k arbitrary: v)
  case 0
  then show ?case by simp
next
  case (Suc k)
  then show ?case by (cases "v = 0") (simp_all add: bit_length_pos less_mult_imp_div_less)
qed

lemma bit_length_eqI: "2 ^ k \<le> v \<Longrightarrow> v < 2 ^ Suc k \<Longrightarrow> bit_length v = Suc k"
proof -
  assume a: "2 ^ k \<le> v" "v < 2 ^ Suc k"
  then have "v div 2 ^ k = 1" by (simp add: div_nat_eqI)
  then show ?thesis using bit_length_div [OF a(1)] by (simp add: bit_length_pos)
qed

lemma bit_length_bounds: "0 < v \<Longrightarrow> 2 ^ (bit_length v - 1) \<le> v \<and> v < 2 ^ bit_length v"
proof (induction v rule: bit_length.induct)
  case (1 v)
  show ?case
  proof (cases "v = 1")
    case True
    then show ?thesis by (simp add: bit_length_pos)
  next
    case False
    with 1 have h: "0 < v div 2" by simp
    with 1 have IH: "2 ^ (bit_length (v div 2) - 1) \<le> v div 2" "v div 2 < 2 ^ bit_length (v div 2)"
      by auto
    obtain k where k: "bit_length (v div 2) = Suc k" using h bit_length_pos by blast
    have v: "bit_length v = Suc (Suc k)" using bit_length_pos [OF 1(2)] k by simp
    show ?thesis using IH unfolding v k by simp linarith
  qed
qed

text \<open>
  One row of the table: comparing with \<open>2 ^ k - 1\<close> (or more) instead of \<open>2 ^ k\<close> before
  shifting by \<open>k\<close> is harmless.
\<close>

lemma bit_length_step:
  assumes "2 ^ k - 1 \<le> v" "0 < k"
  shows "bit_length v = k + bit_length (v div 2 ^ k)"
proof (cases "2 ^ k \<le> v")
  case True
  then show ?thesis by (rule bit_length_div)
next
  case False
  with assms(1) have "v = 2 ^ k - 1" by simp
  moreover have "(2::nat) ^ k = 2 * 2 ^ (k - 1)" using assms(2) by (simp flip: power_Suc)
  moreover have "(0::nat) < 2 ^ (k - 1)" by simp
  ultimately have v: "2 ^ (k - 1) \<le> v" "v < 2 ^ Suc (k - 1)" by simp_all
  have "v div 2 ^ k = 0" using False by simp
  then show ?thesis using bit_length_eqI [OF v] assms(2) by simp
qed

lemma hbp_loop_step:
  assumes "2 ^ count - 1 \<le> all_set" "0 < count"
    and "\<And>value result. value < m' \<Longrightarrow>
           hbp_loop tab value result = result + bit_length value"
    and "value < m" "m \<le> 2 ^ count * m'" "all_set \<le> m'"
  shows "hbp_loop ((all_set, count) # tab) value result = result + bit_length value"
proof (cases "all_set \<le> value")
  case True
  have "value < 2 ^ count * m'" using assms(4,5) by simp
  then have "value div 2 ^ count < m'" by (simp add: less_mult_imp_div_less mult.commute)
  then have "hbp_loop tab (value div 2 ^ count) (result + count)
      = result + count + bit_length (value div 2 ^ count)" by (rule assms(3))
  also have "\<dots> = result + bit_length value"
    using bit_length_step [of count "value"] assms(1,2) True by simp
  finally show ?thesis using True by (simp add: drop_bit_eq_div)
next
  case False
  then have "value < m'" using assms(6) by simp
  then show ?thesis using assms(3) [of "value" result] False by simp
qed

lemma highest_bit_position_bit_length:
  assumes "v < 2 ^ 64"
  shows "highest_bit_position v = bit_length v"
proof -
  have 0: "hbp_loop [] v r = r + bit_length v" if "v < 2" for v r
    using that by (cases "v = 0") (simp_all add: less_2_cases_iff bit_length_pos)
  have 1: "hbp_loop [(1, 1)] v r = r + bit_length v" if "v < 4" for v r
    by (rule hbp_loop_step [OF _ _ 0 that, where m' = 2]) simp_all
  have 2: "hbp_loop [(3, 1), (1, 1)] v r = r + bit_length v" if "v < 8" for v r
    by (rule hbp_loop_step [OF _ _ 1 that, where m' = 4]) simp_all
  have 3: "hbp_loop [(7, 2), (3, 1), (1, 1)] v r = r + bit_length v" if "v < 16" for v r
    by (rule hbp_loop_step [OF _ _ 2 that, where m' = 8]) simp_all
  have 4: "hbp_loop [(15, 4), (7, 2), (3, 1), (1, 1)] v r = r + bit_length v" if "v < 256" for v r
    by (rule hbp_loop_step [OF _ _ 3 that, where m' = 16]) simp_all
  have 5: "hbp_loop [(255, 8), (15, 4), (7, 2), (3, 1), (1, 1)] v r = r + bit_length v"
    if "v < 65536" for v r
    by (rule hbp_loop_step [OF _ _ 4 that, where m' = 256]) simp_all
  have 6: "hbp_loop [(65535, 16), (255, 8), (15, 4), (7, 2), (3, 1), (1, 1)] v r
      = r + bit_length v" if "v < 4294967296" for v r
    by (rule hbp_loop_step [OF _ _ 5 that, where m' = 65536]) simp_all
  have "hbp_loop hbp_table v 0 = 0 + bit_length v" unfolding hbp_table_def
    by (rule hbp_loop_step [OF _ _ 6, where m' = 4294967296 and m = "2 ^ 64"])
      (use assms in simp_all)
  then show ?thesis by (simp add: highest_bit_position_def)
qed

subsection \<open>Rounding up to a power of two\<close>

lemma ceiling_power_of_two_bit_length:
  assumes "0 < v" "v \<le> 2 ^ 63"
  shows "ceiling_power_of_two v = 2 ^ (bit_length (2 * v - 1) - 1)"
proof -
  have a: "add64 v (of_bool (v = 0)) = v" "add64 v v = 2 * v mod 2 ^ 64"
    using assms by (simp_all add: add64_def mult_2)
  have s: "sub64 (2 * v mod 2 ^ 64) 1 = 2 * v - 1"
  proof (cases "v = 2 ^ 63")
    case True
    then show ?thesis by (simp add: sub64_def)
  next
    case False
    then show ?thesis using assms by (simp add: sub64_small)
  qed
  have l: "bit_length (2 * v - 1) \<le> 64" "0 < bit_length (2 * v - 1)"
    using assms by (auto intro: bit_length_le simp: bit_length_pos)
  have "2 * v - 1 < 2 ^ 64" using assms by simp
  then show ?thesis
    using l unfolding ceiling_power_of_two_def Let_def a s
    by (simp add: highest_bit_position_bit_length sub64_small shl64_small)
qed

lemma ceiling_power_of_two_eqI:
  assumes "v \<le> 2 ^ k" "2 ^ k < 2 * v" "k \<le> 63"
  shows "ceiling_power_of_two v = 2 ^ k"
proof -
  have v: "0 < v" using assms(1,2) by (cases v) auto
  have "(2::nat) ^ k \<le> 2 ^ 63" using assms(3) by (rule power_increasing) simp
  then have "v \<le> 2 ^ 63" using assms(1) by simp
  moreover have "bit_length (2 * v - 1) = Suc k"
    using assms v by (intro bit_length_eqI) auto
  ultimately show ?thesis using v ceiling_power_of_two_bit_length by simp
qed

text \<open>Every value in \<open>1 .. 2 ^ 63\<close> has a power of two just above it.\<close>

lemma ceiling_exponent:
  assumes "0 < v" "v \<le> 2 ^ 63"
  obtains k where "k \<le> 63" "v \<le> 2 ^ k" "2 ^ k < 2 * v" "ceiling_power_of_two v = 2 ^ k"
proof -
  define k where "k = bit_length (2 * v - 1) - 1"
  have p: "0 < 2 * v - 1" using assms by simp
  have l: "bit_length (2 * v - 1) = Suc k" using bit_length_pos [OF p] by (simp add: k_def)
  have "2 ^ k \<le> 2 * v - 1" "2 * v - 1 < 2 ^ Suc k"
    using bit_length_bounds [OF p] unfolding l by simp_all
  then have b: "v \<le> 2 ^ k" "2 ^ k < 2 * v" using assms by auto
  have "Suc k \<le> 64" unfolding l [symmetric] using assms by (intro bit_length_le) simp
  then have "k \<le> 63" by simp
  then show thesis using that [of k] b ceiling_power_of_two_eqI by blast
qed

subsection \<open>Properties\<close>

text \<open>\<open>ceiling_power_of_two\<close> rounds up to the next power of two and
  \<open>highest_bit_position\<close> counts the bits a number needs.\<close>

theorem bit_arithmetic_correct:
  assumes "0 < v" "v \<le> 2 ^ 63"
  shows "(\<exists>k. ceiling_power_of_two v = 2 ^ k \<and> v \<le> 2 ^ k \<and> 2 ^ k < 2 * v) \<and>
    2 ^ (highest_bit_position v - 1) \<le> v \<and> v < 2 ^ highest_bit_position v"
proof -
  obtain k where "v \<le> 2 ^ k" "2 ^ k < 2 * v" "ceiling_power_of_two v = 2 ^ k"
    using ceiling_exponent [OF assms] by blast
  moreover have "v < 2 ^ 64" using assms(2) by simp
  ultimately show ?thesis
    using bit_length_bounds [OF assms(1)] by (auto simp: highest_bit_position_bit_length)
qed

theorem bit_arithmetic_correct_witness:
  "\<exists>k. ceiling_power_of_two 37 = 2 ^ k \<and> 37 \<le> (2::nat) ^ k \<and> (2::nat) ^ k < 74"
  using bit_arithmetic_correct [of 37] by simp

end
