(* ===== verification/Bitset.thy ===== *)
theory Bitset
  imports Bits
begin

text \<open>
  The char-backed bitset of \<open>src/mem/Buddy.cpp\<close>. A bitset is a pointer to bytes, so the
  model is a byte memory indexed from that pointer; nothing bounds it, as in C, and the
  frame lemmas say which bytes an operation can touch.

  The code works on whole bytes with two mask tables. Each operation is described by its
  effect on the single bit \<open>bget b i\<close>: bit \<open>i mod 8\<close> of byte \<open>i div 8\<close>.
\<close>

type_synonym bitset = "nat \<Rightarrow> 8 word"

subsection \<open>The code\<close>

definition bitset_sizeof :: "nat \<Rightarrow> nat" where
  "bitset_sizeof elements = sub64 (add64 elements 8) 1 div 8"

definition bitset_index_mask :: "8 word list" where
  "bitset_index_mask = [1, 2, 4, 8, 16, 32, 64, 128]"

definition bitset_set :: "bitset \<Rightarrow> nat \<Rightarrow> bitset" where
  "bitset_set b pos =
     (let bucket = pos div 8; index = pos mod 8
      in b(bucket := b bucket OR bitset_index_mask ! index))"

definition bitset_clear :: "bitset \<Rightarrow> nat \<Rightarrow> bitset" where
  "bitset_clear b pos =
     (let bucket = pos div 8; index = pos mod 8
      in b(bucket := b bucket AND NOT (bitset_index_mask ! index)))"

definition bitset_test :: "bitset \<Rightarrow> nat \<Rightarrow> 8 word" where
  "bitset_test b pos =
     (let bucket = pos div 8; index = pos mod 8
      in b bucket AND bitset_index_mask ! index)"

definition bitset_char_mask :: "8 word list list" where
  "bitset_char_mask =
     [[1, 3, 7, 15, 31, 63, 127, 255], [0, 2, 6, 14, 30, 62, 126, 254],
      [0, 0, 4, 12, 28, 60, 124, 252], [0, 0, 0, 8, 24, 56, 120, 248],
      [0, 0, 0, 0, 16, 48, 112, 240],  [0, 0, 0, 0, 0, 32, 96, 224],
      [0, 0, 0, 0, 0, 0, 64, 192],     [0, 0, 0, 0, 0, 0, 0, 128]]"

text \<open>
  The buckets visited by \<open>while (++from_bucket != to_bucket)\<close>: the counter is a \<open>size_t\<close>, so
  the loop always ends, if need be after going round.
\<close>

function buckets_between :: "nat \<Rightarrow> nat \<Rightarrow> nat list" where
  "buckets_between k to =
     (let k' = add64 k 1
      in if k' = to mod 2 ^ 64 then [] else k' # buckets_between k' to)"
  by pat_completeness auto
termination
proof (relation "measure (\<lambda>(k, to). sub64 to (add64 k 1))")
  show "wf (measure (\<lambda>(k, to). sub64 to (add64 k 1)))" by simp
next
  fix k "to" k' :: nat
  assume k': "k' = add64 k 1" and ne: "k' \<noteq> to mod 2 ^ 64"
  define m where "m = (2::nat) ^ 64"
  have lt: "k' < m" "to mod m < m"
    using add64_less [of k 1] by (simp_all only: k' m_def mod_less_divisor zero_less_power zero_less_numeral)
  have s: "sub64 to x = (to mod m + (m - x mod m)) mod m" for x
    by (simp only: sub64_def m_def mod_add_left_eq)
  have "sub64 to (add64 k' 1) < sub64 to k'"
  proof (cases "k' = m - 1")
    case True
    then have "add64 k' 1 = 0" by (simp add: add64_def m_def)
    moreover have "sub64 to k' = (to mod m + 1) mod m"
      using True by (simp add: s m_def)
    moreover have "to mod m + 1 < m" using ne lt True by (simp add: m_def)
    ultimately show ?thesis by (simp add: s m_def)
  next
    case False
    then have a: "add64 k' 1 = k' + 1" using lt by (simp add: add64_def m_def)
    show ?thesis
    proof (cases "to mod m < k'")
      case True
      then show ?thesis using a False lt by (simp add: s)
    next
      case le: False
      then have "k' < to mod m" using ne by (simp add: m_def)
      moreover have "sub64 to x = to mod m - x" if "x \<le> to mod m" for x
      proof -
        have "x mod m = x" "to mod m + (m - x) = m + (to mod m - x)" "to mod m - x < m"
          using that lt(2) by simp_all
        then show ?thesis by (simp only: s mod_add_self1 mod_less)
      qed
      ultimately show ?thesis using a by simp
    qed
  qed
  then show "((k', to), (k, to)) \<in> measure (\<lambda>(k, to). sub64 to (add64 k 1))"
    by (simp add: k')
qed

declare buckets_between.simps [simp del]

definition bitset_clear_range :: "bitset \<Rightarrow> nat \<Rightarrow> nat \<Rightarrow> bitset" where
  "bitset_clear_range b from_pos to_pos =
     (let from_bucket = from_pos div 8; to_bucket = to_pos div 8;
          from_index = from_pos mod 8; to_index = to_pos mod 8
      in if from_bucket = to_bucket
         then b(from_bucket := b from_bucket AND NOT (bitset_char_mask ! from_index ! to_index))
         else let b = b(from_bucket := b from_bucket AND NOT (bitset_char_mask ! from_index ! 7));
                  b = b(to_bucket := b to_bucket AND NOT (bitset_char_mask ! 0 ! to_index))
              in foldl (\<lambda>b k. b(k := 0)) b (buckets_between from_bucket to_bucket))"

definition bitset_set_range :: "bitset \<Rightarrow> nat \<Rightarrow> nat \<Rightarrow> bitset" where
  "bitset_set_range b from_pos to_pos =
     (let from_bucket = from_pos div 8; to_bucket = to_pos div 8;
          from_index = from_pos mod 8; to_index = to_pos mod 8
      in if from_bucket = to_bucket
         then b(from_bucket := b from_bucket OR bitset_char_mask ! from_index ! to_index)
         else let b = b(from_bucket := b from_bucket OR bitset_char_mask ! from_index ! 7);
                  b = b(to_bucket := b to_bucket OR bitset_char_mask ! 0 ! to_index)
              in foldl (\<lambda>b k. b(k := 255)) b (buckets_between from_bucket to_bucket))"

definition bitset_count_range :: "bitset \<Rightarrow> nat \<Rightarrow> nat \<Rightarrow> nat" where
  "bitset_count_range b from_pos to_pos =
     (let from_bucket = from_pos div 8; to_bucket = to_pos div 8;
          from_index = from_pos mod 8; to_index = to_pos mod 8
      in if from_bucket = to_bucket
         then popcount_byte (b from_bucket AND bitset_char_mask ! from_index ! to_index)
         else let result = popcount_byte (b from_bucket AND bitset_char_mask ! from_index ! 7)
                           + popcount_byte (b to_bucket AND bitset_char_mask ! 0 ! to_index)
              in foldl (\<lambda>result k. result + popcount_byte (b k)) result
                   (buckets_between from_bucket to_bucket))"

text \<open>One step of both shift loops: copy the bit at \<open>src\<close> to \<open>dst\<close>.\<close>

definition copy_bit :: "bitset \<Rightarrow> nat \<Rightarrow> nat \<Rightarrow> bitset" where
  "copy_bit b src dst =
     (if bitset_test b src \<noteq> 0 then bitset_set b dst else bitset_clear b dst)"

definition bitset_shift_left :: "bitset \<Rightarrow> nat \<Rightarrow> nat \<Rightarrow> nat \<Rightarrow> bitset" where
  "bitset_shift_left b from_pos to_pos by_n =
     (let length = sub64 to_pos from_pos;
          b = foldl (\<lambda>b i. let at = add64 from_pos i in copy_bit b at (sub64 at by_n))
                b [0..<length]
      in bitset_clear_range b length (sub64 (add64 length by_n) 1))"

text \<open>
  Here \<open>length\<close> is a signed \<open>ssize_t\<close> counted down while \<open>length >= 0\<close>, so \<open>length + 1\<close> bits
  are copied, last one first; a negative length copies nothing.
\<close>

definition bitset_shift_right :: "bitset \<Rightarrow> nat \<Rightarrow> nat \<Rightarrow> nat \<Rightarrow> bitset" where
  "bitset_shift_right b from_pos to_pos by_n =
     (let length = sub64 to_pos from_pos;
          b = (if length < 2 ^ 63
               then foldl (\<lambda>b i. let at = add64 from_pos i in copy_bit b at (add64 at by_n))
                      b (rev [0..<Suc length])
               else b)
      in bitset_clear_range b from_pos (sub64 (add64 from_pos by_n) 1))"

subsection \<open>The tables\<close>

lemma bit_index_mask: "k < 8 \<Longrightarrow> bit (bitset_index_mask ! k) j \<longleftrightarrow> j = k"
proof -
  assume "k < 8"
  then have "bitset_index_mask ! k = push_bit k 1"
    unfolding less_8_iff bitset_index_mask_def by (elim disjE) (simp_all add: push_bit_eq_mult)
  then show ?thesis using \<open>k < 8\<close> by (auto simp: bit_exp_iff push_bit_of_1)
qed

lemma char_mask_eq:
  "f < 8 \<Longrightarrow> t < 8 \<Longrightarrow>
   bitset_char_mask ! f ! t = (if f \<le> t then push_bit f (mask (Suc t - f)) else 0)"
  unfolding less_8_iff bitset_char_mask_def
  by (elim disjE) (simp_all add: push_bit_eq_mult mask_eq_exp_minus_1)

lemma bit_char_mask:
  "f < 8 \<Longrightarrow> t < 8 \<Longrightarrow> i < 8 \<Longrightarrow> bit (bitset_char_mask ! f ! t) i \<longleftrightarrow> f \<le> i \<and> i \<le> t"
  by (auto simp: char_mask_eq bit_push_bit_iff bit_mask_iff)

lemma buckets_between_upt:
  "k < to \<Longrightarrow> to < 2 ^ 64 \<Longrightarrow> buckets_between k to = [Suc k..<to]"
proof (induction "to - k" arbitrary: k)
  case 0
  then show ?case by simp
next
  case (Suc n)
  then have a: "add64 k 1 = Suc k" by (simp add: add64_small)
  show ?case
  proof (cases "Suc k = to")
    case True
    then show ?thesis using a Suc.prems by (subst buckets_between.simps) simp
  next
    case False
    then have "buckets_between (Suc k) to = [Suc (Suc k)..<to]"
      using Suc by (intro Suc.hyps) auto
    then show ?thesis using a False Suc.prems
      by (subst buckets_between.simps) (simp add: upt_conv_Cons)
  qed
qed

subsection \<open>Effect on single bits\<close>

definition bget :: "bitset \<Rightarrow> nat \<Rightarrow> bool" where
  "bget b i \<longleftrightarrow> bit (b (i div 8)) (i mod 8)"

lemma bget_ext: "(\<And>i. bget b i \<longleftrightarrow> bget b' i) \<Longrightarrow> b = b'"
proof (rule ext, rule bit_word_eqI)
  fix k n
  assume h: "\<And>i. bget b i \<longleftrightarrow> bget b' i" and n: "n < LENGTH(8)"
  show "bit (b k) n \<longleftrightarrow> bit (b' k) n" using h [of "8 * k + n"] n by (simp add: bget_def)
qed

lemma bitset_test_iff [bit_view]: "bitset_test b pos \<noteq> 0 \<longleftrightarrow> bget b pos"
proof -
  have "bitset_test b pos \<noteq> 0 \<longleftrightarrow> (\<exists>n. bit (bitset_test b pos) n)"
    by (metis bit_0_eq bit_eqI bot_apply bot_bool_def)
  also have "\<dots> \<longleftrightarrow> bget b pos"
    by (auto simp: bitset_test_def Let_def bget_def bit_and_iff bit_index_mask)
  finally show ?thesis .
qed

lemma bitset_test_0 [bit_view]: "bitset_test b pos = 0 \<longleftrightarrow> \<not> bget b pos"
  using bitset_test_iff by blast

lemma div_mod_8_eq: "i div 8 = p div 8 \<Longrightarrow> i mod 8 = p mod 8 \<Longrightarrow> i = (p::nat)"
  by (metis div_mult_mod_eq)

lemma bget_set [bit_view]: "bget (bitset_set b p) i \<longleftrightarrow> i = p \<or> bget b i"
  by (auto simp: bitset_set_def Let_def bget_def bit_or_iff bit_index_mask dest: div_mod_8_eq)

lemma bget_clear [bit_view]: "bget (bitset_clear b p) i \<longleftrightarrow> i \<noteq> p \<and> bget b i"
  by (auto simp: bitset_clear_def Let_def bget_def bit_and_iff bit_not_iff bit_index_mask dest: div_mod_8_eq)

lemma bget_copy_bit [bit_view]:
  "bget (copy_bit b src dst) i \<longleftrightarrow> (if i = dst then bget b src else bget b i)"
  by (simp add: copy_bit_def bit_view)

lemma bget_upd: "bget (b(k := v)) i \<longleftrightarrow> (if i div 8 = k then bit v (i mod 8) else bget b i)"
  by (simp add: bget_def)

lemma le_8_iff:
  fixes a b :: nat
  assumes "a < 8" "b < 8"
  shows "8 * x + a \<le> 8 * y + b \<longleftrightarrow> x < y \<or> x = y \<and> a \<le> b"
  using assms by (cases x y rule: linorder_cases) auto

text \<open>A range of bits is a part of the first bucket, whole buckets, a part of the last.\<close>

lemma le_buckets: "(i::nat) \<le> j \<longleftrightarrow> i div 8 < j div 8 \<or> i div 8 = j div 8 \<and> i mod 8 \<le> j mod 8"
  using le_8_iff [of "i mod 8" "j mod 8" "i div 8" "j div 8"] by simp

lemma range_buckets:
  fixes f t i :: nat
  assumes "f \<le> t"
  shows "f \<le> i \<and> i \<le> t \<longleftrightarrow>
    (if f div 8 = t div 8 then i div 8 = f div 8 \<and> f mod 8 \<le> i mod 8 \<and> i mod 8 \<le> t mod 8
     else i div 8 = f div 8 \<and> f mod 8 \<le> i mod 8 \<or> i div 8 = t div 8 \<and> i mod 8 \<le> t mod 8
       \<or> f div 8 < i div 8 \<and> i div 8 < t div 8)"
  using assms unfolding le_buckets [of f i] le_buckets [of i t] le_buckets [of f t] by auto

lemma bget_fill:
  "bget (foldl (\<lambda>b k. b(k := c)) b ks) i \<longleftrightarrow> (if i div 8 \<in> set ks then bit c (i mod 8) else bget b i)"
  by (induction ks arbitrary: b) (auto simp: bget_def)

lemma bit_255: "bit (255 :: int) j \<longleftrightarrow> j < 8" "bit (255 :: 8 word) j \<longleftrightarrow> j < 8"
  using bit_mask_iff [of 8 j, where 'a = int] bit_mask_iff [of 8 j, where 'a = "8 word"]
  by (auto simp: mask_eq_exp_minus_1)

lemma buckets_between_range:
  assumes "f \<le> t" "t < 2 ^ 64" "f div 8 \<noteq> t div 8"
  shows "set (buckets_between (f div 8) (t div 8)) = {Suc (f div 8)..<t div 8}"
proof -
  have "f div 8 < t div 8" "t div 8 < 2 ^ 64"
    using assms div_le_mono [of f t 8] by auto
  then show ?thesis by (simp add: buckets_between_upt)
qed

lemma bget_clear_range [bit_view]:
  assumes "f \<le> t" "t < 2 ^ 64"
  shows "bget (bitset_clear_range b f t) i \<longleftrightarrow> bget b i \<and> \<not> (f \<le> i \<and> i \<le> t)"
proof (cases "f div 8 = t div 8")
  case True
  then show ?thesis unfolding range_buckets [OF assms(1)]
    by (simp add: bitset_clear_range_def Let_def bget_upd bit_and_iff bit_not_iff bit_char_mask)
       (auto simp: bget_def)
next
  case False
  then show ?thesis unfolding range_buckets [OF assms(1)]
    using buckets_between_range [OF assms False]
    by (simp add: bitset_clear_range_def bget_fill Let_def bget_upd bit_and_iff bit_not_iff
        bit_char_mask) (auto simp: bget_def)
qed

lemma bget_set_range [bit_view]:
  assumes "f \<le> t" "t < 2 ^ 64"
  shows "bget (bitset_set_range b f t) i \<longleftrightarrow> bget b i \<or> (f \<le> i \<and> i \<le> t)"
proof (cases "f div 8 = t div 8")
  case True
  then show ?thesis unfolding range_buckets [OF assms(1)]
    by (simp add: bitset_set_range_def Let_def bget_upd bit_or_iff bit_char_mask)
       (auto simp: bget_def)
next
  case False
  then show ?thesis unfolding range_buckets [OF assms(1)]
    using buckets_between_range [OF assms False]
    by (simp add: bitset_set_range_def bget_fill Let_def bget_upd bit_or_iff bit_255
        bit_char_mask) (auto simp: bget_def bit_255)
qed

subsection \<open>Counting and shifting\<close>

text \<open>The number of set bits in a half-open range.\<close>

definition bcount :: "bitset \<Rightarrow> nat \<Rightarrow> nat \<Rightarrow> nat" where
  "bcount b lo hi = (\<Sum>i = lo..<hi. of_bool (bget b i))"

lemma bcount_split: "lo \<le> m \<Longrightarrow> m \<le> hi \<Longrightarrow> bcount b lo hi = bcount b lo m + bcount b m hi"
  by (simp add: bcount_def sum.atLeastLessThan_concat del: sum_of_bool_eq)

lemma bcount_card: "bcount b lo hi = card {i \<in> {lo..<hi}. bget b i}"
  by (simp add: bcount_def Int_def)

lemma bcount_bucket:
  assumes "a \<le> c" "c < 8"
  shows "bcount b (8 * k + a) (8 * k + Suc c) = popcount_byte (b k AND bitset_char_mask ! a ! c)"
proof -
  have "bcount b (8 * k + a) (8 * k + Suc c) = (\<Sum>j = a..<Suc c. of_bool (bget b (8 * k + j)))"
    using sum.shift_bounds_nat_ivl [of "\<lambda>i. of_bool (bget b i)" a "8 * k" "Suc c"]
    by (simp only: bcount_def add.commute)
  also have "\<dots> = (\<Sum>j = a..<Suc c. of_bool (bit (b k) j))"
    using assms by (intro sum.cong) (simp_all add: bget_def)
  also have "\<dots> = (\<Sum>j<8. of_bool (bit (b k AND bitset_char_mask ! a ! c) j))"
    using assms by (intro sum.mono_neutral_cong_left) (auto simp: bit_and_iff bit_char_mask)
  finally show ?thesis by (simp only: popcount_byte_sum)
qed

lemma char_mask_0_7: "b AND bitset_char_mask ! 0 ! 7 = b"
  by (auto simp: bitset_char_mask_def bit_eq_iff bit_and_iff bit_255)

lemma bcount_buckets:
  "k \<le> m \<Longrightarrow> bcount b (8 * k) (8 * m) = sum_list (map (\<lambda>k. popcount_byte (b k)) [k..<m])"
proof (induction m)
  case 0
  then show ?case by (simp add: bcount_def)
next
  case (Suc m)
  show ?case
  proof (cases "k = Suc m")
    case True
    then show ?thesis by (simp add: bcount_def)
  next
    case False
    then have "k \<le> m" using Suc.prems by simp
    moreover have "bcount b (8 * m) (8 * Suc m) = popcount_byte (b m)"
      using bcount_bucket [of 0 7 b m] char_mask_0_7 by (simp add: add.commute)
    ultimately show ?thesis
      using Suc.IH bcount_split [of "8 * k" "8 * m" "8 * Suc m" b] by simp
  qed
qed

lemma foldl_count: "foldl (\<lambda>r k. r + f k) (r::nat) ks = r + sum_list (map f ks)"
  by (induction ks arbitrary: r) simp_all

lemma bitset_count_range_bcount:
  assumes "f \<le> t" "t < 2 ^ 64"
  shows "bitset_count_range b f t = bcount b f (Suc t)"
proof (cases "f div 8 = t div 8")
  case True
  then have "f mod 8 \<le> t mod 8" using assms(1) le_buckets [of f t] by simp
  then have "bcount b (8 * (t div 8) + f mod 8) (8 * (t div 8) + Suc (t mod 8))
      = popcount_byte (b (t div 8) AND bitset_char_mask ! (f mod 8) ! (t mod 8))"
    by (rule bcount_bucket) simp
  moreover have "8 * (t div 8) + f mod 8 = f" "8 * (t div 8) + Suc (t mod 8) = Suc t"
    using True mult_div_mod_eq [of 8 f] by simp_all
  ultimately show ?thesis using True by (simp add: bitset_count_range_def Let_def)
next
  case False
  let ?fb = "f div 8" and ?tb = "t div 8"
  have lt: "?fb < ?tb" using assms(1) False div_le_mono [of f t 8] by simp
  have 1: "bcount b f (8 * Suc ?fb) = popcount_byte (b ?fb AND bitset_char_mask ! (f mod 8) ! 7)"
    using bcount_bucket [of "f mod 8" 7 b ?fb] by (simp add: add.commute)
  have 2: "bcount b (8 * ?tb) (Suc t) = popcount_byte (b ?tb AND bitset_char_mask ! 0 ! (t mod 8))"
    using bcount_bucket [of 0 "t mod 8" b ?tb] by simp
  have "f \<le> 8 * Suc ?fb" using le_buckets [of f "8 * Suc ?fb"] by simp
  moreover have "8 * Suc ?fb \<le> 8 * ?tb" using lt by simp
  moreover have "8 * ?tb \<le> Suc t" using le_buckets [of "8 * ?tb" t] by simp
  ultimately have "bcount b f (Suc t) = bcount b f (8 * Suc ?fb)
      + (bcount b (8 * Suc ?fb) (8 * ?tb) + bcount b (8 * ?tb) (Suc t))"
    using bcount_split [of f "8 * Suc ?fb" "Suc t" b]
      bcount_split [of "8 * Suc ?fb" "8 * ?tb" "Suc t" b] by linarith
  moreover have "buckets_between ?fb ?tb = [Suc ?fb..<?tb]"
    using lt assms(2) by (simp add: buckets_between_upt)
  ultimately show ?thesis using False lt bcount_buckets [of "Suc ?fb" ?tb b]
    by (simp add: bitset_count_range_def Let_def foldl_count 2 flip: 1)
qed

text \<open>
  The left shift copies \<open>[from, to)\<close> down by \<open>n\<close> and then clears \<open>[len, len + n)\<close>: positions
  counted from the start of the bitset, not from the destination.
\<close>

lemma copy_up_bget:
  assumes "0 < n" "n \<le> from" "from + len < 2 ^ 64"
  shows "bget (foldl (\<lambda>b i. copy_bit b (add64 from i) (sub64 (add64 from i) n)) b [0..<len]) j
    \<longleftrightarrow> (if from - n \<le> j \<and> j < from - n + len then bget b (j + n) else bget b j)"
  using assms(3)
proof (induction len arbitrary: j)
  case 0
  then show ?case by auto
next
  case (Suc len)
  have "add64 from len = from + len" "sub64 (from + len) n = from - n + len"
    using assms Suc.prems by (simp_all add: add64_small sub64_small)
  then show ?case using assms Suc by (auto simp: bget_copy_bit)
qed

lemma bget_shift_left [bit_view]:
  assumes "0 < n" "n \<le> f" "f \<le> t" "t < 2 ^ 63"
  shows "bget (bitset_shift_left b f t n) j \<longleftrightarrow>
    (if t - f \<le> j \<and> j < t - f + n then False
     else if f - n \<le> j \<and> j < t - n then bget b (j + n) else bget b j)"
proof -
  have "sub64 t f = t - f" "sub64 (add64 (t - f) n) 1 = t - f + n - 1"
    using assms by (simp_all add: add64_small sub64_small)
  then show ?thesis
    using assms copy_up_bget [of n f "t - f" b j]
    by (auto simp: bitset_shift_left_def Let_def bget_clear_range)
qed

lemma copy_down_bget:
  assumes "0 < n" "from + len + n < 2 ^ 64"
  shows "bget (foldl (\<lambda>b i. copy_bit b (add64 from i) (add64 (add64 from i) n)) b (rev [0..<len])) j
    \<longleftrightarrow> (if from + n \<le> j \<and> j < from + len + n then bget b (j - n) else bget b j)"
  using assms(2)
proof (induction len arbitrary: b)
  case 0
  then show ?case by auto
next
  case (Suc len)
  have "add64 from len = from + len" "add64 (from + len) n = from + len + n"
    using Suc.prems by (simp_all add: add64_small)
  then show ?case using assms Suc by (auto simp: bget_copy_bit)
qed

lemma bget_shift_right [bit_view]:
  assumes "0 < n" "f \<le> t" "t + n < 2 ^ 62"
  shows "bget (bitset_shift_right b f t n) j \<longleftrightarrow>
    (if f \<le> j \<and> j < f + n then False
     else if f + n \<le> j \<and> j \<le> t + n then bget b (j - n) else bget b j)"
proof -
  have "sub64 t f = t - f" "sub64 (add64 f n) 1 = f + n - 1"
    using assms by (simp_all add: add64_small sub64_small)
  then show ?thesis
    using assms copy_down_bget [of n f "Suc (t - f)" b j]
    by (auto simp: bitset_shift_right_def Let_def bget_clear_range)
qed

subsection \<open>Properties\<close>

text \<open>The range operations, which work on whole bytes with masks from a table, set, clear and
  count exactly the bits of the range.\<close>

theorem bitset_ranges_correct:
  assumes "lo \<le> hi" "hi < 2 ^ 64"
  shows "bget (bitset_set_range b lo hi) i = (bget b i \<or> lo \<le> i \<and> i \<le> hi) \<and>
    bget (bitset_clear_range b lo hi) i = (bget b i \<and> \<not> (lo \<le> i \<and> i \<le> hi)) \<and>
    bitset_count_range b lo hi = card {k. lo \<le> k \<and> k \<le> hi \<and> bget b k}"
proof -
  have "{k \<in> {lo..<Suc hi}. bget b k} = {k. lo \<le> k \<and> k \<le> hi \<and> bget b k}" by auto
  then show ?thesis using assms
    by (simp add: bget_set_range bget_clear_range bitset_count_range_bcount bcount_card)
qed

theorem bitset_ranges_correct_witness:
  "bget (bitset_set_range (\<lambda>_. 0) 3 21) 17 \<and> \<not> bget (bitset_set_range (\<lambda>_. 0) 3 21) 22"
  using bitset_ranges_correct [of 3 21 "\<lambda>_. 0" 17] bitset_ranges_correct [of 3 21 "\<lambda>_. 0" 22]
  by (simp add: bget_def)

text \<open>Shifting a range right moves the bits \<open>from .. to\<close> up by \<open>by\<close> and clears the room
  behind them; shifting left moves \<open>from .. to - 1\<close> down but then clears \<open>to - from ..
  to - from + by - 1\<close>, counted from the start of the bitset and not of the range.\<close>

theorem bitset_shifts_correct:
  assumes "0 < n" "lo \<le> hi" "hi + n < 2 ^ 62"
  shows "bget (bitset_shift_right b lo hi n) j =
      (if lo \<le> j \<and> j < lo + n then False
       else if lo + n \<le> j \<and> j \<le> hi + n then bget b (j - n) else bget b j) \<and>
    (n \<le> lo \<longrightarrow> bget (bitset_shift_left b lo hi n) j =
      (if hi - lo \<le> j \<and> j < hi - lo + n then False
       else if lo - n \<le> j \<and> j < hi - n then bget b (j + n) else bget b j))"
  using assms bget_shift_right [of n lo hi b j] bget_shift_left [of n lo hi b j] by simp

theorem bitset_shifts_correct_witness:
  "bget (bitset_shift_right (bitset_set (\<lambda>_. 0) 4) 2 6 3) 7"
  using bitset_shifts_correct [of 3 2 6 "bitset_set (\<lambda>_. 0) 4" 7] by (simp add: bget_set)

end
