(* ===== verification/TreePos.thy ===== *)
theory TreePos
  imports Bitset
begin

text \<open>
  The buddy tree of \<open>src/mem/Buddy.cpp\<close>: positions and navigation, and where the status of a
  position is stored in the bitset.

  A tree of order \<open>n\<close> has \<open>n\<close> levels. The status of a node at depth \<open>d\<close> is a number between
  \<open>0\<close> and \<open>n - d + 1\<close>, kept in unary in \<open>n - d + 1\<close> bits; the levels follow one another in the
  bitset, root first. \<open>size_for_order\<close> computes where a level starts, and the tree memoises
  its values behind the bits.

  C keeps bits and memo table in the one array \<open>data[]\<close>. The model has one field for each,
  \<open>tree_bits\<close> (the bytes from \<open>data\<close> on) and \<open>tree_memo\<close> (the words from
  \<open>data + size_for_order_offset\<close> on); \<open>memo_behind_bits\<close> shows that the two parts do not
  overlap and that both lie within the \<open>buddy_tree_sizeof\<close> bytes the caller reserves.
\<close>

subsection \<open>Data\<close>

record buddy_tree_pos =
  pos_index :: nat
  pos_depth :: nat

record buddy_tree =
  upper_pos_bound :: nat
  size_for_order_offset :: nat
  tree_order :: nat
  tree_bits :: bitset
  tree_memo :: "nat \<Rightarrow> nat"

record tree_interval =
  int_from :: buddy_tree_pos
  int_to :: buddy_tree_pos

record internal_position =
  local_offset :: nat
  bitset_location :: nat

definition INVALID_POS :: buddy_tree_pos where
  "INVALID_POS = \<lparr>pos_index = 0, pos_depth = 0\<rparr>"

subsection \<open>Navigation\<close>

definition buddy_tree_valid :: "buddy_tree \<Rightarrow> buddy_tree_pos \<Rightarrow> bool" where
  "buddy_tree_valid t pos \<longleftrightarrow> pos_index pos \<noteq> 0 \<and> pos_index pos < upper_pos_bound t"

definition buddy_tree_order :: "buddy_tree \<Rightarrow> nat" where
  "buddy_tree_order t = tree_order t"

definition buddy_tree_root :: buddy_tree_pos where
  "buddy_tree_root = \<lparr>pos_index = 1, pos_depth = 1\<rparr>"

definition buddy_tree_leftmost_child_internal :: "nat \<Rightarrow> buddy_tree_pos" where
  "buddy_tree_leftmost_child_internal n = \<lparr>pos_index = shl32 (sub64 n 1), pos_depth = n\<rparr>"

definition buddy_tree_leftmost_child :: "buddy_tree \<Rightarrow> buddy_tree_pos" where
  "buddy_tree_leftmost_child t = buddy_tree_leftmost_child_internal (tree_order t)"

definition buddy_tree_depth :: "buddy_tree_pos \<Rightarrow> nat" where
  "buddy_tree_depth pos = pos_depth pos"

definition buddy_tree_left_child :: "buddy_tree_pos \<Rightarrow> buddy_tree_pos" where
  "buddy_tree_left_child pos =
     \<lparr>pos_index = mul64 (pos_index pos) 2, pos_depth = add64 (pos_depth pos) 1\<rparr>"

definition buddy_tree_right_child :: "buddy_tree_pos \<Rightarrow> buddy_tree_pos" where
  "buddy_tree_right_child pos =
     \<lparr>pos_index = add64 (mul64 (pos_index pos) 2) 1, pos_depth = add64 (pos_depth pos) 1\<rparr>"

definition buddy_tree_sibling :: "buddy_tree_pos \<Rightarrow> buddy_tree_pos" where
  "buddy_tree_sibling pos = pos\<lparr>pos_index := pos_index pos XOR 1\<rparr>"

definition buddy_tree_parent :: "buddy_tree_pos \<Rightarrow> buddy_tree_pos" where
  "buddy_tree_parent pos =
     \<lparr>pos_index = pos_index pos div 2, pos_depth = sub64 (pos_depth pos) 1\<rparr>"

definition buddy_tree_right_adjacent :: "buddy_tree_pos \<Rightarrow> buddy_tree_pos" where
  "buddy_tree_right_adjacent pos =
     (if add64 (pos_index pos) 1 XOR pos_index pos > pos_index pos then INVALID_POS
      else pos\<lparr>pos_index := add64 (pos_index pos) 1\<rparr>)"

text \<open>The index within the level: \<open>x & ~m\<close> is \<open>x - (x & m)\<close>.\<close>

definition buddy_tree_index_internal :: "buddy_tree_pos \<Rightarrow> nat" where
  "buddy_tree_index_internal pos =
     (let mask = shl32 (sub64 (pos_depth pos) 1 mod 63)
      in pos_index pos - (pos_index pos AND mask))"

definition buddy_tree_index :: "buddy_tree_pos \<Rightarrow> nat" where
  "buddy_tree_index pos = buddy_tree_index_internal pos"

text \<open>The loop \<open>while (depth != t->order)\<close> counts \<open>depth\<close> up to \<open>order\<close>.\<close>

definition buddy_tree_interval :: "buddy_tree \<Rightarrow> buddy_tree_pos \<Rightarrow> tree_interval" where
  "buddy_tree_interval t pos =
     (let steps = sub64 (tree_order t) (pos_depth pos)
      in \<lparr>int_from = (buddy_tree_left_child ^^ steps) pos,
          int_to = (buddy_tree_right_child ^^ steps) pos\<rparr>)"

definition buddy_tree_interval_contains :: "tree_interval \<Rightarrow> tree_interval \<Rightarrow> bool" where
  "buddy_tree_interval_contains outer inner \<longleftrightarrow>
     pos_index (int_from inner) \<ge> pos_index (int_from outer) \<and>
     pos_index (int_from inner) \<le> pos_index (int_to outer) \<and>
     pos_index (int_to inner) \<ge> pos_index (int_from outer) \<and>
     pos_index (int_to inner) \<le> pos_index (int_to outer)"

subsection \<open>Internal positions\<close>

text \<open>\<open>order\<close> is a \<open>uint8_t\<close> counted down to \<open>to\<close>; the sums are \<open>size_t\<close>.\<close>

function size_for_order_loop :: "8 word \<Rightarrow> 8 word \<Rightarrow> nat \<Rightarrow> nat \<Rightarrow> nat" where
  "size_for_order_loop ord to result multi =
     (if ord = to then result
      else size_for_order_loop (ord - 1) to
             (add64 result (mul64 (unat ord) multi)) (mul64 multi 2))"
  by pat_completeness auto
termination
proof (relation "measure (\<lambda>(ord, to, _). unat (ord - to))")
  show "wf (measure (\<lambda>(ord, to, _). unat (ord - to)))" by simp
next
  fix ord "to" :: "8 word" and result multi :: nat
  assume "ord \<noteq> to"
  then have "unat (ord - to - 1) < unat (ord - to)" by (intro measure_unat) simp
  then show "((ord - 1, to, add64 result (mul64 (unat ord) multi), mul64 multi 2),
      ord, to, result, multi) \<in> measure (\<lambda>(ord, to, _). unat (ord - to))"
    by (simp add: algebra_simps)
qed

declare size_for_order_loop.simps [simp del]

definition size_for_order :: "nat \<Rightarrow> nat \<Rightarrow> nat" where
  "size_for_order order to = size_for_order_loop (of_nat order) (of_nat to) 0 1"

definition buddy_tree_internal_position_order :: "nat \<Rightarrow> buddy_tree_pos \<Rightarrow> internal_position" where
  "buddy_tree_internal_position_order order pos =
     (let loc_off = add64 (sub64 order (buddy_tree_depth pos)) 1;
          total_offset = size_for_order order loc_off;
          local_index = buddy_tree_index_internal pos
      in \<lparr>local_offset = loc_off,
          bitset_location = add64 total_offset (mul64 loc_off local_index)\<rparr>)"

definition buddy_tree_size_for_order :: "buddy_tree \<Rightarrow> nat \<Rightarrow> nat" where
  "buddy_tree_size_for_order t to = tree_memo t (to mod 256)"

definition buddy_tree_internal_position_tree ::
  "buddy_tree \<Rightarrow> buddy_tree_pos \<Rightarrow> internal_position" where
  "buddy_tree_internal_position_tree t pos =
     (let loc_off = add64 (sub64 (tree_order t) (buddy_tree_depth pos)) 1;
          total_offset = buddy_tree_size_for_order t loc_off;
          local_index = buddy_tree_index_internal pos
      in \<lparr>local_offset = loc_off,
          bitset_location = add64 total_offset (mul64 loc_off local_index)\<rparr>)"

definition write_to_internal_position :: "bitset \<Rightarrow> internal_position \<Rightarrow> nat \<Rightarrow> bitset" where
  "write_to_internal_position b pos v =
     (if v = 0 then bitset_clear b (bitset_location pos)
      else let b = bitset_clear_range b (bitset_location pos)
                     (sub64 (add64 (bitset_location pos) (local_offset pos)) 1)
           in bitset_set_range b (bitset_location pos)
                (sub64 (add64 (bitset_location pos) v) 1))"

definition read_from_internal_position :: "bitset \<Rightarrow> internal_position \<Rightarrow> nat" where
  "read_from_internal_position b pos =
     (if bitset_test b (bitset_location pos) = 0 then 0
      else bitset_count_range b (bitset_location pos)
             (sub64 (add64 (bitset_location pos) (local_offset pos)) 1))"

subsection \<open>Size and initialisation of a tree\<close>

text \<open>\<open>sizeof (struct buddy_tree)\<close> is 24 on the 64-bit target.\<close>

definition buddy_tree_sizeof :: "nat \<Rightarrow> nat" where
  "buddy_tree_sizeof order =
     (let bitset_size = bitset_sizeof (size_for_order order 0);
          bitset_size = (if bitset_size mod 8 \<noteq> 0
                         then add64 bitset_size (bitset_size mod 8) else bitset_size);
          size_for_order_size = mul64 (order mod 256 + 2) 8
      in add64 (add64 24 bitset_size) size_for_order_size)"

definition buddy_tree_populate_size_for_order :: "buddy_tree \<Rightarrow> buddy_tree" where
  "buddy_tree_populate_size_for_order t =
     (let bitset_offset = bitset_sizeof (size_for_order (tree_order t) 0);
          bitset_offset = (if bitset_offset mod 8 \<noteq> 0
                           then add64 bitset_offset (bitset_offset mod 8) else bitset_offset)
      in t\<lparr>size_for_order_offset := add64 (bitset_offset div 8) 1,
           tree_memo := (\<lambda>i. if i \<le> tree_order t then size_for_order (tree_order t) i
                              else tree_memo t i)\<rparr>)"

text \<open>\<open>t0\<close> is what the memory at \<open>at\<close> held before; \<open>memset\<close> clears \<open>size\<close> bytes of it.\<close>

definition buddy_tree_init :: "buddy_tree \<Rightarrow> nat \<Rightarrow> buddy_tree" where
  "buddy_tree_init t0 order =
     (let size = buddy_tree_sizeof order;
          t = t0\<lparr>tree_bits := (\<lambda>k. if k < sub64 size 24 then 0 else tree_bits t0 k)\<rparr>;
          t = t\<lparr>tree_order := order mod 256, upper_pos_bound := shl32 (order mod 256)\<rparr>
      in buddy_tree_populate_size_for_order t)"

definition buddy_tree_status :: "buddy_tree \<Rightarrow> buddy_tree_pos \<Rightarrow> nat" where
  "buddy_tree_status t pos =
     (let internal = buddy_tree_internal_position_tree t pos
      in read_from_internal_position (tree_bits t) internal)"

subsection \<open>Where a level starts\<close>

definition row_start :: "nat \<Rightarrow> nat \<Rightarrow> nat" where
  "row_start n k = (\<Sum>j<k. (n - j) * 2 ^ j)"

lemma row_start_0 [simp]: "row_start n 0 = 0"
  by (simp add: row_start_def)

lemma row_start_Suc: "row_start n (Suc k) = row_start n k + (n - k) * 2 ^ k"
  by (simp add: row_start_def)

lemma row_start_shift: "row_start n (Suc k) = n + 2 * row_start (n - 1) k"
  by (simp add: row_start_def sum.lessThan_Suc_shift sum_distrib_left mult_ac del: sum.lessThan_Suc)

lemma row_start_mono: "k \<le> k' \<Longrightarrow> row_start n k \<le> row_start n k'"
  unfolding row_start_def by (rule sum_mono2) auto

lemma row_start_le: "row_start n k \<le> n * 2 ^ k"
proof (induction k)
  case 0
  then show ?case by simp
next
  case (Suc k)
  have "(n - k) * 2 ^ k \<le> n * 2 ^ k" by simp
  moreover have "n * 2 ^ Suc k = n * 2 ^ k + n * 2 ^ k" by simp
  ultimately show ?case using Suc unfolding row_start_Suc by linarith
qed

lemma row_start_bound:
  assumes "n \<le> 31" "k \<le> 31"
  shows "row_start n k \<le> 66571993088"
proof -
  have "(2::nat) ^ k \<le> 2 ^ 31" using assms(2) by (rule power_increasing) simp
  then have "n * 2 ^ k \<le> 31 * 2 ^ 31" using assms(1) by (intro mult_le_mono)
  then show ?thesis using row_start_le [of n k] by simp
qed

lemma byte_of_nat_eq: "a < 256 \<Longrightarrow> b < 256 \<Longrightarrow> (of_nat a :: 8 word) = of_nat b \<longleftrightarrow> a = b"
  by (simp add: word_of_nat_eq_iff take_bit_nat_eq_self)

lemma size_for_order_loop_sum:
  "k \<le> m \<Longrightarrow> m \<le> 31 \<Longrightarrow> result + multi * row_start m k < 2 ^ 64 \<Longrightarrow> multi * 2 ^ k < 2 ^ 64 \<Longrightarrow>
   size_for_order_loop (of_nat m) (of_nat (m - k)) result multi = result + multi * row_start m k"
proof (induction k arbitrary: m result multi)
  case 0
  then show ?case by (simp add: size_for_order_loop.simps)
next
  case (Suc k)
  define m' where "m' = m - 1"
  have m: "m = Suc m'" using Suc.prems(1) by (simp add: m'_def)
  have ne: "(of_nat m :: 8 word) \<noteq> of_nat (m - Suc k)"
    using Suc.prems(1,2) by (subst byte_of_nat_eq) auto
  have dec: "(of_nat m - 1 :: 8 word) = of_nat m'" by (simp add: m)
  have un: "unat (of_nat m :: 8 word) = m" using Suc.prems(2) by (simp add: unat_of_nat)
  have rs: "row_start m (Suc k) = m + 2 * row_start m' k"
    by (simp add: row_start_shift m)
  have b: "result + m * multi + multi * 2 * row_start m' k < 2 ^ 64" "multi * 2 * 2 ^ k < 2 ^ 64"
    using Suc.prems(3,4) unfolding rs by (simp_all add: algebra_simps)
  have "multi * 2 \<le> multi * 2 * 2 ^ k" by simp
  then have "multi * 2 < 2 ^ 64" using b(2) by linarith
  then have up: "add64 result (mul64 m multi) = result + m * multi" "mul64 multi 2 = multi * 2"
    using b(1) by (simp_all add: add64_small mul64_small)
  have "size_for_order_loop (of_nat m) (of_nat (m - Suc k)) result multi
      = size_for_order_loop (of_nat m') (of_nat (m' - k)) (result + m * multi) (multi * 2)"
    using ne by (subst size_for_order_loop.simps) (simp only: if_False dec un up, simp add: m)
  also have "\<dots> = result + m * multi + multi * 2 * row_start m' k"
    using Suc.prems(1,2) m b by (intro Suc.IH) auto
  also have "\<dots> = result + multi * row_start m (Suc k)"
    unfolding rs by (simp add: algebra_simps)
  finally show ?case .
qed

lemma size_for_order_row:
  assumes "to \<le> n" "n \<le> 31"
  shows "size_for_order n to = row_start n (n - to)"
proof -
  have 31: "n - to \<le> 31" using assms by simp
  then have "(2::nat) ^ (n - to) \<le> 2 ^ 31" by (rule power_increasing) simp
  then have "size_for_order_loop (of_nat n) (of_nat (n - (n - to))) 0 1
      = 0 + 1 * row_start n (n - to)"
    using assms row_start_bound [OF assms(2) 31] by (intro size_for_order_loop_sum) simp_all
  then show ?thesis using assms by (simp add: size_for_order_def)
qed

subsection \<open>Positions of a tree\<close>

text \<open>\<open>p\<close> is a node of a tree of order \<open>n\<close>; the theorems are about trees of order at most 31.\<close>

definition pos_wf :: "nat \<Rightarrow> buddy_tree_pos \<Rightarrow> bool" where
  "pos_wf n p \<longleftrightarrow> 1 \<le> pos_depth p \<and> pos_depth p \<le> n \<and>
     2 ^ (pos_depth p - 1) \<le> pos_index p \<and> pos_index p < 2 ^ pos_depth p"

definition order_ok :: "nat \<Rightarrow> bool" where
  "order_ok n \<longleftrightarrow> 1 \<le> n \<and> n \<le> 31"

lemma pos_wf_index_bound: "order_ok n \<Longrightarrow> pos_wf n p \<Longrightarrow> 0 < pos_index p \<and> pos_index p < 2147483648"
  unfolding pos_wf_def order_ok_def
  by (auto dest: pow2_bound31 [of "pos_index p" "pos_depth p"] intro: less_le_trans [of 0 "2 ^ (pos_depth p - 1)"])

lemma pos_wf_depth_bound: "order_ok n \<Longrightarrow> pos_wf n p \<Longrightarrow> 1 \<le> pos_depth p \<and> pos_depth p \<le> 31"
  by (auto simp: pos_wf_def order_ok_def)

lemma pos_eqI: "pos_index p = pos_index q \<Longrightarrow> pos_depth p = pos_depth q \<Longrightarrow> (p :: buddy_tree_pos) = q"
  by simp

text \<open>The depth of a node is determined by its index.\<close>

lemma pos_wf_depth: "pos_wf n p \<Longrightarrow> pos_depth p = bit_length (pos_index p)"
  using bit_length_eqI [of "pos_depth p - 1" "pos_index p"] by (auto simp: pos_wf_def)

lemma pos_wf_inj: "pos_wf n p \<Longrightarrow> pos_wf n q \<Longrightarrow> pos_index p = pos_index q \<Longrightarrow> p = q"
  by (rule pos_eqI) (simp_all add: pos_wf_depth)

lemma pos_wf_root: "order_ok n \<Longrightarrow> pos_wf n buddy_tree_root"
  by (simp add: pos_wf_def buddy_tree_root_def order_ok_def)

lemma pos_wf_not_root: "pos_wf n p \<Longrightarrow> pos_index p \<noteq> 1 \<Longrightarrow> 2 \<le> pos_depth p"
  by (cases "pos_depth p = 1") (auto simp: pos_wf_def)

lemma pos_wf_root_iff: "pos_wf n p \<Longrightarrow> pos_index p = 1 \<longleftrightarrow> pos_depth p = 1"
  using pos_wf_not_root by (fastforce simp: pos_wf_depth bit_length_pos)

lemma parent_wf:
  assumes "order_ok n" "pos_wf n p" "pos_index p \<noteq> 1"
  shows "pos_wf n (buddy_tree_parent p)"
    and "buddy_tree_parent p = \<lparr>pos_index = pos_index p div 2, pos_depth = pos_depth p - 1\<rparr>"
proof -
  obtain d where d: "pos_depth p = Suc (Suc d)"
    using pos_wf_not_root [OF assms(2,3)] by (metis add_2_eq_Suc le_Suc_ex)
  show eq: "buddy_tree_parent p = \<lparr>pos_index = pos_index p div 2, pos_depth = pos_depth p - 1\<rparr>"
    using pos_wf_depth_bound [OF assms(1,2)] by (simp add: buddy_tree_parent_def sub64_small)
  show "pos_wf n (buddy_tree_parent p)"
    using assms(2) unfolding eq pos_wf_def by (auto simp: d)
qed

lemma child_wf:
  assumes "order_ok n" "pos_wf n p" "pos_depth p < n"
  shows "pos_wf n (buddy_tree_left_child p)" "pos_wf n (buddy_tree_right_child p)"
    and "buddy_tree_left_child p = \<lparr>pos_index = 2 * pos_index p, pos_depth = Suc (pos_depth p)\<rparr>"
    and "buddy_tree_right_child p = \<lparr>pos_index = 2 * pos_index p + 1, pos_depth = Suc (pos_depth p)\<rparr>"
proof -
  have b: "0 < pos_index p" "pos_index p < 2147483648" "1 \<le> pos_depth p" "pos_depth p \<le> 31"
    using pos_wf_index_bound pos_wf_depth_bound assms by blast+
  show l: "buddy_tree_left_child p = \<lparr>pos_index = 2 * pos_index p, pos_depth = Suc (pos_depth p)\<rparr>"
    using b by (simp add: buddy_tree_left_child_def mul64_small add64_small)
  show r: "buddy_tree_right_child p = \<lparr>pos_index = 2 * pos_index p + 1, pos_depth = Suc (pos_depth p)\<rparr>"
    using b by (simp add: buddy_tree_right_child_def mul64_small add64_small)
  obtain d where d: "pos_depth p = Suc d" using b(3) by (cases "pos_depth p") auto
  show "pos_wf n (buddy_tree_left_child p)" "pos_wf n (buddy_tree_right_child p)"
    using assms(2,3) unfolding l r pos_wf_def by (auto simp: d)
qed

lemma index_internal:
  assumes "order_ok n" "pos_wf n p"
  shows "buddy_tree_index_internal p = pos_index p - 2 ^ (pos_depth p - 1)"
proof -
  define d where "d = pos_depth p - 1"
  have d: "d < 31" "pos_depth p = Suc d"
    using pos_wf_depth_bound [OF assms] by (auto simp: d_def)
  obtain k where k: "pos_index p = 2 ^ d + k" "k < 2 ^ d"
    using assms(2) unfolding pos_wf_def d_def [symmetric] by (auto simp: d dest: le_Suc_ex)
  have "sub64 (pos_depth p) 1 = d" using d by (simp add: sub64_small)
  then have "shl32 (sub64 (pos_depth p) 1 mod 63) = 2 ^ d" using d by (simp add: shl32_small)
  moreover have "bit (pos_index p) d"
    using div_nat_eqI [of "2 ^ d" 1 "pos_index p"] k by (simp add: bit_iff_odd)
  then have "pos_index p AND 2 ^ d = 2 ^ d" by (intro bit_eqI) (auto simp: bit_and_iff bit_exp_iff)
  ultimately show ?thesis by (simp add: buddy_tree_index_internal_def d_def Let_def)
qed

subsection \<open>Layout: every node has its own bits\<close>

definition node_height :: "nat \<Rightarrow> buddy_tree_pos \<Rightarrow> nat" where
  "node_height n p = Suc n - pos_depth p"

definition node_loc :: "nat \<Rightarrow> buddy_tree_pos \<Rightarrow> nat" where
  "node_loc n p = row_start n (pos_depth p - 1)
     + node_height n p * (pos_index p - 2 ^ (pos_depth p - 1))"

lemma node_height_pos: "pos_wf n p \<Longrightarrow> 0 < node_height n p"
  by (simp add: node_height_def pos_wf_def)

text \<open>A node's bits lie inside its level, and the next level starts behind them.\<close>

lemma node_in_row:
  assumes "pos_wf n p"
  shows "row_start n (pos_depth p - 1) \<le> node_loc n p"
    and "node_loc n p + node_height n p \<le> row_start n (pos_depth p)"
proof -
  obtain d where d: "pos_depth p = Suc d" using assms by (cases "pos_depth p") (auto simp: pos_wf_def)
  obtain k where k: "pos_index p = 2 ^ d + k" "Suc k \<le> 2 ^ d"
    using assms unfolding pos_wf_def d by (auto dest: le_Suc_ex)
  have h: "node_height n p = n - d" by (simp add: node_height_def d)
  have "node_loc n p + node_height n p = row_start n d + (n - d) * Suc k"
    by (simp add: node_loc_def h d k)
  also have "\<dots> \<le> row_start n d + (n - d) * 2 ^ d"
    using k(2) by (intro add_left_mono mult_le_mono2)
  finally show "node_loc n p + node_height n p \<le> row_start n (pos_depth p)"
    by (simp add: d row_start_Suc)
  show "row_start n (pos_depth p - 1) \<le> node_loc n p" by (simp add: node_loc_def)
qed

lemma node_bits_disjoint_aux:
  assumes "pos_wf n p" "pos_wf n q" "p \<noteq> q"
    and "pos_depth p < pos_depth q \<or> pos_depth p = pos_depth q \<and> pos_index p < pos_index q"
  shows "node_loc n p + node_height n p \<le> node_loc n q"
  using assms(4)
proof
  assume "pos_depth p < pos_depth q"
  then have "row_start n (pos_depth p) \<le> row_start n (pos_depth q - 1)"
    by (intro row_start_mono) simp
  then show ?thesis using node_in_row(2) [OF assms(1)] node_in_row(1) [OF assms(2)] by simp
next
  assume same: "pos_depth p = pos_depth q \<and> pos_index p < pos_index q"
  have "2 ^ (pos_depth p - 1) \<le> pos_index p" using assms(1) by (simp add: pos_wf_def)
  then have "Suc (pos_index p - 2 ^ (pos_depth p - 1)) \<le> pos_index q - 2 ^ (pos_depth p - 1)"
    using same by (intro Suc_leI diff_less_mono) auto
  then have "node_height n p * Suc (pos_index p - 2 ^ (pos_depth p - 1))
      \<le> node_height n p * (pos_index q - 2 ^ (pos_depth p - 1))" by (rule mult_le_mono2)
  then show ?thesis using same by (simp add: node_loc_def node_height_def)
qed

lemma node_bits_disjoint:
  assumes "pos_wf n p" "pos_wf n q" "p \<noteq> q"
  shows "node_loc n p + node_height n p \<le> node_loc n q \<or>
         node_loc n q + node_height n q \<le> node_loc n p"
proof (cases "pos_depth p < pos_depth q \<or> pos_depth p = pos_depth q \<and> pos_index p < pos_index q")
  case True
  then show ?thesis using node_bits_disjoint_aux [OF assms] by blast
next
  case False
  then have "pos_depth q < pos_depth p \<or> pos_depth q = pos_depth p \<and> pos_index q < pos_index p"
    using pos_eqI [of p q] assms(3) by fastforce
  then show ?thesis using node_bits_disjoint_aux [of n q p] assms by blast
qed

lemma node_bits_bound:
  assumes "pos_wf n p"
  shows "node_loc n p + node_height n p \<le> row_start n n"
proof -
  have "row_start n (pos_depth p) \<le> row_start n n"
    using assms by (intro row_start_mono) (simp add: pos_wf_def)
  then show ?thesis using node_in_row(2) [OF assms] by simp
qed

lemma node_loc_small:
  assumes "order_ok n" "pos_wf n p"
  shows "node_loc n p + node_height n p < 2 ^ 40"
proof -
  have "row_start n n \<le> 66571993088"
    using assms(1) by (intro row_start_bound) (auto simp: order_ok_def)
  then show ?thesis using node_bits_bound [OF assms(2)] by simp
qed

lemma internal_position_order:
  assumes "order_ok n" "pos_wf n p"
  shows "buddy_tree_internal_position_order n p
     = \<lparr>local_offset = node_height n p, bitset_location = node_loc n p\<rparr>"
proof -
  have d: "1 \<le> pos_depth p" "pos_depth p \<le> n" "n \<le> 31"
    using assms by (auto simp: pos_wf_def order_ok_def)
  have h: "add64 (sub64 n (pos_depth p)) 1 = node_height n p"
    using d by (simp add: sub64_small add64_small node_height_def Suc_diff_le)
  have s: "size_for_order n (node_height n p) = row_start n (pos_depth p - 1)"
    using d size_for_order_row [of "node_height n p" n] by (simp add: node_height_def)
  have i: "buddy_tree_index_internal p = pos_index p - 2 ^ (pos_depth p - 1)"
    by (rule index_internal [OF assms])
  have "mul64 (node_height n p) (pos_index p - 2 ^ (pos_depth p - 1))
      = node_height n p * (pos_index p - 2 ^ (pos_depth p - 1))"
    using node_loc_small [OF assms] by (intro mul64_small) (simp add: node_loc_def)
  moreover have "add64 (row_start n (pos_depth p - 1))
      (node_height n p * (pos_index p - 2 ^ (pos_depth p - 1))) = node_loc n p"
    using node_loc_small [OF assms] by (simp add: node_loc_def add64_small)
  ultimately show ?thesis
    unfolding buddy_tree_internal_position_order_def Let_def buddy_tree_depth_def h s i by simp
qed

text \<open>The memo table agrees with \<open>size_for_order\<close>.\<close>

definition tree_ok :: "nat \<Rightarrow> buddy_tree \<Rightarrow> bool" where
  "tree_ok n t \<longleftrightarrow> order_ok n \<and> tree_order t = n \<and> upper_pos_bound t = 2 ^ n \<and>
     (\<forall>i\<le>n. tree_memo t i = size_for_order n i)"

lemma tree_okD:
  assumes "tree_ok n t"
  shows "order_ok n" "tree_order t = n" "upper_pos_bound t = 2 ^ n"
    "i \<le> n \<Longrightarrow> tree_memo t i = size_for_order n i"
  using assms by (auto simp: tree_ok_def)

lemma internal_position_tree_order:
  assumes "tree_ok n t" "pos_wf n p"
  shows "buddy_tree_internal_position_tree t p = buddy_tree_internal_position_order n p"
proof -
  have d: "1 \<le> pos_depth p" "pos_depth p \<le> n" "n \<le> 31"
    using assms(2) tree_okD(1) [OF assms(1)] by (auto simp: pos_wf_def order_ok_def)
  then have "add64 (sub64 n (pos_depth p)) 1 \<le> n"
    by (simp add: sub64_small add64_small)
  then show ?thesis using d tree_okD [OF assms(1)]
    by (simp add: buddy_tree_internal_position_tree_def buddy_tree_internal_position_order_def
        buddy_tree_depth_def buddy_tree_size_for_order_def Let_def)
qed

lemma internal_position_tree:
  assumes "tree_ok n t" "pos_wf n p"
  shows "buddy_tree_internal_position_tree t p
     = \<lparr>local_offset = node_height n p, bitset_location = node_loc n p\<rparr>"
  using internal_position_tree_order [OF assms] internal_position_order [OF tree_okD(1) assms(2)] assms(1)
  by simp

lemma valid_iff:
  assumes "tree_ok n t" "pos_wf n p"
  shows "buddy_tree_valid t p"
proof -
  have "(2::nat) ^ pos_depth p \<le> 2 ^ n"
    using assms(2) by (intro power_increasing) (auto simp: pos_wf_def)
  moreover have "pos_index p < 2 ^ pos_depth p" using assms(2) by (simp add: pos_wf_def)
  ultimately have "pos_index p < 2 ^ n" by linarith
  then show ?thesis using pos_wf_index_bound [OF tree_okD(1) [OF assms(1)] assms(2)]
    by (simp add: buddy_tree_valid_def tree_okD(3) [OF assms(1)])
qed

subsection \<open>The unary status cells\<close>

lemma read_cell:
  assumes "0 < h" "loc + h < 2 ^ 64"
  shows "read_from_internal_position b \<lparr>local_offset = h, bitset_location = loc\<rparr>
     = (if bget b loc then bcount b loc (loc + h) else 0)"
proof -
  have "sub64 (add64 loc h) 1 = loc + h - 1" using assms by (simp add: add64_small sub64_small)
  moreover have "bitset_count_range b loc (loc + h - 1) = bcount b loc (loc + h)"
    using assms bitset_count_range_bcount [of loc "loc + h - 1" b] by simp
  ultimately show ?thesis
    unfolding read_from_internal_position_def internal_position.simps
    by (simp add: bitset_test_0)
qed

lemma write_cell_bget:
  assumes "v \<le> h" "0 < h" "loc + h < 2 ^ 64"
  shows "bget (write_to_internal_position b \<lparr>local_offset = h, bitset_location = loc\<rparr> v) i \<longleftrightarrow>
     (if v = 0 then i \<noteq> loc \<and> bget b i
      else if loc \<le> i \<and> i < loc + h then i < loc + v else bget b i)"
proof (cases "v = 0")
  case True
  then show ?thesis by (simp add: write_to_internal_position_def bget_clear)
next
  case False
  have "sub64 (add64 loc h) 1 = loc + h - 1" "sub64 (add64 loc v) 1 = loc + v - 1"
    using assms False by (simp_all add: add64_small sub64_small)
  then show ?thesis using assms False
    by (auto simp: write_to_internal_position_def Let_def bget_set_range bget_clear_range)
qed

lemma bcount_cong: "(\<And>i. lo \<le> i \<Longrightarrow> i < hi \<Longrightarrow> bget b i \<longleftrightarrow> bget b' i) \<Longrightarrow> bcount b lo hi = bcount b' lo hi"
  unfolding bcount_def by (rule sum.cong) auto

lemma read_write_same:
  assumes "v \<le> h" "0 < h" "loc + h < 2 ^ 64"
  shows "read_from_internal_position
           (write_to_internal_position b \<lparr>local_offset = h, bitset_location = loc\<rparr> v)
           \<lparr>local_offset = h, bitset_location = loc\<rparr> = v"
proof (cases "v = 0")
  case True
  then show ?thesis using assms by (simp add: read_cell write_cell_bget)
next
  case False
  let ?b = "write_to_internal_position b \<lparr>local_offset = h, bitset_location = loc\<rparr> v"
  have "{i \<in> {loc..<loc + h}. bget ?b i} = {loc..<loc + v}"
    using assms False by (auto simp: write_cell_bget)
  then have "bcount ?b loc (loc + h) = v" by (simp add: bcount_card)
  then show ?thesis using assms False by (simp add: read_cell write_cell_bget)
qed

lemma read_write_other:
  assumes "v \<le> h" "0 < h" "loc + h < 2 ^ 64" "0 < h'" "loc' + h' < 2 ^ 64"
    and "loc + h \<le> loc' \<or> loc' + h' \<le> loc"
  shows "read_from_internal_position
           (write_to_internal_position b \<lparr>local_offset = h, bitset_location = loc\<rparr> v)
           \<lparr>local_offset = h', bitset_location = loc'\<rparr>
         = read_from_internal_position b \<lparr>local_offset = h', bitset_location = loc'\<rparr>"
proof -
  let ?b = "write_to_internal_position b \<lparr>local_offset = h, bitset_location = loc\<rparr> v"
  have eq: "bget ?b i \<longleftrightarrow> bget b i" if "loc' \<le> i" "i < loc' + h'" for i
    using assms that by (auto simp: write_cell_bget)
  moreover have "bcount ?b loc' (loc' + h') = bcount b loc' (loc' + h')"
    by (rule bcount_cong) (rule eq)
  ultimately show ?thesis using assms(4,5) by (simp add: read_cell)
qed

lemma read_cell_le:
  assumes "0 < h" "loc + h < 2 ^ 64"
  shows "read_from_internal_position b \<lparr>local_offset = h, bitset_location = loc\<rparr> \<le> h"
proof -
  have "bcount b loc (loc + h) \<le> card {loc..<loc + h}"
    unfolding bcount_card by (rule card_mono) auto
  then show ?thesis using assms by (simp add: read_cell)
qed

end
