(* ===== verification/BuddyTree.thy ===== *)
theory BuddyTree
  imports TreePos "HOL-Library.Monad_Syntax"
begin

text \<open>
  The operations of the buddy tree (\<open>src/mem/Buddy.cpp\<close>): marking and releasing a position,
  the propagation to the root, the search for a free slot, the walk and the resizing.

  A loop of the code whose end is not evident from its text is a
  \<open>partial_function (option)\<close>: \<open>None\<close> means that the call does not return. The theorems show
  \<open>Some\<close> for the arguments the allocator passes.
\<close>

subsection \<open>Propagation to the root\<close>

text \<open>\<open>target_parent\<close>: zero when both halves are free, else one more than the smaller status.\<close>

definition target_parent :: "nat \<Rightarrow> nat \<Rightarrow> nat" where
  "target_parent size_current size_sibling =
     of_bool (size_current \<noteq> 0 \<or> size_sibling \<noteq> 0) *
     ((if size_current \<le> size_sibling then size_current else size_sibling) + 1)"

text \<open>The location is moved to the sibling: forward for a left child, back for a right one.\<close>

definition sibling_location :: "internal_position \<Rightarrow> buddy_tree_pos \<Rightarrow> nat" where
  "sibling_location pos_internal pos =
     add64 (bitset_location pos_internal)
       (sub64 (local_offset pos_internal)
          (mul64 (mul64 2 (local_offset pos_internal)) (pos_index pos AND 1)))"

partial_function (option) update_parent_chain ::
  "buddy_tree \<Rightarrow> buddy_tree_pos \<Rightarrow> internal_position \<Rightarrow> nat \<Rightarrow> buddy_tree option" where
  "update_parent_chain t pos pos_internal size_current =
     (if pos_index pos \<noteq> 1 then
        let pos_internal = pos_internal\<lparr>bitset_location := sibling_location pos_internal pos\<rparr>;
            size_sibling = read_from_internal_position (tree_bits t) pos_internal;
            pos = buddy_tree_parent pos;
            pos_internal = buddy_tree_internal_position_tree t pos;
            size_parent = read_from_internal_position (tree_bits t) pos_internal;
            target = target_parent size_current size_sibling
        in if target = size_parent then Some t
           else update_parent_chain
                  (t\<lparr>tree_bits := write_to_internal_position (tree_bits t) pos_internal target\<rparr>)
                  pos pos_internal target
      else Some t)"

declare update_parent_chain.simps [code]

definition buddy_tree_mark :: "buddy_tree \<Rightarrow> buddy_tree_pos \<Rightarrow> buddy_tree option" where
  "buddy_tree_mark t pos =
     (let internal = buddy_tree_internal_position_tree t pos;
          t = t\<lparr>tree_bits := write_to_internal_position (tree_bits t) internal
                                (local_offset internal)\<rparr>
      in update_parent_chain t pos internal (local_offset internal))"

text \<open>\<open>BUDDY_ALLOC_SAFETY\<close> is not defined in this build.\<close>

definition buddy_tree_release :: "buddy_tree \<Rightarrow> buddy_tree_pos \<Rightarrow> buddy_tree option" where
  "buddy_tree_release t pos =
     (let internal = buddy_tree_internal_position_tree t pos;
          t = t\<lparr>tree_bits := write_to_internal_position (tree_bits t) internal 0\<rparr>
      in update_parent_chain t pos internal 0)"

subsection \<open>Searching\<close>

text \<open>\<open>target_depth\<close>, \<open>left_bias\<close> and \<open>target_status\<close> are \<open>uint8_t\<close>.\<close>

partial_function (option) find_free_loop ::
  "buddy_tree \<Rightarrow> nat \<Rightarrow> bool \<Rightarrow> buddy_tree_pos \<Rightarrow> nat \<Rightarrow> nat \<Rightarrow> nat \<Rightarrow> buddy_tree_pos option" where
  "find_free_loop t target_depth left_bias start target_status current_depth current_status =
     (if current_depth = target_depth
      then Some (if current_status = 0 then start else INVALID_POS)
      else if current_status > target_status then Some INVALID_POS
      else
        let target_status = (target_status + 255) mod 256;
            current_depth = add64 current_depth 1;
            left_pos = buddy_tree_left_child start;
            right_pos = buddy_tree_sibling left_pos;
            internal = buddy_tree_internal_position_tree t left_pos;
            left_status = read_from_internal_position (tree_bits t) internal;
            internal = internal\<lparr>bitset_location :=
                         add64 (bitset_location internal) (local_offset internal)\<rparr>;
            right_status = read_from_internal_position (tree_bits t) internal
        in if left_status > target_status
           then find_free_loop t target_depth left_bias right_pos target_status current_depth right_status
           else if right_status > target_status
           then find_free_loop t target_depth left_bias left_pos target_status current_depth left_status
           else if left_bias \<or> left_status \<ge> right_status
           then find_free_loop t target_depth left_bias left_pos target_status current_depth left_status
           else find_free_loop t target_depth left_bias right_pos target_status current_depth right_status)"

declare find_free_loop.simps [code]

definition buddy_tree_find_free :: "buddy_tree \<Rightarrow> nat \<Rightarrow> nat \<Rightarrow> buddy_tree_pos option" where
  "buddy_tree_find_free t target_depth left_bias =
     (let target_depth = target_depth mod 256;
          start = buddy_tree_root;
          target_status = (target_depth + 255) mod 256;
          current_depth = buddy_tree_depth start;
          current_status = buddy_tree_status t start
      in find_free_loop t target_depth (left_bias mod 256 \<noteq> 0) start target_status
           current_depth current_status)"

function is_free_loop :: "buddy_tree \<Rightarrow> buddy_tree_pos \<Rightarrow> bool" where
  "is_free_loop t pos =
     (if buddy_tree_valid t pos then
        let internal = buddy_tree_internal_position_tree t pos;
            v = read_from_internal_position (tree_bits t) internal
        in if v \<noteq> 0 then v \<noteq> local_offset internal
           else is_free_loop t (buddy_tree_parent pos)
      else True)"
  by pat_completeness auto
termination
  by (relation "measure (\<lambda>(t, pos). pos_index pos)")
     (auto simp: buddy_tree_valid_def buddy_tree_parent_def)

declare is_free_loop.simps [simp del]

definition buddy_tree_is_free :: "buddy_tree \<Rightarrow> buddy_tree_pos \<Rightarrow> bool" where
  "buddy_tree_is_free t pos =
     (if buddy_tree_status t pos \<noteq> 0 then False
      else is_free_loop t (buddy_tree_parent pos))"

definition buddy_tree_can_shrink :: "buddy_tree \<Rightarrow> bool" where
  "buddy_tree_can_shrink t =
     (if buddy_tree_status t (buddy_tree_right_child buddy_tree_root) \<noteq> 0 then False
      else let root_internal = buddy_tree_internal_position_tree t buddy_tree_root;
               root_value = read_from_internal_position (tree_bits t) root_internal
           in \<not> root_value = local_offset root_internal)"

subsection \<open>Resizing\<close>

text \<open>
  \<open>grow_rows\<close> is the inner loop \<open>while (current_order)\<close>: it moves the levels of the old tree,
  deepest first, to the left half of the next deeper level and clears the right half.
\<close>

primrec grow_rows :: "nat \<Rightarrow> buddy_tree \<Rightarrow> buddy_tree_pos \<Rightarrow> buddy_tree_pos \<Rightarrow> buddy_tree" where
  "grow_rows 0 t current_pos next_pos = t"
| "grow_rows (Suc k) t current_pos next_pos =
     (let current_internal = buddy_tree_internal_position_order (tree_order t) current_pos;
          next_internal = buddy_tree_internal_position_order (tree_order t + 1) next_pos;
          node_count = shl32 (sub64 (Suc k) 1);
          b = bitset_shift_right (tree_bits t) (bitset_location current_internal)
                (add64 (bitset_location current_internal)
                   (mul64 (local_offset current_internal) node_count))
                (sub64 (bitset_location next_internal) (bitset_location current_internal));
          b = bitset_clear_range b
                (add64 (bitset_location next_internal)
                   (mul64 (local_offset next_internal) node_count))
                (sub64 (add64 (bitset_location next_internal)
                   (mul64 (mul64 (local_offset next_internal) node_count) 2)) 1)
      in grow_rows k (t\<lparr>tree_bits := b\<rparr>) (buddy_tree_parent current_pos)
           (buddy_tree_parent next_pos))"

definition grow_one :: "buddy_tree \<Rightarrow> buddy_tree option" where
  "grow_one t =
     (let current_order = tree_order t;
          t = grow_rows current_order t
                (buddy_tree_leftmost_child_internal current_order)
                (buddy_tree_leftmost_child_internal (current_order + 1));
          t = t\<lparr>tree_order := (tree_order t + 1) mod 256\<rparr>;
          t = t\<lparr>upper_pos_bound := shl32 (tree_order t)\<rparr>;
          t = buddy_tree_populate_size_for_order t;
          right = buddy_tree_right_child buddy_tree_root
      in update_parent_chain t right (buddy_tree_internal_position_tree t right) 0)"

text \<open>\<open>while (desired_order > t->order)\<close>, one order at a time.\<close>

partial_function (option) buddy_tree_grow :: "buddy_tree \<Rightarrow> nat \<Rightarrow> buddy_tree option" where
  "buddy_tree_grow t desired_order =
     (if desired_order > tree_order t
      then do { t \<leftarrow> grow_one t; buddy_tree_grow t desired_order }
      else Some t)"

declare buddy_tree_grow.simps [code]

partial_function (option) shrink_rows ::
  "buddy_tree \<Rightarrow> nat \<Rightarrow> nat \<Rightarrow> buddy_tree_pos \<Rightarrow> buddy_tree option" where
  "shrink_rows t current_order next_order left_start =
     (if buddy_tree_valid t left_start then
        let current_internal = buddy_tree_internal_position_order current_order left_start;
            next_internal = buddy_tree_internal_position_order next_order
                              (buddy_tree_parent left_start);
            node_count = shl32 (sub64 (pos_depth left_start) 1);
            b = bitset_shift_left (tree_bits t) (bitset_location current_internal)
                  (add64 (bitset_location current_internal)
                     (mul64 (local_offset current_internal) node_count div 2))
                  (sub64 (bitset_location current_internal) (bitset_location next_internal))
        in shrink_rows (t\<lparr>tree_bits := b\<rparr>) current_order next_order
             (buddy_tree_left_child left_start)
      else Some t)"

declare shrink_rows.simps [code]

partial_function (option) buddy_tree_shrink :: "buddy_tree \<Rightarrow> nat \<Rightarrow> buddy_tree option" where
  "buddy_tree_shrink t desired_order =
     (if desired_order < tree_order t then
        if \<not> buddy_tree_can_shrink t then Some t
        else
          let current_order = tree_order t;
              next_order = sub64 current_order 1
          in do {
            t \<leftarrow> shrink_rows t current_order next_order (buddy_tree_left_child buddy_tree_root);
            let t = t\<lparr>tree_order := next_order mod 256\<rparr>;
            let t = t\<lparr>upper_pos_bound := shl32 (tree_order t)\<rparr>;
            buddy_tree_shrink (buddy_tree_populate_size_for_order t) desired_order
          }
      else Some t)"

declare buddy_tree_shrink.simps [code]

definition buddy_tree_resize :: "buddy_tree \<Rightarrow> nat \<Rightarrow> buddy_tree option" where
  "buddy_tree_resize t desired_order =
     (let desired_order = desired_order mod 256
      in if tree_order t = desired_order then Some t
         else if tree_order t < desired_order then buddy_tree_grow t desired_order
         else buddy_tree_shrink t desired_order)"

subsection \<open>Walking\<close>

record buddy_tree_walk_state =
  starting_pos :: buddy_tree_pos
  current_pos :: buddy_tree_pos
  going_up :: bool
  walk_done :: bool

definition buddy_tree_walk_state_root :: buddy_tree_walk_state where
  "buddy_tree_walk_state_root =
     \<lparr>starting_pos = buddy_tree_root, current_pos = buddy_tree_root,
      going_up = False, walk_done = False\<rparr>"

text \<open>One pass through the body of the \<open>do ... while (state->going_up)\<close> loop.\<close>

definition walk_body :: "buddy_tree \<Rightarrow> buddy_tree_walk_state \<Rightarrow> buddy_tree_walk_state" where
  "walk_body t s =
     (if going_up s then
        if pos_index (current_pos s) = pos_index (starting_pos s)
        then s\<lparr>walk_done := True, going_up := False\<rparr>
        else if pos_index (current_pos s) AND 1 \<noteq> 0
        then s\<lparr>current_pos := buddy_tree_parent (current_pos s)\<rparr>
        else s\<lparr>current_pos := buddy_tree_right_adjacent (current_pos s), going_up := False\<rparr>
      else if buddy_tree_valid t (buddy_tree_left_child (current_pos s))
      then s\<lparr>current_pos := buddy_tree_left_child (current_pos s)\<rparr>
      else s\<lparr>going_up := True\<rparr>)"

partial_function (option) walk_loop ::
  "buddy_tree \<Rightarrow> buddy_tree_walk_state \<Rightarrow> buddy_tree_walk_state option" where
  "walk_loop t s =
     (let s = walk_body t s in if going_up s then walk_loop t s else Some s)"

declare walk_loop.simps [code]

definition buddy_tree_walk ::
  "buddy_tree \<Rightarrow> buddy_tree_walk_state \<Rightarrow> (bool \<times> buddy_tree_walk_state) option" where
  "buddy_tree_walk t s = do { s \<leftarrow> walk_loop t s; Some (\<not> walk_done s, s) }"

text \<open>The check of one node made by \<open>buddy_tree_check_invariant\<close>.\<close>

definition node_violated :: "buddy_tree \<Rightarrow> buddy_tree_pos \<Rightarrow> bool" where
  "node_violated t pos =
     (let current_internal = buddy_tree_internal_position_tree t pos;
          current_status = read_from_internal_position (tree_bits t) current_internal;
          left_child_status = buddy_tree_status t (buddy_tree_left_child pos);
          right_child_status = buddy_tree_status t (buddy_tree_right_child pos)
      in if left_child_status \<noteq> 0 \<or> right_child_status \<noteq> 0
         then current_status \<noteq> add64 (if left_child_status \<le> right_child_status
                                    then left_child_status else right_child_status) 1
         else current_status > 0 \<and> current_status < local_offset current_internal)"

text \<open>The loop walks \<open>state\<close>, but the body looks at the argument \<open>pos\<close> every time.\<close>

partial_function (option) check_invariant_loop ::
  "buddy_tree \<Rightarrow> buddy_tree_pos \<Rightarrow> buddy_tree_walk_state \<Rightarrow> bool \<Rightarrow> bool option" where
  "check_invariant_loop t pos state fail =
     (let fail = (if buddy_tree_valid t (buddy_tree_left_child pos) \<and> node_violated t pos
                  then True else fail)
      in do {
        (more, state) \<leftarrow> buddy_tree_walk t state;
        if more then check_invariant_loop t pos state fail else Some fail
      })"

declare check_invariant_loop.simps [code]

definition buddy_tree_check_invariant :: "buddy_tree \<Rightarrow> buddy_tree_pos \<Rightarrow> bool option" where
  "buddy_tree_check_invariant t pos =
     check_invariant_loop t pos (buddy_tree_walk_state_root\<lparr>current_pos := pos\<rparr>) False"

end
