(* ===== verification/TreeSpec.thy ===== *)
theory TreeSpec
  imports BuddyTree
begin

text \<open>
  What the buddy tree promises, independent of its encoding. Nodes are numbered as in a heap:
  the root is \<open>1\<close>, the children of \<open>i\<close> are \<open>2 * i\<close> and \<open>2 * i + 1\<close>, and the depth of a
  node is the bit length of its number. The state is the set of allocated nodes, no two of
  which lie on one path; the status of a node is a function (\<open>astat\<close>) of that set.

  \<open>status_store\<close> is the interface between the two levels: numbers that can be read and
  written per node. The propagation to the root is proved correct against it, and the bitset
  encoding of \<open>TreePos\<close> is shown to be such a store.
\<close>

subsection \<open>Subtrees\<close>

definition below :: "nat \<Rightarrow> nat \<Rightarrow> bool" where
  "below i j \<longleftrightarrow> (\<exists>k. j div 2 ^ k = i)"

lemma below_refl [simp]: "below i i"
  unfolding below_def by (rule exI [of _ 0]) simp

lemma below_trans: "below i j \<Longrightarrow> below j k \<Longrightarrow> below i k"
  unfolding below_def by (metis div_mult2_eq power_add)

lemma below_half: "below i (j div 2) \<Longrightarrow> below i j"
  unfolding below_def by (metis div_mult2_eq power_Suc)

lemma below_cases: "below i j \<longleftrightarrow> i = j \<or> below i (j div 2)"
proof
  assume "below i j"
  then obtain k where k: "j div 2 ^ k = i" by (auto simp: below_def)
  show "i = j \<or> below i (j div 2)"
  proof (cases k)
    case 0
    then show ?thesis using k by simp
  next
    case (Suc k')
    then have "j div 2 div 2 ^ k' = i" using k by (simp add: div_mult2_eq)
    then show ?thesis by (auto simp: below_def)
  qed
qed (auto intro: below_half)

lemma below_child: "below (2 * i) j \<Longrightarrow> below i j" "below (2 * i + 1) j \<Longrightarrow> below i j"
  by (rule below_trans [of i "2 * i"], rule below_half, simp_all)
     (rule below_trans [of i "2 * i + 1"], rule below_half, simp_all)

lemma bit_length_half: "bit_length (j div 2) = bit_length j - 1"
  by (cases "j = 0") (simp_all add: bit_length_pos)

lemma bit_length_div_pow: "bit_length (j div 2 ^ k) = bit_length j - k"
proof (induction k arbitrary: j)
  case (Suc k)
  then show ?case using Suc [of "j div 2"] by (simp add: div_mult2_eq bit_length_half)
qed simp

lemma bit_length_eq_0 [simp]: "bit_length j = 0 \<longleftrightarrow> j = 0"
  by (cases "j = 0") (simp_all add: bit_length_pos)

lemma bit_length_gt_0 [simp]: "0 < bit_length j \<longleftrightarrow> 0 < j"
  using bit_length_eq_0 [of j] by (simp only: neq0_conv [symmetric])

lemma bit_length_double: "0 < i \<Longrightarrow> bit_length (2 * i) = Suc (bit_length i)"
  "bit_length (Suc (2 * i)) = Suc (bit_length i)"
  using bit_length_pos [of "2 * i"] bit_length_pos [of "Suc (2 * i)"] by simp_all

lemma below_depth: "0 < i \<Longrightarrow> below i j \<Longrightarrow> bit_length i \<le> bit_length j"
  unfolding below_def by (auto simp: bit_length_div_pow)

text \<open>The ancestor at a given depth is unique.\<close>

lemma below_eq: "0 < i \<Longrightarrow> below i j \<longleftrightarrow> bit_length i \<le> bit_length j \<and> j div 2 ^ (bit_length j - bit_length i) = i"
proof
  assume i: "0 < i" and "below i j"
  then obtain k where k: "j div 2 ^ k = i" by (auto simp: below_def)
  then have "bit_length i = bit_length j - k" using bit_length_div_pow [of j k] by simp
  moreover have "0 < bit_length i" using i by simp
  ultimately have "k = bit_length j - bit_length i" "bit_length i \<le> bit_length j" by auto
  then show "bit_length i \<le> bit_length j \<and> j div 2 ^ (bit_length j - bit_length i) = i"
    using k by simp
qed (auto simp: below_def)

lemma below_unique:
  "0 < i \<Longrightarrow> 0 < i' \<Longrightarrow> below i j \<Longrightarrow> below i' j \<Longrightarrow> bit_length i = bit_length i' \<Longrightarrow> i = i'"
  by (auto simp: below_eq)

lemma below_antisym: "0 < i \<Longrightarrow> 0 < j \<Longrightarrow> below i j \<Longrightarrow> below j i \<Longrightarrow> i = j"
  using below_depth [of i j] below_depth [of j i] by (auto simp: below_eq)

lemma below_linear: "0 < i \<Longrightarrow> 0 < i' \<Longrightarrow> below i j \<Longrightarrow> below i' j \<Longrightarrow> below i i' \<or> below i' i"
proof -
  have *: "below a b" if "0 < a" "0 < b" "below a j" "below b j" "bit_length a \<le> bit_length b" for a b
  proof -
    have b: "b = j div 2 ^ (bit_length j - bit_length b)" "bit_length b \<le> bit_length j"
      using that by (simp_all add: below_eq)
    have "b div 2 ^ (bit_length b - bit_length a)
        = j div 2 ^ (bit_length j - bit_length b + (bit_length b - bit_length a))"
      by (subst b(1)) (simp only: div_mult2_eq power_add)
    then have "b div 2 ^ (bit_length b - bit_length a) = j div 2 ^ (bit_length j - bit_length a)"
      using b(2) that(5) by simp
    then show ?thesis using that by (auto simp: below_eq)
  qed
  assume "0 < i" "0 < i'" "below i j" "below i' j"
  then show ?thesis using * [of i i'] * [of i' i] by linarith
qed

lemma below_children_disjoint: "0 < i \<Longrightarrow> below (2 * i) j \<Longrightarrow> below (2 * i + 1) j \<Longrightarrow> False"
  using below_unique [of "2 * i" "2 * i + 1" j] by (simp add: bit_length_double)

lemma below_down: "0 < i \<Longrightarrow> below i j \<Longrightarrow> i = j \<or> below (2 * i) j \<or> below (2 * i + 1) j"
proof -
  assume "0 < i" "below i j"
  then obtain k where k: "j div 2 ^ k = i" by (auto simp: below_def)
  show ?thesis
  proof (cases k)
    case 0
    then show ?thesis using k by simp
  next
    case (Suc k')
    define m where "m = j div 2 ^ k'"
    have "m div 2 = i" unfolding m_def using k by (simp only: Suc power_Suc2 div_mult2_eq)
    then have "m = 2 * i \<or> m = 2 * i + 1" by presburger
    then show ?thesis unfolding below_def m_def by blast
  qed
qed

lemma below_zero: "below 0 j"
  unfolding below_def by (rule exI [of _ "j"]) (simp add: less_exp)

lemma below_pos: "0 < i \<Longrightarrow> below i j \<Longrightarrow> 0 < j"
  by (cases j) (auto simp: below_def)

subsection \<open>The status as a function of the allocated nodes\<close>

text \<open>\<open>h\<close> is the number of levels from \<open>i\<close> downwards.\<close>

fun astat :: "nat set \<Rightarrow> nat \<Rightarrow> nat \<Rightarrow> nat" where
  "astat A 0 i = 0"
| "astat A (Suc h) i =
     (if i \<in> A then Suc h
      else target_parent (astat A h (2 * i)) (astat A h (2 * i + 1)))"

definition node :: "nat \<Rightarrow> nat \<Rightarrow> bool" where
  "node n i \<longleftrightarrow> 0 < i \<and> i < 2 ^ n"

definition height :: "nat \<Rightarrow> nat \<Rightarrow> nat" where
  "height n i = Suc n - bit_length i"

definition alloc_wf :: "nat \<Rightarrow> nat set \<Rightarrow> bool" where
  "alloc_wf n A \<longleftrightarrow> (\<forall>i\<in>A. node n i) \<and> (\<forall>i\<in>A. \<forall>j\<in>A. below i j \<longrightarrow> i = j)"

text \<open>A node can be allocated when no allocated node is above, at or below it.\<close>

definition free_node :: "nat set \<Rightarrow> nat \<Rightarrow> bool" where
  "free_node A j \<longleftrightarrow> (\<forall>a\<in>A. \<not> below a j \<and> \<not> below j a)"

lemma node_depth: "node n i \<Longrightarrow> 1 \<le> bit_length i \<and> bit_length i \<le> n"
  using bit_length_le [of i n] by (auto simp: node_def Suc_le_eq)

lemma node_iff_depth: "node n i \<longleftrightarrow> 1 \<le> bit_length i \<and> bit_length i \<le> n"
proof
  assume h: "1 \<le> bit_length i \<and> bit_length i \<le> n"
  then have "0 < i" by (cases "i = 0") auto
  moreover from this have "i < 2 ^ bit_length i" using bit_length_bounds by blast
  moreover have "(2::nat) ^ bit_length i \<le> 2 ^ n" using h by (intro power_increasing) auto
  ultimately show "node n i" unfolding node_def by linarith
qed (rule node_depth)

lemma node_above: "node n j \<Longrightarrow> 0 < i \<Longrightarrow> below i j \<Longrightarrow> node n i"
  using below_depth [of i j] by (auto simp: node_iff_depth Suc_le_eq)

lemma height_pos: "node n i \<Longrightarrow> 0 < height n i"
  using node_depth [of n i] by (simp add: height_def)

lemma height_half: "node n i \<Longrightarrow> i \<noteq> 1 \<Longrightarrow> height n (i div 2) = Suc (height n i)"
proof -
  assume a: "node n i" "i \<noteq> 1"
  then have "0 < i div 2" by (auto simp: node_def)
  then have "0 < bit_length (i div 2)" by simp
  then show ?thesis using node_depth [OF a(1)] by (simp add: height_def bit_length_half)
qed

lemma node_half: "node n i \<Longrightarrow> i \<noteq> 1 \<Longrightarrow> node n (i div 2)"
  by (auto simp: node_def)

lemma target_parent_le: "l \<le> h \<Longrightarrow> r \<le> h \<Longrightarrow> target_parent l r \<le> Suc h"
  by (simp add: target_parent_def)

lemma target_parent_0 [simp]: "target_parent l r = 0 \<longleftrightarrow> l = 0 \<and> r = 0"
  by (auto simp: target_parent_def)

lemma target_parent_commute: "target_parent l r = target_parent r l"
  by (auto simp: target_parent_def)

lemma target_parent_le_Suc: "target_parent l r \<le> Suc s \<longleftrightarrow> l \<le> s \<or> r \<le> s"
  by (auto simp: target_parent_def)

lemma astat_le: "astat A h i \<le> h"
  by (induction A h i rule: astat.induct) (auto intro: target_parent_le)

lemma astat_full: "i \<in> A \<Longrightarrow> astat A h i = h"
  by (cases h) auto

lemma astat_cong:
  "(\<And>j. below i j \<Longrightarrow> j \<in> A \<longleftrightarrow> j \<in> B) \<Longrightarrow> astat A h i = astat B h i"
proof (induction A h i rule: astat.induct)
  case (2 A h i)
  have c: "astat A h (2 * i) = astat B h (2 * i)" "astat A h (2 * i + 1) = astat B h (2 * i + 1)"
    if "i \<notin> A" using 2(1,2) [OF that] 2(3) below_child [of i] by blast+
  have "i \<in> A \<longleftrightarrow> i \<in> B" using 2(3) [of i] by simp
  then show ?case using c by (cases "i \<in> A") simp_all
qed simp

lemma astat_eq_0:
  "0 < i \<Longrightarrow> astat A h i = 0 \<longleftrightarrow> (\<forall>j. below i j \<and> bit_length j < bit_length i + h \<longrightarrow> j \<notin> A)"
proof (induction A h i rule: astat.induct)
  case (1 A i)
  then show ?case using below_depth [of i] by fastforce
next
  case (2 A h i)
  have IH: "astat A h (2 * i) = 0 \<longleftrightarrow>
        (\<forall>j. below (2 * i) j \<and> bit_length j < bit_length i + Suc h \<longrightarrow> j \<notin> A)"
      "astat A h (2 * i + 1) = 0 \<longleftrightarrow>
        (\<forall>j. below (2 * i + 1) j \<and> bit_length j < bit_length i + Suc h \<longrightarrow> j \<notin> A)"
    if "i \<notin> A" using 2(1,2) [OF that] 2(3) by (simp_all add: bit_length_double)
  show ?case
  proof (cases "i \<in> A")
    case True
    then show ?thesis using below_refl [of i] by (auto intro!: exI [of _ i])
  next
    case False
    then show ?thesis
      using IH below_down [OF 2(3)] below_child [of i] by (auto simp del: One_nat_def) blast+
  qed
qed

text \<open>With every allocated node inside the tree, status zero means that the subtree is free.\<close>

lemma astat_free:
  assumes "alloc_wf n A" "node n i" "\<And>a. a \<in> A \<Longrightarrow> below a i \<Longrightarrow> a = i"
  shows "astat A (height n i) i = 0 \<longleftrightarrow> free_node A i"
proof -
  have i: "0 < i" using assms(2) by (simp add: node_def)
  have b: "bit_length j < bit_length i + height n i" if "j \<in> A" for j
    using that assms(1) node_depth [of n j] node_depth [OF assms(2)]
    by (auto simp: alloc_wf_def height_def)
  show ?thesis
    unfolding astat_eq_0 [OF i] free_node_def using b assms(3) by (metis below_refl)
qed

text \<open>Two allocations that agree outside the subtree of \<open>p\<close> and on the status of \<open>p\<close>.\<close>

lemma astat_above_cong:
  assumes "\<And>j. \<not> below p j \<Longrightarrow> j \<in> A \<longleftrightarrow> j \<in> B"
    and "astat A (height n p) p = astat B (height n p) p" "node n p"
  shows "0 < i \<Longrightarrow> below i p \<Longrightarrow> height n i = h \<Longrightarrow> astat A h i = astat B h i"
proof (induction h arbitrary: i)
  case 0
  then show ?case by simp
next
  case (Suc h)
  have p: "0 < p" using assms(3) by (simp add: node_def)
  show ?case
  proof (cases "i = p")
    case True
    then show ?thesis using assms(2) Suc.prems(3) by simp
  next
    case False
    then have "\<not> below p i" using below_antisym [OF Suc.prems(1) p Suc.prems(2)] by blast
    then have mem: "i \<in> A \<longleftrightarrow> i \<in> B" by (rule assms(1))
    have hc: "height n (2 * i) = h" "height n (2 * i + 1) = h"
      using Suc.prems(1,3) by (simp_all add: height_def bit_length_double)
    have away: "astat A h c = astat B h c" if "0 < c" "\<not> below c p" "\<not> below p c" for c
    proof (rule astat_cong)
      fix j assume "below c j"
      then show "j \<in> A \<longleftrightarrow> j \<in> B" using assms(1) below_linear [OF that(1) p] that(2,3) by blast
    qed
    have pc: "\<not> below p c" if "below i c" "bit_length c = Suc (bit_length i)" "\<not> below c p" "0 < c" for c
    proof
      assume "below p c"
      then consider "p = c" | "below p (c div 2)" using below_cases by blast
      then show False
      proof cases
        case 1
        then show ?thesis using that(3) by simp
      next
        case 2
        moreover have "c div 2 = i"
          using that Suc.prems(1) by (auto simp: below_eq)
        ultimately show ?thesis using \<open>\<not> below p i\<close> by simp
      qed
    qed
    have l: "below i (2 * i)" "below i (2 * i + 1)" "bit_length (2 * i) = Suc (bit_length i)"
        "bit_length (2 * i + 1) = Suc (bit_length i)"
      using below_child [of i] Suc.prems(1) by (simp_all add: bit_length_double)
    have child: "astat A h c = astat B h c" if "c = 2 * i \<or> c = 2 * i + 1" for c
    proof (cases "below c p")
      case True
      then show ?thesis using that Suc.IH [of c] Suc.prems(1) hc by auto
    next
      case F: False
      then show ?thesis using that away [of c] pc [of c] l Suc.prems(1) by auto
    qed
    show ?thesis using mem child by simp
  qed
qed

subsection \<open>Stores of statuses\<close>

definition sibling :: "nat \<Rightarrow> nat" where
  "sibling i = (if even i then i + 1 else i - 1)"

text \<open>The propagation of the code over an arbitrary store.\<close>

function chain :: "('s \<Rightarrow> nat \<Rightarrow> nat) \<Rightarrow> ('s \<Rightarrow> nat \<Rightarrow> nat \<Rightarrow> 's) \<Rightarrow> 's \<Rightarrow> nat \<Rightarrow> nat \<Rightarrow> 's" where
  "chain rd wr s i cur =
     (if i \<le> 1 then s
      else let target = target_parent cur (rd s (sibling i))
           in if target = rd s (i div 2) then s
              else chain rd wr (wr s (i div 2) target) (i div 2) target)"
  by pat_completeness auto
termination
  by (relation "measure (\<lambda>(rd, wr, s, i, cur). i)") auto

declare chain.simps [simp del]

definition represents :: "nat \<Rightarrow> ('s \<Rightarrow> nat \<Rightarrow> nat) \<Rightarrow> 's \<Rightarrow> nat set \<Rightarrow> bool" where
  "represents n rd s A \<longleftrightarrow> alloc_wf n A \<and> (\<forall>i. node n i \<longrightarrow> rd s i = astat A (height n i) i)"

lemma sibling_facts:
  assumes "node n i" "i \<noteq> 1"
  shows "node n (sibling i)" "height n (sibling i) = height n i" "sibling i \<noteq> i"
    "sibling i div 2 = i div 2" "\<not> below (sibling i) i" "\<not> below i (sibling i)"
    "target_parent (f i) (f (sibling i)) = target_parent (f (2 * (i div 2))) (f (2 * (i div 2) + 1))"
proof -
  have i: "2 \<le> i" "i < 2 ^ n" using assms by (auto simp: node_def)
  show half: "sibling i div 2 = i div 2" and ne: "sibling i \<noteq> i"
    using i by (auto simp: sibling_def elim: oddE)
  have s0: "0 < sibling i" "0 < sibling i div 2" using i half by (auto simp: sibling_def)
  have len: "bit_length (sibling i) = bit_length i"
    using bit_length_pos [OF s0(1)] bit_length_pos [of i] half i by simp
  show "node n (sibling i)" using assms(1) len by (simp add: node_iff_depth)
  show "height n (sibling i) = height n i" by (simp add: height_def len)
  show "\<not> below (sibling i) i" using below_eq [OF s0(1), of i] len ne by auto
  show "\<not> below i (sibling i)" using below_eq [of i "sibling i"] len ne i by auto
  show "target_parent (f i) (f (sibling i)) = target_parent (f (2 * (i div 2))) (f (2 * (i div 2) + 1))"
    using i by (auto simp: sibling_def target_parent_commute elim: oddE)
qed

locale status_store =
  fixes n :: nat
    and inv :: "'s \<Rightarrow> bool"
    and rd :: "'s \<Rightarrow> nat \<Rightarrow> nat"
    and wr :: "'s \<Rightarrow> nat \<Rightarrow> nat \<Rightarrow> 's"
  assumes rd_wr: "inv s \<Longrightarrow> node n i \<Longrightarrow> node n j \<Longrightarrow> v \<le> height n i \<Longrightarrow>
      rd (wr s i v) j = (if j = i then v else rd s j)"
    and inv_wr: "inv s \<Longrightarrow> node n i \<Longrightarrow> v \<le> height n i \<Longrightarrow> inv (wr s i v)"
begin

lemma chain_correct:
  assumes "inv s" "node n i" "cur = astat B (height n i) i"
    and "\<And>j. node n j \<Longrightarrow> \<not> below j i \<or> j = i \<Longrightarrow> rd s j = astat B (height n j) j"
    and "\<And>j. node n j \<Longrightarrow> below j i \<Longrightarrow> j \<noteq> i \<Longrightarrow> rd s j = astat A (height n j) j \<and> j \<notin> B"
    and "\<And>j. \<not> below i j \<Longrightarrow> j \<in> A \<longleftrightarrow> j \<in> B"
  shows "inv (chain rd wr s i cur) \<and>
    (\<forall>j. node n j \<longrightarrow> rd (chain rd wr s i cur) j = astat B (height n j) j)"
  using assms
proof (induction i arbitrary: s cur rule: less_induct)
  case (less i)
  show ?case
  proof (cases "i = 1")
    case True
    have "j = 1" if "node n j" "below j i" for j
    proof -
      obtain k where "1 div 2 ^ k = j" using \<open>below j i\<close> True by (auto simp: below_def)
      then have "j \<le> 1" using div_le_dividend [of 1 "2 ^ k"] by simp
      then show "j = 1" using \<open>node n j\<close> by (simp add: node_def)
    qed
    then show ?thesis using less.prems True by (subst chain.simps) (auto simp: chain.simps)
  next
    case False
    let ?p = "i div 2"
    have i: "2 \<le> i" using less.prems(2) False by (auto simp: node_def)
    note p = node_half [OF less.prems(2) False]
    have hp: "height n ?p = Suc (height n i)" by (rule height_half [OF less.prems(2) False])
    note sib = sibling_facts [OF less.prems(2) False]
    have pi: "below ?p i" "?p \<noteq> i" using below_half i by auto
    have notB: "?p \<notin> B" using less.prems(5) [OF p pi] by blast
    have sibB: "rd s (sibling i) = astat B (height n i) (sibling i)"
      using less.prems(4) [of "sibling i"] sib by simp
    define target where "target = target_parent cur (rd s (sibling i))"
    have target: "target = astat B (height n ?p) ?p"
      using notB sib(7) [of "astat B (height n i)"] less.prems(3) sibB
      by (simp add: target_def hp)
    have up: "below j i \<and> j \<noteq> i \<longleftrightarrow> below j ?p" if "node n j" for j
      using below_cases [of j i] below_antisym [of ?p i] that pi p less.prems(2)
      by (auto simp: node_def)
    have agree: "\<And>j. \<not> below ?p j \<Longrightarrow> j \<in> A \<longleftrightarrow> j \<in> B"
      using less.prems(6) below_trans [OF pi(1)] by blast
    show ?thesis
    proof (cases "target = rd s ?p")
      case True
      have stop: "chain rd wr s i cur = s"
        using i True by (subst chain.simps) (simp add: target_def [symmetric] Let_def)
      have eqp: "astat A (height n ?p) ?p = astat B (height n ?p) ?p"
        using less.prems(5) [OF p pi] True target by simp
      have "rd s j = astat B (height n j) j" if "node n j" for j
      proof (cases "below j i \<and> j \<noteq> i")
        case True
        then have "below j ?p" using up that by blast
        then have "astat A (height n j) j = astat B (height n j) j"
          using that by (intro astat_above_cong [OF agree eqp p]) (auto simp: node_def)
        then show ?thesis using less.prems(5) [OF that] True by simp
      next
        case False
        then show ?thesis using less.prems(4) [OF that] by blast
      qed
      then show ?thesis using less.prems(1) stop by simp
    next
      case F: False
      let ?s = "wr s ?p target"
      have le: "target \<le> height n ?p" unfolding target by (rule astat_le)
      have go: "chain rd wr s i cur = chain rd wr ?s ?p target"
        using i F by (subst chain.simps) (simp add: target_def [symmetric] Let_def)
      have rd': "rd ?s j = (if j = ?p then target else rd s j)" if "node n j" for j
        by (rule rd_wr [OF less.prems(1) p that le])
      show ?thesis unfolding go
      proof (rule less.IH)
        show "?p < i" using i by simp
        show "inv ?s" by (rule inv_wr [OF less.prems(1) p le])
        show "node n ?p" by (rule p)
        show "target = astat B (height n ?p) ?p" by (rule target)
        show "rd ?s j = astat B (height n j) j" if "node n j" "\<not> below j ?p \<or> j = ?p" for j
          using rd' [OF that(1)] that target less.prems(4) [OF that(1)] up [OF that(1)] by auto
        show "rd ?s j = astat A (height n j) j \<and> j \<notin> B"
          if "node n j" "below j ?p" "j \<noteq> ?p" for j
          using rd' [OF that(1)] that less.prems(5) [OF that(1)] up [OF that(1)] by auto
        show "j \<in> A \<longleftrightarrow> j \<in> B" if "\<not> below ?p j" for j by (rule agree [OF that])
      qed
    qed
  qed
qed

lemma mark_represents:
  assumes "inv s" "represents n rd s A" "node n i" "free_node A i"
  shows "inv (chain rd wr (wr s i (height n i)) i (height n i)) \<and>
    represents n rd (chain rd wr (wr s i (height n i)) i (height n i)) (insert i A)"
proof -
  let ?s = "wr s i (height n i)" and ?B = "insert i A"
  have st: "rd s j = astat A (height n j) j" if "node n j" for j
    using assms(2) that by (simp add: represents_def)
  have rd': "rd ?s j = (if j = i then height n i else rd s j)" if "node n j" for j
    by (rule rd_wr [OF assms(1,3) that]) simp
  have wf: "alloc_wf n ?B"
    using assms(2,3,4) unfolding represents_def alloc_wf_def free_node_def by blast
  have "inv (chain rd wr ?s i (height n i)) \<and>
    (\<forall>j. node n j \<longrightarrow> rd (chain rd wr ?s i (height n i)) j = astat ?B (height n j) j)"
  proof (rule chain_correct [where A = A])
    show "inv ?s" by (rule inv_wr [OF assms(1,3)]) simp
    show "node n i" by fact
    show "height n i = astat ?B (height n i) i" by (simp add: astat_full)
    show "rd ?s j = astat ?B (height n j) j" if "node n j" "\<not> below j i \<or> j = i" for j
    proof (cases "j = i")
      case True
      then show ?thesis using rd' [OF that(1)] by (simp add: astat_full)
    next
      case False
      then have "astat A (height n j) j = astat ?B (height n j) j"
        using that(2) by (intro astat_cong) auto
      then show ?thesis using rd' [OF that(1)] st [OF that(1)] False by simp
    qed
    show "rd ?s j = astat A (height n j) j \<and> j \<notin> ?B" if "node n j" "below j i" "j \<noteq> i" for j
      using rd' [OF that(1)] st [OF that(1)] that assms(4) by (auto simp: free_node_def)
    show "j \<in> A \<longleftrightarrow> j \<in> ?B" if "\<not> below i j" for j using that by auto
  qed
  then show ?thesis using wf by (simp add: represents_def)
qed

lemma release_represents:
  assumes "inv s" "represents n rd s A" "i \<in> A"
  shows "inv (chain rd wr (wr s i 0) i 0) \<and>
    represents n rd (chain rd wr (wr s i 0) i 0) (A - {i})"
proof -
  let ?s = "wr s i 0" and ?B = "A - {i}"
  have st: "rd s j = astat A (height n j) j" if "node n j" for j
    using assms(2) that by (simp add: represents_def)
  have wfA: "alloc_wf n A" using assms(2) by (simp add: represents_def)
  then have i: "node n i" "0 < i" using assms(3) by (auto simp: alloc_wf_def node_def)
  have chainA: "j = i" if "j \<in> A" "below i j \<or> below j i" for j
    using wfA assms(3) that unfolding alloc_wf_def by blast
  have rd': "rd ?s j = (if j = i then 0 else rd s j)" if "node n j" for j
    by (rule rd_wr [OF assms(1) i(1) that]) simp
  have zero: "0 = astat ?B (height n i) i"
    using astat_eq_0 [OF i(2), of ?B "height n i"] chainA by auto
  have "inv (chain rd wr ?s i 0) \<and>
    (\<forall>j. node n j \<longrightarrow> rd (chain rd wr ?s i 0) j = astat ?B (height n j) j)"
  proof (rule chain_correct [where A = A])
    show "inv ?s" by (rule inv_wr [OF assms(1) i(1)]) simp
    show "node n i" by (rule i(1))
    show "0 = astat ?B (height n i) i" by (rule zero)
    show "rd ?s j = astat ?B (height n j) j" if "node n j" "\<not> below j i \<or> j = i" for j
    proof (cases "j = i")
      case True
      then show ?thesis using rd' [OF that(1)] zero by simp
    next
      case False
      then have "astat A (height n j) j = astat ?B (height n j) j"
        using that(2) by (intro astat_cong) auto
      then show ?thesis using rd' [OF that(1)] st [OF that(1)] False by simp
    qed
    show "rd ?s j = astat A (height n j) j \<and> j \<notin> ?B" if "node n j" "below j i" "j \<noteq> i" for j
      using rd' [OF that(1)] st [OF that(1)] that chainA [of j] by auto
    show "j \<in> A \<longleftrightarrow> j \<in> ?B" if "\<not> below i j" for j using that by auto
  qed
  moreover have "alloc_wf n ?B" using wfA by (auto simp: alloc_wf_def)
  ultimately show ?thesis by (simp add: represents_def)
qed

end

subsection \<open>The bitset encoding is a status store\<close>

definition pos_of :: "nat \<Rightarrow> buddy_tree_pos" where
  "pos_of i = \<lparr>pos_index = i, pos_depth = bit_length i\<rparr>"

definition tree_rd :: "buddy_tree \<Rightarrow> nat \<Rightarrow> nat" where
  "tree_rd t i = buddy_tree_status t (pos_of i)"

definition tree_wr :: "buddy_tree \<Rightarrow> nat \<Rightarrow> nat \<Rightarrow> buddy_tree" where
  "tree_wr t i v = t\<lparr>tree_bits := write_to_internal_position (tree_bits t)
      (buddy_tree_internal_position_tree t (pos_of i)) v\<rparr>"

lemma pos_of_sel [simp]: "pos_index (pos_of i) = i" "pos_depth (pos_of i) = bit_length i"
  by (simp_all add: pos_of_def)

lemma pos_of_wf: "pos_wf n (pos_of i) \<longleftrightarrow> node n i"
proof
  assume "node n i"
  then have "0 < i" "1 \<le> bit_length i" "bit_length i \<le> n" using node_depth by (auto simp: node_def)
  then show "pos_wf n (pos_of i)" using bit_length_bounds [of i] by (simp add: pos_wf_def)
qed (auto simp: pos_wf_def node_iff_depth)

lemma pos_of_index: "pos_wf n p \<Longrightarrow> pos_of (pos_index p) = p"
  by (simp add: pos_of_def pos_wf_depth)

lemma pos_wf_node: "pos_wf n p \<Longrightarrow> node n (pos_index p)"
  using pos_of_wf [of n "pos_index p"] pos_of_index [of n p] by simp

lemma node_height_pos_of: "node_height n (pos_of i) = height n i"
  by (simp add: node_height_def height_def)

lemma tree_cell:
  assumes "tree_ok n t" "node n i"
  shows "buddy_tree_internal_position_tree t (pos_of i)
    = \<lparr>local_offset = height n i, bitset_location = node_loc n (pos_of i)\<rparr>"
  using internal_position_tree [OF assms(1), of "pos_of i"] assms(2)
  by (simp add: pos_of_wf node_height_pos_of)

lemma tree_ok_bits [simp]: "tree_ok n (t\<lparr>tree_bits := b\<rparr>) \<longleftrightarrow> tree_ok n t"
  by (simp add: tree_ok_def)

lemma tree_rd_cell:
  "tree_ok n t \<Longrightarrow> node n i \<Longrightarrow> tree_rd t i = read_from_internal_position (tree_bits t)
     \<lparr>local_offset = height n i, bitset_location = node_loc n (pos_of i)\<rparr>"
  by (simp add: tree_rd_def buddy_tree_status_def tree_cell)

lemma cell_bounds:
  assumes "tree_ok n t" "node n i"
  shows "0 < height n i" "node_loc n (pos_of i) + height n i < 2 ^ 40"
    "node_loc n (pos_of i) + height n i < 2 ^ 64"
  using height_pos [OF assms(2)] node_loc_small [OF tree_okD(1) [OF assms(1)], of "pos_of i"] assms(2)
  by (simp_all add: pos_of_wf node_height_pos_of)

lemma cells_disjoint:
  assumes "node n i" "node n j" "i \<noteq> j"
  shows "node_loc n (pos_of i) + height n i \<le> node_loc n (pos_of j) \<or>
    node_loc n (pos_of j) + height n j \<le> node_loc n (pos_of i)"
proof -
  have "pos_of i \<noteq> pos_of j" using assms(3) by (simp add: pos_of_def)
  then show ?thesis using node_bits_disjoint [of n "pos_of i" "pos_of j"] assms(1,2)
    by (simp add: pos_of_wf node_height_pos_of)
qed

lemma tree_rd_wr:
  assumes "tree_ok n t" "node n i" "node n j" "v \<le> height n i"
  shows "tree_rd (tree_wr t i v) j = (if j = i then v else tree_rd t j)"
proof -
  have ok: "tree_ok n (tree_wr t i v)" using assms(1) by (simp add: tree_wr_def)
  note i = cell_bounds [OF assms(1,2)] and j = cell_bounds [OF assms(1,3)]
  show ?thesis
  proof (cases "j = i")
    case True
    then show ?thesis using tree_rd_cell [OF ok assms(2)] tree_cell [OF assms(1,2)]
        read_write_same [OF assms(4) i(1,3)] by (simp add: tree_wr_def)
  next
    case False
    then show ?thesis
      using tree_rd_cell [OF ok assms(3)] tree_rd_cell [OF assms(1,3)] tree_cell [OF assms(1,2)]
        read_write_other [OF assms(4) i(1,3) j(1,3)] cells_disjoint [OF assms(2,3)]
      by (auto simp: tree_wr_def)
  qed
qed

interpretation tree_store: status_store n "tree_ok n" tree_rd tree_wr for n
  by unfold_locales (rule tree_rd_wr, assumption+, simp add: tree_wr_def)

end
