(* ===== verification/TreeSearch.thy ===== *)
theory TreeSearch
  imports TreeRefine
begin

text \<open>
  Initialisation and search: a fresh tree represents the empty allocation, its memo table lies
  behind the status bits, and the search returns a free slot of the wanted depth exactly when
  there is one; with left bias it is the leftmost.
\<close>

subsection \<open>Initialisation\<close>

lemma div8_bounds: "8 * (c div 8) \<le> (c :: nat)" "c < 8 * (c div 8) + 8"
  using div_mult_mod_eq [of c 8] mod_less_divisor [of 8 c] by simp_all

definition bits_bytes :: "nat \<Rightarrow> nat" where
  "bits_bytes n = (row_start n n + 7) div 8"

definition padded_bytes :: "nat \<Rightarrow> nat" where
  "padded_bytes n = bits_bytes n + bits_bytes n mod 8"

lemma bits_bytes_bound: "order_ok n \<Longrightarrow> bits_bytes n < 2 ^ 34"
  using row_start_bound [of n n] by (simp add: order_ok_def bits_bytes_def)

lemma bit_in_bytes: "i < row_start n n \<Longrightarrow> i div 8 < bits_bytes n"
proof -
  define m where "m = row_start n n"
  assume "i < row_start n n"
  then show ?thesis
    using div8_bounds [of i] div8_bounds [of "m + 7"] unfolding bits_bytes_def m_def [symmetric] by linarith
qed

lemma bitset_sizeof_row:
  assumes "order_ok n"
  shows "bitset_sizeof (size_for_order n 0) = bits_bytes n"
proof -
  define m where "m = row_start n n"
  have m: "m \<le> 66571993088" "size_for_order n 0 = m"
    using assms row_start_bound [of n n] size_for_order_row [of 0 n] by (simp_all add: order_ok_def m_def)
  have "sub64 (add64 m 8) 1 = m + 7" using m(1) by (simp add: add64_small sub64_small)
  then show ?thesis by (simp add: bitset_sizeof_def m(2) bits_bytes_def m_def)
qed

lemma padded:
  assumes "order_ok n"
  shows "(let b = bitset_sizeof (size_for_order n 0)
      in if b mod 8 \<noteq> 0 then add64 b (b mod 8) else b) = padded_bytes n"
proof -
  define b where "b = bits_bytes n"
  have "b + b mod 8 < 2 ^ 64" using bits_bytes_bound [OF assms] by (simp add: b_def)
  then show ?thesis
    by (simp add: Let_def bitset_sizeof_row [OF assms] padded_bytes_def b_def [symmetric] add64_small)
qed

lemma tree_sizeof_eq:
  assumes "order_ok n"
  shows "buddy_tree_sizeof n = 24 + padded_bytes n + (n + 2) * 8"
proof -
  have n: "n \<le> 31" "n mod 256 = n" using assms by (auto simp: order_ok_def)
  define b where "b = padded_bytes n"
  have b: "b < 2 ^ 35" using bits_bytes_bound [OF assms] by (simp add: b_def padded_bytes_def)
  show ?thesis
    using padded [OF assms] n b
    by (simp add: buddy_tree_sizeof_def Let_def b_def [symmetric] add64_small mul64_small)
qed

lemma populate_offset:
  assumes "order_ok n" "tree_order t = n"
  shows "size_for_order_offset (buddy_tree_populate_size_for_order t) = padded_bytes n div 8 + 1"
proof -
  define b where "b = padded_bytes n"
  have b: "b < 2 ^ 35" using bits_bytes_bound [OF assms(1)] by (simp add: b_def padded_bytes_def)
  then have "b div 8 + 1 < 2 ^ 64" using div8_bounds(1) [of b] by simp
  then show ?thesis
    using padded [OF assms(1)] assms(2)
    by (simp add: buddy_tree_populate_size_for_order_def Let_def b_def [symmetric] add64_small)
qed

text \<open>In bytes from \<open>data\<close> on: the bits, then the memo table, then the end of the object.\<close>

lemma memo_behind_bits:
  assumes "order_ok n" "tree_order t = n"
    and "t' = buddy_tree_populate_size_for_order t"
  shows "bits_bytes n \<le> 8 * size_for_order_offset t'"
    and "24 + 8 * (size_for_order_offset t' + n + 1) \<le> buddy_tree_sizeof n"
proof -
  define b where "b = bits_bytes n"
  have o: "size_for_order_offset t' = (b + b mod 8) div 8 + 1"
    using populate_offset [OF assms(1,2)] assms(3) by (simp add: padded_bytes_def b_def)
  show "bits_bytes n \<le> 8 * size_for_order_offset t'"
    using div8_bounds [of "b + b mod 8"] unfolding o b_def [symmetric] by simp
  show "24 + 8 * (size_for_order_offset t' + n + 1) \<le> buddy_tree_sizeof n"
    unfolding tree_sizeof_eq [OF assms(1)] padded_bytes_def o b_def [symmetric]
    using div8_bounds(1) [of "b + b mod 8"] by simp
qed

lemma populate_ok:
  assumes "order_ok n" "tree_order t = n" "upper_pos_bound t = 2 ^ n"
  shows "tree_ok n (buddy_tree_populate_size_for_order t)"
  using assms by (simp add: tree_ok_def buddy_tree_populate_size_for_order_def Let_def)

lemma alloc_wf_empty [simp]: "alloc_wf n {}"
  by (simp add: alloc_wf_def)

lemma astat_empty [simp]: "astat {} h i = 0"
  by (induction "{} :: nat set" h i rule: astat.induct) simp_all

lemma init_rep:
  assumes "order_ok n"
  shows "tree_rep n (buddy_tree_init t0 n) {}"
proof -
  let ?t = "buddy_tree_init t0 n"
  have n: "n mod 256 = n" "shl32 n = 2 ^ n" using assms by (auto simp: order_ok_def shl32_small)
  have ok: "tree_ok n ?t"
    unfolding buddy_tree_init_def Let_def using assms n by (intro populate_ok) simp_all
  have size: "sub64 (buddy_tree_sizeof n) 24 \<ge> bits_bytes n"
  proof -
    define b where "b = bits_bytes n"
    have b: "b < 2 ^ 34" "n \<le> 31" using bits_bytes_bound [OF assms] assms by (auto simp: b_def order_ok_def)
    have "sub64 (24 + (b + b mod 8) + (n + 2) * 8) 24 = b + b mod 8 + (n + 2) * 8"
      using b by (simp add: sub64_small)
    then show ?thesis unfolding tree_sizeof_eq [OF assms] padded_bytes_def b_def [symmetric] by simp
  qed
  have zero: "\<not> bget (tree_bits ?t) k" if "k < row_start n n" for k
  proof -
    have "k div 8 < sub64 (buddy_tree_sizeof n) 24" using bit_in_bytes [OF that] size by simp
    then show ?thesis
      by (simp add: buddy_tree_init_def buddy_tree_populate_size_for_order_def Let_def bget_def)
  qed
  have "tree_rd ?t i = 0" if i: "node n i" for i
  proof -
    have "node_loc n (pos_of i) + height n i \<le> row_start n n"
      using node_bits_bound [of n "pos_of i"] i by (simp add: pos_of_wf node_height_pos_of)
    then have "node_loc n (pos_of i) < row_start n n" using cell_bounds(1) [OF ok i] by simp
    then show ?thesis using tree_rd_cell [OF ok i] cell_bounds [OF ok i] zero
      by (simp add: read_cell)
  qed
  then show ?thesis using ok by (simp add: tree_rep_def represents_def)
qed

subsection \<open>Search\<close>

text \<open>A status of at most \<open>s\<close> means that a free node lies \<open>s\<close> levels further down.\<close>

definition free_at :: "nat set \<Rightarrow> nat \<Rightarrow> nat \<Rightarrow> nat \<Rightarrow> bool" where
  "free_at A i d j \<longleftrightarrow> below i j \<and> bit_length j = d \<and> free_node A j"

lemma free_at_children:
  assumes "0 < i" "bit_length i < d"
  shows "free_at A i d j \<longleftrightarrow> free_at A (2 * i) d j \<or> free_at A (2 * i + 1) d j"
  using below_down [OF assms(1), of j] below_child [of i j] assms(2) unfolding free_at_def by auto

lemma astat_exists_free:
  assumes "\<And>a. a \<in> A \<Longrightarrow> below a i \<Longrightarrow> a = i" "0 < i" "s < h"
    and "\<And>a. a \<in> A \<Longrightarrow> bit_length a < bit_length i + h"
  shows "astat A h i \<le> s \<longleftrightarrow> (\<exists>j. free_at A i (bit_length i + s) j)"
  using assms
proof (induction s arbitrary: h i)
  case 0
  obtain h' where h: "h = Suc h'" using 0(3) by (cases h) auto
  have "astat A h i = 0 \<longleftrightarrow> free_node A i"
    unfolding astat_eq_0 [OF 0(2)] free_node_def using 0(1,4) by (metis below_refl)
  moreover have "free_at A i (bit_length i) j \<longleftrightarrow> j = i \<and> free_node A i" for j
    using below_unique [of i j j] below_eq [OF 0(2), of j] unfolding free_at_def by auto
  ultimately show ?case by simp
next
  case (Suc s)
  obtain h' where h: "h = Suc h'" "s < h'" using Suc.prems(3) by (cases h) auto
  show ?case
  proof (cases "i \<in> A")
    case True
    then have "astat A h i = h" by (rule astat_full)
    moreover have "\<not> free_at A i (bit_length i + Suc s) j" for j
      using True by (auto simp: free_at_def free_node_def)
    ultimately show ?thesis using Suc.prems(3) by simp
  next
    case False
    have up: "a = c" if "a \<in> A" "below a c" "c div 2 = i" for a c
      using below_cases [of a c] that Suc.prems(1) [of a] False by auto
    have IH: "astat A h' c \<le> s \<longleftrightarrow> (\<exists>j. free_at A c (bit_length i + Suc s) j)"
      if "c div 2 = i" for c
    proof -
      have "bit_length c = Suc (bit_length i)" using that Suc.prems(2) by (subst bit_length_pos) auto
      then show ?thesis using Suc.IH [of c h'] up that Suc.prems(2,4) h by force
    qed
    have "astat A h i \<le> Suc s \<longleftrightarrow> astat A h' (2 * i) \<le> s \<or> astat A h' (2 * i + 1) \<le> s"
      using False by (simp add: h target_parent_le_Suc)
    also have "\<dots> \<longleftrightarrow> (\<exists>j. free_at A i (bit_length i + Suc s) j)"
      using IH [of "2 * i"] IH [of "2 * i + 1"] free_at_children [OF Suc.prems(2), of "bit_length i + Suc s" A]
      by auto
    finally show ?thesis .
  qed
qed

text \<open>Both children of a node, as the loop reads them.\<close>

lemma bit_length_child:
  "0 < i \<Longrightarrow> bit_length (2 * i) = Suc (bit_length i)"
  "0 < i \<Longrightarrow> bit_length (2 * i + 1) = Suc (bit_length i)"
  by (simp_all add: bit_length_double)

lemma node_loc_right:
  assumes "0 < i"
  shows "node_loc n (pos_of (2 * i + 1)) = node_loc n (pos_of (2 * i)) + height n (2 * i)"
proof -
  let ?b = "2 ^ bit_length i"
  have "?b \<le> 2 * i" using bit_length_bounds [OF assms] bit_length_child(1) [OF assms]
    bit_length_bounds [of "2 * i"] assms by simp
  then have "2 * i + 1 - ?b = Suc (2 * i - ?b)" by simp
  moreover have "node_height n (pos_of (2 * i + 1)) = height n (2 * i)"
      "node_height n (pos_of (2 * i)) = height n (2 * i)"
    using bit_length_child [OF assms] by (simp_all add: node_height_pos_of height_def)
  ultimately show ?thesis using bit_length_child [OF assms] by (simp add: node_loc_def)
qed

lemma sibling_of_left: "0 < i \<Longrightarrow> buddy_tree_sibling (pos_of (2 * i)) = pos_of (2 * i + 1)"
  by (simp add: buddy_tree_sibling_def pos_of_def bit_length_double xor_Suc_0_eq)

lemma find_free_step:
  assumes "tree_ok n t" "node n i" "bit_length i < n" "bit_length i \<noteq> d"
    and "0 < s" "s < 256"
  shows "find_free_loop t d lb (pos_of i) s (bit_length i) cur =
    (if cur > s then Some INVALID_POS
     else if tree_rd t (2 * i) > s - 1
     then find_free_loop t d lb (pos_of (2 * i + 1)) (s - 1) (bit_length (2 * i + 1)) (tree_rd t (2 * i + 1))
     else if tree_rd t (2 * i + 1) > s - 1 \<or> lb \<or> tree_rd t (2 * i) \<ge> tree_rd t (2 * i + 1)
     then find_free_loop t d lb (pos_of (2 * i)) (s - 1) (bit_length (2 * i)) (tree_rd t (2 * i))
     else find_free_loop t d lb (pos_of (2 * i + 1)) (s - 1) (bit_length (2 * i + 1)) (tree_rd t (2 * i + 1)))"
proof -
  note ok = tree_okD(1) [OF assms(1)]
  note ch = child_pos_of [OF ok assms(2,3)]
  have i: "0 < i" using assms(2) by (simp add: node_def)
  have s: "(s + 255) mod 256 = s - 1" using assms(5,6) by (cases s) auto
  have d: "add64 (bit_length i) 1 = bit_length (2 * i)" "add64 (bit_length i) 1 = bit_length (2 * i + 1)"
    using assms(3) ok bit_length_child [OF i] by (simp_all add: add64_small order_ok_def)
  have hr: "height n (2 * i + 1) = height n (2 * i)" using d by (simp add: height_def)
  have right: "add64 (node_loc n (pos_of (2 * i))) (height n (2 * i)) = node_loc n (pos_of (2 * i + 1))"
    using cell_bounds(3) [OF assms(1) ch(3)] node_loc_right [OF i, of n] by (simp add: add64_small)
  have rd: "read_from_internal_position (tree_bits t)
      \<lparr>local_offset = height n (2 * i), bitset_location = node_loc n (pos_of (2 * i + 1))\<rparr>
      = tree_rd t (2 * i + 1)"
    using tree_rd_cell [OF assms(1) ch(4)] unfolding hr by simp
  have lft: "read_from_internal_position (tree_bits t)
      \<lparr>local_offset = height n (2 * i), bitset_location = node_loc n (pos_of (2 * i))\<rparr>
      = tree_rd t (2 * i)"
    using tree_rd_cell [OF assms(1) ch(3)] by simp
  show ?thesis
    using assms(4) d
    by (subst find_free_loop.simps)
      (simp only: Let_def ch(1) sibling_of_left [OF i] s tree_cell [OF assms(1) ch(3)]
        internal_position.simps right rd lft if_False, simp)
qed

lemma left_before_right:
  assumes "0 < i" "free_at A (2 * i) d j" "free_at B (2 * i + 1) d j'"
  shows "j < j'"
proof -
  let ?k = "2 ^ (d - Suc (bit_length i))"
  have "j div ?k = 2 * i" "j' div ?k = 2 * i + 1"
    using assms by (auto simp: free_at_def below_eq bit_length_double)
  then have "j div ?k < j' div ?k" by simp
  then show ?thesis by (rule contrapos_pp) (simp add: not_less div_le_mono)
qed

definition search_result :: "nat set \<Rightarrow> nat \<Rightarrow> nat \<Rightarrow> bool \<Rightarrow> bool \<Rightarrow> buddy_tree_pos \<Rightarrow> bool" where
  "search_result A i d lb found r \<longleftrightarrow>
     (if found
      then \<exists>j. r = pos_of j \<and> free_at A i d j \<and> (lb \<longrightarrow> (\<forall>j'. free_at A i d j' \<longrightarrow> j \<le> j'))
      else r = INVALID_POS)"

lemma find_free_loop_correct:
  assumes "tree_rep n t A" "node n i" "bit_length i + s = d" "d \<le> n"
    and "\<And>a. a \<in> A \<Longrightarrow> below a i \<Longrightarrow> a = i"
  shows "\<exists>r. find_free_loop t d lb (pos_of i) s (bit_length i) (tree_rd t i) = Some r \<and>
    search_result A i d lb (tree_rd t i \<le> s) r"
  using assms(2,3,5)
proof (induction s arbitrary: i)
  case 0
  have "free_at A i d j \<longleftrightarrow> j = i" if "tree_rd t i = 0" for j
  proof -
    have "free_node A i" using astat_free [OF tree_repD(4) [OF assms(1)] 0(1) 0(3)] that
      tree_repD(5) [OF assms(1) 0(1)] by simp
    then show ?thesis using 0(1,2) below_eq [of i j] by (auto simp: free_at_def node_def)
  qed
  then show ?case using 0 by (subst find_free_loop.simps) (auto simp: search_result_def)
next
  case (Suc s)
  note ok = tree_repD(1) [OF assms(1)]
  have i: "0 < i" "bit_length i < n" using Suc.prems(1,2) assms(4) by (auto simp: node_def)
  note ch = child_pos_of [OF tree_repD(2) [OF assms(1)] Suc.prems(1) i(2)]
  have s: "Suc s < 256" using Suc.prems(2) assms(4) tree_repD(2) [OF assms(1)] by (simp add: order_ok_def)
  note step = find_free_step [OF ok Suc.prems(1) i(2), of d "Suc s" lb "tree_rd t i"]
  show ?case
  proof (cases "tree_rd t i \<le> Suc s")
    case False
    then show ?thesis using step s Suc.prems(2) by (simp add: search_result_def)
  next
    case True
    have st: "tree_rd t i = astat A (Suc (height n (2 * i))) i"
    proof -
      have "height n i = Suc (height n (2 * i))"
        using i bit_length_child [OF i(1)] by (simp add: height_def Suc_diff_le)
      then show ?thesis using tree_repD(5) [OF assms(1) Suc.prems(1)] by simp
    qed
    have hc: "height n (2 * i + 1) = height n (2 * i)" "Suc s < Suc (height n (2 * i))"
      using bit_length_child [OF i(1)] i Suc.prems(2) assms(4) by (auto simp: height_def)
    have notA: "i \<notin> A" using True hc(2) unfolding st by auto
    have some: "tree_rd t (2 * i) \<le> s \<or> tree_rd t (2 * i + 1) \<le> s"
      using True notA tree_repD(5) [OF assms(1) ch(3)] tree_repD(5) [OF assms(1) ch(4)] hc(1)
      by (simp add: st target_parent_le_Suc)
    have up: "a = c" if "a \<in> A" "below a c" "c div 2 = i" for a c
      using below_cases [of a c] that Suc.prems(3) [of a] notA by auto
    note IHl = Suc.IH [OF ch(3)] and IHr = Suc.IH [OF ch(4)]
    have l: "\<exists>r. find_free_loop t d lb (pos_of (2 * i)) s (bit_length (2 * i)) (tree_rd t (2 * i)) = Some r
        \<and> search_result A (2 * i) d lb (tree_rd t (2 * i) \<le> s) r"
      using IHl up [of _ "2 * i"] Suc.prems(2) bit_length_child [OF i(1)] by simp
    have r: "\<exists>r. find_free_loop t d lb (pos_of (2 * i + 1)) s (bit_length (2 * i + 1)) (tree_rd t (2 * i + 1)) = Some r
        \<and> search_result A (2 * i + 1) d lb (tree_rd t (2 * i + 1) \<le> s) r"
      using IHr up [of _ "2 * i + 1"] Suc.prems(2) bit_length_child [OF i(1)] by simp
    have split: "free_at A i d j \<longleftrightarrow> free_at A (2 * i) d j \<or> free_at A (2 * i + 1) d j" for j
      using Suc.prems(2) by (intro free_at_children [OF i(1)]) simp
    have ex: "tree_rd t c \<le> s \<longleftrightarrow> (\<exists>j. free_at A c d j)" if "c = 2 * i \<or> c = 2 * i + 1" for c
    proof -
      have c: "node n c" "bit_length c = Suc (bit_length i)" "c div 2 = i" "0 < c"
        using that ch bit_length_child [OF i(1)] i(1) by auto
      have "bit_length a < bit_length c + height n c" if "a \<in> A" for a
        using that tree_repD(4) [OF assms(1)] node_depth [of n a] node_depth [OF c(1)]
        by (auto simp: alloc_wf_def height_def)
      then have "astat A (height n c) c \<le> s \<longleftrightarrow> (\<exists>j. free_at A c (bit_length c + s) j)"
        using up c hc \<open>c = 2 * i \<or> c = 2 * i + 1\<close> by (intro astat_exists_free) auto
      then show ?thesis using tree_repD(5) [OF assms(1) c(1)] c(2) Suc.prems(2) by simp
    qed
    have weaken_l: "search_result A (2 * i) d lb True r \<Longrightarrow> search_result A i d lb True r" for r
      unfolding search_result_def using split left_before_right [OF i(1)] by fastforce
    have weaken_r: "search_result A (2 * i + 1) d lb True r \<Longrightarrow>
        lb \<longrightarrow> \<not> tree_rd t (2 * i) \<le> s \<Longrightarrow> search_result A i d lb True r" for r
      unfolding search_result_def using split ex [of "2 * i"] by auto
    let ?go = "\<lambda>c. find_free_loop t d lb (pos_of c) s (bit_length c) (tree_rd t c)"
    consider "tree_rd t (2 * i) \<le> s" "find_free_loop t d lb (pos_of i) (Suc s) (bit_length i) (tree_rd t i) = ?go (2 * i)"
      | "tree_rd t (2 * i + 1) \<le> s" "lb \<longrightarrow> \<not> tree_rd t (2 * i) \<le> s"
        "find_free_loop t d lb (pos_of i) (Suc s) (bit_length i) (tree_rd t i) = ?go (2 * i + 1)"
      using step s True Suc.prems(2) some by (simp split: if_splits)
    then show ?thesis
    proof cases
      case 1
      then show ?thesis using l weaken_l True by auto
    next
      case 2
      then show ?thesis using r weaken_r True by auto
    qed
  qed
qed

lemma below_root: "0 < j \<Longrightarrow> below 1 j"
proof (induction j rule: less_induct)
  case (less j)
  show ?case
  proof (cases "j = 1")
    case False
    then have "0 < j div 2" "j div 2 < j" using less.prems by auto
    then show ?thesis using less.IH [of "j div 2"] below_half by blast
  qed simp
qed

text \<open>The slots of depth \<open>d\<close> that can be handed out.\<close>

definition free_slot :: "nat \<Rightarrow> nat set \<Rightarrow> nat \<Rightarrow> nat \<Rightarrow> bool" where
  "free_slot n A d j \<longleftrightarrow> node n j \<and> bit_length j = d \<and> free_node A j"

lemma free_slot_root: "1 \<le> d \<Longrightarrow> d \<le> n \<Longrightarrow> free_at A 1 d j \<longleftrightarrow> free_slot n A d j"
  unfolding free_at_def free_slot_def
  using below_root [of j] by (cases "j = 0") (auto simp: node_iff_depth)

lemma find_free_rep:
  assumes "tree_rep n t A" "1 \<le> d" "d \<le> n"
  shows "\<exists>r. buddy_tree_find_free t d lb = Some r \<and>
    (if \<exists>j. free_slot n A d j
     then \<exists>j. r = pos_of j \<and> free_slot n A d j \<and>
       (lb mod 256 \<noteq> 0 \<longrightarrow> (\<forall>j'. free_slot n A d j' \<longrightarrow> j \<le> j'))
     else r = INVALID_POS)"
proof -
  note ok = tree_repD(2) [OF assms(1)]
  have n: "n \<le> 31" using ok by (simp add: order_ok_def)
  have one: "bit_length 1 = 1" "node n 1" "0 < (1::nat)"
    using assms by (simp_all add: bit_length_pos node_iff_depth)
  have d: "d mod 256 = d" "(d + 255) mod 256 = d - 1" using assms(2,3) n by (cases d; simp)+
  have alone: "a = 1" if "a \<in> A" "below a 1" for a
    using that tree_repD(4) [OF assms(1)] below_depth [of a 1] one(1) below_eq [of a 1] node_depth [of n a]
    by (auto simp: alloc_wf_def node_def)
  have start: "buddy_tree_find_free t d lb
      = find_free_loop t d (lb mod 256 \<noteq> 0) (pos_of 1) (d - 1) (bit_length 1) (tree_rd t 1)"
    using d by (simp add: buddy_tree_find_free_def Let_def root_pos_of tree_rd_def buddy_tree_depth_def)
  obtain r where r: "buddy_tree_find_free t d lb = Some r"
      "search_result A 1 d (lb mod 256 \<noteq> 0) (tree_rd t 1 \<le> d - 1) r"
    using find_free_loop_correct [OF assms(1) one(2), of "d - 1" d] start one(1) assms(2,3) alone by auto
  have "tree_rd t 1 \<le> d - 1 \<longleftrightarrow> (\<exists>j. free_at A 1 (bit_length 1 + (d - 1)) j)"
    unfolding tree_repD(5) [OF assms(1) one(2)]
    using alone tree_repD(4) [OF assms(1)] node_depth [of n] one assms(2,3)
    by (intro astat_exists_free) (auto simp: height_def alloc_wf_def less_Suc_eq_le)
  then have found: "tree_rd t 1 \<le> d - 1 \<longleftrightarrow> (\<exists>j. free_slot n A d j)"
    using free_slot_root [OF assms(2,3)] one(1) assms(2) by simp
  then show ?thesis
    using r unfolding search_result_def found free_slot_root [OF assms(2,3)] by blast
qed

subsection \<open>Is a slot free?\<close>

lemma full_ancestor:
  assumes "alloc_wf n A" "node n c" "node n i" "c div 2 = i" "astat A (height n c) c = 0"
    and "astat A (height n i) i \<noteq> 0"
  shows "astat A (height n i) i = height n i \<longleftrightarrow> (\<exists>a\<in>A. below a i)"
proof
  assume full: "astat A (height n i) i = height n i"
  show "\<exists>a\<in>A. below a i"
  proof (cases "i \<in> A")
    case False
    have c1: "c \<noteq> 1" using assms(3,4) by (auto simp: node_def)
    have h: "height n i = Suc (height n c)" using height_half [OF assms(2) c1] assms(4) by simp
    have "c = 2 * i \<or> c = 2 * i + 1" using assms(4) by presburger
    then have "astat A (height n i) i \<le> Suc 0"
      using False assms(5) unfolding h by (auto simp: target_parent_def)
    then have "height n c = 0" using full h by simp
    then show ?thesis using height_pos [OF assms(2)] by simp
  next
    case True
    then show ?thesis using below_refl [of i] by blast
  qed
next
  have i: "0 < i" using assms(3) by (simp add: node_def)
  assume "\<exists>a\<in>A. below a i"
  then obtain a where a: "a \<in> A" "below a i" by blast
  obtain b where b: "b \<in> A" "below i b" using assms(6) astat_eq_0 [OF i, of A] by auto
  have "a = b" using a b assms(1) below_trans [OF a(2) b(2)] by (auto simp: alloc_wf_def)
  moreover have "0 < a" using a(1) assms(1) by (auto simp: alloc_wf_def node_def)
  ultimately have "a = i" using below_antisym [of a i] i a b by simp
  then show "astat A (height n i) i = height n i" using a(1) by (simp add: astat_full)
qed

lemma above_root_only: "alloc_wf n A \<Longrightarrow> a \<in> A \<Longrightarrow> below a 1 \<Longrightarrow> a = 1"
  using below_depth [of a 1] below_eq [of a 1] node_depth [of n a]
  by (auto simp: alloc_wf_def node_def bit_length_pos)

lemma is_free_loop_top: "is_free_loop t (buddy_tree_parent (pos_of 1))"
  by (simp add: is_free_loop.simps buddy_tree_valid_def buddy_tree_parent_def)

lemma is_free_loop_rep:
  assumes "tree_rep n t A" "node n c" "node n i" "c div 2 = i" "astat A (height n c) c = 0"
  shows "is_free_loop t (pos_of i) \<longleftrightarrow> (\<forall>a\<in>A. \<not> below a i)"
  using assms(2-)
proof (induction i arbitrary: c rule: less_induct)
  case (less i)
  note ok = tree_repD(1) [OF assms(1)] and wf = tree_repD(4) [OF assms(1)]
  have v: "read_from_internal_position (tree_bits t)
      (buddy_tree_internal_position_tree t (pos_of i)) = astat A (height n i) i"
    using tree_repD(5) [OF assms(1) less.prems(2)] by (simp add: tree_rd_def buddy_tree_status_def)
  have step: "is_free_loop t (pos_of i) = (if astat A (height n i) i \<noteq> 0
      then astat A (height n i) i \<noteq> height n i else is_free_loop t (buddy_tree_parent (pos_of i)))"
    using valid_iff [OF ok, of "pos_of i"] less.prems(2) v
    by (subst is_free_loop.simps) (simp add: pos_of_wf Let_def tree_cell [OF ok less.prems(2)])
  have i: "0 < i" using less.prems(2) by (simp add: node_def)
  show ?case
  proof (cases "astat A (height n i) i = 0")
    case False
    then show ?thesis using step full_ancestor [OF wf less.prems(1,2,3,4)] by simp
  next
    case True
    then have notA: "i \<notin> A" using astat_full [of i A] height_pos [OF less.prems(2)] by auto
    show ?thesis
    proof (cases "i = 1")
      case True
      have "is_free_loop t (pos_of i)"
        using step is_free_loop_top [of t] \<open>astat A (height n i) i = 0\<close> True by simp
      then show ?thesis using above_root_only [OF wf] notA True by blast
    next
      case False
      have "is_free_loop t (pos_of i) \<longleftrightarrow> (\<forall>a\<in>A. \<not> below a (i div 2))"
        using less.IH [of "i div 2" i] step True node_half [OF less.prems(2) False] less.prems(2)
          parent_pos_of [OF tree_repD(2) [OF assms(1)] less.prems(2) False] i by simp
      then show ?thesis using notA below_cases [of _ i] by auto
    qed
  qed
qed

lemma is_free_rep:
  assumes "tree_rep n t A" "node n i"
  shows "buddy_tree_is_free t (pos_of i) \<longleftrightarrow> free_node A i"
proof -
  note ok = tree_repD(1) [OF assms(1)] and wf = tree_repD(4) [OF assms(1)]
  have i: "0 < i" using assms(2) by (simp add: node_def)
  have st: "buddy_tree_status t (pos_of i) = astat A (height n i) i"
    using tree_repD(5) [OF assms] by (simp add: tree_rd_def)
  have low: "astat A (height n i) i = 0 \<longleftrightarrow> (\<forall>a\<in>A. \<not> below i a)"
  proof -
    have "bit_length a < bit_length i + height n i" if "a \<in> A" for a
      using that wf node_depth [of n a] node_depth [OF assms(2)] by (auto simp: alloc_wf_def height_def)
    then show ?thesis unfolding astat_eq_0 [OF i] by blast
  qed
  show ?thesis
  proof (cases "astat A (height n i) i = 0")
    case False
    then show ?thesis using st low by (auto simp: buddy_tree_is_free_def free_node_def)
  next
    case True
    have notA: "i \<notin> A" using True low by auto
    have "is_free_loop t (buddy_tree_parent (pos_of i)) \<longleftrightarrow> (\<forall>a\<in>A. \<not> below a i)"
    proof (cases "i = 1")
      case True
      then show ?thesis using above_root_only [OF wf] notA is_free_loop_top [of t] by blast
    next
      case F: False
      have "is_free_loop t (pos_of (i div 2)) \<longleftrightarrow> (\<forall>a\<in>A. \<not> below a (i div 2))"
        using is_free_loop_rep [OF assms(1,2) node_half [OF assms(2) F]] True by simp
      then show ?thesis using parent_pos_of [OF tree_repD(2) [OF assms(1)] assms(2) F]
          below_cases [of _ i] notA by auto
    qed
    then show ?thesis using st low True by (auto simp: buddy_tree_is_free_def free_node_def)
  qed
qed

subsection \<open>Properties\<close>


lemma node_1: "order_ok n \<Longrightarrow> node n 1"
  by (simp add: node_iff_depth bit_length_pos order_ok_def)


text \<open>Releasing an allocated position removes it from the allocated nodes and nothing else.\<close>

theorem release_correct:
  assumes "tree_rep n t A" "i \<in> A"
  shows "\<exists>t'. buddy_tree_release t (pos_of i) = Some t' \<and> alloc_wf n (A - {i}) \<and>
    (\<forall>j. node n j \<longrightarrow> buddy_tree_status t' (pos_of j) = astat (A - {i}) (height n j) j)"
  using release_rep [OF assms] tree_repD(4,5) unfolding tree_rd_def by blast

lemma example_marked: "\<exists>t. tree_rep 3 t {5}"
  using mark_rep [OF init_rep [of 3], of 5] by (auto simp: order_ok_def node_def free_node_def)

theorem release_correct_witness:
  "\<exists>t t'. tree_rep 3 t {5} \<and> buddy_tree_release t (pos_of 5) = Some t' \<and> buddy_tree_status t' (pos_of 1) = 0"
proof -
  obtain t where t: "tree_rep 3 t {5}" using example_marked by blast
  then show ?thesis using release_correct [OF t, of 5] node_1 [of 3] by (auto simp: order_ok_def)
qed

text \<open>Marking a free position and releasing it again restores every status.\<close>

theorem mark_release_round_trip:
  assumes "tree_rep n t A" "node n i" "free_node A i"
  shows "\<exists>t' t''. buddy_tree_mark t (pos_of i) = Some t' \<and> buddy_tree_release t' (pos_of i) = Some t'' \<and>
    (\<forall>j. node n j \<longrightarrow> buddy_tree_status t'' (pos_of j) = buddy_tree_status t (pos_of j))"
proof -
  obtain t' where t': "buddy_tree_mark t (pos_of i) = Some t'" "tree_rep n t' (insert i A)"
    using mark_rep [OF assms] by blast
  obtain t'' where t'': "buddy_tree_release t' (pos_of i) = Some t''" "tree_rep n t'' (insert i A - {i})"
    using release_rep [OF t'(2), of i] by blast
  have "i \<notin> A" using assms(3) below_refl [of i] unfolding free_node_def by blast
  then have "insert i A - {i} = A" by blast
  then show ?thesis using t' t'' tree_repD(5) [OF assms(1)] tree_repD(5) unfolding tree_rd_def by metis
qed

theorem mark_release_round_trip_witness:
  "\<exists>t t' t''. tree_rep 3 t {5} \<and> buddy_tree_mark t (pos_of 3) = Some t' \<and>
     buddy_tree_release t' (pos_of 3) = Some t''"
proof -
  obtain t where t: "tree_rep 3 t {5}" using example_marked by blast
  have apart: "\<not> below 5 3" "\<not> below 3 5"
    by (simp_all add: below_eq bit_length_pos)
  show ?thesis using mark_release_round_trip [OF t, of 3] apart t by (auto simp: node_def free_node_def)
qed

text \<open>C20: the search returns, for every left-bias argument, a free slot of the wanted depth if
  there is one and the invalid position otherwise; with left bias it is the leftmost slot.\<close>

theorem find_free_correct:
  assumes "tree_rep n t A" "1 \<le> d" "d \<le> n"
  shows "\<exists>r. buddy_tree_find_free t d lb = Some r \<and>
    (r = INVALID_POS \<and> (\<forall>j. node n j \<longrightarrow> bit_length j = d \<longrightarrow> \<not> free_node A j) \<or>
     (\<exists>j. r = pos_of j \<and> node n j \<and> bit_length j = d \<and> free_node A j \<and>
       (lb mod 256 \<noteq> 0 \<longrightarrow>
         (\<forall>k. node n k \<and> bit_length k = d \<and> free_node A k \<longrightarrow> j \<le> k))))"
  using find_free_rep [OF assms, of lb] unfolding free_slot_def by (metis (no_types, lifting))

theorem find_free_correct_witness:
  "\<exists>t r. tree_rep 3 t {5} \<and> buddy_tree_find_free t 2 0 = Some r \<and> r \<noteq> INVALID_POS"
proof -
  obtain t where t: "tree_rep 3 t {5}" using example_marked by blast
  have free: "free_node {5} 3" "node 3 3" "bit_length 3 = 2"
    by (simp_all add: free_node_def node_def below_eq bit_length_pos)
  obtain r where "buddy_tree_find_free t 2 0 = Some r"
    "r = INVALID_POS \<and> (\<forall>j. node 3 j \<longrightarrow> bit_length j = 2 \<longrightarrow> \<not> free_node {5} j) \<or> (\<exists>j. r = pos_of j \<and> node 3 j)"
    using find_free_correct [OF t, of 2 0] by auto
  then show ?thesis using free t by (auto simp: INVALID_POS_def pos_of_def node_def)
qed

text \<open>\<open>buddy_tree_is_free\<close> answers whether no allocated node lies at, above or below a
  position, although it only follows the path to the root and stops at the first status.\<close>

theorem is_free_correct:
  assumes "tree_rep n t A" "node n i"
  shows "buddy_tree_is_free t (pos_of i) \<longleftrightarrow> (\<forall>a\<in>A. \<not> below a i \<and> \<not> below i a)"
  using is_free_rep [OF assms] by (simp add: free_node_def)

theorem is_free_correct_witness:
  "\<exists>t. tree_rep 3 t {5} \<and> \<not> buddy_tree_is_free t (pos_of 2) \<and> buddy_tree_is_free t (pos_of 4)"
proof -
  obtain t where t: "tree_rep 3 t {5}" using example_marked by blast
  have "below 2 5" "\<not> below 5 4" "\<not> below 4 5"
    by (simp_all add: below_eq bit_length_pos)
  then show ?thesis using is_free_correct [OF t, of 2] is_free_correct [OF t, of 4] t
    by (auto simp: node_def)
qed

text \<open>After \<open>buddy_tree_init\<close> every node is free, and in the bytes the caller reserves the
  bits come first, the memo table starts behind them and ends before the end of the object.\<close>

theorem tree_init_correct:
  assumes "1 \<le> n" "n \<le> 31"
  shows "(\<forall>j. 0 < j \<and> j < 2 ^ n \<longrightarrow> buddy_tree_status (buddy_tree_init t0 n) (pos_of j) = 0) \<and>
    bitset_sizeof (size_for_order n 0) \<le> 8 * size_for_order_offset (buddy_tree_init t0 n) \<and>
    24 + 8 * (size_for_order_offset (buddy_tree_init t0 n) + n + 1) \<le> buddy_tree_sizeof n"
proof -
  have n: "order_ok n" using assms by (simp add: order_ok_def)
  have st: "\<forall>j. 0 < j \<and> j < 2 ^ n \<longrightarrow> buddy_tree_status (buddy_tree_init t0 n) (pos_of j) = 0"
    using tree_repD(5) [OF init_rep [OF n]] by (simp add: node_def tree_rd_def)
  define t where "t = t0\<lparr>tree_bits := \<lambda>k. if k < sub64 (buddy_tree_sizeof n) 24 then 0 else tree_bits t0 k,
      tree_order := n mod 256, upper_pos_bound := shl32 (n mod 256)\<rparr>"
  have "buddy_tree_init t0 n = buddy_tree_populate_size_for_order t"
    by (simp add: buddy_tree_init_def t_def Let_def)
  then show ?thesis
    using st memo_behind_bits [OF n _ refl, of t] assms(2) bitset_sizeof_row [OF n] by (simp add: t_def)
qed

theorem tree_init_correct_witness:
  "buddy_tree_status (buddy_tree_init
     \<lparr>upper_pos_bound = 0, size_for_order_offset = 0, tree_order = 0, tree_bits = (\<lambda>_. 255),
      tree_memo = (\<lambda>_. 7)\<rparr> 4) (pos_of 9) = 0"
  using tree_init_correct [of 4] by simp

text \<open>Status cells do not interfere: writing a value at one position is read back there and
  changes the status of no other position of the tree.\<close>

theorem status_cells_independent:
  assumes "tree_ok n t" "node n i" "node n j" "v \<le> height n i"
  shows "buddy_tree_status (t\<lparr>tree_bits := write_to_internal_position (tree_bits t)
      (buddy_tree_internal_position_tree t (pos_of i)) v\<rparr>) (pos_of j)
    = (if j = i then v else buddy_tree_status t (pos_of j))"
  using tree_rd_wr [OF assms] by (simp add: tree_rd_def tree_wr_def)

theorem status_cells_independent_witness:
  "\<exists>t. tree_ok 3 t \<and> buddy_tree_status (t\<lparr>tree_bits := write_to_internal_position (tree_bits t)
      (buddy_tree_internal_position_tree t (pos_of 2)) 2\<rparr>) (pos_of 2) = 2"
proof -
  have ok: "tree_ok 3 (buddy_tree_init undefined 3)"
    using init_rep [of 3 undefined] by (simp add: tree_rep_def order_ok_def)
  have "node 3 2" "2 \<le> height 3 2"
    by (simp_all add: node_def height_def bit_length_pos)
  then show ?thesis using status_cells_independent [OF ok, of 2 2 2] ok by auto
qed

end
