(* ===== verification/Buddy.thy ===== *)
theory Buddy
  imports TreeSearch
begin

text \<open>
  The binary buddy allocator (\<open>src/mem/Buddy.cpp\<close>, \<open>src/include/BuddyAlloc.h\<close>) on top of the
  tree: address arithmetic, allocation, release, virtual slots, range reservation, resizing,
  embedding and the arena walks.

  Pointers are 64-bit addresses, \<open>0\<close> is \<open>NULL\<close>. A \<open>struct buddy *\<close> argument is a
  \<open>buddy option\<close> where the code checks it for \<open>NULL\<close>; the operation returns the object
  updated. \<open>buddy_at\<close> is the address of the object itself, which the relative mode computes
  with; \<open>arena\<close> is the one word of the union of \<open>main\<close> and \<open>main_offset\<close>. The arena's bytes
  are an explicit store, for the operations that touch them.
\<close>

subsection \<open>Data\<close>

definition BUDDY_ALLOC_ALIGN :: nat where
  "BUDDY_ALLOC_ALIGN = 64"

definition BUDDY_RELATIVE_MODE :: nat where
  "BUDDY_RELATIVE_MODE = 1"

definition BUDDY_LEFT_BIAS :: nat where
  "BUDDY_LEFT_BIAS = 2"

record buddy =
  buddy_at :: nat
  memory_size :: nat
  virtual_slots :: nat
  arena :: nat
  buddy_flags :: nat
  buddy_free_bytes :: nat
  btree :: buddy_tree

record buddy_embed_check =
  can_fit :: bool
  embed_off :: nat
  embed_size :: nat

type_synonym store = "nat \<Rightarrow> 8 word"

subsection \<open>Sizes and addresses\<close>

definition buddy_tree_order_for_memory :: "nat \<Rightarrow> nat" where
  "buddy_tree_order_for_memory msize =
     (let blocks = msize div BUDDY_ALLOC_ALIGN
      in highest_bit_position (ceiling_power_of_two blocks))"

text \<open>\<open>sizeof (struct buddy)\<close> is 40.\<close>

definition buddy_sizeof :: "nat \<Rightarrow> nat" where
  "buddy_sizeof msize =
     (if msize < BUDDY_ALLOC_ALIGN then 0
      else add64 40 (buddy_tree_sizeof (buddy_tree_order_for_memory msize mod 256)))"

definition buddy_relative_mode :: "buddy \<Rightarrow> nat" where
  "buddy_relative_mode b = buddy_flags b AND BUDDY_RELATIVE_MODE"

definition buddy_is_left_biased :: "buddy \<Rightarrow> nat" where
  "buddy_is_left_biased b = buddy_flags b AND BUDDY_LEFT_BIAS"

definition buddy_set_left_bias :: "buddy option \<Rightarrow> buddy option" where
  "buddy_set_left_bias bp =
     map_option (\<lambda>b. b\<lparr>buddy_flags := buddy_flags b OR BUDDY_LEFT_BIAS\<rparr>) bp"

text \<open>\<open>~BUDDY_LEFT_BIAS\<close> is a 32-bit complement, widened with zeros.\<close>

definition buddy_set_optimal_fit :: "buddy option \<Rightarrow> buddy option" where
  "buddy_set_optimal_fit bp =
     map_option (\<lambda>b. b\<lparr>buddy_flags := buddy_flags b AND (2 ^ 32 - 1 - BUDDY_LEFT_BIAS)\<rparr>) bp"

definition buddy_main :: "buddy \<Rightarrow> nat" where
  "buddy_main b = (if buddy_relative_mode b \<noteq> 0 then sub64 (buddy_at b) (arena b) else arena b)"

definition buddy_effective_memory_size :: "buddy \<Rightarrow> nat" where
  "buddy_effective_memory_size b = ceiling_power_of_two (memory_size b)"

definition size_for_depth :: "buddy \<Rightarrow> nat \<Rightarrow> nat" where
  "size_for_depth b depth =
     (let depth = (if depth = 0 then 1 else depth)
      in ceiling_power_of_two (memory_size b) div 2 ^ (sub64 depth 1))"

function depth_for_size_loop :: "nat \<Rightarrow> nat \<Rightarrow> nat \<Rightarrow> nat" where
  "depth_for_size_loop effective requested depth =
     (if effective div requested div 2 \<noteq> 0
      then depth_for_size_loop (effective div 2) requested (add64 depth 1)
      else depth)"
  by pat_completeness auto
termination
proof (relation "measure (\<lambda>(effective, _, _). effective)")
  fix effective requested depth :: nat
  assume "effective div requested div 2 \<noteq> 0"
  then have "0 < effective" by (cases "effective = 0") auto
  then show "((effective div 2, requested, add64 depth 1), effective, requested, depth)
      \<in> measure (\<lambda>(effective, _, _). effective)" by simp
qed simp

declare depth_for_size_loop.simps [simp del]

definition depth_for_size :: "buddy \<Rightarrow> nat \<Rightarrow> nat" where
  "depth_for_size b requested_size =
     (let requested_size = (if requested_size < BUDDY_ALLOC_ALIGN then BUDDY_ALLOC_ALIGN
                            else requested_size)
      in depth_for_size_loop (buddy_effective_memory_size b) requested_size 1)"

definition address_for_position :: "buddy \<Rightarrow> buddy_tree_pos \<Rightarrow> nat" where
  "address_for_position b pos =
     (let block_size = size_for_depth b (buddy_tree_depth pos);
          addr = mul64 block_size (buddy_tree_index pos)
      in add64 (buddy_main b) addr)"

definition deepest_position_for_offset :: "buddy \<Rightarrow> nat \<Rightarrow> buddy_tree_pos" where
  "deepest_position_for_offset b offset =
     (let index = offset div BUDDY_ALLOC_ALIGN;
          pos = buddy_tree_leftmost_child (btree b)
      in pos\<lparr>pos_index := add64 (pos_index pos) index\<rparr>)"

text \<open>The climb to the first position with a status.\<close>

function climb_to_status :: "buddy_tree \<Rightarrow> buddy_tree_pos \<Rightarrow> buddy_tree_pos" where
  "climb_to_status t pos =
     (if buddy_tree_valid t pos \<and> buddy_tree_status t pos = 0
      then climb_to_status t (buddy_tree_parent pos) else pos)"
  by pat_completeness auto
termination
  by (relation "measure (\<lambda>(t, pos). pos_index pos)")
     (auto simp: buddy_tree_valid_def buddy_tree_parent_def)

declare climb_to_status.simps [simp del]

definition position_for_address :: "buddy \<Rightarrow> nat \<Rightarrow> buddy_tree_pos" where
  "position_for_address b addr =
     (let offset = sub64 addr (buddy_main b);
          pos = deepest_position_for_offset b offset
      in climb_to_status (btree b) pos)"

subsection \<open>Virtual slots\<close>

text \<open>
  An arena whose size is not a power of two is managed as if it were the next power of two;
  the slots behind its end are marked, so that they are never handed out. \<open>state\<close> chooses
  between \<open>buddy_tree_mark\<close> and \<open>buddy_tree_release\<close>.
\<close>

definition toggle :: "bool \<Rightarrow> buddy_tree \<Rightarrow> buddy_tree_pos \<Rightarrow> buddy_tree option" where
  "toggle state = (if state then buddy_tree_mark else buddy_tree_release)"

partial_function (option) toggle_virtual_loop ::
  "buddy \<Rightarrow> bool \<Rightarrow> buddy_tree \<Rightarrow> buddy_tree_pos \<Rightarrow> nat \<Rightarrow> buddy_tree option" where
  "toggle_virtual_loop b state t pos delta =
     (if delta \<noteq> 0 then
        let current_pos_size = size_for_depth b (buddy_tree_depth pos)
        in if delta = current_pos_size then toggle state t pos
           else if delta \<le> current_pos_size div 2
           then toggle_virtual_loop b state t (buddy_tree_right_child pos) delta
           else do {
             t \<leftarrow> toggle state t (buddy_tree_right_child pos);
             toggle_virtual_loop b state t (buddy_tree_left_child pos)
               (sub64 delta (current_pos_size div 2))
           }
      else Some t)"

declare toggle_virtual_loop.simps [code]

definition buddy_toggle_virtual_slots :: "buddy \<Rightarrow> bool \<Rightarrow> buddy option" where
  "buddy_toggle_virtual_slots b state =
     (let effective = buddy_effective_memory_size b
      in if effective = memory_size b then Some (b\<lparr>virtual_slots := 0\<rparr>)
         else
           let delta = sub64 effective (memory_size b);
               b = b\<lparr>virtual_slots := (if state then delta div BUDDY_ALLOC_ALIGN else 0)\<rparr>
           in do {
             t \<leftarrow> toggle_virtual_loop b state (btree b) (buddy_tree_right_child buddy_tree_root) delta;
             Some (b\<lparr>btree := t\<rparr>)
           })"

subsection \<open>Initialisation\<close>

text \<open>\<open>old\<close> is what the memory at \<open>at\<close> holds before the call.\<close>

definition buddy_init :: "buddy \<Rightarrow> nat \<Rightarrow> nat \<Rightarrow> nat \<Rightarrow> buddy option option" where
  "buddy_init old at main msize =
     (if at = 0 then Some None
      else if main = 0 then Some None
      else if at = main then Some None
      else if at mod 8 \<noteq> 0 then Some None
      else if main mod 8 \<noteq> 0 then Some None
      else
        let msize = (if msize mod BUDDY_ALLOC_ALIGN \<noteq> 0
                     then sub64 msize (msize mod BUDDY_ALLOC_ALIGN) else msize);
            size = buddy_sizeof msize
        in if size = 0 then Some None
           else
             let tree_order = buddy_tree_order_for_memory msize;
                 b = old\<lparr>buddy_at := at, arena := main, memory_size := msize,
                         buddy_flags := 0, buddy_free_bytes := msize\<rparr>;
                 b = b\<lparr>btree := buddy_tree_init (btree b) (tree_order mod 256)\<rparr>
             in do { b \<leftarrow> buddy_toggle_virtual_slots b True; Some (Some b) })"

definition buddy_embed_offset :: "nat \<Rightarrow> buddy_embed_check" where
  "buddy_embed_offset msize =
     (let buddy_size = buddy_sizeof msize;
          fit = \<not> buddy_size \<ge> msize;
          offset = sub64 msize buddy_size;
          (buddy_size, fit, offset) =
            (if offset mod 8 \<noteq> 0
             then let buddy_size = add64 buddy_size (offset mod 8);
                      fit = (if buddy_size \<ge> msize then False else fit)
                  in (buddy_size, fit, sub64 msize buddy_size)
             else (buddy_size, fit, offset))
      in if fit then \<lparr>can_fit = True, embed_off = offset, embed_size = buddy_size\<rparr>
         else \<lparr>can_fit = False, embed_off = 0, embed_size = 0\<rparr>)"

definition buddy_embed :: "buddy \<Rightarrow> nat \<Rightarrow> nat \<Rightarrow> buddy option option" where
  "buddy_embed old main msize =
     (if main = 0 then Some None
      else
        let result = buddy_embed_offset msize
        in if \<not> can_fit result then Some None
           else do {
             bp \<leftarrow> buddy_init old (add64 main (embed_off result)) main (embed_off result);
             Some (map_option (\<lambda>b. b\<lparr>buddy_flags := buddy_flags b OR BUDDY_RELATIVE_MODE,
                                    arena := sub64 (buddy_at b) main\<rparr>) bp)
           })"

subsection \<open>Allocation and release\<close>

definition buddy_malloc :: "buddy option \<Rightarrow> nat \<Rightarrow> (nat \<times> buddy option) option" where
  "buddy_malloc bp requested_size =
     (case bp of
        None \<Rightarrow> Some (0, None)
      | Some b \<Rightarrow>
          let requested_size = (if requested_size = 0 then 1 else requested_size)
          in if requested_size > memory_size b then Some (0, Some b)
             else
               let target_depth = depth_for_size b requested_size
               in do {
                 pos \<leftarrow> buddy_tree_find_free (btree b) target_depth (buddy_is_left_biased b);
                 if \<not> buddy_tree_valid (btree b) pos then Some (0, Some b)
                 else do {
                   t \<leftarrow> buddy_tree_mark (btree b) pos;
                   let b = b\<lparr>btree := t\<rparr>;
                   Some (address_for_position b pos, Some b)
                 }
               })"

text \<open>The byte loops of \<open>memset\<close> and of the file's own \<open>memmove\<close>, which copies forwards.\<close>

fun memset_loop :: "nat \<Rightarrow> store \<Rightarrow> nat \<Rightarrow> 8 word \<Rightarrow> store" where
  "memset_loop 0 m dest v = m"
| "memset_loop (Suc k) m dest v = memset_loop k (m(dest := v)) (add64 dest 1) v"

definition memset :: "store \<Rightarrow> nat \<Rightarrow> 8 word \<Rightarrow> nat \<Rightarrow> store" where
  "memset m dest v n = memset_loop n m dest v"

fun memmove_loop :: "nat \<Rightarrow> store \<Rightarrow> nat \<Rightarrow> nat \<Rightarrow> store" where
  "memmove_loop 0 m dest src = m"
| "memmove_loop (Suc k) m dest src =
     memmove_loop k (m(dest := m src)) (add64 dest 1) (add64 src 1)"

definition memmove :: "store \<Rightarrow> nat \<Rightarrow> nat \<Rightarrow> nat \<Rightarrow> store" where
  "memmove m dest src n = memmove_loop n m dest src"

definition buddy_calloc ::
  "store \<Rightarrow> buddy option \<Rightarrow> nat \<Rightarrow> nat \<Rightarrow> (nat \<times> store \<times> buddy option) option" where
  "buddy_calloc m bp members_count member_size =
     (let (members_count, member_size) =
            (if members_count = 0 \<or> member_size = 0 then (1, 1) else (members_count, member_size))
      in if mul64 members_count member_size div members_count \<noteq> member_size then Some (0, m, bp)
         else
           let total_size = mul64 members_count member_size
           in do {
             (result, bp) \<leftarrow> buddy_malloc bp total_size;
             Some (result, (if result \<noteq> 0 then memset m result 0 total_size else m), bp)
           })"

definition in_arena :: "buddy \<Rightarrow> nat \<Rightarrow> bool" where
  "in_arena b dst \<longleftrightarrow> \<not> (dst < buddy_main b \<or> dst \<ge> add64 (buddy_main b) (memory_size b))"

definition buddy_free :: "buddy option \<Rightarrow> nat \<Rightarrow> buddy option outcome" where
  "buddy_free bp ptr =
     (case bp of
        None \<Rightarrow> panic ''Wrong buddy free!''
      | Some b \<Rightarrow>
          if ptr = 0 then panic ''Wrong buddy free!''
          else if \<not> in_arena b ptr then panic ''Wrong buddy free!''
          else
            let pos = position_for_address b ptr
            in if \<not> buddy_tree_valid (btree b) pos then panic ''Wrong buddy free!''
               else andthen (lift_opt (buddy_tree_release (btree b) pos))
                      (\<lambda>t. ok (Some (b\<lparr>btree := t\<rparr>))))"

definition buddy_safe_free :: "buddy option \<Rightarrow> nat \<Rightarrow> nat \<Rightarrow> buddy option option" where
  "buddy_safe_free bp ptr requested_size =
     (case bp of
        None \<Rightarrow> Some None
      | Some b \<Rightarrow>
          if ptr = 0 then Some (Some b)
          else if \<not> in_arena b ptr then Some (Some b)
          else
            let pos = position_for_address b ptr
            in if \<not> buddy_tree_valid (btree b) pos then Some (Some b)
               else
                 let allocated = size_for_depth b (pos_depth pos);
                     requested_size = (if requested_size < BUDDY_ALLOC_ALIGN
                                       then BUDDY_ALLOC_ALIGN else requested_size)
                 in if requested_size > allocated then Some (Some b)
                    else if requested_size \<le> allocated div 2 then Some (Some b)
                    else do {
                      t \<leftarrow> buddy_tree_release (btree b) pos;
                      Some (Some (b\<lparr>btree := t\<rparr>))
                    })"

text \<open>\<open>buddy_realloc\<close> dereferences its \<open>buddy\<close> when \<open>ptr\<close> is not \<open>NULL\<close>, so the model takes
  the object itself.\<close>

definition buddy_realloc ::
  "store \<Rightarrow> buddy \<Rightarrow> nat \<Rightarrow> nat \<Rightarrow> (nat \<times> store \<times> buddy) outcome" where
  "buddy_realloc m b ptr requested_size =
     (if ptr = 0 then
        andthen (lift_opt (buddy_malloc (Some b) requested_size))
          (\<lambda>(p, bp). ok (p, m, case bp of None \<Rightarrow> b | Some b \<Rightarrow> b))
      else if requested_size = 0 then
        andthen (buddy_free (Some b) ptr) (\<lambda>bp. ok (0, m, case bp of None \<Rightarrow> b | Some b \<Rightarrow> b))
      else if requested_size > memory_size b then ok (0, m, b)
      else
        let origin = position_for_address b ptr
        in if \<not> buddy_tree_valid (btree b) origin then ok (0, m, b)
           else
             let current_depth = buddy_tree_depth origin;
                 target_depth = depth_for_size b requested_size
             in lift_opt (do {
               t \<leftarrow> buddy_tree_release (btree b) origin;
               new_pos \<leftarrow> buddy_tree_find_free t target_depth (buddy_is_left_biased b);
               if \<not> buddy_tree_valid t new_pos then do {
                 t \<leftarrow> buddy_tree_mark t origin;
                 Some (0, m, b\<lparr>btree := t\<rparr>)
               }
               else if pos_index origin = pos_index new_pos then do {
                 t \<leftarrow> buddy_tree_mark t origin;
                 Some (ptr, m, b\<lparr>btree := t\<rparr>)
               }
               else
                 let source = address_for_position b origin;
                     destination = address_for_position b new_pos;
                     m = memmove m destination source (size_for_depth b
                           (if current_depth > target_depth then current_depth else target_depth))
                 in do {
                   t \<leftarrow> buddy_tree_mark t new_pos;
                   Some (destination, m, b\<lparr>btree := t\<rparr>)
                 }
             }))"

definition buddy_reallocarray ::
  "store \<Rightarrow> buddy \<Rightarrow> nat \<Rightarrow> nat \<Rightarrow> nat \<Rightarrow> (nat \<times> store \<times> buddy) outcome" where
  "buddy_reallocarray m b ptr members_count member_size =
     (if members_count = 0 \<or> member_size = 0 then buddy_realloc m b ptr 0
      else if mul64 members_count member_size div members_count \<noteq> member_size then ok (0, m, b)
      else buddy_realloc m b ptr (mul64 members_count member_size))"

subsection \<open>Reserving ranges\<close>

function range_loop ::
  "bool \<Rightarrow> buddy_tree \<Rightarrow> buddy_tree_pos \<Rightarrow> nat \<Rightarrow> buddy_tree option" where
  "range_loop state t pos requested_size =
     (if requested_size \<noteq> 0
      then do {
        t \<leftarrow> toggle state t pos;
        range_loop state t (pos\<lparr>pos_index := add64 (pos_index pos) 1\<rparr>)
          (if requested_size < BUDDY_ALLOC_ALIGN then 0
           else requested_size - BUDDY_ALLOC_ALIGN)
      }
      else Some t)"
  by pat_completeness auto
termination
  by (relation "measure (\<lambda>(_, _, _, requested_size). requested_size)")
     (auto simp: BUDDY_ALLOC_ALIGN_def)

declare range_loop.simps [simp del]

definition buddy_toggle_range_reservation ::
  "buddy option \<Rightarrow> nat \<Rightarrow> nat \<Rightarrow> bool \<Rightarrow> buddy option option" where
  "buddy_toggle_range_reservation bp ptr requested_size state =
     (case bp of
        None \<Rightarrow> Some None
      | Some b \<Rightarrow>
          if ptr = 0 then Some (Some b)
          else if requested_size = 0 then Some (Some b)
          else if ptr < buddy_main b \<or>
                  add64 ptr requested_size > add64 (buddy_main b) (memory_size b)
          then Some (Some b)
          else
            let offset = sub64 ptr (buddy_main b);
                pos = deepest_position_for_offset b offset
            in do {
              t \<leftarrow> range_loop state (btree b) pos requested_size;
              Some (Some (b\<lparr>btree := t\<rparr>))
            })"

definition buddy_reserve_range :: "buddy option \<Rightarrow> nat \<Rightarrow> nat \<Rightarrow> buddy option option" where
  "buddy_reserve_range bp ptr requested_size =
     buddy_toggle_range_reservation bp ptr requested_size True"

definition buddy_unsafe_release_range :: "buddy option \<Rightarrow> nat \<Rightarrow> nat \<Rightarrow> buddy option option" where
  "buddy_unsafe_release_range bp ptr requested_size =
     buddy_toggle_range_reservation bp ptr requested_size False"

subsection \<open>Is the arena free behind an offset?\<close>

text \<open>The inner loop widens the position while its parent's leaves lie in the query range.\<close>

partial_function (option) widen_loop ::
  "buddy_tree \<Rightarrow> tree_interval \<Rightarrow> buddy_tree_pos \<Rightarrow> tree_interval \<Rightarrow>
   tree_interval \<Rightarrow> (buddy_tree_pos \<times> tree_interval) option" where
  "widen_loop t query pos current_test_range parent_test_range =
     (if buddy_tree_interval_contains query parent_test_range
      then
        let pos = buddy_tree_parent pos
        in widen_loop t query pos parent_test_range (buddy_tree_interval t (buddy_tree_parent pos))
      else Some (pos, current_test_range))"

declare widen_loop.simps [code]

partial_function (option) buddy_is_free_loop ::
  "buddy_tree \<Rightarrow> tree_interval \<Rightarrow> buddy_tree_pos \<Rightarrow> bool option" where
  "buddy_is_free_loop t query pos =
     (if buddy_tree_valid t pos \<and> pos_index pos < pos_index (int_to query)
      then do {
        (pos, current_test_range) \<leftarrow>
          widen_loop t query pos (buddy_tree_interval t pos)
            (buddy_tree_interval t (buddy_tree_parent pos));
        if \<not> buddy_tree_is_free t pos then Some False
        else buddy_is_free_loop t query (buddy_tree_right_adjacent (int_to current_test_range))
      }
      else Some True)"

declare buddy_is_free_loop.simps [code]

definition buddy_is_free :: "buddy \<Rightarrow> nat \<Rightarrow> bool option" where
  "buddy_is_free b from =
     (let effective = buddy_effective_memory_size b;
          to = sub64 effective (mul64 (if virtual_slots b \<noteq> 0 then virtual_slots b else 1)
                 BUDDY_ALLOC_ALIGN);
          query = \<lparr>int_from = deepest_position_for_offset b from,
                   int_to = deepest_position_for_offset b to\<rparr>;
          pos = deepest_position_for_offset b from
      in buddy_is_free_loop (btree b) query pos)"

definition buddy_can_shrink :: "buddy option \<Rightarrow> bool option" where
  "buddy_can_shrink bp =
     (case bp of None \<Rightarrow> Some False | Some b \<Rightarrow> buddy_is_free b (memory_size b div 2))"

definition buddy_is_empty :: "buddy option \<Rightarrow> bool option" where
  "buddy_is_empty bp = (case bp of None \<Rightarrow> Some True | Some b \<Rightarrow> buddy_is_free b 0)"

definition buddy_arena_size :: "buddy option \<Rightarrow> nat" where
  "buddy_arena_size bp = (case bp of None \<Rightarrow> 0 | Some b \<Rightarrow> memory_size b)"

subsection \<open>Resizing\<close>

definition buddy_resize_standard :: "buddy \<Rightarrow> nat \<Rightarrow> (bool \<times> buddy) option" where
  "buddy_resize_standard b new_memory_size =
     (let new_memory_size =
            (if new_memory_size mod BUDDY_ALLOC_ALIGN \<noteq> 0
             then sub64 new_memory_size (new_memory_size mod BUDDY_ALLOC_ALIGN)
             else new_memory_size)
      in do {
        free \<leftarrow> buddy_is_free b new_memory_size;
        if \<not> free then Some (False, b)
        else do {
          b \<leftarrow> buddy_toggle_virtual_slots b False;
          t \<leftarrow> buddy_tree_resize (btree b) (buddy_tree_order_for_memory new_memory_size mod 256);
          let b = b\<lparr>btree := t, memory_size := new_memory_size\<rparr>;
          b \<leftarrow> buddy_toggle_virtual_slots b True;
          Some (True, b)
        }
      })"

text \<open>The object moves to the end of the new arena: \<open>buddy_at\<close> and the offset change.\<close>

definition buddy_resize_embedded :: "buddy \<Rightarrow> nat \<Rightarrow> (bool \<times> buddy) option" where
  "buddy_resize_embedded b new_memory_size =
     (let result = buddy_embed_offset new_memory_size
      in if \<not> can_fit result then Some (False, b)
         else do {
           (resized, b) \<leftarrow> buddy_resize_standard b (embed_off result);
           if \<not> resized then Some (False, b)
           else
             let main = buddy_main b;
                 buddy_destination = add64 (buddy_main b) (embed_off result)
             in Some (True, b\<lparr>buddy_at := buddy_destination,
                              arena := sub64 buddy_destination main\<rparr>)
         })"

definition buddy_resize :: "buddy \<Rightarrow> nat \<Rightarrow> (bool \<times> buddy) option" where
  "buddy_resize b new_memory_size =
     (if new_memory_size = memory_size b then Some (True, b)
      else if buddy_relative_mode b \<noteq> 0 then buddy_resize_embedded b new_memory_size
      else buddy_resize_standard b new_memory_size)"

subsection \<open>Walking the arena\<close>

text \<open>The \<open>continue\<close> of the code goes to the condition of the \<open>do ... while\<close>, the next step of
  the walk.\<close>

partial_function (option) free_size_loop ::
  "buddy \<Rightarrow> buddy_tree_walk_state \<Rightarrow> nat \<Rightarrow> nat option" where
  "free_size_loop b state result =
     (let pos_status = buddy_tree_status (btree b) (current_pos state);
          tree_order = buddy_tree_order (btree b);
          full = (pos_status = add64 (sub64 tree_order (pos_depth (current_pos state))) 1);
          state = (if full \<or> pos_status = 0 then state\<lparr>going_up := True\<rparr> else state);
          result = (if full then result
                    else if pos_status = 0
                    then add64 result (size_for_depth b (pos_depth (current_pos state)))
                    else result)
      in do {
        (more, state) \<leftarrow> buddy_tree_walk (btree b) state;
        if more then free_size_loop b state result else Some result
      })"

declare free_size_loop.simps [code]

definition buddy_arena_free_size :: "buddy \<Rightarrow> nat option" where
  "buddy_arena_free_size b = free_size_loop b buddy_tree_walk_state_root 0"

text \<open>\<open>fp\<close> is the caller's callback: it gets its context, the address and the size of a slot,
  and returns a pointer (\<open>0\<close> to go on) and the context.\<close>

text \<open>\<open>Inl\<close> is a return from inside the loop, \<open>Inr\<close> goes on to the condition.\<close>

definition buddy_walk_visit ::
  "buddy \<Rightarrow> ('ctx \<Rightarrow> nat \<Rightarrow> nat \<Rightarrow> nat \<times> 'ctx) \<Rightarrow> 'ctx \<Rightarrow> buddy_tree_walk_state \<Rightarrow>
   (nat \<times> 'ctx) + ('ctx \<times> buddy_tree_walk_state)" where
  "buddy_walk_visit b fp ctx state =
     (let tree = btree b;
          pos = current_pos state;
          pos_status = buddy_tree_status tree pos
      in if pos_status = 0 then Inr (ctx, state\<lparr>going_up := True\<rparr>)
         else if pos_status \<noteq> add64 (sub64 (buddy_tree_order tree) (pos_depth pos)) 1
         then Inr (ctx, state)
         else
           let left = buddy_tree_left_child pos
           in if buddy_tree_valid tree left \<and> buddy_tree_status tree left \<noteq> 0
              then Inr (ctx, state)
              else
                let pos_size = buddy_effective_memory_size b div 2 ^ (sub64 (pos_depth pos) 1);
                    addr = address_for_position b pos
                in if add64 (sub64 addr (buddy_main b)) pos_size > memory_size b
                   then Inl (0, ctx)
                   else
                     let (result, ctx) = fp ctx addr pos_size
                     in if result \<noteq> 0 then Inl (result, ctx) else Inr (ctx, state))"

partial_function (option) buddy_walk_loop ::
  "buddy \<Rightarrow> ('ctx \<Rightarrow> nat \<Rightarrow> nat \<Rightarrow> nat \<times> 'ctx) \<Rightarrow> 'ctx \<Rightarrow> buddy_tree_walk_state \<Rightarrow>
   (nat \<times> 'ctx) option" where
  "buddy_walk_loop b fp ctx state =
     (case buddy_walk_visit b fp ctx state of
        Inl r \<Rightarrow> Some r
      | Inr (ctx, state) \<Rightarrow> do {
          (more, state) \<leftarrow> buddy_tree_walk (btree b) state;
          if more then buddy_walk_loop b fp ctx state else Some (0, ctx)
        })"

declare buddy_walk_loop.simps [code]

definition buddy_walk ::
  "buddy option \<Rightarrow> ('ctx \<Rightarrow> nat \<Rightarrow> nat \<Rightarrow> nat \<times> 'ctx) option \<Rightarrow> 'ctx \<Rightarrow> (nat \<times> 'ctx) option" where
  "buddy_walk bp fp ctx =
     (case bp of
        None \<Rightarrow> Some (0, ctx)
      | Some b \<Rightarrow>
          (case fp of
             None \<Rightarrow> Some (0, ctx)
           | Some fp \<Rightarrow> buddy_walk_loop b fp ctx buddy_tree_walk_state_root))"

end
