(* ===== verification/BuddySpec.thy ===== *)
theory BuddySpec
  imports Buddy
begin

text \<open>
  What the allocator promises. An arena of order \<open>n\<close> manages \<open>2 ^ (n + 5)\<close> bytes; the block of
  a tree node is an interval of byte offsets. \<open>buddy_rep n b U\<close> says that the blocks of the
  nodes \<open>U\<close> are handed out by \<open>b\<close> and that the bytes behind the end of the arena are covered by
  virtual slots. Every theorem about \<open>buddy_init\<close>, \<open>buddy_malloc\<close> and \<open>buddy_free\<close> is stated
  in these terms.
\<close>

subsection \<open>Blocks\<close>

definition bsize :: "nat \<Rightarrow> nat \<Rightarrow> nat" where
  "bsize n i = 2 ^ (n + 6 - bit_length i)"

definition boff :: "nat \<Rightarrow> nat \<Rightarrow> nat" where
  "boff n i = bsize n i * (i - 2 ^ (bit_length i - 1))"

definition block :: "nat \<Rightarrow> nat \<Rightarrow> nat set" where
  "block n i = {boff n i..<boff n i + bsize n i}"

definition leaf :: "nat \<Rightarrow> nat \<Rightarrow> nat" where
  "leaf n x = 2 ^ (n - 1) + x div 64"

lemma bsize_pos [simp]: "0 < bsize n i"
  by (simp add: bsize_def)

lemma block_nonempty: "boff n i \<in> block n i"
  by (simp add: block_def)

lemma arena_pow: "1 \<le> n \<Longrightarrow> (2::nat) ^ (n + 5) = 64 * 2 ^ (n - 1)"
  by (cases n) (simp_all add: power_add)

lemma leaf_bounds:
  assumes "1 \<le> n" "x < 2 ^ (n + 5)"
  shows "node n (leaf n x)" "bit_length (leaf n x) = n"
proof -
  define m where "m = x div 64"
  have m: "m < 2 ^ (n - 1)" using assms arena_pow [OF assms(1)] unfolding m_def
    by (simp add: less_mult_imp_div_less mult.commute)
  obtain k where k: "n = Suc k" using assms(1) by (cases n) auto
  have "leaf n x = 2 ^ k + m" by (simp add: leaf_def m_def k)
  then show len: "bit_length (leaf n x) = n" unfolding k using m k by (intro bit_length_eqI) auto
  show "node n (leaf n x)" using len assms(1) by (simp add: node_iff_depth)
qed

lemma in_block:
  assumes "node n i" "x < 2 ^ (n + 5)"
  shows "x \<in> block n i \<longleftrightarrow> below i (leaf n x)"
proof -
  have i: "0 < i" using assms(1) by (simp add: node_def)
  define d where "d = bit_length i - 1"
  have bl: "bit_length i = Suc d" "Suc d \<le> n" using node_depth [OF assms(1)] by (auto simp: d_def)
  define k where "k = n - Suc d"
  have n: "n = Suc (d + k)" "1 \<le> n" using bl by (auto simp: k_def)
  have ge: "2 ^ d \<le> i" using bit_length_bounds [OF i] bl by simp
  have size: "bsize n i = 64 * 2 ^ k" by (simp add: bsize_def bl n(1) power_add)
  have "leaf n x div 2 ^ k = (2 ^ d * 2 ^ k + x div 64) div 2 ^ k"
    by (simp add: leaf_def n(1) power_add)
  also have "\<dots> = 2 ^ d + x div 64 div 2 ^ k" by simp
  also have "x div 64 div 2 ^ k = x div bsize n i" by (simp add: size div_mult2_eq)
  finally have anc: "leaf n x div 2 ^ k = 2 ^ d + x div bsize n i" .
  have "below i (leaf n x) \<longleftrightarrow> leaf n x div 2 ^ k = i"
    using below_eq [OF i, of "leaf n x"] leaf_bounds [OF n(2) assms(2)] bl by (simp add: k_def)
  also have "\<dots> \<longleftrightarrow> x div bsize n i = i - 2 ^ d" unfolding anc using ge by linarith
  also have "\<dots> \<longleftrightarrow> boff n i \<le> x \<and> x < boff n i + bsize n i"
    unfolding boff_def bl diff_Suc_1
    by (metis add.commute bsize_pos div_nat_eqI dividend_less_times_div mult.commute
        times_div_less_eq_dividend mult_Suc_right)
  finally show ?thesis by (simp add: block_def)
qed

lemma block_bound:
  assumes "node n i"
  shows "boff n i + bsize n i \<le> 2 ^ (n + 5)"
proof -
  have i: "0 < i" using assms by (simp add: node_def)
  define d where "d = bit_length i - 1"
  have bl: "bit_length i = Suc d" "Suc d \<le> n" using node_depth [OF assms] by (auto simp: d_def)
  have "i < 2 ^ Suc d" "2 ^ d \<le> i" using bit_length_bounds [OF i] bl by simp_all
  then have "Suc (i - 2 ^ d) \<le> 2 ^ d" by simp
  then have "bsize n i * Suc (i - 2 ^ d) \<le> bsize n i * 2 ^ d" by (rule mult_le_mono2)
  also have "bsize n i * 2 ^ d = 2 ^ (n + 5)"
    unfolding bsize_def bl power_add [symmetric] using bl by simp
  finally show ?thesis by (simp add: boff_def bl)
qed

lemma block_lt: "node n i \<Longrightarrow> x \<in> block n i \<Longrightarrow> x < 2 ^ (n + 5)"
  using block_bound [of n i] by (simp add: block_def)

lemma block_mono:
  assumes "node n i" "node n j" "below i j"
  shows "block n j \<subseteq> block n i"
  using in_block assms below_trans block_lt by blast

lemma block_disjoint:
  assumes "node n i" "node n j" "\<not> below i j" "\<not> below j i"
  shows "block n i \<inter> block n j = {}"
proof (rule ccontr)
  assume "block n i \<inter> block n j \<noteq> {}"
  then obtain x where x: "x \<in> block n i" "x \<in> block n j" by blast
  have "below i (leaf n x)" "below j (leaf n x)" using in_block block_lt x assms(1,2) by blast+
  then show False using below_linear [of i j] assms by (auto simp: node_def)
qed

lemma block_meets_iff:
  assumes "node n i" "node n j"
  shows "block n i \<inter> block n j \<noteq> {} \<longleftrightarrow> below i j \<or> below j i"
  using block_disjoint [OF assms] block_mono [OF assms] block_mono [OF assms(2,1)]
    block_nonempty [of n i] block_nonempty [of n j] by blast

text \<open>A node is free when its block meets no allocated block.\<close>

lemma free_node_blocks:
  assumes "alloc_wf n A" "node n j"
  shows "free_node A j \<longleftrightarrow> (\<forall>a\<in>A. block n a \<inter> block n j = {})"
  unfolding free_node_def using assms block_meets_iff by (metis alloc_wf_def)

lemma block_children:
  assumes "node n i" "bit_length i < n"
  shows "boff n (2 * i) = boff n i" "boff n (2 * i + 1) = boff n i + bsize n i div 2"
    "bsize n (2 * i) = bsize n i div 2" "bsize n (2 * i + 1) = bsize n i div 2"
    "2 * (bsize n i div 2) = bsize n i"
proof -
  have i: "0 < i" using assms by (simp add: node_def)
  define d where "d = bit_length i - 1"
  have bl: "bit_length i = Suc d" using i by (simp add: d_def)
  have ge: "2 ^ d \<le> i" using bit_length_bounds [OF i] bl by simp
  obtain k where k: "n = Suc (Suc (d + k))" using assms(2) bl by (auto dest: less_imp_Suc_add)
  note ch = bit_length_child [OF i]
  have s: "bsize n i = 2 * (64 * 2 ^ k)" by (simp add: bsize_def bl k power_add)
  show c: "bsize n (2 * i) = bsize n i div 2" "bsize n (2 * i + 1) = bsize n i div 2"
    unfolding s by (simp_all only: bsize_def ch bl k) (simp_all add: power_add)
  have dbl: "2 * i - 2 ^ Suc d = 2 * (i - 2 ^ d)" "2 * i + 1 - 2 ^ Suc d = 2 * (i - 2 ^ d) + 1"
    using ge by (simp_all add: Suc_diff_le)
  show "boff n (2 * i) = boff n i" "boff n (2 * i + 1) = boff n i + bsize n i div 2"
    unfolding boff_def c ch bl diff_Suc_1 dbl s by (simp_all add: algebra_simps)
  show "2 * (bsize n i div 2) = bsize n i" by (simp add: s)
qed

subsection \<open>Sizes and depths\<close>

text \<open>\<open>mem_ok n msize\<close>: an aligned arena size whose tree has order \<open>n\<close>.\<close>

definition mem_ok :: "nat \<Rightarrow> nat \<Rightarrow> bool" where
  "mem_ok n msize \<longleftrightarrow> order_ok n \<and> msize mod 64 = 0 \<and> msize \<le> 2 ^ (n + 5) \<and> 2 ^ (n + 5) < 2 * msize"

lemma mem_okD:
  assumes "mem_ok n msize"
  shows "order_ok n" "1 \<le> n" "n \<le> 31" "msize mod 64 = 0" "msize \<le> 2 ^ (n + 5)"
    "2 ^ (n + 5) < 2 * msize" "ceiling_power_of_two msize = 2 ^ (n + 5)" "0 < msize"
    "buddy_tree_order_for_memory msize = n"
proof -
  show b: "order_ok n" "1 \<le> n" "n \<le> 31" "msize mod 64 = 0" "msize \<le> 2 ^ (n + 5)"
    "2 ^ (n + 5) < 2 * msize" "0 < msize"
    using assms by (auto simp: mem_ok_def order_ok_def)
  show "ceiling_power_of_two msize = 2 ^ (n + 5)"
    using b by (intro ceiling_power_of_two_eqI) auto
  define blocks where "blocks = msize div 64"
  have m: "msize = 64 * blocks" using b(4) by (simp add: blocks_def mod_0_imp_dvd dvd_mult_div_cancel)
  have "ceiling_power_of_two blocks = 2 ^ (n - 1)"
    using b(2,3,5,6) unfolding m arena_pow [OF b(2)] by (intro ceiling_power_of_two_eqI) auto
  moreover have "highest_bit_position (2 ^ (n - 1)) = n"
  proof -
    have "(2::nat) ^ (n - 1) < 2 ^ 64" using b(3) by (intro power_strict_increasing) auto
    then show ?thesis using b(2) bit_length_eqI [of "n - 1" "2 ^ (n - 1)"]
      by (simp add: highest_bit_position_bit_length)
  qed
  ultimately show "buddy_tree_order_for_memory msize = n"
    by (simp add: buddy_tree_order_for_memory_def BUDDY_ALLOC_ALIGN_def blocks_def [symmetric])
qed

text \<open>Every aligned size up to \<open>2 ^ 36\<close> bytes is the size of such an arena.\<close>

lemma mem_ok_exists:
  assumes "64 \<le> msize" "msize \<le> 2 ^ 36" "msize mod 64 = 0"
  shows "\<exists>n. mem_ok n msize"
proof -
  define blocks where "blocks = msize div 64"
  have m: "msize = 64 * blocks" using assms(3) by (simp add: blocks_def mod_0_imp_dvd dvd_mult_div_cancel)
  have b: "0 < blocks" "blocks \<le> 2 ^ 30" using assms(1,2) unfolding m by simp_all
  have "blocks \<le> 2 ^ 63" using b(2) by simp
  then obtain k where k: "blocks \<le> 2 ^ k" "2 ^ k < 2 * blocks"
    using ceiling_exponent [OF b(1)] by blast
  have "(2::nat) ^ k < 2 ^ 31" using k(2) b(2) by simp
  then have "k < 31" by (rule power_less_imp_less_exp [rotated]) simp
  then have "mem_ok (Suc k) msize" using k unfolding mem_ok_def order_ok_def m by (simp add: power_add)
  then show ?thesis by blast
qed

lemma depth_for_size_loop_eq:
  assumes "r \<le> 2 ^ k" "2 ^ k < 2 * r" "k \<le> e" "e < 64" "depth + (e - k) < 2 ^ 64"
  shows "depth_for_size_loop (2 ^ e) r depth = depth + (e - k)"
  using assms(3-)
proof (induction "e - k" arbitrary: e depth)
  case 0
  then have "(2::nat) ^ e < 2 * r" using assms(2) by simp
  then have "2 ^ e div r div 2 = 0" by (simp add: div_mult2_eq [symmetric] mult.commute)
  then show ?case using 0 by (simp add: depth_for_size_loop.simps)
next
  case (Suc x)
  then obtain e' where e: "e = Suc e'" "k \<le> e'" by (cases e) auto
  have "2 ^ k \<le> (2::nat) ^ e'" using e(2) by (rule power_increasing) simp
  then have "r \<le> 2 ^ e'" using assms(1) by linarith
  then have "2 * r \<le> 2 ^ e" using e(1) by simp
  then have "0 < 2 ^ e div (2 * r)" using assms(2) by (simp add: div_greater_zero_iff)
  then have go: "2 ^ e div r div 2 \<noteq> 0" by (simp add: div_mult2_eq [symmetric] mult.commute)
  have half: "2 ^ e div 2 = (2::nat) ^ e'" using e(1) by simp
  have "depth_for_size_loop (2 ^ e) r depth = depth_for_size_loop (2 ^ e') r (Suc depth)"
    using go half Suc.prems(3) e by (subst depth_for_size_loop.simps) (simp add: add64_small)
  also have "\<dots> = Suc depth + (e' - k)"
    using Suc e by (intro Suc.hyps) auto
  finally show ?case using e by simp
qed

text \<open>The depth found is the deepest one whose blocks are large enough.\<close>

lemma depth_for_size_bounds:
  assumes "mem_ok n (memory_size b)" "req \<le> memory_size b"
  defines "d \<equiv> depth_for_size b req"
  shows "1 \<le> d" "d \<le> n" "max 64 req \<le> 2 ^ (n + 6 - d)" "2 ^ (n + 6 - d) < 2 * max 64 req"
proof -
  note m = mem_okD [OF assms(1)]
  define r where "r = max 64 req"
  have r: "64 \<le> r" "r \<le> 2 ^ (n + 5)"
    using assms(2) m(5) arena_pow [OF m(2)] by (auto simp: r_def)
  have "(2::nat) ^ (n + 5) \<le> 2 ^ 63" using m(3) by (intro power_increasing) auto
  then have "r \<le> 2 ^ 63" "0 < r" using r by linarith+
  then obtain k where k: "r \<le> 2 ^ k" "2 ^ k < 2 * r"
    using ceiling_exponent [of r] by blast
  have "2 ^ k < 2 * (2::nat) ^ (n + 5)" using k(2) r(2) by linarith
  then have "(2::nat) ^ k < 2 ^ Suc (n + 5)" by (simp only: power_Suc)
  then have kn: "k \<le> n + 5" using power_less_imp_less_exp [of 2 k "Suc (n + 5)"] by simp
  have "(2::nat) ^ 6 \<le> 2 ^ k" using k(1) r(1) by simp
  then have k6: "6 \<le> k" using power_le_imp_le_exp [of 2 6 k] by simp
  have "d = depth_for_size_loop (2 ^ (n + 5)) r 1"
    by (simp add: d_def depth_for_size_def BUDDY_ALLOC_ALIGN_def buddy_effective_memory_size_def m(7)
        r_def max_def)
  also have "\<dots> = 1 + (n + 5 - k)" using k kn m(3) by (intro depth_for_size_loop_eq) auto
  finally have d: "d = n + 6 - k" using kn by simp
  then have "n + 6 - d = k" using kn by simp
  then show "1 \<le> d" "d \<le> n" "max 64 req \<le> 2 ^ (n + 6 - d)" "2 ^ (n + 6 - d) < 2 * max 64 req"
    using k k6 kn d by (simp_all add: r_def [symmetric])
qed

subsection \<open>Addresses\<close>

definition arena_rep :: "nat \<Rightarrow> buddy \<Rightarrow> nat set \<Rightarrow> bool" where
  "arena_rep n b A \<longleftrightarrow> mem_ok n (memory_size b) \<and> tree_rep n (btree b) A \<and>
     0 < buddy_main b \<and> buddy_main b + 2 ^ (n + 5) < 2 ^ 64"

lemma arena_repD:
  assumes "arena_rep n b A"
  shows "mem_ok n (memory_size b)" "tree_rep n (btree b) A" "0 < buddy_main b"
    "buddy_main b + 2 ^ (n + 5) < 2 ^ 64" "tree_ok n (btree b)" "order_ok n" "1 \<le> n" "n \<le> 31"
    "alloc_wf n A"
  using assms mem_okD(1-3) tree_repD(1,4) by (auto simp: arena_rep_def)

lemma size_for_depth_eq:
  assumes "mem_ok n (memory_size b)" "node n i"
  shows "size_for_depth b (bit_length i) = bsize n i"
proof -
  note m = mem_okD [OF assms(1)]
  obtain d where d: "bit_length i = Suc d" "Suc d \<le> n"
    using node_depth [OF assms(2)] by (cases "bit_length i") auto
  have s: "sub64 (Suc d) 1 = d" using d m(3) by (simp add: sub64_small)
  have "(2::nat) ^ (n + 5) = 2 ^ (n + 5 - d) * 2 ^ d"
    using d(2) by (simp add: power_add [symmetric])
  then have "(2::nat) ^ (n + 5) div 2 ^ d = 2 ^ (n + 5 - d)" by simp
  then show ?thesis by (simp add: size_for_depth_def d m(7) s bsize_def del: One_nat_def)
qed

lemma address_for_position_eq:
  assumes "mem_ok n (memory_size b)" "node n i" "buddy_main b + 2 ^ (n + 5) < 2 ^ 64"
  shows "address_for_position b (pos_of i) = buddy_main b + boff n i"
proof -
  have "buddy_tree_index (pos_of i) = i - 2 ^ (bit_length i - 1)"
    using index_internal [OF mem_okD(1) [OF assms(1)], of "pos_of i"] assms(2)
    by (simp add: buddy_tree_index_def pos_of_wf)
  moreover have "boff n i < 2 ^ 64" "buddy_main b + boff n i < 2 ^ 64"
    using block_bound [OF assms(2)] assms(3) bsize_pos [of n i] by linarith+
  ultimately show ?thesis
    using size_for_depth_eq [OF assms(1,2)]
    by (simp add: address_for_position_def buddy_tree_depth_def mul64_small add64_small boff_def)
qed

lemma deepest_position_eq:
  assumes "arena_rep n b A" "x < 2 ^ (n + 5)"
  shows "deepest_position_for_offset b x = pos_of (leaf n x)"
proof -
  note a = arena_repD [OF assms(1)]
  have "sub64 n 1 = n - 1" "n - 1 < 32" using a(7,8) by (simp_all add: sub64_small)
  then have l: "shl32 (sub64 n 1) = 2 ^ (n - 1)" by (simp add: shl32_small)
  note lf = leaf_bounds [OF a(7) assms(2)]
  have "leaf n x < 2 ^ 31" using lf(1) pow2_bound31 [of "leaf n x" n] a(8) by (simp add: node_def)
  then have "add64 (2 ^ (n - 1)) (x div 64) = leaf n x" by (simp add: leaf_def add64_small)
  then show ?thesis using l lf tree_okD(2) [OF a(5)]
    by (simp add: deepest_position_for_offset_def buddy_tree_leftmost_child_def pos_of_def
        buddy_tree_leftmost_child_internal_def BUDDY_ALLOC_ALIGN_def)
qed

text \<open>From any leaf of an allocated block the climb ends at the block's node.\<close>

lemma climb_to_allocated:
  assumes "tree_rep n t A" "j \<in> A" "node n k" "below j k"
  shows "climb_to_status t (pos_of k) = pos_of j"
  using assms(3,4)
proof (induction k rule: less_induct)
  case (less k)
  note wf = tree_repD(4) [OF assms(1)]
  have j: "node n j" "0 < j" using wf assms(2) by (auto simp: alloc_wf_def node_def)
  have k: "0 < k" using less.prems(1) by (simp add: node_def)
  have st: "buddy_tree_status t (pos_of k) = astat A (height n k) k"
    using tree_repD(5) [OF assms(1) less.prems(1)] by (simp add: tree_rd_def)
  have v: "buddy_tree_valid t (pos_of k)"
    using valid_iff [OF tree_repD(1) [OF assms(1)], of "pos_of k"] less.prems(1) by (simp add: pos_of_wf)
  show ?case
  proof (cases "j = k")
    case True
    then have "buddy_tree_status t (pos_of k) \<noteq> 0"
      using st assms(2) height_pos [OF less.prems(1)] by (simp add: astat_full)
    then show ?thesis using True by (subst climb_to_status.simps) simp
  next
    case False
    have "a \<notin> A" if "below k a" for a
      using that False less.prems(2) below_trans [OF less.prems(2) that] wf assms(2)
        below_antisym [OF j(2) k] by (auto simp: alloc_wf_def)
    then have "buddy_tree_status t (pos_of k) = 0" using st astat_eq_0 [OF k] by simp
    moreover have up: "below j (k div 2)" using False less.prems(2) below_cases by blast
    then have "k \<noteq> 1" "k div 2 < k" using j(2) below_pos [of j "k div 2"] by auto
    moreover have "climb_to_status t (pos_of (k div 2)) = pos_of j"
      using less.IH [OF \<open>k div 2 < k\<close> node_half [OF less.prems(1) \<open>k \<noteq> 1\<close>] up] .
    ultimately show ?thesis
      using v parent_pos_of [OF tree_repD(2) [OF assms(1)] less.prems(1) \<open>k \<noteq> 1\<close>]
      by (subst climb_to_status.simps) simp
  qed
qed

lemma position_for_address_eq:
  assumes "arena_rep n b A" "j \<in> A" "x \<in> block n j"
  shows "position_for_address b (buddy_main b + x) = pos_of j"
proof -
  note a = arena_repD [OF assms(1)]
  have j: "node n j" using a(9) assms(2) by (simp add: alloc_wf_def)
  have x: "x < 2 ^ (n + 5)" using block_lt [OF j assms(3)] .
  have "sub64 (buddy_main b + x) (buddy_main b) = x"
    using a(4) x by (simp add: sub64_small)
  then show ?thesis
    using deepest_position_eq [OF assms(1) x] leaf_bounds [OF a(7) x] in_block [OF j x] assms(3)
      climb_to_allocated [OF a(2) assms(2)]
    by (simp add: position_for_address_def)
qed

subsection \<open>The contract of the allocator\<close>

text \<open>The virtual slots \<open>V\<close> cover exactly the bytes behind the end of the arena.\<close>

definition tail_cover :: "nat \<Rightarrow> nat \<Rightarrow> nat set \<Rightarrow> bool" where
  "tail_cover n msize V \<longleftrightarrow> (\<forall>v\<in>V. node n v) \<and> (\<Union>v\<in>V. block n v) = {msize..<2 ^ (n + 5)}"

definition buddy_rep :: "nat \<Rightarrow> buddy \<Rightarrow> nat set \<Rightarrow> bool" where
  "buddy_rep n b U \<longleftrightarrow>
     (\<exists>V. U \<inter> V = {} \<and> tail_cover n (memory_size b) V \<and> arena_rep n b (U \<union> V))"

text \<open>A block that could be handed out for a request: aligned, large enough, inside the arena
  and apart from the blocks already handed out.\<close>

definition usable :: "nat \<Rightarrow> buddy \<Rightarrow> nat set \<Rightarrow> nat \<Rightarrow> nat \<Rightarrow> bool" where
  "usable n b U req j \<longleftrightarrow> node n j \<and> req \<le> bsize n j \<and>
     boff n j + bsize n j \<le> memory_size b \<and> (\<forall>u\<in>U. block n u \<inter> block n j = {})"

lemma disjoint_tail:
  assumes "tail_cover n msize V" "node n j"
  shows "(\<forall>v\<in>V. block n v \<inter> block n j = {}) \<longleftrightarrow> boff n j + bsize n j \<le> msize"
proof -
  have "(\<forall>v\<in>V. block n v \<inter> block n j = {}) \<longleftrightarrow> (\<Union>v\<in>V. block n v) \<inter> block n j = {}" by blast
  also have "\<dots> \<longleftrightarrow> {msize..<2 ^ (n + 5)} \<inter> block n j = {}"
    using assms(1) by (simp add: tail_cover_def)
  also have "\<dots> \<longleftrightarrow> boff n j + bsize n j \<le> msize"
  proof
    assume e: "{msize..<2 ^ (n + 5)} \<inter> block n j = {}"
    have "0 < bsize n j" by simp
    then have "boff n j + bsize n j - 1 \<in> block n j" unfolding block_def atLeastLessThan_iff by linarith
    then have "boff n j + bsize n j - 1 < msize"
      using e block_lt [OF assms(2)] by (metis IntI atLeastLessThan_iff empty_iff leI)
    then show "boff n j + bsize n j \<le> msize" by linarith
  qed (auto simp: block_def)
  finally show ?thesis .
qed

lemma free_node_usable:
  assumes "tail_cover n (memory_size b) V" "alloc_wf n (U \<union> V)" "node n j"
  shows "free_node (U \<union> V) j \<longleftrightarrow>
    (\<forall>u\<in>U. block n u \<inter> block n j = {}) \<and> boff n j + bsize n j \<le> memory_size b"
  unfolding free_node_blocks [OF assms(2,3)] using disjoint_tail [OF assms(1,3)] by auto

lemma free_node_below: "free_node A j \<Longrightarrow> \<forall>a\<in>A. 0 < a \<Longrightarrow> 0 < j \<Longrightarrow> below j k \<Longrightarrow> free_node A k"
proof -
  assume f: "free_node A j" and pos: "\<forall>a\<in>A. 0 < a" and j: "0 < j" "below j k"
  show "free_node A k" unfolding free_node_def
  proof (intro ballI conjI notI)
    fix a assume a: "a \<in> A"
    show False if "below a k"
      using below_linear [of a j k] that a f pos j by (auto simp: free_node_def)
    show False if "below k a"
      using below_trans [OF j(2) that] a f by (auto simp: free_node_def)
  qed
qed

lemma leftmost_descendant:
  assumes "node n j" "bit_length j \<le> d" "d \<le> n"
  shows "\<exists>k. node n k \<and> bit_length k = d \<and> below j k"
proof -
  define k where "k = j * 2 ^ (d - bit_length j)"
  have j: "0 < j" using assms(1) by (simp add: node_def)
  have "k div 2 ^ (d - bit_length j) = j" by (simp add: k_def)
  then have b: "below j k" unfolding below_def by blast
  have "bit_length k = (d - bit_length j) + bit_length j"
    using bit_length_div [of "d - bit_length j" k] j by (simp add: k_def)
  then have "bit_length k = d" using assms(2) by simp
  then have "node n k \<and> bit_length k = d \<and> below j k"
    using b node_depth [OF assms(1)] assms(2,3) by (simp add: node_iff_depth)
  then show ?thesis by blast
qed

lemma bsize_le_iff: "node n i \<Longrightarrow> node n j \<Longrightarrow> bsize n i \<le> bsize n j \<longleftrightarrow> bit_length j \<le> bit_length i"
  using node_depth [of n i] node_depth [of n j] by (auto simp: bsize_def)

text \<open>A slot of the depth of a request is free exactly when some block can serve the request.\<close>

lemma slot_iff_usable:
  assumes "tail_cover n (memory_size b) V" "alloc_wf n (U \<union> V)" "mem_ok n (memory_size b)"
    and "req \<le> memory_size b" "d = depth_for_size b req"
  shows "(\<exists>j. free_slot n (U \<union> V) d j) \<longleftrightarrow> (\<exists>j. usable n b U req j)"
proof -
  note db = depth_for_size_bounds [OF assms(3,4), folded assms(5)]
  note fn = free_node_usable [OF assms(1,2)]
  have pos: "\<forall>a\<in>U \<union> V. 0 < a" using assms(2) by (auto simp: alloc_wf_def node_def)
  show ?thesis
  proof
    assume "\<exists>j. free_slot n (U \<union> V) d j"
    then obtain j where j: "node n j" "bit_length j = d" "free_node (U \<union> V) j"
      by (auto simp: free_slot_def)
    then have "req \<le> bsize n j" using db(3) by (simp add: bsize_def)
    then show "\<exists>j. usable n b U req j" using j fn [OF j(1)] by (auto simp: usable_def)
  next
    assume "\<exists>j. usable n b U req j"
    then obtain j where j: "usable n b U req j" ..
    then have nj: "node n j" "0 < j" and fr: "free_node (U \<union> V) j" and rq: "req \<le> bsize n j"
      using fn [of j] by (auto simp: usable_def node_def)
    have "bit_length j \<le> d"
    proof (rule ccontr)
      assume "\<not> bit_length j \<le> d"
      then have e: "Suc (n + 6 - bit_length j) \<le> n + 6 - d" "6 \<le> n + 6 - bit_length j"
        using node_depth [OF nj(1)] by auto
      have "2 * bsize n j = 2 ^ Suc (n + 6 - bit_length j)" by (simp add: bsize_def)
      also have "\<dots> \<le> 2 ^ (n + 6 - d)" using e(1) by (rule power_increasing) simp
      finally have "bsize n j < max 64 req" using db(4) by linarith
      moreover have "(2::nat) ^ 6 \<le> bsize n j" unfolding bsize_def using e(2) by (rule power_increasing) simp
      ultimately show False using rq by simp
    qed
    then obtain k where "node n k" "bit_length k = d" "below j k"
      using leftmost_descendant [OF nj(1) _ db(2)] by blast
    then show "\<exists>j. free_slot n (U \<union> V) d j"
      using free_node_below [OF fr pos nj(2)] by (auto simp: free_slot_def)
  qed
qed

subsection \<open>Allocation\<close>

lemma invalid_pos: "\<not> buddy_tree_valid t INVALID_POS"
  by (simp add: buddy_tree_valid_def INVALID_POS_def)

lemma buddy_main_btree [simp]: "buddy_main (b\<lparr>btree := t\<rparr>) = buddy_main b"
  by (simp add: buddy_main_def buddy_relative_mode_def)

lemma address_btree [simp]: "address_for_position (b\<lparr>btree := t\<rparr>) p = address_for_position b p"
  by (simp add: address_for_position_def size_for_depth_def)

lemma arena_rep_btree: "arena_rep n b A \<Longrightarrow> tree_rep n t A' \<Longrightarrow> arena_rep n (b\<lparr>btree := t\<rparr>) A'"
  by (simp add: arena_rep_def)

lemma malloc_arena:
  assumes "arena_rep n b A" "0 < req" "req \<le> memory_size b" "d = depth_for_size b req"
  shows "if \<exists>j. free_slot n A d j
    then \<exists>j b'. buddy_malloc (Some b) req = Some (buddy_main b + boff n j, Some b') \<and>
      free_slot n A d j \<and> arena_rep n b' (insert j A) \<and> (\<exists>t. b' = b\<lparr>btree := t\<rparr>) \<and>
      (buddy_is_left_biased b mod 256 \<noteq> 0 \<longrightarrow> (\<forall>j'. free_slot n A d j' \<longrightarrow> j \<le> j'))
    else buddy_malloc (Some b) req = Some (0, Some b)"
proof -
  note a = arena_repD [OF assms(1)]
  note db = depth_for_size_bounds [OF a(1) assms(3), folded assms(4)]
  obtain r where r: "buddy_tree_find_free (btree b) d (buddy_is_left_biased b) = Some r"
    "if \<exists>j. free_slot n A d j
     then \<exists>j. r = pos_of j \<and> free_slot n A d j \<and>
       (buddy_is_left_biased b mod 256 \<noteq> 0 \<longrightarrow> (\<forall>j'. free_slot n A d j' \<longrightarrow> j \<le> j'))
     else r = INVALID_POS"
    using find_free_rep [OF a(2) db(1,2), of "buddy_is_left_biased b"] by blast
  have m: "buddy_malloc (Some b) req =
      (if \<not> buddy_tree_valid (btree b) r then Some (0, Some b)
       else do { t \<leftarrow> buddy_tree_mark (btree b) r;
                 Some (address_for_position b r, Some (b\<lparr>btree := t\<rparr>)) })"
    using assms(2,3) r(1) unfolding assms(4) by (simp add: buddy_malloc_def Let_def)
  show ?thesis
  proof (cases "\<exists>j. free_slot n A d j")
    case False
    then show ?thesis using r(2) m by (simp add: invalid_pos)
  next
    case True
    then obtain j where j: "r = pos_of j" "free_slot n A d j"
      "buddy_is_left_biased b mod 256 \<noteq> 0 \<longrightarrow> (\<forall>j'. free_slot n A d j' \<longrightarrow> j \<le> j')"
      using r(2) by (auto simp del: One_nat_def)
    then have nj: "node n j" "free_node A j" by (simp_all add: free_slot_def)
    obtain t where t: "buddy_tree_mark (btree b) (pos_of j) = Some t" "tree_rep n t (insert j A)"
      using mark_rep [OF a(2) nj] by blast
    have v: "buddy_tree_valid (btree b) (pos_of j)"
      using valid_iff [OF a(5), of "pos_of j"] nj(1) by (simp add: pos_of_wf)
    have "buddy_malloc (Some b) req = Some (buddy_main b + boff n j, Some (b\<lparr>btree := t\<rparr>))"
      using m t(1) v by (simp add: j(1) address_for_position_eq [OF a(1) nj(1) a(4)])
    then show ?thesis using True j(2,3) arena_rep_btree [OF assms(1) t(2)] by auto
  qed
qed

lemma malloc_rep:
  assumes "buddy_rep n b U" "req' = max 1 req"
  shows "(\<exists>j b'. buddy_malloc (Some b) req = Some (buddy_main b + boff n j, Some b') \<and>
      usable n b U req' j \<and> bsize n j < 2 * max 64 req' \<and> j \<notin> U \<and>
      buddy_rep n b' (insert j U) \<and> (\<exists>t. b' = b\<lparr>btree := t\<rparr>)) \<or>
    buddy_malloc (Some b) req = Some (0, Some b) \<and> (\<nexists>j. usable n b U req' j)"
proof -
  obtain V where V: "U \<inter> V = {}" "tail_cover n (memory_size b) V" "arena_rep n b (U \<union> V)"
    using assms(1) by (auto simp: buddy_rep_def)
  note a = arena_repD [OF V(3)]
  have same: "buddy_malloc (Some b) req = buddy_malloc (Some b) req'"
    unfolding assms(2) by (simp add: buddy_malloc_def max_def)
  have r0: "0 < req'" using assms(2) by simp
  show ?thesis
  proof (cases "req' \<le> memory_size b")
    case False
    then have "buddy_malloc (Some b) req' = Some (0, Some b)"
      using r0 by (simp add: buddy_malloc_def)
    moreover have "\<not> usable n b U req' j" for j using False by (auto simp: usable_def)
    ultimately show ?thesis using same by simp
  next
    case True
    define d where "d = depth_for_size b req'"
    note db = depth_for_size_bounds [OF a(1) True, folded d_def]
    note ma = malloc_arena [OF V(3) r0 True d_def]
    note iff = slot_iff_usable [OF V(2) a(9) a(1) True d_def]
    show ?thesis
    proof (cases "\<exists>j. free_slot n (U \<union> V) d j")
      case False
      then show ?thesis using ma iff same by simp
    next
      case T: True
      then obtain j b' where j: "buddy_malloc (Some b) req' = Some (buddy_main b + boff n j, Some b')"
          "free_slot n (U \<union> V) d j" "arena_rep n b' (insert j (U \<union> V))" "\<exists>t. b' = b\<lparr>btree := t\<rparr>"
        using ma by (auto simp del: One_nat_def)
      have nj: "node n j" "bit_length j = d" "free_node (U \<union> V) j"
        using j(2) by (simp_all add: free_slot_def)
      have sz: "max 64 req' \<le> bsize n j" "bsize n j < 2 * max 64 req'"
        using db(3,4) nj(2) by (simp_all add: bsize_def)
      have us: "usable n b U req' j"
        using free_node_usable [OF V(2) a(9) nj(1)] nj sz(1) by (auto simp: usable_def)
      have "j \<notin> U \<union> V" using nj(3) below_refl [of j] unfolding free_node_def by blast
      then have "buddy_rep n b' (insert j U)"
        using V(1,2) j(3,4) unfolding buddy_rep_def by (auto intro!: exI [of _ V])
      then show ?thesis using j(1,4) us sz(2) same \<open>j \<notin> U \<union> V\<close> by auto
    qed
  qed
qed

subsection \<open>Release\<close>

lemma free_arena:
  assumes "arena_rep n b A" "j \<in> A" "x \<in> block n j" "x < memory_size b"
  shows "\<exists>t. buddy_free (Some b) (buddy_main b + x) = ok (Some (b\<lparr>btree := t\<rparr>)) \<and>
    arena_rep n (b\<lparr>btree := t\<rparr>) (A - {j})"
proof -
  note a = arena_repD [OF assms(1)]
  have j: "node n j" using a(9) assms(2) by (simp add: alloc_wf_def)
  have m: "memory_size b \<le> 2 ^ (n + 5)" using mem_okD(5) [OF a(1)] .
  then have "add64 (buddy_main b) (memory_size b) = buddy_main b + memory_size b"
    using a(4) by (simp add: add64_small)
  then have arena: "in_arena b (buddy_main b + x)" using assms(4) by (simp add: in_arena_def)
  have v: "buddy_tree_valid (btree b) (pos_of j)"
    using valid_iff [OF a(5), of "pos_of j"] j by (simp add: pos_of_wf)
  obtain t where t: "buddy_tree_release (btree b) (pos_of j) = Some t" "tree_rep n t (A - {j})"
    using release_rep [OF a(2) assms(2)] by blast
  have "buddy_free (Some b) (buddy_main b + x) = ok (Some (b\<lparr>btree := t\<rparr>))"
    using arena v t(1) a(3) by (simp add: buddy_free_def position_for_address_eq [OF assms(1-3)])
  then show ?thesis using arena_rep_btree [OF assms(1) t(2)] by blast
qed

lemma free_rep:
  assumes "buddy_rep n b U" "j \<in> U" "x \<in> block n j"
  shows "\<exists>t. buddy_free (Some b) (buddy_main b + x) = ok (Some (b\<lparr>btree := t\<rparr>)) \<and>
    buddy_rep n (b\<lparr>btree := t\<rparr>) (U - {j})"
proof -
  obtain V where V: "U \<inter> V = {}" "tail_cover n (memory_size b) V" "arena_rep n b (U \<union> V)"
    using assms(1) by (auto simp: buddy_rep_def)
  note a = arena_repD [OF V(3)]
  have j: "node n j" using a(9) assms(2) by (simp add: alloc_wf_def)
  have "\<forall>v\<in>V. block n v \<inter> block n j = {}"
  proof
    fix v assume v: "v \<in> V"
    then have "node n v" "\<not> below v j" "\<not> below j v"
      using a(9) assms(2) V(1) unfolding alloc_wf_def by blast+
    then show "block n v \<inter> block n j = {}" using block_disjoint j by blast
  qed
  then have "x < memory_size b" using disjoint_tail [OF V(2) j] assms(3) by (auto simp: block_def)
  then obtain t where t: "buddy_free (Some b) (buddy_main b + x) = ok (Some (b\<lparr>btree := t\<rparr>))"
      "arena_rep n (b\<lparr>btree := t\<rparr>) (U \<union> V - {j})"
    using free_arena [OF V(3) _ assms(3)] assms(2) by blast
  have "U \<union> V - {j} = (U - {j}) \<union> V" using V(1) assms(2) by blast
  then have "buddy_rep n (b\<lparr>btree := t\<rparr>) (U - {j})"
    using V(1,2) t(2) unfolding buddy_rep_def by (auto intro!: exI [of _ V])
  then show ?thesis using t(1) by blast
qed

subsection \<open>Virtual slots\<close>

lemma bsize_64: "node n i \<Longrightarrow> 64 dvd bsize n i \<and> 64 \<le> bsize n i"
proof -
  assume "node n i"
  then have "n + 6 - bit_length i = 6 + (n - bit_length i)" using node_depth [of n i] by simp
  then have "bsize n i = 64 * 2 ^ (n - bit_length i)" unfolding bsize_def by (simp only: power_add) simp
  then show ?thesis by simp
qed

lemma toggle_virtual_rep:
  assumes "mem_ok n (memory_size b)" "tree_rep n t A" "node n i" "free_node A i"
    and "0 < delta" "delta \<le> bsize n i" "64 dvd delta"
  shows "\<exists>t' V. toggle_virtual_loop b True t (pos_of i) delta = Some t' \<and> tree_rep n t' (A \<union> V) \<and>
    (\<forall>v\<in>V. node n v) \<and>
    (\<Union>v\<in>V. block n v) = {boff n i + bsize n i - delta..<boff n i + bsize n i}"
  using assms(2-)
proof (induction "n - bit_length i" arbitrary: t A i delta rule: less_induct)
  case less
  note m = mem_okD [OF assms(1)]
  have i: "0 < i" using less.prems(2) by (simp add: node_def)
  have pos: "\<forall>a\<in>A. 0 < a" using tree_repD(4) [OF less.prems(1)] by (auto simp: alloc_wf_def node_def)
  have sz: "size_for_depth b (buddy_tree_depth (pos_of i)) = bsize n i"
    using size_for_depth_eq [OF assms(1) less.prems(2)] by (simp add: buddy_tree_depth_def)
  note unroll = toggle_virtual_loop.simps [of b True t "pos_of i" delta]
  show ?case
  proof (cases "delta = bsize n i")
    case True
    obtain t' where "buddy_tree_mark t (pos_of i) = Some t'" "tree_rep n t' (insert i A)"
      using mark_rep [OF less.prems(1,2,3)] by blast
    then show ?thesis using True less.prems(2,4)
      by (intro exI [of _ t'] exI [of _ "{i}"]) (simp add: unroll [unfolded True] sz toggle_def block_def)
  next
    case False
    have inner: "bit_length i < n"
    proof (rule ccontr)
      assume "\<not> bit_length i < n"
      then have "bit_length i = n" using node_depth [OF less.prems(2)] by simp
      then have "bsize n i = 64" by (simp add: bsize_def)
      then show False using less.prems(4,5,6) False by (auto elim!: dvdE)
    qed
    note ch = child_pos_of [OF m(1) less.prems(2) inner]
    note bc = block_children [OF less.prems(2) inner]
    define half where "half = bsize n i div 2"
    note bc = bc [folded half_def]
    have half: "64 dvd half" "0 < half" using bsize_64 [OF ch(3)] by (simp_all add: bc)
    have down: "n - bit_length (2 * i) < n - bit_length i" "n - bit_length (2 * i + 1) < n - bit_length i"
      using inner bit_length_child [OF i] by simp_all
    have frR: "free_node A (2 * i + 1)" and frL: "free_node A (2 * i)"
      using free_node_below [OF less.prems(3) pos i] below_child [of i] below_refl by blast+
    show ?thesis
    proof (cases "delta \<le> half")
      case True
      then obtain t' V where IH: "toggle_virtual_loop b True t (pos_of (2 * i + 1)) delta = Some t'"
        "tree_rep n t' (A \<union> V)" "\<forall>v\<in>V. node n v"
        "(\<Union>v\<in>V. block n v) = {boff n i + half + half - delta..<boff n i + half + half}"
        using less.hyps [OF down(2) less.prems(1) ch(4) frR less.prems(4) _ less.prems(6)] bc by auto
      have "toggle_virtual_loop b True t (pos_of i) delta = Some t'"
        using True False less.prems(4) IH(1) by (simp add: unroll sz ch(2) half_def)
      moreover have e: "boff n i + half + half = boff n i + bsize n i" using bc(5) by simp
      ultimately show ?thesis using IH(2,3) IH(4) [unfolded e] by blast
    next
      case F: False
      obtain t1 where t1: "buddy_tree_mark t (pos_of (2 * i + 1)) = Some t1"
          "tree_rep n t1 (insert (2 * i + 1) A)"
        using mark_rep [OF less.prems(1) ch(4) frR] by blast
      have apart: "\<not> below (2 * i + 1) (2 * i)" "\<not> below (2 * i) (2 * i + 1)"
        using below_children_disjoint [OF i] below_refl by blast+
      have fr1: "free_node (insert (2 * i + 1) A) (2 * i)"
        using frL apart by (simp add: free_node_def)
      have delta: "half < delta" "delta < 2 * half"
        using F False less.prems(5) bc(5) by simp_all
      have pre: "0 < delta - half" "delta - half \<le> bsize n (2 * i)" "64 dvd delta - half"
        using less.prems(6) half(1) delta unfolding bc(3) by (simp_all add: dvd_diff_nat)
      obtain t' V where IH: "toggle_virtual_loop b True t1 (pos_of (2 * i)) (delta - half) = Some t'"
        "tree_rep n t' (insert (2 * i + 1) A \<union> V)" "\<forall>v\<in>V. node n v"
        "(\<Union>v\<in>V. block n v) = {boff n i + half - (delta - half)..<boff n i + half}"
        using less.hyps [OF down(1) t1(2) ch(3) fr1 pre] unfolding bc(1,3) by blast
      have "delta < 2 ^ 64"
      proof -
        have "delta \<le> 2 ^ (n + 5)" using less.prems(5) block_bound [OF less.prems(2)] by simp
        moreover have "(2::nat) ^ (n + 5) < 2 ^ 64" using m(3) by (intro power_strict_increasing) auto
        ultimately show ?thesis by linarith
      qed
      then have "sub64 delta half = delta - half" using delta by (simp add: sub64_small)
      then have run: "toggle_virtual_loop b True t (pos_of i) delta = Some t'"
        using F False less.prems(4) IH(1) t1(1)
        by (simp add: unroll sz ch(1,2) half_def [symmetric] toggle_def)
      have "(\<Union>v\<in>insert (2 * i + 1) V. block n v)
          = {boff n i + half..<boff n i + half + half} \<union> {boff n i + half - (delta - half)..<boff n i + half}"
        using IH(4) bc by (simp add: block_def)
      also have "\<dots> = {boff n i + 2 * half - delta..<boff n i + 2 * half}" using delta by auto
      finally show ?thesis using run IH(2,3) ch(4) bc(5)
        by (intro exI [of _ t'] exI [of _ "insert (2 * i + 1) V"]) simp
    qed
  qed
qed

lemma toggle_virtual_slots_rep:
  assumes "mem_ok n (memory_size b)" "tree_rep n (btree b) A" "memory_size b \<noteq> 2 ^ (n + 5) \<Longrightarrow> free_node A 3"
  shows "\<exists>t V. buddy_toggle_virtual_slots b True
      = Some (b\<lparr>virtual_slots := (2 ^ (n + 5) - memory_size b) div 64, btree := t\<rparr>) \<and>
    tree_rep n t (A \<union> V) \<and> tail_cover n (memory_size b) V"
proof -
  note m = mem_okD [OF assms(1)]
  have eff: "buddy_effective_memory_size b = 2 ^ (n + 5)"
    by (simp add: buddy_effective_memory_size_def m(7))
  show ?thesis
  proof (cases "2 ^ (n + 5) = memory_size b")
    case True
    then show ?thesis using assms(2) eff
      by (intro exI [of _ "btree b"] exI [of _ "{}"])
        (simp add: buddy_toggle_virtual_slots_def tail_cover_def)
  next
    case False
    define delta where "delta = 2 ^ (n + 5) - memory_size b"
    have n2: "1 < n"
    proof (rule ccontr)
      assume "\<not> 1 < n"
      then have "n = 1" using m(2) by simp
      then show False using False m(4,5,8) by (auto elim!: dvdE simp: mod_0_imp_dvd)
    qed
    have one: "node n 1" "bit_length 1 < n" using n2 by (simp_all add: node_iff_depth bit_length_pos)
    note ch = child_pos_of [OF m(1) one]
    have bs: "bsize n 1 = 2 ^ (n + 5)" "boff n 1 = 0" by (simp_all add: bsize_def boff_def bit_length_pos)
    note bc = block_children [OF one, unfolded bs]
    have d: "0 < delta" "delta \<le> bsize n (2 * 1 + 1)" "64 dvd delta"
      using False m(4-6) bc(4) n2 unfolding delta_def
      by (simp_all add: mod_0_imp_dvd dvd_diff_nat arena_pow [OF m(2)])
    have fr: "free_node A (2 * 1 + 1)" using assms(3) False by simp
    define b' where "b' = b\<lparr>virtual_slots := delta div 64\<rparr>"
    have b': "mem_ok n (memory_size b')" using assms(1) by (simp add: b'_def)
    obtain t V where tv: "toggle_virtual_loop b' True (btree b) (pos_of (2 * 1 + 1)) delta = Some t"
      "tree_rep n t (A \<union> V)" "\<forall>v\<in>V. node n v"
      "(\<Union>v\<in>V. block n v) = {boff n (2 * 1 + 1) + bsize n (2 * 1 + 1) - delta..<
        boff n (2 * 1 + 1) + bsize n (2 * 1 + 1)}"
      using toggle_virtual_rep [OF b' assms(2) ch(4) fr d] by blast
    have "boff n (2 * 1 + 1) + bsize n (2 * 1 + 1) = 2 ^ (n + 5)"
      using bc by linarith
    then have cover: "tail_cover n (memory_size b) V"
      using tv(3,4) m(5) by (simp add: tail_cover_def delta_def)
    have "(2::nat) ^ (n + 5) < 2 ^ 64" using m(3) by (intro power_strict_increasing) auto
    then have sub: "sub64 (2 ^ (n + 5)) (memory_size b) = delta"
      using m(5) by (simp add: sub64_small delta_def)
    show ?thesis
      using False eff tv(1,2) cover ch(2)
      by (intro exI [of _ t] exI [of _ V])
        (simp add: buddy_toggle_virtual_slots_def Let_def sub BUDDY_ALLOC_ALIGN_def
          delta_def [symmetric] root_pos_of b'_def)
  qed
qed

subsection \<open>Initialisation\<close>

lemma buddy_sizeof_pos: "mem_ok n msize \<Longrightarrow> buddy_sizeof msize \<noteq> 0"
proof -
  assume a: "mem_ok n msize"
  note m = mem_okD [OF a]
  have "64 \<le> msize" using m(4,8) by (auto elim!: dvdE simp: mod_0_imp_dvd)
  moreover have "padded_bytes n < 2 ^ 35" using bits_bytes_bound [OF m(1)] by (simp add: padded_bytes_def)
  ultimately show ?thesis using m(3,9) tree_sizeof_eq [OF m(1)]
    by (simp add: buddy_sizeof_def BUDDY_ALLOC_ALIGN_def add64_small)
qed

lemma init_buddy_rep:
  assumes "at \<noteq> 0" "main \<noteq> 0" "at \<noteq> main" "at mod 8 = 0" "main mod 8 = 0"
    and "msize < 2 ^ 64" "mem_ok n (msize - msize mod 64)" "main + 2 ^ (n + 5) < 2 ^ 64"
  shows "\<exists>b. buddy_init old at main msize = Some (Some b) \<and> buddy_rep n b {} \<and>
    memory_size b = msize - msize mod 64 \<and> buddy_main b = main \<and> buddy_is_left_biased b = 0 \<and> buddy_relative_mode b = 0 \<and>
    virtual_slots b = (2 ^ (n + 5) - memory_size b) div 64"
proof -
  define ms where "ms = msize - msize mod 64"
  note m = mem_okD [OF assms(7), folded ms_def]
  have trim: "(if msize mod BUDDY_ALLOC_ALIGN \<noteq> 0 then sub64 msize (msize mod BUDDY_ALLOC_ALIGN)
      else msize) = ms"
    using assms(6) by (simp add: ms_def BUDDY_ALLOC_ALIGN_def sub64_small)
  have n: "n mod 256 = n" using m(3) by simp
  define b0 where "b0 = old\<lparr>buddy_at := at, arena := main, memory_size := ms, buddy_flags := 0,
      buddy_free_bytes := ms, btree := buddy_tree_init (btree old) n\<rparr>"
  have b0: "memory_size b0 = ms" "tree_rep n (btree b0) {}"
    using init_rep [OF m(1)] by (simp_all add: b0_def)
  have "buddy_init old at main msize
      = (buddy_toggle_virtual_slots b0 True \<bind> (\<lambda>b. Some (Some b)))"
    using assms(1-5) buddy_sizeof_pos [OF assms(7)] trim
    by (simp add: buddy_init_def Let_def m(9) n b0_def ms_def [symmetric])
  moreover obtain t V where tv: "buddy_toggle_virtual_slots b0 True
      = Some (b0\<lparr>virtual_slots := (2 ^ (n + 5) - ms) div 64, btree := t\<rparr>)"
    "tree_rep n t V" "tail_cover n ms V"
    using toggle_virtual_slots_rep [of n b0 "{}"] b0 assms(7) ms_def by (auto simp: free_node_def)
  moreover define b where "b = b0\<lparr>virtual_slots := (2 ^ (n + 5) - ms) div 64, btree := t\<rparr>"
  moreover have "memory_size b = ms" "buddy_main b = main" "buddy_is_left_biased b = 0" "buddy_relative_mode b = 0" "btree b = t"
    "virtual_slots b = (2 ^ (n + 5) - ms) div 64"
    by (simp_all add: b_def b0_def buddy_main_def buddy_relative_mode_def buddy_is_left_biased_def)
  moreover have "buddy_rep n b {}"
    using tv(2,3) assms(2,8) m \<open>memory_size b = ms\<close> \<open>buddy_main b = main\<close> \<open>btree b = t\<close> assms(7)
    unfolding buddy_rep_def arena_rep_def by (auto intro!: exI [of _ V] simp: ms_def)
  ultimately show ?thesis by (simp add: ms_def)
qed

subsection \<open>Releasing twice\<close>

text \<open>The status of \<open>i\<close> itself is not touched by the propagation that starts at \<open>i\<close>.\<close>

lemma chain_keeps:
  assumes "tree_ok n t" "node n i" "node n k" "\<not> below k i \<or> k = i" "cur \<le> height n i"
  shows "tree_rd (chain tree_rd tree_wr t i cur) k = tree_rd t k"
  using assms
proof (induction i arbitrary: t cur rule: less_induct)
  case (less i)
  show ?case
  proof (cases "i = 1")
    case True
    then show ?thesis by (simp add: chain.simps)
  next
    case False
    have p: "node n (i div 2)" "\<not> i \<le> 1" "i div 2 < i" "i div 2 \<noteq> i"
      using less.prems(2) False node_half [OF less.prems(2) False] by (auto simp: node_def)
    note sib = sibling_facts [OF less.prems(2) False]
    define target where "target = target_parent cur (tree_rd t (sibling i))"
    have "tree_rd t (sibling i) \<le> height n i"
      using tree_rd_cell [OF less.prems(1) sib(1)] cell_bounds [OF less.prems(1) sib(1)] read_cell_le sib(2)
      by metis
    then have le: "target \<le> height n (i div 2)"
      using target_parent_le [OF less.prems(5)] height_half [OF less.prems(2) False] by (simp add: target_def)
    have k: "k \<noteq> i div 2" "\<not> below k (i div 2)"
      using less.prems(4) below_half [of k i] below_half [of "i div 2" i] below_refl [of "i div 2"] p(4)
        below_antisym [of i "i div 2"] p(1) less.prems(2) by (auto simp: node_def)
    have ok: "tree_ok n (tree_wr t (i div 2) target)" using less.prems(1) by (simp add: tree_wr_def)
    have "tree_rd (chain tree_rd tree_wr (tree_wr t (i div 2) target) (i div 2) target) k
        = tree_rd (tree_wr t (i div 2) target) k"
      using less.IH [OF p(3) ok p(1) less.prems(3) _ le] k by blast
    then show ?thesis
      using p(2) k tree_rd_wr [OF less.prems(1) p(1) less.prems(3) le] unfolding target_def
      by (subst chain.simps) (simp add: Let_def)
  qed
qed

lemma sibling_climb:
  assumes "arena_rep n b A" "node n i" "i \<noteq> 1" "free_node A i" "sibling i \<in> A" "x \<in> block n i"
  shows "position_for_address b (buddy_main b + x) = pos_of (i div 2)"
proof -
  note a = arena_repD [OF assms(1)]
  have x: "x < 2 ^ (n + 5)" using block_lt [OF assms(2,6)] .
  note p = node_half [OF assms(2,3)]
  have climb: "climb_to_status (btree b) (pos_of k) = pos_of (i div 2)" if "node n k" "below i k" for k
    using that
  proof (induction k rule: less_induct)
    case (less k)
    have kpos: "0 < k" "0 < i" using less.prems(1) assms(2) by (auto simp: node_def)
    have k1: "k \<noteq> 1"
    proof
      assume "k = 1"
      then obtain m where "1 div 2 ^ m = i" using less.prems(2) by (auto simp: below_def)
      then have "i \<le> 1" using div_le_dividend [of 1 "2 ^ m"] by simp
      then show False using kpos(2) assms(3) by simp
    qed
    have "a \<notin> A" if "below k a" for a
      using assms(4) below_trans [OF less.prems(2) that] by (auto simp: free_node_def)
    then have st: "buddy_tree_status (btree b) (pos_of k) = 0"
      using tree_repD(5) [OF a(2) less.prems(1)] astat_eq_0 [OF kpos(1)] by (simp add: tree_rd_def)
    have v: "buddy_tree_valid (btree b) (pos_of k)"
      using valid_iff [OF a(5), of "pos_of k"] less.prems(1) by (simp add: pos_of_wf)
    have up: "climb_to_status (btree b) (pos_of k) = climb_to_status (btree b) (pos_of (k div 2))"
      using st v parent_pos_of [OF a(6) less.prems(1) k1] by (subst climb_to_status.simps) simp
    show ?case
    proof (cases "k = i")
      case False
      then have "below i (k div 2)" using less.prems(2) below_cases [of i k] by simp
      then show ?thesis using up less.IH [of "k div 2"] node_half [OF less.prems(1) k1] kpos k1 by simp
    next
      case True
      have "below (i div 2) (sibling i)"
        using sibling_facts(4) [OF assms(2,3)] below_half [of "i div 2" "sibling i"] by simp
      moreover have "bit_length (sibling i) < bit_length (i div 2) + height n (i div 2)"
        using a(9) assms(5) node_depth [of n "sibling i"] node_depth [OF p] by (auto simp: alloc_wf_def height_def)
      ultimately have "astat A (height n (i div 2)) (i div 2) \<noteq> 0"
        using assms(5) astat_eq_0 [of "i div 2" A "height n (i div 2)"] p by (auto simp: node_def)
      then have "climb_to_status (btree b) (pos_of (i div 2)) = pos_of (i div 2)"
        using tree_repD(5) [OF a(2) p] by (subst climb_to_status.simps) (simp add: tree_rd_def)
      then show ?thesis using up True by simp
    qed
  qed
  have "sub64 (buddy_main b + x) (buddy_main b) = x" using a(4) x by (simp add: sub64_small)
  then show ?thesis
    using climb [of "leaf n x"] deepest_position_eq [OF assms(1) x] leaf_bounds [OF a(7) x]
      in_block [OF assms(2) x] assms(6)
    by (simp add: position_for_address_def)
qed

lemma double_free:
  assumes "arena_rep n b A" "node n i" "i \<noteq> 1" "free_node A i" "sibling i \<in> A" "x \<in> block n i"
    and "x < memory_size b"
  shows "\<exists>t. buddy_free (Some b) (buddy_main b + x) = ok (Some (b\<lparr>btree := t\<rparr>)) \<and>
    buddy_tree_status t (pos_of (i div 2)) = 0"
proof -
  note a = arena_repD [OF assms(1)]
  note p = node_half [OF assms(2,3)]
  let ?t = "tree_wr (btree b) (i div 2) 0"
  have ok: "tree_ok n ?t" using a(5) by (simp add: tree_wr_def)
  define t where "t = chain tree_rd tree_wr ?t (i div 2) 0"
  have rel: "buddy_tree_release (btree b) (pos_of (i div 2)) = Some t"
    using update_parent_chain_eq [OF ok p, of 0]
    by (simp add: buddy_tree_release_def Let_def tree_cell [OF a(5) p] tree_wr_def t_def)
  have "tree_rd t (i div 2) = tree_rd ?t (i div 2)" unfolding t_def by (rule chain_keeps [OF ok p p]) simp_all
  also have "\<dots> = 0" using tree_rd_wr [OF a(5) p p, of 0] by simp
  finally have st: "buddy_tree_status t (pos_of (i div 2)) = 0" by (simp add: tree_rd_def)
  have "memory_size b \<le> 2 ^ (n + 5)" using mem_okD(5) [OF a(1)] .
  then have "add64 (buddy_main b) (memory_size b) = buddy_main b + memory_size b"
    using a(4) by (simp add: add64_small)
  then have arena: "in_arena b (buddy_main b + x)" using assms(7) by (simp add: in_arena_def)
  have v: "buddy_tree_valid (btree b) (pos_of (i div 2))"
    using valid_iff [OF a(5), of "pos_of (i div 2)"] p by (simp add: pos_of_wf)
  show ?thesis
    using arena v a(3) rel st
    by (intro exI [of _ t]) (simp add: buddy_free_def sibling_climb [OF assms(1-6)])
qed

subsection \<open>Properties\<close>

text \<open>A concrete arena for the examples: 128 bytes at address 65536, metadata at 4096.\<close>

definition blank_tree :: buddy_tree where
  "blank_tree = \<lparr>upper_pos_bound = 0, size_for_order_offset = 0, tree_order = 0,
     tree_bits = (\<lambda>_. 0), tree_memo = (\<lambda>_. 0)\<rparr>"

definition blank_buddy :: buddy where
  "blank_buddy = \<lparr>buddy_at = 0, memory_size = 0, virtual_slots = 0, arena = 0, buddy_flags = 0,
     buddy_free_bytes = 0, btree = blank_tree\<rparr>"

lemma example_mem_ok: "mem_ok 2 128" "mem_ok 3 192"
  by (simp_all add: mem_ok_def order_ok_def)

lemma example_arena:
  "\<exists>b. buddy_init blank_buddy 4096 65536 128 = Some (Some b) \<and> buddy_rep 2 b {} \<and>
     memory_size b = 128 \<and> buddy_main b = 65536"
  using init_buddy_rep [of 4096 65536 128 2 blank_buddy] example_mem_ok by auto

text \<open>C4: \<open>buddy_malloc\<close> either returns the address of a block that is large enough, less than
  twice as large as needed, inside the arena and disjoint from every block handed out before,
  and the new state has exactly that block in addition; or it returns \<open>NULL\<close> with the state
  unchanged, and then no such block exists at all.\<close>

theorem malloc_correct:
  assumes "buddy_rep n b U"
  shows "(\<exists>j b'. buddy_malloc (Some b) req = Some (buddy_main b + boff n j, Some b') \<and>
      node n j \<and> j \<notin> U \<and> max 1 req \<le> bsize n j \<and> bsize n j < 2 * max 64 req \<and>
      boff n j + bsize n j \<le> memory_size b \<and> (\<forall>u\<in>U. block n u \<inter> block n j = {}) \<and>
      buddy_rep n b' (insert j U)) \<or>
    buddy_malloc (Some b) req = Some (0, Some b) \<and>
      (\<forall>j. node n j \<and> max 1 req \<le> bsize n j \<and> boff n j + bsize n j \<le> memory_size b \<longrightarrow>
        (\<exists>u\<in>U. block n u \<inter> block n j \<noteq> {}))"
proof -
  have m: "max 64 (max 1 req) = max 64 req" by simp
  show ?thesis using malloc_rep [OF assms refl, of req] unfolding usable_def m by blast
qed

theorem malloc_correct_witness:
  "\<exists>b. buddy_init blank_buddy 4096 65536 128 = Some (Some b) \<and>
     (\<exists>p b'. buddy_malloc (Some b) 64 = Some (p, Some b'))"
proof -
  obtain b where b: "buddy_init blank_buddy 4096 65536 128 = Some (Some b)" "buddy_rep 2 b {}"
    using example_arena by blast
  show ?thesis using malloc_correct [OF b(2), of 64] b(1) by blast
qed

text \<open>C5: \<open>buddy_free\<close> of any address inside a block that is handed out does not panic,
  returns that block and no other, and leaves the rest as it was.\<close>

theorem free_correct:
  assumes "buddy_rep n b U" "j \<in> U" "x \<in> block n j"
  shows "\<exists>b'. buddy_free (Some b) (buddy_main b + x) = ok (Some b') \<and> buddy_rep n b' (U - {j}) \<and>
    memory_size b' = memory_size b \<and> buddy_main b' = buddy_main b"
proof -
  obtain t where "buddy_free (Some b) (buddy_main b + x) = ok (Some (b\<lparr>btree := t\<rparr>))"
      "buddy_rep n (b\<lparr>btree := t\<rparr>) (U - {j})"
    using free_rep [OF assms] by blast
  then show ?thesis by (intro exI [of _ "b\<lparr>btree := t\<rparr>"]) simp
qed

lemma example_allocated:
  "\<exists>b j. buddy_rep 2 b {j} \<and> buddy_main b = 65536"
proof -
  obtain b where b: "buddy_rep 2 b {}" "memory_size b = 128" "buddy_main b = 65536"
    using example_arena by blast
  have "usable 2 b {} (max 1 1) 1"
    using b(2) by (simp add: usable_def node_def bsize_def boff_def bit_length_pos)
  then show ?thesis using malloc_rep [OF b(1) refl, of 1] b(3) by fastforce
qed

theorem free_correct_witness:
  "\<exists>b j b'. buddy_rep 2 b {j} \<and> buddy_free (Some b) (65536 + boff 2 j) = ok (Some b') \<and>
     buddy_rep 2 b' {}"
proof -
  obtain b j where b: "buddy_rep 2 b {j}" "buddy_main b = 65536" using example_allocated by blast
  show ?thesis using free_correct [OF b(1) _ block_nonempty] b by auto
qed

text \<open>C13: \<open>buddy_init\<close> on valid, aligned arguments returns an allocator for the arena trimmed to
  a multiple of 64 bytes, with nothing handed out, and with virtual slots over exactly the bytes
  between the end of the arena and the next power of two.\<close>

theorem init_correct:
  assumes "at \<noteq> 0" "main \<noteq> 0" "at \<noteq> main" "at mod 8 = 0" "main mod 8 = 0"
    and "64 \<le> msize" "msize \<le> 2 ^ 36" "main + 2 * msize \<le> 2 ^ 64"
  shows "\<exists>b n. buddy_init old at main msize = Some (Some b) \<and> buddy_rep n b {} \<and>
    memory_size b = msize - msize mod 64 \<and> buddy_main b = main \<and>
    2 ^ (n + 5) = ceiling_power_of_two (memory_size b) \<and>
    virtual_slots b = (2 ^ (n + 5) - memory_size b) div 64"
proof -
  define ms where "ms = msize - msize mod 64"
  have "64 dvd ms" unfolding ms_def by (rule dvd_minus_mod)
  moreover have "0 < ms" using assms(6) mod_less_divisor [of 64 msize] by (simp add: ms_def)
  ultimately have ms: "64 \<le> ms" "ms mod 64 = 0" "ms \<le> msize"
    by (simp_all add: dvd_imp_le ms_def)
  then obtain n where n: "mem_ok n ms" using mem_ok_exists [of ms] assms(7) by auto
  note m = mem_okD [OF n]
  have "main + 2 ^ (n + 5) < 2 ^ 64" using m(6) ms(3) assms(8) by linarith
  moreover have "msize < 2 ^ 64" using assms(7) by simp
  ultimately obtain b where "buddy_init old at main msize = Some (Some b)" "buddy_rep n b {}"
      "memory_size b = ms" "buddy_main b = main" "virtual_slots b = (2 ^ (n + 5) - memory_size b) div 64"
    using init_buddy_rep [OF assms(1-5), of msize n old] n unfolding ms_def by blast
  then show ?thesis using m(7) by (intro exI [of _ b] exI [of _ n]) (simp add: ms_def)
qed

theorem init_correct_witness:
  "\<exists>b n. buddy_init blank_buddy 4096 65536 200 = Some (Some b) \<and> buddy_rep n b {} \<and> memory_size b = 192"
  using init_correct [of 4096 65536 200 blank_buddy] by auto

text \<open>The address of an allocated position leads back to that position, from any byte of
  its block: \<open>position_for_address\<close> inverts \<open>address_for_position\<close>.\<close>

theorem address_round_trip:
  assumes "arena_rep n b A" "j \<in> A"
  shows "position_for_address b (address_for_position b (pos_of j)) = pos_of j \<and>
    (\<forall>x\<in>block n j. position_for_address b (buddy_main b + x) = pos_of j)"
proof -
  note a = arena_repD [OF assms(1)]
  have j: "node n j" using a(9) assms(2) by (simp add: alloc_wf_def)
  show ?thesis
    unfolding address_for_position_eq [OF a(1) j a(4)]
    using position_for_address_eq [OF assms] block_nonempty by blast
qed

theorem address_round_trip_witness:
  "\<exists>b A j. arena_rep 2 b A \<and> j \<in> A \<and> position_for_address b (address_for_position b (pos_of j)) = pos_of j"
proof -
  obtain b j where "buddy_rep 2 b {j}" using example_allocated by blast
  then obtain V where "arena_rep 2 b ({j} \<union> V)" by (auto simp: buddy_rep_def)
  then show ?thesis using address_round_trip [of 2 b "{j} \<union> V" j] by blast
qed

text \<open>\<open>depth_for_size\<close> picks the deepest level whose blocks can hold the request.\<close>

theorem depth_for_size_correct:
  assumes "mem_ok n (memory_size b)" "req \<le> memory_size b"
  shows "1 \<le> depth_for_size b req \<and> depth_for_size b req \<le> n \<and>
    max 64 req \<le> size_for_depth b (depth_for_size b req) \<and>
    size_for_depth b (depth_for_size b req) < 2 * max 64 req"
proof -
  define d where "d = depth_for_size b req"
  note db = depth_for_size_bounds [OF assms, folded d_def]
  obtain i where i: "node n i" "bit_length i = d"
    using leftmost_descendant [of n 1 d] db(1,2) mem_okD(2) [OF assms(1)]
    by (auto simp: node_iff_depth bit_length_pos)
  have "size_for_depth b d = 2 ^ (n + 6 - d)"
    using size_for_depth_eq [OF assms(1) i(1)] i(2) by (simp add: bsize_def)
  then show ?thesis using db unfolding d_def by simp
qed

theorem depth_for_size_correct_witness:
  "64 \<le> size_for_depth (blank_buddy\<lparr>memory_size := 128\<rparr>) (depth_for_size (blank_buddy\<lparr>memory_size := 128\<rparr>) 40)"
  using depth_for_size_correct [of 2 "blank_buddy\<lparr>memory_size := 128\<rparr>" 40] example_mem_ok by simp

text \<open>Releasing an address twice corrupts the tree. When the block of \<open>i\<close> is free and its
  buddy is handed out, \<open>buddy_free\<close> of an address in the block of \<open>i\<close> does not fail: it
  releases the common parent, whose status becomes free although the buddy is still in use.\<close>

theorem double_free_releases_parent:
  assumes "arena_rep n b A" "node n i" "i \<noteq> 1" "free_node A i" "sibling i \<in> A" "x \<in> block n i"
    and "x < memory_size b"
  shows "\<exists>b'. buddy_free (Some b) (buddy_main b + x) = ok (Some b') \<and>
    buddy_tree_status (btree b') (pos_of (i div 2)) = 0 \<and>
    block n (sibling i) \<subseteq> block n (i div 2)"
proof -
  note p = node_half [OF assms(2,3)] and sib = sibling_facts [OF assms(2,3)]
  have "below (i div 2) (sibling i)"
    using sib(4) below_half [of "i div 2" "sibling i"] by simp
  then have "block n (sibling i) \<subseteq> block n (i div 2)" by (rule block_mono [OF p sib(1)])
  moreover obtain t where "buddy_free (Some b) (buddy_main b + x) = ok (Some (b\<lparr>btree := t\<rparr>))"
      "buddy_tree_status t (pos_of (i div 2)) = 0"
    using double_free [OF assms] by blast
  ultimately show ?thesis by (intro exI [of _ "b\<lparr>btree := t\<rparr>"]) simp
qed

lemma example_half:
  "\<exists>b j. arena_rep 2 b {j} \<and> memory_size b = 128 \<and> buddy_main b = 65536 \<and> node 2 j \<and> j \<noteq> 1"
proof -
  obtain b where b: "buddy_rep 2 b {}" "memory_size b = 128" "buddy_main b = 65536"
    using example_arena by blast
  have "usable 2 b {} (max 1 64) 1"
    using b(2) by (simp add: usable_def node_def bsize_def boff_def bit_length_pos)
  then obtain j t where j: "usable 2 b {} (max 1 64) j" "bsize 2 j < 128"
      "buddy_rep 2 (b\<lparr>btree := t\<rparr>) {j}"
    using malloc_rep [OF b(1) refl, of 64] by fastforce
  have "j \<noteq> 1" using j(2) by (auto simp: bsize_def bit_length_pos)
  obtain V where V: "tail_cover 2 128 V" "arena_rep 2 (b\<lparr>btree := t\<rparr>) ({j} \<union> V)"
    using j(3) b(2) by (auto simp: buddy_rep_def)
  have "V = {}" using V(1) block_nonempty [of 2] by (fastforce simp: tail_cover_def)
  then show ?thesis using V(2) b(2,3) j(1) \<open>j \<noteq> 1\<close>
    by (intro exI [of _ "b\<lparr>btree := t\<rparr>"] exI [of _ j]) (simp add: usable_def)
qed

theorem double_free_releases_parent_witness:
  "\<exists>b i. sibling i \<in> {2, 3} \<and> arena_rep 2 b {sibling i} \<and>
     (\<exists>b'. buddy_free (Some b) (65536 + boff 2 i) = ok (Some b') \<and>
       buddy_tree_status (btree b') (pos_of (i div 2)) = 0)"
proof -
  obtain b j where b: "arena_rep 2 b {j}" "memory_size b = 128" "buddy_main b = 65536" "node 2 j" "j \<noteq> 1"
    using example_half by blast
  then have j: "j = 2 \<or> j = 3" by (auto simp: node_def)
  define i where "i = sibling j"
  have i: "node 2 i" "i \<noteq> 1" "sibling i = j" using j by (auto simp: i_def sibling_def node_def)
  note s = sibling_facts [OF b(4,5)]
  have "free_node {j} i" using s(5,6) by (simp add: free_node_def i_def)
  moreover have "boff 2 i < memory_size b" using block_lt [OF i(1) block_nonempty] b(2) by simp
  ultimately show ?thesis
    using double_free_releases_parent [OF b(1) i(1,2) _ _ block_nonempty] b j i(3)
    by (intro exI [of _ b] exI [of _ i]) auto
qed

end
