(* ===== verification/BuddyWalk.thy ===== *)
theory BuddyWalk
  imports BuddySpec
begin

text \<open>
  The walks over the arena: \<open>buddy_tree_walk\<close> with the two loops that use it,
  \<open>buddy_arena_free_size\<close> and \<open>buddy_walk\<close> (\<open>src/mem/Buddy.cpp\<close>). Both visit the tree from left to
  right; what they compute is stated in terms of the blocks that are handed out.
\<close>

subsection \<open>Steps of the walk\<close>

definition at_node :: "nat \<Rightarrow> bool \<Rightarrow> buddy_tree_walk_state" where
  "at_node i up = \<lparr>starting_pos = pos_of 1, current_pos = pos_of i, going_up = up, walk_done = False\<rparr>"

lemma at_node_sel [simp]:
  "current_pos (at_node i up) = pos_of i" "going_up (at_node i up) = up"
  "walk_done (at_node i up) = False" "starting_pos (at_node i up) = pos_of 1"
  "(at_node i up)\<lparr>going_up := up'\<rparr> = at_node i up'" "(at_node i up)\<lparr>current_pos := pos_of j\<rparr> = at_node j up"
  by (simp_all add: at_node_def)

lemma walk_root_state: "buddy_tree_walk_state_root = at_node 1 False"
  by (simp add: buddy_tree_walk_state_root_def at_node_def root_pos_of)

lemma left_of_leaf:
  assumes "tree_ok n t" "node n i" "bit_length i = n"
  shows "\<not> buddy_tree_valid t (buddy_tree_left_child (pos_of i))"
proof -
  have n: "n \<le> 31" "0 < i" using tree_okD(1) [OF assms(1)] assms(2) by (simp_all add: order_ok_def node_def)
  have "i < 2 ^ n" using assms(2) by (simp add: node_def)
  then have "i < 2147483648" using n(1) by (rule pow2_bound31)
  then have "mul64 i 2 = 2 * i" by (simp add: mul64_small)
  moreover have "2 ^ n \<le> 2 * i" using bit_length_bounds [OF n(2)] assms(3) n(2)
    by (cases n) (simp_all add: Suc_le_eq)
  ultimately show ?thesis using tree_okD(3) [OF assms(1)]
    by (simp add: buddy_tree_valid_def buddy_tree_left_child_def)
qed

lemma left_of_inner:
  assumes "tree_ok n t" "node n i" "bit_length i < n"
  shows "buddy_tree_valid t (buddy_tree_left_child (pos_of i))"
  using valid_iff [OF assms(1), of "pos_of (2 * i)"] child_pos_of [OF tree_okD(1) [OF assms(1)] assms(2,3)]
  by (simp add: pos_of_wf)

lemma right_adjacent_of_left:
  assumes "order_ok n" "node n i"
  shows "buddy_tree_right_adjacent (pos_of (2 * i)) = pos_of (2 * i + 1)"
proof -
  have i: "0 < i" "i < 2 ^ n" "n \<le> 31" using assms by (simp_all add: node_def order_ok_def)
  have "i < 2147483648" using i(2,3) by (rule pow2_bound31)
  then have "add64 (2 * i) 1 = 2 * i + 1" by (simp add: add64_small)
  moreover have "2 * i + 1 = (2 * i) XOR (1 :: nat)" by (simp add: xor_Suc_0_eq)
  then have "(2 * i + 1) XOR (2 * i) = (1 :: nat)"
    by (simp only: xor.commute [of "2 * i" 1] xor.assoc xor_self_eq xor.right_neutral)
  ultimately show ?thesis using i(1)
    by (simp add: buddy_tree_right_adjacent_def pos_of_def bit_length_double)
qed

lemma walk_loop_root: "walk_loop t (at_node 1 True) = Some ((at_node 1 False)\<lparr>walk_done := True\<rparr>)"
  by (subst walk_loop.simps) (simp add: walk_body_def at_node_def)

lemma walk_loop_left:
  assumes "order_ok n" "node n i"
  shows "walk_loop t (at_node (2 * i) True) = Some (at_node (2 * i + 1) False)"
  using assms(2) right_adjacent_of_left [OF assms]
  by (subst walk_loop.simps) (simp add: walk_body_def node_def)

lemma walk_loop_right:
  assumes "order_ok n" "node n (2 * i + 1)" "0 < i"
  shows "walk_loop t (at_node (2 * i + 1) True) = walk_loop t (at_node i True)"
  using assms parent_pos_of [OF assms(1,2)]
  by (subst walk_loop.simps) (simp add: walk_body_def)

lemma walk_loop_down:
  assumes "tree_ok n t" "node n i"
  shows "walk_loop t (at_node i False) =
    (if bit_length i < n then Some (at_node (2 * i) False) else walk_loop t (at_node i True))"
proof (cases "bit_length i < n")
  case True
  then show ?thesis using left_of_inner [OF assms True] child_pos_of(1) [OF tree_okD(1) [OF assms(1)] assms(2) True]
    by (subst walk_loop.simps) (simp add: walk_body_def)
next
  case False
  then have "bit_length i = n" using node_depth [OF assms(2)] by simp
  then show ?thesis using left_of_leaf [OF assms] False
    by (subst walk_loop.simps) (simp add: walk_body_def)
qed

text \<open>
  A loop over the walk goes on from a state by taking a step; \<open>ascend\<close> is how it goes on when it
  leaves a node for good.
\<close>

definition ascend :: "buddy_tree \<Rightarrow> (buddy_tree_walk_state \<Rightarrow> 'r option) \<Rightarrow> 'r option \<Rightarrow> nat \<Rightarrow> 'r option" where
  "ascend t go stop i = do {
     (more, state) \<leftarrow> buddy_tree_walk t (at_node i True);
     if more then go state else stop
   }"

lemma ascend_simps:
  assumes "order_ok n"
  shows "ascend t go stop 1 = stop"
    and "node n i \<Longrightarrow> ascend t go stop (2 * i) = go (at_node (2 * i + 1) False)"
    and "node n (2 * i + 1) \<Longrightarrow> 0 < i \<Longrightarrow> ascend t go stop (2 * i + 1) = ascend t go stop i"
  by (simp_all add: ascend_def buddy_tree_walk_def walk_loop_root walk_loop_left [OF assms] walk_loop_right [OF assms]
      del: One_nat_def add_Suc_right)

lemma walk_down:
  assumes "tree_ok n t" "node n i"
  shows "do { (more, state) \<leftarrow> buddy_tree_walk t (at_node i False); if more then go state else stop } =
    (if bit_length i < n then go (at_node (2 * i) False) else ascend t go stop i)"
  using walk_loop_down [OF assms] by (simp add: ascend_def buddy_tree_walk_def)

text \<open>What the two loops read at a node.\<close>

lemma walk_status:
  assumes "tree_rep n t A" "node n i"
  shows "buddy_tree_status t (pos_of i) = astat A (height n i) i"
    and "add64 (sub64 (buddy_tree_order t) (bit_length i)) 1 = height n i"
proof -
  show "buddy_tree_status t (pos_of i) = astat A (height n i) i"
    using tree_repD(5) [OF assms] by (simp add: tree_rd_def)
  have "n \<le> 31" "bit_length i \<le> n" using tree_repD(2) [OF assms(1)] node_depth [OF assms(2)]
    by (simp_all add: order_ok_def)
  then show "add64 (sub64 (buddy_tree_order t) (bit_length i)) 1 = height n i"
    using tree_okD(2) [OF tree_repD(1) [OF assms(1)]]
    by (simp add: buddy_tree_order_def height_def sub64_small add64_small)
qed

lemma height_children:
  assumes "node n i" "bit_length i < n"
  shows "height n i = Suc (height n (2 * i))" "height n (2 * i + 1) = height n (2 * i)"
    "node n (2 * i)" "node n (2 * i + 1)"
proof -
  have i: "0 < i" using assms(1) by (simp add: node_def)
  then have "bit_length (2 * i) = Suc (bit_length i)" "bit_length (2 * i + 1) = Suc (bit_length i)"
    using bit_length_double [of i] by simp_all
  then show "height n i = Suc (height n (2 * i))" "height n (2 * i + 1) = height n (2 * i)"
    "node n (2 * i)" "node n (2 * i + 1)"
    using assms(2) by (simp_all only: height_def node_iff_depth) simp_all
qed

subsection \<open>The free memory\<close>

fun free_bytes :: "nat \<Rightarrow> nat set \<Rightarrow> nat \<Rightarrow> nat \<Rightarrow> nat" where
  "free_bytes n A 0 i = 0"
| "free_bytes n A (Suc h) i =
     (if i \<in> A then 0
      else if astat A (Suc h) i = 0 then bsize n i
      else free_bytes n A h (2 * i) + free_bytes n A h (2 * i + 1))"

lemma target_parent_full: "l \<le> h \<Longrightarrow> r \<le> h \<Longrightarrow> target_parent l r = Suc h \<Longrightarrow> l = h \<and> r = h"
  by (cases "l = 0 \<and> r = 0") (auto simp: target_parent_def split: if_splits)

lemma free_bytes_full: "astat A h i = h \<Longrightarrow> free_bytes n A h i = 0"
proof (induction h arbitrary: i)
  case (Suc h)
  show ?case
  proof (cases "i \<in> A")
    case False
    then have "astat A h (2 * i) = h" "astat A h (2 * i + 1) = h"
      using Suc.prems target_parent_full [OF astat_le [of A h "2 * i"] astat_le [of A h "2 * i + 1"]] by simp_all
    then show ?thesis using Suc.IH Suc.prems False by simp
  qed simp
qed simp

lemma free_bytes_inner:
  "i \<notin> A \<Longrightarrow> astat A (Suc h) i \<noteq> 0 \<Longrightarrow>
    free_bytes n A (Suc h) i = free_bytes n A h (2 * i) + free_bytes n A h (2 * i + 1)"
  by auto

lemma alloc_finite: "alloc_wf n A \<Longrightarrow> finite A"
  by (rule finite_subset [of _ "{..<2 ^ n}"]) (auto simp: alloc_wf_def node_def)

definition under :: "nat set \<Rightarrow> nat \<Rightarrow> nat set" where
  "under A i = {a \<in> A. below i a}"

lemma under_allocated: "alloc_wf n A \<Longrightarrow> i \<in> A \<Longrightarrow> under A i = {i}"
  by (auto simp: under_def alloc_wf_def)

lemma under_children:
  assumes "0 < i" "i \<notin> A"
  shows "under A i = under A (2 * i) \<union> under A (2 * i + 1)" "under A (2 * i) \<inter> under A (2 * i + 1) = {}"
  using below_down [OF assms(1)] below_child [of i] below_children_disjoint [OF assms(1)] assms(2)
  by (auto simp: under_def)

lemma under_leaf: "node n i \<Longrightarrow> bit_length i = n \<Longrightarrow> alloc_wf n A \<Longrightarrow> i \<notin> A \<Longrightarrow> under A i = {}"
  using below_depth [of i] node_depth [of n] below_unique [of i _ _]
  by (auto simp: under_def alloc_wf_def node_def) (metis below_refl le_antisym)

lemma under_root:
  assumes "alloc_wf n A"
  shows "under A 1 = A"
proof -
  have "below 1 j" if "0 < j" for j :: nat
    using that
  proof (induction j rule: less_induct)
    case (less j)
    then show ?case using less.IH [of "j div 2"] below_half [of 1 j] by (cases "j = 1") simp_all
  qed
  then show ?thesis using assms by (auto simp: under_def alloc_wf_def node_def)
qed

lemma root_node: "1 \<le> n \<Longrightarrow> node n 1 \<and> height n 1 = n"
  using bit_length_pos [of 1] by (simp add: node_iff_depth height_def)

lemma under_free:
  assumes "alloc_wf n A" "node n i" "astat A (height n i) i = 0"
  shows "under A i = {}"
proof -
  have i: "0 < i" using assms(2) by (simp add: node_def)
  have "bit_length j < bit_length i + height n i" if "j \<in> A" for j
  proof -
    have "bit_length j \<le> n" using that assms(1) node_depth [of n j] by (simp add: alloc_wf_def)
    then show ?thesis using node_depth [OF assms(2)] by (simp add: height_def)
  qed
  then show ?thesis using assms(3) unfolding astat_eq_0 [OF i] under_def by blast
qed

lemma free_bytes_sum:
  assumes "alloc_wf n A" "node n i" "height n i = h"
  shows "free_bytes n A h i + (\<Sum>a\<in>under A i. bsize n a) = bsize n i"
  using assms(2,3)
proof (induction h arbitrary: i)
  case 0
  then show ?case using height_pos [of n i] by simp
next
  case (Suc h)
  have i: "0 < i" using Suc.prems(1) by (simp add: node_def)
  consider "i \<in> A" | "i \<notin> A" "astat A (Suc h) i = 0" | "i \<notin> A" "astat A (Suc h) i \<noteq> 0" by blast
  then show ?case
  proof cases
    case 1
    then show ?thesis by (simp add: under_allocated [OF assms(1)])
  next
    case 2
    then show ?thesis using under_free [OF assms(1) Suc.prems(1)] Suc.prems(2) by simp
  next
    case 3
    have len: "bit_length i < n"
    proof (rule ccontr)
      assume "\<not> bit_length i < n"
      then have "h = 0" using Suc.prems node_depth [of n i] by (simp add: height_def)
      then show False using 3 by (simp add: target_parent_def)
    qed
    note c = height_children [OF Suc.prems(1) len]
    have l: "free_bytes n A h (2 * i) + (\<Sum>a\<in>under A (2 * i). bsize n a) = bsize n i div 2"
      and r: "free_bytes n A h (2 * i + 1) + (\<Sum>a\<in>under A (2 * i + 1). bsize n a) = bsize n i div 2"
      using Suc.IH [OF c(3)] Suc.IH [OF c(4)] c(1,2) Suc.prems(2) block_children(3,4) [OF Suc.prems(1) len]
      by simp_all
    have "finite (under A j)" for j using alloc_finite [OF assms(1)] by (simp add: under_def)
    then have "(\<Sum>a\<in>under A i. bsize n a) = (\<Sum>a\<in>under A (2 * i). bsize n a) + (\<Sum>a\<in>under A (2 * i + 1). bsize n a)"
      unfolding under_children(1) [OF i 3(1)] using under_children(2) [OF i 3(1)]
      by (intro sum.union_disjoint) simp_all
    moreover have "free_bytes n A (Suc h) i = free_bytes n A h (2 * i) + free_bytes n A h (2 * i + 1)"
      by (rule free_bytes_inner [OF 3])
    ultimately show ?thesis using l r block_children(5) [OF Suc.prems(1) len] by (simp del: free_bytes.simps)
  qed
qed

lemma free_size_loop_eq:
  assumes "mem_ok n (memory_size b)" "tree_rep n (btree b) A" "node n i" "height n i = h"
    and "result + free_bytes n A h i < 2 ^ 64"
  shows "free_size_loop b (at_node i False) result =
    ascend (btree b) (\<lambda>s. free_size_loop b s (result + free_bytes n A h i)) (Some (result + free_bytes n A h i)) i"
  using assms(3-)
proof (induction h arbitrary: i result)
  case 0
  then show ?case using height_pos [of n i] by simp
next
  case (Suc h)
  note ok = tree_repD(1,2) [OF assms(2)]
  note st = walk_status [OF assms(2) Suc.prems(1)]
  let ?s = "astat A (Suc h) i"
  consider (full) "?s = Suc h" | (free) "?s = 0" | (partly) "?s \<noteq> Suc h" "?s \<noteq> 0" by blast
  then show ?case
  proof cases
    case full
    then show ?thesis using st Suc.prems(2) free_bytes_full [OF full]
      by (subst free_size_loop.simps) (simp add: ascend_def)
  next
    case free
    then have "i \<notin> A" using astat_full [of i A "Suc h"] by auto
    then have "free_bytes n A (Suc h) i = bsize n i" using free by simp
    then show ?thesis using st Suc.prems(2,3) free size_for_depth_eq [OF assms(1) Suc.prems(1)]
      by (subst free_size_loop.simps) (simp add: ascend_def add64_small Let_def cong del: if_weak_cong)
  next
    case partly
    have i: "i \<notin> A" using partly(1) astat_full [of i A "Suc h"] by auto
    have len: "bit_length i < n"
    proof (rule ccontr)
      assume "\<not> bit_length i < n"
      then have "h = 0" using Suc.prems node_depth [of n i] by (simp add: height_def)
      then show False using partly(2) i by (simp add: target_parent_def)
    qed
    note c = height_children [OF Suc.prems(1) len]
    let ?l = "free_bytes n A h (2 * i)" and ?r = "free_bytes n A h (2 * i + 1)"
    have fb: "free_bytes n A (Suc h) i = ?l + ?r" by (rule free_bytes_inner [OF i partly(2)])
    have small: "result + ?l < 2 ^ 64" "result + ?l + ?r < 2 ^ 64"
      using Suc.prems(3) unfolding fb by simp_all
    have h: "height n (2 * i) = h" "height n (2 * i + 1) = h" using c(1,2) Suc.prems(2) by simp_all
    have "free_size_loop b (at_node i False) result = free_size_loop b (at_node (2 * i) False) result"
      using st Suc.prems(2) partly walk_down [OF ok(1) Suc.prems(1), of "\<lambda>s. free_size_loop b s result"] len
      by (subst free_size_loop.simps) simp
    also have "\<dots> = free_size_loop b (at_node (2 * i + 1) False) (result + ?l)"
      unfolding Suc.IH [OF c(3) h(1) small(1)] by (rule ascend_simps(2) [OF ok(2) Suc.prems(1)])
    also have "\<dots> = ascend (btree b) (\<lambda>s. free_size_loop b s (result + ?l + ?r)) (Some (result + ?l + ?r)) i"
      unfolding Suc.IH [OF c(4) h(2) small(2)]
      by (rule ascend_simps(3) [OF ok(2) c(4)]) (use Suc.prems(1) in \<open>simp add: node_def\<close>)
    finally show ?thesis by (simp only: fb add.assoc)
  qed
qed

lemma allocated_blocks_apart: "alloc_wf n A \<Longrightarrow> i \<in> A \<Longrightarrow> j \<in> A \<Longrightarrow> i \<noteq> j \<Longrightarrow> block n i \<inter> block n j = {}"
  unfolding alloc_wf_def by (metis block_disjoint)

lemma tail_bytes:
  assumes "tail_cover n msize V" "alloc_wf n V" "msize \<le> 2 ^ (n + 5)"
  shows "(\<Sum>v\<in>V. bsize n v) = 2 ^ (n + 5) - msize"
proof -
  have "card (\<Union>v\<in>V. block n v) = (\<Sum>v\<in>V. card (block n v))"
  proof (rule card_UN_disjoint [OF alloc_finite [OF assms(2)]])
    show "\<forall>v\<in>V. finite (block n v)" by (simp add: block_def)
    show "\<forall>v\<in>V. \<forall>w\<in>V. v \<noteq> w \<longrightarrow> block n v \<inter> block n w = {}"
      using allocated_blocks_apart [OF assms(2)] by blast
  qed
  then show ?thesis using assms(1) by (simp add: tail_cover_def block_def)
qed

text \<open>The free memory that the walk over the tree adds up is what the arena has left: its size less
  the sizes of the blocks handed out. The walk ends.\<close>

theorem arena_free_size_correct:
  assumes "buddy_rep n b U"
  shows "buddy_arena_free_size b = Some (memory_size b - (\<Sum>u\<in>U. bsize n u)) \<and>
    (\<Sum>u\<in>U. bsize n u) \<le> memory_size b"
proof -
  obtain V where V: "U \<inter> V = {}" "tail_cover n (memory_size b) V" "arena_rep n b (U \<union> V)"
    using assms by (auto simp: buddy_rep_def)
  note a = arena_repD [OF V(3)] and m = mem_okD [OF arena_repD(1) [OF V(3)]]
  have root: "node n 1" "height n 1 = n" using root_node [OF a(7)] by simp_all
  have whole: "bsize n 1 = 2 ^ (n + 5)" using bit_length_pos [of 1] by (simp add: bsize_def)
  have under: "under (U \<union> V) 1 = U \<union> V" by (rule under_root [OF a(9)])
  have "finite U" "finite V" using alloc_finite [OF a(9)] by simp_all
  then have "(\<Sum>u\<in>U \<union> V. bsize n u) = (\<Sum>u\<in>U. bsize n u) + (\<Sum>v\<in>V. bsize n v)"
    using V(1) by (rule sum.union_disjoint)
  moreover have "(\<Sum>v\<in>V. bsize n v) = 2 ^ (n + 5) - memory_size b"
    using tail_bytes [OF V(2) _ m(5)] a(9) by (simp add: alloc_wf_def)
  ultimately have sum: "free_bytes n (U \<union> V) n 1 + (\<Sum>u\<in>U. bsize n u) = memory_size b"
    using free_bytes_sum [OF a(9) root] m(5) by (simp only: under whole)
  have "free_bytes n (U \<union> V) n 1 < 2 ^ 64"
    using sum a(4) m(5) by linarith
  then have "buddy_arena_free_size b = Some (free_bytes n (U \<union> V) n 1)"
    using free_size_loop_eq [OF a(1,2) root, of 0] ascend_simps(1) [OF a(6)]
    by (simp add: buddy_arena_free_size_def walk_root_state)
  then show ?thesis using sum by simp
qed

theorem arena_free_size_correct_witness:
  "\<exists>b. buddy_rep 2 b {} \<and> buddy_arena_free_size b = Some 128"
proof -
  obtain b where b: "buddy_rep 2 b {}" "memory_size b = 128" using example_arena by blast
  then show ?thesis using arena_free_size_correct [OF b(1)] by auto
qed

subsection \<open>Visiting the blocks\<close>

text \<open>The allocated nodes below \<open>i\<close>, from left to right.\<close>

fun in_order :: "nat set \<Rightarrow> nat \<Rightarrow> nat \<Rightarrow> nat list" where
  "in_order A 0 i = []"
| "in_order A (Suc h) i = (if i \<in> A then [i] else in_order A h (2 * i) @ in_order A h (2 * i + 1))"

text \<open>What calling \<open>fp\<close> on a list of blocks gives: it stops at the first pointer returned.\<close>

primrec visit :: "('ctx \<Rightarrow> nat \<Rightarrow> nat \<Rightarrow> nat \<times> 'ctx) \<Rightarrow> (nat \<times> nat) list \<Rightarrow> 'ctx \<Rightarrow> nat \<times> 'ctx" where
  "visit fp [] ctx = (0, ctx)"
| "visit fp (x # xs) ctx = (case fp ctx (fst x) (snd x) of (r, ctx) \<Rightarrow> if r \<noteq> 0 then (r, ctx) else visit fp xs ctx)"

definition precedes :: "nat \<Rightarrow> nat \<Rightarrow> nat \<Rightarrow> bool" where
  "precedes n i j \<longleftrightarrow> boff n i + bsize n i \<le> boff n j"

lemma in_order_set:
  assumes "alloc_wf n A" "node n i" "height n i = h"
  shows "set (in_order A h i) = under A i"
  using assms(2,3)
proof (induction h arbitrary: i)
  case 0
  then show ?case using height_pos [of n i] by simp
next
  case (Suc h)
  show ?case
  proof (cases "i \<in> A")
    case True
    then show ?thesis by (simp add: under_allocated [OF assms(1)])
  next
    case False
    have i: "0 < i" using Suc.prems(1) by (simp add: node_def)
    show ?thesis
    proof (cases "bit_length i < n")
      case True
      note c = height_children [OF Suc.prems(1) True]
      show ?thesis using Suc.IH [OF c(3)] Suc.IH [OF c(4)] c(1,2) Suc.prems(2) False under_children(1) [OF i False]
        by simp
    next
      case leaf: False
      then have len: "bit_length i = n" using node_depth [OF Suc.prems(1)] by simp
      then have "h = 0" using Suc.prems(2) by (simp add: height_def)
      then show ?thesis using under_leaf [OF Suc.prems(1) len assms(1) False] False by simp
    qed
  qed
qed

lemma under_range:
  assumes "alloc_wf n A" "node n i" "a \<in> under A i"
  shows "boff n i \<le> boff n a" "boff n a + bsize n a \<le> boff n i + bsize n i"
proof -
  have "block n a \<subseteq> block n i" using assms block_mono [of n i a] by (simp add: under_def alloc_wf_def)
  then show "boff n i \<le> boff n a" "boff n a + bsize n a \<le> boff n i + bsize n i"
    using bsize_pos [of n a] unfolding block_def by (auto simp: ivl_subset)
qed

lemma in_order_sorted:
  assumes "alloc_wf n A" "node n i" "height n i = h"
  shows "sorted_wrt (precedes n) (in_order A h i)"
  using assms(2,3)
proof (induction h arbitrary: i)
  case (Suc h)
  show ?case
  proof (cases "i \<in> A \<or> h = 0")
    case False
    have len: "bit_length i < n" using False Suc.prems node_depth [of n i] by (auto simp: height_def)
    note c = height_children [OF Suc.prems(1) len]
    have h: "height n (2 * i) = h" "height n (2 * i + 1) = h" using c(1,2) Suc.prems(2) by simp_all
    have "precedes n a b" if "a \<in> set (in_order A h (2 * i))" "b \<in> set (in_order A h (2 * i + 1))" for a b
    proof -
      have "boff n a + bsize n a \<le> boff n (2 * i) + bsize n (2 * i)"
        using under_range(2) [OF assms(1) c(3)] that(1) in_order_set [OF assms(1) c(3) h(1)] by simp
      also have "\<dots> = boff n (2 * i + 1)" using block_children [OF Suc.prems(1) len] by simp
      also have "\<dots> \<le> boff n b"
        using under_range(1) [OF assms(1) c(4)] that(2) in_order_set [OF assms(1) c(4) h(2)] by simp
      finally show ?thesis by (simp add: precedes_def)
    qed
    then show ?thesis using Suc.IH [OF c(3) h(1)] Suc.IH [OF c(4) h(2)] False by (simp add: sorted_wrt_append)
  qed auto
qed simp

text \<open>The loop of \<open>buddy_walk\<close> over a list of blocks: a block behind the end of the arena ends it.\<close>

primrec run_blocks ::
  "nat \<Rightarrow> buddy \<Rightarrow> ('ctx \<Rightarrow> nat \<Rightarrow> nat \<Rightarrow> nat \<times> 'ctx) \<Rightarrow> nat list \<Rightarrow> 'ctx \<Rightarrow>
   ('ctx \<Rightarrow> (nat \<times> 'ctx) option) \<Rightarrow> (nat \<times> 'ctx) option" where
  "run_blocks n b fp [] ctx k = k ctx"
| "run_blocks n b fp (j # js) ctx k =
     (if boff n j + bsize n j > memory_size b then Some (0, ctx)
      else case fp ctx (buddy_main b + boff n j) (bsize n j) of
        (r, ctx) \<Rightarrow> if r \<noteq> 0 then Some (r, ctx) else run_blocks n b fp js ctx k)"

lemma run_blocks_append:
  "run_blocks n b fp (xs @ ys) ctx k = run_blocks n b fp xs ctx (\<lambda>ctx. run_blocks n b fp ys ctx k)"
  by (induction xs arbitrary: ctx) (simp_all split: prod.split)

lemma run_blocks_visit:
  assumes "\<forall>u\<in>set us. boff n u + bsize n u \<le> memory_size b"
    and "\<forall>v\<in>set vs. boff n v + bsize n v > memory_size b"
  shows "run_blocks n b fp (us @ vs) ctx (\<lambda>ctx. Some (0, ctx)) =
    Some (visit fp (map (\<lambda>u. (buddy_main b + boff n u, bsize n u)) us) ctx)"
  using assms
proof (induction us arbitrary: ctx)
  case Nil
  then show ?case by (cases vs) simp_all
next
  case (Cons u us)
  then show ?case by (cases "fp ctx (buddy_main b + boff n u) (bsize n u)") auto
qed

lemma astat_below_allocated:
  assumes "alloc_wf n A" "i \<in> A" "below i j" "i \<noteq> j"
  shows "astat A h j = 0"
proof -
  have i: "node n i" "0 < i" using assms(1,2) by (auto simp: alloc_wf_def node_def)
  have j: "0 < j" using below_pos [OF i(2) assms(3)] .
  have "k \<notin> A" if "below j k" for k
  proof
    assume "k \<in> A"
    then have "i = k" using assms(1,2) below_trans [OF assms(3) that] by (auto simp: alloc_wf_def)
    then show False using below_antisym [OF i(2) j assms(3)] that assms(4) by simp
  qed
  then show ?thesis by (simp add: astat_eq_0 [OF j])
qed

lemma walk_free:
  assumes "tree_rep n (btree b) A" "node n i" "astat A (height n i) i = 0"
  shows "buddy_walk_loop b fp ctx (at_node i False) =
    ascend (btree b) (buddy_walk_loop b fp ctx) (Some (0, ctx)) i"
  using walk_status [OF assms(1,2)] assms(3)
  by (subst buddy_walk_loop.simps) (simp add: buddy_walk_visit_def ascend_def)

lemma walk_inside:
  assumes "tree_rep n (btree b) A" "node n i" "i \<in> A"
  shows "do { (more, state) \<leftarrow> buddy_tree_walk (btree b) (at_node i False);
      if more then buddy_walk_loop b fp ctx state else Some (0, ctx) } =
    ascend (btree b) (buddy_walk_loop b fp ctx) (Some (0, ctx)) i"
proof (cases "bit_length i < n")
  case False
  then show ?thesis by (simp add: walk_down [OF tree_repD(1) [OF assms(1)] assms(2)])
next
  case True
  note ok = tree_repD(1,2,4) [OF assms(1)] and c = height_children [OF assms(2) True]
  have i: "0 < i" using assms(2) by (simp add: node_def)
  have zero: "astat A h (2 * i) = 0" "astat A h (2 * i + 1) = 0" for h
    using astat_below_allocated [OF ok(3) assms(3)] below_child [of i] i by simp_all
  have "buddy_walk_loop b fp ctx (at_node (2 * i) False) = buddy_walk_loop b fp ctx (at_node (2 * i + 1) False)"
    unfolding walk_free [OF assms(1) c(3) zero(1)] by (rule ascend_simps(2) [OF ok(2) assms(2)])
  also have "\<dots> = ascend (btree b) (buddy_walk_loop b fp ctx) (Some (0, ctx)) i"
    unfolding walk_free [OF assms(1) c(4) zero(2)] by (rule ascend_simps(3) [OF ok(2) c(4) i])
  finally show ?thesis using True by (simp add: walk_down [OF ok(1) assms(2)])
qed

lemma visit_allocated:
  assumes "arena_rep n b A" "i \<in> A"
  shows "buddy_walk_visit b fp ctx (at_node i False) =
    (if boff n i + bsize n i > memory_size b then Inl (0, ctx)
     else case fp ctx (buddy_main b + boff n i) (bsize n i) of
       (r, ctx) \<Rightarrow> if r \<noteq> 0 then Inl (r, ctx) else Inr (ctx, at_node i False))"
proof -
  note a = arena_repD [OF assms(1)] and m = mem_okD [OF arena_repD(1) [OF assms(1)]]
  have i: "node n i" "0 < i" using a(9) assms(2) by (auto simp: alloc_wf_def node_def)
  have full: "astat A (height n i) i = height n i" "0 < height n i"
    using astat_full [OF assms(2)] height_pos [OF i(1)] by auto
  have left: "\<not> (buddy_tree_valid (btree b) (buddy_tree_left_child (pos_of i)) \<and>
      buddy_tree_status (btree b) (buddy_tree_left_child (pos_of i)) \<noteq> 0)"
  proof (cases "bit_length i < n")
    case True
    note c = child_pos_of [OF a(6) i(1) True]
    show ?thesis using walk_status(1) [OF a(2) c(3)] astat_below_allocated [OF a(9) assms(2), of "2 * i"]
        below_child(1) [of i "2 * i"] i(2) by (simp add: c(1))
  next
    case False
    then have "bit_length i = n" using node_depth [OF i(1)] by simp
    then show ?thesis using left_of_leaf [OF a(5) i(1)] by simp
  qed
  have depth: "bit_length i \<noteq> 0" using i(2) by simp
  have size: "buddy_effective_memory_size b div 2 ^ sub64 (bit_length i) 1 = bsize n i"
    using size_for_depth_eq [OF a(1) i(1)] depth
    by (simp add: size_for_depth_def buddy_effective_memory_size_def)
  have addr: "address_for_position b (pos_of i) = buddy_main b + boff n i"
    by (rule address_for_position_eq [OF a(1) i(1) a(4)])
  have "boff n i + bsize n i \<le> 2 ^ (n + 5)" by (rule block_bound [OF i(1)])
  then have off: "add64 (sub64 (buddy_main b + boff n i) (buddy_main b)) (bsize n i) = boff n i + bsize n i"
    using a(4) by (simp add: sub64_small add64_small)
  show ?thesis
    using walk_status [OF a(2) i(1)] full left
    by (auto simp add: buddy_walk_visit_def Let_def size addr off split: prod.split simp del: One_nat_def)
qed

lemma walk_loop_eq:
  assumes "arena_rep n b A" "node n i" "height n i = h"
  shows "buddy_walk_loop b fp ctx (at_node i False) =
    run_blocks n b fp (in_order A h i) ctx (\<lambda>ctx. ascend (btree b) (buddy_walk_loop b fp ctx) (Some (0, ctx)) i)"
  using assms(2,3)
proof (induction h arbitrary: i ctx)
  case 0
  then show ?case using height_pos [of n i] by simp
next
  case (Suc h)
  note a = arena_repD [OF assms(1)]
  have i: "0 < i" using Suc.prems(1) by (simp add: node_def)
  show ?case
  proof (cases "i \<in> A")
    case True
    show ?thesis
      using True
      by (subst buddy_walk_loop.simps)
        (simp add: visit_allocated [OF assms(1) True] walk_inside [OF a(2) Suc.prems(1) True] split: prod.split)
  next
    case out: False
    show ?thesis
    proof (cases "astat A (Suc h) i = 0")
      case True
      have "in_order A (Suc h) i = []"
        using in_order_set [OF a(9) Suc.prems] under_free [OF a(9) Suc.prems(1)] True Suc.prems(2) by simp
      then show ?thesis using walk_free [OF a(2) Suc.prems(1)] True Suc.prems(2) by simp
    next
      case False
      have len: "bit_length i < n"
      proof (rule ccontr)
        assume "\<not> bit_length i < n"
        then have "h = 0" using Suc.prems node_depth [of n i] by (simp add: height_def)
        then show False using False out by simp
      qed
      note c = height_children [OF Suc.prems(1) len] and p = child_pos_of [OF a(6) Suc.prems(1) len]
      have h: "height n (2 * i) = h" "height n (2 * i + 1) = h" using c(1,2) Suc.prems(2) by simp_all
      have "astat A h (2 * i) = h" if "astat A (Suc h) i = Suc h"
        using target_parent_full [OF astat_le [of A h "2 * i"] astat_le [of A h "2 * i + 1"]] that out by simp
      moreover have "0 < h" using height_pos [OF c(3)] h(1) by simp
      ultimately have "buddy_walk_visit b fp ctx (at_node i False) = Inr (ctx, at_node i False)"
        using walk_status [OF a(2) Suc.prems(1)] walk_status(1) [OF a(2) p(3)] left_of_inner [OF a(5) Suc.prems(1) len]
          Suc.prems(2) h(1) False
        by (auto simp: buddy_walk_visit_def Let_def p(1) simp del: astat.simps)
      then have "buddy_walk_loop b fp ctx (at_node i False) = buddy_walk_loop b fp ctx (at_node (2 * i) False)"
        using len by (subst buddy_walk_loop.simps) (simp add: walk_down [OF a(5) Suc.prems(1)])
      also have "\<dots> = run_blocks n b fp (in_order A h (2 * i)) ctx
          (\<lambda>ctx. buddy_walk_loop b fp ctx (at_node (2 * i + 1) False))"
        unfolding Suc.IH [OF c(3) h(1)] ascend_simps(2) [OF a(6) Suc.prems(1)] ..
      also have "\<dots> = run_blocks n b fp (in_order A h (2 * i)) ctx
          (\<lambda>ctx. run_blocks n b fp (in_order A h (2 * i + 1)) ctx
            (\<lambda>ctx. ascend (btree b) (buddy_walk_loop b fp ctx) (Some (0, ctx)) i))"
        unfolding Suc.IH [OF c(4) h(2)] ascend_simps(3) [OF a(6) c(4) i] ..
      finally show ?thesis using out by (simp add: run_blocks_append)
    qed
  qed
qed

lemma tail_behind:
  assumes "tail_cover n msize V" "u \<in> V" "msize \<le> 2 ^ (n + 5)"
  shows "msize \<le> boff n u" "msize < boff n u + bsize n u"
proof -
  have "boff n u \<in> {msize..<2 ^ (n + 5)}" using assms(1,2) block_nonempty [of n u] by (auto simp: tail_cover_def)
  then show "msize \<le> boff n u" "msize < boff n u + bsize n u"
    using bsize_pos [of n u] by (simp, unfold atLeastLessThan_iff, linarith)
qed

lemma precedes_irrefl [simp]: "\<not> precedes n i i"
  using bsize_pos [of n i] by (simp add: precedes_def)

lemma precedes_distinct: "sorted_wrt (precedes n) xs \<Longrightarrow> distinct xs"
  by (induction xs) auto

text \<open>In a list sorted by address the blocks inside the arena come before the virtual ones.\<close>

lemma precedes_split:
  assumes "sorted_wrt (precedes n) xs" "\<forall>x\<in>set xs. P x \<longrightarrow> boff n x + bsize n x \<le> msize"
    "\<forall>x\<in>set xs. \<not> P x \<longrightarrow> msize \<le> boff n x"
  shows "xs = filter P xs @ filter (\<lambda>x. \<not> P x) xs"
  using assms
proof (induction xs)
  case (Cons x xs)
  show ?case
  proof (cases "P x")
    case False
    have "\<not> P y" if "y \<in> set xs" for y
    proof
      assume "P y"
      then have "boff n y + bsize n y \<le> boff n x" using Cons.prems(2,3) False that by fastforce
      moreover have "boff n x + bsize n x \<le> boff n y" using Cons.prems(1) that by (simp add: precedes_def)
      ultimately show False using bsize_pos [of n x] bsize_pos [of n y] by linarith
    qed
    then show ?thesis using False by (simp add: filter_id_conv)
  qed (use Cons in simp)
qed simp

text \<open>C15: \<open>buddy_walk\<close> ends and calls the function it is given exactly on the blocks handed out, each once
  with its address and size, in the order of their addresses, and stops at the first pointer the
  function returns, which it returns too; it never shows the virtual slots behind the arena.\<close>

theorem walk_correct:
  assumes "buddy_rep n b U"
  shows "\<exists>us. set us = U \<and> sorted_wrt (\<lambda>i j. boff n i + bsize n i \<le> boff n j) us \<and> distinct us \<and>
    buddy_walk (Some b) (Some fp) ctx =
      Some (visit fp (map (\<lambda>u. (buddy_main b + boff n u, bsize n u)) us) ctx)"
proof -
  obtain V where V: "U \<inter> V = {}" "tail_cover n (memory_size b) V" "arena_rep n b (U \<union> V)"
    using assms by (auto simp: buddy_rep_def)
  note a = arena_repD [OF V(3)] and m = mem_okD [OF arena_repD(1) [OF V(3)]]
  have root: "node n 1" "height n 1 = n" using root_node [OF a(7)] by simp_all
  define xs where "xs = in_order (U \<union> V) n 1"
  have xs: "set xs = U \<union> V" "sorted_wrt (precedes n) xs"
    using in_order_set [OF a(9) root] in_order_sorted [OF a(9) root] under_root [OF a(9)] by (simp_all add: xs_def)
  have inside: "boff n u + bsize n u \<le> memory_size b" if "u \<in> U" for u
  proof -
    have u: "node n u" using that a(9) by (simp add: alloc_wf_def)
    have "\<forall>v\<in>V. block n v \<inter> block n u = {}"
      using that V(1) allocated_blocks_apart [OF a(9)] by blast
    then show ?thesis using disjoint_tail [OF V(2) u] by simp
  qed
  let ?us = "filter (\<lambda>x. x \<in> U) xs" and ?vs = "filter (\<lambda>x. x \<notin> U) xs"
  have split: "xs = ?us @ ?vs"
    using xs inside tail_behind(1) [OF V(2) _ m(5)] by (intro precedes_split [of n _ _ "memory_size b"]) auto
  have sorted: "sorted_wrt (precedes n) ?us" using xs(2) by (simp add: sorted_wrt_filter)
  have "buddy_walk (Some b) (Some fp) ctx = run_blocks n b fp (?us @ ?vs) ctx (\<lambda>ctx. Some (0, ctx))"
    using walk_loop_eq [OF V(3) root, of fp ctx] split
    by (simp add: buddy_walk_def walk_root_state xs_def ascend_simps(1) [OF a(6)] del: One_nat_def)
  also have "\<dots> = Some (visit fp (map (\<lambda>u. (buddy_main b + boff n u, bsize n u)) ?us) ctx)"
    using inside tail_behind(2) [OF V(2) _ m(5)] xs(1) by (intro run_blocks_visit) auto
  finally have "buddy_walk (Some b) (Some fp) ctx = \<dots>" .
  moreover have "distinct ?us"
    by (rule precedes_distinct [OF sorted])
  moreover have "set ?us = U" using xs(1) by auto
  ultimately show ?thesis using sorted unfolding precedes_def by blast
qed

text \<open>A callback that notes what it is shown and never stops the walk.\<close>

theorem walk_correct_witness:
  "\<exists>b j. buddy_rep 2 b {j} \<and> buddy_walk (Some b) (Some (\<lambda>seen a s. (0, seen @ [(a, s)]))) [] =
     Some (0, [(65536 + boff 2 j, bsize 2 j)])"
proof -
  obtain b j where b: "buddy_rep 2 b {j}" "buddy_main b = 65536" using example_allocated by blast
  obtain us where us: "set us = {j}" "distinct us" "buddy_walk (Some b) (Some (\<lambda>seen a s. (0, seen @ [(a, s)]))) [] =
      Some (visit (\<lambda>seen a s. (0, seen @ [(a, s)])) (map (\<lambda>u. (buddy_main b + boff 2 u, bsize 2 u)) us) [])"
    using walk_correct [OF b(1), of "\<lambda>seen a s. (0, seen @ [(a, s)])" "[]"] by (elim exE conjE) (rule that)
  have "length us = 1" using distinct_card [OF us(2)] us(1) by simp
  then have "us = [j]" using us(1) by (cases us) simp_all
  then show ?thesis using us(3) b(1) by (intro exI [of _ b] exI [of _ j]) (simp add: b(2))
qed

end
