(* ===== verification/BuddyCopy.thy ===== *)
theory BuddyCopy
  imports BuddyWalk
begin

text \<open>
  The operations of the allocator that touch the memory of the blocks: \<open>buddy_calloc\<close> and
  \<open>buddy_realloc\<close> (\<open>src/mem/Buddy.cpp\<close>), with the byte loops of \<open>memset\<close> and of the file's own
  \<open>memmove\<close>.
\<close>

subsection \<open>The byte loops\<close>

lemma memset_eq:
  assumes "dest + k < 2 ^ 64"
  shows "memset m dest v k = (\<lambda>a. if dest \<le> a \<and> a < dest + k then v else m a)"
proof -
  have "memset_loop k m dest v = (\<lambda>a. if dest \<le> a \<and> a < dest + k then v else m a)"
    using assms
  proof (induction k arbitrary: m dest)
    case (Suc k)
    then have "add64 dest 1 = Suc dest" by (simp add: add64_small)
    then show ?case using Suc by (auto simp: fun_eq_iff)
  qed (auto simp: fun_eq_iff)
  then show ?thesis by (simp add: memset_def)
qed

text \<open>The loop copies forwards: that is right when the destination does not begin inside the source.\<close>

lemma memmove_eq:
  assumes "dest \<le> src \<or> src + k \<le> dest" "dest + k < 2 ^ 64" "src + k < 2 ^ 64"
  shows "memmove m dest src k = (\<lambda>a. if dest \<le> a \<and> a < dest + k then m (src + (a - dest)) else m a)"
proof -
  have "memmove_loop k m dest src = (\<lambda>a. if dest \<le> a \<and> a < dest + k then m (src + (a - dest)) else m a)"
    using assms
  proof (induction k arbitrary: m dest src)
    case (Suc k)
    have step: "add64 dest 1 = Suc dest" "add64 src 1 = Suc src" using Suc.prems(2,3) by (simp_all add: add64_small)
    have "memmove_loop k (m(dest := m src)) (Suc dest) (Suc src) =
        (\<lambda>a. if Suc dest \<le> a \<and> a < Suc dest + k then (m(dest := m src)) (Suc src + (a - Suc dest)) else (m(dest := m src)) a)"
      using Suc.prems by (intro Suc.IH) auto
    also have "\<dots> = (\<lambda>a. if dest \<le> a \<and> a < dest + Suc k then m (src + (a - dest)) else m a)"
    proof (rule ext)
      fix a
      have "Suc src + (a - Suc dest) = src + (a - dest)" "dest < a + 1" if "dest < a" using that by linarith+
      then show "(if Suc dest \<le> a \<and> a < Suc dest + k then (m(dest := m src)) (Suc src + (a - Suc dest))
          else (m(dest := m src)) a) = (if dest \<le> a \<and> a < dest + Suc k then m (src + (a - dest)) else m a)"
        using Suc.prems(1) by (cases "dest < a") auto
    qed
    finally show ?case by (simp only: memmove_loop.simps step)
  qed (auto simp: fun_eq_iff)
  then show ?thesis by (simp add: memmove_def)
qed

subsection \<open>calloc\<close>

lemma calloc_call:
  "buddy_calloc m bp members width =
    (let c = (if members = 0 \<or> width = 0 then 1 else members); s = (if members = 0 \<or> width = 0 then 1 else width)
     in if mul64 c s div c \<noteq> s then Some (0, m, bp)
        else do { (result, bp) \<leftarrow> buddy_malloc bp (mul64 c s);
                  Some (result, (if result \<noteq> 0 then memset m result 0 (mul64 c s) else m), bp) })"
  by (cases "members = 0 \<or> width = 0") (auto simp: buddy_calloc_def Let_def cong del: if_weak_cong)

text \<open>The test of the code finds every product that does not fit.\<close>

lemma product_overflow:
  assumes "\<not> c * s < 2 ^ 64"
  shows "mul64 c s div c \<noteq> s"
proof
  assume "mul64 c s div c = s"
  then have "c * s \<le> mul64 c s" using div_times_less_eq_dividend [of "mul64 c s" c] by (simp add: mult.commute)
  then show False using assms mul64_less [of c s] by linarith
qed

text \<open>A product that does not fit in 64 bits gets \<open>NULL\<close>; otherwise \<open>buddy_calloc\<close> hands out a block as
  \<open>buddy_malloc\<close> does, every byte asked for is zero, and no other byte of the memory changes.\<close>

theorem calloc_correct:
  assumes "buddy_rep n b U" "members < 2 ^ 64" "width < 2 ^ 64"
  defines "bytes \<equiv> (if members = 0 \<or> width = 0 then 1 else members * width)"
  shows "(\<exists>j b'. buddy_calloc m (Some b) members width = Some (buddy_main b + boff n j,
        \<lambda>a. if buddy_main b + boff n j \<le> a \<and> a < buddy_main b + boff n j + bytes then 0 else m a, Some b') \<and>
      usable n b U bytes j \<and> j \<notin> U \<and> buddy_rep n b' (insert j U)) \<or>
    buddy_calloc m (Some b) members width = Some (0, m, Some b) \<and> (\<nexists>j. usable n b U bytes j)"
proof -
  define c s where "c = (if members = 0 \<or> width = 0 then 1 else members)" and "s = (if members = 0 \<or> width = 0 then 1 else width)"
  have total: "bytes = c * s" "0 < c" "0 < s"
    using assms(2,3) by (auto simp: bytes_def c_def s_def)
  note call = calloc_call [of m "Some b" members width, folded c_def s_def]
  obtain V where V: "arena_rep n b (U \<union> V)" using assms(1) by (auto simp: buddy_rep_def)
  note a = arena_repD [OF V] and mo = mem_okD [OF arena_repD(1) [OF V]]
  have limit: "bsize n j \<le> 2 ^ (n + 5)" if "usable n b U bytes j" for j
    using that block_bound [of n j] by (simp add: usable_def)
  show ?thesis
  proof (cases "c * s < 2 ^ 64")
    case False
    then have "mul64 c s div c \<noteq> s" by (rule product_overflow)
    moreover have "\<not> usable n b U bytes j" for j
      using limit [of j] False a(4) by (auto simp: usable_def total(1))
    ultimately show ?thesis using call by (simp add: Let_def)
  next
    case True
    then have mul: "mul64 c s = bytes" by (simp add: mul64_small total(1))
    have "bytes div c = s" "max 1 bytes = bytes" using total(1-3) by simp_all
    then consider (got) j b' where "buddy_malloc (Some b) bytes = Some (buddy_main b + boff n j, Some b')"
        "usable n b U bytes j" "j \<notin> U" "buddy_rep n b' (insert j U)"
      | (none) "buddy_malloc (Some b) bytes = Some (0, Some b)" "\<nexists>j. usable n b U bytes j"
      using malloc_rep [OF assms(1), of bytes bytes] by auto
    then show ?thesis
    proof cases
      case got
      have "boff n j + bsize n j \<le> 2 ^ (n + 5)" "bytes \<le> bsize n j"
        using got(2) block_bound [of n j] by (simp_all add: usable_def)
      then have "buddy_main b + boff n j + bytes < 2 ^ 64" using a(4) by linarith
      from memset_eq [OF this, of m 0] got \<open>bytes div c = s\<close> a(3) show ?thesis
        by (intro disjI1 exI [of _ j] exI [of _ b']) (simp add: call mul Let_def)
    next
      case none
      then show ?thesis using call mul \<open>bytes div c = s\<close> by (simp add: Let_def)
    qed
  qed
qed

theorem calloc_correct_witness:
  "\<exists>b j b' m'. buddy_rep 2 b {} \<and> buddy_calloc (\<lambda>_. 7) (Some b) 3 8 = Some (65536 + boff 2 j, m', Some b') \<and>
     m' (65536 + boff 2 j + 23) = 0 \<and> m' (65536 + boff 2 j + 24) = 7"
proof -
  obtain b where b: "buddy_rep 2 b {}" "buddy_main b = 65536" "memory_size b = 128" using example_arena by blast
  have "usable 2 b {} 24 1" using b(3) bit_length_pos [of 1]
    by (simp add: usable_def node_def bsize_def boff_def)
  then have u: "\<exists>j. usable 2 b {} 24 j" ..
  have "(3 :: nat) < 2 ^ 64" "(8 :: nat) < 2 ^ 64" by simp_all
  from calloc_correct [OF b(1) this, of "\<lambda>_. 7"] u
  obtain j b' where "buddy_calloc (\<lambda>_. 7) (Some b) 3 8 = Some (65536 + boff 2 j,
      \<lambda>a. if 65536 + boff 2 j \<le> a \<and> a < 65536 + boff 2 j + 24 then 0 else 7, Some b')"
    by (auto simp: b(2))
  then show ?thesis using b(1) by (intro exI [of _ b] exI [of _ j] exI [of _ b']) simp
qed

subsection \<open>realloc\<close>

text \<open>Blocks begin at multiples of their size, so what is copied between two of them overlaps only when
  it is the same.\<close>

lemma block_starts:
  assumes "node n i" "node n j" "s = min (bsize n i) (bsize n j)"
  shows "boff n i \<le> boff n j \<or> boff n j + s \<le> boff n i"
proof -
  have "s dvd bsize n i" "s dvd bsize n j"
    unfolding assms(3) bsize_def by (auto simp: min_def le_imp_power_dvd)
  then have "s dvd boff n i" "s dvd boff n j" by (simp_all add: boff_def)
  then obtain p q where pq: "boff n i = s * p" "boff n j = s * q" by (auto elim!: dvdE)
  show ?thesis
  proof (cases "p \<le> q")
    case True
    then show ?thesis by (simp add: pq)
  next
    case False
    then have "s * Suc q \<le> s * p" by (intro mult_le_mono2) simp
    then show ?thesis by (simp add: pq)
  qed
qed

lemma realloc_call:
  assumes "arena_rep n b A" "u \<in> A" "0 < req" "req \<le> memory_size b" "d = depth_for_size b req"
  shows "(\<exists>v t. buddy_realloc m b (buddy_main b + boff n u) req =
        ok (buddy_main b + boff n v,
          if v = u then m else memmove m (buddy_main b + boff n v) (buddy_main b + boff n u) (min (bsize n u) (bsize n v)),
          b\<lparr>btree := t\<rparr>) \<and>
      free_slot n (A - {u}) d v \<and> tree_rep n t (insert v (A - {u}))) \<or>
    (\<exists>t. buddy_realloc m b (buddy_main b + boff n u) req = ok (0, m, b\<lparr>btree := t\<rparr>) \<and> tree_rep n t A \<and>
      (\<nexists>v. free_slot n (A - {u}) d v))"
proof -
  note a = arena_repD [OF assms(1)] and db = depth_for_size_bounds [OF arena_repD(1) [OF assms(1)] assms(4), folded assms(5)]
  have u: "node n u" using a(9) assms(2) by (simp add: alloc_wf_def)
  have origin: "position_for_address b (buddy_main b + boff n u) = pos_of u"
    by (rule position_for_address_eq [OF assms(1,2) block_nonempty])
  have valid: "buddy_tree_valid t (pos_of w)" if "tree_ok n t" "node n w" for t w
    using valid_iff [OF that(1), of "pos_of w"] that(2) by (simp add: pos_of_wf)
  obtain t where t: "buddy_tree_release (btree b) (pos_of u) = Some t" "tree_rep n t (A - {u})"
    using release_rep [OF a(2) assms(2)] by blast
  obtain r where r: "buddy_tree_find_free t d (buddy_is_left_biased b) = Some r"
    "if \<exists>j. free_slot n (A - {u}) d j then \<exists>j. r = pos_of j \<and> free_slot n (A - {u}) d j \<and>
       (buddy_is_left_biased b mod 256 \<noteq> 0 \<longrightarrow> (\<forall>j'. free_slot n (A - {u}) d j' \<longrightarrow> j \<le> j')) else r = INVALID_POS"
    using find_free_rep [OF t(2) db(1,2), of "buddy_is_left_biased b"] by blast
  have free_u: "free_node (A - {u}) u"
    using a(9) assms(2) by (auto simp: free_node_def alloc_wf_def)
  obtain t0 where t0: "buddy_tree_mark t (pos_of u) = Some t0" "tree_rep n t0 (insert u (A - {u}))"
    using mark_rep [OF t(2) u free_u] by blast
  have restored: "insert u (A - {u}) = A" using assms(2) by blast
  let ?copy = "if bit_length u > d then bit_length u else d"
  have call: "buddy_realloc m b (buddy_main b + boff n u) req =
      lift_opt (if \<not> buddy_tree_valid t r then do { t \<leftarrow> buddy_tree_mark t (pos_of u); Some (0, m, b\<lparr>btree := t\<rparr>) }
        else if u = pos_index r then do { t \<leftarrow> buddy_tree_mark t (pos_of u); Some (buddy_main b + boff n u, m, b\<lparr>btree := t\<rparr>) }
        else do { t \<leftarrow> buddy_tree_mark t r; Some (address_for_position b r,
          memmove m (address_for_position b r) (address_for_position b (pos_of u)) (size_for_depth b ?copy), b\<lparr>btree := t\<rparr>) })"
    using assms(3,4) a(3) valid [OF a(5) u] t(1) r(1)
    by (simp add: buddy_realloc_def origin Let_def buddy_tree_depth_def assms(5) [symmetric] cong del: if_weak_cong)
  show ?thesis
  proof (cases "\<exists>j. free_slot n (A - {u}) d j")
    case False
    then have "r = INVALID_POS" using r(2) by simp
    then have "buddy_realloc m b (buddy_main b + boff n u) req = ok (0, m, b\<lparr>btree := t0\<rparr>)"
      using t0(1) by (simp add: call invalid_pos)
    then show ?thesis using False t0(2) restored by auto
  next
    case True
    then obtain v where v: "r = pos_of v" "free_slot n (A - {u}) d v"
      using r(2) by (auto simp del: One_nat_def)
    have nv: "node n v" "bit_length v = d" "free_node (A - {u}) v" using v(2) by (simp_all add: free_slot_def)
    have ok_v: "buddy_tree_valid t (pos_of v)" by (rule valid [OF tree_repD(1) [OF t(2)] nv(1)])
    show ?thesis
    proof (cases "v = u")
      case True
      then show ?thesis using ok_v t0 v by (intro disjI1 exI [of _ u] exI [of _ t0]) (simp add: call)
    next
      case False
      obtain t1 where t1: "buddy_tree_mark t (pos_of v) = Some t1" "tree_rep n t1 (insert v (A - {u}))"
        using mark_rep [OF t(2) nv(1,3)] by blast
      have "size_for_depth b ?copy = min (bsize n u) (bsize n v)"
        using size_for_depth_eq [OF a(1) u] size_for_depth_eq [OF a(1) nv(1)] nv(2) bsize_le_iff [OF u nv(1)]
        by (simp add: min_def)
      then have "buddy_realloc m b (buddy_main b + boff n u) req = ok (buddy_main b + boff n v,
          memmove m (buddy_main b + boff n v) (buddy_main b + boff n u) (min (bsize n u) (bsize n v)), b\<lparr>btree := t1\<rparr>)"
        using ok_v False t1(1)
        by (simp add: call v(1) address_for_position_eq [OF a(1) u a(4)] address_for_position_eq [OF a(1) nv(1) a(4)])
      then show ?thesis using t1(2) v(2) False by (intro disjI1 exI [of _ v] exI [of _ t1]) simp
    qed
  qed
qed

lemma realloc_copies:
  assumes "arena_rep n b A" "node n u" "node n v" "s = min (bsize n u) (bsize n v)"
  defines "p \<equiv> buddy_main b + boff n v" and "q \<equiv> buddy_main b + boff n u"
  shows "memmove m p q s = (\<lambda>x. if p \<le> x \<and> x < p + s then m (q + (x - p)) else m x)"
proof -
  have "p + bsize n v < 2 ^ 64" "q + bsize n u < 2 ^ 64"
    using block_bound [OF assms(2)] block_bound [OF assms(3)] arena_repD(4) [OF assms(1)]
    by (simp_all add: p_def q_def)
  then show ?thesis using block_starts [OF assms(3,2), of s]
    by (intro memmove_eq) (auto simp: assms(4) p_def q_def min.commute)
qed



end
