(* ===== verification/TreeResize.thy ===== *)
theory TreeResize
  imports TreeSearch
begin

text \<open>
  Growing the buddy tree (\<open>buddy_tree_grow\<close>): the levels of the old tree become the left halves of the
  levels of a tree that is one level deeper, so the old tree is the left half of the new one. The bits are moved in
  place, the deepest level first.
\<close>

subsection \<open>Moving the levels\<close>

text \<open>Where the left half of a level of the deeper tree begins.\<close>

definition moved_start :: "nat \<Rightarrow> nat \<Rightarrow> nat" where
  "moved_start n k = row_start (Suc n) (Suc k)"

lemma moved_start_eq: "moved_start n k = Suc n + 2 * row_start n k"
  by (simp add: moved_start_def row_start_shift)

lemma moved_start_Suc: "moved_start n (Suc k) = moved_start n k + 2 * ((n - k) * 2 ^ k)"
  by (simp add: moved_start_eq row_start_Suc)

lemma moved_small:
  assumes "order_ok (Suc n)" "k < n"
  shows "Suc n + 2 * row_start n k + 2 * ((n - k) * 2 ^ k) \<le> 66571993088"
proof -
  have "moved_start n (Suc k) \<le> 66571993088"
    unfolding moved_start_def using assms by (intro row_start_bound) (simp_all add: order_ok_def)
  then show ?thesis by (simp add: moved_start_eq row_start_Suc)
qed

text \<open>The first \<open>m\<close> levels have been moved, the others not.\<close>

definition rows_moved :: "nat \<Rightarrow> nat \<Rightarrow> bitset \<Rightarrow> bitset \<Rightarrow> bool" where
  "rows_moved n m b b' \<longleftrightarrow>
     (\<forall>j \<ge> moved_start n m. bget b' j \<longleftrightarrow> bget b j) \<and>
     (\<forall>k < m. \<forall>j < (n - k) * 2 ^ k. bget b' (moved_start n k + j) \<longleftrightarrow> bget b (row_start n k + j)) \<and>
     (\<forall>k < m. \<forall>j < (n - k) * 2 ^ k. \<not> bget b' (moved_start n k + (n - k) * 2 ^ k + j)) \<and>
     (0 < m \<longrightarrow> (\<forall>j < Suc n. \<not> bget b' j))"

lemma first_of_row:
  assumes "k < n"
  shows "node n (2 ^ k)" "bit_length (2 ^ k) = Suc k" "height n (2 ^ k) = n - k"
    "node_loc n (pos_of (2 ^ k)) = row_start n k"
proof -
  show d: "bit_length (2 ^ k) = Suc k" by (rule bit_length_eqI) simp_all
  then show "node n (2 ^ k)" "height n (2 ^ k) = n - k" using assms by (simp_all add: node_iff_depth height_def)
  show "node_loc n (pos_of (2 ^ k)) = row_start n k" by (simp add: node_loc_def d)
qed

text \<open>One pass of the loop.\<close>

lemma move_row:
  assumes "order_ok (Suc n)" "k < n"
    and "b' = bitset_clear_range (bitset_shift_right b (row_start n k) (row_start n k + (n - k) * 2 ^ k) (moved_start n k - row_start n k))
       (moved_start n k + (n - k) * 2 ^ k) (moved_start n k + (n - k) * 2 ^ k * 2 - 1)"
  shows "bget b' j \<longleftrightarrow>
    (if row_start n k \<le> j \<and> j < moved_start n k then False
     else if moved_start n k \<le> j \<and> j < moved_start n k + (n - k) * 2 ^ k then bget b (j - (moved_start n k - row_start n k))
     else if moved_start n k + (n - k) * 2 ^ k \<le> j \<and> j < moved_start n (Suc k) then False
     else bget b j)"
proof -
  define r where "r = row_start n k"
  define c where "c = (n - k) * 2 ^ k"
  note small = moved_small [OF assms(1,2), folded r_def c_def]
  have c: "0 < c" using assms(2) by (simp add: c_def)
  have s: "moved_start n k = Suc n + 2 * r" "moved_start n (Suc k) = Suc n + 2 * r + 2 * c"
    using moved_start_Suc [of n k] by (simp_all add: moved_start_eq r_def c_def)
  show ?thesis
    unfolding assms(3) s r_def [symmetric] c_def [symmetric]
    using small c by (subst bget_clear_range) (auto simp: bget_shift_right)
qed

lemma grow_rows_moves:
  assumes "order_ok (Suc n)" "m \<le> n" "tree_order t = n"
    "0 < m \<longrightarrow> cur = pos_of (2 ^ (m - 1)) \<and> next_pos = pos_of (2 ^ m)"
  shows "\<exists>b. grow_rows m t cur next_pos = t\<lparr>tree_bits := b\<rparr> \<and> rows_moved n m (tree_bits t) b"
  using assms(2-)
proof (induction m arbitrary: t cur next_pos)
  case 0
  then show ?case by (intro exI [of _ "tree_bits t"]) (simp add: rows_moved_def)
next
  case (Suc k)
  then have k: "k < n" and cur: "cur = pos_of (2 ^ k)" "next_pos = pos_of (2 ^ Suc k)" by simp_all
  have ok: "order_ok n" using assms(1) k by (auto simp: order_ok_def)
  note here = first_of_row [OF k] and there = first_of_row [of "Suc k" "Suc n"]
  define r where "r = row_start n k"
  define c where "c = (n - k) * 2 ^ k"
  have cell: "buddy_tree_internal_position_order n cur = \<lparr>local_offset = n - k, bitset_location = r\<rparr>"
    "buddy_tree_internal_position_order (n + 1) next_pos = \<lparr>local_offset = n - k, bitset_location = moved_start n k\<rparr>"
    using internal_position_order [OF ok, of cur] internal_position_order [OF assms(1), of next_pos] k here there
    by (simp_all add: cur pos_of_wf node_height_pos_of moved_start_def r_def)
  note small = moved_small [OF assms(1) k, folded r_def c_def]
  have c: "0 < c" using k by (simp add: c_def)
  have s: "moved_start n k = Suc n + 2 * r" "moved_start n (Suc k) = Suc n + 2 * r + 2 * c"
    using moved_start_Suc [of n k] by (simp_all add: moved_start_eq r_def c_def)
  have count: "shl32 (sub64 (Suc k) 1) = 2 ^ k"
    using assms(1) k by (simp add: sub64_small order_ok_def shl32_small)
  have num: "mul64 (n - k) (2 ^ k) = c" "mul64 c 2 = c * 2" "add64 r c = r + c"
    "sub64 (moved_start n k) r = moved_start n k - r" "add64 (moved_start n k) c = moved_start n k + c"
    "sub64 (add64 (moved_start n k) (c * 2)) 1 = moved_start n k + c * 2 - 1"
    using small c s by (simp_all add: mul64_small add64_small sub64_small c_def [symmetric] mul64_def)
  define b1 where "b1 = bitset_clear_range (bitset_shift_right (tree_bits t) r (r + c) (moved_start n k - r))
    (moved_start n k + c) (moved_start n k + c * 2 - 1)"
  have step: "grow_rows (Suc k) t cur next_pos =
      grow_rows k (t\<lparr>tree_bits := b1\<rparr>) (buddy_tree_parent cur) (buddy_tree_parent next_pos)"
    by (simp add: Suc.prems(2) cell [simplified] count [simplified] num num(6) [simplified] Let_def b1_def)
  have up: "0 < k \<longrightarrow> buddy_tree_parent cur = pos_of (2 ^ (k - 1)) \<and> buddy_tree_parent next_pos = pos_of (2 ^ k)"
  proof
    assume "0 < k"
    then obtain d where d: "k = Suc d" by (cases k) auto
    show "buddy_tree_parent cur = pos_of (2 ^ (k - 1)) \<and> buddy_tree_parent next_pos = pos_of (2 ^ k)"
      using parent_pos_of [OF ok here(1)] parent_pos_of [OF assms(1) there(1)] k by (simp add: cur d)
  qed
  obtain b where b: "grow_rows k (t\<lparr>tree_bits := b1\<rparr>) (buddy_tree_parent cur) (buddy_tree_parent next_pos) =
      t\<lparr>tree_bits := b1, tree_bits := b\<rparr>" "rows_moved n k b1 b"
    using Suc.IH [of "t\<lparr>tree_bits := b1\<rparr>"] up Suc.prems by auto
  have bits: "bget b1 j \<longleftrightarrow>
    (if r \<le> j \<and> j < moved_start n k then False
     else if moved_start n k \<le> j \<and> j < moved_start n k + c then bget (tree_bits t) (j - (moved_start n k - r))
     else if moved_start n k + c \<le> j \<and> j < moved_start n (Suc k) then False
     else bget (tree_bits t) j)" for j
    unfolding r_def c_def by (rule move_row [OF assms(1) k]) (simp add: b1_def r_def c_def)
  have "rows_moved n (Suc k) (tree_bits t) b"
    unfolding rows_moved_def
  proof (intro conjI allI impI)
    fix j
    assume "moved_start n (Suc k) \<le> j"
    then show "bget b j \<longleftrightarrow> bget (tree_bits t) j" using b(2) bits [of j] s unfolding rows_moved_def by auto
  next
    fix i j
    assume i: "i < Suc k" and j: "j < (n - i) * 2 ^ i"
    have low: "row_start n i + j < r" if "i < k"
    proof -
      have "row_start n (Suc i) \<le> row_start n k" using that by (intro row_start_mono) simp
      then show ?thesis using j by (simp add: row_start_Suc r_def)
    qed
    show "bget b (moved_start n i + j) \<longleftrightarrow> bget (tree_bits t) (row_start n i + j)"
    proof (cases "i = k")
      case True
      then have "bget b (moved_start n i + j) \<longleftrightarrow> bget b1 (moved_start n i + j)" using b(2) by (simp add: rows_moved_def)
      then show ?thesis using bits [of "moved_start n k + j"] True j s by (simp add: c_def r_def)
    next
      case False
      then show ?thesis using b(2) i j bits [of "row_start n i + j"] low s by (simp add: rows_moved_def)
    qed
    show "\<not> bget b (moved_start n i + (n - i) * 2 ^ i + j)"
    proof (cases "i = k")
      case True
      then have "bget b (moved_start n i + c + j) \<longleftrightarrow> bget b1 (moved_start n i + c + j)"
        using b(2) by (simp add: rows_moved_def)
      then show ?thesis using bits [of "moved_start n k + c + j"] True j s by (simp add: c_def)
    next
      case False
      then show ?thesis using b(2) i j by (simp add: rows_moved_def)
    qed
  next
    fix j
    assume j: "j < Suc n"
    show "\<not> bget b j"
    proof (cases "k = 0")
      case True
      then have "b = b1" using arg_cong [where f = tree_bits, OF b(1)] by simp
      then show ?thesis using bits [of j] j True by (simp add: r_def moved_start_eq)
    next
      case False
      then show ?thesis using b(2) j by (simp add: rows_moved_def)
    qed
  qed
  then show ?case using b(1) step by (intro exI [of _ b]) simp
qed

subsection \<open>The nodes of the deeper tree\<close>

text \<open>The node that a node becomes when the tree grows by \<open>k\<close> levels: on the same place of its level, \<open>k\<close> levels deeper.\<close>

definition raised :: "nat \<Rightarrow> nat \<Rightarrow> nat" where
  "raised k i = i + (2 ^ k - 1) * 2 ^ (bit_length i - 1)"

lemma place_in_row:
  assumes "0 < i"
  obtains d r where "i = 2 ^ d + r" "r < 2 ^ d" "bit_length i = Suc d"
proof -
  have l: "0 < bit_length i" using assms by simp
  have "2 ^ (bit_length i - 1) \<le> i" "i < 2 ^ bit_length i" using bit_length_bounds [OF assms] by simp_all
  moreover have "(2 :: nat) ^ bit_length i = 2 * 2 ^ (bit_length i - 1)" using l by (cases "bit_length i") simp_all
  ultimately show ?thesis using l by (intro that [of "bit_length i - 1" "i - 2 ^ (bit_length i - 1)"]) simp_all
qed

lemma raised_row:
  assumes "r < 2 ^ d"
  shows "raised k (2 ^ d + r) = 2 ^ (d + k) + r" "bit_length (2 ^ d + r) = Suc d" "bit_length (2 ^ (d + k) + r) = Suc (d + k)"
proof -
  show l: "bit_length (2 ^ d + r) = Suc d" using assms by (intro bit_length_eqI) simp_all
  have "r < 2 ^ (d + k)" using assms less_le_trans [of r "2 ^ d" "2 ^ (d + k)"] by (simp add: power_increasing)
  then show "bit_length (2 ^ (d + k) + r) = Suc (d + k)" by (intro bit_length_eqI) simp_all
  have "2 ^ d + (2 ^ k - 1) * 2 ^ d = (2 ^ d * 2 ^ k :: nat)" by (simp add: algebra_simps)
  then show "raised k (2 ^ d + r) = 2 ^ (d + k) + r" unfolding raised_def l by (simp add: power_add)
qed

lemma raised_facts:
  assumes "0 < i"
  shows "bit_length (raised k i) = bit_length i + k" "0 < raised k i" "raised (Suc k) i = raised 1 (raised k i)"
    "raised 1 (2 * i) = 2 * raised 1 i" "raised 1 (2 * i + 1) = 2 * raised 1 i + 1"
proof -
  obtain d r where i: "i = 2 ^ d + r" "r < 2 ^ d" "bit_length i = Suc d" using place_in_row [OF assms] .
  note ri = raised_row [OF i(2), folded i(1)]
  show "bit_length (raised k i) = bit_length i + k" "0 < raised k i" using ri(1,3) [of k] i(3) by simp_all
  have "r < 2 ^ (d + k)" using i(2) less_le_trans [of r "2 ^ d" "2 ^ (d + k)"] by (simp add: power_increasing)
  from raised_row(1) [OF this, of 1] show "raised (Suc k) i = raised 1 (raised k i)" using ri(1) by simp
  have "2 * i = 2 ^ Suc d + 2 * r" "2 * r < 2 ^ Suc d" "2 * i + 1 = 2 ^ Suc d + (2 * r + 1)" "2 * r + 1 < 2 ^ Suc d"
    using i(1,2) by simp_all
  then show "raised 1 (2 * i) = 2 * raised 1 i" "raised 1 (2 * i + 1) = 2 * raised 1 i + 1"
    using raised_row(1) [of "2 * r" "Suc d" 1] raised_row(1) [of "2 * r + 1" "Suc d" 1] ri(1) [of 1] by simp_all
qed

lemma raised_0 [simp]: "raised 0 i = i"
  by (simp add: raised_def)

lemma raised_inj: "0 < i \<Longrightarrow> 0 < j \<Longrightarrow> raised k i = raised k j \<Longrightarrow> i = j"
proof -
  assume a: "0 < i" "0 < j" "raised k i = raised k j"
  then have "bit_length i = bit_length j" using raised_facts(1) [of i k] raised_facts(1) [of j k] by simp
  then show "i = j" using a(3) by (simp add: raised_def)
qed

text \<open>A node of the deeper tree is the root, an old node or on the right.\<close>

lemma node_Suc_cases:
  assumes "node (Suc n) j"
  obtains "j = 1" | i where "node n i" "j = raised 1 i" | i where "node n i" "j = raised 1 i + 2 ^ (bit_length i - 1)"
proof (cases "j = 1")
  case False
  have j: "0 < j" using assms by (simp add: node_def)
  obtain d r where d: "j = 2 ^ d + r" "r < 2 ^ d" "bit_length j = Suc d" using place_in_row [OF j] .
  have "0 < d" using d False by (cases d) simp_all
  then obtain e where e: "d = Suc e" by (cases d) auto
  have n: "e < n" using node_depth [OF assms] d(3) e by simp
  have old: "node n (2 ^ e + q)" if "q < 2 ^ e" for q using raised_row(2) [OF that] n by (simp add: node_iff_depth)
  show ?thesis
  proof (cases "r < 2 ^ e")
    case True
    then show ?thesis using that(2) [of "2 ^ e + r"] old raised_row(1) [OF True, of 1] d(1) e by simp
  next
    case False
    then have q: "r - 2 ^ e < 2 ^ e" using d(2) e by simp
    show ?thesis using that(3) [of "2 ^ e + (r - 2 ^ e)"] old [OF q] raised_row(1) [OF q, of 1] raised_row(2) [OF q] False d(1) e by simp
  qed
qed (rule that(1))

lemma half_of_tree:
  assumes "0 < i"
  shows "below 2 (raised 1 i)" "below 3 (raised 1 i + 2 ^ (bit_length i - 1))"
    "bit_length (raised 1 i + 2 ^ (bit_length i - 1)) = Suc (bit_length i)"
proof -
  obtain d r where i: "i = 2 ^ d + r" "r < 2 ^ d" "bit_length i = Suc d" using place_in_row [OF assms] .
  have r: "raised 1 i = 2 ^ d * 2 + r" using raised_row(1) [OF i(2), of 1] i(1) by simp
  then show "bit_length (raised 1 i + 2 ^ (bit_length i - 1)) = Suc (bit_length i)"
    using i(2,3) by (simp add: bit_length_eqI)
  have "(2 ^ d * 2 + r) div 2 ^ d = 2" "(2 ^ d * 3 + r) div 2 ^ d = 3" using i(2) by simp_all
  moreover have "raised 1 i + 2 ^ (bit_length i - 1) = 2 ^ d * 3 + r" using r i(3) by simp
  ultimately show "below 2 (raised 1 i)" "below 3 (raised 1 i + 2 ^ (bit_length i - 1))"
    unfolding below_def using r by metis+
qed

lemma astat_raised:
  assumes "\<forall>a \<in> A. 0 < a" "0 < i"
  shows "astat (raised 1 ` A) h (raised 1 i) = astat A h i"
  using assms(2)
proof (induction h arbitrary: i)
  case (Suc h)
  have "raised 1 i \<in> raised 1 ` A \<longleftrightarrow> i \<in> A" using raised_inj [of i _ 1] assms(1) Suc.prems by auto
  moreover have "astat (raised 1 ` A) h (2 * raised 1 i) = astat A h (2 * i)"
    "astat (raised 1 ` A) h (2 * raised 1 i + 1) = astat A h (2 * i + 1)"
    using Suc.IH [of "2 * i"] Suc.IH [of "2 * i + 1"] Suc.prems by (simp_all only: raised_facts(4,5))
  ultimately show ?case by simp
qed simp

lemma astat_right:
  assumes "\<forall>a \<in> A. 0 < a" "below 3 j" "0 < j"
  shows "astat (raised 1 ` A) h j = 0"
proof -
  have "k \<notin> raised 1 ` A" if "below j k" for k
  proof
    assume "k \<in> raised 1 ` A"
    then have "below (2 * 1) k" using half_of_tree(1) assms(1) by auto
    moreover have "below (2 * 1 + 1) k" using below_trans [OF assms(2) that] by simp
    ultimately show False using below_children_disjoint [of 1 k] by simp
  qed
  then show ?thesis using astat_eq_0 [OF assms(3)] by blast
qed

subsection \<open>Growing by one level\<close>

lemma bcount_shift:
  assumes "\<And>j. j < h \<Longrightarrow> bget b (lo + j) \<longleftrightarrow> bget b' (lo' + j)"
  shows "bcount b lo (lo + h) = bcount b' lo' (lo' + h)"
  using assms
proof (induction h)
  case (Suc h)
  have "bcount b (lo + h) (lo + h + 1) = bcount b' (lo' + h) (lo' + h + 1)"
    using Suc.prems [of h] by (simp add: bcount_def)
  then show ?case
    using Suc bcount_split [of lo "lo + h" "lo + h + 1" b] bcount_split [of lo' "lo' + h" "lo' + h + 1" b'] by simp
qed (simp add: bcount_def)

text \<open>What is read of the moved bits.\<close>

lemma moved_statuses:
  assumes "tree_ok n t" "tree_ok (Suc n) t'" "rows_moved n n (tree_bits t) (tree_bits t')"
  shows "tree_rd t' 1 = 0" "node n i \<Longrightarrow> tree_rd t' (raised 1 i) = tree_rd t i"
    "node n i \<Longrightarrow> tree_rd t' (raised 1 i + 2 ^ (bit_length i - 1)) = 0"
proof -
  note ok = tree_okD(1) [OF assms(1)] tree_okD(1) [OF assms(2)]
  have n: "0 < n" using ok(1) by (simp add: order_ok_def)
  have one: "node (Suc n) 1" "height (Suc n) 1 = Suc n" "node_loc (Suc n) (pos_of 1) = 0"
    by (simp_all add: node_iff_depth height_def bit_length_pos node_loc_def)
  have "\<not> bget (tree_bits t') 0" using assms(3) n by (simp add: rows_moved_def)
  then show "tree_rd t' 1 = 0"
    using tree_rd_cell [OF assms(2) one(1)] cell_bounds(3) [OF assms(2) one(1)] by (simp add: one(2,3) read_cell del: One_nat_def)
  fix i
  assume i: "node n i"
  then have i0: "0 < i" by (simp add: node_def)
  obtain d r where d: "i = 2 ^ d + r" "r < 2 ^ d" "bit_length i = Suc d" using place_in_row [OF i0] .
  have dn: "d < n" using node_depth [OF i] d(3) by simp
  define w where "w = n - d"
  have w: "0 < w" "height n i = w" using dn d(3) by (simp_all add: height_def w_def)
  have cell: "node_loc n (pos_of i) = row_start n d + w * r"
    unfolding node_loc_def node_height_pos_of w(2) using d by simp
  have new: "node (Suc n) j \<and> height (Suc n) j = w \<and> node_loc (Suc n) (pos_of j) = moved_start n d + w * q"
    if "j = 2 ^ Suc d + q" "q < 2 ^ Suc d" for j q
  proof -
    have "bit_length j = Suc (Suc d)" using raised_row(2) [OF that(2)] that(1) by simp
    then show ?thesis using dn that(1) d(3)
      by (simp add: node_iff_depth height_def w_def node_loc_def node_height_pos_of moved_start_def)
  qed
  have inside: "w * r + j < (n - d) * 2 ^ d" if "j < w" for j
  proof -
    have "w * r + j < w * Suc r" using that by simp
    also have "\<dots> \<le> w * 2 ^ d" using d(2) by (intro mult_le_mono2) simp
    finally show ?thesis by (simp add: w_def)
  qed
  have left: "raised 1 i = 2 ^ Suc d + r" "r < 2 ^ Suc d" using raised_row(1) [OF d(2), of 1] d(1,2) by simp_all
  have bits: "bget (tree_bits t') (moved_start n d + w * r + j) \<longleftrightarrow> bget (tree_bits t) (row_start n d + w * r + j)" if "j < w" for j
    using assms(3) dn inside [OF that] by (simp add: rows_moved_def add.assoc)
  note nl = new [OF left]
  show "tree_rd t' (raised 1 i) = tree_rd t i"
    using tree_rd_cell [OF assms(2) nl [THEN conjunct1]] tree_rd_cell [OF assms(1) i] nl w cell
      cell_bounds(3) [OF assms(2) nl [THEN conjunct1]] cell_bounds(3) [OF assms(1) i]
      bits [of 0] bcount_shift [of w "tree_bits t'" "moved_start n d + w * r" "tree_bits t" "row_start n d + w * r", OF bits]
    by (simp add: read_cell)
  have right: "raised 1 i + 2 ^ (bit_length i - 1) = 2 ^ Suc d + (2 ^ d + r)" "2 ^ d + r < 2 ^ Suc d"
    using left d(2,3) by simp_all
  note nr = new [OF right]
  have "\<not> bget (tree_bits t') (moved_start n d + (n - d) * 2 ^ d + w * r)"
    using assms(3) dn inside [of 0] w(1) by (simp add: rows_moved_def)
  then have "\<not> bget (tree_bits t') (moved_start n d + w * (2 ^ d + r))" by (simp add: w_def algebra_simps)
  then show "tree_rd t' (raised 1 i + 2 ^ (bit_length i - 1)) = 0"
    using tree_rd_cell [OF assms(2) nr [THEN conjunct1]] nr w(1) cell_bounds(3) [OF assms(2) nr [THEN conjunct1]]
    by (simp add: read_cell)
qed

lemma raised_alloc_wf:
  assumes "alloc_wf n A"
  shows "alloc_wf (n + k) (raised k ` A)"
proof -
  have pos: "0 < a" "node n a" if "a \<in> A" for a using assms that by (auto simp: alloc_wf_def node_def)
  have "node (n + k) (raised k a)" if "a \<in> A" for a
    using raised_facts(1) [OF pos(1) [OF that], of k] node_depth [OF pos(2) [OF that]] by (simp add: node_iff_depth)
  moreover have "a = b" if ab: "a \<in> A" "b \<in> A" and up: "below (raised k a) (raised k b)" for a b
  proof -
    obtain d r where a: "a = 2 ^ d + r" "r < 2 ^ d" "bit_length a = Suc d" using place_in_row [OF pos(1) [OF ab(1)]] .
    obtain e q where b: "b = 2 ^ e + q" "q < 2 ^ e" "bit_length b = Suc e" using place_in_row [OF pos(1) [OF ab(2)]] .
    have lens: "bit_length (raised k a) = Suc d + k" "bit_length (raised k b) = Suc e + k"
      using raised_facts(1) [of a k] raised_facts(1) [of b k] pos ab a b by simp_all
    have le: "d \<le> e" "raised k b div 2 ^ (e - d) = raised k a"
      using up raised_facts(2) [of a k] pos(1) [OF ab(1)] by (simp_all add: below_eq lens)
    have split: "(2 ^ (e + m) + q) div 2 ^ (e - d) = 2 ^ (d + m) + q div 2 ^ (e - d)" for m
    proof -
      have "(2 :: nat) ^ (e + m) = 2 ^ (d + m) * 2 ^ (e - d)" using le(1) by (simp add: power_add [symmetric])
      then show ?thesis by simp
    qed
    have "q div 2 ^ (e - d) = r"
      using le(2) raised_row(1) [OF a(2), of k] raised_row(1) [OF b(2), of k] a(1) b(1) split [of k] by simp
    then have "b div 2 ^ (e - d) = a" using a(1) b(1) split [of 0] by simp
    then have "below a b" unfolding below_def by blast
    then show ?thesis using assms ab by (simp add: alloc_wf_def)
  qed
  ultimately show ?thesis by (auto simp: alloc_wf_def)
qed

lemma grow_one_rep:
  assumes "tree_rep n t A" "order_ok (Suc n)"
  shows "\<exists>t'. grow_one t = Some t' \<and> tree_rep (Suc n) t' (raised 1 ` A)"
proof -
  note ok = tree_repD(1,2) [OF assms(1)]
  have n: "0 < n" "n \<le> 30" using ok(2) assms(2) by (auto simp: order_ok_def)
  have start: "buddy_tree_leftmost_child_internal m = pos_of (2 ^ (m - 1))" if "1 \<le> m" "m \<le> 31" for m
    using that first_of_row(2) [of "m - 1" m]
    by (simp add: buddy_tree_leftmost_child_internal_def pos_of_def sub64_small shl32_small shl64_small)
  obtain b where b: "grow_rows n t (buddy_tree_leftmost_child_internal n) (buddy_tree_leftmost_child_internal (n + 1)) =
      t\<lparr>tree_bits := b\<rparr>" "rows_moved n n (tree_bits t) b"
    using grow_rows_moves [OF assms(2) order_refl tree_okD(2) [OF ok(1)],
        of "buddy_tree_leftmost_child_internal n" "buddy_tree_leftmost_child_internal (n + 1)"] start n by auto
  define t2 where "t2 = buddy_tree_populate_size_for_order
    (t\<lparr>tree_bits := b, tree_order := Suc n, upper_pos_bound := 2 ^ Suc n\<rparr>)"
  have ok2: "tree_ok (Suc n) t2" unfolding t2_def by (rule populate_ok [OF assms(2)]) simp_all
  have "tree_bits t2 = b" by (simp add: t2_def buddy_tree_populate_size_for_order_def Let_def)
  then have rd: "tree_rd t2 1 = 0" "\<And>i. node n i \<Longrightarrow> tree_rd t2 (raised 1 i) = tree_rd t i"
    "\<And>i. node n i \<Longrightarrow> tree_rd t2 (raised 1 i + 2 ^ (bit_length i - 1)) = 0"
    using moved_statuses [OF ok(1) ok2] b(2) by simp_all
  let ?B = "raised 1 ` A"
  have pos: "\<forall>a\<in>A. 0 < a" using tree_repD(4) [OF assms(1)] by (auto simp: alloc_wf_def node_def)
  have st: "tree_rd t2 j = astat ?B (height (Suc n) j) j" if "node (Suc n) j" "j \<noteq> 1" for j
    using that(1)
  proof (rule node_Suc_cases)
    fix i
    assume i: "node n i" "j = raised 1 i"
    then have "0 < i" by (simp add: node_def)
    then show ?thesis using i rd(2) tree_repD(5) [OF assms(1) i(1)] astat_raised [OF pos, of i] raised_facts(1) [of i 1]
      by (simp add: height_def)
  next
    fix i
    assume i: "node n i" "j = raised 1 i + 2 ^ (bit_length i - 1)"
    then have "0 < i" by (simp add: node_def)
    then show ?thesis using i rd(3) astat_right [OF pos] half_of_tree(2) [of i] by simp
  qed (use that(2) in simp)
  have nodes: "node (Suc n) 1" "node (Suc n) 2" "node (Suc n) 3" "height (Suc n) 1 = Suc n" "height (Suc n) 2 = n" "height (Suc n) 3 = n"
    using n by (simp_all add: node_iff_depth bit_length_pos height_def)
  define target where "target = target_parent 0 (tree_rd t2 2)"
  have two: "tree_rd t2 2 = astat ?B n 2" using st [of 2] nodes by simp
  have "below 3 3" by simp
  then have three: "astat ?B n 3 = 0" using astat_right [OF pos, of 3] by simp
  have "1 \<notin> ?B"
  proof
    assume "1 \<in> ?B"
    then obtain a where a: "a \<in> A" "raised 1 a = 1" by auto
    then have "bit_length a + 1 = bit_length 1" using raised_facts(1) [of a 1] pos by simp
    then have "a = 0" by (simp add: bit_length_pos)
    then show False using a(1) pos by blast
  qed
  then have target: "target = astat ?B (Suc n) 1"
    using two three target_parent_commute by (simp add: target_def numeral_3_eq_3)
  define t3 where "t3 = chain tree_rd tree_wr t2 3 0"
  have t3: "t3 = (if target = 0 then t2 else tree_wr t2 1 target)"
    using rd(1) unfolding t3_def
    by (subst chain.simps) (simp add: sibling_def target_def [symmetric] Let_def chain.simps [of _ _ _ "Suc 0"])
  have le: "target \<le> height (Suc n) 1" unfolding target nodes(4) by (rule astat_le)
  have "tree_ok (Suc n) t3" using t3 ok2 tree_store.inv_wr [OF ok2 nodes(1) le] by simp
  moreover have "tree_rd t3 j = astat ?B (height (Suc n) j) j" if "node (Suc n) j" for j
    using t3 tree_rd_wr [OF ok2 nodes(1) that le] st [OF that] rd(1) target nodes(4) by (cases "j = 1") auto
  ultimately have rep: "tree_rep (Suc n) t3 ?B"
    using raised_alloc_wf [OF tree_repD(4) [OF assms(1)], of 1] by (simp add: tree_rep_def represents_def)
  have right: "buddy_tree_right_child buddy_tree_root = pos_of 3"
    using child_pos_of(2) [OF assms(2) nodes(1)] n by (simp add: root_pos_of bit_length_pos)
  have "grow_one t = update_parent_chain t2 (pos_of 3) (buddy_tree_internal_position_tree t2 (pos_of 3)) 0"
    using tree_okD(2) [OF ok(1)] b(1) n right
    by (simp add: grow_one_def Let_def t2_def shl32_small)
  also have "\<dots> = Some t3"
    using update_parent_chain_eq [OF ok2 nodes(3)] tree_cell [OF ok2 nodes(3)] by (simp add: t3_def)
  finally show ?thesis using rep by blast
qed

text \<open>A tree of order \<open>n\<close> that grows to order \<open>n + k\<close> becomes the leftmost subtree of its size; nothing else is
  allocated.\<close>

lemma grow_rep:
  assumes "tree_rep n t A" "order_ok (n + k)"
  shows "\<exists>t'. buddy_tree_grow t (n + k) = Some t' \<and> tree_rep (n + k) t' (raised k ` A)"
  using assms
proof (induction k arbitrary: n t A)
  case 0
  then show ?case using tree_okD(2) [OF tree_repD(1) [OF 0(1)]] by (subst buddy_tree_grow.simps) simp
next
  case (Suc k)
  have "order_ok (Suc n)" using Suc.prems(2) by (simp add: order_ok_def)
  then obtain t1 where t1: "grow_one t = Some t1" "tree_rep (Suc n) t1 (raised 1 ` A)"
    using grow_one_rep [OF Suc.prems(1)] by blast
  obtain t' where t': "buddy_tree_grow t1 (Suc n + k) = Some t'" "tree_rep (Suc n + k) t' (raised k ` raised 1 ` A)"
    using Suc.IH [OF t1(2)] Suc.prems(2) by auto
  have "raised k (raised 1 a) = raised (Suc k) a" if "a \<in> A" for a
  proof -
    have "0 < a" using tree_repD(4) [OF Suc.prems(1)] that by (auto simp: alloc_wf_def node_def)
    then obtain d r where d: "a = 2 ^ d + r" "r < 2 ^ d" by (rule place_in_row)
    then have "r < 2 ^ (d + 1)" by simp
    from raised_row(1) [OF this, of k] show ?thesis
      using raised_row(1) [OF d(2), of 1] raised_row(1) [OF d(2), of "Suc k"] d(1) by simp
  qed
  then have "raised k ` raised 1 ` A = raised (Suc k) ` A" by (simp add: image_image)
  then show ?case using t1(1) t' tree_okD(2) [OF tree_repD(1) [OF Suc.prems(1)]]
    by (subst buddy_tree_grow.simps) simp
qed

end
