(* ===== verification/BuddyRange.thy ===== *)
theory BuddyRange
  imports BuddySpec
begin

text \<open>
  Reserving and releasing a range of the arena (\<open>buddy_reserve_range\<close> and \<open>buddy_unsafe_release_range\<close> of
  \<open>src/mem/Buddy.cpp\<close>): which slots the loop over the range marks, that the allocator keeps away from them,
  that a release undoes a reservation, and what becomes of a range that does not begin at a slot.
\<close>

subsection \<open>Leaves in a row\<close>

definition slots :: "nat \<Rightarrow> nat" where
  "slots sz = (sz + 63) div 64"

lemma slots_0 [simp]: "slots 0 = 0"
  by (simp add: slots_def)

lemma slots_step: "0 < sz \<Longrightarrow> slots sz = Suc (slots (if sz < 64 then 0 else sz - 64))"
  by (auto simp: slots_def)

text \<open>Row \<open>n\<close> of the tree are the numbers with \<open>n\<close> bits.\<close>

lemma row_length: "1 \<le> n \<Longrightarrow> 2 ^ (n - 1) \<le> i \<Longrightarrow> i < 2 ^ n \<Longrightarrow> bit_length i = n"
  using bit_length_eqI [of "n - 1" i] by simp

lemma row_node: "1 \<le> n \<Longrightarrow> 2 ^ (n - 1) \<le> i \<Longrightarrow> i < 2 ^ n \<Longrightarrow> node n i"
  using row_length [of n i] by (simp add: node_iff_depth)

lemma row_below:
  assumes "1 \<le> n" "2 ^ (n - 1) \<le> i" "i < 2 ^ n" "2 ^ (n - 1) \<le> j" "j < 2 ^ n"
  shows "below i j \<longleftrightarrow> i = j"
proof -
  have "0 < i" using assms(2) less_le_trans [of 0 "2 ^ (n - 1)" i] by simp
  then show ?thesis using below_eq [of i j] row_length [OF assms(1-3)] row_length [OF assms(1,4,5)] by auto
qed

lemma row_block:
  assumes "1 \<le> n" "2 ^ (n - 1) \<le> i" "i < 2 ^ n"
  shows "block n i = {64 * (i - 2 ^ (n - 1))..<64 * (i - 2 ^ (n - 1)) + 64}"
  using row_length [OF assms] by (simp add: block_def boff_def bsize_def)

lemma row_blocks: "(\<Union>j \<in> {a..<a + k}. {64 * j..<64 * j + 64}) = {64 * a..<64 * (a + k :: nat)}"
proof (induction k)
  case (Suc k)
  have "{a..<a + Suc k} = insert (a + k) {a..<a + k}" by auto
  then have "(\<Union>j \<in> {a..<a + Suc k}. {64 * j..<64 * j + 64}) = {64 * (a + k)..<64 * (a + k) + 64} \<union> {64 * a..<64 * (a + k)}"
    using Suc.IH by simp
  also have "\<dots> = {64 * a..<64 * (a + Suc k)}" by auto
  finally show ?case .
qed simp

lemma range_blocks:
  assumes "1 \<le> n" "2 ^ (n - 1) + a + k \<le> 2 ^ n"
  shows "(\<Union>j \<in> {2 ^ (n - 1) + a..<2 ^ (n - 1) + a + k}. block n j) = {64 * a..<64 * (a + k)}"
proof -
  have "{2 ^ (n - 1) + a..<2 ^ (n - 1) + a + k} = (+) (2 ^ (n - 1)) ` {a..<a + k}"
    by (simp only: image_add_atLeastLessThan ac_simps)
  then have "(\<Union>j \<in> {2 ^ (n - 1) + a..<2 ^ (n - 1) + a + k}. block n j) = (\<Union>j \<in> {a..<a + k}. block n (2 ^ (n - 1) + j))"
    by (simp only: image_image)
  also have "\<dots> = (\<Union>j \<in> {a..<a + k}. {64 * j..<64 * j + 64})"
    by (rule SUP_cong [OF refl]) (use assms in \<open>simp add: row_block\<close>)
  finally show ?thesis by (simp only: row_blocks)
qed

subsection \<open>The loop\<close>

lemma range_loop_step:
  assumes "0 < sz"
  shows "range_loop state t p sz = (toggle state t p \<bind> (\<lambda>t.
    range_loop state t (p\<lparr>pos_index := add64 (pos_index p) 1\<rparr>) (if sz < 64 then 0 else sz - 64)))"
  using assms by (subst range_loop.simps) (simp add: BUDDY_ALLOC_ALIGN_def)

text \<open>\<open>G j\<close>: the nodes that are allocated when the loop comes to node \<open>j\<close>.\<close>

lemma range_loop_rows:
  assumes "1 \<le> n" "n \<le> 31" "2 ^ (n - 1) \<le> i" "i + slots sz \<le> 2 ^ n" "tree_rep n t (G i)"
    and "\<And>j t. i \<le> j \<Longrightarrow> j < i + slots sz \<Longrightarrow> tree_rep n t (G j) \<Longrightarrow>
      \<exists>t'. toggle state t (pos_of j) = Some t' \<and> tree_rep n t' (G (Suc j))"
  shows "\<exists>t'. range_loop state t \<lparr>pos_index = i, pos_depth = n\<rparr> sz = Some t' \<and> tree_rep n t' (G (i + slots sz))"
  using assms(3-)
proof (induction sz arbitrary: t i rule: less_induct)
  case (less sz)
  show ?case
  proof (cases "sz = 0")
    case True
    then show ?thesis using less.prems(3) by (simp add: range_loop.simps)
  next
    case False
    define s' where "s' = (if sz < 64 then 0 else sz - 64)"
    have s: "slots sz = Suc (slots s')" "s' < sz" using False slots_step [of sz] by (auto simp: s'_def)
    have i: "i < 2 ^ n" using less.prems(2) s(1) by simp
    have pos: "\<lparr>pos_index = i, pos_depth = n\<rparr> = pos_of i"
      using row_length [OF assms(1) less.prems(1) i] by (simp add: pos_of_def)
    obtain t1 where t1: "toggle state t (pos_of i) = Some t1" "tree_rep n t1 (G (Suc i))"
      using less.prems(4) [OF _ _ less.prems(3)] s(1) by auto
    have "(2 :: nat) ^ n \<le> 2 ^ 31" using assms(2) by (rule power_increasing) simp
    then have next_index: "add64 i 1 = Suc i" using i by (simp add: add64_small)
    obtain t' where t': "range_loop state t1 \<lparr>pos_index = Suc i, pos_depth = n\<rparr> s' = Some t'"
        "tree_rep n t' (G (Suc i + slots s'))"
      using less.IH [OF s(2) _ _ t1(2)] less.prems(1,2,4) s(1) by auto
    have "range_loop state t \<lparr>pos_index = i, pos_depth = n\<rparr> sz = Some t'"
      using False t1(1) t'(1) next_index unfolding pos by (simp add: range_loop_step s'_def [symmetric] pos [symmetric])
    then show ?thesis using t'(2) s(1) by simp
  qed
qed

lemma range_loop_mark:
  assumes "tree_rep n t A" "1 \<le> n" "n \<le> 31" "2 ^ (n - 1) \<le> i" "i + slots sz \<le> 2 ^ n"
    and "\<forall>j \<in> {i..<i + slots sz}. free_node A j"
  shows "\<exists>t'. range_loop True t \<lparr>pos_index = i, pos_depth = n\<rparr> sz = Some t' \<and> tree_rep n t' (A \<union> {i..<i + slots sz})"
proof (rule range_loop_rows [OF assms(2-5), where G = "\<lambda>j. A \<union> {i..<j}"])
  fix j t assume j: "i \<le> j" "j < i + slots sz" and rep: "tree_rep n t (A \<union> {i..<j})"
  have row: "2 ^ (n - 1) \<le> j" "j < 2 ^ n" using j assms(4,5) by linarith+
  have "\<not> below k j \<and> \<not> below j k" if "k \<in> {i..<j}" for k
    using row_below [OF assms(2) _ _ row, of k] row_below [OF assms(2) row, of k] that assms(4) row(2) by auto
  then have "free_node (A \<union> {i..<j}) j" using assms(6) j by (auto simp: free_node_def)
  moreover have "insert j (A \<union> {i..<j}) = A \<union> {i..<Suc j}" using j(1) by auto
  ultimately show "\<exists>t'. toggle True t (pos_of j) = Some t' \<and> tree_rep n t' (A \<union> {i..<Suc j})"
    using mark_rep [OF rep row_node [OF assms(2) row]] by (simp add: toggle_def)
qed (use assms(1) in simp)

lemma range_loop_release:
  assumes "tree_rep n t A" "1 \<le> n" "n \<le> 31" "2 ^ (n - 1) \<le> i" "i + slots sz \<le> 2 ^ n" "{i..<i + slots sz} \<subseteq> A"
  shows "\<exists>t'. range_loop False t \<lparr>pos_index = i, pos_depth = n\<rparr> sz = Some t' \<and> tree_rep n t' (A - {i..<i + slots sz})"
proof (rule range_loop_rows [OF assms(2-5), where G = "\<lambda>j. A - {i..<j}"])
  fix j t assume j: "i \<le> j" "j < i + slots sz" and rep: "tree_rep n t (A - {i..<j})"
  have "j \<in> A - {i..<j}" using assms(6) j by auto
  moreover have "A - {i..<j} - {j} = A - {i..<Suc j}" using j(1) by auto
  ultimately show "\<exists>t'. toggle False t (pos_of j) = Some t' \<and> tree_rep n t' (A - {i..<Suc j})"
    using release_rep [OF rep, of j] by (simp add: toggle_def)
qed (use assms(1) in simp)

subsection \<open>The operations\<close>

definition range_leaves :: "nat \<Rightarrow> nat \<Rightarrow> nat \<Rightarrow> nat set" where
  "range_leaves n off sz = {leaf n off..<leaf n off + slots sz}"

lemma slots_fit:
  assumes "off + sz \<le> msize" "msize mod 64 = 0"
  shows "64 * (off div 64 + slots sz) \<le> msize"
proof -
  obtain m where m: "msize = 64 * m" using assms(2) by auto
  have q: "64 * (off div 64) + sz \<le> 64 * m" using assms(1) times_div_less_eq_dividend [of 64 off] unfolding m by linarith
  then have "off div 64 \<le> m" by linarith
  then obtain d where d: "m = off div 64 + d" by (auto dest: le_Suc_ex)
  have "sz + 63 < (d + 1) * 64" using q unfolding d by simp
  then have "slots sz < d + 1" unfolding slots_def by (rule less_mult_imp_div_less)
  then show ?thesis unfolding m d by simp
qed

lemma range_row:
  assumes "mem_ok n msize" "off + sz \<le> msize"
  shows "2 ^ (n - 1) \<le> leaf n off" "leaf n off + slots sz \<le> 2 ^ n"
    "(\<Union>j \<in> range_leaves n off sz. block n j) = {64 * (off div 64)..<64 * (off div 64 + slots sz)}"
proof -
  note m = mem_okD [OF assms(1)]
  show "2 ^ (n - 1) \<le> leaf n off" by (simp add: leaf_def)
  have "64 * (off div 64 + slots sz) \<le> 2 ^ (n + 5)" using slots_fit [OF assms(2) m(4)] m(5) by linarith
  then have "off div 64 + slots sz \<le> 2 ^ (n - 1)" unfolding arena_pow [OF m(2)] by simp
  moreover have "(2 :: nat) ^ n = 2 * 2 ^ (n - 1)" using m(2) by (cases n) simp_all
  ultimately show le: "leaf n off + slots sz \<le> 2 ^ n" by (simp add: leaf_def)
  show "(\<Union>j \<in> range_leaves n off sz. block n j) = {64 * (off div 64)..<64 * (off div 64 + slots sz)}"
    unfolding range_leaves_def leaf_def by (rule range_blocks [OF m(2)]) (use le in \<open>simp add: leaf_def\<close>)
qed

lemma toggle_range_eq:
  assumes "arena_rep n b A" "0 < sz" "off + sz \<le> memory_size b"
  shows "buddy_toggle_range_reservation (Some b) (buddy_main b + off) sz state =
    map_option (\<lambda>t. Some (b\<lparr>btree := t\<rparr>)) (range_loop state (btree b) \<lparr>pos_index = leaf n off, pos_depth = n\<rparr> sz)"
proof -
  note a = arena_repD [OF assms(1)]
  have lt: "off + sz \<le> 2 ^ (n + 5)" using assms(3) mem_okD(5) [OF a(1)] by linarith
  then have off: "off < 2 ^ (n + 5)" using assms(2) by linarith
  have "add64 (buddy_main b + off) sz = buddy_main b + off + sz" "add64 (buddy_main b) (memory_size b) = buddy_main b + memory_size b"
    "sub64 (buddy_main b + off) (buddy_main b) = off"
    using a(4) lt mem_okD(5) [OF a(1)] by (simp_all add: add64_small sub64_small)
  moreover have "deepest_position_for_offset b off = \<lparr>pos_index = leaf n off, pos_depth = n\<rparr>"
    using deepest_position_eq [OF assms(1) off] leaf_bounds(2) [OF a(7) off] by (simp add: pos_of_def)
  ultimately show ?thesis using assms(2,3) a(3)
    by (simp add: buddy_toggle_range_reservation_def map_conv_bind_option o_def)
qed

lemma reserve_range_rep:
  assumes "buddy_rep n b U" "0 < sz" "off + sz \<le> memory_size b"
    and "\<forall>u \<in> U. block n u \<inter> {64 * (off div 64)..<64 * (off div 64 + slots sz)} = {}"
  shows "\<exists>t. buddy_reserve_range (Some b) (buddy_main b + off) sz = Some (Some (b\<lparr>btree := t\<rparr>)) \<and>
    buddy_rep n (b\<lparr>btree := t\<rparr>) (U \<union> range_leaves n off sz) \<and> U \<inter> range_leaves n off sz = {}"
proof -
  obtain V where V: "U \<inter> V = {}" "tail_cover n (memory_size b) V" "arena_rep n b (U \<union> V)"
    using assms(1) by (auto simp: buddy_rep_def)
  note a = arena_repD [OF V(3)] and m = mem_okD [OF arena_repD(1) [OF V(3)]]
  note row = range_row [OF a(1) assms(3)]
  have free: "free_node (U \<union> V) j" if "j \<in> range_leaves n off sz" for j
  proof -
    have j: "2 ^ (n - 1) \<le> j" "j < 2 ^ n" using that row(1,2) by (simp_all add: range_leaves_def)
    have sub: "block n j \<subseteq> {64 * (off div 64)..<64 * (off div 64 + slots sz)}" using that row(3) by blast
    have "boff n j + bsize n j - 1 \<in> block n j" using bsize_pos [of n j] unfolding block_def atLeastLessThan_iff by linarith
    then have "boff n j + bsize n j - 1 < 64 * (off div 64 + slots sz)" using sub by auto
    then have "boff n j + bsize n j \<le> memory_size b" using slots_fit [OF assms(3) m(4)] by linarith
    then show ?thesis using free_node_usable [OF V(2) a(9) row_node [OF a(7) j]] assms(4) sub by blast
  qed
  then have "range_leaves n off sz \<inter> (U \<union> V) = {}" unfolding free_node_def using below_refl by blast
  moreover obtain t where t: "range_loop True (btree b) \<lparr>pos_index = leaf n off, pos_depth = n\<rparr> sz = Some t"
      "tree_rep n t (U \<union> V \<union> range_leaves n off sz)"
    using range_loop_mark [OF a(2,7,8) row(1,2)] free unfolding range_leaves_def by blast
  moreover have "U \<union> V \<union> range_leaves n off sz = (U \<union> range_leaves n off sz) \<union> V" by blast
  ultimately have "buddy_rep n (b\<lparr>btree := t\<rparr>) (U \<union> range_leaves n off sz)"
    using V arena_rep_btree [OF V(3) t(2)] unfolding buddy_rep_def by (intro exI [of _ V]) auto
  then show ?thesis using toggle_range_eq [OF V(3) assms(2,3)] t(1) \<open>range_leaves n off sz \<inter> (U \<union> V) = {}\<close>
    by (auto simp: buddy_reserve_range_def)
qed

lemma release_range_rep:
  assumes "buddy_rep n b U" "0 < sz" "off + sz \<le> memory_size b" "range_leaves n off sz \<subseteq> U"
  shows "\<exists>t. buddy_unsafe_release_range (Some b) (buddy_main b + off) sz = Some (Some (b\<lparr>btree := t\<rparr>)) \<and>
    buddy_rep n (b\<lparr>btree := t\<rparr>) (U - range_leaves n off sz)"
proof -
  obtain V where V: "U \<inter> V = {}" "tail_cover n (memory_size b) V" "arena_rep n b (U \<union> V)"
    using assms(1) by (auto simp: buddy_rep_def)
  note a = arena_repD [OF V(3)]
  note row = range_row [OF a(1) assms(3)]
  obtain t where t: "range_loop False (btree b) \<lparr>pos_index = leaf n off, pos_depth = n\<rparr> sz = Some t"
      "tree_rep n t (U \<union> V - range_leaves n off sz)"
    using range_loop_release [OF a(2,7,8) row(1,2), of] assms(4) unfolding range_leaves_def by blast
  have "U \<union> V - range_leaves n off sz = (U - range_leaves n off sz) \<union> V" using V(1) assms(4) by blast
  then have "buddy_rep n (b\<lparr>btree := t\<rparr>) (U - range_leaves n off sz)"
    using V arena_rep_btree [OF V(3) t(2)] unfolding buddy_rep_def by (intro exI [of _ V]) auto
  then show ?thesis using toggle_range_eq [OF V(3) assms(2,3)] t(1) by (auto simp: buddy_unsafe_release_range_def)
qed

subsection \<open>Properties\<close>

lemma range_covered:
  assumes "0 < sz"
  shows "{off..<off + sz} \<subseteq> {64 * (off div 64)..<64 * (off div 64 + slots sz)} \<longleftrightarrow> off mod 64 + (sz - 1) mod 64 < 64"
proof -
  obtain s where s: "sz = Suc s" using assms by (cases sz) auto
  define a r c d where "a = off div 64" and "r = off mod 64" and "c = s div 64" and "d = s mod 64"
  have "off = 64 * a + r" "s = 64 * c + d" "slots sz = Suc c"
    by (simp_all add: a_def r_def c_def d_def slots_def s)
  then have "off + sz \<le> 64 * (a + slots sz) \<longleftrightarrow> r + d < 64" unfolding s by simp linarith
  moreover have "64 * a \<le> off" by (simp add: a_def)
  ultimately show ?thesis using assms unfolding s by (simp add: a_def r_def d_def)
qed

text \<open>C16: reserving a range inside the arena hands out the slots of 64 bytes from the one the range begins in, as
  many as the size takes, provided that nothing is handed out there: nothing else changes, so no later
  allocation touches them. They cover the range exactly when it does not cross one slot boundary more than its
  size needs, as when it begins at a slot. Releasing the range gives back what was reserved.\<close>

theorem reserve_range_correct:
  assumes "buddy_rep n b U" "0 < sz" "off + sz \<le> memory_size b"
    and "\<forall>u \<in> U. block n u \<inter> {64 * (off div 64)..<64 * (off div 64 + slots sz)} = {}"
  shows "\<exists>b' b'' R. buddy_reserve_range (Some b) (buddy_main b + off) sz = Some (Some b') \<and>
    buddy_rep n b' (U \<union> R) \<and> U \<inter> R = {} \<and>
    (\<Union>j \<in> R. block n j) = {64 * (off div 64)..<64 * (off div 64 + slots sz)} \<and>
    ({off..<off + sz} \<subseteq> (\<Union>j \<in> R. block n j) \<longleftrightarrow> off mod 64 + (sz - 1) mod 64 < 64) \<and>
    buddy_unsafe_release_range (Some b') (buddy_main b + off) sz = Some (Some b'') \<and> buddy_rep n b'' U"
proof -
  let ?R = "range_leaves n off sz"
  obtain t where t: "buddy_reserve_range (Some b) (buddy_main b + off) sz = Some (Some (b\<lparr>btree := t\<rparr>))"
      "buddy_rep n (b\<lparr>btree := t\<rparr>) (U \<union> ?R)" "U \<inter> ?R = {}"
    using reserve_range_rep [OF assms] by blast
  have m: "mem_ok n (memory_size b)" using assms(1) by (auto simp: buddy_rep_def arena_rep_def)
  note blocks = range_row(3) [OF m assms(3)]
  have "U \<union> ?R - ?R = U" using t(3) by blast
  then obtain t' where "buddy_unsafe_release_range (Some (b\<lparr>btree := t\<rparr>)) (buddy_main b + off) sz = Some (Some (b\<lparr>btree := t'\<rparr>))"
      "buddy_rep n (b\<lparr>btree := t'\<rparr>) U"
    using release_range_rep [OF t(2) assms(2), of off] assms(3) by auto
  then show ?thesis using t blocks range_covered [OF assms(2)]
    by (intro exI [of _ "b\<lparr>btree := t\<rparr>"] exI [of _ "b\<lparr>btree := t'\<rparr>"] exI [of _ ?R]) simp
qed

text \<open>On the arena of 128 bytes, the first slot.\<close>

theorem reserve_range_correct_witness:
  "\<exists>b b'. buddy_rep 2 b {} \<and> buddy_reserve_range (Some b) 65536 40 = Some (Some b') \<and>
     (\<exists>b''. buddy_unsafe_release_range (Some b') 65536 40 = Some (Some b'') \<and> buddy_rep 2 b'' {})"
proof -
  obtain b where b: "buddy_rep 2 b {}" "memory_size b = 128" "buddy_main b = 65536" using example_arena by blast
  show ?thesis using reserve_range_correct [OF b(1), of 40 0] b by auto
qed

text \<open>A range that crosses a slot boundary is reserved only in part: of 64 bytes from the middle of the first
  slot of an arena of 128 bytes the second half can still be handed out.\<close>

theorem reserve_range_misaligned:
  "\<exists>b b' b''. buddy_rep 2 b {} \<and> buddy_main b = 65536 \<and> buddy_reserve_range (Some b) (65536 + 32) 64 = Some (Some b') \<and>
     buddy_malloc (Some b') 64 = Some (65536 + 64, Some b'')"
proof -
  obtain b where b: "buddy_rep 2 b {}" "memory_size b = 128" "buddy_main b = 65536" using example_arena by blast
  have R: "range_leaves 2 32 64 = {2}" by (auto simp: range_leaves_def leaf_def slots_def)
  obtain t where t: "buddy_reserve_range (Some b) (65536 + 32) 64 = Some (Some (b\<lparr>btree := t\<rparr>))"
      "buddy_rep 2 (b\<lparr>btree := t\<rparr>) {2}"
    using reserve_range_rep [OF b(1), of 64 32] b R by auto
  have len: "bit_length 2 = 2" "bit_length 3 = 2" "bit_length 1 = 1" using bit_length_eqI [of 1] bit_length_eqI [of 0 1] by auto
  have usable: "usable 2 (b\<lparr>btree := t\<rparr>) {2} 64 j \<longleftrightarrow> j = 3" for j
  proof -
    have "node 2 j \<longleftrightarrow> j = 1 \<or> j = 2 \<or> j = 3" by (auto simp: node_def)
    then show ?thesis using len b(2) by (auto simp: usable_def block_def boff_def bsize_def)
  qed
  then have "\<exists>b''. buddy_malloc (Some (b\<lparr>btree := t\<rparr>)) 64 = Some (65536 + 64, Some b'')"
    using malloc_rep [OF t(2) refl, of 64] b(3) len by (auto simp: boff_def bsize_def)
  then show ?thesis using b t(1) by blast
qed

end
