(* ===== verification/BuddyFree.thy ===== *)
theory BuddyFree
  imports BuddyRange
begin

text \<open>
  \<open>buddy_is_free\<close> of \<open>src/mem/Buddy.cpp\<close>, which decides whether an arena may shrink: what it answers, and what
  it overlooks.
\<close>

subsection \<open>Intervals of leaves\<close>

definition first_leaf :: "nat \<Rightarrow> nat \<Rightarrow> nat" where
  "first_leaf n i = i * 2 ^ (n - bit_length i)"

definition last_leaf :: "nat \<Rightarrow> nat \<Rightarrow> nat" where
  "last_leaf n i = i * 2 ^ (n - bit_length i) + (2 ^ (n - bit_length i) - 1)"

lemma last_leaf_Suc: "last_leaf n i + 1 = (i + 1) * 2 ^ (n - bit_length i)"
  by (simp add: last_leaf_def)

lemma leaf_order: "first_leaf n i \<le> last_leaf n i"
  unfolding first_leaf_def last_leaf_def by (rule le_add1)

lemma leaf_row:
  assumes "node n i"
  shows "2 ^ (n - 1) \<le> first_leaf n i" "last_leaf n i < 2 ^ n"
proof -
  note d = node_depth [OF assms]
  have i: "2 ^ (bit_length i - 1) \<le> i" "i + 1 \<le> 2 ^ bit_length i"
    using bit_length_bounds [of i] assms by (auto simp: node_def)
  have "2 ^ (bit_length i - 1) * 2 ^ (n - bit_length i) \<le> first_leaf n i"
    unfolding first_leaf_def using i(1) by (rule mult_le_mono1)
  then show "2 ^ (n - 1) \<le> first_leaf n i" using d by (simp add: power_add [symmetric])
  have "(i + 1) * 2 ^ (n - bit_length i) \<le> 2 ^ bit_length i * 2 ^ (n - bit_length i)" using i(2) by (rule mult_le_mono1)
  also have "\<dots> = 2 ^ n" using d by (simp add: power_add [symmetric])
  finally show "last_leaf n i < 2 ^ n" unfolding last_leaf_Suc [symmetric] by simp
qed

lemma leaf_children:
  assumes "bit_length i < n" "0 < i"
  shows "first_leaf n (2 * i) = first_leaf n i" "last_leaf n (2 * i + 1) = last_leaf n i"
proof -
  obtain k where k: "n - bit_length i = Suc k" using assms(1) by (cases "n - bit_length i") auto
  then have k': "n - Suc (bit_length i) = k" by simp
  show "first_leaf n (2 * i) = first_leaf n i"
    unfolding first_leaf_def bit_length_double(1) [OF assms(2)] k k' by simp
  show "last_leaf n (2 * i + 1) = last_leaf n i"
    unfolding last_leaf_def Suc_eq_plus1 [symmetric] bit_length_double(2) k k' by simp
qed

lemma leaf_itself: "bit_length i = n \<Longrightarrow> first_leaf n i = i \<and> last_leaf n i = i"
  by (simp add: first_leaf_def last_leaf_def)

lemma last_even:
  assumes "node n i" "even (last_leaf n i)"
  shows "bit_length i = n"
proof (rule ccontr)
  assume "bit_length i \<noteq> n"
  then obtain k where k: "n - bit_length i = Suc k" using node_depth [OF assms(1)] by (cases "n - bit_length i") auto
  have "even (last_leaf n i + 1)" unfolding last_leaf_Suc k by simp
  then show False using assms(2) by simp
qed

lemma block_leaves:
  assumes "node n i"
  shows "block n i = {64 * (first_leaf n i - 2 ^ (n - 1))..<64 * (last_leaf n i + 1 - 2 ^ (n - 1))}"
proof -
  note d = node_depth [OF assms]
  define e where "e = n - bit_length i"
  define h :: nat where "h = 2 ^ (bit_length i - 1)"
  have h: "h \<le> i" using bit_length_bounds [of i] assms by (auto simp: node_def h_def)
  have n: "n + 6 - bit_length i = 6 + e" "n - 1 = bit_length i - 1 + e" using d by (simp_all add: e_def)
  have size: "bsize n i = 64 * 2 ^ e" unfolding bsize_def n(1) by (simp add: power_add)
  have top: "(2 :: nat) ^ (n - 1) = h * 2 ^ e" unfolding n(2) h_def by (simp add: power_add)
  have first: "first_leaf n i - 2 ^ (n - 1) = (i - h) * 2 ^ e"
    unfolding top first_leaf_def e_def [symmetric] by (simp add: diff_mult_distrib)
  have "last_leaf n i + 1 = (i + 1) * 2 ^ e" unfolding e_def by (rule last_leaf_Suc)
  then have "last_leaf n i + 1 - 2 ^ (n - 1) = (i + 1 - h) * 2 ^ e" unfolding top by (simp add: diff_mult_distrib)
  moreover have "i + 1 - h = (i - h) + 1" using h by simp
  ultimately have last: "last_leaf n i + 1 - 2 ^ (n - 1) = (i - h) * 2 ^ e + 2 ^ e" by simp
  show ?thesis unfolding block_def boff_def size first last h_def [symmetric] by (simp add: algebra_simps)
qed

lemma interval_of:
  assumes "tree_ok n t" "node n i"
  shows "buddy_tree_interval t (pos_of i) = \<lparr>int_from = pos_of (first_leaf n i), int_to = pos_of (last_leaf n i)\<rparr>"
proof -
  note ok = tree_okD(1) [OF assms(1)]
  have down: "(buddy_tree_left_child ^^ k) (pos_of i) = pos_of (i * 2 ^ k) \<and>
      (buddy_tree_right_child ^^ k) (pos_of i) = pos_of (i * 2 ^ k + (2 ^ k - 1)) \<and>
      bit_length (i * 2 ^ k) = bit_length i + k \<and> bit_length (i * 2 ^ k + (2 ^ k - 1)) = bit_length i + k"
    if "bit_length i + k \<le> n" for k
    using that
  proof (induction k)
    case (Suc k)
    let ?a = "i * 2 ^ k" and ?b = "i * 2 ^ k + (2 ^ k - 1)"
    have IH: "(buddy_tree_left_child ^^ k) (pos_of i) = pos_of ?a" "(buddy_tree_right_child ^^ k) (pos_of i) = pos_of ?b"
      "bit_length ?a = bit_length i + k" "bit_length ?b = bit_length i + k" using Suc by simp_all
    have node: "node n ?a" "node n ?b" using IH(3,4) Suc.prems node_depth [OF assms(2)] by (simp_all add: node_iff_depth)
    have "1 \<le> x \<Longrightarrow> 2 * (x - 1) + 1 = 2 * x - (1 :: nat)" for x by simp
    from this [of "2 ^ k"] have b: "2 * ?b + 1 = i * 2 ^ Suc k + (2 ^ Suc k - 1)" by simp
    have a: "2 * ?a = i * 2 ^ Suc k" by simp
    have "0 < ?a" "0 < ?b" using node by (simp_all add: node_def)
    then have len: "bit_length (2 * ?a) = Suc (bit_length i + k)" "bit_length (2 * ?b + 1) = Suc (bit_length i + k)"
      using bit_length_double(1) [of ?a] bit_length_double(2) [of ?b] IH(3,4) by simp_all
    have "buddy_tree_left_child (pos_of ?a) = pos_of (2 * ?a)" "buddy_tree_right_child (pos_of ?b) = pos_of (2 * ?b + 1)"
      using child_pos_of [OF ok node(1)] child_pos_of [OF ok node(2)] IH(3,4) Suc.prems by simp_all
    then show ?case using IH(1,2) len unfolding a b by simp
  qed simp
  have "n \<le> 31" using ok by (simp add: order_ok_def)
  then have "sub64 (tree_order t) (pos_depth (pos_of i)) = n - bit_length i"
    using tree_okD(2) [OF assms(1)] node_depth [OF assms(2)] by (simp add: pos_of_def sub64_small)
  then show ?thesis using down [of "n - bit_length i"] node_depth [OF assms(2)]
    by (simp add: buddy_tree_interval_def first_leaf_def last_leaf_def Let_def)
qed

lemma interval_above_root: "pos_index (int_from (buddy_tree_interval t (buddy_tree_parent (pos_of 1)))) = 0"
proof -
  have "pos_index ((buddy_tree_left_child ^^ k) \<lparr>pos_index = 0, pos_depth = d\<rparr>) = 0" for k d
    by (induction k) (simp_all add: buddy_tree_left_child_def mul64_def)
  then show ?thesis by (simp add: buddy_tree_interval_def buddy_tree_parent_def pos_of_def Let_def)
qed

subsection \<open>Widening a position\<close>

definition inside :: "nat \<Rightarrow> nat \<Rightarrow> nat \<Rightarrow> nat \<Rightarrow> bool" where
  "inside n f l i \<longleftrightarrow> f \<le> first_leaf n i \<and> last_leaf n i \<le> l"

lemma contains_iff:
  assumes "tree_ok n t" "node n i"
  shows "buddy_tree_interval_contains \<lparr>int_from = pos_of f, int_to = pos_of l\<rparr> (buddy_tree_interval t (pos_of i)) \<longleftrightarrow>
    inside n f l i"
  using interval_of [OF assms] leaf_order [of n i]
  by (auto simp: buddy_tree_interval_contains_def inside_def pos_of_def)

lemma widen_loop_spec:
  assumes "tree_ok n t" "0 < f" "node n i" "inside n f l i"
  shows "\<exists>a. widen_loop t \<lparr>int_from = pos_of f, int_to = pos_of l\<rparr> (pos_of i) (buddy_tree_interval t (pos_of i))
      (buddy_tree_interval t (buddy_tree_parent (pos_of i))) = Some (pos_of a, buddy_tree_interval t (pos_of a)) \<and>
    node n a \<and> below a i \<and> inside n f l a \<and> (a = 1 \<or> \<not> inside n f l (a div 2))"
  using assms(3,4)
proof (induction i rule: less_induct)
  case (less i)
  let ?q = "\<lparr>int_from = pos_of f, int_to = pos_of l\<rparr>"
  show ?case
  proof (cases "i = 1")
    case True
    have "\<not> buddy_tree_interval_contains ?q (buddy_tree_interval t (buddy_tree_parent (pos_of 1)))"
      using interval_above_root [of t] assms(2) by (simp add: buddy_tree_interval_contains_def pos_of_def)
    then show ?thesis using True less.prems by (subst widen_loop.simps) auto
  next
    case False
    note p = node_half [OF less.prems(1) False]
    note up = parent_pos_of [OF tree_okD(1) [OF assms(1)] less.prems(1) False]
    have lt: "i div 2 < i" using less.prems(1) by (simp add: node_def)
    show ?thesis
    proof (cases "inside n f l (i div 2)")
      case True
      have "widen_loop t ?q (pos_of i) (buddy_tree_interval t (pos_of i)) (buddy_tree_interval t (pos_of (i div 2))) =
          widen_loop t ?q (pos_of (i div 2)) (buddy_tree_interval t (pos_of (i div 2)))
            (buddy_tree_interval t (buddy_tree_parent (pos_of (i div 2))))"
        using True contains_iff [OF assms(1) p, of f l] by (subst widen_loop.simps) (simp add: up Let_def)
      then show ?thesis unfolding up using less.IH [OF lt p True] below_half by metis
    next
      case out: False
      then have "widen_loop t ?q (pos_of i) (buddy_tree_interval t (pos_of i)) (buddy_tree_interval t (pos_of (i div 2))) =
          Some (pos_of i, buddy_tree_interval t (pos_of i))"
        using contains_iff [OF assms(1) p, of f l] by (subst widen_loop.simps) simp
      then show ?thesis unfolding up using out less.prems by (intro exI [of _ i]) simp
    qed
  qed
qed

lemma node_row: "node n i \<Longrightarrow> bit_length i = n \<Longrightarrow> 2 ^ (n - 1) \<le> i"
  using bit_length_bounds [of i] by (auto simp: node_def)

lemma right_adjacent_row:
  assumes "1 \<le> n" "n \<le> 31" "2 ^ (n - 1) \<le> y" "y + 1 < 2 ^ n"
  shows "buddy_tree_right_adjacent (pos_of y) = pos_of (y + 1)"
proof -
  have "(2 :: nat) ^ n \<le> 2 ^ 31" using assms(2) by (rule power_increasing) simp
  then have add: "add64 y 1 = y + 1" using assms(4) by (simp add: add64_small)
  have top: "bit z k \<longleftrightarrow> k = n - 1" if "2 ^ (n - 1) \<le> z" "z < 2 ^ n" "n - 1 \<le> k" for z k :: nat
  proof -
    have "z div 2 ^ (n - 1) = 1"
      by (rule div_nat_eqI) (use that assms(1) in \<open>simp_all add: power_eq_if\<close>)
    then have "bit z k \<longleftrightarrow> bit (1 :: nat) (k - (n - 1))"
      using that(3) by (metis add.commute bit_drop_bit_eq comp_apply drop_bit_eq_div le_add_diff_inverse)
    then show ?thesis using that(3) by (auto simp: bit_Suc_0_iff)
  qed
  have "take_bit (n - 1) ((y + 1) XOR y) = (y + 1) XOR y"
  proof (rule bit_eqI)
    fix k
    show "bit (take_bit (n - 1) ((y + 1) XOR y)) k \<longleftrightarrow> bit ((y + 1) XOR y) k"
      using top [of y k] top [of "y + 1" k] assms(3,4)
      by (cases "k < n - 1") (auto simp: bit_take_bit_iff bit_xor_iff)
  qed
  then have "(y + 1) XOR y < 2 ^ (n - 1)" by (metis take_bit_nat_less_exp)
  then have "\<not> (y + 1) XOR y > y" using assms(3) by linarith
  moreover have "bit_length (y + 1) = bit_length y"
    using row_length [OF assms(1,3)] row_length [OF assms(1) _ assms(4)] assms(3,4) by simp
  ultimately show ?thesis using add by (simp add: buddy_tree_right_adjacent_def pos_of_def)
qed

subsection \<open>The loop\<close>

text \<open>No allocated block meets the leaves from \<open>x\<close> to before \<open>y\<close>.\<close>

definition leaves_free :: "nat \<Rightarrow> nat set \<Rightarrow> nat \<Rightarrow> nat \<Rightarrow> bool" where
  "leaves_free n A x y \<longleftrightarrow> (\<forall>a \<in> A. block n a \<inter> {64 * (x - 2 ^ (n - 1))..<64 * (y - 2 ^ (n - 1))} = {})"

lemma leaves_free_node:
  assumes "alloc_wf n A" "node n i"
  shows "free_node A i \<longleftrightarrow> leaves_free n A (first_leaf n i) (last_leaf n i + 1)"
  unfolding free_node_blocks [OF assms] leaves_free_def block_leaves [OF assms(2)] ..

lemma leaves_free_sub: "leaves_free n A x y \<Longrightarrow> x \<le> x' \<Longrightarrow> y' \<le> y \<Longrightarrow> leaves_free n A x' y'"
  unfolding leaves_free_def by fastforce

lemma leaves_free_join: "leaves_free n A x y \<Longrightarrow> leaves_free n A x' z \<Longrightarrow> x' \<le> y \<Longrightarrow> leaves_free n A x z"
  unfolding leaves_free_def by fastforce

text \<open>The loop looks at the leaf \<open>l\<close> only when it is a right child.\<close>

definition seen :: "nat \<Rightarrow> nat" where
  "seen l = (if odd l then l + 1 else l)"

lemma around_leaf:
  assumes "node n a" "node n p" "bit_length p = n" "below a p"
  shows "first_leaf n a \<le> p" "p \<le> last_leaf n a"
proof -
  have p: "2 ^ (n - 1) \<le> p" using node_row [OF assms(2,3)] .
  have "64 * (p - 2 ^ (n - 1)) \<in> block n p" using leaf_itself [OF assms(3)] p by (simp add: block_leaves [OF assms(2)])
  then have "64 * (p - 2 ^ (n - 1)) \<in> block n a" using block_mono [OF assms(1,2,4)] by blast
  then have "64 * (first_leaf n a - 2 ^ (n - 1)) \<le> 64 * (p - 2 ^ (n - 1))"
      "64 * (p - 2 ^ (n - 1)) < 64 * (last_leaf n a + 1 - 2 ^ (n - 1))"
    unfolding block_leaves [OF assms(1)] atLeastLessThan_iff by blast+
  then show "first_leaf n a \<le> p" "p \<le> last_leaf n a" using leaf_row(1) [OF assms(1)] p by linarith+
qed

text \<open>\<open>a\<close> is the widest node over \<open>p\<close> inside the query: its last leaf is \<open>l\<close> only if \<open>l\<close> is a right child, and the leaf
  before \<open>l\<close> only if it is not.\<close>

lemma widest_end:
  assumes "node n a" "first_leaf n a \<le> p" "p \<le> last_leaf n a" "f \<le> p" "p < l"
    and "a = 1 \<or> \<not> inside n f l (a div 2)"
  shows "\<not> (even l \<and> last_leaf n a = l)" "\<not> (odd l \<and> last_leaf n a + 1 = l)"
proof -
  show "\<not> (even l \<and> last_leaf n a = l)"
    using last_even [OF assms(1)] leaf_itself [of a n] assms(2,5) by auto
  show "\<not> (odd l \<and> last_leaf n a + 1 = l)"
  proof
    assume l: "odd l \<and> last_leaf n a + 1 = l"
    then have len: "bit_length a = n" using last_even [OF assms(1)] by auto
    have next_leaf: "a + 1 = l" using l leaf_itself [OF len] by simp
    then have even: "even a" "a = p" using l assms(2,3) leaf_itself [OF len] by auto
    then have a1: "a \<noteq> 1" by auto
    have half: "2 * (a div 2) = a" using even(1) by simp
    have h: "node n (a div 2)" "0 < a div 2" "bit_length (a div 2) = n - 1" "1 < n"
      using node_half [OF assms(1) a1] len bit_length_half [of a] node_depth [OF node_half [OF assms(1) a1]]
      by (auto simp: node_def)
    have "bit_length (a + 1) = n" using h(2,3,4) bit_length_double(2) [of "a div 2"] half by simp
    then have "first_leaf n (a div 2) = a" "last_leaf n (a div 2) = a + 1"
      using leaf_children [of "a div 2" n] h half leaf_itself [OF len] leaf_itself [of "a + 1" n] by simp_all
    then have "inside n f l (a div 2)" using assms(4) even(2) next_leaf by (simp add: inside_def)
    then show False using assms(6) a1 by simp
  qed
qed

lemma is_free_loop_stops:
  assumes "y < 2 ^ 31" "l \<le> y + 1"
  shows "buddy_is_free_loop t \<lparr>int_from = q, int_to = pos_of l\<rparr> (buddy_tree_right_adjacent (pos_of y)) = Some True"
proof -
  have "add64 y 1 = y + 1" using assms(1) by (simp add: add64_small)
  then have "\<not> pos_index (buddy_tree_right_adjacent (pos_of y)) < l \<or> pos_index (buddy_tree_right_adjacent (pos_of y)) = 0"
    using assms(2) by (simp add: buddy_tree_right_adjacent_def pos_of_def INVALID_POS_def)
  then show ?thesis by (subst buddy_is_free_loop.simps) (auto simp: buddy_tree_valid_def pos_of_def)
qed

text \<open>One round: from a leaf of the query to behind the widest node over it.\<close>

lemma is_free_loop_round:
  assumes "tree_rep n t A" "2 ^ (n - 1) \<le> f" "f \<le> p" "p < l" "l < 2 ^ n"
  shows "\<exists>a. node n a \<and> first_leaf n a \<le> p \<and> p \<le> last_leaf n a \<and> f \<le> first_leaf n a \<and> last_leaf n a \<le> l \<and>
    last_leaf n a + 1 \<le> seen l \<and> (l \<le> last_leaf n a + 1 \<longrightarrow> seen l = last_leaf n a + 1) \<and>
    buddy_is_free_loop t \<lparr>int_from = pos_of f, int_to = pos_of l\<rparr> (pos_of p) =
      (if leaves_free n A (first_leaf n a) (last_leaf n a + 1)
       then buddy_is_free_loop t \<lparr>int_from = pos_of f, int_to = pos_of l\<rparr> (buddy_tree_right_adjacent (pos_of (last_leaf n a)))
       else Some False)"
proof -
  let ?q = "\<lparr>int_from = pos_of f, int_to = pos_of l\<rparr>"
  note ok = tree_repD(1) [OF assms(1)] and wf = tree_repD(4) [OF assms(1)]
  have n: "1 \<le> n" using tree_okD(1) [OF ok] by (simp add: order_ok_def)
  have f: "0 < f" using assms(2) less_le_trans [of 0 "2 ^ (n - 1)" f] by simp
  have p: "2 ^ (n - 1) \<le> p" "p < 2 ^ n" using assms by linarith+
  have np: "node n p" and lp: "bit_length p = n" using row_node [OF n p] row_length [OF n p] by blast+
  have "inside n f l p" using assms(3,4) leaf_itself [OF lp] by (simp add: inside_def)
  from widen_loop_spec [OF ok f np this] obtain a where
    a: "widen_loop t ?q (pos_of p) (buddy_tree_interval t (pos_of p)) (buddy_tree_interval t (buddy_tree_parent (pos_of p)))
        = Some (pos_of a, buddy_tree_interval t (pos_of a))"
      "node n a" "below a p" "inside n f l a" "a = 1 \<or> \<not> inside n f l (a div 2)" by blast
  note around = around_leaf [OF a(2) np lp a(3)]
  note ends = widest_end [OF a(2) around assms(3,4) a(5)]
  have valid: "buddy_tree_valid t (pos_of p)" using valid_iff [OF ok, of "pos_of p"] np by (simp add: pos_of_wf)
  have "buddy_is_free_loop t ?q (pos_of p) = (if \<not> buddy_tree_is_free t (pos_of a) then Some False
      else buddy_is_free_loop t ?q (buddy_tree_right_adjacent (pos_of (last_leaf n a))))"
    using valid assms(4) a(1) interval_of [OF ok a(2)]
    by (subst buddy_is_free_loop.simps) (simp add: pos_of_def)
  moreover have "buddy_tree_is_free t (pos_of a) \<longleftrightarrow> leaves_free n A (first_leaf n a) (last_leaf n a + 1)"
    using is_free_rep [OF assms(1) a(2)] leaves_free_node [OF wf a(2)] by simp
  ultimately show ?thesis using a(2,4) around ends by (intro exI [of _ a]) (auto simp: inside_def seen_def)
qed

lemma is_free_loop_spec:
  assumes "tree_rep n t A" "2 ^ (n - 1) \<le> f" "f \<le> p" "p < l" "l < 2 ^ n" "leaves_free n A f p"
  shows "buddy_is_free_loop t \<lparr>int_from = pos_of f, int_to = pos_of l\<rparr> (pos_of p) = Some (leaves_free n A f (seen l))"
  using assms(3,4,6)
proof (induction "l - p" arbitrary: p rule: less_induct)
  case less
  have n: "1 \<le> n" "n \<le> 31" using tree_okD(1) [OF tree_repD(1) [OF assms(1)]] by (simp_all add: order_ok_def)
  obtain a where a: "first_leaf n a \<le> p" "p \<le> last_leaf n a" "f \<le> first_leaf n a" "last_leaf n a \<le> l"
      "last_leaf n a + 1 \<le> seen l" "l \<le> last_leaf n a + 1 \<longrightarrow> seen l = last_leaf n a + 1"
    and step: "buddy_is_free_loop t \<lparr>int_from = pos_of f, int_to = pos_of l\<rparr> (pos_of p) =
      (if leaves_free n A (first_leaf n a) (last_leaf n a + 1)
       then buddy_is_free_loop t \<lparr>int_from = pos_of f, int_to = pos_of l\<rparr> (buddy_tree_right_adjacent (pos_of (last_leaf n a)))
       else Some False)"
    using is_free_loop_round [OF assms(1,2) less.prems(1,2) assms(5)] by blast
  show ?case
  proof (cases "leaves_free n A (first_leaf n a) (last_leaf n a + 1)")
    case False
    then show ?thesis using step leaves_free_sub [OF _ a(3,5)] by auto
  next
    case True
    then have upto: "leaves_free n A f (last_leaf n a + 1)" using leaves_free_join [OF less.prems(3) _ a(1)] by blast
    show ?thesis
    proof (cases "last_leaf n a + 1 < l")
      case more: True
      have row: "2 ^ (n - 1) \<le> last_leaf n a" "last_leaf n a + 1 < 2 ^ n" using assms(2,5) less.prems(1) a(2) more by linarith+
      show ?thesis using step True right_adjacent_row [OF n row] less.hyps [of "last_leaf n a + 1"] more upto
          less.prems(1,2) a(2) by simp
    next
      case stop: False
      have "last_leaf n a < 2 ^ n" "(2 :: nat) ^ n \<le> 2 ^ 31"
        using a(4) assms(5) power_increasing [OF n(2), of "2 :: nat"] by simp_all
      then show ?thesis using is_free_loop_stops [of "last_leaf n a" l] step True upto a(6) stop by simp
    qed
  qed
qed

subsection \<open>The answer\<close>

definition nothing_from :: "nat \<Rightarrow> nat set \<Rightarrow> nat \<Rightarrow> nat \<Rightarrow> bool" where
  "nothing_from n U x y \<longleftrightarrow> (\<forall>u \<in> U. block n u \<inter> {64 * (x div 64)..<y} = {})"

lemma leaves_free_bytes: "leaves_free n A (2 ^ (n - 1) + x) (2 ^ (n - 1) + y) \<longleftrightarrow> (\<forall>a \<in> A. block n a \<inter> {64 * x..<64 * y} = {})"
  by (simp add: leaves_free_def)

text \<open>The last leaf of the query: the last of the arena, or the first virtual slot.\<close>

definition query_end :: "nat \<Rightarrow> buddy \<Rightarrow> nat" where
  "query_end n b = (if virtual_slots b = 0 then 2 ^ (n - 1) - 1 else memory_size b div 64)"

lemma arena_slots:
  assumes "mem_ok n (memory_size b)" "virtual_slots b = (2 ^ (n + 5) - memory_size b) div 64" "lo < memory_size b"
  shows "memory_size b = 64 * (memory_size b div 64)" "2 ^ (n + 5) = 64 * (2 ^ (n - 1) :: nat)"
    "virtual_slots b = 2 ^ (n - 1) - memory_size b div 64" "memory_size b div 64 \<le> 2 ^ (n - 1)"
    "lo div 64 < memory_size b div 64" "lo div 64 \<le> query_end n b" "query_end n b < 2 ^ (n - 1)"
proof -
  note m = mem_okD [OF assms(1)]
  define M where "M = memory_size b div 64"
  have M: "memory_size b = 64 * M" using m(4) by (simp add: M_def mod_0_imp_dvd dvd_mult_div_cancel)
  have top: "2 ^ (n + 5) = 64 * (2 ^ (n - 1) :: nat)" by (rule arena_pow [OF m(2)])
  have v: "virtual_slots b = 2 ^ (n - 1) - M" using assms(2) unfolding top M by (simp add: diff_mult_distrib2 [symmetric])
  have le: "M \<le> 2 ^ (n - 1)" "lo div 64 < M"
    using m(5) assms(3) unfolding top M by (simp_all add: less_mult_imp_div_less mult.commute)
  show "memory_size b = 64 * (memory_size b div 64)" "2 ^ (n + 5) = 64 * (2 ^ (n - 1) :: nat)"
    "virtual_slots b = 2 ^ (n - 1) - memory_size b div 64" "memory_size b div 64 \<le> 2 ^ (n - 1)"
    "lo div 64 < memory_size b div 64" "lo div 64 \<le> query_end n b" "query_end n b < 2 ^ (n - 1)"
    using M top v le by (auto simp: M_def [symmetric] query_end_def)
qed

lemma buddy_is_free_query:
  assumes "arena_rep n b A" "virtual_slots b = (2 ^ (n + 5) - memory_size b) div 64" "lo < memory_size b"
  shows "buddy_is_free b lo = Some (lo div 64 = query_end n b \<or>
    leaves_free n A (2 ^ (n - 1) + lo div 64) (seen (2 ^ (n - 1) + query_end n b)))"
proof -
  note a = arena_repD [OF assms(1)] and m = mem_okD [OF arena_repD(1) [OF assms(1)]]
  note sl = arena_slots [OF a(1) assms(2,3)]
  define N :: nat where "N = 2 ^ (n - 1)"
  define T where "T = query_end n b"
  note sl = sl [folded N_def T_def]
  have two: "2 ^ n = 2 * N" using m(2) by (cases n) (simp_all add: N_def)
  have N31: "64 * N < 2 ^ 64" using a(4) sl(2) by linarith
  have eff: "buddy_effective_memory_size b = 64 * N" using m(7) sl(2) by (simp add: buddy_effective_memory_size_def)
  have goal: "sub64 (64 * N) (mul64 (if virtual_slots b \<noteq> 0 then virtual_slots b else 1) 64) = 64 * T"
  proof -
    define M where "M = memory_size b div 64"
    have "T = (if virtual_slots b = 0 then N - 1 else M)" by (simp add: T_def query_end_def N_def M_def)
    then show ?thesis using sl(3-5) [folded M_def] N31 by (auto simp: mul64_small sub64_small diff_mult_distrib2)
  qed
  have q: "deepest_position_for_offset b lo = pos_of (N + lo div 64)" "deepest_position_for_offset b (64 * T) = pos_of (N + T)"
    using deepest_position_eq [OF assms(1), of lo] deepest_position_eq [OF assms(1), of "64 * T"] assms(3) m(5) sl(2,7)
    by (simp_all add: leaf_def N_def)
  have start: "buddy_is_free b lo =
      buddy_is_free_loop (btree b) \<lparr>int_from = pos_of (N + lo div 64), int_to = pos_of (N + T)\<rparr> (pos_of (N + lo div 64))"
    unfolding buddy_is_free_def Let_def eff BUDDY_ALLOC_ALIGN_def goal q ..
  show ?thesis
  proof (cases "lo div 64 = T")
    case True
    then show ?thesis unfolding start by (subst buddy_is_free_loop.simps) (simp add: pos_of_def T_def)
  next
    case False
    have "leaves_free n A (N + lo div 64) (N + lo div 64)" by (simp add: leaves_free_def)
    then show ?thesis using is_free_loop_spec [OF a(2), of "N + lo div 64" "N + lo div 64" "N + T"] sl(6,7) False two
      unfolding start by (simp add: N_def T_def)
  qed
qed

lemma buddy_is_free_spec:
  assumes "buddy_rep n b U" "virtual_slots b = (2 ^ (n + 5) - memory_size b) div 64" "lo < memory_size b"
  shows "buddy_is_free b lo = Some (if virtual_slots b = 0
     then lo div 64 + 1 = memory_size b div 64 \<or> nothing_from n U lo (memory_size b)
     else even (memory_size b div 64) \<and> nothing_from n U lo (memory_size b))"
proof -
  obtain V where V: "tail_cover n (memory_size b) V" "arena_rep n b (U \<union> V)"
    using assms(1) by (auto simp: buddy_rep_def)
  note m = mem_okD [OF arena_repD(1) [OF V(2)]]
  define N :: nat where "N = 2 ^ (n - 1)"
  define M where "M = memory_size b div 64"
  define F where "F = lo div 64"
  define T where T0: "T = query_end n b"
  note sl = arena_slots [OF arena_repD(1) [OF V(2)] assms(2,3), folded N_def M_def F_def T0]
  note M = sl(1) and top = sl(2) and v = sl(3)
  have le: "M \<le> N" "F < M" "0 < N" using sl by (simp_all add: N_def)
  have T_def: "T = (if virtual_slots b = 0 then N - 1 else M)" by (simp add: T0 query_end_def N_def M_def)
  note query = buddy_is_free_query [OF V(2) assms(2,3), folded N_def F_def T0]
  have clear: "(\<forall>a \<in> U \<union> V. block n a \<inter> {64 * F..<64 * M} = {}) \<longleftrightarrow> nothing_from n U lo (memory_size b)"
  proof -
    have "block n a \<inter> {64 * F..<64 * M} = {}" if "a \<in> V" for a
    proof -
      have "(\<Union>v \<in> V. block n v) = {memory_size b..<2 ^ (n + 5)}" using V(1) by (simp only: tail_cover_def)
      then have "block n a \<subseteq> {memory_size b..<2 ^ (n + 5)}" using that by blast
      then show ?thesis unfolding M by (simp only: disjoint_iff) fastforce
    qed
    then show ?thesis unfolding nothing_from_def M F_def by blast
  qed
  have bytes: "leaves_free n (U \<union> V) (N + F) (N + M) \<longleftrightarrow> nothing_from n U lo (memory_size b)"
    unfolding N_def leaves_free_bytes by (rule clear)
  have result: "F = T \<or> leaves_free n (U \<union> V) (N + F) (seen (N + T)) \<longleftrightarrow> (if virtual_slots b = 0
     then F + 1 = M \<or> nothing_from n U lo (memory_size b) else even M \<and> nothing_from n U lo (memory_size b))"
  proof (cases "virtual_slots b = 0")
    case True
    then have NM: "N = M" using v le(1) by simp
    have "odd (N + T)" "F = T \<longleftrightarrow> F + 1 = M" using True le by (auto simp: T_def NM)
    moreover have "N + T + 1 = N + M" using True le(3) by (simp add: T_def NM)
    ultimately have "seen (N + T) = N + M" by (simp add: seen_def)
    then show ?thesis using True \<open>F = T \<longleftrightarrow> F + 1 = M\<close> bytes by simp
  next
    case False
    then have less: "M < N" using v by simp
    then have "n \<noteq> 1" using le by (auto simp: N_def)
    then have even_N: "even N" using m(2) by (simp add: N_def)
    have T': "T = M" "F \<noteq> T" using False le(2) by (simp_all add: T_def)
    show ?thesis
    proof (cases "even M")
      case True
      then have "seen (N + T) = N + M" using even_N by (simp add: seen_def T')
      then show ?thesis using False True T'(2) bytes by simp
    next
      case odd: False
      then have s: "seen (N + T) = N + (M + 1)" using even_N by (simp add: seen_def T')
      have "64 * M \<in> (\<Union>v \<in> V. block n v)" using V(1) less unfolding tail_cover_def top M by simp
      moreover have "64 * M \<in> {64 * F..<64 * (M + 1)}" using le(2) by simp
      ultimately have "\<not> leaves_free n (U \<union> V) (N + F) (N + (M + 1))" unfolding N_def leaves_free_bytes by blast
      then show ?thesis using False odd T'(2) s by simp
    qed
  qed
  show ?thesis using query unfolding result unfolding M_def F_def .
qed

text \<open>C17: what \<open>buddy_is_free\<close> answers, and with it \<open>buddy_can_shrink\<close>, \<open>buddy_is_empty\<close> and the check in
  \<open>buddy_resize\<close>. On an arena without virtual slots: whether nothing is handed out from the slot of the
  offset on, unless that is the last slot, which is taken for free without a look. On one with virtual
  slots: the same when the arena has an even number of slots; with an odd number, never.\<close>

theorem buddy_is_free_correct:
  assumes "buddy_rep n b U" "virtual_slots b = (2 ^ (n + 5) - memory_size b) div 64" "lo < memory_size b"
  shows "buddy_is_free b lo = Some (if virtual_slots b = 0
     then lo div 64 + 1 = memory_size b div 64 \<or> (\<forall>u \<in> U. block n u \<inter> {64 * (lo div 64)..<memory_size b} = {})
     else even (memory_size b div 64) \<and> (\<forall>u \<in> U. block n u \<inter> {64 * (lo div 64)..<memory_size b} = {}))"
  using buddy_is_free_spec [OF assms] by (simp only: nothing_from_def)

text \<open>An arena of four slots: the whole of it is handed out, and the last slot is free all the same.\<close>

lemma example_full: "\<exists>b. buddy_rep 3 b {1} \<and> virtual_slots b = 0 \<and> memory_size b = 256 \<and> buddy_relative_mode b = 0"
proof -
  have ok: "mem_ok 3 256" by (simp add: mem_ok_def order_ok_def)
  obtain b where b: "buddy_rep 3 b {}" "memory_size b = 256" "virtual_slots b = 0" "buddy_main b = 65536"
    "buddy_relative_mode b = 0"
    using init_buddy_rep [of 4096 65536 256 3 blank_buddy] ok by auto
  obtain j b' where j: "usable 3 b {} 256 j" "buddy_rep 3 b' {j}" "\<exists>t. b' = b\<lparr>btree := t\<rparr>"
  proof -
    have "usable 3 b {} 256 1" using b(2) by (simp add: usable_def node_def bsize_def boff_def bit_length_pos)
    then show ?thesis using malloc_rep [OF b(1) refl, of 256] that by (auto simp: max_def)
  qed
  have "bit_length j = 1" using j(1) node_depth [of 3 j] unfolding usable_def bsize_def
    by (cases "bit_length j = 1") (auto simp: le_Suc_eq numeral_eq_Suc)
  then have "j = 1" using bit_length_bounds [of j] by (cases "j = 0") auto
  then show ?thesis using j(2,3) b by (auto simp: buddy_relative_mode_def)
qed

theorem buddy_is_free_correct_witness:
  "\<exists>b. buddy_rep 3 b {1} \<and> buddy_is_free b 192 = Some True \<and> buddy_is_free b 128 = Some False"
proof -
  obtain b where b: "buddy_rep 3 b {1}" "virtual_slots b = 0" "memory_size b = 256" using example_full by blast
  have "block 3 1 = {0..<256}" by (simp add: block_def boff_def bsize_def bit_length_pos)
  then show ?thesis using buddy_is_free_correct [OF b(1), of 192] buddy_is_free_correct [OF b(1), of 128] b
    by (intro exI [of _ b]) simp
qed

subsection \<open>Shrinking over a block\<close>

lemma toggle_last_slot:
  assumes "mem_ok n (memory_size b)" "tree_ok n t" "node n i"
  shows "\<exists>t'. toggle_virtual_loop b True t (pos_of i) 64 = Some t'"
  using assms(3)
proof (induction "n - bit_length i" arbitrary: i rule: less_induct)
  case less
  note m = mem_okD [OF assms(1)]
  have sz: "size_for_depth b (buddy_tree_depth (pos_of i)) = bsize n i"
    using size_for_depth_eq [OF assms(1) less.prems] by (simp add: buddy_tree_depth_def)
  show ?case
  proof (cases "bit_length i = n")
    case True
    then have "bsize n i = 64" by (simp add: bsize_def)
    moreover have "\<exists>t'. buddy_tree_mark t (pos_of i) = Some t'"
      using update_parent_chain_eq [of n "tree_wr t i (height n i)" i "height n i"] assms(2) less.prems
      by (simp add: buddy_tree_mark_def Let_def tree_cell [OF assms(2) less.prems] tree_wr_def)
    ultimately show ?thesis by (subst toggle_virtual_loop.simps) (simp add: sz toggle_def)
  next
    case False
    then have inner: "bit_length i < n" using node_depth [OF less.prems] by simp
    note ch = child_pos_of [OF m(1) less.prems inner]
    have half: "64 \<le> bsize n i div 2" using bsize_64 [OF ch(3)] block_children(3) [OF less.prems inner] by simp
    then have "bsize n i \<noteq> 64" by auto
    moreover have "n - bit_length (2 * i + 1) < n - bit_length i" using inner bit_length_double(2) [of i] by simp
    ultimately show ?thesis using less.hyps [of "2 * i + 1"] ch(2,4) half
      by (subst toggle_virtual_loop.simps) (simp add: sz Let_def)
  qed
qed

lemma resize_last_slot:
  assumes "buddy_rep n b U" "3 \<le> n" "memory_size b = 2 ^ (n + 5)" "virtual_slots b = 0" "buddy_relative_mode b = 0"
  shows "\<exists>b'. buddy_resize b (memory_size b - 64) = Some (True, b') \<and> memory_size b' = memory_size b - 64"
proof -
  have ok: "mem_ok n (memory_size b)" "tree_ok n (btree b)"
    using assms(1) arena_repD(5) by (auto simp: buddy_rep_def arena_rep_def)
  note m = mem_okD [OF ok(1)]
  have "(2 :: nat) ^ 8 \<le> 2 ^ (n + 5)" using assms(2) by (intro power_increasing) simp_all
  then have big: "256 \<le> memory_size b" using assms(3) by simp
  let ?s = "memory_size b - 64"
  obtain k where k: "memory_size b = 64 * k" using m(4) by auto
  then have "?s = 64 * (k - 1)" "4 \<le> k" using big by simp_all
  then have s: "?s mod 64 = 0" and last: "?s div 64 + 1 = memory_size b div 64" using k by simp_all
  have new: "mem_ok n ?s" using m(1,5) s big assms(3) by (simp add: mem_ok_def)
  have free: "buddy_is_free b ?s = Some True"
    using buddy_is_free_spec [OF assms(1), of ?s] assms(3,4) last big by simp
  define b1 where "b1 = b\<lparr>virtual_slots := 0, memory_size := ?s\<rparr>"
  have off: "buddy_toggle_virtual_slots b False = Some (b\<lparr>virtual_slots := 0\<rparr>)"
    using m(7) assms(3) by (simp add: buddy_toggle_virtual_slots_def buddy_effective_memory_size_def)
  have same: "buddy_tree_resize (btree b) (buddy_tree_order_for_memory ?s mod 256) = Some (btree b)"
    using mem_okD(9) [OF new] m(3) tree_okD(2) [OF ok(2)] by (simp add: buddy_tree_resize_def)
  have root: "buddy_tree_right_child buddy_tree_root = pos_of 3"
    by (simp add: buddy_tree_right_child_def buddy_tree_root_def pos_of_def bit_length_pos mul64_small add64_small)
  have "bit_length 3 \<le> n" using assms(2) by (simp add: bit_length_pos)
  then have three: "node n 3" by (simp add: node_iff_depth bit_length_pos)
  obtain A where "arena_rep n b A" using assms(1) by (auto simp: buddy_rep_def)
  then have "(2 :: nat) ^ (n + 5) < 2 ^ 64" using arena_repD(4) [of n b A] by linarith
  then have size: "sub64 (2 ^ (n + 5)) ?s = 64" using big assms(3) by (simp add: sub64_small)
  obtain t where t: "toggle_virtual_loop (b1\<lparr>virtual_slots := 1\<rparr>) True (btree b) (pos_of 3) 64 = Some t"
    using toggle_last_slot [of n "b1\<lparr>virtual_slots := 1\<rparr>", OF _ ok(2) three] new by (auto simp: b1_def)
  have on: "buddy_toggle_virtual_slots b1 True = Some (b1\<lparr>virtual_slots := 1, btree := t\<rparr>)"
    using t mem_okD(7) [OF new] size big assms(3)
    by (simp add: buddy_toggle_virtual_slots_def buddy_effective_memory_size_def b1_def root BUDDY_ALLOC_ALIGN_def Let_def)
  have "b\<lparr>virtual_slots := 0, btree := btree b, memory_size := ?s\<rparr> = b1" by (simp add: b1_def)
  then have "buddy_resize b ?s = Some (True, b1\<lparr>virtual_slots := 1, btree := t\<rparr>)"
    using free off same on s big assms(5)
    by (simp add: buddy_resize_def buddy_resize_standard_def BUDDY_ALLOC_ALIGN_def)
  then show ?thesis by (simp add: b1_def)
qed

text \<open>So an arena of a power of two of at least four slots lets itself be shrunk by one slot whatever is handed
  out in it: a block in that slot then lies behind the end of the arena.\<close>

theorem resize_over_block:
  assumes "buddy_rep n b U" "3 \<le> n" "memory_size b = 2 ^ (n + 5)" "virtual_slots b = 0" "buddy_relative_mode b = 0"
    and "u \<in> U" "2 ^ (n + 5) - 1 \<in> block n u"
  shows "\<exists>b'. buddy_resize b (memory_size b - 64) = Some (True, b') \<and> \<not> block n u \<subseteq> {..<memory_size b'}"
proof -
  obtain b' where b': "buddy_resize b (memory_size b - 64) = Some (True, b')" "memory_size b' = memory_size b - 64"
    using resize_last_slot [OF assms(1-5)] by blast
  have "\<not> 2 ^ (n + 5) - 1 < memory_size b'" using b'(2) assms(3) by simp
  then show ?thesis using b'(1) assms(7) by blast
qed

theorem resize_over_block_witness:
  "\<exists>b b'. buddy_rep 3 b {1} \<and> buddy_resize b 192 = Some (True, b') \<and> \<not> block 3 1 \<subseteq> {..<memory_size b'}"
proof -
  obtain b where b: "buddy_rep 3 b {1}" "virtual_slots b = 0" "memory_size b = 256" "buddy_relative_mode b = 0"
    using example_full by blast
  have "block 3 1 = {0..<256}" by (simp add: block_def boff_def bsize_def bit_length_pos)
  then show ?thesis using resize_over_block [OF b(1) _ _ b(2,4), of 1] b by auto
qed

end
