(* ===== verification/BuddyResize.thy ===== *)
theory BuddyResize
  imports TreeResize BuddyFree
begin

text \<open>
  \<open>buddy_resize\<close> of \<open>src/mem/Buddy.cpp\<close>: an arena of a power of two that grows keeps its blocks where they are; one that
  shrinks loses them.
\<close>

subsection \<open>Growing\<close>

text \<open>A block stays where it is: its node is as far from the left end of its level as before, and as high.\<close>

lemma raised_block:
  assumes "0 < i"
  shows "bsize (n + k) (raised k i) = bsize n i" "boff (n + k) (raised k i) = boff n i"
    "block (n + k) (raised k i) = block n i"
proof -
  obtain d r where d: "i = 2 ^ d + r" "r < 2 ^ d" "bit_length i = Suc d" using place_in_row [OF assms] .
  have l: "bit_length (raised k i) = Suc d + k" using raised_facts(1) [OF assms, of k] d(3) by simp
  show s: "bsize (n + k) (raised k i) = bsize n i" by (simp add: bsize_def l d(3))
  have "raised k i = 2 ^ (d + k) + r" using raised_row(1) [OF d(2), of k] d(1) by simp
  then show "boff (n + k) (raised k i) = boff n i"
    unfolding boff_def s using d(1,3) l by simp
  then show "block (n + k) (raised k i) = block n i" by (simp add: block_def s)
qed

lemma raised_left:
  assumes "0 < i" "0 < k"
  shows "below 2 (raised k i)"
proof -
  obtain j where j: "k = Suc j" using assms(2) by (cases k) auto
  show ?thesis using raised_facts(2,3) [OF assms(1), of j] half_of_tree(1) [of "raised j i"] j by simp
qed

lemma raised_free_right:
  assumes "\<forall>a \<in> A. 0 < a" "0 < k"
  shows "free_node (raised k ` A) 3"
  unfolding free_node_def
proof (intro ballI conjI notI)
  fix a
  assume "a \<in> raised k ` A"
  then have a: "below (2 * 1) a" "0 < a" using raised_left raised_facts(2) assms by auto
  show False if "below a 3"
  proof -
    have "below (2 * 1) 3" using below_trans [OF a(1) that] .
    then show False using below_children_disjoint [of 1 3] by simp
  qed
  show False if "below 3 a" using a(1) that below_children_disjoint [of 1 a] by simp
qed

text \<open>The check asks for a slot behind the arena, which is not in the tree.\<close>

lemma is_free_behind:
  assumes "arena_rep n b A" "2 ^ (n + 5) \<le> lo" "lo < 2 ^ 63"
  shows "buddy_is_free b lo = Some True"
proof -
  note a = arena_repD [OF assms(1)]
  have "2 ^ (n - 1) \<le> lo div 64"
    using div_le_mono [OF assms(2), of 64] arena_pow [OF a(7)] by simp
  moreover have "(2 :: nat) ^ n = 2 * 2 ^ (n - 1)" using a(7) by (cases n) simp_all
  moreover have "(2 :: nat) ^ (n - 1) \<le> 2 ^ 30" using a(8) by (intro power_increasing) simp_all
  moreover have "lo div 64 < 2 ^ 57" using assms(3) by (simp add: less_mult_imp_div_less)
  ultimately have "2 ^ n \<le> add64 (2 ^ (n - 1)) (lo div 64)" by (simp add: add64_small)
  moreover have "buddy_tree_leftmost_child (btree b) = pos_of (2 ^ (n - 1))"
    using a(7,8) first_of_row(2) [of "n - 1" n] tree_okD(2) [OF a(5)]
    by (simp add: buddy_tree_leftmost_child_def buddy_tree_leftmost_child_internal_def pos_of_def sub64_small
        shl32_small shl64_small)
  ultimately have "\<not> buddy_tree_valid (btree b) (deepest_position_for_offset b lo)"
    using tree_okD(3) [OF a(5)]
    by (simp add: deepest_position_for_offset_def buddy_tree_valid_def BUDDY_ALLOC_ALIGN_def)
  then show ?thesis by (simp add: buddy_is_free_def Let_def buddy_is_free_loop.simps)
qed

lemma tail_apart:
  assumes "tail_cover n msize V" "\<forall>u \<in> A. block n u \<subseteq> {..<msize}"
  shows "A \<inter> V = {}"
proof -
  have cover: "(\<Union>v \<in> V. block n v) = {msize..<2 ^ (n + 5)}" using assms(1) by (simp only: tail_cover_def)
  have "v \<notin> A" if v: "v \<in> V" for v
  proof
    assume "v \<in> A"
    then have "boff n v < msize" using assms(2) block_nonempty by blast
    moreover have "boff n v \<in> {msize..<2 ^ (n + 5)}" unfolding cover [symmetric] using v block_nonempty by blast
    ultimately show False by simp
  qed
  then show ?thesis by blast
qed

text \<open>C18: an arena of a power of two grows to any larger size whose tree the allocator has room for: every block stays at its
  offset with its size, nothing else is taken, and the new space can be handed out.\<close>

theorem resize_grows:
  assumes "buddy_rep n b U" "memory_size b = 2 ^ (n + 5)" "buddy_relative_mode b = 0"
    and "mem_ok (n + k) (msize - msize mod 64)" "0 < k" "buddy_main b + 2 ^ (n + k + 5) < 2 ^ 64"
  shows "\<exists>b'. buddy_resize b msize = Some (True, b') \<and> memory_size b' = msize - msize mod 64 \<and>
    buddy_main b' = buddy_main b \<and> buddy_rep (n + k) b' (raised k ` U) \<and>
    (\<forall>u \<in> U. block (n + k) (raised k u) = block n u)"
proof -
  obtain V where V: "tail_cover n (memory_size b) V" "arena_rep n b (U \<union> V)"
    using assms(1) by (auto simp: buddy_rep_def)
  have "V = {}" using V(1) block_nonempty unfolding tail_cover_def assms(2) by fastforce
  then have rep: "arena_rep n b U" using V(2) by simp
  note a = arena_repD [OF rep]
  define ms where "ms = msize - msize mod 64"
  note m = mem_okD [OF assms(4), folded ms_def]
  have pos: "\<forall>u \<in> U. 0 < u" using a(9) by (auto simp: alloc_wf_def node_def)
  have two: "(2 :: nat) ^ (n + k + 5) = 2 ^ (n + 5) * 2 ^ k" by (simp add: power_add)
  have "(2 :: nat) ^ (n + 5) * 2 \<le> 2 ^ (n + 5) * 2 ^ k" using assms(5) by (cases k) simp_all
  then have big: "2 ^ (n + 5) < ms" using m(6) two by linarith
  have "(2 :: nat) ^ (n + k + 5) \<le> 2 ^ 36" using m(3) by (intro power_increasing) simp_all
  then have small: "ms \<le> 2 ^ 36" using m(5) by linarith
  then have msize: "msize < 2 ^ 63" using mod_less_divisor [of 64 msize] unfolding ms_def by simp
  have trim: "(if msize mod BUDDY_ALLOC_ALIGN \<noteq> 0 then sub64 msize (msize mod BUDDY_ALLOC_ALIGN) else msize) = ms"
    using msize by (simp add: ms_def BUDDY_ALLOC_ALIGN_def sub64_small)
  have free: "buddy_is_free b ms = Some True" using is_free_behind [OF rep, of ms] big small by simp
  have off: "buddy_toggle_virtual_slots b False = Some (b\<lparr>virtual_slots := 0\<rparr>)"
    using mem_okD(7) [OF a(1)] assms(2) by (simp add: buddy_toggle_virtual_slots_def buddy_effective_memory_size_def)
  obtain t where t: "buddy_tree_grow (btree b) (n + k) = Some t" "tree_rep (n + k) t (raised k ` U)"
    using grow_rep [OF a(2) m(1)] by blast
  have resized: "buddy_tree_resize (btree b) (buddy_tree_order_for_memory ms mod 256) = Some t"
    using t(1) m(3,9) assms(5) tree_okD(2) [OF a(5)] by (simp add: buddy_tree_resize_def)
  define b1 where "b1 = b\<lparr>virtual_slots := 0, btree := t, memory_size := ms\<rparr>"
  have b1: "memory_size b1 = ms" "btree b1 = t" "buddy_main b1 = buddy_main b"
    by (simp_all add: b1_def buddy_main_def buddy_relative_mode_def)
  obtain t' W where W: "buddy_toggle_virtual_slots b1 True =
      Some (b1\<lparr>virtual_slots := (2 ^ (n + k + 5) - ms) div 64, btree := t'\<rparr>)"
    "tree_rep (n + k) t' (raised k ` U \<union> W)" "tail_cover (n + k) ms W"
    using toggle_virtual_slots_rep [of "n + k" b1 "raised k ` U"] assms(4) t(2) raised_free_right [OF pos assms(5)]
    by (auto simp: b1 ms_def)
  define b' where "b' = b1\<lparr>virtual_slots := (2 ^ (n + k + 5) - ms) div 64, btree := t'\<rparr>"
  have b': "memory_size b' = ms" "btree b' = t'" "buddy_main b' = buddy_main b"
    by (simp_all add: b'_def b1_def buddy_main_def buddy_relative_mode_def)
  have blocks: "block (n + k) (raised k u) = block n u" if "u \<in> U" for u
    using raised_block(3) pos that by blast
  have "block n u \<subseteq> {..<ms}" if "u \<in> U" for u
    using block_lt [of n u] a(9) that big by (fastforce simp: alloc_wf_def)
  then have "raised k ` U \<inter> W = {}" using tail_apart [OF W(3)] blocks by auto
  then have "buddy_rep (n + k) b' (raised k ` U)"
    using W(2,3) assms(4,6) a(3) unfolding buddy_rep_def arena_rep_def b' by (auto intro!: exI [of _ W] simp: ms_def)
  moreover have "buddy_resize b msize = Some (True, b')"
    using free off resized W(1) trim big assms(2,3) ms_def
    by (auto simp: buddy_resize_def buddy_resize_standard_def Let_def b1_def b'_def)
  ultimately show ?thesis using b'(1,3) blocks by (auto simp: ms_def)
qed

text \<open>An arena of four slots at 65536, the first of which is handed out.\<close>

lemma example_first_slot:
  "\<exists>b. buddy_rep 3 b {4} \<and> memory_size b = 256 \<and> virtual_slots b = 0 \<and> buddy_relative_mode b = 0 \<and> buddy_main b = 65536"
proof -
  have ok: "mem_ok 3 256" by (simp add: mem_ok_def order_ok_def)
  obtain b where b: "buddy_rep 3 b {}" "memory_size b = 256" "virtual_slots b = 0" "buddy_main b = 65536"
    "buddy_relative_mode b = 0"
    using init_buddy_rep [of 4096 65536 256 3 blank_buddy] ok by auto
  obtain V where V: "tail_cover 3 (memory_size b) V" "arena_rep 3 b ({} \<union> V)" using b(1) unfolding buddy_rep_def by blast
  have none: "V = {}" using V(1) block_nonempty unfolding tail_cover_def b(2) by fastforce
  have four: "node 3 4" "free_node V 4" by (simp_all add: node_def free_node_def none)
  obtain t where "buddy_tree_mark (btree b) (pos_of 4) = Some t" "tree_rep 3 t (insert 4 V)"
    using mark_rep [OF arena_repD(2) [OF V(2)], of 4] four by auto
  then have "arena_rep 3 (b\<lparr>btree := t\<rparr>) {4}" using arena_rep_btree [OF V(2)] none by simp
  moreover have "tail_cover 3 256 {}" by (simp add: tail_cover_def)
  ultimately have "buddy_rep 3 (b\<lparr>btree := t\<rparr>) {4}" using b(2) unfolding buddy_rep_def by (intro exI [of _ "{}"]) simp
  then show ?thesis using b(2-5) by (intro exI [of _ "b\<lparr>btree := t\<rparr>"]) (simp add: buddy_relative_mode_def)
qed

theorem resize_grows_witness:
  "\<exists>b b'. buddy_rep 3 b {4} \<and> buddy_resize b 1000 = Some (True, b') \<and> memory_size b' = 960 \<and> buddy_rep 5 b' {16} \<and>
     block 5 16 = {0..<64}"
proof -
  obtain b where b: "buddy_rep 3 b {4}" "memory_size b = 256" "buddy_relative_mode b = 0" "buddy_main b = 65536"
    using example_first_slot by blast
  have "mem_ok (3 + 2) (1000 - 1000 mod 64)" by (simp add: mem_ok_def order_ok_def)
  moreover have "raised 2 4 = 16" by (simp add: raised_def bit_length_pos)
  moreover have "block 3 4 = {0..<64}" by (simp add: block_def boff_def bsize_def bit_length_pos)
  ultimately show ?thesis using resize_grows [OF b(1) _ b(3), of 2 1000] b by auto
qed

subsection \<open>Shrinking\<close>

text \<open>The levels move towards the start of the bitset, and after each the shift clears bits that lie in the level before.\<close>

lemma bcount_two: "bcount b a (a + 2) = of_bool (bget b a) + of_bool (bget b (a + 1))"
  by (simp add: bcount_def sum.op_ivl_Suc del: sum_of_bool_eq)

lemma first_slot_statuses: "astat {4} 3 1 = 1" "astat {4} 2 2 = 1" "astat {4} 2 3 = 0"
proof -
  have "astat {4} (Suc (Suc (Suc 0))) 1 = 1" "astat {4} (Suc (Suc 0)) 2 = 1" "astat {4} (Suc (Suc 0)) 3 = 0"
    by (simp_all add: target_parent_def)
  then show "astat {4} 3 1 = 1" "astat {4} 2 2 = 1" "astat {4} 2 3 = 0" by (simp_all only: numeral_3_eq_3 numeral_2_eq_2)
qed

lemma shrink_bits:
  assumes "tree_rep 3 t {4}"
  shows "\<exists>t'. buddy_tree_shrink t 2 = Some t' \<and> tree_ok 2 t' \<and> tree_rd t' 1 = 1 \<and> tree_rd t' 2 = 0 \<and> tree_rd t' 3 = 0"
proof -
  note ok = tree_repD(1,2) [OF assms]
  have ok2: "order_ok 2" by (simp add: order_ok_def)
  have ord: "tree_order t = 3" "upper_pos_bound t = 8" using tree_okD(2,3) [OF ok(1)] by simp_all
  have nodes: "node 3 1" "node 3 2" "node 3 3" "node 3 4" "node 2 1" "node 2 2" "node 2 3" by (simp_all add: node_def)
  have len: "bit_length 1 = 1" "bit_length 2 = 2" "bit_length 3 = 2" "bit_length 4 = 3" by (simp_all add: bit_length_pos)
  have rows: "row_start 3 0 = 0" "row_start 3 1 = 3" "row_start 3 2 = 7" "row_start 2 0 = 0" "row_start 2 1 = 2"
    by (simp_all add: row_start_def numeral_eq_Suc)
  have h: "height 3 1 = 3" "height 3 2 = 2" "height 3 3 = 2" "height 3 4 = 1" "height 2 1 = 2" "height 2 2 = 1" "height 2 3 = 1"
    by (simp_all add: height_def len del: One_nat_def)
  have loc: "node_loc 3 (pos_of 1) = 0" "node_loc 3 (pos_of 2) = 3" "node_loc 3 (pos_of 4) = 7"
    "node_loc 2 (pos_of 1) = 0" "node_loc 2 (pos_of 2) = 2" "node_loc 2 (pos_of 3) = 3"
    by (simp_all add: node_loc_def node_height_pos_of h len [simplified] rows [simplified])
  have st: "tree_rd t 1 = 1" "tree_rd t 2 = 1" "tree_rd t 3 = 0"
    using tree_repD(5) [OF assms nodes(1)] tree_repD(5) [OF assms nodes(2)] tree_repD(5) [OF assms nodes(3)]
    by (simp_all only: h first_slot_statuses)
  have "tree_rd t 2 = (if bget (tree_bits t) 3 then bcount (tree_bits t) 3 (3 + 2) else 0)"
    using tree_rd_cell [OF ok(1) nodes(2)] by (simp add: h loc read_cell)
  then have "(if bget (tree_bits t) 3 then of_bool (bget (tree_bits t) 3) + of_bool (bget (tree_bits t) (3 + 1)) else 0) = (1 :: nat)"
    by (simp only: st(2) bcount_two)
  then have bits: "bget (tree_bits t) 3" "\<not> bget (tree_bits t) 4"
    by (cases "bget (tree_bits t) 3"; cases "bget (tree_bits t) 4"; simp)+
  have cells: "buddy_tree_internal_position_order 3 (pos_of 2) = \<lparr>local_offset = 2, bitset_location = 3\<rparr>"
    "buddy_tree_internal_position_order 3 (pos_of 4) = \<lparr>local_offset = 1, bitset_location = 7\<rparr>"
    "buddy_tree_internal_position_order 2 (pos_of 1) = \<lparr>local_offset = 2, bitset_location = 0\<rparr>"
    "buddy_tree_internal_position_order 2 (pos_of 2) = \<lparr>local_offset = 1, bitset_location = 2\<rparr>"
    using internal_position_order [OF ok(2), of "pos_of 2"] internal_position_order [OF ok(2), of "pos_of 4"]
      internal_position_order [OF ok2, of "pos_of 1"] internal_position_order [OF ok2, of "pos_of 2"] nodes
    by (simp_all add: pos_of_wf node_height_pos_of h [simplified] loc [simplified])
  have moves: "buddy_tree_left_child buddy_tree_root = pos_of 2" "buddy_tree_left_child (pos_of 2) = pos_of 4"
    "buddy_tree_parent (pos_of 2) = pos_of 1" "buddy_tree_parent (pos_of 4) = pos_of 2"
    "pos_index (buddy_tree_left_child (pos_of 4)) = 8"
    by (simp_all add: buddy_tree_left_child_def buddy_tree_parent_def buddy_tree_root_def pos_of_def len [simplified] mul64_small
        add64_small sub64_small)
  define b1 where "b1 = bitset_shift_left (tree_bits t) 3 5 3"
  define b2 where "b2 = bitset_shift_left b1 7 9 5"
  have two: "sub64 2 1 = 1" "sub64 3 1 = 2" "shl32 1 = 2" "shl32 2 = 4" "sub64 3 0 = 3" "sub64 7 2 = 5" "add64 3 (2 * 2 div 2) = 5"
    "mul64 2 2 = 4" "mul64 1 4 = 4" "add64 3 2 = 5" "add64 7 2 = 9"
    by (simp_all add: sub64_small shl32_small add64_small mul64_small)
  have last_row: "shrink_rows (t\<lparr>tree_bits := b1\<rparr>) 3 2 (pos_of 4) = Some (t\<lparr>tree_bits := b2\<rparr>)"
    by (subst shrink_rows.simps, simp add: buddy_tree_valid_def ord cells cells [simplified] moves two two [simplified] len Let_def b2_def)
      (subst shrink_rows.simps, simp add: buddy_tree_valid_def ord moves)
  have rows_done: "shrink_rows t 3 2 (pos_of 2) = Some (t\<lparr>tree_bits := b2\<rparr>)"
    using last_row by (subst shrink_rows.simps) (simp add: buddy_tree_valid_def ord cells cells [simplified] moves two two [simplified] len Let_def b1_def)
  have b2: "bget b2 0" "\<not> bget b2 1" "\<not> bget b2 2" "\<not> bget b2 3"
    using bits by (simp_all add: b1_def b2_def bget_shift_left)
  define t' where "t' = buddy_tree_populate_size_for_order
    (t\<lparr>tree_bits := b2, tree_order := 2, upper_pos_bound := 4\<rparr>)"
  have ok': "tree_ok 2 t'" unfolding t'_def by (rule populate_ok [OF ok2]) simp_all
  have b': "tree_bits t' = b2" by (simp add: t'_def buddy_tree_populate_size_for_order_def Let_def)
  have rd: "tree_rd t' 1 = 1" "tree_rd t' 2 = 0" "tree_rd t' 3 = 0"
    using tree_rd_cell [OF ok' nodes(5)] tree_rd_cell [OF ok' nodes(6)] tree_rd_cell [OF ok' nodes(7)] b2 bcount_two [of b2 0]
    by (simp_all add: h loc b' read_cell del: One_nat_def)
  have right: "buddy_tree_right_child buddy_tree_root = pos_of 3"
    by (simp add: buddy_tree_right_child_def buddy_tree_root_def pos_of_def bit_length_pos mul64_small add64_small)
  have root: "buddy_tree_internal_position_tree t buddy_tree_root = \<lparr>local_offset = 3, bitset_location = 0\<rparr>"
    unfolding root_pos_of tree_cell [OF ok(1) nodes(1)] h(1) loc(1) by (rule refl)
  have content: "read_from_internal_position (tree_bits t) \<lparr>local_offset = 3, bitset_location = 0\<rparr> = 1"
    using st(1) unfolding tree_rd_cell [OF ok(1) nodes(1)] h(1) loc(1) .
  have can: "buddy_tree_can_shrink t"
    using st(3) by (simp add: buddy_tree_can_shrink_def right tree_rd_def root content)
  have stop: "buddy_tree_shrink t' 2 = Some t'" using tree_okD(2) [OF ok'] by (subst buddy_tree_shrink.simps) simp
  have "buddy_tree_shrink t 2 = Some t'"
    using stop can rows_done unfolding t'_def
    by (subst buddy_tree_shrink.simps) (simp add: ord moves two two [simplified] shl32_small)
  then show ?thesis using ok' rd by blast
qed

text \<open>C19: when an arena of four slots whose first slot is handed out shrinks to its first half, the status of that slot is
  lost, and the next request for a slot gets the same block again.\<close>

theorem resize_hands_out_again:
  assumes "buddy_rep 3 b {4}" "memory_size b = 256" "virtual_slots b = 0" "buddy_relative_mode b = 0"
  shows "\<exists>b1 b2. buddy_resize b 128 = Some (True, b1) \<and> memory_size b1 = 128 \<and>
    buddy_malloc (Some b1) 64 = Some (buddy_main b + boff 3 4, Some b2)"
proof -
  obtain V where V: "tail_cover 3 (memory_size b) V" "arena_rep 3 b ({4} \<union> V)" using assms(1) unfolding buddy_rep_def by blast
  have "V = {}" using V(1) block_nonempty unfolding tail_cover_def assms(2) by fastforce
  then have rep: "arena_rep 3 b {4}" using V(2) by simp
  note a = arena_repD [OF rep]
  have ok2: "mem_ok 2 128" by (simp add: mem_ok_def order_ok_def)
  have free: "buddy_is_free b 128 = Some True"
    using buddy_is_free_spec [OF assms(1), of 128] assms(2,3)
    by (auto simp: nothing_from_def block_def boff_def bsize_def bit_length_pos)
  have off: "buddy_toggle_virtual_slots b False = Some (b\<lparr>virtual_slots := 0\<rparr>)"
    using mem_okD(7) [OF a(1)] assms(2) by (simp add: buddy_toggle_virtual_slots_def buddy_effective_memory_size_def)
  obtain t where t: "buddy_tree_shrink (btree b) 2 = Some t" "tree_ok 2 t" "tree_rd t 1 = 1" "tree_rd t 2 = 0" "tree_rd t 3 = 0"
    using shrink_bits [OF a(2)] by blast
  have resized: "buddy_tree_resize (btree b) (buddy_tree_order_for_memory 128 mod 256) = Some t"
    using t(1) mem_okD(9) [OF ok2] tree_okD(2) [OF a(5)] by (simp add: buddy_tree_resize_def)
  define b1 where "b1 = b\<lparr>virtual_slots := 0, btree := t, memory_size := 128\<rparr>"
  have on: "buddy_toggle_virtual_slots b1 True = Some b1"
    using mem_okD(7) [OF ok2] by (simp add: buddy_toggle_virtual_slots_def buddy_effective_memory_size_def b1_def)
  have r: "buddy_resize b 128 = Some (True, b1)"
    using free off resized on assms(2,4)
    by (simp add: buddy_resize_def buddy_resize_standard_def Let_def b1_def BUDDY_ALLOC_ALIGN_def)
  have nodes: "node 2 1" "node 2 2" by (simp_all add: node_def)
  have ch: "buddy_tree_left_child buddy_tree_root = pos_of 2" "buddy_tree_sibling (pos_of 2) = pos_of 3"
    using child_pos_of(1) [OF mem_okD(1) [OF ok2] nodes(1)] by (simp_all add: root_pos_of buddy_tree_sibling_def pos_of_def bit_length_pos)
  have rd: "read_from_internal_position (tree_bits t) \<lparr>local_offset = 1, bitset_location = 2\<rparr> = 0"
    "read_from_internal_position (tree_bits t) \<lparr>local_offset = 1, bitset_location = 3\<rparr> = 0"
    "buddy_tree_internal_position_tree t (pos_of 2) = \<lparr>local_offset = 1, bitset_location = 2\<rparr>"
  proof -
    have "node 2 3" by (simp add: node_def)
    moreover have "height 2 2 = 1" "height 2 3 = 1" "node_loc 2 (pos_of 2) = 2" "node_loc 2 (pos_of 3) = 3"
      by (simp_all add: height_def node_loc_def node_height_pos_of bit_length_pos row_start_def)
    ultimately show "read_from_internal_position (tree_bits t) \<lparr>local_offset = 1, bitset_location = 2\<rparr> = 0"
      "read_from_internal_position (tree_bits t) \<lparr>local_offset = 1, bitset_location = 3\<rparr> = 0"
      "buddy_tree_internal_position_tree t (pos_of 2) = \<lparr>local_offset = 1, bitset_location = 2\<rparr>"
      using t(4,5) tree_rd_cell [OF t(2) nodes(2)] tree_rd_cell [OF t(2), of 3] tree_cell [OF t(2) nodes(2)] by simp_all
  qed
  define d where "d = depth_for_size b1 64"
  have m1: "memory_size b1 = 128" "btree b1 = t" "buddy_main b1 = buddy_main b"
    by (simp_all add: b1_def buddy_main_def buddy_relative_mode_def)
  have "d = 1 \<or> d = 2" "2 ^ (8 - d) < (128 :: nat)"
    using depth_for_size_bounds [of 2 b1 64, folded d_def] ok2 m1(1) by auto
  then have d: "d = 2" by auto
  have st: "buddy_tree_status t buddy_tree_root = 1" using t(3) by (simp add: tree_rd_def root_pos_of)
  have found: "buddy_tree_find_free t d lb = Some (pos_of 2)" for lb
  proof -
    have "find_free_loop t 2 l (pos_of 2) 0 2 0 = Some (pos_of 2)" for l by (subst find_free_loop.simps) simp
    then have "find_free_loop t 2 l buddy_tree_root 1 1 1 = Some (pos_of 2)" for l
      by (subst find_free_loop.simps) (simp add: ch rd rd [simplified] add64_small numeral_2_eq_2 [symmetric] Let_def)
    then show ?thesis by (simp add: buddy_tree_find_free_def d st buddy_tree_depth_def Let_def) (simp add: buddy_tree_root_def)
  qed
  obtain t2 where t2: "buddy_tree_mark t (pos_of 2) = Some t2"
    using update_parent_chain_eq [of 2 "tree_wr t 2 (height 2 2)" 2] t(2) nodes(2) tree_cell [OF t(2) nodes(2)]
    by (simp add: buddy_tree_mark_def tree_wr_def Let_def)
  have at: "address_for_position b1 (pos_of 2) = buddy_main b + boff 3 4"
    using address_for_position_eq [of 2 b1 2] ok2 m1 nodes(2) a(4) by (simp add: boff_def bsize_def bit_length_pos)
  have "buddy_tree_valid t (pos_of 2)" using valid_iff [OF t(2), of "pos_of 2"] nodes(2) by (simp add: pos_of_wf)
  then have "buddy_malloc (Some b1) 64 = Some (buddy_main b + boff 3 4, Some (b1\<lparr>btree := t2\<rparr>))"
    using found t2 at m1 d_def by (simp add: buddy_malloc_def Let_def)
  then show ?thesis using r m1(1) by blast
qed

theorem resize_hands_out_again_witness:
  "\<exists>b b1 b2. buddy_rep 3 b {4} \<and> buddy_resize b 128 = Some (True, b1) \<and> buddy_malloc (Some b1) 64 = Some (65536, Some b2)"
proof -
  obtain b where b: "buddy_rep 3 b {4}" "memory_size b = 256" "virtual_slots b = 0" "buddy_relative_mode b = 0"
    "buddy_main b = 65536" using example_first_slot by blast
  then show ?thesis using resize_hands_out_again [OF b(1-4)] by (auto simp: boff_def bit_length_pos)
qed

end
