(* ===== verification/ArrayListMerge.thy ===== *)
theory ArrayListMerge
  imports ArrayListSort
begin

text \<open>
  The rest of \<open>class ArrayList\<close> (\<open>src/include/List.h\<close>) that can be instantiated: merge sort, which
  equals a functional merge sort, the copy of the array, and adding a list at an index.
\<close>

subsection \<open>Operations\<close>

definition getArray :: "(int \<Rightarrow> 'a) \<Rightarrow> 'a array_list \<Rightarrow> (int \<Rightarrow> 'a)" where
  "getArray fresh l = (\<lambda>i. if 0 \<le> i \<and> i < al_size l then arr l i else fresh i)"

text \<open>\<open>index + list.getSize()\<close> is unsigned, and so are the comparisons it takes part in.\<close>

definition uint32 :: "int \<Rightarrow> int" where
  "uint32 i = i mod 2 ^ 32"

definition int32 :: "int \<Rightarrow> int" where
  "int32 i = (i + 2 ^ 31) mod 2 ^ 32 - 2 ^ 31"

primrec add_list_loop ::
  "nat \<Rightarrow> 'a array_list \<Rightarrow> 'a array_list \<Rightarrow> int \<Rightarrow> (int \<Rightarrow> 'a) \<Rightarrow> int \<Rightarrow> int \<Rightarrow> int \<Rightarrow> (int \<Rightarrow> 'a)" where
  "add_list_loop 0 l other index temp i j k = temp"
| "add_list_loop (Suc r) l other index temp i j k =
     (if i \<ge> index \<and> uint32 i < uint32 (index + al_size other)
      then add_list_loop r l other index (temp(i := arr other j)) (i + 1) (j + 1) k
      else add_list_loop r l other index (temp(i := arr l k)) (i + 1) j (k + 1))"

definition array_list_add_list ::
  "(int \<Rightarrow> 'a) \<Rightarrow> 'a array_list \<Rightarrow> 'a array_list \<Rightarrow> int \<Rightarrow> 'a array_list" where
  "array_list_add_list fresh l other index =
     (let l = (if index \<ge> al_capacity l \<or> uint32 (index + al_size other) \<ge> uint32 (al_capacity l)
               then reallocate_to fresh (int32 (uint32 (index + al_size other) * 2)) l else l);
          temp = add_list_loop (nat (al_size l + al_size other)) l other index fresh 0 0 0
      in l\<lparr>arr := temp, al_len := al_capacity l + al_size other, al_size := al_size l + al_size other,
           al_sorted := False\<rparr>)"

text \<open>The loop that places the lesser of two elements; \<open>r\<close> counts the passes left.\<close>

primrec merge_loop ::
  "nat \<Rightarrow> (int \<Rightarrow> 'a::linorder) \<Rightarrow> int \<Rightarrow> (int \<Rightarrow> 'a) \<Rightarrow> int \<Rightarrow> (int \<Rightarrow> 'a) \<Rightarrow> int \<Rightarrow> int \<Rightarrow> int \<Rightarrow> (int \<Rightarrow> 'a)" where
  "merge_loop 0 array1 size1 array2 size2 returnArray i j k = returnArray"
| "merge_loop (Suc r) array1 size1 array2 size2 returnArray i j k =
     (if j < size1 \<and> (k = size2 \<or> array1 j \<le> array2 k)
      then merge_loop r array1 size1 array2 size2 (returnArray(i := array1 j)) (i + 1) (j + 1) k
      else merge_loop r array1 size1 array2 size2 (returnArray(i := array2 k)) (i + 1) j (k + 1))"

text \<open>The array returned, with the number of elements it was allocated with.\<close>

function mergeSort_array ::
  "(int \<Rightarrow> 'a::linorder) \<Rightarrow> (int \<Rightarrow> 'a) \<Rightarrow> int \<Rightarrow> int \<Rightarrow> (int \<Rightarrow> 'a) \<times> int" where
  "mergeSort_array fresh a theCapacity arraySize =
     (if arraySize > 1 then
        let size1 = arraySize div 2;
            size2 = arraySize - size1;
            array1 = fst (mergeSort_array fresh a size1 size1);
            array2 = fst (mergeSort_array fresh (\<lambda>i. a (i + size1)) size2 size2)
        in (merge_loop (nat arraySize) array1 size1 array2 size2 fresh 0 0 0, theCapacity)
      else (fresh(0 := a 0), 1))"
  by pat_completeness auto
termination
  by (relation "measure (\<lambda>(_, _, _, arraySize). nat arraySize)") auto

declare mergeSort_array.simps [simp del]

definition mergeSort :: "(int \<Rightarrow> 'a::linorder) \<Rightarrow> 'a array_list \<Rightarrow> 'a array_list" where
  "mergeSort fresh l =
     (let (temp, len) = mergeSort_array fresh (arr l) (al_capacity l) (al_size l)
      in l\<lparr>arr := temp, al_len := len, al_sorted := True\<rparr>)"

subsection \<open>Merging\<close>

text \<open>What a stretch of an array holds.\<close>

definition slice :: "(int \<Rightarrow> 'a) \<Rightarrow> int \<Rightarrow> int \<Rightarrow> 'a list" where
  "slice a lo hi = map a [lo..hi - 1]"

lemma slice_empty [simp]: "hi \<le> lo \<Longrightarrow> slice a lo hi = []"
  by (simp add: slice_def)

lemma slice_rec: "lo < hi \<Longrightarrow> slice a lo hi = a lo # slice a (lo + 1) hi"
  by (simp add: slice_def upto_rec1)

lemma slice_length [simp]: "length (slice a lo hi) = nat (hi - lo)"
  by (simp add: slice_def)

lemma slice_cong: "(\<And>i. lo \<le> i \<Longrightarrow> i < hi \<Longrightarrow> a i = b i) \<Longrightarrow> slice a lo hi = slice b lo hi"
  by (simp add: slice_def)

lemma slice_append: "lo \<le> m \<Longrightarrow> m \<le> hi \<Longrightarrow> slice a lo hi = slice a lo m @ slice a m hi"
  using upto_split1 [of lo "m" "hi - 1"] upto_split2 [of lo "m - 1" "hi - 1"]
  by (cases "m = hi") (auto simp: slice_def simp flip: map_append)

lemma slice_shift: "slice (\<lambda>i. a (i + d)) lo hi = slice a (lo + d) (hi + d)"
  by (rule nth_equalityI) (auto simp: slice_def nth_upto algebra_simps)

lemma elements_slice: "elements l = slice (arr l) 0 (al_size l)"
  by (simp add: elements_def slice_def)

fun merge :: "'a::linorder list \<Rightarrow> 'a list \<Rightarrow> 'a list" where
  "merge [] ys = ys"
| "merge xs [] = xs"
| "merge (x # xs) (y # ys) = (if x \<le> y then x # merge xs (y # ys) else y # merge (x # xs) ys)"

lemma merge_Nil [simp]: "merge xs [] = xs"
  by (cases xs) simp_all

lemma mset_merge [simp]: "mset (merge xs ys) = mset xs + mset ys"
  by (induction xs ys rule: merge.induct) auto

lemma set_merge [simp]: "set (merge xs ys) = set xs \<union> set ys"
  by (metis mset_merge set_mset_mset set_mset_union)

lemma sorted_merge: "sorted xs \<Longrightarrow> sorted ys \<Longrightarrow> sorted (merge xs ys)"
  by (induction xs ys rule: merge.induct) (auto simp: not_le intro: order.strict_implies_order order.trans)

lemma merge_loop_slice:
  assumes "0 \<le> j" "j \<le> size1" "0 \<le> k" "k \<le> size2" "int r = (size1 - j) + (size2 - k)"
  shows "slice (merge_loop r array1 size1 array2 size2 ret i j k) i (i + int r) =
      merge (slice array1 j size1) (slice array2 k size2) \<and>
    (\<forall>x. x < i \<longrightarrow> merge_loop r array1 size1 array2 size2 ret i j k x = ret x)"
  using assms
proof (induction r arbitrary: ret i j k)
  case 0
  then show ?case by simp
next
  case (Suc r)
  have step: "slice b i (i + int (Suc r)) = c # zs \<and> (\<forall>x. x < i \<longrightarrow> b x = ret x)"
    if "slice b (i + 1) (i + 1 + int r) = zs \<and> (\<forall>x. x < i + 1 \<longrightarrow> b x = (ret(i := c)) x)" for b c zs
    using that slice_rec [of i "i + int (Suc r)" b] by (auto simp: algebra_simps)
  show ?case
  proof (cases "j < size1 \<and> (k = size2 \<or> array1 j \<le> array2 k)")
    case True
    have "merge (slice array1 j size1) (slice array2 k size2) = array1 j # merge (slice array1 (j + 1) size1) (slice array2 k size2)"
      using True Suc.prems slice_rec [of j size1 array1] slice_rec [of k size2 array2] by (cases "k = size2") auto
    then show ?thesis using step [OF Suc.IH [of "j + 1" k "ret(i := array1 j)" "i + 1"]] Suc.prems True by (simp add: fun_upd_def)
  next
    case False
    then have k: "k < size2" using Suc.prems by auto
    have "merge (slice array1 j size1) (slice array2 k size2) = array2 k # merge (slice array1 j size1) (slice array2 (k + 1) size2)"
      using False Suc.prems slice_rec [of j size1 array1] slice_rec [OF k, of array2] by (cases "j = size1") auto
    then show ?thesis using step [OF Suc.IH [of j "k + 1" "ret(i := array2 k)" "i + 1"]] Suc.prems False k by (auto simp add: fun_upd_def)
  qed
qed

lemma mergeSort_array_sorts:
  assumes "0 < n"
  shows "slice (fst (mergeSort_array fresh a c n)) 0 n = sort (slice a 0 n)"
  using assms
proof (induction n arbitrary: a c rule: measure_induct_rule [of nat])
  case (less n)
  show ?case
  proof (cases "1 < n")
    case False
    then have "n = 1" using less.prems by simp
    then show ?thesis by (simp add: mergeSort_array.simps slice_rec)
  next
    case True
    let ?m = "n div 2" and ?f = "mergeSort_array fresh"
    let ?a1 = "fst (?f a ?m ?m)" and ?a2 = "fst (?f (\<lambda>i. a (i + ?m)) (n - ?m) (n - ?m))"
    have m: "0 < ?m" "?m < n" using True by simp_all
    have l: "slice ?a1 0 ?m = sort (slice a 0 ?m)" using m by (intro less.IH) simp_all
    have "slice ?a2 0 (n - ?m) = sort (slice (\<lambda>i. a (i + ?m)) 0 (n - ?m))" using m by (intro less.IH) simp_all
    then have r: "slice ?a2 0 (n - ?m) = sort (slice a ?m n)" by (simp add: slice_shift)
    have "slice (fst (?f a c n)) 0 n = merge (slice ?a1 0 ?m) (slice ?a2 0 (n - ?m))"
      using merge_loop_slice [of 0 ?m 0 "n - ?m" "nat n" ?a1 ?a2 fresh 0] m True
      by (simp add: mergeSort_array.simps [of fresh a c n] Let_def)
    also have "\<dots> = sort (slice a 0 n)"
      unfolding l r using slice_append [of 0 ?m n a] m
      by (intro properties_for_sort [symmetric]) (simp_all add: sorted_merge)
    finally show ?thesis .
  qed
qed

text \<open>\<open>mergeSort\<close> ends and leaves the elements sorted, with the capacity as it was; the new array has
  that capacity when there were at least two elements.\<close>

theorem mergeSort_correct:
  assumes "0 < al_size l"
  shows "elements (mergeSort fresh l) = sort (elements l) \<and> al_size (mergeSort fresh l) = al_size l \<and>
    al_capacity (mergeSort fresh l) = al_capacity l \<and> al_sorted (mergeSort fresh l) \<and>
    (1 < al_size l \<longrightarrow> al_len (mergeSort fresh l) = al_capacity l)"
  using mergeSort_array_sorts [OF assms, of fresh "arr l" "al_capacity l"]
  by (auto simp: mergeSort_def elements_slice split_def mergeSort_array.simps Let_def)

theorem mergeSort_correct_witness:
  "elements (mergeSort (\<lambda>_. 0) (list_of [5, 3, 9, 1])) = [1, 3, 5, 9]"
  using mergeSort_correct [of "list_of [5, 3, 9, 1]" "\<lambda>_. 0"] elements_list_of [of "[5, 3, 9, 1]"]
  by (simp add: list_of_def)

text \<open>A list of at most one element comes out of \<open>mergeSort\<close> with an array of one slot but its old
  capacity: the next element is added behind the end of the array.\<close>

theorem mergeSort_shrinks_array:
  assumes "al_size l = 1" "1 < al_capacity l"
  shows "al_len (mergeSort fresh l) = 1 \<and> al_capacity (mergeSort fresh l) = al_capacity l \<and>
    al_len (array_list_add fresh (mergeSort fresh l) x) \<le> al_size (mergeSort fresh l)"
  using assms by (simp add: mergeSort_def mergeSort_array.simps array_list_add_def Let_def)

theorem mergeSort_shrinks_array_witness:
  "al_len (mergeSort (\<lambda>_. 0) (list_of [7])) = 1 \<and> al_capacity (mergeSort (\<lambda>_. 0) (list_of [7])) = 20"
  using mergeSort_shrinks_array [of "list_of [7]" "\<lambda>_. 0" 3] by (simp add: list_of_def)

subsection \<open>Adding a list\<close>

lemma uint32_small: "0 \<le> i \<Longrightarrow> i < 2 ^ 32 \<Longrightarrow> uint32 i = i"
  by (simp add: uint32_def)

text \<open>What ends up at a slot.\<close>

definition spliced :: "'a array_list \<Rightarrow> 'a array_list \<Rightarrow> int \<Rightarrow> int \<Rightarrow> 'a" where
  "spliced l other index x =
     (if x < index then arr l x
      else if x < index + al_size other then arr other (x - index) else arr l (x - al_size other))"

lemma add_list_loop_eq:
  assumes "0 \<le> i" "0 \<le> index" "0 \<le> al_size other" "index + al_size other < 2 ^ 32" "i + int r < 2 ^ 32"
    "j = max 0 (min (i - index) (al_size other))" "k = i - j"
  shows "add_list_loop r l other index temp i j k =
    (\<lambda>x. if i \<le> x \<and> x < i + int r then spliced l other index x else temp x)"
  using assms
proof (induction r arbitrary: temp i j k)
  case 0
  then show ?case by (auto simp: fun_eq_iff)
next
  case (Suc r)
  have u: "uint32 i = i" "uint32 (index + al_size other) = index + al_size other"
    using Suc.prems by (simp_all add: uint32_small)
  show ?case
  proof (cases "index \<le> i \<and> i < index + al_size other")
    case True
    then have j: "j = i - index" "k = index" using Suc.prems(6,7) by simp_all
    have "add_list_loop r l other index (temp(i := arr other j)) (i + 1) (j + 1) k =
      (\<lambda>x. if i + 1 \<le> x \<and> x < i + 1 + int r then spliced l other index x else (temp(i := arr other j)) x)"
      using Suc.prems(1-5) True j by (intro Suc.IH) auto
    moreover have "spliced l other index i = arr other j" using True j by (simp add: spliced_def)
    ultimately show ?thesis using True by (auto simp: u fun_eq_iff)
  next
    case False
    then have j: "i < index \<and> j = 0 \<and> k = i \<or> index + al_size other \<le> i \<and> j = al_size other \<and> k = i - j"
      using Suc.prems(3,6,7) by auto
    have "add_list_loop r l other index (temp(i := arr l k)) (i + 1) j (k + 1) =
      (\<lambda>x. if i + 1 \<le> x \<and> x < i + 1 + int r then spliced l other index x else (temp(i := arr l k)) x)"
      using Suc.prems(1-5) False j by (intro Suc.IH) auto
    moreover have "spliced l other index i = arr l k" using False j Suc.prems(3) by (auto simp: spliced_def)
    ultimately show ?thesis using False by (auto simp: u fun_eq_iff)
  qed
qed

text \<open>Adding a list at an index, with room up to the end of what is added, inserts its elements there in
  their order and keeps the others in theirs; the new array is longer by what was added, while the
  recorded capacity stays as it was.\<close>

theorem add_list_correct:
  fixes fresh :: "int \<Rightarrow> 'a"
  assumes "0 \<le> index" "index \<le> al_size l" "0 \<le> al_size other" "index + al_size other < al_capacity l"
    "al_capacity l < 2 ^ 31" "al_size l + al_size other < 2 ^ 31"
  defines "l' \<equiv> array_list_add_list fresh l other index"
  shows "elements l' = take (nat index) (elements l) @ elements other @ drop (nat index) (elements l) \<and>
    al_size l' = al_size l + al_size other \<and> al_len l' = al_capacity l + al_size other \<and> al_capacity l' = al_capacity l"
proof -
  have small: "uint32 (index + al_size other) = index + al_size other" "uint32 (al_capacity l) = al_capacity l"
    using assms(1-5) by (simp_all add: uint32_small)
  have room: "\<not> (index \<ge> al_capacity l \<or> uint32 (index + al_size other) \<ge> uint32 (al_capacity l))"
    using assms(3,4) by (simp add: small)
  let ?n = "nat (al_size l + al_size other)"
  have n: "int ?n = al_size l + al_size other" "int ?n < 2 ^ 32" using assms(1-3,6) by simp_all
  have loop: "add_list_loop ?n l other index fresh 0 0 0 =
      (\<lambda>x. if 0 \<le> x \<and> x < al_size l + al_size other then spliced l other index x else fresh x)"
    using add_list_loop_eq [of 0 index other ?n 0 0 l fresh] assms(1,3-5) n by simp
  have "elements l' = take (nat index) (elements l) @ elements other @ drop (nat index) (elements l)"
  proof (rule elements_eqI)
    show "al_size l' = int (length (take (nat index) (elements l) @ elements other @ drop (nat index) (elements l)))"
      using assms(1-3) room by (simp add: l'_def array_list_add_list_def Let_def)
    fix x assume x: "x < length (take (nat index) (elements l) @ elements other @ drop (nat index) (elements l))"
    then have "int x < al_size l + al_size other" using assms(1-3) by simp
    then show "arr l' (int x) = (take (nat index) (elements l) @ elements other @ drop (nat index) (elements l)) ! x"
      using assms(1-3) room
      by (auto simp: l'_def array_list_add_list_def Let_def loop spliced_def nth_append nth_elements algebra_simps)
  qed
  then show ?thesis using room by (simp add: l'_def array_list_add_list_def Let_def)
qed

theorem add_list_correct_witness:
  "elements (array_list_add_list (\<lambda>_. 0) (list_of [1, 2, 3]) (list_of [7, 8]) 1) = [1, 7, 8, 2, 3]"
  using add_list_correct [of 1 "list_of [1, 2, 3]" "list_of [7, 8]" "\<lambda>_. 0"]
    elements_list_of [of "[1, 2, 3]"] elements_list_of [of "[7, 8]"]
  by (simp add: list_of_def)

subsection \<open>Adding to a sorted list\<close>

text \<open>\<open>addToSort\<close> can leave the list unsorted and still mark it sorted: the search stops at a range of one
  slot without comparing. Into an empty list it adds nothing and reports success.\<close>

definition sorted_five :: "int array_list" where
  "sorted_five = (list_of [5])\<lparr>al_sorted := True\<rparr>"

definition sorted_none :: "int array_list" where
  "sorted_none = (list_of [])\<lparr>al_sorted := True\<rparr>"

theorem addToSort_unsorted:
  "elements sorted_five = [5] \<and> fst (array_list_addToSort fresh sorted_five 9) \<and>
   al_sorted (snd (array_list_addToSort fresh sorted_five 9)) \<and>
   elements (snd (array_list_addToSort fresh sorted_five 9)) = [9, 5] \<and>
   elements sorted_none = [] \<and> fst (array_list_addToSort fresh sorted_none 9) \<and>
   elements (snd (array_list_addToSort fresh sorted_none 9)) = []"
proof -
  have "[0..0 :: int] = [0]" "[0..1 :: int] = [0, 1]" by (simp_all add: upto_rec1)
  then show ?thesis
    by (simp add: sorted_five_def sorted_none_def list_of_def array_list_addToSort_def array_list_add_at_def
        elements_def array_list_binarySearch_def binarySearch.simps Let_def)
qed

end
