(* ===== verification/ArrayListRefine.thy ===== *)
theory ArrayListRefine
  imports ArrayListMerge
begin

text \<open>
  \<open>class ArrayList\<close> (\<open>src/include/List.h\<close>) as an implementation of a list with a flag that tells whether it is
  sorted: a sequence of operations on the object does to its elements what the same sequence does to the list.
\<close>

subsection \<open>The specification\<close>

datatype 'a list_op =
    Append 'a
  | Insert int 'a
  | Delete int
  | Drop 'a
  | Swap int int
  | Quick_sort
  | Insertion_sort
  | Merge_sort
  | Clear

text \<open>The state: the elements, whether they are marked as sorted, and the capacity. \<open>None\<close>: the operation is used
  outside its contract, to insert into a full list or to remove an element that a sorted list does not hold.\<close>

type_synonym 'a list_state = "'a list \<times> bool \<times> int"

fun abs_op :: "'a::linorder list_op \<Rightarrow> 'a list_state \<Rightarrow> 'a list_state option" where
  "abs_op (Append x) (xs, s, c) = Some (xs @ [x], False, if int (length xs) - 1 = c then c * 2 else c)"
| "abs_op (Insert i x) (xs, s, c) =
     (if i < 0 \<or> int (length xs) < i then Some (xs, s, c)
      else if int (length xs) < c then Some (take (nat i) xs @ x # drop (nat i) xs, False, c) else None)"
| "abs_op (Delete i) (xs, s, c) =
     (if i < 0 \<or> int (length xs) \<le> i then Some (xs, s, c) else Some (take (nat i) xs @ drop (Suc (nat i)) xs, s, c))"
| "abs_op (Drop x) (xs, s, c) =
     (if \<not> s then Some (xs, s, c) else if x \<in> set xs then Some (remove1 x xs, s, c) else None)"
| "abs_op (Swap i j) (xs, s, c) =
     (if 0 \<le> i \<and> 0 \<le> j \<and> i < int (length xs) \<and> j < int (length xs)
      then Some (xs[nat i := xs ! nat j, nat j := xs ! nat i], False, c) else Some (xs, s, c))"
| "abs_op Quick_sort (xs, s, c) = Some (sort xs, True, c)"
| "abs_op Insertion_sort (xs, s, c) = Some (sort xs, True, c)"
| "abs_op Merge_sort (xs, s, c) = Some (sort xs, True, c)"
| "abs_op Clear (xs, s, c) = Some ([], False, c)"

fun perform :: "(int \<Rightarrow> 'a::linorder) \<Rightarrow> 'a list_op \<Rightarrow> 'a array_list \<Rightarrow> 'a array_list option" where
  "perform fresh (Append x) l = Some (array_list_add fresh l x)"
| "perform fresh (Insert i x) l = Some (array_list_add_at fresh l x i)"
| "perform fresh (Delete i) l = Some (snd (array_list_remove l i))"
| "perform fresh (Drop x) l = Some (snd (array_list_removeElement l x))"
| "perform fresh (Swap i j) l = Some (moved l i j)"
| "perform fresh Quick_sort l = quickSort l"
| "perform fresh Insertion_sort l = Some (insertionSort l)"
| "perform fresh Merge_sort l = Some (mergeSort fresh l)"
| "perform fresh Clear l = Some (array_list_removeAll fresh l)"

primrec abs_run :: "'a::linorder list_op list \<Rightarrow> 'a list_state \<Rightarrow> 'a list_state option" where
  "abs_run [] a = Some a"
| "abs_run (p # ps) a = abs_op p a \<bind> abs_run ps"

primrec list_run :: "(int \<Rightarrow> 'a::linorder) \<Rightarrow> 'a list_op list \<Rightarrow> 'a array_list \<Rightarrow> 'a array_list option" where
  "list_run fresh [] l = Some l"
| "list_run fresh (p # ps) l = perform fresh p l \<bind> list_run fresh ps"

text \<open>A well-formed list: its size is not negative, and what is marked as sorted is sorted.\<close>

definition list_ok :: "'a::linorder array_list \<Rightarrow> bool" where
  "list_ok l \<longleftrightarrow> 0 \<le> al_size l \<and> (al_sorted l \<longrightarrow> sorted (elements l))"

definition list_abs :: "'a array_list \<Rightarrow> 'a list \<times> bool \<times> int" where
  "list_abs l = (elements l, al_sorted l, al_capacity l)"

subsection \<open>The operations\<close>

lemma sorted_unique: "sorted ys \<Longrightarrow> mset ys = mset xs \<Longrightarrow> ys = sort (xs :: 'a::linorder list)"
  by (metis properties_for_sort)

lemma sorted_without: "sorted xs \<Longrightarrow> sorted (take k xs @ drop (Suc k) xs)"
proof -
  assume "sorted xs"
  then have "\<forall>x \<in> set (take k xs). \<forall>y \<in> set (drop k xs). x \<le> y"
    using sorted_append [of "take k xs" "drop k xs"] by simp
  moreover have "set (drop (Suc k) xs) \<subseteq> set (drop k xs)" by (rule set_drop_subset_set_drop) simp
  ultimately show ?thesis using \<open>sorted xs\<close> by (auto simp: sorted_append)
qed

lemma shift_right_loop_eq:
  "shift_right_loop k a i = (\<lambda>x. if i - int k < x \<and> x \<le> i then a (x - 1) else a x)"
proof (induction k arbitrary: a i)
  case (Suc k)
  show ?case unfolding shift_right_loop.simps Suc by (auto simp: fun_eq_iff)
qed (auto simp: fun_eq_iff)

lemma add_at_elements:
  assumes "0 \<le> i" "i \<le> al_size l" "al_size l < al_capacity l"
  shows "elements (array_list_add_at fresh l x i) = take (nat i) (elements l) @ x # drop (nat i) (elements l)"
    "al_size (array_list_add_at fresh l x i) = al_size l + 1"
    "al_capacity (array_list_add_at fresh l x i) = al_capacity l" "\<not> al_sorted (array_list_add_at fresh l x i)"
proof -
  let ?a = "shift_right_loop (nat (al_size l - i)) (arr l) (al_size l)"
  have l': "array_list_add_at fresh l x i = l\<lparr>arr := ?a(i := x), al_size := al_size l + 1, al_sorted := False\<rparr>"
    using assms by (simp add: array_list_add_at_def)
  then show "al_size (array_list_add_at fresh l x i) = al_size l + 1"
    "al_capacity (array_list_add_at fresh l x i) = al_capacity l" "\<not> al_sorted (array_list_add_at fresh l x i)"
    by simp_all
  show "elements (array_list_add_at fresh l x i) = take (nat i) (elements l) @ x # drop (nat i) (elements l)"
  proof (rule elements_eqI)
    show "al_size (array_list_add_at fresh l x i) = int (length (take (nat i) (elements l) @ x # drop (nat i) (elements l)))"
      using assms by (simp add: l')
    fix k assume "k < length (take (nat i) (elements l) @ x # drop (nat i) (elements l))"
    then have k: "int k \<le> al_size l" using assms by simp
    consider "int k < i" | "int k = i" | "i < int k" by linarith
    then show "arr (array_list_add_at fresh l x i) (int k) = (take (nat i) (elements l) @ x # drop (nat i) (elements l)) ! k"
    proof cases
      case 1
      then have "k < nat i" by linarith
      then show ?thesis using 1 assms k by (simp add: l' shift_right_loop_eq nth_append nth_elements)
    next
      case 2
      then have "nat i = k" by simp
      then show ?thesis using 2 assms by (simp add: l' nth_append)
    next
      case 3
      then have "k - nat i = Suc (k - 1 - nat i)" "nat i + (k - 1 - nat i) = k - 1" "\<not> k < nat i" "int (k - 1) = int k - 1"
        using assms(1) by linarith+
      then show ?thesis using 3 assms k by (simp add: l' shift_right_loop_eq nth_append nth_elements)
    qed
  qed
qed

lemma move_elements:
  assumes "0 \<le> i" "0 \<le> j" "i < al_size l" "j < al_size l"
  shows "elements (moved l i j) = (elements l)[nat i := elements l ! nat j, nat j := elements l ! nat i]"
  by (rule elements_eqI) (use assms in \<open>auto simp: array_list_move_def nth_list_update nth_elements\<close>)

lemma insertionSort_elements:
  assumes "0 \<le> al_size l"
  shows "elements (insertionSort l) = sort (elements l) \<and> al_sorted (insertionSort l) \<and>
    al_size (insertionSort l) = al_size l \<and> al_capacity (insertionSort l) = al_capacity l"
proof -
  obtain a where a: "insertionSort_range l 0 (al_size l - 1) = l\<lparr>arr := a\<rparr>" "sorted_on a 0 (al_size l - 1)"
      "perm_on (arr l) a 0 (al_size l - 1)"
    using insertionSort_range_spec [of 0 "al_size l - 1" l] assms by (auto simp: fits_def)
  let ?l = "l\<lparr>arr := a, al_sorted := True\<rparr>"
  have "sorted (elements ?l)" "mset (elements ?l) = mset (elements l)"
    using a(2,3) by (simp_all add: sorted_elements mset_elements perm_on_def)
  then show ?thesis using a(1) sorted_unique by (auto simp: insertionSort_def)
qed

lemma mergeSort_elements:
  assumes "0 \<le> al_size l"
  shows "elements (mergeSort fresh l) = sort (elements l) \<and> al_size (mergeSort fresh l) = al_size l \<and>
    al_capacity (mergeSort fresh l) = al_capacity l \<and> al_sorted (mergeSort fresh l)"
proof (cases "al_size l = 0")
  case False
  then show ?thesis using mergeSort_array_sorts [of "al_size l" fresh "arr l" "al_capacity l"] assms
    by (auto simp: mergeSort_def elements_slice split_def Let_def)
qed (simp add: mergeSort_def elements_def split_def Let_def)

lemma removeElement_elements:
  assumes "al_sorted l" "sorted (elements l)" "x \<in> set (elements l)"
  shows "elements (snd (array_list_removeElement l x)) = remove1 x (elements l) \<and>
    al_size (snd (array_list_removeElement l x)) = al_size l - 1 \<and> al_sorted (snd (array_list_removeElement l x)) \<and>
    al_capacity (snd (array_list_removeElement l x)) = al_capacity l"
proof -
  obtain l' where l': "array_list_removeElement l x = (True, l')" "mset (elements l') = mset (elements l) - {#x#}"
      "sorted (elements l')" "al_sorted l'" "al_size l' = al_size l - 1"
    using removeElement_member [OF assms] by blast
  have "sorted (remove1 x (elements l))" using assms(2) by (rule sorted_remove1)
  then have "elements l' = remove1 x (elements l)"
    using l'(2,3) sorted_unique [of "elements l'" "remove1 x (elements l)"] by (simp add: sorted_sort_id)
  moreover have "al_capacity l' = al_capacity l"
    using l'(1) by (auto simp: array_list_removeElement_def array_list_remove_def Let_def split: if_splits)
  ultimately show ?thesis using l' by simp
qed

lemma perform_insert:
  assumes "list_ok l" "abs_op (Insert i x) (list_abs l) = Some a"
  shows "\<exists>l'. perform fresh (Insert i x) l = Some l' \<and> list_ok l' \<and> list_abs l' = a"
proof -
  have size: "0 \<le> al_size l" using assms(1) by (simp_all add: list_ok_def)
  show ?thesis
  proof (cases "i < 0 \<or> al_size l < i")
    case True
    then show ?thesis using assms size by (auto simp: list_abs_def array_list_add_at_def)
  next
    case False
    then have "al_size l < al_capacity l" using assms(2) size by (auto simp: list_abs_def split: if_splits)
    then show ?thesis using False assms(2) size add_at_elements [of i l fresh x]
      by (auto simp: list_abs_def list_ok_def)
  qed
qed

lemma perform_delete:
  assumes "list_ok l" "abs_op (Delete i) (list_abs l) = Some a"
  shows "\<exists>l'. perform fresh (Delete i) l = Some l' \<and> list_ok l' \<and> list_abs l' = a"
proof -
  have size: "0 \<le> al_size l" using assms(1) by (simp_all add: list_ok_def)
  show ?thesis
  proof (cases "i < 0 \<or> al_size l \<le> i")
    case True
    then show ?thesis using assms size by (auto simp: list_abs_def array_list_remove_def)
  next
    case False
    then have i: "0 \<le> i" "i < al_size l" by auto
    note kept = sorted_without [of "elements l" "nat i"]
    have "al_capacity (snd (array_list_remove l i)) = al_capacity l" using i by (simp add: array_list_remove_def)
    then show ?thesis using i assms size remove_elements [OF i] kept by (auto simp: list_abs_def list_ok_def)
  qed
qed

lemma perform_drop:
  assumes "list_ok l" "abs_op (Drop x) (list_abs l) = Some a"
  shows "\<exists>l'. perform fresh (Drop x) l = Some l' \<and> list_ok l' \<and> list_abs l' = a"
proof -
  have size: "0 \<le> al_size l" using assms(1) by (simp_all add: list_ok_def)
  show ?thesis
  proof (cases "al_sorted l")
    case False
    then show ?thesis using assms
      by (auto simp: list_abs_def array_list_removeElement_def array_list_binarySearch_def)
  next
    case True
    then have sorted: "sorted (elements l)" and x: "x \<in> set (elements l)"
      using assms by (auto simp: list_ok_def list_abs_def split: if_splits)
    have "0 < al_size l" using x by (auto simp: set_elements)
    then show ?thesis using True assms x removeElement_elements [OF True sorted x] sorted_remove1 [OF sorted]
      by (auto simp: list_abs_def list_ok_def)
  qed
qed

lemma perform_swap:
  assumes "list_ok l" "abs_op (Swap i j) (list_abs l) = Some a"
  shows "\<exists>l'. perform fresh (Swap i j) l = Some l' \<and> list_ok l' \<and> list_abs l' = a"
proof -
  have size: "0 \<le> al_size l" using assms(1) by (simp_all add: list_ok_def)
  show ?thesis
  proof (cases "0 \<le> i \<and> 0 \<le> j \<and> i < al_size l \<and> j < al_size l")
    case True
    moreover have "al_size (moved l i j) = al_size l" "\<not> al_sorted (moved l i j)" "al_capacity (moved l i j) = al_capacity l"
      using True by (simp_all add: array_list_move_def)
    ultimately show ?thesis using assms size move_elements [of i j l] by (auto simp: list_abs_def list_ok_def)
  next
    case False
    then show ?thesis using assms size by (auto simp: list_abs_def array_list_move_def)
  qed
qed

lemma perform_refines:
  assumes "list_ok l" "abs_op p (list_abs l) = Some a"
  shows "\<exists>l'. perform fresh p l = Some l' \<and> list_ok l' \<and> list_abs l' = a"
proof -
  have size: "0 \<le> al_size l" using assms(1) by (simp_all add: list_ok_def)
  show ?thesis
  proof (cases p)
    case (Append x)
    have "al_capacity (array_list_add fresh l x) = (if al_size l - 1 = al_capacity l then al_capacity l * 2 else al_capacity l)"
      by (simp add: array_list_add_def reallocate_def Let_def)
    then show ?thesis using Append assms(2) size add_elements [OF size, of fresh x]
      by (auto simp: list_ok_def list_abs_def)
  next
    case (Insert i x)
    then show ?thesis using assms perform_insert by blast
  next
    case (Delete i)
    then show ?thesis using assms perform_delete by blast
  next
    case (Drop x)
    then show ?thesis using assms perform_drop by blast
  next
    case (Swap i j)
    then show ?thesis using assms perform_swap by blast
  next
    case Quick_sort
    obtain l' where "quickSort l = Some l'" "al_sorted l'" "sorted (elements l')" "mset (elements l') = mset (elements l)"
        "same_list l l'"
      using quickSort_elements [OF size] by blast
    then show ?thesis using assms(2) size sorted_unique Quick_sort
      by (auto simp: list_abs_def list_ok_def same_list_def)
  next
    case Insertion_sort
    then show ?thesis using assms(2) size insertionSort_elements [OF size] by (auto simp: list_abs_def list_ok_def)
  next
    case Merge_sort
    then show ?thesis using assms(2) size mergeSort_elements [OF size, of fresh] by (auto simp: list_abs_def list_ok_def)
  next
    case Clear
    then show ?thesis using assms(2) by (auto simp: list_abs_def list_ok_def array_list_removeAll_def elements_def)
  qed
qed

lemma list_run_refines:
  "list_ok l \<Longrightarrow> abs_run ps (list_abs l) = Some a \<Longrightarrow> \<exists>l'. list_run fresh ps l = Some l' \<and> list_ok l' \<and> list_abs l' = a"
proof (induction ps arbitrary: l)
  case (Cons p ps)
  then obtain a1 where a1: "abs_op p (list_abs l) = Some a1" "abs_run ps a1 = Some a" by (auto split: Option.bind_splits)
  obtain l1 where "perform fresh p l = Some l1" "list_ok l1" "list_abs l1 = a1"
    using perform_refines [OF Cons.prems(1) a1(1)] by blast
  then show ?case using Cons.IH [of l1] a1(2) by auto
qed auto



end
