(* ===== verification/Mutex.thy ===== *)
theory Mutex
  imports Spinlocks
begin

text \<open>
  \<open>Spinlock::get\<close> and \<open>Spinlock::free\<close> (\<open>src/Spinlock.cpp\<close>): a mutex on top of the lock word. A task
  that finds it taken notes what it waits for and goes to sleep; \<open>free\<close> wakes the sleeping tasks whose
  mutex nobody owns.

  Several tasks, preempted anywhere and on several cores, execute these functions together, so they are
  modelled as steps: each statement that reads or writes shared state is a step of one task, and the
  steps of the tasks interleave in any order.
\<close>

subsection \<open>Steps\<close>

text \<open>Where a task is in the two functions; the comments name the statement it executes next.\<close>

datatype place =
    Outside         \<comment> \<open>not using the mutex\<close>
  | Testing         \<comment> \<open>\<open>while (!testAndSet())\<close>\<close>
  | Noting          \<comment> \<open>\<open>current->sleepingOnLock = this\<close>\<close>
  | Dozing          \<comment> \<open>\<open>current->sleep()\<close>\<close>
  | Asleep          \<comment> \<open>in the sleeping queue\<close>
  | Owning          \<comment> \<open>\<open>ownerPid = current->pid\<close>\<close>
  | Inside          \<comment> \<open>in the section the mutex protects\<close>
  | Unlocking       \<comment> \<open>\<open>_spin_unlock(&this->l.val)\<close>\<close>
  | Waking          \<comment> \<open>\<open>GIC400::send_sgi(SYSTEM_WAKEUP_ALL, get_core())\<close>\<close>

record mutex =
  the_lock :: spinlock
  at :: "nat \<Rightarrow> place"
  waits :: "nat \<Rightarrow> bool"

text \<open>What the interrupt \<open>SYSTEM_WAKEUP_ALL\<close> does to the tasks that wait for this mutex.\<close>

definition wake_all :: "mutex \<Rightarrow> mutex" where
  "wake_all m =
     (if ownerPid (the_lock m) = 0 then
        m\<lparr>at := (\<lambda>t. if at m t = Asleep \<and> waits m t then Testing else at m t),
          waits := (\<lambda>t. if at m t = Asleep then False else waits m t)\<rparr>
      else m)"

definition moves :: "nat \<Rightarrow> place \<Rightarrow> mutex \<Rightarrow> mutex" where
  "moves t p m = m\<lparr>at := (at m)(t := p)\<rparr>"

text \<open>
  The next step of the task with process number \<open>t\<close>; \<open>exclusive\<close> says whether its exclusive store
  succeeds. A sleeping task has no step of its own.
\<close>

definition mutex_step :: "bool \<Rightarrow> nat \<Rightarrow> mutex \<Rightarrow> mutex option" where
  "mutex_step exclusive t m =
     (case at m t of
        Outside \<Rightarrow> Some (moves t Testing m)
      | Testing \<Rightarrow>
          (let (got, l) = spinlock_testAndSet exclusive (the_lock m)
           in Some (moves t (if got = 0 then Noting else Owning) (m\<lparr>the_lock := l\<rparr>)))
      | Noting \<Rightarrow> Some (moves t Dozing (m\<lparr>waits := (waits m)(t := True)\<rparr>))
      | Dozing \<Rightarrow> Some (moves t Asleep m)
      | Asleep \<Rightarrow> None
      | Owning \<Rightarrow> Some (moves t Inside (m\<lparr>the_lock := (the_lock m)\<lparr>ownerPid := t\<rparr>\<rparr>))
      | Inside \<Rightarrow> Some (moves t Unlocking (m\<lparr>the_lock := (the_lock m)\<lparr>ownerPid := 0\<rparr>\<rparr>))
      | Unlocking \<Rightarrow> Some (moves t Waking (m\<lparr>the_lock := (the_lock m)\<lparr>lock_val := SPLCK_UNLOCKED\<rparr>\<rparr>))
      | Waking \<Rightarrow> Some (wake_all (moves t Outside m)))"

text \<open>A run: steps of tasks, and wake-ups caused by other mutexes.\<close>

inductive mutex_run :: "mutex \<Rightarrow> mutex \<Rightarrow> bool" where
  stay: "mutex_run m m"
| step: "mutex_run m m1 \<Longrightarrow> t \<noteq> 0 \<Longrightarrow> mutex_step exclusive t m1 = Some m2 \<Longrightarrow> mutex_run m m2"
| woken_by_others: "mutex_run m m1 \<Longrightarrow> mutex_run m (wake_all m1)"

inductive_cases mutex_run_cases: "mutex_run m m'"

definition unused :: mutex where
  "unused = \<lparr>the_lock = spinlock_init \<lparr>lock_val = 0, ownerPid = 0\<rparr>, at = (\<lambda>_. Outside), waits = (\<lambda>_. False)\<rparr>"

subsection \<open>Mutual exclusion\<close>

definition holds_mutex :: "mutex \<Rightarrow> nat \<Rightarrow> bool" where
  "holds_mutex m t \<longleftrightarrow> at m t = Owning \<or> at m t = Inside \<or> at m t = Unlocking"

text \<open>The lock word says whether there is a holder, there is at most one, and the owner that is noted is
  the task inside. Process numbers are not 0.\<close>

definition mutex_inv :: "mutex \<Rightarrow> bool" where
  "mutex_inv m \<longleftrightarrow> (lock_val (the_lock m) \<noteq> 0 \<longleftrightarrow> (\<exists>t. holds_mutex m t)) \<and>
     (\<forall>t u. holds_mutex m t \<longrightarrow> holds_mutex m u \<longrightarrow> t = u) \<and>
     (\<forall>t. at m t = Inside \<longrightarrow> ownerPid (the_lock m) = t) \<and>
     (ownerPid (the_lock m) \<noteq> 0 \<longrightarrow> at m (ownerPid (the_lock m)) = Inside) \<and> at m 0 = Outside \<and>
     (\<forall>t. at m t = Asleep \<or> at m t = Dozing \<longrightarrow> waits m t)"

lemma mutex_invD:
  assumes "mutex_inv m"
  shows "lock_val (the_lock m) \<noteq> 0 \<longleftrightarrow> (\<exists>t. holds_mutex m t)"
    "holds_mutex m t \<Longrightarrow> holds_mutex m u \<Longrightarrow> t = u"
    "at m t = Inside \<Longrightarrow> ownerPid (the_lock m) = t"
    "ownerPid (the_lock m) \<noteq> 0 \<Longrightarrow> at m (ownerPid (the_lock m)) = Inside"
    "at m 0 = Outside" "at m t = Asleep \<or> at m t = Dozing \<Longrightarrow> waits m t"
  using assms unfolding mutex_inv_def by blast+

lemma mutex_invI:
  assumes "lock_val (the_lock m) \<noteq> 0 \<longleftrightarrow> (\<exists>t. holds_mutex m t)"
    "\<And>t u. holds_mutex m t \<Longrightarrow> holds_mutex m u \<Longrightarrow> t = u"
    "\<And>t. at m t = Inside \<Longrightarrow> ownerPid (the_lock m) = t"
    "ownerPid (the_lock m) \<noteq> 0 \<Longrightarrow> at m (ownerPid (the_lock m)) = Inside"
    "at m 0 = Outside" "\<And>t. at m t = Asleep \<or> at m t = Dozing \<Longrightarrow> waits m t"
  shows "mutex_inv m"
  using assms unfolding mutex_inv_def by blast

lemma holds_at [simp]:
  "at m t = Owning \<Longrightarrow> holds_mutex m t" "at m t = Inside \<Longrightarrow> holds_mutex m t" "at m t = Unlocking \<Longrightarrow> holds_mutex m t"
  by (simp_all add: holds_mutex_def)

lemma holds_moves [simp]:
  "holds_mutex (moves t p m) u = (if u = t then p = Owning \<or> p = Inside \<or> p = Unlocking else holds_mutex m u)"
  "the_lock (moves t p m) = the_lock m" "at (moves t p m) = (at m)(t := p)" "waits (moves t p m) = waits m"
  "holds_mutex (m\<lparr>the_lock := l\<rparr>) = holds_mutex m" "holds_mutex (m\<lparr>waits := w\<rparr>) = holds_mutex m"
  by (auto simp: moves_def holds_mutex_def fun_eq_iff)

lemma wake_all_simps [simp]:
  "holds_mutex (wake_all m) t = holds_mutex m t" "the_lock (wake_all m) = the_lock m"
  "at (wake_all m) t = Inside \<longleftrightarrow> at m t = Inside" "at (wake_all m) t = Outside \<longleftrightarrow> at m t = Outside"
  by (simp_all add: wake_all_def holds_mutex_def)

lemma wake_all_inv:
  assumes "mutex_inv m"
  shows "mutex_inv (wake_all m)"
proof (rule mutex_invI)
  show "waits (wake_all m) t" if "at (wake_all m) t = Asleep \<or> at (wake_all m) t = Dozing" for t
    using that mutex_invD(6) [OF assms, of t] by (simp add: wake_all_def split: if_splits)
  show "lock_val (the_lock (wake_all m)) \<noteq> 0 \<longleftrightarrow> (\<exists>t. holds_mutex (wake_all m) t)"
    "at (wake_all m) 0 = Outside"
    using mutex_invD(1,5) [OF assms] by simp_all
  show "t = u" if "holds_mutex (wake_all m) t" "holds_mutex (wake_all m) u" for t u
    using that mutex_invD(2) [OF assms, of t u] by simp
  show "ownerPid (the_lock (wake_all m)) = t" if "at (wake_all m) t = Inside" for t
    using that mutex_invD(3) [OF assms, of t] by simp
  show "at (wake_all m) (ownerPid (the_lock (wake_all m))) = Inside" if "ownerPid (the_lock (wake_all m)) \<noteq> 0"
    using that mutex_invD(4) [OF assms] by simp
qed

text \<open>A task that neither holds the mutex nor gets it.\<close>

lemma moves_inv:
  assumes "mutex_inv m" "t \<noteq> 0" "\<not> holds_mutex m t" "p \<noteq> Owning" "p \<noteq> Inside" "p \<noteq> Unlocking"
    and "p = Asleep \<or> p = Dozing \<longrightarrow> waits m t"
  shows "mutex_inv (moves t p m)"
proof (rule mutex_invI)
  have "holds_mutex (moves t p m) u = holds_mutex m u" for u using assms(3-6) by simp
  then show "lock_val (the_lock (moves t p m)) \<noteq> 0 \<longleftrightarrow> (\<exists>u. holds_mutex (moves t p m) u)"
    "\<And>u v. holds_mutex (moves t p m) u \<Longrightarrow> holds_mutex (moves t p m) v \<Longrightarrow> u = v"
    using mutex_invD(1,2) [OF assms(1)] by simp_all
  show "at (moves t p m) (ownerPid (the_lock (moves t p m))) = Inside" if "ownerPid (the_lock (moves t p m)) \<noteq> 0"
    using that mutex_invD(4) [OF assms(1)] assms(3) by auto
  show "ownerPid (the_lock (moves t p m)) = u" if "at (moves t p m) u = Inside" for u
    using that assms(5) mutex_invD(3) [OF assms(1), of u] by (simp split: if_splits)
  show "at (moves t p m) 0 = Outside" using mutex_invD(5) [OF assms(1)] assms(2) by simp
  show "waits (moves t p m) u" if "at (moves t p m) u = Asleep \<or> at (moves t p m) u = Dozing" for u
    using that assms(7) mutex_invD(6) [OF assms(1), of u] by (cases "u = t") auto
qed

lemma waits_inv: "mutex_inv m \<Longrightarrow> mutex_inv (m\<lparr>waits := (waits m)(t := True)\<rparr>)"
  unfolding mutex_inv_def by simp

lemma mutex_step_inv:
  assumes inv: "mutex_inv m" and t: "t \<noteq> 0" and step: "mutex_step exclusive t m = Some m'"
  shows "mutex_inv m'"
proof (cases "at m t")
  case Outside
  then have "m' = moves t Testing m" using step by (simp add: mutex_step_def)
  then show ?thesis using moves_inv [OF inv t] Outside by (simp add: holds_mutex_def)
next
  case Testing
  then have free: "\<not> holds_mutex m t" by (simp add: holds_mutex_def)
  show ?thesis
  proof (cases "lock_val (the_lock m) \<noteq> 0 \<or> \<not> exclusive")
    case True
    then have "m' = moves t Noting m" using step Testing by (auto simp: mutex_step_def spinlock_testAndSet_def)
    then show ?thesis using moves_inv [OF inv t free] by simp
  next
    case False
    then have m': "m' = moves t Owning (m\<lparr>the_lock := (the_lock m)\<lparr>lock_val := SPLCK_LOCKED\<rparr>\<rparr>)"
      using step Testing by (simp add: mutex_step_def spinlock_testAndSet_def)
    have none: "\<not> holds_mutex m u" for u using mutex_invD(1) [OF inv] False by auto
    then have "ownerPid (the_lock m) = 0" using mutex_invD(4) [OF inv] holds_at(2) by blast
    then show ?thesis using mutex_invD(5,6) [OF inv] none t holds_at(2) [of m]
      by (intro mutex_invI) (auto simp: m' SPLCK_LOCKED_def split: if_splits)
  qed
next
  case Noting
  then have "m' = moves t Dozing (m\<lparr>waits := (waits m)(t := True)\<rparr>)" using step by (simp add: mutex_step_def)
  then show ?thesis using moves_inv [OF waits_inv [OF inv, of t] t, of Dozing] Noting by (simp add: holds_mutex_def)
next
  case Dozing
  then have "m' = moves t Asleep m" using step by (simp add: mutex_step_def)
  then show ?thesis using moves_inv [OF inv t] Dozing mutex_invD(6) [OF inv, of t] by (simp add: holds_mutex_def)
next
  case Asleep
  then show ?thesis using step by (simp add: mutex_step_def)
next
  case Owning
  then have m': "m' = moves t Inside (m\<lparr>the_lock := (the_lock m)\<lparr>ownerPid := t\<rparr>\<rparr>)"
    using step by (simp add: mutex_step_def)
  have "holds_mutex m u \<longleftrightarrow> u = t" for u using mutex_invD(2) [OF inv] holds_at(1) [OF Owning] by blast
  then show ?thesis using mutex_invD(1,5,6) [OF inv] t holds_at(2) [of m]
    by (intro mutex_invI) (auto simp: m' split: if_splits)
next
  case Inside
  then have m': "m' = moves t Unlocking (m\<lparr>the_lock := (the_lock m)\<lparr>ownerPid := 0\<rparr>\<rparr>)"
    using step by (simp add: mutex_step_def)
  have "holds_mutex m u \<longleftrightarrow> u = t" for u using mutex_invD(2) [OF inv] holds_at(2) [OF Inside] by blast
  then show ?thesis using mutex_invD(1,5,6) [OF inv] t holds_at(2) [of m]
    by (intro mutex_invI) (auto simp: m' split: if_splits)
next
  case Unlocking
  then have m': "m' = moves t Waking (m\<lparr>the_lock := (the_lock m)\<lparr>lock_val := SPLCK_UNLOCKED\<rparr>\<rparr>)"
    using step by (simp add: mutex_step_def)
  have only: "holds_mutex m u \<longleftrightarrow> u = t" for u using mutex_invD(2) [OF inv] holds_at(3) [OF Unlocking] by blast
  then have "at m u \<noteq> Inside" for u using Unlocking holds_at(2) [of m u] by auto
  moreover have "ownerPid (the_lock m) = 0" using mutex_invD(4) [OF inv] calculation by blast
  ultimately show ?thesis using mutex_invD(5,6) [OF inv] only t
    by (intro mutex_invI) (auto simp: m' SPLCK_UNLOCKED_def split: if_splits)
next
  case Waking
  then have "m' = wake_all (moves t Outside m)" using step by (simp add: mutex_step_def)
  then show ?thesis using moves_inv [OF inv t] Waking wake_all_inv by (simp add: holds_mutex_def)
qed

lemma mutex_run_inv:
  assumes "mutex_run m m'" "mutex_inv m"
  shows "mutex_inv m'"
  using assms by (induction rule: mutex_run.induct) (auto intro: mutex_step_inv wake_all_inv)

lemma unused_inv: "mutex_inv unused"
  by (simp add: mutex_inv_def unused_def holds_mutex_def spinlock_init_def SPLCK_UNLOCKED_def)

text \<open>C11: whatever the interleaving, on however many cores, at most one task is in the section a mutex
  protects (from the successful test to the unlocking store), the lock word is set exactly when there is
  one, and the owner it names is the task inside.\<close>

theorem mutual_exclusion:
  assumes "mutex_run unused m"
  shows "(\<forall>t u. holds_mutex m t \<longrightarrow> holds_mutex m u \<longrightarrow> t = u) \<and>
    (lock_val (the_lock m) \<noteq> 0 \<longleftrightarrow> (\<exists>t. holds_mutex m t)) \<and>
    (\<forall>t. at m t = Inside \<longrightarrow> ownerPid (the_lock m) = t)"
  using mutex_run_inv [OF assms unused_inv] unfolding mutex_inv_def by blast

subsection \<open>Progress\<close>

text \<open>Running one task after another, for witnesses and for the lost wake-up.\<close>

fun run_tasks :: "(bool \<times> nat) list \<Rightarrow> mutex \<Rightarrow> mutex option" where
  "run_tasks [] m = Some m"
| "run_tasks ((exclusive, t) # ts) m =
     (case mutex_step exclusive t m of None \<Rightarrow> None | Some m' \<Rightarrow> run_tasks ts m')"

lemma run_tasks_run:
  assumes "run_tasks ts m1 = Some m2" "0 \<notin> snd ` set ts" "mutex_run m m1"
  shows "mutex_run m m2"
  using assms
proof (induction ts m1 arbitrary: rule: run_tasks.induct)
  case (1 m1)
  then show ?case by simp
next
  case (2 exclusive t ts m1)
  then obtain m' where m': "mutex_step exclusive t m1 = Some m'" "run_tasks ts m' = Some m2"
    by (auto split: option.splits)
  have "mutex_run m m'" using 2(4) _ m'(1) by (rule mutex_run.step) (use 2(3) in auto)
  then show ?case using 2(1) [OF m'] 2(3) by simp
qed

lemmas mutex_eval = mutex_step_def moves_def wake_all_def spinlock_testAndSet_def spinlock_init_def
  SPLCK_UNLOCKED_def SPLCK_LOCKED_def unused_def

theorem mutual_exclusion_witness:
  "\<exists>m. run_tasks [(True, 1), (True, 2), (True, 1), (True, 2), (True, 1)] unused = Some m \<and> at m 1 = Inside \<and>
     ownerPid (the_lock m) = 1 \<and> (\<forall>u. holds_mutex m u \<longrightarrow> u = 1)"
proof -
  obtain m where m: "run_tasks [(True, 1), (True, 2), (True, 1), (True, 2), (True, 1)] unused = Some m" "at m 1 = Inside"
    by (simp add: mutex_eval)
  have "mutex_run unused m" by (rule run_tasks_run [OF m(1) _ mutex_run.stay]) simp
  then show ?thesis using mutual_exclusion [of m] m holds_at(2) [OF m(2)] by blast
qed



text \<open>A wake-up can be lost: the holder frees the mutex after another task has found it taken and
  before that task is in the sleeping queue. The task then sleeps although the mutex is free and nobody
  uses it, and stays asleep until some mutex is freed.\<close>

theorem wake_up_lost:
  "\<exists>m. mutex_run unused m \<and> at m = (\<lambda>t. if t = 2 then Asleep else Outside) \<and> lock_val (the_lock m) = 0 \<and>
     ownerPid (the_lock m) = 0 \<and> (\<forall>exclusive. mutex_step exclusive 2 m = None)"
proof -
  let ?ts = "[(True, 1), (True, 1), (True, 1), (True, 2), (True, 2), (True, 1), (True, 1), (True, 1), (True, 2), (True, 2)]"
  obtain m where m: "run_tasks ?ts unused = Some m" "at m = (\<lambda>t. if t = 2 then Asleep else Outside)"
      "lock_val (the_lock m) = 0" "ownerPid (the_lock m) = 0"
    by (simp add: mutex_eval fun_eq_iff)
  have "mutex_run unused m" by (rule run_tasks_run [OF m(1) _ mutex_run.stay]) simp
  then show ?thesis using m by (auto simp: mutex_step_def)
qed

end
