(* ===== verification/StartUp.thy ===== *)
theory StartUp
  imports SchedInvariant
begin

text \<open>
  How the scheduler's state comes to be: the part of \<open>kernel_main\<close> (\<open>src/Kernel.cpp\<close>) that makes the
  locks, the queues and the first tasks of core 0, and \<open>initSecondaryCore\<close> (\<open>src/SMP.cpp\<close>), which does
  the same on each other core. What they leave behind satisfies the invariant that the interrupts keep.

  The allocator is a parameter here: the \<open>n\<close>-th object made with \<open>new Task()\<close> lies at \<open>obj n\<close>, the stack
  allocated with it at \<open>stack n\<close>; the theorems need that no two of the objects are the same, which is
  what the allocator guarantees. The state is the number of objects made so far and the kernel.
\<close>

subsection \<open>Operations\<close>

record firmware =
  obj :: "nat \<Rightarrow> nat"
  stack :: "nat \<Rightarrow> nat"
  array_fresh :: "int \<Rightarrow> nat"
  sorted_garbage :: bool
  idleTask :: "64 word"
  kernelTask :: "64 word"
  screenTask :: "64 word"

type_synonym boot = "nat \<times> kernel"

definition new_kernel_task :: "firmware \<Rightarrow> 64 word \<Rightarrow> boot \<Rightarrow> nat \<times> boot" where
  "new_kernel_task f entry s =
     (case s of (n, k) \<Rightarrow> (obj f n, n + 1, createKernelTask (obj f n) (stack f n) entry k))"

text \<open>\<open>Core::runningQ[core][t->p]->add(t)\<close>\<close>

definition enqueue :: "firmware \<Rightarrow> nat \<Rightarrow> nat \<Rightarrow> boot \<Rightarrow> boot" where
  "enqueue f core t s =
     (case s of (n, k) \<Rightarrow>
        (n, update_queue core (prio (tasks k t)) (array_list_add (array_fresh f) (runningQ k core (prio (tasks k t))) t) k))"

definition on_task :: "nat \<Rightarrow> (task \<Rightarrow> task) \<Rightarrow> boot \<Rightarrow> boot" where
  "on_task t g s = (case s of (n, k) \<Rightarrow> (n, update_task t g k))"

definition make_queues :: "firmware \<Rightarrow> nat \<Rightarrow> kernel \<Rightarrow> kernel" where
  "make_queues f core k =
     foldl (\<lambda>k p. update_queue core p (array_list_new (array_fresh f) (sorted_garbage f)) k) k [0..<PRIORITIES]"

definition add_idle :: "firmware \<Rightarrow> nat \<Rightarrow> boot \<Rightarrow> boot" where
  "add_idle f core s = (let (idle, s) = new_kernel_task f (idleTask f) s in enqueue f core idle s)"

primrec add_workers :: "nat \<Rightarrow> firmware \<Rightarrow> nat \<Rightarrow> boot \<Rightarrow> boot" where
  "add_workers 0 f core s = s"
| "add_workers (Suc i) f core s =
     (let (t, s) = new_kernel_task f (kernelTask f) s;
          s = on_task t (\<lambda>t. t\<lparr>prio := 19\<rparr>) s
      in add_workers i f core (enqueue f core t s))"

definition add_screen :: "firmware \<Rightarrow> nat \<Rightarrow> boot \<Rightarrow> boot" where
  "add_screen f core s =
     (let (screen, s) = new_kernel_task f (screenTask f) s;
          s = on_task screen (\<lambda>t. t\<lparr>prio := 0\<rparr>) s;
          s = on_task screen (pinToCore core) s
      in enqueue f core screen s)"

text \<open>\<open>current = new Task()\<close>\<close>

definition set_current :: "firmware \<Rightarrow> nat \<Rightarrow> boot \<Rightarrow> boot" where
  "set_current f core s =
     (case s of (n, k) \<Rightarrow>
        let k = update_task (obj f n) task_init k
        in (n + 1, k\<lparr>currentTask := (currentTask k)(core := obj f n)\<rparr>))"

definition initSecondaryCore :: "device \<Rightarrow> firmware \<Rightarrow> nat \<Rightarrow> boot \<Rightarrow> (kernel, boot) run" where
  "initSecondaryCore dev f core s =
     (let s = (case s of (n, k) \<Rightarrow> (n, make_queues f core k));
          s = add_idle f core s;
          s = add_workers THREAD_N f core s;
          s = add_screen f core s;
          (n, k) = set_current f core s
      in thn (say_locked dev core
           (''@@@@@@@@@@@@@@@'' @ nl @ nl @ '' Core %d active!'' @ nl @ nl @ ''@@@@@@@@@@@@@@@'' @ nl) [num core] k)
         (\<lambda>k. ret (n, k)))"

definition make_locks :: "kernel \<Rightarrow> kernel" where
  "make_locks k = foldl (\<lambda>k i. k\<lparr>runningQLock := (runningQLock k)(i := spinlock_init (runningQLock k i))\<rparr>) k
     [0..<NUM_CORES]"

definition kernel_main_tasks :: "firmware \<Rightarrow> boot \<Rightarrow> boot" where
  "kernel_main_tasks f s =
     (case s of (n, k) \<Rightarrow>
        let k = make_locks k;
            k = k\<lparr>sleepingQLock := spinlock_init (sleepingQLock k)\<rparr>;
            k = make_queues f 0 k;
            k = k\<lparr>sleepingQ := array_list_new (array_fresh f) (sorted_garbage f)\<rparr>;
            s = add_idle f 0 (n, k);
            s = add_workers THREAD_N f 0 s;
            s = add_screen f 0 s
        in set_current f 0 s)"

subsection \<open>Adding tasks\<close>

text \<open>
  \<open>added core ts k k'\<close>: the tasks \<open>ts\<close>, each with its priority, have been created and put into the
  running queues of \<open>core\<close>, in this order, with consecutive process numbers.
\<close>

definition added :: "nat \<Rightarrow> (nat \<times> nat) list \<Rightarrow> kernel \<Rightarrow> kernel \<Rightarrow> bool" where
  "added core ts k k' \<longleftrightarrow>
     (\<forall>t. t \<notin> fst ` set ts \<longrightarrow> tasks k' t = tasks k t) \<and>
     (\<forall>(t, p) \<in> set ts. prio (tasks k' t) = p \<and> premption (tasks k' t) = 0 \<and>
        (isCorePinned (tasks k' t) \<longrightarrow> corePinned (tasks k' t) = core)) \<and>
     (\<forall>c q. queue_ok (runningQ k c q) \<longrightarrow> queue_ok (runningQ k' c q) \<and> elements (runningQ k' c q) =
        elements (runningQ k c q) @ (if c = core then map fst (filter (\<lambda>(t, p). p = q) ts) else [])) \<and>
     (freePID k + length ts < 2 ^ 64 \<longrightarrow> freePID k' = freePID k + length ts \<and>
        map (\<lambda>(t, p). pid (tasks k' t)) ts = [freePID k..<freePID k + length ts]) \<and>
     k' = k\<lparr>tasks := tasks k', runningQ := runningQ k', freePID := freePID k'\<rparr>"

lemma addedD:
  assumes "added core ts k k'"
  shows "t \<notin> fst ` set ts \<Longrightarrow> tasks k' t = tasks k t"
    "(t, p) \<in> set ts \<Longrightarrow> prio (tasks k' t) = p \<and> premption (tasks k' t) = 0 \<and>
       (isCorePinned (tasks k' t) \<longrightarrow> corePinned (tasks k' t) = core)"
    "queue_ok (runningQ k c q) \<Longrightarrow> queue_ok (runningQ k' c q)"
    "queue_ok (runningQ k c q) \<Longrightarrow> elements (runningQ k' c q) =
       elements (runningQ k c q) @ (if c = core then map fst (filter (\<lambda>(t, p). p = q) ts) else [])"
    "freePID k + length ts < 2 ^ 64 \<Longrightarrow> freePID k' = freePID k + length ts"
    "freePID k + length ts < 2 ^ 64 \<Longrightarrow>
       map (\<lambda>(t, p). pid (tasks k' t)) ts = [freePID k..<freePID k + length ts]"
    "k' = k\<lparr>tasks := tasks k', runningQ := runningQ k', freePID := freePID k'\<rparr>"
proof -
  note parts = assms [unfolded added_def]
  show "t \<notin> fst ` set ts \<Longrightarrow> tasks k' t = tasks k t" using parts by (elim conjE) blast
  show "(t, p) \<in> set ts \<Longrightarrow> prio (tasks k' t) = p \<and> premption (tasks k' t) = 0 \<and>
       (isCorePinned (tasks k' t) \<longrightarrow> corePinned (tasks k' t) = core)" using parts by (elim conjE) fast
  show "queue_ok (runningQ k c q) \<Longrightarrow> queue_ok (runningQ k' c q)" using parts by (elim conjE) blast
  show "queue_ok (runningQ k c q) \<Longrightarrow> elements (runningQ k' c q) =
       elements (runningQ k c q) @ (if c = core then map fst (filter (\<lambda>(t, p). p = q) ts) else [])"
    using parts by (elim conjE) blast
  show "freePID k + length ts < 2 ^ 64 \<Longrightarrow> freePID k' = freePID k + length ts" using parts by (elim conjE) blast
  show "freePID k + length ts < 2 ^ 64 \<Longrightarrow>
       map (\<lambda>(t, p). pid (tasks k' t)) ts = [freePID k..<freePID k + length ts]" using parts by (elim conjE) blast
  show "k' = k\<lparr>tasks := tasks k', runningQ := runningQ k', freePID := freePID k'\<rparr>" using parts by (elim conjE)
qed

lemma added_refl: "added core [] k k"
  by (simp add: added_def)

lemma fields_trans:
  "k1 = k\<lparr>tasks := ta, runningQ := ra, freePID := fa\<rparr> \<Longrightarrow> k2 = k1\<lparr>tasks := tb, runningQ := rb, freePID := fb\<rparr> \<Longrightarrow>
   k2 = k\<lparr>tasks := tb, runningQ := rb, freePID := fb\<rparr>"
  by simp

lemma added_trans:
  assumes a: "added core ts k k1" and b: "added core us k1 k2" and disj: "fst ` set ts \<inter> fst ` set us = {}"
  shows "added core (ts @ us) k k2"
proof -
  have old: "tasks k2 t = tasks k1 t" if "(t, p) \<in> set ts" for t p
  proof (rule addedD(1) [OF b])
    show "t \<notin> fst ` set us" using disj that by force
  qed
  show ?thesis unfolding added_def
  proof (intro conjI allI impI)
    fix t assume "t \<notin> fst ` set (ts @ us)"
    then show "tasks k2 t = tasks k t" using addedD(1) [OF a, of t] addedD(1) [OF b, of t] by (simp add: image_Un)
  next
    show "\<forall>(t, p) \<in> set (ts @ us). prio (tasks k2 t) = p \<and> premption (tasks k2 t) = 0 \<and>
        (isCorePinned (tasks k2 t) \<longrightarrow> corePinned (tasks k2 t) = core)"
      using addedD(2) [OF a] addedD(2) [OF b] old by (auto simp: ball_Un)
  next
    fix c q assume q: "queue_ok (runningQ k c q)"
    note q1 = addedD(3) [OF a q]
    show "queue_ok (runningQ k2 c q)" by (rule addedD(3) [OF b q1])
    show "elements (runningQ k2 c q) = elements (runningQ k c q) @
        (if c = core then map fst (filter (\<lambda>(t, p). p = q) (ts @ us)) else [])"
      using addedD(4) [OF a q] addedD(4) [OF b q1] by simp
  next
    assume "freePID k + length (ts @ us) < 2 ^ 64"
    then have small: "freePID k + length ts < 2 ^ 64" "freePID k + length ts + length us < 2 ^ 64" by simp_all
    note p1 = addedD(5,6) [OF a small(1)]
    have small1: "freePID k1 + length us < 2 ^ 64" using small(2) p1(1) by simp
    note p2 = addedD(5,6) [OF b small1]
    show "freePID k2 = freePID k + length (ts @ us)" using p1(1) p2(1) by simp
    have "map (\<lambda>(t, p). pid (tasks k2 t)) ts = map (\<lambda>(t, p). pid (tasks k1 t)) ts"
      using old by auto
    moreover have "[freePID k..<freePID k + length (ts @ us)] =
        [freePID k..<freePID k + length ts] @ [freePID k1..<freePID k1 + length us]"
      using upt_add_eq_append [of "freePID k" "freePID k + length ts" "length us"] p1(1)
      by (simp add: add.assoc)
    ultimately show "map (\<lambda>(t, p). pid (tasks k2 t)) (ts @ us) = [freePID k..<freePID k + length (ts @ us)]"
      using p1(2) p2(2) by simp
  next
    show "k2 = k\<lparr>tasks := tasks k2, runningQ := runningQ k2, freePID := freePID k2\<rparr>"
      by (rule fields_trans [OF addedD(7) [OF a] addedD(7) [OF b]])
  qed
qed

text \<open>All three loops create a task, change what the task's place depends on, and queue it.\<close>

lemma add_one:
  assumes g: "\<And>t. premption (g t) = premption t" "\<And>t. pid (g t) = pid t"
    "\<And>t. \<not> isCorePinned t \<Longrightarrow> isCorePinned (g t) \<Longrightarrow> corePinned (g t) = core"
    and p: "\<And>t. prio t = 20 \<Longrightarrow> prio (g t) = p"
  shows "\<exists>k'. enqueue f core (obj f n) (on_task (obj f n) g (snd (new_kernel_task f entry (n, k)))) = (n + 1, k') \<and>
    added core [(obj f n, p)] k k'"
proof -
  let ?t = "obj f n"
  define T where "T = g (tasks (createKernelTask ?t (stack f n) entry k) ?t)"
  have T: "prio T = p" "premption T = 0" "pid T = freePID k" "isCorePinned T \<longrightarrow> corePinned T = core"
    using g p by (simp_all add: T_def createKernelTask_def Let_def update_task_def)
  let ?l = "array_list_add (array_fresh f) (runningQ k core p) ?t"
  define k' where "k' = k\<lparr>tasks := (tasks k)(?t := T), freePID := add64 (freePID k) 1,
      runningQ := (runningQ k)(core := (runningQ k core)(p := ?l))\<rparr>"
  have "enqueue f core ?t (on_task ?t g (snd (new_kernel_task f entry (n, k)))) = (n + 1, k')"
    using T(1) unfolding T_def
    by (simp add: enqueue_def on_task_def new_kernel_task_def k'_def T_def createKernelTask_def Let_def
        update_task_def update_queue_def)
  moreover have "added core [(?t, p)] k k'"
    unfolding added_def k'_def using T add_elements [of "runningQ k core p" "array_fresh f" ?t]
    by (auto simp: queue_ok_def add64_def)
  ultimately show ?thesis by blast
qed

lemma add_workers_spec:
  assumes "inj_on (obj f) {n..<n + i}"
  shows "\<exists>k'. add_workers i f core (n, k) = (n + i, k') \<and> added core (map (\<lambda>j. (obj f j, 19)) [n..<n + i]) k k'"
  using assms
proof (induction i arbitrary: n k)
  case 0
  then show ?case by (simp add: added_refl)
next
  case (Suc i)
  obtain k1 where k1: "enqueue f core (obj f n) (on_task (obj f n) (\<lambda>t. t\<lparr>prio := 19\<rparr>)
        (snd (new_kernel_task f (kernelTask f) (n, k)))) = (n + 1, k1)" "added core [(obj f n, 19)] k k1"
    using add_one [of "\<lambda>t. t\<lparr>prio := 19\<rparr>" core 19 f n "kernelTask f" k] by auto
  have rest: "inj_on (obj f) {n + 1..<(n + 1) + i}" using Suc.prems by (rule inj_on_subset) auto
  then obtain k' where k': "add_workers i f core (n + 1, k1) = (n + 1 + i, k')"
      "added core (map (\<lambda>j. (obj f j, 19)) [n + 1..<n + 1 + i]) k1 k'"
    using Suc.IH by blast
  have "add_workers (Suc i) f core (n, k) = add_workers i f core (n + 1, k1)"
    using k1(1) by (simp add: new_kernel_task_def Let_def)
  moreover have "obj f n \<notin> obj f ` {n + 1..<n + 1 + i}"
    using inj_on_image_mem_iff [OF Suc.prems, of n "{n + 1..<n + 1 + i}"] by auto
  then have "added core ([(obj f n, 19)] @ map (\<lambda>j. (obj f j, 19)) [n + 1..<n + 1 + i]) k k'"
    by (intro added_trans [OF k1(2) k'(2)]) (simp add: image_image del: upt_Suc)
  moreover have "[n..<n + Suc i] = n # [n + 1..<n + 1 + i]" by (simp add: upt_conv_Cons)
  ultimately show ?case using k'(1) by simp
qed

text \<open>The tasks of a core whose objects begin with number \<open>n\<close>, with their priorities.\<close>

definition core_tasks :: "firmware \<Rightarrow> nat \<Rightarrow> (nat \<times> nat) list" where
  "core_tasks f n = [(obj f n, 20)] @ map (\<lambda>j. (obj f j, 19)) [n + 1..<n + 1 + THREAD_N] @ [(obj f (n + 101), 0)]"

lemma populate:
  assumes "inj_on (obj f) {n..<n + 102}" "core < NUM_CORES"
  shows "\<exists>k'. add_screen f core (add_workers THREAD_N f core (add_idle f core (n, k))) = (n + 102, k') \<and>
    added core (core_tasks f n) k k'"
proof -
  obtain k1 where k1: "enqueue f core (obj f n) (on_task (obj f n) (\<lambda>t. t) (snd (new_kernel_task f (idleTask f) (n, k)))) =
      (n + 1, k1)" "added core [(obj f n, 20)] k k1"
    using add_one [of "\<lambda>t. t" core 20 f n "idleTask f" k] by auto
  have idle: "add_idle f core (n, k) = (n + 1, k1)"
    using k1(1) by (simp add: add_idle_def new_kernel_task_def on_task_def update_task_def Let_def)
  have workers: "inj_on (obj f) {n + 1..<n + 1 + THREAD_N}"
    using assms(1) by (rule inj_on_subset) (auto simp: THREAD_N_def)
  obtain k2 where k2: "add_workers THREAD_N f core (n + 1, k1) = (n + 101, k2)"
      "added core (map (\<lambda>j. (obj f j, 19)) [n + 1..<n + 1 + THREAD_N]) k1 k2"
    using add_workers_spec [OF workers, of core k1] by (auto simp: THREAD_N_def)
  let ?g = "\<lambda>t. pinToCore core (t\<lparr>prio := 0\<rparr>)"
  obtain k3 where k3: "enqueue f core (obj f (n + 101)) (on_task (obj f (n + 101)) ?g
        (snd (new_kernel_task f (screenTask f) (n + 101, k2)))) = (n + 102, k3)" "added core [(obj f (n + 101), 0)] k2 k3"
    using add_one [of ?g core 0 f "n + 101" "screenTask f" k2] assms(2)
    by (auto simp: pinToCore_def NUM_CORES_def)
  have "add_screen f core (n + 101, k2) = (n + 102, k3)"
    using k3(1) by (simp add: add_screen_def new_kernel_task_def on_task_def update_task_def Let_def)
  moreover have "inj_on (obj f) ({n} \<union> {n + 1..<n + 101} \<union> {n + 101})"
    using assms(1) by (rule inj_on_subset) auto
  then have "obj f n \<notin> obj f ` {n + 1..<n + 101}" "obj f n \<noteq> obj f (n + 101)"
    "obj f (n + 101) \<notin> obj f ` {n + 1..<n + 101}"
    by (auto simp: inj_on_def)
  then have "added core ([(obj f n, 20)] @ map (\<lambda>j. (obj f j, 19)) [n + 1..<n + 1 + THREAD_N] @ [(obj f (n + 101), 0)]) k k3"
    by (intro added_trans [OF k1(2) added_trans [OF k2(2) k3(2)]]) (auto simp: THREAD_N_def)
  ultimately show ?thesis using idle k2(1) by (simp add: core_tasks_def)
qed

lemma make_queues_spec:
  "make_queues f core k = k\<lparr>runningQ := (runningQ k)(core :=
     (\<lambda>p. if p < PRIORITIES then array_list_new (array_fresh f) (sorted_garbage f) else runningQ k core p))\<rparr>"
proof -
  have "foldl (\<lambda>k p. update_queue core p l k) k ps = k\<lparr>runningQ := (runningQ k)(core :=
      (\<lambda>p. if p \<in> set ps then l else runningQ k core p))\<rparr>" for l ps
    by (induction ps arbitrary: k) (auto simp: update_queue_def fun_eq_iff)
  then show ?thesis by (simp add: make_queues_def atLeast0LessThan)
qed

subsection \<open>The state after some cores have been started\<close>

text \<open>
  \<open>started f B n k\<close>: the cores of \<open>B\<close>, each with the number of its first object, have been set up with
  objects below \<open>n\<close>.
\<close>

definition core_up :: "firmware \<Rightarrow> kernel \<Rightarrow> nat \<times> nat \<Rightarrow> bool" where
  "core_up f k B = (case B of (c, m) \<Rightarrow> c < NUM_CORES \<and>
     (\<forall>q < PRIORITIES. queue_ok (runningQ k c q) \<and>
        elements (runningQ k c q) = map fst (filter (\<lambda>(t, p). p = q) (core_tasks f m))) \<and>
     (\<forall>(t, p) \<in> set (core_tasks f m). prio (tasks k t) = p \<and> premption (tasks k t) = 0 \<and>
        (isCorePinned (tasks k t) \<longrightarrow> corePinned (tasks k t) = c)) \<and>
     currentTask k c = obj f (m + 102) \<and> premption (current c k) = 0)"

definition started :: "firmware \<Rightarrow> (nat \<times> nat) list \<Rightarrow> nat \<Rightarrow> kernel \<Rightarrow> bool" where
  "started f B n k \<longleftrightarrow> distinct (map fst B) \<and> map snd B = map (\<lambda>i. 103 * i) [0..<length B] \<and> n = 103 * length B \<and>
     (\<forall>b \<in> set B. core_up f k b) \<and> unlocked (runningQLock k) \<and> lock_val (sleepingQLock k) = 0 \<and>
     elements (sleepingQ k) = [] \<and> queue_ok (sleepingQ k) \<and> freePID k = 1 + 102 * length B \<and>
     map (\<lambda>t. pid (tasks k t)) (concat (map (\<lambda>(c, m). map fst (core_tasks f m)) B)) = [1..<1 + 102 * length B]"

lemma core_tasks_objects: "fst ` set (core_tasks f m) = obj f ` {m..<m + 102}"
proof -
  have "{m..<m + 102} = {m} \<union> {m + 1..<m + 101} \<union> {m + 101}" by auto
  then show ?thesis by (auto simp: core_tasks_def THREAD_N_def image_Un image_image)
qed

lemma core_tasks_length [simp]: "length (core_tasks f m) = 102"
  by (simp add: core_tasks_def THREAD_N_def)

text \<open>Setting up one more core, with the queues already made, does not touch the others.\<close>

lemma core_up_other:
  assumes b: "core_up f k (c, m)" and c: "c \<noteq> core"
    and same: "\<And>t. t \<in> obj f ` {m..<m + 103} \<Longrightarrow> tasks k' t = tasks k t"
    and other: "\<And>q. q < PRIORITIES \<Longrightarrow> queue_ok (runningQ k c q) \<Longrightarrow>
      queue_ok (runningQ k' c q) \<and> elements (runningQ k' c q) = elements (runningQ k c q)"
    and cur: "currentTask k' c = currentTask k c"
  shows "core_up f k' (c, m)"
proof -
  have "tasks k' t = tasks k t" if "(t, p) \<in> set (core_tasks f m)" for t p
  proof (rule same)
    have "t \<in> obj f ` {m..<m + 102}" using that core_tasks_objects by force
    then show "t \<in> obj f ` {m..<m + 103}" by auto
  qed
  moreover have "current c k' = current c k"
    using b cur same [of "obj f (m + 102)"] by (simp add: core_up_def current_def)
  ultimately show ?thesis using b other cur by (auto simp: core_up_def)
qed

definition set_up_core :: "firmware \<Rightarrow> nat \<Rightarrow> boot \<Rightarrow> boot" where
  "set_up_core f core s =
     set_current f core (add_screen f core (add_workers THREAD_N f core (add_idle f core
       (fst s, make_queues f core (snd s)))))"

lemma set_up_core_spec:
  assumes B: "started f B n k" and core: "core < NUM_CORES" "core \<notin> fst ` set B"
    and inj: "inj_on (obj f) {0..<n + 103}" and small: "length B < NUM_CORES"
  shows "\<exists>k'. set_up_core f core (n, k) = (n + 103, k') \<and> started f (B @ [(core, n)]) (n + 103) k' \<and>
    kernel_con k' = kernel_con k"
proof -
  let ?k0 = "make_queues f core k"
  have "inj_on (obj f) {n..<n + 102}" using inj by (rule inj_on_subset) auto
  then obtain k1 where k1: "add_screen f core (add_workers THREAD_N f core (add_idle f core (n, ?k0))) = (n + 102, k1)"
      "added core (core_tasks f n) ?k0 k1"
    using populate [OF _ core(1)] by blast
  define k' where "k' = (update_task (obj f (n + 102)) task_init k1)\<lparr>currentTask :=
    (currentTask k1)(core := obj f (n + 102))\<rparr>"
  have run: "set_up_core f core (n, k) = (n + 103, k')"
    by (simp add: set_up_core_def k1(1) set_current_def k'_def Let_def update_task_def)
  note k0 = make_queues_spec [of f core k]
  note same1 = addedD(1) [OF k1(2), unfolded core_tasks_objects]
  have fields: "k1 = ?k0\<lparr>tasks := tasks k1, runningQ := runningQ k1, freePID := freePID k1\<rparr>"
    by (rule addedD(7) [OF k1(2)])
  have k': "runningQ k' = runningQ k1" "currentTask k' = (currentTask k)(core := obj f (n + 102))"
    "runningQLock k' = runningQLock k" "sleepingQLock k' = sleepingQLock k" "sleepingQ k' = sleepingQ k"
    "freePID k' = freePID k1" "kernel_con k' = kernel_con k"
    "tasks k' = (tasks k1)(obj f (n + 102) := task_init (tasks k1 (obj f (n + 102))))"
    by (simp_all add: k'_def update_task_def) (subst fields, simp add: k0)+
  have n: "n = 103 * length B" using B by (simp add: started_def)
  have apart: "obj f i \<noteq> obj f j" if "i < n + 103" "j < n + 103" "i \<noteq> j" for i j
    using inj_onD [OF inj, of i j] that by auto
  have last: "obj f (n + 102) \<notin> obj f ` {n..<n + 102}" using apart by fastforce
  have old: "tasks k' t = tasks k t" if "t \<in> obj f ` {m..<m + 103}" "(c, m) \<in> set B" for t c m
  proof -
    have "m \<in> set (map snd B)" using that(2) by force
    moreover have "map snd B = map (\<lambda>i. 103 * i) [0..<length B]" using B unfolding started_def by (elim conjE)
    ultimately have "m \<in> set (map (\<lambda>i. 103 * i) [0..<length B])" by (simp only:)
    then have "m + 103 \<le> n" by (auto simp: n)
    then have "t \<notin> obj f ` {n..<n + 102}" "t \<noteq> obj f (n + 102)" using that(1) apart by fastforce+
    then show ?thesis using same1 [of t] by (simp add: k'(8) k0)
  qed
  have ups: "core_up f k' (c, m)" if "(c, m) \<in> set B" for c m
  proof (rule core_up_other)
    show "core_up f k (c, m)" using B that by (auto simp: started_def)
    show c: "c \<noteq> core" using core(2) that by force
    show "tasks k' t = tasks k t" if "t \<in> obj f ` {m..<m + 103}" for t by (rule old [OF that \<open>(c, m) \<in> set B\<close>])
    show "queue_ok (runningQ k' c q) \<and> elements (runningQ k' c q) = elements (runningQ k c q)"
      if "q < PRIORITIES" "queue_ok (runningQ k c q)" for q
      using addedD(3,4) [OF k1(2), of c q] that c by (simp add: k'(1) k0)
    show "currentTask k' c = currentTask k c" using c by (simp add: k'(2))
  qed
  have new: "core_up f k' (core, n)"
    unfolding core_up_def prod.case
  proof (intro conjI allI impI ballI)
    fix q assume q: "q < PRIORITIES"
    have "queue_ok (runningQ ?k0 core q)" "elements (runningQ ?k0 core q) = []"
      using q by (simp_all add: k0 queue_ok_def array_list_new_def elements_def)
    then show "queue_ok (runningQ k' core q)" "elements (runningQ k' core q) =
        map fst (filter (\<lambda>(t, p). p = q) (core_tasks f n))"
      using addedD(3,4) [OF k1(2), of core q] by (simp_all add: k'(1))
  next
    fix x assume x: "x \<in> set (core_tasks f n)"
    then have "fst x \<noteq> obj f (n + 102)" using last core_tasks_objects [of f n] by force
    then show "case x of (t, p) \<Rightarrow> prio (tasks k' t) = p \<and> premption (tasks k' t) = 0 \<and>
        (isCorePinned (tasks k' t) \<longrightarrow> corePinned (tasks k' t) = core)"
      using addedD(2) [OF k1(2), of "fst x" "snd x"] x by (auto simp: k'(8))
  qed (simp_all add: core k' current_def task_init_def)
  have pids: "map (\<lambda>t. pid (tasks k' t)) (concat (map (\<lambda>(c, m). map fst (core_tasks f m)) B)) =
      map (\<lambda>t. pid (tasks k t)) (concat (map (\<lambda>(c, m). map fst (core_tasks f m)) B))"
  proof (rule map_cong [OF refl])
    fix t assume "t \<in> set (concat (map (\<lambda>(c, m). map fst (core_tasks f m)) B))"
    then obtain c m where cm: "(c, m) \<in> set B" "t \<in> fst ` set (core_tasks f m)" by auto
    then have "t \<in> obj f ` {m..<m + 103}" unfolding core_tasks_objects by auto
    then show "pid (tasks k' t) = pid (tasks k t)" by (simp add: old [OF _ cm(1)])
  qed
  have fp: "freePID ?k0 + length (core_tasks f n) < 2 ^ 64" "freePID ?k0 = 1 + 102 * length B"
    using B small by (simp_all add: k0 started_def NUM_CORES_def)
  have new_pids: "map (\<lambda>t. pid (tasks k' t)) (map fst (core_tasks f n)) = [1 + 102 * length B..<1 + 102 * length B + 102]"
  proof -
    have "map (\<lambda>t. pid (tasks k' t)) (map fst (core_tasks f n)) = map (\<lambda>(t, p). pid (tasks k1 t)) (core_tasks f n)"
      unfolding map_map
    proof (rule map_cong [OF refl])
      fix x assume "x \<in> set (core_tasks f n)"
      then have "fst x \<noteq> obj f (n + 102)" using last core_tasks_objects [of f n] by force
      then show "((\<lambda>t. pid (tasks k' t)) \<circ> fst) x = (case x of (t, p) \<Rightarrow> pid (tasks k1 t))"
        by (simp add: k'(8) case_prod_beta)
    qed
    then show ?thesis using addedD(6) [OF k1(2) fp(1)] fp(2) by simp
  qed
  have "started f (B @ [(core, n)]) (n + 103) k'"
    unfolding started_def
  proof (intro conjI)
    show "\<forall>b \<in> set (B @ [(core, n)]). core_up f k' b" using ups new by auto
    show "freePID k' = 1 + 102 * length (B @ [(core, n)])"
      using addedD(5) [OF k1(2) fp(1)] fp(2) by (simp add: k'(6))
    show "map (\<lambda>t. pid (tasks k' t)) (concat (map (\<lambda>(c, m). map fst (core_tasks f m)) (B @ [(core, n)]))) =
        [1..<1 + 102 * length (B @ [(core, n)])]"
    proof -
      have "[1..<1 + 102 * length (B @ [(core, n)])] =
          [1..<1 + 102 * length B] @ [1 + 102 * length B..<1 + 102 * length B + 102]"
        using upt_add_eq_append [of 1 "1 + 102 * length B" 102] by (simp add: algebra_simps)
      then show ?thesis using B pids new_pids by (simp add: started_def)
    qed
  qed (use B core(2) n in \<open>simp_all add: started_def k'\<close>)
  then show ?thesis using run k'(7) by blast
qed

subsection \<open>Starting all cores\<close>

primrec start_cores :: "device \<Rightarrow> firmware \<Rightarrow> nat list \<Rightarrow> boot \<Rightarrow> (kernel, boot) run" where
  "start_cores dev f [] s = ret s"
| "start_cores dev f (c # cs) s = thn (initSecondaryCore dev f c s) (start_cores dev f cs)"

definition console_free :: "kernel \<Rightarrow> bool" where
  "console_free k \<longleftrightarrow> console_set (kernel_con k) \<and> (\<forall>l. console_lock (kernel_con k) = Some l \<longrightarrow> lock_val l = 0)"

lemma core_active_printed:
  assumes "accepts dev" "console_free k"
  shows "\<exists>con h. say_locked dev core
      (''@@@@@@@@@@@@@@@'' @ nl @ nl @ '' Core %d active!'' @ nl @ nl @ ''@@@@@@@@@@@@@@@'' @ nl) [num core] k =
      ret (k\<lparr>kernel_con := con, kernel_io := h\<rparr>) \<and> console_free (k\<lparr>kernel_con := con, kernel_io := h\<rparr>)"
proof -
  let ?ps = "[Lit (''@@@@@@@@@@@@@@@'' @ nl @ nl @ '' Core ''), Conv False 0 CHR ''d'' (num core),
    Lit ('' active!'' @ nl @ nl @ ''@@@@@@@@@@@@@@@'' @ nl)]"
  obtain con h where "print dev (pid (current core k)) (kernel_con k)
      (''@@@@@@@@@@@@@@@'' @ nl @ nl @ '' Core %d active!'' @ nl @ nl @ ''@@@@@@@@@@@@@@@'' @ nl) [num core]
      (kernel_io k) = Some (con, h)" "\<forall>l. console_lock con = Some l \<longrightarrow> lock_val l = 0" "console_set con"
    using print_template [where ps = ?ps and args = "[num core]" and dev = dev and con = "kernel_con k" and
        h = "kernel_io k" and pid = "pid (current core k)", OF assms(1) _ _ _ refl] assms(2)
    by (auto simp: console_free_def)
  then show ?thesis by (auto simp: say_locked_def console_free_def)
qed

lemma started_console [simp]:
  "started f B n (k\<lparr>kernel_con := con, kernel_io := h\<rparr>) = started f B n k"
  by (simp add: started_def core_up_def current_def split_def)

lemma initSecondaryCore_spec:
  assumes "accepts dev" "console_free k" "started f B n k" "core < NUM_CORES" "core \<notin> fst ` set B"
    "inj_on (obj f) {0..<n + 103}" "length B < NUM_CORES"
  shows "\<exists>k'. initSecondaryCore dev f core (n, k) = ret (n + 103, k') \<and>
    started f (B @ [(core, n)]) (n + 103) k' \<and> console_free k'"
proof -
  obtain k1 where k1: "set_up_core f core (n, k) = (n + 103, k1)" "started f (B @ [(core, n)]) (n + 103) k1"
      "kernel_con k1 = kernel_con k"
    using set_up_core_spec [OF assms(3-7)] by blast
  have "console_free k1" using assms(2) k1(3) by (simp add: console_free_def)
  then show ?thesis using core_active_printed [OF assms(1), of k1 core] k1(1,2)
    by (auto simp: initSecondaryCore_def set_up_core_def Let_def)
qed

lemma start_cores_spec:
  assumes "accepts dev" "console_free k" "started f B n k" "distinct cs" "set cs \<inter> fst ` set B = {}"
    "set cs \<subseteq> {..<NUM_CORES}" "inj_on (obj f) {0..<n + 103 * length cs}" "length B + length cs \<le> NUM_CORES"
  shows "\<exists>B' k'. start_cores dev f cs (n, k) = ret (n + 103 * length cs, k') \<and>
    started f B' (n + 103 * length cs) k' \<and> map fst B' = map fst B @ cs"
  using assms(2-)
proof (induction cs arbitrary: B n k)
  case Nil
  then show ?case by auto
next
  case (Cons c cs)
  have inj: "inj_on (obj f) {0..<n + 103}" using Cons.prems(6) by (rule inj_on_subset) auto
  obtain k1 where k1: "initSecondaryCore dev f c (n, k) = ret (n + 103, k1)"
      "started f (B @ [(c, n)]) (n + 103) k1" "console_free k1"
    using initSecondaryCore_spec [OF assms(1) Cons.prems(1,2) _ _ inj, of c] Cons.prems by auto
  obtain B' k' where "start_cores dev f cs (n + 103, k1) = ret (n + 103 + 103 * length cs, k')"
      "started f B' (n + 103 + 103 * length cs) k'" "map fst B' = map fst (B @ [(c, n)]) @ cs"
    using Cons.IH [OF k1(3,2)] Cons.prems by (auto simp: algebra_simps)
  then show ?case using k1(1) by (auto simp: algebra_simps)
qed

lemma kernel_main_tasks_spec:
  assumes "freePID k = 1" "inj_on (obj f) {0..<103}"
  shows "\<exists>k'. kernel_main_tasks f (0, k) = (103, k') \<and> started f [(0, 0)] 103 k' \<and> kernel_con k' = kernel_con k"
proof -
  have locks: "foldl (\<lambda>k i. k\<lparr>runningQLock := (runningQLock k)(i := spinlock_init (runningQLock k i))\<rparr>) k is =
      k\<lparr>runningQLock := (\<lambda>i. if i \<in> set is then spinlock_init (runningQLock k i) else runningQLock k i)\<rparr>" for "is"
  proof (induction "is" arbitrary: k)
    case (Cons i "is")
    then show ?case by (auto simp: fun_eq_iff spinlock_init_def)
  qed simp
  have ml: "make_locks k = k\<lparr>runningQLock :=
      (\<lambda>i. if i < NUM_CORES then spinlock_init (runningQLock k i) else runningQLock k i)\<rparr>"
    by (simp add: make_locks_def locks)
  define k0 where "k0 = (make_locks k)\<lparr>sleepingQLock := spinlock_init (sleepingQLock k),
      sleepingQ := array_list_new (array_fresh f) (sorted_garbage f)\<rparr>"
  have commute: "make_queues f 0 (x\<lparr>sleepingQ := l\<rparr>) = (make_queues f 0 x)\<lparr>sleepingQ := l\<rparr>" for x l
    by (simp add: make_queues_spec cong: if_cong)
  have k0: "kernel_main_tasks f (0, k) = set_up_core f 0 (0, k0)"
    by (simp add: kernel_main_tasks_def set_up_core_def k0_def Let_def commute)
       (simp add: ml)
  have con: "kernel_con k0 = kernel_con k" by (simp add: k0_def ml)
  have "started f [] 0 k0"
    using assms(1)
    by (simp add: started_def k0_def ml unlocked_def spinlock_init_def SPLCK_UNLOCKED_def
        queue_ok_def array_list_new_def elements_def)
  then obtain k' where "set_up_core f 0 (0, k0) = (0 + 103, k')" "started f ([] @ [(0, 0)]) (0 + 103) k'"
      "kernel_con k' = kernel_con k0"
    using set_up_core_spec [of f "[]" 0 k0 0] assms(2) by (auto simp: NUM_CORES_def)
  then show ?thesis using k0 con by simp
qed

subsection \<open>The state handed to the interrupts\<close>

lemma filtered_queues:
  assumes "\<forall>x \<in> set ts. snd x < PRIORITIES"
  shows "(\<Sum>q \<in> {..<PRIORITIES}. mset (map fst (filter (\<lambda>(t, p). p = q) ts))) = mset (map fst ts)"
  using assms
proof (induction ts)
  case Nil
  then show ?case by simp
next
  case (Cons x ts)
  have "mset (map fst (filter (\<lambda>(t, p). p = q) (x # ts))) =
      (if q = snd x then {#fst x#} else {#}) + mset (map fst (filter (\<lambda>(t, p). p = q) ts))" for q
    by (auto simp: case_prod_beta)
  then show ?case using Cons by (simp add: sum.distrib)
qed

lemma core_tasks_priority: "x \<in> set (core_tasks f m) \<Longrightarrow> snd x < PRIORITIES"
  by (auto simp: core_tasks_def PRIORITIES_def)

lemma core_up_members:
  assumes "core_up f k (c, m)"
  shows "(\<Sum>q \<in> {..<PRIORITIES}. members (runningQ k c q)) = mset (map fst (core_tasks f m))"
proof -
  have "(\<Sum>q \<in> {..<PRIORITIES}. members (runningQ k c q)) =
      (\<Sum>q \<in> {..<PRIORITIES}. mset (map fst (filter (\<lambda>(t, p). p = q) (core_tasks f m))))"
    by (rule sum.cong) (use assms in \<open>auto simp: core_up_def members_def\<close>)
  also have "\<dots> = mset (map fst (core_tasks f m))" by (rule filtered_queues) (simp add: core_tasks_priority)
  finally show ?thesis .
qed

definition started_tasks :: "firmware \<Rightarrow> (nat \<times> nat) list \<Rightarrow> nat list" where
  "started_tasks f B = concat (map (\<lambda>(c, m). map fst (core_tasks f m)) B)"

lemma started_all_tasks:
  assumes "started f B n k" "set (map fst B) = {..<NUM_CORES}"
  shows "all_tasks k = mset (started_tasks f B)"
proof -
  have B: "distinct (map fst B)" "\<forall>b \<in> set B. core_up f k b" "elements (sleepingQ k) = []"
    using assms(1) by (simp_all add: started_def)
  let ?g = "\<lambda>c. \<Sum>q \<in> {..<PRIORITIES}. members (runningQ k c q)"
  have "all_tasks k = (\<Sum>c \<in> set (map fst B). ?g c)" using B(3) assms(2) by (simp add: all_tasks_def members_def)
  also have "\<dots> = sum_list (map ?g (map fst B))" by (rule sum.distinct_set_conv_list [OF B(1)])
  also have "map ?g (map fst B) = map mset (map (\<lambda>(c, m). map fst (core_tasks f m)) B)"
    using B(2) by (auto simp: core_up_members)
  finally show ?thesis by (simp add: started_tasks_def mset_concat)
qed

lemma started_distinct:
  assumes "started f B n k"
  shows "distinct (started_tasks f B)" "inj_on (\<lambda>t. pid (tasks k t)) (set (started_tasks f B))"
    "length (started_tasks f B) = 102 * length B" "t \<in> set (started_tasks f B) \<Longrightarrow> pid (tasks k t) \<noteq> 0"
proof -
  have pids: "map (\<lambda>t. pid (tasks k t)) (started_tasks f B) = [1..<1 + 102 * length B]"
    using assms by (simp add: started_def started_tasks_def)
  then have "distinct (map (\<lambda>t. pid (tasks k t)) (started_tasks f B))" by simp
  then show "distinct (started_tasks f B)" "inj_on (\<lambda>t. pid (tasks k t)) (set (started_tasks f B))"
    unfolding distinct_map by blast+
  show "length (started_tasks f B) = 102 * length B" using arg_cong [OF pids, of length] by (simp del: upt_Suc)
  show "pid (tasks k t) \<noteq> 0" if "t \<in> set (started_tasks f B)"
  proof -
    have "pid (tasks k t) \<in> set (map (\<lambda>t. pid (tasks k t)) (started_tasks f B))" using that by simp
    then show ?thesis unfolding pids set_upt by (metis atLeastLessThan_iff not_one_le_zero)
  qed
qed

lemma started_inv:
  assumes B: "started f B n k" "set (map fst B) = {..<NUM_CORES}" and inj: "inj_on (obj f) {0..<n}"
  shows "sched_inv k"
proof -
  have up: "\<exists>m. (c, m) \<in> set B \<and> core_up f k (c, m)" if "c < NUM_CORES" for c
  proof -
    have "c \<in> fst ` set B" using that B(2) by simp
    then show ?thesis using B(1) by (auto simp: started_def)
  qed
  have queued: "queued_tasks k = set (started_tasks f B)"
    using started_all_tasks [OF B] by (metis queued_all_tasks set_mset_mset)
  have "task_ok (tasks k t)" if "t \<in> queued_tasks k" for t
  proof -
    obtain c m where cm: "(c, m) \<in> set B" "t \<in> fst ` set (core_tasks f m)"
      using \<open>t \<in> queued_tasks k\<close> by (auto simp: queued started_tasks_def)
    then obtain p where "(t, p) \<in> set (core_tasks f m)" "core_up f k (c, m)"
      using B(1) by (auto simp: started_def)
    then show ?thesis using core_tasks_priority [of "(t, p)" f m] by (auto simp: core_up_def task_ok_def)
  qed
  then have "sched_ok k" using B(1) up by (auto simp: sched_ok_def started_def core_up_def)
  moreover have "placed k"
    unfolding placed_def
  proof (intro allI impI ballI)
    fix c q t assume c: "c < NUM_CORES" "q < PRIORITIES" "t \<in> set (elements (runningQ k c q))"
    obtain m where "core_up f k (c, m)" using up c(1) by blast
    then show "prio (tasks k t) = q" using c by (auto simp: core_up_def)
  qed
  moreover have "currentTask k c \<notin> queued_tasks k" if "c < NUM_CORES" for c
  proof
    assume cur: "currentTask k c \<in> queued_tasks k"
    have bases: "\<exists>i < length B. m = 103 * i" if "(c, m) \<in> set B" for c m
    proof -
      have "m \<in> set (map snd B)" using that by force
      moreover have "map snd B = map (\<lambda>i. 103 * i) [0..<length B]" using B(1) unfolding started_def by (elim conjE)
      ultimately have "m \<in> set (map (\<lambda>i. 103 * i) [0..<length B])" by (simp only:)
      then show ?thesis by auto
    qed
    obtain m where m: "(c, m) \<in> set B" "currentTask k c = obj f (m + 102)"
      using up [OF \<open>c < NUM_CORES\<close>] unfolding core_up_def by blast
    obtain c' m' where m': "(c', m') \<in> set B" "currentTask k c \<in> fst ` set (core_tasks f m')"
      using cur by (auto simp: queued started_tasks_def)
    then obtain j where j: "m' \<le> j" "j < m' + 102" "currentTask k c = obj f j" unfolding core_tasks_objects by auto
    obtain i i' where i: "i < length B" "m = 103 * i" "i' < length B" "m' = 103 * i'"
      using bases [OF m(1)] bases [OF m'(1)] by blast
    have "n = 103 * length B" using B(1) by (simp add: started_def)
    then have "m + 102 < n" "j < n" using i j(2) by linarith+
    moreover have "obj f (m + 102) = obj f j" using m(2) j(3) by simp
    ultimately have "m + 102 = j" using inj_onD [OF inj, of "m + 102" j] by simp
    then have "i < i'" "103 * i' \<le> 103 * i + 102" using i j(1,2) by simp_all
    then show False using mult_le_mono2 [of "Suc i" i' 103] by simp
  qed
  ultimately show ?thesis by (simp add: sched_inv_def)
qed

lemma other_cores_spec:
  assumes "accepts dev" "console_free k1" "started f [(0, 0)] 103 k1" "inj_on (obj f) {0..<412}" "distinct cs" "set cs = {1, 2, 3}"
  shows "\<exists>k'. start_cores dev f cs (103, k1) = ret (412, k') \<and> sched_inv k' \<and>
    (\<forall>t. count (all_tasks k') t \<le> 1) \<and> size (all_tasks k') = 408 \<and> elements (sleepingQ k') = [] \<and>
    inj_on (\<lambda>t. pid (tasks k' t)) (set_mset (all_tasks k')) \<and> (\<forall>t \<in># all_tasks k'. pid (tasks k' t) \<noteq> 0) \<and>
    (\<forall>c < NUM_CORES. isPreamptable c k' \<and> next_queue k' c = Some 0)"
proof -
  have cs: "set cs = {1, 2, 3}" "distinct cs" "length cs = 3"
    using assms(5,6) distinct_card [OF assms(5)] by simp_all
  have n: "103 + 103 * length cs = 412" by (simp add: cs(3))
  have others: "set cs \<inter> fst ` set [(0, 0)] = {}" "set cs \<subseteq> {..<NUM_CORES}" "length [(0, 0)] + length cs \<le> NUM_CORES"
    by (simp_all add: cs(1,3) NUM_CORES_def)
  obtain B k' where k': "start_cores dev f cs (103, k1) = ret (412, k')" "started f B 412 k'" "map fst B = 0 # cs"
    using start_cores_spec [OF assms(1-3) cs(2) others(1,2) _ others(3), unfolded n, OF assms(4)]
    unfolding list.map fst_conv append.simps by (elim exE conjE) (rule that)
  have B: "set (map fst B) = {..<NUM_CORES}" 
    unfolding k'(3) by (simp add: cs(1) NUM_CORES_def lessThan_Suc numeral_eq_Suc insert_commute)
  have len: "length B = 4" using arg_cong [OF k'(3), of length] cs(3) by simp
  have all: "all_tasks k' = mset (started_tasks f B)" by (rule started_all_tasks [OF k'(2) B])
  note d = started_distinct [OF k'(2)]
  have "count (all_tasks k') t \<le> 1" for t
    unfolding all using d(1) by (simp add: distinct_count_atmost_1)
  moreover have "isPreamptable c k' \<and> next_queue k' c = Some 0" if "c < NUM_CORES" for c
  proof -
    have "c \<in> fst ` set B" using that B by simp
    then obtain m where m: "core_up f k' (c, m)" using k'(2) by (auto simp: started_def)
    then have "elements (runningQ k' c 0) = [obj f (m + 101)]"
      by (auto simp: core_up_def core_tasks_def PRIORITIES_def filter_map o_def)
    then have "0 < load k' c 0" using sleeping_positive [of "obj f (m + 101)" "runningQ k' c 0"]
      by (simp add: load_def array_list_getSize_def)
    then show ?thesis using m by (simp add: core_up_def isPreamptable_def next_queue_def PRIORITIES_def upt_rec)
  qed
  moreover have "sched_inv k'" by (rule started_inv [OF k'(2) B assms(4)])
  moreover have "elements (sleepingQ k') = []" using k'(2) by (simp add: started_def)
  ultimately show ?thesis using k'(1) d(2-4) len by (simp add: all)
qed

text \<open>C3: from the state in which \<open>kernel_main\<close> finds the scheduler, setting up core 0 and then the other
  cores, in whatever order they come up, returns and leaves a state that satisfies the scheduler's
  invariant: every core has its idle task, its hundred workers and its screen task, queued once each,
  408 in all, with distinct process numbers none of which is the number that means "nobody"; every core
  can be preempted, runs code that is in no queue, and has its screen task to run first.\<close>

theorem start_up_correct:
  assumes "accepts dev" "console_free k" "freePID k = 1" "inj_on (obj f) {0..<412}" "distinct cs" "set cs = {1, 2, 3}"
  shows "\<exists>k'. start_cores dev f cs (kernel_main_tasks f (0, k)) = ret (412, k') \<and> sched_inv k' \<and>
    (\<forall>t. count (all_tasks k') t \<le> 1) \<and> size (all_tasks k') = 408 \<and> elements (sleepingQ k') = [] \<and>
    inj_on (\<lambda>t. pid (tasks k' t)) (set_mset (all_tasks k')) \<and> (\<forall>t \<in># all_tasks k'. pid (tasks k' t) \<noteq> 0) \<and>
    (\<forall>c < NUM_CORES. isPreamptable c k' \<and> next_queue k' c = Some 0)"
proof -
  obtain k1 where k1: "kernel_main_tasks f (0, k) = (103, k1)" "started f [(0, 0)] 103 k1" "kernel_con k1 = kernel_con k"
    using kernel_main_tasks_spec [OF assms(3), of f] inj_on_subset [OF assms(4), of "{0..<103}"] by auto
  have "console_free k1" using assms(2) k1(3) by (simp add: console_free_def)
  from other_cores_spec [OF assms(1) this k1(2) assms(4-6)] k1(1) show ?thesis by simp
qed

text \<open>A machine with its objects and stacks in a row, a console, and a transmitter that is always ready.\<close>

definition demo_firmware :: firmware where
  "demo_firmware = \<lparr>obj = (\<lambda>n. 0x200000 + 4096 * n), stack = (\<lambda>n. 0x400000 + 4096 * n), array_fresh = (\<lambda>_. 0),
     sorted_garbage = False, idleTask = 0xFFFF000000080000, kernelTask = 0xFFFF000000080100,
     screenTask = 0xFFFF000000080200\<rparr>"

definition demo_boot :: kernel where
  "demo_boot = \<lparr>tasks = (\<lambda>_. undefined), locks = (\<lambda>_. undefined), runningQLock = (\<lambda>_. undefined),
     sleepingQLock = undefined, currentTask = (\<lambda>_. 0), runningQ = (\<lambda>_ _. undefined), sleepingQ = undefined,
     freePID = 1, nextCore = 0, allocations = 0, heap_free = 0,
     kernel_con = setKernelConsole \<lparr>console_set = False, console_lock = None\<rparr>, kernel_io = []\<rparr>"

theorem start_up_correct_witness:
  "\<exists>k'. start_cores (\<lambda>h r. 0x20) demo_firmware [2, 3, 1] (kernel_main_tasks demo_firmware (0, demo_boot)) =
     ret (412, k') \<and> sched_inv k' \<and> size (all_tasks k') = 408"
proof -
  have "console_free demo_boot"
    by (simp add: console_free_def demo_boot_def setKernelConsole_def spinlock_init_def SPLCK_UNLOCKED_def)
  moreover have "freePID demo_boot = 1" by (simp add: demo_boot_def)
  moreover have "inj_on (obj demo_firmware) {0..<412}" by (simp add: demo_firmware_def inj_on_def)
  moreover have "distinct [2, 3, 1 :: nat]" "set [2, 3, 1 :: nat] = {1, 2, 3}" by auto
  ultimately show ?thesis using start_up_correct [OF always_ready] by blast
qed

end
