(* ===== verification/Mailbox.thy ===== *)
theory Mailbox
  imports Machine
begin

text \<open>
  The mailbox to the graphics processor (\<open>src/drivers/Mailbox.cpp\<close>, \<open>src/include/Mailbox.h\<close>) and the
  random number generator (\<open>src/drivers/RNG.cpp\<close>, \<open>src/include/RNG.h\<close>).

  The message buffer is memory the graphics processor writes too, so its words are registers of the
  device; \<open>mbox\<close> is the address of the buffer.
\<close>

subsection \<open>Registers\<close>

definition VIDEOCORE_MBOX :: nat where "VIDEOCORE_MBOX = PERIPHERAL_BASE + 0xB880"
definition MBOX_READ :: nat where "MBOX_READ = VIDEOCORE_MBOX + 0x0"
definition MBOX_STATUS :: nat where "MBOX_STATUS = VIDEOCORE_MBOX + 0x18"
definition MBOX_WRITE :: nat where "MBOX_WRITE = VIDEOCORE_MBOX + 0x20"
definition MBOX_RESPONSE :: "32 word" where "MBOX_RESPONSE = 0x80000000"
definition MBOX_FULL :: "32 word" where "MBOX_FULL = 0x80000000"
definition MBOX_EMPTY :: "32 word" where "MBOX_EMPTY = 0x40000000"

definition MBOX_REQUEST :: "32 word" where "MBOX_REQUEST = 0"
definition MBOX_CH_PROP :: "8 word" where "MBOX_CH_PROP = 8"
definition MBOX_TAG_SETPHYWH :: "32 word" where "MBOX_TAG_SETPHYWH = 0x48003"
definition MBOX_TAG_SETVIRTWH :: "32 word" where "MBOX_TAG_SETVIRTWH = 0x48004"
definition MBOX_TAG_SETVIRTOFF :: "32 word" where "MBOX_TAG_SETVIRTOFF = 0x48009"
definition MBOX_TAG_SETDEPTH :: "32 word" where "MBOX_TAG_SETDEPTH = 0x48005"
definition MBOX_TAG_SETPXLORDR :: "32 word" where "MBOX_TAG_SETPXLORDR = 0x48006"
definition MBOX_TAG_GETFB :: "32 word" where "MBOX_TAG_GETFB = 0x40001"
definition MBOX_TAG_GETPITCH :: "32 word" where "MBOX_TAG_GETPITCH = 0x40008"
definition MBOX_TAG_LAST :: "32 word" where "MBOX_TAG_LAST = 0"

lemmas mbox_registers = VIDEOCORE_MBOX_def MBOX_READ_def MBOX_STATUS_def MBOX_WRITE_def PERIPHERAL_BASE_def
lemmas mbox_tags = MBOX_REQUEST_def MBOX_TAG_SETPHYWH_def MBOX_TAG_SETVIRTWH_def MBOX_TAG_SETVIRTOFF_def
  MBOX_TAG_SETDEPTH_def MBOX_TAG_SETPXLORDR_def MBOX_TAG_GETFB_def MBOX_TAG_GETPITCH_def MBOX_TAG_LAST_def

definition mbox_put :: "nat \<Rightarrow> nat \<Rightarrow> 32 word \<Rightarrow> history \<Rightarrow> history" where
  "mbox_put mbox i v h = mmio_write (mbox + 4 * i) v h"

definition mbox_get :: "device \<Rightarrow> nat \<Rightarrow> nat \<Rightarrow> history \<Rightarrow> 32 word \<times> history" where
  "mbox_get dev mbox i h = mmio_read dev (mbox + 4 * i) h"

subsection \<open>The call\<close>

text \<open>The two polling loops.\<close>

partial_function (option) wait_while :: "device \<Rightarrow> 32 word \<Rightarrow> history \<Rightarrow> history option" where
  "wait_while dev flag h =
     (let (status, h) = mmio_read dev MBOX_STATUS h
      in if status AND flag \<noteq> 0 then wait_while dev flag h else Some h)"

declare wait_while.simps [code]

partial_function (option) await_reply :: "device \<Rightarrow> nat \<Rightarrow> 32 word \<Rightarrow> history \<Rightarrow> (bool \<times> history) option" where
  "await_reply dev mbox r h = do {
     h \<leftarrow> wait_while dev MBOX_EMPTY h;
     let (v, h) = mmio_read dev MBOX_READ h;
     (if r = v then (let (code, h) = mbox_get dev mbox 1 h in Some (code = MBOX_RESPONSE, h))
      else await_reply dev mbox r h)
   }"

declare await_reply.simps [code]

text \<open>The address of the buffer with the channel in its low four bits.\<close>

definition mbox_message :: "nat \<Rightarrow> 8 word \<Rightarrow> 32 word" where
  "mbox_message mbox ch = (of_nat mbox AND NOT 0xF) OR ucast (ch AND 0xF)"

definition mbox_call :: "device \<Rightarrow> nat \<Rightarrow> 8 word \<Rightarrow> history \<Rightarrow> (bool \<times> history) option" where
  "mbox_call dev mbox ch h = do {
     let r = mbox_message mbox ch;
     h \<leftarrow> wait_while dev MBOX_FULL h;
     await_reply dev mbox r (mmio_write MBOX_WRITE r h)
   }"

subsection \<open>The random number generator\<close>

definition ARM_HW_RNG_BASE :: nat where "ARM_HW_RNG_BASE = PERIPHERAL_BASE + 0x104000"
definition ARM_HW_RNG_CTRL :: nat where "ARM_HW_RNG_CTRL = ARM_HW_RNG_BASE + 0x00"
definition ARM_HW_RNG_CTRL_EN :: "32 word" where "ARM_HW_RNG_CTRL_EN = 0x01"
definition ARM_HW_RNG_STATUS :: nat where "ARM_HW_RNG_STATUS = ARM_HW_RNG_BASE + 0x04"
definition ARM_HW_RNG_DATA :: nat where "ARM_HW_RNG_DATA = ARM_HW_RNG_BASE + 0x08"
definition RNG_WARMUP_COUNT :: "32 word" where "RNG_WARMUP_COUNT = 0x0100"

definition rng_init :: "history \<Rightarrow> history" where
  "rng_init h =
     (let h = mmio_write ARM_HW_RNG_STATUS RNG_WARMUP_COUNT h in mmio_write ARM_HW_RNG_CTRL ARM_HW_RNG_CTRL_EN h)"

partial_function (option) rng_getNumber :: "device \<Rightarrow> history \<Rightarrow> (32 word \<times> history) option" where
  "rng_getNumber dev h =
     (let (status, h) = mmio_read dev ARM_HW_RNG_STATUS h
      in if drop_bit 24 status = 0 then rng_getNumber dev h else Some (mmio_read dev ARM_HW_RNG_DATA h))"

declare rng_getNumber.simps [code]

subsection \<open>Answers\<close>

text \<open>
  \<open>clears dev flag h\<close>: from the history \<open>h\<close> on, polling the status register finds the flag clear after
  finitely many reads. \<open>answered dev r h\<close>: after finitely many messages for others the mailbox delivers
  the message \<open>r\<close>.
\<close>

inductive clears :: "device \<Rightarrow> 32 word \<Rightarrow> history \<Rightarrow> history \<Rightarrow> bool" for dev flag where
  clear: "dev h MBOX_STATUS AND flag = 0 \<Longrightarrow> clears dev flag h (snd (mmio_read dev MBOX_STATUS h))"
| busy: "dev h MBOX_STATUS AND flag \<noteq> 0 \<Longrightarrow> clears dev flag (snd (mmio_read dev MBOX_STATUS h)) h' \<Longrightarrow>
    clears dev flag h h'"

inductive answered :: "device \<Rightarrow> 32 word \<Rightarrow> history \<Rightarrow> history \<Rightarrow> bool" for dev r where
  answer: "clears dev MBOX_EMPTY h h1 \<Longrightarrow> dev h1 MBOX_READ = r \<Longrightarrow>
    answered dev r h (snd (mmio_read dev MBOX_READ h1))"
| other: "clears dev MBOX_EMPTY h h1 \<Longrightarrow> dev h1 MBOX_READ \<noteq> r \<Longrightarrow>
    answered dev r (snd (mmio_read dev MBOX_READ h1)) h' \<Longrightarrow> answered dev r h h'"

lemma wait_while_clears: "clears dev flag h h' \<Longrightarrow> wait_while dev flag h = Some h' \<and> writes_of h' = writes_of h"
proof (induction rule: clears.induct)
  case (clear h)
  then show ?case by (subst wait_while.simps) (simp add: mmio_read_def)
next
  case (busy h h')
  then show ?case by (subst wait_while.simps) (simp add: mmio_read_def)
qed

lemma await_reply_answered:
  "answered dev r h h' \<Longrightarrow> await_reply dev mbox r h =
     Some (dev h' (mbox + 4) = MBOX_RESPONSE, snd (mmio_read dev (mbox + 4) h')) \<and> writes_of h' = writes_of h"
proof (induction rule: answered.induct)
  case (answer h h1)
  then show ?case using wait_while_clears [OF answer(1)]
    by (subst await_reply.simps) (simp add: mmio_read_def mbox_get_def)
next
  case (other h h1 h')
  then show ?case using wait_while_clears [OF other(1)]
    by (subst await_reply.simps) (simp add: mmio_read_def)
qed

lemma nibble: "(0xF :: 32 word) = mask 4" "(0xF :: 8 word) = mask 4"
  by (simp_all add: mask_eq_exp_minus_1)

lemma mbox_message_bits:
  assumes "mbox mod 16 = 0"
  shows "mbox_message mbox ch AND 0xF = ucast ch AND 0xF" "mbox_message mbox ch AND NOT 0xF = of_nat mbox"
proof -
  have low: "\<not> bit (of_nat mbox :: 32 word) n" if "n < 4" for n
  proof -
    have "take_bit 4 mbox = 0" using assms by (simp add: take_bit_eq_mod)
    then have "\<not> bit mbox n" using that by (metis bit_0_eq bit_take_bit_iff bot_apply bot_bool_def)
    then show ?thesis by (simp add: bit_simps)
  qed
  show "mbox_message mbox ch AND 0xF = ucast ch AND 0xF"
    unfolding mbox_message_def nibble
    by (rule bit_word_eqI) (auto simp: bit_simps)
  show "mbox_message mbox ch AND NOT 0xF = of_nat mbox"
    unfolding mbox_message_def nibble
    by (rule bit_word_eqI) (use low in \<open>force simp: bit_simps simp flip: not_less\<close>)
qed

lemma mbox_call_spec:
  assumes "mbox mod 16 = 0" "clears dev MBOX_FULL h h1"
    and "answered dev (mbox_message mbox ch) (mmio_write MBOX_WRITE (mbox_message mbox ch) h1) h2"
  shows "\<exists>h'. mbox_call dev mbox ch h = Some (dev h2 (mbox + 4) = MBOX_RESPONSE, h') \<and>
    writes_of h' = writes_of h @ [(MBOX_WRITE, mbox_message mbox ch)] \<and>
    mbox_message mbox ch AND 0xF = ucast ch AND 0xF \<and> mbox_message mbox ch AND NOT 0xF = of_nat mbox"
  using wait_while_clears [OF assms(2)] await_reply_answered [OF assms(3)] mbox_message_bits [OF assms(1), of ch]
  by (simp add: mbox_call_def)

text \<open>When the mailbox takes the message and some reply is the reply to it, the call returns: it has
  written one message, the address of the buffer with the channel in the low four bits, and returns
  whether the graphics processor has marked the buffer as answered.\<close>

theorem mbox_call_correct:
  assumes "mbox mod 16 = 0" "clears dev MBOX_FULL h h1"
    and "answered dev (mbox_message mbox ch) (mmio_write MBOX_WRITE (mbox_message mbox ch) h1) h2"
  shows "\<exists>h'. mbox_call dev mbox ch h = Some (dev h2 (mbox + 4) = MBOX_RESPONSE, h') \<and>
    writes_of h' = writes_of h @ [(MBOX_WRITE, mbox_message mbox ch)] \<and>
    mbox_message mbox ch AND 0xF = ucast ch AND 0xF \<and> mbox_message mbox ch AND NOT 0xF = of_nat mbox"
  by (rule mbox_call_spec [OF assms])

text \<open>A mailbox that first delivers a message for somebody else.\<close>

definition demo_mailbox :: device where
  "demo_mailbox h reg =
     (if reg = MBOX_STATUS then 0
      else if reg = MBOX_READ then (if \<exists>a \<in> set h. (case a of Read r v \<Rightarrow> r = MBOX_READ | _ \<Rightarrow> False) then 0x80008 else 1)
      else MBOX_RESPONSE)"

theorem mbox_call_correct_witness:
  "\<exists>h'. mbox_call demo_mailbox 0x80000 8 [] = Some (True, h') \<and> writes_of h' = [(MBOX_WRITE, 0x80008)]"
proof -
  have r: "mbox_message 0x80000 8 = 0x80008" by (simp add: mbox_message_def)
  let ?h1 = "[Read MBOX_STATUS 0]" and ?w = "[Write MBOX_WRITE 0x80008, Read MBOX_STATUS 0]"
  have full: "clears demo_mailbox MBOX_FULL [] ?h1"
    using clears.clear [of demo_mailbox "[]" MBOX_FULL] by (simp add: demo_mailbox_def mmio_read_def)
  have empty: "clears demo_mailbox MBOX_EMPTY h (Read MBOX_STATUS 0 # h)" for h
    using clears.clear [of demo_mailbox h MBOX_EMPTY] by (simp add: demo_mailbox_def mmio_read_def)
  have second: "answered demo_mailbox 0x80008 (Read MBOX_READ 1 # Read MBOX_STATUS 0 # ?w)
      (Read MBOX_READ 0x80008 # Read MBOX_STATUS 0 # Read MBOX_READ 1 # Read MBOX_STATUS 0 # ?w)"
    using answered.answer [OF empty [of "Read MBOX_READ 1 # Read MBOX_STATUS 0 # ?w"], of "0x80008"]
    by (simp add: demo_mailbox_def mmio_read_def mbox_registers)
  have "answered demo_mailbox 0x80008 ?w
      (Read MBOX_READ 0x80008 # Read MBOX_STATUS 0 # Read MBOX_READ 1 # Read MBOX_STATUS 0 # ?w)"
    by (rule answered.other [OF empty]) (use second in \<open>simp_all add: demo_mailbox_def mmio_read_def mbox_registers\<close>)
  then show ?thesis using mbox_call_correct [OF _ full, of "0x80000" 8] r
    by (fastforce simp: mmio_write_def demo_mailbox_def mbox_registers)
qed

end
