(* ===== verification/Drivers.thy ===== *)
theory Drivers
  imports Gic Timer Mailbox
begin

text \<open>
  \<open>class Vector\<close> (\<open>src/include/Vector.h\<close>), the container of the drivers, and the driver manager
  (\<open>src/drivers/DriverManager.cpp\<close>, \<open>src/include/Driver.h\<close>), with the part of \<open>kernel_main\<close> that loads
  and starts the drivers.
\<close>

subsection \<open>Vector\<close>

text \<open>
  The buffer is a function, or missing; \<open>buf_len\<close> is the number of elements it was allocated with, so
  that an access behind its end can be seen. The counts are unsigned integers of 32 bits. \<open>fresh\<close> is
  what \<open>new T[n]\<close> finds in memory.
\<close>

record 'a vec =
  buffer :: "(nat \<Rightarrow> 'a) option"
  buf_len :: nat
  my_size :: nat
  my_capacity :: nat

definition add32 :: "nat \<Rightarrow> nat \<Rightarrow> nat" where
  "add32 a b = (a + b) mod 2 ^ 32"

definition vec_new :: "'a vec" where
  "vec_new = \<lparr>buffer = None, buf_len = 0, my_size = 0, my_capacity = 0\<rparr>"

definition vec_new_size :: "(nat \<Rightarrow> 'a) \<Rightarrow> nat \<Rightarrow> 'a vec" where
  "vec_new_size fresh n = \<lparr>buffer = Some fresh, buf_len = n, my_size = n, my_capacity = n\<rparr>"

definition vec_new_initial :: "(nat \<Rightarrow> 'a) \<Rightarrow> nat \<Rightarrow> 'a \<Rightarrow> 'a vec" where
  "vec_new_initial fresh n initial =
     \<lparr>buffer = Some (\<lambda>i. if i < n then initial else fresh i), buf_len = n, my_size = n, my_capacity = n\<rparr>"

definition vec_at :: "'a vec \<Rightarrow> nat \<Rightarrow> 'a" where
  "vec_at v i = the (buffer v) i"

text \<open>The copy constructor and the assignment allocate room for the elements only.\<close>

definition vec_copy :: "(nat \<Rightarrow> 'a) \<Rightarrow> 'a vec \<Rightarrow> 'a vec" where
  "vec_copy fresh v =
     \<lparr>buffer = Some (\<lambda>i. if i < my_size v then vec_at v i else fresh i), buf_len = my_size v,
      my_size = my_size v, my_capacity = my_capacity v\<rparr>"

definition vec_assign :: "(nat \<Rightarrow> 'a) \<Rightarrow> 'a vec \<Rightarrow> 'a vec \<Rightarrow> 'a vec" where
  "vec_assign fresh old v = vec_copy fresh v"

definition vec_reserve :: "(nat \<Rightarrow> 'a) \<Rightarrow> nat \<Rightarrow> 'a vec \<Rightarrow> 'a vec" where
  "vec_reserve fresh capacity v =
     (let v = (if buffer v = None then v\<lparr>my_size := 0, my_capacity := 0\<rparr> else v);
          l_Size = (if capacity < my_size v then capacity else my_size v)
      in v\<lparr>buffer := Some (\<lambda>i. if i < l_Size then vec_at v i else fresh i), buf_len := capacity,
           my_capacity := capacity\<rparr>)"

definition vec_push_back :: "(nat \<Rightarrow> 'a) \<Rightarrow> 'a \<Rightarrow> 'a vec \<Rightarrow> 'a vec" where
  "vec_push_back fresh x v =
     (let v = (if my_size v \<ge> my_capacity v then vec_reserve fresh (add32 (my_capacity v) 5) v else v)
      in v\<lparr>buffer := Some ((the (buffer v))(my_size v := x)), my_size := add32 (my_size v) 1\<rparr>)"

definition vec_pop_back :: "'a vec \<Rightarrow> 'a vec" where
  "vec_pop_back v = v\<lparr>my_size := add32 (my_size v) (2 ^ 32 - 1)\<rparr>"

definition vec_resize :: "(nat \<Rightarrow> 'a) \<Rightarrow> nat \<Rightarrow> 'a vec \<Rightarrow> 'a vec" where
  "vec_resize fresh n v = (vec_reserve fresh n v)\<lparr>my_size := n\<rparr>"

definition vec_front :: "'a vec \<Rightarrow> 'a" where
  "vec_front v = vec_at v 0"

definition vec_back :: "'a vec \<Rightarrow> 'a" where
  "vec_back v = vec_at v (add32 (my_size v) (2 ^ 32 - 1))"

definition vec_clear :: "'a vec \<Rightarrow> 'a vec" where
  "vec_clear v = v\<lparr>my_capacity := 0, my_size := 0, buffer := None\<rparr>"

text \<open>What an iteration from \<open>begin()\<close> to \<open>end()\<close> sees.\<close>

definition vec_elements :: "'a vec \<Rightarrow> 'a list" where
  "vec_elements v = map (vec_at v) [0..<my_size v]"

subsection \<open>The driver manager\<close>

datatype driver = GPIO_Driver | UART_Driver | GIC400_Driver | SystemTimer_Driver | RNG_Driver

definition getName :: "driver \<Rightarrow> string" where
  "getName d =
     (case d of GPIO_Driver \<Rightarrow> ''GPIO Driver'' | UART_Driver \<Rightarrow> ''UART Driver'' | GIC400_Driver \<Rightarrow> ''GIC400''
      | SystemTimer_Driver \<Rightarrow> ''SystemTimer'' | RNG_Driver \<Rightarrow> ''RNG 200'')"

text \<open>The \<open>init\<close> of each driver, as far as it touches a device.\<close>

definition driver_init :: "device \<Rightarrow> nat \<Rightarrow> driver \<Rightarrow> console \<times> history \<Rightarrow> (console \<times> history) option" where
  "driver_init dev pid d s =
     (case d of GPIO_Driver \<Rightarrow> Some s
      | UART_Driver \<Rightarrow> Some (fst s, uart_init dev (snd s))
      | GIC400_Driver \<Rightarrow> gic_init dev pid s
      | SystemTimer_Driver \<Rightarrow> Some s
      | RNG_Driver \<Rightarrow> Some (fst s, rng_init (snd s)))"

record manager =
  drivers :: "driver vec"
  m_console :: console
  m_io :: history

definition manager_init :: "manager \<Rightarrow> manager" where
  "manager_init m = m\<lparr>drivers := vec_new\<rparr>"

definition driver_load :: "device \<Rightarrow> nat \<Rightarrow> (nat \<Rightarrow> driver) \<Rightarrow> driver \<Rightarrow> manager \<Rightarrow> manager option" where
  "driver_load dev pid fresh d m =
     (case print dev pid (m_console m) (''Loaded driver: %s'' @ [CHR 0x0A]) [Str (Some (getName d))] (m_io m) of
        None \<Rightarrow> None
      | Some (con, h) \<Rightarrow> Some (m\<lparr>drivers := vec_push_back fresh d (drivers m), m_console := con, m_io := h\<rparr>))"

definition driver_start :: "device \<Rightarrow> nat \<Rightarrow> driver \<Rightarrow> manager \<Rightarrow> manager option" where
  "driver_start dev pid d m =
     map_option (\<lambda>(con, h). m\<lparr>m_console := con, m_io := h\<rparr>) (driver_init dev pid d (m_console m, m_io m))"

definition driver_loadAndStart :: "device \<Rightarrow> nat \<Rightarrow> (nat \<Rightarrow> driver) \<Rightarrow> driver \<Rightarrow> manager \<Rightarrow> manager option" where
  "driver_loadAndStart dev pid fresh d m = do {
     m \<leftarrow> driver_load dev pid fresh d m;
     driver_start dev pid d m
   }"

primrec load_all :: "device \<Rightarrow> nat \<Rightarrow> (nat \<Rightarrow> driver) \<Rightarrow> driver list \<Rightarrow> manager \<Rightarrow> manager option" where
  "load_all dev pid fresh [] m = Some m"
| "load_all dev pid fresh (d # ds) m = do {
     m \<leftarrow> driver_load dev pid fresh d m;
     load_all dev pid fresh ds m
   }"

primrec start_each :: "device \<Rightarrow> nat \<Rightarrow> driver list \<Rightarrow> manager \<Rightarrow> manager option" where
  "start_each dev pid [] m = Some m"
| "start_each dev pid (d # ds) m = do {
     m \<leftarrow> driver_start dev pid d m;
     start_each dev pid ds m
   }"

definition startAll :: "device \<Rightarrow> nat \<Rightarrow> manager \<Rightarrow> manager option" where
  "startAll dev pid m = start_each dev pid (vec_elements (drivers m)) m"

definition getDriversCount :: "manager \<Rightarrow> nat" where
  "getDriversCount m = my_size (drivers m)"

text \<open>The part of \<open>kernel_main\<close> that loads and starts the drivers.\<close>

definition kernel_drivers :: "device \<Rightarrow> nat \<Rightarrow> (nat \<Rightarrow> driver) \<Rightarrow> manager \<Rightarrow> manager option" where
  "kernel_drivers dev pid fresh m = do {
     let m = manager_init m;
     m \<leftarrow> load_all dev pid fresh [GPIO_Driver, UART_Driver, GIC400_Driver, SystemTimer_Driver, RNG_Driver] m;
     startAll dev pid m
   }"

subsection \<open>Vectors stay inside their buffers\<close>

definition vec_ok :: "'a vec \<Rightarrow> bool" where
  "vec_ok v \<longleftrightarrow> my_size v \<le> my_capacity v \<and> (if buffer v = None then my_capacity v = 0 else my_capacity v \<le> buf_len v)"

lemma vec_push_back_spec:
  assumes "vec_ok v" "my_capacity v + 5 < 2 ^ 32"
  shows "vec_ok (vec_push_back fresh x v)" "vec_elements (vec_push_back fresh x v) = vec_elements v @ [x]"
    "my_size v < buf_len (vec_push_back fresh x v)" "my_size (vec_push_back fresh x v) = my_size v + 1"
    "my_capacity (vec_push_back fresh x v) \<le> my_capacity v + 5"
proof -
  have small: "my_size v + 1 < 2 ^ 32" using assms by (simp add: vec_ok_def)
  have "vec_at (vec_push_back fresh x v) i = (if i = my_size v then x else vec_at v i)" if "i \<le> my_size v" for i
    using that assms
    by (auto simp: vec_push_back_def vec_at_def vec_reserve_def Let_def vec_ok_def add32_def split: if_splits)
  then show "vec_elements (vec_push_back fresh x v) = vec_elements v @ [x]"
    and "vec_ok (vec_push_back fresh x v)"
    and "my_size v < buf_len (vec_push_back fresh x v)" "my_size (vec_push_back fresh x v) = my_size v + 1"
      "my_capacity (vec_push_back fresh x v) \<le> my_capacity v + 5"
    using assms small
    by (auto simp: vec_elements_def vec_push_back_def vec_reserve_def Let_def add32_def vec_ok_def split: if_splits)
qed

text \<open>Adding to a vector whose buffer has the length of its capacity keeps it so, puts the element behind
  the others, and stores it inside the buffer.\<close>

theorem vector_push_correct:
  assumes "vec_ok v" "my_capacity v + 5 < 2 ^ 32"
  shows "vec_ok (vec_push_back fresh x v) \<and> vec_elements (vec_push_back fresh x v) = vec_elements v @ [x] \<and>
    my_size v < buf_len (vec_push_back fresh x v)"
  using vec_push_back_spec [OF assms] by blast

theorem vector_push_correct_witness:
  "vec_elements (vec_push_back (\<lambda>_. 0) 7 (vec_push_back (\<lambda>_. 0) (3 :: nat) vec_new)) = [3, 7]"
proof -
  have "vec_ok (vec_push_back (\<lambda>_. 0) (3 :: nat) vec_new)" "my_capacity (vec_push_back (\<lambda>_. 0) (3 :: nat) vec_new) = 5"
    by (simp_all add: vec_ok_def vec_new_def vec_push_back_def vec_reserve_def add32_def Let_def)
  then show ?thesis using vector_push_correct [of "vec_push_back (\<lambda>_. 0) (3 :: nat) vec_new" "\<lambda>_. 0" 7]
    by (simp add: vec_elements_def vec_at_def vec_new_def vec_push_back_def vec_reserve_def add32_def Let_def)
qed

text \<open>A copy takes over the capacity but allocates room for the elements only, so the next element added
  to a copy of a vector with room left is stored behind the end of the copy's buffer.\<close>

theorem vector_copy_overruns:
  "\<exists>v :: nat vec. vec_ok v \<and> \<not> vec_ok (vec_copy fresh v) \<and> my_size (vec_copy fresh v) < my_capacity (vec_copy fresh v) \<and>
     buf_len (vec_push_back fresh x (vec_copy fresh v)) \<le> my_size (vec_copy fresh v)"
  by (rule exI [of _ "vec_push_back fresh 1 vec_new"])
    (simp add: vec_ok_def vec_new_def vec_push_back_def vec_reserve_def vec_copy_def add32_def Let_def)

subsection \<open>Starting the drivers\<close>

lemma load_all_spec:
  assumes "vec_ok (drivers m)" "my_capacity (drivers m) + 5 * length ds < 2 ^ 32" "\<not> console_set (m_console m)"
  shows "\<exists>v. load_all dev pid fresh ds m = Some (m\<lparr>drivers := v\<rparr>) \<and> vec_elements v = vec_elements (drivers m) @ ds"
  using assms
proof (induction ds arbitrary: m)
  case Nil
  then show ?case by (intro exI [of _ "drivers m"]) simp
next
  case (Cons d ds)
  let ?m = "m\<lparr>drivers := vec_push_back fresh d (drivers m)\<rparr>"
  have small: "my_capacity (drivers m) + 5 < 2 ^ 32" using Cons.prems(2) by simp
  note push = vec_push_back_spec [OF Cons.prems(1) small, of fresh d]
  have load: "driver_load dev pid fresh d m = Some ?m" using Cons.prems(3) by (simp add: driver_load_def print_def)
  obtain v where "load_all dev pid fresh ds ?m = Some (?m\<lparr>drivers := v\<rparr>)" "vec_elements v = vec_elements (drivers ?m) @ ds"
    using Cons.IH [of ?m] push(1,5) Cons.prems(2,3) by auto
  then show ?case using load push(2) by (intro exI [of _ v]) simp
qed

lemma kernel_drivers_spec:
  assumes "memory_like dev target_registers" "\<not> console_set (m_console m)"
  shows "\<exists>m' h w. kernel_drivers dev pid fresh m = Some m' \<and>
    vec_elements (drivers m') = [GPIO_Driver, UART_Driver, GIC400_Driver, SystemTimer_Driver, RNG_Driver] \<and>
    gic_init dev pid (m_console m, uart_init dev (m_io m)) = Some (m_console m, h) \<and> m_io m' = rng_init h \<and>
    writes_of (m_io m') = writes_of (uart_init dev (m_io m)) @ w @
      [(ARM_HW_RNG_STATUS, RNG_WARMUP_COUNT), (ARM_HW_RNG_CTRL, ARM_HW_RNG_CTRL_EN)] \<and>
    (\<forall>irq < 1024. enabled h irq \<longleftrightarrow> enabled (uart_init dev (m_io m)) irq \<or> irq \<in> {97, 125, 1, 2, 3, 4})"
proof -
  let ?ds = "[GPIO_Driver, UART_Driver, GIC400_Driver, SystemTimer_Driver, RNG_Driver]"
  have "vec_ok (drivers (manager_init m))" "my_capacity (drivers (manager_init m)) + 5 * length ?ds < 2 ^ 32"
    "\<not> console_set (m_console (manager_init m))" "vec_elements (drivers (manager_init m)) = []"
    using assms(2) by (simp_all add: manager_init_def vec_ok_def vec_new_def vec_elements_def)
  from load_all_spec [OF this(1-3), of dev pid fresh] this(4)
  obtain v where v: "load_all dev pid fresh ?ds (manager_init m) = Some ((manager_init m)\<lparr>drivers := v\<rparr>)"
    "vec_elements v = ?ds" by auto
  obtain h w where h: "gic_init dev pid (m_console m, uart_init dev (m_io m)) = Some (m_console m, h)"
      "writes_of h = writes_of (uart_init dev (m_io m)) @ w"
      "\<forall>irq < 1024. enabled h irq \<longleftrightarrow> enabled (uart_init dev (m_io m)) irq \<or> irq \<in> {97, 125, 1, 2, 3, 4}"
    using gic_init_spec [OF assms, of pid "uart_init dev (m_io m)"] by fastforce
  have "kernel_drivers dev pid fresh m = Some (m\<lparr>drivers := v, m_console := m_console m, m_io := rng_init h\<rparr>)"
    unfolding kernel_drivers_def Let_def v(1) using v(2) h(1)
    by (simp del: load_all.simps add: startAll_def driver_start_def driver_init_def manager_init_def)
  moreover have "writes_of (rng_init h) = writes_of h @
      [(ARM_HW_RNG_STATUS, RNG_WARMUP_COUNT), (ARM_HW_RNG_CTRL, ARM_HW_RNG_CTRL_EN)]"
    by (simp add: rng_init_def)
  ultimately show ?thesis using v(2) h by auto
qed

text \<open>Loading and starting the drivers, before there is a console, returns: the manager holds the five
  drivers in the order in which they were loaded, and they were started in that order, each once: the
  UART is programmed first, then the interrupt controller, which enables exactly the interrupts of the
  kernel, and last the random number generator.\<close>

theorem kernel_drivers_correct:
  assumes "memory_like dev target_registers" "\<not> console_set (m_console m)"
  shows "\<exists>m' h w. kernel_drivers dev pid fresh m = Some m' \<and>
    vec_elements (drivers m') = [GPIO_Driver, UART_Driver, GIC400_Driver, SystemTimer_Driver, RNG_Driver] \<and>
    gic_init dev pid (m_console m, uart_init dev (m_io m)) = Some (m_console m, h) \<and> m_io m' = rng_init h \<and>
    writes_of (m_io m') = writes_of (uart_init dev (m_io m)) @ w @
      [(ARM_HW_RNG_STATUS, RNG_WARMUP_COUNT), (ARM_HW_RNG_CTRL, ARM_HW_RNG_CTRL_EN)] \<and>
    (\<forall>irq < 1024. enabled h irq \<longleftrightarrow> enabled (uart_init dev (m_io m)) irq \<or> irq \<in> {97, 125, 1, 2, 3, 4})"
  by (rule kernel_drivers_spec [OF assms])

theorem kernel_drivers_correct_witness:
  "\<exists>m'. kernel_drivers last_write 0 (\<lambda>_. GPIO_Driver)
      \<lparr>drivers = vec_new, m_console = \<lparr>console_set = False, console_lock = None\<rparr>, m_io = []\<rparr> = Some m' \<and>
    vec_elements (drivers m') = [GPIO_Driver, UART_Driver, GIC400_Driver, SystemTimer_Driver, RNG_Driver]"
  using kernel_drivers_correct [of last_write
      "\<lparr>drivers = vec_new, m_console = \<lparr>console_set = False, console_lock = None\<rparr>, m_io = []\<rparr>" 0 "\<lambda>_. GPIO_Driver"]
  by (auto simp: memory_like_def)

end
