(* ===== verification/Font.thy ===== *)
theory Font
  imports Prelude
begin

text \<open>
  The terminal font and the palette (\<open>src/include/Terminal.h\<close>): eight bytes per glyph, one per line,
  the lowest bit leftmost.
\<close>

definition vgapal :: "32 word list" where
  "vgapal =
     [0x000000, 0x0000AA, 0x00AA00, 0x00AAAA, 0xAA0000, 0xAA00AA, 0xAA5500, 0xAAAAAA,
      0x555555, 0x5555FF, 0x55FF55, 0x55FFFF, 0xFF5555, 0xFF55FF, 0xFFFF55, 0xFFFFFF]"

definition FONT_WIDTH :: nat where "FONT_WIDTH = 8"
definition FONT_HEIGHT :: nat where "FONT_HEIGHT = 8"
definition FONT_BPG :: nat where "FONT_BPG = 8"
definition FONT_BPL :: nat where "FONT_BPL = 1"
definition FONT_NUMGLYPHS :: nat where "FONT_NUMGLYPHS = 224"

lemmas font_sizes = FONT_WIDTH_def FONT_HEIGHT_def FONT_BPG_def FONT_BPL_def FONT_NUMGLYPHS_def

text \<open>The table, in two parts of 148 and 76 glyphs.\<close>

definition font_first :: "8 word list list" where
  "font_first =
     [[0x00, 0x00, 0x00, 0x00, 0x00, 0x00, 0x00, 0x00], [0x00, 0x00, 0x00, 0x00, 0x00, 0x00, 0x00, 0x00],
      [0x00, 0x00, 0x00, 0x00, 0x00, 0x00, 0x00, 0x00], [0x00, 0x00, 0x00, 0x00, 0x00, 0x00, 0x00, 0x00],
      [0x00, 0x00, 0x00, 0x00, 0x00, 0x00, 0x00, 0x00], [0x00, 0x00, 0x00, 0x00, 0x00, 0x00, 0x00, 0x00],
      [0x00, 0x00, 0x00, 0x00, 0x00, 0x00, 0x00, 0x00], [0x00, 0x00, 0x00, 0x00, 0x00, 0x00, 0x00, 0x00],
      [0x00, 0x00, 0x00, 0x00, 0x00, 0x00, 0x00, 0x00], [0x00, 0x00, 0x00, 0x00, 0x00, 0x00, 0x00, 0x00],
      [0x00, 0x00, 0x00, 0x00, 0x00, 0x00, 0x00, 0x00], [0x00, 0x00, 0x00, 0x00, 0x00, 0x00, 0x00, 0x00],
      [0x00, 0x00, 0x00, 0x00, 0x00, 0x00, 0x00, 0x00], [0x00, 0x00, 0x00, 0x00, 0x00, 0x00, 0x00, 0x00],
      [0x00, 0x00, 0x00, 0x00, 0x00, 0x00, 0x00, 0x00], [0x00, 0x00, 0x00, 0x00, 0x00, 0x00, 0x00, 0x00],
      [0x00, 0x00, 0x00, 0x00, 0x00, 0x00, 0x00, 0x00], [0x00, 0x00, 0x00, 0x00, 0x00, 0x00, 0x00, 0x00],
      [0x00, 0x00, 0x00, 0x00, 0x00, 0x00, 0x00, 0x00], [0x00, 0x00, 0x00, 0x00, 0x00, 0x00, 0x00, 0x00],
      [0x00, 0x00, 0x00, 0x00, 0x00, 0x00, 0x00, 0x00], [0x00, 0x00, 0x00, 0x00, 0x00, 0x00, 0x00, 0x00],
      [0x00, 0x00, 0x00, 0x00, 0x00, 0x00, 0x00, 0x00], [0x00, 0x00, 0x00, 0x00, 0x00, 0x00, 0x00, 0x00],
      [0x00, 0x00, 0x00, 0x00, 0x00, 0x00, 0x00, 0x00], [0x00, 0x00, 0x00, 0x00, 0x00, 0x00, 0x00, 0x00],
      [0x00, 0x00, 0x00, 0x00, 0x00, 0x00, 0x00, 0x00], [0x00, 0x00, 0x00, 0x00, 0x00, 0x00, 0x00, 0x00],
      [0x00, 0x00, 0x00, 0x00, 0x00, 0x00, 0x00, 0x00], [0x00, 0x00, 0x00, 0x00, 0x00, 0x00, 0x00, 0x00],
      [0x00, 0x00, 0x00, 0x00, 0x00, 0x00, 0x00, 0x00], [0x00, 0x00, 0x00, 0x00, 0x00, 0x00, 0x00, 0x00],
      [0x00, 0x00, 0x00, 0x00, 0x00, 0x00, 0x00, 0x00], [0x18, 0x3C, 0x3C, 0x18, 0x18, 0x00, 0x18, 0x00],
      [0x36, 0x36, 0x00, 0x00, 0x00, 0x00, 0x00, 0x00], [0x36, 0x36, 0x7F, 0x36, 0x7F, 0x36, 0x36, 0x00],
      [0x0C, 0x3E, 0x03, 0x1E, 0x30, 0x1F, 0x0C, 0x00], [0x00, 0x63, 0x33, 0x18, 0x0C, 0x66, 0x63, 0x00],
      [0x1C, 0x36, 0x1C, 0x6E, 0x3B, 0x33, 0x6E, 0x00], [0x06, 0x06, 0x03, 0x00, 0x00, 0x00, 0x00, 0x00],
      [0x18, 0x0C, 0x06, 0x06, 0x06, 0x0C, 0x18, 0x00], [0x06, 0x0C, 0x18, 0x18, 0x18, 0x0C, 0x06, 0x00],
      [0x00, 0x66, 0x3C, 0xFF, 0x3C, 0x66, 0x00, 0x00], [0x00, 0x0C, 0x0C, 0x3F, 0x0C, 0x0C, 0x00, 0x00],
      [0x00, 0x00, 0x00, 0x00, 0x00, 0x0C, 0x0C, 0x06], [0x00, 0x00, 0x00, 0x3F, 0x00, 0x00, 0x00, 0x00],
      [0x00, 0x00, 0x00, 0x00, 0x00, 0x0C, 0x0C, 0x00], [0x60, 0x30, 0x18, 0x0C, 0x06, 0x03, 0x01, 0x00],
      [0x3E, 0x63, 0x73, 0x7B, 0x6F, 0x67, 0x3E, 0x00], [0x0C, 0x0E, 0x0C, 0x0C, 0x0C, 0x0C, 0x3F, 0x00],
      [0x1E, 0x33, 0x30, 0x1C, 0x06, 0x33, 0x3F, 0x00], [0x1E, 0x33, 0x30, 0x1C, 0x30, 0x33, 0x1E, 0x00],
      [0x38, 0x3C, 0x36, 0x33, 0x7F, 0x30, 0x78, 0x00], [0x3F, 0x03, 0x1F, 0x30, 0x30, 0x33, 0x1E, 0x00],
      [0x1C, 0x06, 0x03, 0x1F, 0x33, 0x33, 0x1E, 0x00], [0x3F, 0x33, 0x30, 0x18, 0x0C, 0x0C, 0x0C, 0x00],
      [0x1E, 0x33, 0x33, 0x1E, 0x33, 0x33, 0x1E, 0x00], [0x1E, 0x33, 0x33, 0x3E, 0x30, 0x18, 0x0E, 0x00],
      [0x00, 0x0C, 0x0C, 0x00, 0x00, 0x0C, 0x0C, 0x00], [0x00, 0x0C, 0x0C, 0x00, 0x00, 0x0C, 0x0C, 0x06],
      [0x18, 0x0C, 0x06, 0x03, 0x06, 0x0C, 0x18, 0x00], [0x00, 0x00, 0x3F, 0x00, 0x00, 0x3F, 0x00, 0x00],
      [0x06, 0x0C, 0x18, 0x30, 0x18, 0x0C, 0x06, 0x00], [0x1E, 0x33, 0x30, 0x18, 0x0C, 0x00, 0x0C, 0x00],
      [0x3E, 0x63, 0x7B, 0x7B, 0x7B, 0x03, 0x1E, 0x00], [0x0C, 0x1E, 0x33, 0x33, 0x3F, 0x33, 0x33, 0x00],
      [0x3F, 0x66, 0x66, 0x3E, 0x66, 0x66, 0x3F, 0x00], [0x3C, 0x66, 0x03, 0x03, 0x03, 0x66, 0x3C, 0x00],
      [0x1F, 0x36, 0x66, 0x66, 0x66, 0x36, 0x1F, 0x00], [0x7F, 0x46, 0x16, 0x1E, 0x16, 0x46, 0x7F, 0x00],
      [0x7F, 0x46, 0x16, 0x1E, 0x16, 0x06, 0x0F, 0x00], [0x3C, 0x66, 0x03, 0x03, 0x73, 0x66, 0x7C, 0x00],
      [0x33, 0x33, 0x33, 0x3F, 0x33, 0x33, 0x33, 0x00], [0x1E, 0x0C, 0x0C, 0x0C, 0x0C, 0x0C, 0x1E, 0x00],
      [0x78, 0x30, 0x30, 0x30, 0x33, 0x33, 0x1E, 0x00], [0x67, 0x66, 0x36, 0x1E, 0x36, 0x66, 0x67, 0x00],
      [0x0F, 0x06, 0x06, 0x06, 0x46, 0x66, 0x7F, 0x00], [0x63, 0x77, 0x7F, 0x7F, 0x6B, 0x63, 0x63, 0x00],
      [0x63, 0x67, 0x6F, 0x7B, 0x73, 0x63, 0x63, 0x00], [0x1C, 0x36, 0x63, 0x63, 0x63, 0x36, 0x1C, 0x00],
      [0x3F, 0x66, 0x66, 0x3E, 0x06, 0x06, 0x0F, 0x00], [0x1E, 0x33, 0x33, 0x33, 0x3B, 0x1E, 0x38, 0x00],
      [0x3F, 0x66, 0x66, 0x3E, 0x36, 0x66, 0x67, 0x00], [0x1E, 0x33, 0x07, 0x0E, 0x38, 0x33, 0x1E, 0x00],
      [0x3F, 0x2D, 0x0C, 0x0C, 0x0C, 0x0C, 0x1E, 0x00], [0x33, 0x33, 0x33, 0x33, 0x33, 0x33, 0x3F, 0x00],
      [0x33, 0x33, 0x33, 0x33, 0x33, 0x1E, 0x0C, 0x00], [0x63, 0x63, 0x63, 0x6B, 0x7F, 0x77, 0x63, 0x00],
      [0x63, 0x63, 0x36, 0x1C, 0x1C, 0x36, 0x63, 0x00], [0x33, 0x33, 0x33, 0x1E, 0x0C, 0x0C, 0x1E, 0x00],
      [0x7F, 0x63, 0x31, 0x18, 0x4C, 0x66, 0x7F, 0x00], [0x1E, 0x06, 0x06, 0x06, 0x06, 0x06, 0x1E, 0x00],
      [0x03, 0x06, 0x0C, 0x18, 0x30, 0x60, 0x40, 0x00], [0x1E, 0x18, 0x18, 0x18, 0x18, 0x18, 0x1E, 0x00],
      [0x08, 0x1C, 0x36, 0x63, 0x00, 0x00, 0x00, 0x00], [0x00, 0x00, 0x00, 0x00, 0x00, 0x00, 0x00, 0xFF],
      [0x0C, 0x0C, 0x18, 0x00, 0x00, 0x00, 0x00, 0x00], [0x00, 0x00, 0x1E, 0x30, 0x3E, 0x33, 0x6E, 0x00],
      [0x07, 0x06, 0x06, 0x3E, 0x66, 0x66, 0x3B, 0x00], [0x00, 0x00, 0x1E, 0x33, 0x03, 0x33, 0x1E, 0x00],
      [0x38, 0x30, 0x30, 0x3E, 0x33, 0x33, 0x6E, 0x00], [0x00, 0x00, 0x1E, 0x33, 0x3F, 0x03, 0x1E, 0x00],
      [0x1C, 0x36, 0x06, 0x0F, 0x06, 0x06, 0x0F, 0x00], [0x00, 0x00, 0x6E, 0x33, 0x33, 0x3E, 0x30, 0x1F],
      [0x07, 0x06, 0x36, 0x6E, 0x66, 0x66, 0x67, 0x00], [0x0C, 0x00, 0x0E, 0x0C, 0x0C, 0x0C, 0x1E, 0x00],
      [0x30, 0x00, 0x30, 0x30, 0x30, 0x33, 0x33, 0x1E], [0x07, 0x06, 0x66, 0x36, 0x1E, 0x36, 0x67, 0x00],
      [0x0E, 0x0C, 0x0C, 0x0C, 0x0C, 0x0C, 0x1E, 0x00], [0x00, 0x00, 0x33, 0x7F, 0x7F, 0x6B, 0x63, 0x00],
      [0x00, 0x00, 0x1F, 0x33, 0x33, 0x33, 0x33, 0x00], [0x00, 0x00, 0x1E, 0x33, 0x33, 0x33, 0x1E, 0x00],
      [0x00, 0x00, 0x3B, 0x66, 0x66, 0x3E, 0x06, 0x0F], [0x00, 0x00, 0x6E, 0x33, 0x33, 0x3E, 0x30, 0x78],
      [0x00, 0x00, 0x3B, 0x6E, 0x66, 0x06, 0x0F, 0x00], [0x00, 0x00, 0x3E, 0x03, 0x1E, 0x30, 0x1F, 0x00],
      [0x08, 0x0C, 0x3E, 0x0C, 0x0C, 0x2C, 0x18, 0x00], [0x00, 0x00, 0x33, 0x33, 0x33, 0x33, 0x6E, 0x00],
      [0x00, 0x00, 0x33, 0x33, 0x33, 0x1E, 0x0C, 0x00], [0x00, 0x00, 0x63, 0x6B, 0x7F, 0x7F, 0x36, 0x00],
      [0x00, 0x00, 0x63, 0x36, 0x1C, 0x36, 0x63, 0x00], [0x00, 0x00, 0x33, 0x33, 0x33, 0x3E, 0x30, 0x1F],
      [0x00, 0x00, 0x3F, 0x19, 0x0C, 0x26, 0x3F, 0x00], [0x38, 0x0C, 0x0C, 0x07, 0x0C, 0x0C, 0x38, 0x00],
      [0x18, 0x18, 0x18, 0x00, 0x18, 0x18, 0x18, 0x00], [0x07, 0x0C, 0x0C, 0x38, 0x0C, 0x0C, 0x07, 0x00],
      [0x6E, 0x3B, 0x00, 0x00, 0x00, 0x00, 0x00, 0x00], [0x00, 0x00, 0x00, 0x00, 0x00, 0x00, 0x00, 0x00],
      [0x1E, 0x33, 0x03, 0x33, 0x1E, 0x18, 0x30, 0x1E], [0x00, 0x33, 0x00, 0x33, 0x33, 0x33, 0x7E, 0x00],
      [0x38, 0x00, 0x1E, 0x33, 0x3F, 0x03, 0x1E, 0x00], [0x7E, 0xC3, 0x3C, 0x60, 0x7C, 0x66, 0xFC, 0x00],
      [0x33, 0x00, 0x1E, 0x30, 0x3E, 0x33, 0x7E, 0x00], [0x07, 0x00, 0x1E, 0x30, 0x3E, 0x33, 0x7E, 0x00],
      [0x0C, 0x0C, 0x1E, 0x30, 0x3E, 0x33, 0x7E, 0x00], [0x00, 0x00, 0x1E, 0x03, 0x03, 0x1E, 0x30, 0x1C],
      [0x7E, 0xC3, 0x3C, 0x66, 0x7E, 0x06, 0x3C, 0x00], [0x33, 0x00, 0x1E, 0x33, 0x3F, 0x03, 0x1E, 0x00],
      [0x07, 0x00, 0x1E, 0x33, 0x3F, 0x03, 0x1E, 0x00], [0x33, 0x00, 0x0E, 0x0C, 0x0C, 0x0C, 0x1E, 0x00],
      [0x3E, 0x63, 0x1C, 0x18, 0x18, 0x18, 0x3C, 0x00], [0x07, 0x00, 0x0E, 0x0C, 0x0C, 0x0C, 0x1E, 0x00],
      [0x63, 0x1C, 0x36, 0x63, 0x7F, 0x63, 0x63, 0x00], [0x0C, 0x0C, 0x00, 0x1E, 0x33, 0x3F, 0x33, 0x00],
      [0x07, 0x00, 0x3F, 0x06, 0x1E, 0x06, 0x3F, 0x00], [0x00, 0x00, 0xFE, 0x30, 0xFE, 0x33, 0xFE, 0x00],
      [0x7C, 0x36, 0x33, 0x7F, 0x33, 0x33, 0x73, 0x00], [0x1E, 0x33, 0x00, 0x1E, 0x33, 0x33, 0x1E, 0x00]]"

definition font_rest :: "8 word list list" where
  "font_rest =
     [[0x00, 0x33, 0x00, 0x1E, 0x33, 0x33, 0x1E, 0x00], [0x00, 0x07, 0x00, 0x1E, 0x33, 0x33, 0x1E, 0x00],
      [0x1E, 0x33, 0x00, 0x33, 0x33, 0x33, 0x7E, 0x00], [0x00, 0x07, 0x00, 0x33, 0x33, 0x33, 0x7E, 0x00],
      [0x00, 0x33, 0x00, 0x33, 0x33, 0x3E, 0x30, 0x1F], [0xC3, 0x18, 0x3C, 0x66, 0x66, 0x3C, 0x18, 0x00],
      [0x33, 0x00, 0x33, 0x33, 0x33, 0x33, 0x1E, 0x00], [0x18, 0x18, 0x7E, 0x03, 0x03, 0x7E, 0x18, 0x18],
      [0x1C, 0x36, 0x26, 0x0F, 0x06, 0x67, 0x3F, 0x00], [0x33, 0x33, 0x1E, 0x3F, 0x0C, 0x3F, 0x0C, 0x0C],
      [0x7C, 0xC6, 0x1C, 0x36, 0x36, 0x1C, 0x33, 0x1E], [0x70, 0xD8, 0x18, 0x3C, 0x18, 0x18, 0x1B, 0x0E],
      [0x38, 0x00, 0x1E, 0x30, 0x3E, 0x33, 0x7E, 0x00], [0x1C, 0x00, 0x0E, 0x0C, 0x0C, 0x0C, 0x1E, 0x00],
      [0x00, 0x38, 0x00, 0x1E, 0x33, 0x33, 0x1E, 0x00], [0x00, 0x38, 0x00, 0x33, 0x33, 0x33, 0x7E, 0x00],
      [0x00, 0x1F, 0x00, 0x1F, 0x33, 0x33, 0x33, 0x00], [0x3F, 0x00, 0x33, 0x37, 0x3F, 0x3B, 0x33, 0x00],
      [0x3C, 0x36, 0x36, 0x7C, 0x00, 0x00, 0x00, 0x00], [0x1C, 0x36, 0x36, 0x1C, 0x00, 0x00, 0x00, 0x00],
      [0x0C, 0x00, 0x0C, 0x06, 0x03, 0x33, 0x1E, 0x00], [0x00, 0x00, 0x00, 0x3F, 0x03, 0x03, 0x00, 0x00],
      [0x00, 0x00, 0x00, 0x3F, 0x30, 0x30, 0x00, 0x00], [0xC3, 0x63, 0x33, 0x7B, 0xCC, 0x66, 0x33, 0xF0],
      [0xC3, 0x63, 0x33, 0xBD, 0xEC, 0xF6, 0xF3, 0x03], [0x18, 0x18, 0x00, 0x18, 0x18, 0x18, 0x18, 0x00],
      [0x00, 0xCC, 0x66, 0x33, 0x66, 0xCC, 0x00, 0x00], [0x00, 0x33, 0x66, 0xCC, 0x66, 0x33, 0x00, 0x00],
      [0x55, 0x00, 0xAA, 0x00, 0x55, 0x00, 0xAA, 0x00], [0x55, 0xAA, 0x55, 0xAA, 0x55, 0xAA, 0x55, 0xAA],
      [0xFF, 0xAA, 0xFF, 0x55, 0xFF, 0xAA, 0xFF, 0x55], [0x08, 0x08, 0x08, 0x08, 0x08, 0x08, 0x08, 0x08],
      [0x08, 0x08, 0x08, 0x08, 0x0F, 0x08, 0x08, 0x08], [0x08, 0x08, 0x08, 0x0F, 0x08, 0x0F, 0x08, 0x08],
      [0x14, 0x14, 0x14, 0x14, 0x17, 0x14, 0x14, 0x14], [0x00, 0x00, 0x00, 0x00, 0x1F, 0x14, 0x14, 0x14],
      [0x00, 0x00, 0x00, 0x0F, 0x08, 0x0F, 0x08, 0x08], [0x14, 0x14, 0x14, 0x17, 0x10, 0x17, 0x14, 0x14],
      [0x14, 0x14, 0x14, 0x14, 0x14, 0x14, 0x14, 0x14], [0x00, 0x00, 0x00, 0x1F, 0x10, 0x17, 0x14, 0x14],
      [0x14, 0x14, 0x14, 0x17, 0x10, 0x1F, 0x00, 0x00], [0x14, 0x14, 0x14, 0x14, 0x1F, 0x00, 0x00, 0x00],
      [0x08, 0x08, 0x08, 0x0F, 0x08, 0x0F, 0x00, 0x00], [0x00, 0x00, 0x00, 0x00, 0x0F, 0x08, 0x08, 0x08],
      [0x08, 0x08, 0x08, 0x08, 0xF8, 0x00, 0x00, 0x00], [0x08, 0x08, 0x08, 0x08, 0xFF, 0x00, 0x00, 0x00],
      [0x00, 0x00, 0x00, 0x00, 0xFF, 0x08, 0x08, 0x08], [0x08, 0x08, 0x08, 0x08, 0xF8, 0x08, 0x08, 0x08],
      [0x00, 0x00, 0x00, 0x00, 0xFF, 0x00, 0x00, 0x00], [0x08, 0x08, 0x08, 0x08, 0xFF, 0x08, 0x08, 0x08],
      [0x08, 0x08, 0x08, 0xF8, 0x08, 0xF8, 0x08, 0x08], [0x14, 0x14, 0x14, 0x14, 0xF4, 0x14, 0x14, 0x14],
      [0x14, 0x14, 0x14, 0xF4, 0x04, 0xFC, 0x00, 0x00], [0x00, 0x00, 0x00, 0xFC, 0x04, 0xF4, 0x14, 0x14],
      [0x14, 0x14, 0x14, 0xF7, 0x00, 0xFF, 0x00, 0x00], [0x00, 0x00, 0x00, 0xFF, 0x00, 0xF7, 0x14, 0x14],
      [0x14, 0x14, 0x14, 0xF4, 0x04, 0xF4, 0x14, 0x14], [0x00, 0x00, 0x00, 0xFF, 0x00, 0xFF, 0x00, 0x00],
      [0x14, 0x14, 0x14, 0xF7, 0x00, 0xF7, 0x14, 0x14], [0x08, 0x08, 0x08, 0xFF, 0x00, 0xFF, 0x00, 0x00],
      [0x14, 0x14, 0x14, 0x14, 0xFF, 0x00, 0x00, 0x00], [0x00, 0x00, 0x00, 0xFF, 0x00, 0xFF, 0x08, 0x08],
      [0x00, 0x00, 0x00, 0x00, 0xFF, 0x14, 0x14, 0x14], [0x14, 0x14, 0x14, 0x14, 0xFC, 0x00, 0x00, 0x00],
      [0x08, 0x08, 0x08, 0xF8, 0x08, 0xF8, 0x00, 0x00], [0x00, 0x00, 0x00, 0xF8, 0x08, 0xF8, 0x08, 0x08],
      [0x00, 0x00, 0x00, 0x00, 0xFC, 0x14, 0x14, 0x14], [0x14, 0x14, 0x14, 0x14, 0xFF, 0x14, 0x14, 0x14],
      [0x08, 0x08, 0x08, 0xFF, 0x08, 0xFF, 0x08, 0x08], [0x08, 0x08, 0x08, 0x08, 0x0F, 0x00, 0x00, 0x00],
      [0x00, 0x00, 0x00, 0x00, 0xF8, 0x08, 0x08, 0x08], [0xFF, 0xFF, 0xFF, 0xFF, 0xFF, 0xFF, 0xFF, 0xFF],
      [0x00, 0x00, 0x00, 0x00, 0xFF, 0xFF, 0xFF, 0xFF], [0x0F, 0x0F, 0x0F, 0x0F, 0x0F, 0x0F, 0x0F, 0x0F],
      [0xF0, 0xF0, 0xF0, 0xF0, 0xF0, 0xF0, 0xF0, 0xF0], [0xFF, 0xFF, 0xFF, 0xFF, 0x00, 0x00, 0x00, 0x00]]"

definition font :: "8 word list" where
  "font = concat (font_first @ font_rest)"

lemma vgapal_length [simp]: "length vgapal = 16"
  by (simp add: vgapal_def)

lemma font_length [simp]: "length font = FONT_NUMGLYPHS * FONT_BPG"
  by (simp add: font_def font_first_def font_rest_def font_sizes)

end
