(* ===== verification/FrameBuffer.thy ===== *)
theory FrameBuffer
  imports Machine Font
begin

text \<open>
  Drawing (\<open>src/FrameBuffer.cpp\<close>): pixels, rectangles, lines, circles, characters and strings. The
  frame buffer is memory shared with the graphics processor, so a pixel is a store in the history.

  C's \<open>int\<close>s are integers here; their arithmetic does not overflow on coordinates of a screen's size.
  Where the code converts to \<open>unsigned\<close>, in the address of a pixel, the model has words.
\<close>

subsection \<open>Operations\<close>

record screen =
  s_width :: "32 word"
  s_height :: "32 word"
  pitch :: "32 word"
  isrgb :: "32 word"
  fb :: nat

definition pixel_offset :: "screen \<Rightarrow> int \<Rightarrow> int \<Rightarrow> int" where
  "pixel_offset s x y = sint (of_int y * pitch s + of_int (x * 4))"

definition pixel_address :: "screen \<Rightarrow> int \<Rightarrow> int \<Rightarrow> nat" where
  "pixel_address s x y = nat ((int (fb s) + pixel_offset s x y) mod 2 ^ 64)"

definition drawPixel :: "screen \<Rightarrow> int \<Rightarrow> int \<Rightarrow> 8 word \<Rightarrow> history \<Rightarrow> history" where
  "drawPixel s x y attr h = mmio_write (pixel_address s x y) (vgapal ! unat (attr AND 0x0f)) h"

text \<open>The colour of a filled area.\<close>

definition background :: "8 word \<Rightarrow> 8 word" where
  "background attr = drop_bit 4 (attr AND 0xf0)"

function drawRect_row ::
  "screen \<Rightarrow> int \<Rightarrow> int \<Rightarrow> int \<Rightarrow> int \<Rightarrow> 8 word \<Rightarrow> int \<Rightarrow> int \<Rightarrow> int \<Rightarrow> history \<Rightarrow> history" where
  "drawRect_row s x1 y1 x2 y2 attr fill y x h =
     (if x \<le> x2 then
        let h = (if (x = x1 \<or> x = x2) \<or> (y = y1 \<or> y = y2) then drawPixel s x y attr h
                 else if fill \<noteq> 0 then drawPixel s x y (background attr) h else h)
        in drawRect_row s x1 y1 x2 y2 attr fill y (x + 1) h
      else h)"
  by auto
termination by (relation "measure (\<lambda>(s, x1, y1, x2, y2, attr, fill, y, x, h). nat (x2 + 1 - x))") auto

function drawRect_rows ::
  "screen \<Rightarrow> int \<Rightarrow> int \<Rightarrow> int \<Rightarrow> int \<Rightarrow> 8 word \<Rightarrow> int \<Rightarrow> int \<Rightarrow> history \<Rightarrow> history" where
  "drawRect_rows s x1 y1 x2 y2 attr fill y h =
     (if y \<le> y2 then drawRect_rows s x1 y1 x2 y2 attr fill (y + 1) (drawRect_row s x1 y1 x2 y2 attr fill y x1 h)
      else h)"
  by auto
termination by (relation "measure (\<lambda>(s, x1, y1, x2, y2, attr, fill, y, h). nat (y2 + 1 - y))") auto

definition drawRect :: "screen \<Rightarrow> int \<Rightarrow> int \<Rightarrow> int \<Rightarrow> int \<Rightarrow> 8 word \<Rightarrow> int \<Rightarrow> history \<Rightarrow> history" where
  "drawRect s x1 y1 x2 y2 attr fill h = drawRect_rows s x1 y1 x2 y2 attr fill y1 h"

function drawLine_loop ::
  "screen \<Rightarrow> int \<Rightarrow> int \<Rightarrow> int \<Rightarrow> 8 word \<Rightarrow> int \<Rightarrow> int \<Rightarrow> int \<Rightarrow> history \<Rightarrow> history" where
  "drawLine_loop s x2 dx dy attr p x y h =
     (if x < x2 then
        if p \<ge> 0 then drawLine_loop s x2 dx dy attr (p + 2 * dy - 2 * dx) (x + 1) (y + 1) (drawPixel s x y attr h)
        else drawLine_loop s x2 dx dy attr (p + 2 * dy) (x + 1) y (drawPixel s x y attr h)
      else h)"
  by auto
termination by (relation "measure (\<lambda>(s, x2, dx, dy, attr, p, x, y, h). nat (x2 - x))") auto

definition drawLine :: "screen \<Rightarrow> int \<Rightarrow> int \<Rightarrow> int \<Rightarrow> int \<Rightarrow> 8 word \<Rightarrow> history \<Rightarrow> history" where
  "drawLine s x1 y1 x2 y2 attr h =
     (let dx = x2 - x1; dy = y2 - y1 in drawLine_loop s x2 dx dy attr (2 * dy - dx) x1 y1 h)"

definition fill_circle :: "screen \<Rightarrow> int \<Rightarrow> int \<Rightarrow> 8 word \<Rightarrow> int \<Rightarrow> int \<Rightarrow> history \<Rightarrow> history" where
  "fill_circle s x0 y0 attr x y h =
     (let h = drawLine s (x0 - y) (y0 + x) (x0 + y) (y0 + x) (background attr) h;
          h = drawLine s (x0 - x) (y0 + y) (x0 + x) (y0 + y) (background attr) h;
          h = drawLine s (x0 - x) (y0 - y) (x0 + x) (y0 - y) (background attr) h
      in drawLine s (x0 - y) (y0 - x) (x0 + y) (y0 - x) (background attr) h)"

definition eight_pixels :: "screen \<Rightarrow> int \<Rightarrow> int \<Rightarrow> 8 word \<Rightarrow> int \<Rightarrow> int \<Rightarrow> history \<Rightarrow> history" where
  "eight_pixels s x0 y0 attr x y h =
     (let h = drawPixel s (x0 - y) (y0 + x) attr h;
          h = drawPixel s (x0 + y) (y0 + x) attr h;
          h = drawPixel s (x0 - x) (y0 + y) attr h;
          h = drawPixel s (x0 + x) (y0 + y) attr h;
          h = drawPixel s (x0 - x) (y0 - y) attr h;
          h = drawPixel s (x0 + x) (y0 - y) attr h;
          h = drawPixel s (x0 - y) (y0 - x) attr h
      in drawPixel s (x0 + y) (y0 - x) attr h)"

text \<open>Every pass moves \<open>y\<close> up or \<open>x\<close> down.\<close>

function drawCircle_loop ::
  "screen \<Rightarrow> int \<Rightarrow> int \<Rightarrow> 8 word \<Rightarrow> int \<Rightarrow> int \<Rightarrow> int \<Rightarrow> int \<Rightarrow> history \<Rightarrow> history" where
  "drawCircle_loop s x0 y0 attr fill x y err h =
     (if x \<ge> y then
        let h = (if fill \<noteq> 0 then fill_circle s x0 y0 attr x y h else h);
            h = eight_pixels s x0 y0 attr x y h;
            (y, err) = (if err \<le> 0 then (y + 1, err + (2 * (y + 1) + 1)) else (y, err));
            (x, err) = (if err > 0 then (x - 1, err - (2 * (x - 1) + 1)) else (x, err))
        in drawCircle_loop s x0 y0 attr fill x y err h
      else h)"
  by pat_completeness auto
termination
  by (relation "measure (\<lambda>(s, x0, y0, attr, fill, x, y, err, h). nat (x - y + 1))") (auto split: if_splits)

definition drawCircle :: "screen \<Rightarrow> int \<Rightarrow> int \<Rightarrow> int \<Rightarrow> 8 word \<Rightarrow> int \<Rightarrow> history \<Rightarrow> history" where
  "drawCircle s x0 y0 radius attr fill h = drawCircle_loop s x0 y0 attr fill radius 0 0 h"

text \<open>\<open>glyph\<close> is the offset of the current line of the character in the font.\<close>

definition draw_glyph_line :: "screen \<Rightarrow> nat \<Rightarrow> int \<Rightarrow> int \<Rightarrow> 8 word \<Rightarrow> history \<Rightarrow> history" where
  "draw_glyph_line s glyph x y attr h =
     foldl (\<lambda>h j. let mask = push_bit j 1;
                    col = (if font ! glyph AND mask \<noteq> 0 then attr AND 0x0f else background attr)
                in drawPixel s (x + int j) y col h) h [0..<FONT_WIDTH]"

definition drawChar :: "screen \<Rightarrow> 8 word \<Rightarrow> int \<Rightarrow> int \<Rightarrow> 8 word \<Rightarrow> history \<Rightarrow> history" where
  "drawChar s ch x y attr h =
     (let glyph = (if unat ch < FONT_NUMGLYPHS then unat ch else 0) * FONT_BPG
      in foldl (\<lambda>h i. draw_glyph_line s (glyph + i * FONT_BPL) x (y + int i) attr h) h [0..<FONT_HEIGHT])"

primrec drawString :: "screen \<Rightarrow> int \<Rightarrow> int \<Rightarrow> string \<Rightarrow> 8 word \<Rightarrow> history \<Rightarrow> history" where
  "drawString s x y [] attr h = h"
| "drawString s x y (c # cs) attr h =
     (if c = CHR 0x0D then drawString s 0 y cs attr h
      else if c = CHR 0x0A then drawString s 0 (y + int FONT_HEIGHT) cs attr h
      else drawString s (x + int FONT_WIDTH) y cs attr (drawChar s (of_char c) x y attr h))"

declare drawRect_row.simps [simp del] drawRect_rows.simps [simp del] drawLine_loop.simps [simp del]
  drawCircle_loop.simps [simp del]

subsection \<open>Drawing a list of points\<close>

type_synonym point = "int \<times> int \<times> 8 word"

definition draws :: "screen \<Rightarrow> point list \<Rightarrow> history \<Rightarrow> history" where
  "draws s ps h = foldl (\<lambda>h (x, y, attr). drawPixel s x y attr h) h ps"

lemma draws_simps [simp]:
  "draws s [] h = h" "draws s ((x, y, a) # ps) h = draws s ps (drawPixel s x y a h)"
  "draws s (ps @ qs) h = draws s qs (draws s ps h)"
  by (simp_all add: draws_def)

definition point_write :: "screen \<Rightarrow> point \<Rightarrow> nat \<times> 32 word" where
  "point_write s p = (case p of (x, y, a) \<Rightarrow> (pixel_address s x y, vgapal ! unat (a AND 0x0f)))"

lemma draws_writes: "writes_of (draws s ps h) = writes_of h @ map (point_write s) ps"
  by (induction ps arbitrary: h) (auto simp: drawPixel_def point_write_def)

subsection \<open>Lines\<close>

text \<open>
  The error \<open>e\<close> of the current pixel is \<open>2 * dx\<close> times its distance below the ideal line; the code's
  \<open>p\<close> is \<open>e + 2 * dy - dx\<close>. It stays between \<open>- dx\<close> and \<open>dx\<close>: half a pixel.
\<close>

lemma drawLine_loop_points:
  assumes "0 \<le> dy" "dy \<le> dx" "- dx \<le> e" "e < dx"
  shows "\<exists>Y. drawLine_loop s x2 dx dy attr (e + 2 * dy - dx) x y h =
      draws s (map (\<lambda>i. (x + int i, Y i, attr)) [0..<nat (x2 - x)]) h \<and>
    (\<forall>i < nat (x2 - x). - dx \<le> e + 2 * dy * int i - 2 * dx * (Y i - y) \<and>
       e + 2 * dy * int i - 2 * dx * (Y i - y) < dx)"
  using assms(3,4)
proof (induction "nat (x2 - x)" arbitrary: x y e h)
  case 0
  then show ?case by (subst drawLine_loop.simps) simp
next
  case (Suc n)
  let ?up = "e + 2 * dy - dx \<ge> 0"
  define e' y' where "e' = (if ?up then e + 2 * dy - 2 * dx else e + 2 * dy)" and "y' = (if ?up then y + 1 else y)"
  have n: "n = nat (x2 - (x + 1))" "x < x2" using Suc.hyps(2) by simp_all
  have e': "- dx \<le> e'" "e' < dx" using Suc.prems assms(1,2) by (auto simp: e'_def)
  obtain Y where Y: "drawLine_loop s x2 dx dy attr (e' + 2 * dy - dx) (x + 1) y' (drawPixel s x y attr h) =
      draws s (map (\<lambda>i. (x + 1 + int i, Y i, attr)) [0..<n]) (drawPixel s x y attr h)"
    "\<forall>i < n. - dx \<le> e' + 2 * dy * int i - 2 * dx * (Y i - y') \<and> e' + 2 * dy * int i - 2 * dx * (Y i - y') < dx"
    using Suc.hyps(1) [OF n(1) e', of y' "drawPixel s x y attr h"] n(1) by auto
  define Z where "Z = case_nat y Y"
  have "drawLine_loop s x2 dx dy attr (e + 2 * dy - dx) x y h =
      drawLine_loop s x2 dx dy attr (e' + 2 * dy - dx) (x + 1) y' (drawPixel s x y attr h)"
    using n(2) by (subst drawLine_loop.simps) (simp add: e'_def y'_def algebra_simps)
  also have "\<dots> = draws s (map (\<lambda>i. (x + int i, Z i, attr)) [0..<Suc n]) h"
    unfolding Y(1) by (simp add: upt_conv_Cons Z_def map_Suc_upt [symmetric] del: upt_Suc)
      (simp add: o_def algebra_simps)
  finally have "drawLine_loop s x2 dx dy attr (e + 2 * dy - dx) x y h =
      draws s (map (\<lambda>i. (x + int i, Z i, attr)) [0..<Suc n]) h" .
  moreover have "- dx \<le> e + 2 * dy * int i - 2 * dx * (Z i - y) \<and> e + 2 * dy * int i - 2 * dx * (Z i - y) < dx"
    if "i < Suc n" for i
  proof (cases i)
    case 0
    then show ?thesis using Suc.prems by (simp add: Z_def)
  next
    case (Suc j)
    then have "- dx \<le> e' + 2 * dy * int j - 2 * dx * (Y j - y') \<and> e' + 2 * dy * int j - 2 * dx * (Y j - y') < dx"
      using Y(2) that by simp
    moreover have "e' + 2 * dy * int j - 2 * dx * (Y j - y') = e + 2 * dy * int i - 2 * dx * (Z i - y)"
      by (simp add: Suc Z_def e'_def y'_def algebra_simps)
    ultimately show ?thesis by simp
  qed
  ultimately show ?case unfolding Suc.hyps(2) [symmetric] by blast
qed

lemma drawLine_points:
  assumes "y1 \<le> y2" "y2 - y1 \<le> x2 - x1"
  shows "\<exists>Y. drawLine s x1 y1 x2 y2 attr h = draws s (map (\<lambda>i. (x1 + int i, Y i, attr)) [0..<nat (x2 - x1)]) h \<and>
    (\<forall>i < nat (x2 - x1). \<bar>2 * (y2 - y1) * int i - 2 * (x2 - x1) * (Y i - y1)\<bar> \<le> x2 - x1)"
proof (cases "x2 = x1")
  case True
  then show ?thesis by (simp add: drawLine_def drawLine_loop.simps)
next
  case False
  then have "0 < x2 - x1" using assms by simp
  then obtain Y where "drawLine_loop s x2 (x2 - x1) (y2 - y1) attr (0 + 2 * (y2 - y1) - (x2 - x1)) x1 y1 h =
      draws s (map (\<lambda>i. (x1 + int i, Y i, attr)) [0..<nat (x2 - x1)]) h"
    "\<forall>i < nat (x2 - x1). - (x2 - x1) \<le> 0 + 2 * (y2 - y1) * int i - 2 * (x2 - x1) * (Y i - y1) \<and>
       0 + 2 * (y2 - y1) * int i - 2 * (x2 - x1) * (Y i - y1) < x2 - x1"
    using drawLine_loop_points [of "y2 - y1" "x2 - x1" 0 s x2 attr x1 y1 h] assms by auto
  then show ?thesis by (intro exI [of _ Y]) (auto simp: drawLine_def Let_def abs_le_iff)
qed

text \<open>A horizontal line.\<close>

lemma drawLine_horizontal:
  assumes "x1 \<le> x2"
  shows "drawLine s x1 y x2 y attr h = draws s (map (\<lambda>i. (x1 + int i, y, attr)) [0..<nat (x2 - x1)]) h"
proof -
  obtain Y where Y: "drawLine s x1 y x2 y attr h = draws s (map (\<lambda>i. (x1 + int i, Y i, attr)) [0..<nat (x2 - x1)]) h"
      "\<forall>i < nat (x2 - x1). \<bar>2 * (x2 - x1) * (Y i - y)\<bar> \<le> x2 - x1"
    using drawLine_points [of y y x2 x1 s attr h] assms by auto
  have "Y i = y" if i: "i < nat (x2 - x1)" for i
  proof (rule ccontr)
    assume "Y i \<noteq> y"
    then have "1 \<le> \<bar>Y i - y\<bar>" by simp
    then have "2 * (x2 - x1) * 1 \<le> 2 * (x2 - x1) * \<bar>Y i - y\<bar>" using i by (intro mult_left_mono) auto
    also have "\<dots> = \<bar>2 * (x2 - x1) * (Y i - y)\<bar>" using i by (simp add: abs_mult)
    finally show False using Y(2) i by fastforce
  qed
  then have "map (\<lambda>i. (x1 + int i, Y i, attr)) [0..<nat (x2 - x1)] = map (\<lambda>i. (x1 + int i, y, attr)) [0..<nat (x2 - x1)]"
    by auto
  then show ?thesis by (simp only: Y(1))
qed

text \<open>A line that goes to the right and down by at most a pixel per column is drawn with one pixel in
  each column from the first up to, but without, the last, and each pixel is within half a pixel of the
  ideal line (both sides of the inequality are multiplied by \<open>2 * dx\<close>).\<close>

theorem drawLine_correct:
  assumes "y1 \<le> y2" "y2 - y1 \<le> x2 - x1"
  shows "\<exists>Y. writes_of (drawLine s x1 y1 x2 y2 attr h) =
      writes_of h @ map (\<lambda>i. point_write s (x1 + int i, Y i, attr)) [0..<nat (x2 - x1)] \<and>
    (\<forall>i < nat (x2 - x1). \<bar>2 * (y2 - y1) * int i - 2 * (x2 - x1) * (Y i - y1)\<bar> \<le> x2 - x1)"
  using drawLine_points [OF assms, of s attr h] by (auto simp: draws_writes o_def)

theorem drawLine_correct_witness:
  "\<exists>Y. writes_of (drawLine \<lparr>s_width = 1920, s_height = 1280, pitch = 7680, isrgb = 1, fb = 0\<rparr> 10 20 14 22 15 []) =
     map (\<lambda>i. point_write \<lparr>s_width = 1920, s_height = 1280, pitch = 7680, isrgb = 1, fb = 0\<rparr> (10 + int i, Y i, 15)) [0..<4]"
  using drawLine_correct [of 20 22 14 10 "\<lparr>s_width = 1920, s_height = 1280, pitch = 7680, isrgb = 1, fb = 0\<rparr>" 15 "[]"]
  by auto

subsection \<open>Circles\<close>

text \<open>
  At the head of the loop \<open>err = x\<^sup>2 + (y + 1)\<^sup>2 - radius\<^sup>2 - 1\<close>, while the loop runs it is not
  positive, and the next pixel to the outside is beyond the circle.
\<close>

definition circle_inv :: "int \<Rightarrow> int \<Rightarrow> int \<Rightarrow> int \<Rightarrow> bool" where
  "circle_inv r x y err \<longleftrightarrow> 0 \<le> y \<and> -1 \<le> x \<and> err = x\<^sup>2 + (y + 1)\<^sup>2 - r\<^sup>2 - 1 \<and> - (2 * x + 1) < err \<and>
     (y \<le> x \<longrightarrow> err \<le> 0)"

definition eight_points :: "int \<Rightarrow> int \<Rightarrow> 8 word \<Rightarrow> int \<times> int \<Rightarrow> point list" where
  "eight_points x0 y0 attr p = (case p of (x, y) \<Rightarrow>
     [(x0 - y, y0 + x, attr), (x0 + y, y0 + x, attr), (x0 - x, y0 + y, attr), (x0 + x, y0 + y, attr),
      (x0 - x, y0 - y, attr), (x0 + x, y0 - y, attr), (x0 - y, y0 - x, attr), (x0 + y, y0 - x, attr)])"

definition horizontal :: "int \<Rightarrow> int \<Rightarrow> int \<Rightarrow> 8 word \<Rightarrow> point list" where
  "horizontal xa xb y attr = map (\<lambda>i. (xa + int i, y, attr)) [0..<nat (xb - xa)]"

definition fill_points :: "int \<Rightarrow> int \<Rightarrow> 8 word \<Rightarrow> int \<times> int \<Rightarrow> point list" where
  "fill_points x0 y0 attr p = (case p of (x, y) \<Rightarrow>
     horizontal (x0 - y) (x0 + y) (y0 + x) (background attr) @ horizontal (x0 - x) (x0 + x) (y0 + y) (background attr) @
     horizontal (x0 - x) (x0 + x) (y0 - y) (background attr) @ horizontal (x0 - y) (x0 + y) (y0 - x) (background attr))"

definition pass_points :: "int \<Rightarrow> int \<Rightarrow> 8 word \<Rightarrow> int \<Rightarrow> int \<times> int \<Rightarrow> point list" where
  "pass_points x0 y0 attr fill p = (if fill \<noteq> 0 then fill_points x0 y0 attr p else []) @ eight_points x0 y0 attr p"

lemma pass_draws:
  assumes "0 \<le> y" "y \<le> x"
  shows "eight_pixels s x0 y0 attr x y (if fill \<noteq> 0 then fill_circle s x0 y0 attr x y h else h) =
    draws s (pass_points x0 y0 attr fill (x, y)) h"
  using assms
  by (simp add: eight_pixels_def fill_circle_def drawLine_horizontal pass_points_def eight_points_def fill_points_def
      horizontal_def Let_def)

lemma circle_step:
  assumes "circle_inv r x y err" "y \<le> x"
  defines "err1 \<equiv> err + (2 * (y + 1) + 1)"
  shows "err1 > 0 \<Longrightarrow> circle_inv r (x - 1) (y + 1) (err1 - (2 * (x - 1) + 1))"
    "\<not> err1 > 0 \<Longrightarrow> circle_inv r x (y + 1) err1"
proof -
  have i: "0 \<le> y" "err = x\<^sup>2 + (y + 1)\<^sup>2 - r\<^sup>2 - 1" "err \<le> 0" "- (2 * x + 1) < err"
    using assms(1,2) by (simp_all add: circle_inv_def)
  have e1: "err1 = x\<^sup>2 + (y + 1 + 1)\<^sup>2 - r\<^sup>2 - 1" by (simp add: err1_def i(2) power2_eq_square algebra_simps)
  show "circle_inv r (x - 1) (y + 1) (err1 - (2 * (x - 1) + 1))" if "err1 > 0"
  proof -
    have "err1 - (2 * (x - 1) + 1) = (x - 1)\<^sup>2 + (y + 1 + 1)\<^sup>2 - r\<^sup>2 - 1"
      by (simp add: e1 power2_eq_square algebra_simps)
    moreover have "err1 - (2 * (x - 1) + 1) \<le> 0" if "y + 1 \<le> x - 1" using i(3) that by (simp add: err1_def)
    ultimately show ?thesis using that i(1) assms(2) unfolding circle_inv_def by (intro conjI impI) linarith+
  qed
  show "circle_inv r x (y + 1) err1" if "\<not> err1 > 0"
  proof -
    have "- (2 * x + 1) < err1" using i(1,4) by (simp add: err1_def)
    then show ?thesis using that e1 i(1) assms(2) by (simp add: circle_inv_def)
  qed
qed

text \<open>What a pass draws lies inside the circle and less than a pixel away from it.\<close>

definition on_circle :: "int \<Rightarrow> int \<times> int \<Rightarrow> bool" where
  "on_circle r p = (case p of (x, y) \<Rightarrow>
     0 \<le> y \<and> y \<le> x \<and> x\<^sup>2 + y\<^sup>2 \<le> r\<^sup>2 \<and> r\<^sup>2 + 1 < (x + 1)\<^sup>2 + (y + 1)\<^sup>2)"

lemma circle_inv_on:
  assumes "circle_inv r x y err" "y \<le> x"
  shows "on_circle r (x, y)"
proof -
  have "x\<^sup>2 + (y + 1)\<^sup>2 \<le> r\<^sup>2 + 1" "r\<^sup>2 + 1 - (2 * x + 1) < x\<^sup>2 + (y + 1)\<^sup>2" "0 \<le> y"
    using assms by (simp_all add: circle_inv_def)
  moreover have "(y + 1)\<^sup>2 = y\<^sup>2 + 2 * y + 1" "(x + 1)\<^sup>2 = x\<^sup>2 + 2 * x + 1"
    by (simp_all add: power2_eq_square algebra_simps)
  ultimately show ?thesis unfolding on_circle_def prod.case using assms(2) by linarith
qed

lemma circle_inv_end:
  assumes "circle_inv r x y err" "\<not> y \<le> x"
  shows "r\<^sup>2 + 1 < y\<^sup>2 + (y + 1)\<^sup>2"
proof -
  have "r\<^sup>2 + 1 - (2 * x + 1) < x\<^sup>2 + (y + 1)\<^sup>2" "-1 \<le> x" using assms by (simp_all add: circle_inv_def)
  moreover have "(x + 1)\<^sup>2 = x\<^sup>2 + 2 * x + 1" by (simp add: power2_eq_square algebra_simps)
  moreover have "(x + 1)\<^sup>2 \<le> y\<^sup>2" using assms(2) \<open>-1 \<le> x\<close> by (intro power_mono) simp_all
  ultimately show ?thesis by linarith
qed

text \<open>One pixel of the octant per row, from row \<open>y\<close> on.\<close>

lemma drawCircle_loop_points:
  assumes "circle_inv r x y err"
  shows "\<exists>ps. drawCircle_loop s x0 y0 attr fill x y err h =
      draws s (concat (map (pass_points x0 y0 attr fill) ps)) h \<and>
    (\<forall>p \<in> set ps. on_circle r p) \<and> map snd ps = map (\<lambda>i. y + int i) [0..<length ps] \<and>
    r\<^sup>2 + 1 < (y + int (length ps))\<^sup>2 + (y + int (length ps) + 1)\<^sup>2"
  using assms
proof (induction "nat (x - y + 1)" arbitrary: x y err h rule: less_induct)
  case less
  show ?case
  proof (cases "y \<le> x")
    case False
    then show ?thesis using circle_inv_end [OF less.prems False]
      by (intro exI [of _ "[]"]) (subst drawCircle_loop.simps, simp)
  next
    case True
    have i: "0 \<le> y" "err \<le> 0" using less.prems True by (simp_all add: circle_inv_def)
    define err1 where "err1 = err + (2 * (y + 1) + 1)"
    define x' err' where "x' = (if err1 > 0 then x - 1 else x)"
      and "err' = (if err1 > 0 then err1 - (2 * (x - 1) + 1) else err1)"
    let ?h = "draws s (pass_points x0 y0 attr fill (x, y)) h"
    have inv: "circle_inv r x' (y + 1) err'"
      using circle_step [OF less.prems True] by (simp add: x'_def err'_def err1_def)
    have unroll: "drawCircle_loop s x0 y0 attr fill x y err h = drawCircle_loop s x0 y0 attr fill x' (y + 1) err' ?h"
      using True i by (subst drawCircle_loop.simps) (simp add: pass_draws x'_def err'_def err1_def Let_def)
    have "nat (x' - (y + 1) + 1) < nat (x - y + 1)" using True by (simp add: x'_def)
    then obtain ps where ps: "drawCircle_loop s x0 y0 attr fill x' (y + 1) err' ?h =
        draws s (concat (map (pass_points x0 y0 attr fill) ps)) ?h" "\<forall>p \<in> set ps. on_circle r p"
        "map snd ps = map (\<lambda>i. y + 1 + int i) [0..<length ps]"
        "r\<^sup>2 + 1 < (y + 1 + int (length ps))\<^sup>2 + (y + 1 + int (length ps) + 1)\<^sup>2"
      using less.hyps [OF _ inv, of ?h] by blast
    have "map snd ((x, y) # ps) = map (\<lambda>i. y + int i) [0..<length ((x, y) # ps)]"
      by (simp add: ps(3) upt_conv_Cons map_Suc_upt [symmetric] del: upt_Suc)
    moreover have "on_circle r (x, y)" by (rule circle_inv_on [OF less.prems True])
    ultimately show ?thesis using ps(1,2,4) unroll
      by (intro exI [of _ "(x, y) # ps"]) (simp add: algebra_simps)
  qed
qed

lemma drawCircle_points:
  assumes "0 \<le> radius"
  shows "\<exists>ps. drawCircle s x0 y0 radius attr fill h = draws s (concat (map (pass_points x0 y0 attr fill) ps)) h \<and>
    (\<forall>p \<in> set ps. on_circle radius p) \<and> map snd ps = map int [0..<length ps] \<and>
    radius\<^sup>2 + 1 < (int (length ps))\<^sup>2 + (int (length ps) + 1)\<^sup>2"
proof -
  have "circle_inv radius radius 0 0" using assms by (simp add: circle_inv_def)
  from drawCircle_loop_points [OF this, of s x0 y0 attr fill h] show ?thesis by (simp add: drawCircle_def)
qed



text \<open>Filled or not, a circle stays in its disc.\<close>

lemma horizontal_bounds: "(x, y, a) \<in> set (horizontal xa xb yl attr) \<Longrightarrow> xa \<le> x \<and> x < xb \<and> y = yl"
  by (auto simp: horizontal_def)

lemma square_bounds: "- r \<le> x \<Longrightarrow> x \<le> r \<Longrightarrow> x\<^sup>2 \<le> (r :: int)\<^sup>2"
  by (metis abs_le_iff abs_le_square_iff abs_of_nonneg minus_le_iff neg_le_0_iff_le order.trans order_refl linear)

lemma pass_points_in_disc:
  assumes "on_circle r p" "q \<in> set (pass_points x0 y0 attr fill p)"
  shows "(fst q - x0)\<^sup>2 + (fst (snd q) - y0)\<^sup>2 \<le> r\<^sup>2"
proof -
  obtain x y where p: "p = (x, y)" by (cases p)
  obtain qx qy qa where q: "q = (qx, qy, qa)" by (cases q) auto
  have d: "0 \<le> y" "y \<le> x" "x\<^sup>2 + y\<^sup>2 \<le> r\<^sup>2" using assms(1) by (simp_all add: on_circle_def p)
  have "(\<bar>qx - x0\<bar> \<le> x \<and> \<bar>qy - y0\<bar> = y) \<or> (\<bar>qx - x0\<bar> \<le> y \<and> \<bar>qy - y0\<bar> = x)"
    using assms(2) d(1,2)
    by (auto simp: pass_points_def fill_points_def eight_points_def p q dest!: horizontal_bounds split: if_splits)
  then have "(qx - x0)\<^sup>2 + (qy - y0)\<^sup>2 \<le> x\<^sup>2 + y\<^sup>2"
  proof
    assume a: "\<bar>qx - x0\<bar> \<le> x \<and> \<bar>qy - y0\<bar> = y"
    then have "(qx - x0)\<^sup>2 \<le> x\<^sup>2" "(qy - y0)\<^sup>2 = y\<^sup>2" by (auto simp: abs_le_iff intro: square_bounds)
    then show ?thesis by simp
  next
    assume a: "\<bar>qx - x0\<bar> \<le> y \<and> \<bar>qy - y0\<bar> = x"
    then have "(qx - x0)\<^sup>2 \<le> y\<^sup>2" "(qy - y0)\<^sup>2 = x\<^sup>2" by (auto simp: abs_le_iff intro: square_bounds)
    then show ?thesis by simp
  qed
  then show ?thesis using d(3) by (simp add: q)
qed

lemma drawCircle_in_disc:
  assumes "0 \<le> radius"
  shows "\<exists>qs. drawCircle s x0 y0 radius attr fill h = draws s qs h \<and>
    (\<forall>(x, y, a) \<in> set qs. \<bar>x - x0\<bar> \<le> radius \<and> \<bar>y - y0\<bar> \<le> radius)"
proof -
  obtain ps where ps: "drawCircle s x0 y0 radius attr fill h = draws s (concat (map (pass_points x0 y0 attr fill) ps)) h"
    "\<forall>p \<in> set ps. on_circle radius p"
    using drawCircle_points [OF assms] by blast
  have "\<bar>x - x0\<bar> \<le> radius \<and> \<bar>y - y0\<bar> \<le> radius"
    if q: "(x, y, a) \<in> set (concat (map (pass_points x0 y0 attr fill) ps))" for x y a
  proof -
    obtain p where p: "p \<in> set ps" "(x, y, a) \<in> set (pass_points x0 y0 attr fill p)"
      using q unfolding set_concat set_map by blast
    have d: "(x - x0)\<^sup>2 + (y - y0)\<^sup>2 \<le> radius\<^sup>2"
      using pass_points_in_disc [OF _ p(2), of radius] ps(2) p(1) by simp
    have "(x - x0)\<^sup>2 \<le> radius\<^sup>2" "(y - y0)\<^sup>2 \<le> radius\<^sup>2"
      using d by (smt (verit) zero_le_power2)+
    then show ?thesis using assms by (simp add: abs_le_square_iff [symmetric])
  qed
  then show ?thesis using ps(1) by (intro exI [of _ "concat (map (pass_points x0 y0 attr fill) ps)"]) auto
qed

end
