(* ===== verification/Display.thy ===== *)
theory Display
  imports FrameBuffer Mailbox Sched
begin

text \<open>
  The display: its initialisation (\<open>FBInit\<close> of \<open>src/FrameBuffer.cpp\<close>), the queue of circles, and the
  kernel's own tasks (\<open>src/Task.cpp\<close>), which put random circles into the queue and draw them.
\<close>

subsection \<open>State\<close>

record circle =
  c_radius :: "32 word"
  c_x :: "32 word"
  c_y :: "32 word"
  c_attr :: "32 word"
  c_fill :: "8 word"

text \<open>\<open>circle_mem\<close> is the memory the circles' addresses point to.\<close>

record display =
  disp_screen :: screen
  fb_lock :: spinlock
  circles :: "nat array_list"
  circle_mem :: "nat \<Rightarrow> circle"

definition getCoreColor :: "device \<Rightarrow> nat \<Rightarrow> nat \<Rightarrow> kernel \<Rightarrow> (8 word \<times> kernel) krun" where
  "getCoreColor dev core coreNumber k =
     (if coreNumber = 0 then ret (0x0F, k)
      else if coreNumber = 1 then ret (0x0C, k)
      else if coreNumber = 2 then ret (0x0B, k)
      else if coreNumber = 3 then ret (0x0D, k)
      else core_panic dev core (''Wrong CPU!!!!'' @ nl) k)"

subsection \<open>Initialisation\<close>

text \<open>The words of the message, in the order of the buffer.\<close>

definition fb_request :: "32 word list" where
  "fb_request =
     [35 * 4, MBOX_REQUEST,
      MBOX_TAG_SETPHYWH, 8, 0, 1920, 1080,
      MBOX_TAG_SETVIRTWH, 8, 8, 1920, 1080 + 200,
      MBOX_TAG_SETVIRTOFF, 8, 8, 0, 0,
      MBOX_TAG_SETDEPTH, 4, 4, 32,
      MBOX_TAG_SETPXLORDR, 4, 4, 1,
      MBOX_TAG_GETFB, 8, 8, 4096, 0,
      MBOX_TAG_GETPITCH, 4, 4, 0,
      MBOX_TAG_LAST]"

definition put_request :: "nat \<Rightarrow> history \<Rightarrow> history" where
  "put_request mbox h = foldl (\<lambda>h i. mbox_put mbox i (fb_request ! i) h) h [0..<35]"

text \<open>\<open>mbox_call(..) && mbox[20] == 32 && mbox[28] != 0\<close>\<close>

definition fb_available :: "device \<Rightarrow> nat \<Rightarrow> history \<Rightarrow> (bool \<times> history) option" where
  "fb_available dev mbox h = do {
     (ok, h) \<leftarrow> mbox_call dev mbox MBOX_CH_PROP h;
     (if \<not> ok then Some (False, h)
      else let (depth, h) = mbox_get dev mbox 20 h
           in if depth \<noteq> 32 then Some (False, h)
              else let (address, h) = mbox_get dev mbox 28 h in Some (address \<noteq> 0, h))
   }"

definition read_geometry :: "device \<Rightarrow> nat \<Rightarrow> history \<Rightarrow> screen \<times> history" where
  "read_geometry dev mbox h =
     (let (a, h) = mbox_get dev mbox 28 h;
          h = mbox_put mbox 28 (a AND 0x3FFFFFFF) h;
          (w, h) = mbox_get dev mbox 10 h;
          (ht, h) = mbox_get dev mbox 11 h;
          (p, h) = mbox_get dev mbox 33 h;
          (rgb, h) = mbox_get dev mbox 24 h;
          (a, h) = mbox_get dev mbox 28 h
      in (\<lparr>s_width = w, s_height = ht, pitch = p, isrgb = rgb, fb = 0xffff000000000000 + unat a\<rparr>, h))"

primrec label_cores :: "nat list \<Rightarrow> device \<Rightarrow> nat \<Rightarrow> screen \<Rightarrow> kernel \<Rightarrow> kernel krun" where
  "label_cores [] dev core s k = ret k"
| "label_cores (c # cs) dev core s k =
     thn (getCoreColor dev core c k) (\<lambda>(attr, k).
     label_cores cs dev core s
       (k\<lparr>kernel_io := drawString s (860 + int c * 50) 0 (''Core'' @ [digit_char c] @ '' '') attr (kernel_io k)\<rparr>))"

text \<open>\<open>fresh\<close> and \<open>garbage\<close> are what the new queue finds in memory; \<open>alloc\<close> asks the allocator in use for
  memory, whose answer the kernel keeps as \<open>kernelFb\<close> and never uses.\<close>

definition FBInit ::
  "device \<Rightarrow> nat \<Rightarrow> nat \<Rightarrow> (int \<Rightarrow> nat) \<Rightarrow> bool \<Rightarrow> (32 word \<Rightarrow> kernel \<Rightarrow> ('a \<times> kernel) krun) \<Rightarrow> display \<Rightarrow> kernel \<Rightarrow>
   ((display \<times> 'a) \<times> kernel) krun" where
  "FBInit dev core mbox fresh garbage alloc d k =
     (let d = d\<lparr>fb_lock := spinlock_init (fb_lock d)\<rparr>
      in thn (of_option (fb_available dev mbox (put_request mbox (kernel_io k)))) (\<lambda>(ok, h).
         if ok then
           let (s, h) = read_geometry dev mbox h
           in thn (alloc (4 * s_width s * s_height s) (k\<lparr>kernel_io := h\<rparr>)) (\<lambda>(kernelFb, k).
              let d = d\<lparr>disp_screen := s, circles := array_list_new fresh garbage\<rparr>
              in thn (say_locked dev core (''Frame buffer allocated!'' @ nl @ ''W: %d H: %d Pitch: %d RGB %d'' @ nl)
                   [Num (uint (s_width s)), Num (uint (s_height s)), Num (uint (pitch s)), Num (uint (isrgb s))] k) (\<lambda>k.
                 thn (label_cores [0..<4] dev core s k) (\<lambda>k. ret ((d, kernelFb), k))))
         else core_panic dev core (''Error allocating framebuffer!'' @ nl) (k\<lparr>kernel_io := h\<rparr>)))"

subsection \<open>The tasks\<close>

definition random_below :: "device \<Rightarrow> nat \<Rightarrow> kernel \<Rightarrow> (nat \<times> kernel) krun" where
  "random_below dev n k = thn (read_time dev k) (\<lambda>(c, k). ret (unat (hash (of_nat c)) mod n, k))"

text \<open>\<open>kernelTask\<close>: the circle it makes between its two sleeps.\<close>

definition new_circle :: "device \<Rightarrow> nat \<Rightarrow> kernel \<Rightarrow> (circle \<times> kernel) krun" where
  "new_circle dev core k =
     thn (random_below dev 1920 k) (\<lambda>(x, k).
     thn (random_below dev 1080 k) (\<lambda>(y, k).
     thn (random_below dev 10 k) (\<lambda>(radius, k).
     thn (getCoreColor dev core core k) (\<lambda>(attr, k).
     ret (\<lparr>c_radius = of_nat (radius + 3), c_x = of_nat x, c_y = of_nat (y + 32), c_attr = ucast attr, c_fill = 1\<rparr>, k)))))"

text \<open>The mutex as a task sees it that finds it free; waiting for it is in \<open>Mutex\<close>.\<close>

definition get_fb_lock :: "nat \<Rightarrow> kernel \<Rightarrow> display \<Rightarrow> display krun" where
  "get_fb_lock core k d =
     (case spinlock_testAndSet True (fb_lock d) of (got, l) \<Rightarrow>
        if got = 0 then waiting else ret (d\<lparr>fb_lock := l\<lparr>ownerPid := pid (current core k)\<rparr>\<rparr>))"

definition free_fb_lock :: "nat \<Rightarrow> display \<Rightarrow> kernel \<Rightarrow> display \<times> kernel" where
  "free_fb_lock core d k = (d\<lparr>fb_lock := spinlock_release (fb_lock d)\<rparr>, sgi SYSTEM_WAKEUP_ALL core k)"

definition paintCircle :: "(int \<Rightarrow> nat) \<Rightarrow> nat \<Rightarrow> nat \<Rightarrow> display \<Rightarrow> kernel \<Rightarrow> (display \<times> kernel) krun" where
  "paintCircle fresh core c d k =
     thn (get_fb_lock core k d) (\<lambda>d.
     ret (free_fb_lock core (d\<lparr>circles := array_list_add fresh (circles d) c\<rparr>) k))"

definition draw_circle :: "screen \<Rightarrow> circle \<Rightarrow> 8 word \<Rightarrow> history \<Rightarrow> history" where
  "draw_circle s c attr h = drawCircle s (sint (c_x c)) (sint (c_y c)) (sint (c_radius c)) attr (uint (c_fill c)) h"

text \<open>\<open>screenTask\<close>: one pass of its loop; it reports whether there was a circle.\<close>

definition screen_pass :: "device \<Rightarrow> nat \<Rightarrow> display \<Rightarrow> kernel \<Rightarrow> (bool \<times> display \<times> kernel) krun" where
  "screen_pass dev core d k =
     thn (get_fb_lock core k d) (\<lambda>d.
       if array_list_getSize (circles d) > 0 then
         let drawMe = arr (circles d) 0;
             d = d\<lparr>circles := snd (array_list_remove (circles d) 0)\<rparr>;
             k = preemptDisable core k
         in thn (getCoreColor dev core core k) (\<lambda>(attr, k).
            let k = k\<lparr>kernel_io := draw_circle (disp_screen d) (circle_mem d drawMe) attr (kernel_io k)\<rparr>;
                k = preemptEnable core k
            in ret (True, free_fb_lock core d k))
       else ret (False, free_fb_lock core d k))"

subsection \<open>The message to the graphics processor\<close>

text \<open>
  A property message is a chain of tags: a tag, the size of its buffer in bytes, a word, the buffer; it
  ends with the tag 0. \<open>tag_chain m i\<close> walks it from word \<open>i\<close> to the word behind the end.
\<close>

function tag_chain :: "32 word list \<Rightarrow> nat \<Rightarrow> nat option" where
  "tag_chain m i =
     (if i \<ge> length m then None
      else if m ! i = MBOX_TAG_LAST then Some (i + 1)
      else if i + 1 \<ge> length m \<or> unat (m ! (i + 1)) mod 4 \<noteq> 0 then None
      else tag_chain m (i + 3 + unat (m ! (i + 1)) div 4))"
  by auto
termination by (relation "measure (\<lambda>(m, i). length m - i)") auto

lemma fb_request_length [simp]: "length fb_request = 35"
  by (simp add: fb_request_def)

text \<open>The message that asks for the frame buffer is well formed: the chain of its tags ends exactly at
  its last word, its first word is its length in bytes, it fits into the buffer of 36 words, and
  \<open>FBInit\<close> writes it word by word into the buffer and nothing else before it calls the mailbox.\<close>

theorem fb_request_correct:
  "tag_chain fb_request 2 = Some (length fb_request) \<and> unat (hd fb_request) = 4 * length fb_request \<and>
   length fb_request \<le> 36 \<and>
   writes_of (put_request mbox h) = writes_of h @ map (\<lambda>i. (mbox + 4 * i, fb_request ! i)) [0..<length fb_request]"
proof (intro conjI)
  show "tag_chain fb_request 2 = Some (length fb_request)"
    by (simp add: fb_request_def mbox_tags tag_chain.simps)
  show "unat (hd fb_request) = 4 * length fb_request" by (simp add: fb_request_def)
  show "length fb_request \<le> 36" by simp
  have "writes_of (foldl (\<lambda>h i. mbox_put mbox i (fb_request ! i) h) h is) =
      writes_of h @ map (\<lambda>i. (mbox + 4 * i, fb_request ! i)) is" for "is"
    by (induction "is" arbitrary: h) (simp_all add: mbox_put_def)
  then show "writes_of (put_request mbox h) =
      writes_of h @ map (\<lambda>i. (mbox + 4 * i, fb_request ! i)) [0..<length fb_request]"
    by (simp add: put_request_def del: upt_Suc)
qed

subsection \<open>Circles stay in the frame buffer\<close>

text \<open>The frame buffer \<open>FBInit\<close> asks for: lines of 1920 pixels of four bytes, 1280 of them.\<close>

definition frame_bytes :: nat where "frame_bytes = 7680 * 1280"

lemma pixel_address_in_frame:
  assumes "pitch s = 7680" "fb s + frame_bytes \<le> 2 ^ 64" "0 \<le> y * 7680 + x * 4" "y * 7680 + x * 4 + 4 \<le> int frame_bytes"
  shows "pixel_address s x y = fb s + nat (y * 7680 + x * 4)"
proof -
  let ?o = "y * 7680 + x * 4"
  have "of_int y * pitch s + of_int (x * 4) = (of_int ?o :: 32 word)" by (simp add: assms(1))
  moreover have "sint (of_int ?o :: 32 word) = ?o"
    unfolding sint_sbintrunc' by (rule signed_take_bit_int_eq_self) (use assms(3,4) in \<open>simp_all add: frame_bytes_def\<close>)
  ultimately have "pixel_offset s x y = ?o" by (simp add: pixel_offset_def)
  then show ?thesis using assms(2-4) by (simp add: pixel_address_def frame_bytes_def)
qed

lemma random_below_spec:
  assumes "clocked dev ticks" "0 < n"
  shows "\<exists>v k'. random_below dev n k = ret (v, k') \<and> v < n \<and> (\<exists>h. k' = k\<lparr>kernel_io := h\<rparr> \<and> writes_of h = writes_of (kernel_io k))"
  using getCounter_bounds [OF assms(1), of "kernel_io k"] assms(2)
  by (auto simp: random_below_def read_time_def)

lemma getCoreColor_core: "core < NUM_CORES \<Longrightarrow> \<exists>attr. getCoreColor dev core core k = ret (attr, k)"
  by (auto simp: getCoreColor_def NUM_CORES_def)

lemma new_circle_spec:
  assumes "clocked dev ticks" "core < NUM_CORES"
  shows "\<exists>c k'. new_circle dev core k = ret (c, k') \<and> uint (c_x c) < 1920 \<and> 32 \<le> uint (c_y c) \<and> uint (c_y c) < 1112 \<and>
    3 \<le> uint (c_radius c) \<and> uint (c_radius c) < 13 \<and> (\<exists>h. k' = k\<lparr>kernel_io := h\<rparr> \<and> writes_of h = writes_of (kernel_io k))"
proof -
  obtain x h1 where x: "random_below dev 1920 k = ret (x, k\<lparr>kernel_io := h1\<rparr>)" "x < 1920" "writes_of h1 = writes_of (kernel_io k)"
    using random_below_spec [OF assms(1), of 1920 k] by auto
  obtain y h2 where y: "random_below dev 1080 (k\<lparr>kernel_io := h1\<rparr>) = ret (y, k\<lparr>kernel_io := h2\<rparr>)" "y < 1080"
      "writes_of h2 = writes_of h1"
    using random_below_spec [OF assms(1), of 1080 "k\<lparr>kernel_io := h1\<rparr>"] by auto
  obtain r h3 where r: "random_below dev 10 (k\<lparr>kernel_io := h2\<rparr>) = ret (r, k\<lparr>kernel_io := h3\<rparr>)" "r < 10"
      "writes_of h3 = writes_of h2"
    using random_below_spec [OF assms(1), of 10 "k\<lparr>kernel_io := h2\<rparr>"] by auto
  obtain attr where attr: "getCoreColor dev core core (k\<lparr>kernel_io := h3\<rparr>) = ret (attr, k\<lparr>kernel_io := h3\<rparr>)"
    using getCoreColor_core [OF assms(2)] by blast
  have small: "uint (of_nat m :: 32 word) = int m" if "m < 2 ^ 31" for m
    using that by (simp add: uint_nat unat_of_nat take_bit_nat_eq_self)
  show ?thesis
    using x y r attr small [of x] small [of "y + 32"] small [of "r + 3"]
    by (intro exI) (rule conjI, simp add: new_circle_def, auto)
qed


text \<open>A kernel whose core 0 runs task 0.\<close>

definition demo_display_kernel :: kernel where
  "demo_display_kernel = \<lparr>tasks = (\<lambda>_. undefined), locks = (\<lambda>_. undefined), runningQLock = (\<lambda>_. undefined),
     sleepingQLock = undefined, currentTask = (\<lambda>_. 0), runningQ = (\<lambda>_ _. undefined), sleepingQ = undefined,
     freePID = 1, nextCore = 0, allocations = 0, heap_free = 0,
     kernel_con = \<lparr>console_set = False, console_lock = None\<rparr>, kernel_io = []\<rparr>"


subsection \<open>The queue of circles\<close>

definition display_free :: "display \<Rightarrow> bool" where
  "display_free d \<longleftrightarrow> lock_val (fb_lock d) = 0 \<and> 0 \<le> al_size (circles d)"

lemma get_fb_lock_free:
  assumes "display_free d"
  shows "\<exists>l. get_fb_lock core k d = ret (d\<lparr>fb_lock := l\<rparr>)"
  using assms
  by (intro exI [of _ "(fb_lock d)\<lparr>lock_val := SPLCK_LOCKED, ownerPid := pid (current core k)\<rparr>"])
    (simp add: get_fb_lock_def spinlock_testAndSet_def display_free_def SPLCK_LOCKED_def)

lemma paintCircle_spec:
  assumes "display_free d"
  shows "\<exists>d'. paintCircle fresh core c d k = ret (d', sgi SYSTEM_WAKEUP_ALL core k) \<and> display_free d' \<and>
    elements (circles d') = elements (circles d) @ [c] \<and> disp_screen d' = disp_screen d \<and> circle_mem d' = circle_mem d"
  using get_fb_lock_free [OF assms, of core k] assms add_elements [of "circles d" fresh c]
  by (auto simp: paintCircle_def free_fb_lock_def display_free_def spinlock_release_def SPLCK_UNLOCKED_def)

lemma screen_pass_empty:
  assumes "display_free d" "elements (circles d) = []"
  shows "\<exists>d'. screen_pass dev core d k = ret (False, d', sgi SYSTEM_WAKEUP_ALL core k) \<and> display_free d' \<and>
    elements (circles d') = []"
proof -
  have "al_size (circles d) \<le> 0" using arg_cong [OF assms(2), of length] by simp
  then show ?thesis using get_fb_lock_free [OF assms(1), of core k] assms
    by (auto simp: screen_pass_def free_fb_lock_def display_free_def spinlock_release_def SPLCK_UNLOCKED_def
        array_list_getSize_def)
qed

lemma screen_pass_first:
  assumes "display_free d" "elements (circles d) = c # cs" "core < NUM_CORES"
  shows "\<exists>d' k' attr. screen_pass dev core d k = ret (True, d', sgi SYSTEM_WAKEUP_ALL core k') \<and> display_free d' \<and>
    elements (circles d') = cs \<and> kernel_io k' = draw_circle (disp_screen d) (circle_mem d c) attr (kernel_io k) \<and>
    premption (current core k') = sub64 (add64 (premption (current core k)) 1) 1"
proof -
  have sz: "0 < al_size (circles d)" using arg_cong [OF assms(2), of length] by simp
  have first: "arr (circles d) 0 = c" using nth_elements [of 0 "circles d"] assms(2) sz by simp
  have rest: "elements (snd (array_list_remove (circles d) 0)) = cs" "al_size (snd (array_list_remove (circles d) 0)) = al_size (circles d) - 1"
    using remove_elements [of 0 "circles d"] sz assms(2) by simp_all
  obtain l where l: "get_fb_lock core k d = ret (d\<lparr>fb_lock := l\<rparr>)" using get_fb_lock_free [OF assms(1)] by blast
  obtain attr where attr: "getCoreColor dev core core (preemptDisable core k) = ret (attr, preemptDisable core k)"
    using getCoreColor_core [OF assms(3)] by blast
  define k1 where "k1 = preemptDisable core k"
  define d1 where "d1 = d\<lparr>fb_lock := spinlock_release l, circles := snd (array_list_remove (circles d) 0)\<rparr>"
  define k' where "k' = preemptEnable core (k1\<lparr>kernel_io := draw_circle (disp_screen d) (circle_mem d c) attr (kernel_io k1)\<rparr>)"
  have "screen_pass dev core d k = ret (True, d1, sgi SYSTEM_WAKEUP_ALL core k')"
    using l attr first sz
    by (simp add: screen_pass_def array_list_getSize_def free_fb_lock_def k1_def [symmetric] k'_def d1_def Let_def)
  moreover have "display_free d1" "elements (circles d1) = cs"
    using rest sz by (simp_all add: d1_def display_free_def spinlock_release_def SPLCK_UNLOCKED_def)
  moreover have "kernel_io k' = draw_circle (disp_screen d) (circle_mem d c) attr (kernel_io k)"
    "premption (current core k') = sub64 (add64 (premption (current core k)) 1) 1"
    by (simp_all add: k'_def k1_def preemptDisable_def preemptEnable_def update_task_def current_def)
  ultimately show ?thesis by blast
qed

text \<open>The circles are a queue that the mutex protects: painting puts a circle at the end, a pass of the
  screen task takes the first one out and draws it, and both leave the mutex free, announce that to the
  sleeping tasks, and restore the count that keeps the task from being preempted.\<close>

theorem circle_queue_fifo:
  assumes "display_free d" "core < NUM_CORES"
  shows "(\<exists>d'. paintCircle fresh core c d k = ret (d', sgi SYSTEM_WAKEUP_ALL core k) \<and> display_free d' \<and>
      elements (circles d') = elements (circles d) @ [c]) \<and>
    (case elements (circles d) of
       [] \<Rightarrow> \<exists>d'. screen_pass dev core d k = ret (False, d', sgi SYSTEM_WAKEUP_ALL core k) \<and> display_free d' \<and>
         elements (circles d') = []
     | c # cs \<Rightarrow> \<exists>d' k' attr. screen_pass dev core d k = ret (True, d', sgi SYSTEM_WAKEUP_ALL core k') \<and> display_free d' \<and>
         elements (circles d') = cs \<and> kernel_io k' = draw_circle (disp_screen d) (circle_mem d c) attr (kernel_io k) \<and>
         premption (current core k') = sub64 (add64 (premption (current core k)) 1) 1)"
  using paintCircle_spec [OF assms(1), of fresh core c k] screen_pass_empty [OF assms(1), of dev core k]
    screen_pass_first [OF assms(1) _ assms(2), of _ _ dev k]
  by (auto split: list.split)

definition demo_display :: display where
  "demo_display = \<lparr>disp_screen = \<lparr>s_width = 1920, s_height = 1280, pitch = 7680, isrgb = 1, fb = 0\<rparr>,
     fb_lock = \<lparr>lock_val = 0, ownerPid = 0\<rparr>, circles = (array_list_new (\<lambda>_. 7) False)\<lparr>al_size := 1\<rparr>,
     circle_mem = (\<lambda>_. \<lparr>c_radius = 3, c_x = 100, c_y = 100, c_attr = 0, c_fill = 1\<rparr>)\<rparr>"

theorem circle_queue_fifo_witness:
  "\<exists>d' k' attr. screen_pass (stepping_timer 10) 0 demo_display demo_display_kernel = ret (True, d', sgi SYSTEM_WAKEUP_ALL 0 k') \<and>
     elements (circles d') = [] \<and>
     kernel_io k' = draw_circle (disp_screen demo_display) (circle_mem demo_display 7) attr []"
proof -
  have "display_free demo_display" by (simp add: display_free_def demo_display_def)
  moreover have "elements (circles demo_display) = [7]"
    by (simp add: demo_display_def elements_def array_list_new_def)
  ultimately show ?thesis
    using circle_queue_fifo [of demo_display 0 "\<lambda>_. 0" 7 demo_display_kernel "stepping_timer 10"]
    by (auto simp: NUM_CORES_def demo_display_kernel_def)
qed

end
