(* ===== verification/Alloc.thy ===== *)
theory Alloc
  imports BuddySpec Spinlocks
begin

text \<open>
  The kernel's allocators: \<open>class BootAllocator\<close> (a bump allocator used while booting),
  \<open>class KernelHeapAllocator\<close> (the buddy allocator behind a spin lock) and
  \<open>GlobalKernelAlloc\<close>, which dispatches to the one in use and implements \<open>new\<close> and
  \<open>delete\<close> (\<open>src/Mem.cpp\<close>, \<open>src/include/Mem.h\<close>, \<open>src/include/BootAllocator.h\<close>,
  \<open>src/mem/KernelHeapAllocator.cpp\<close>).

  The abstract class \<open>MemoryAllocator\<close> is the locale \<open>block_allocator\<close>; it is interpreted on
  both allocators and on the dispatcher.
\<close>

subsection \<open>The boot allocator\<close>

text \<open>\<open>bytes_left\<close> is a \<open>long\<close>.\<close>

record boot_allocator =
  boot_ptr :: nat
  boot_bytes_left :: int

definition boot_init :: "nat \<Rightarrow> nat \<Rightarrow> boot_allocator" where
  "boot_init s e = \<lparr>boot_ptr = s, boot_bytes_left = int e - int s\<rparr>"

definition boot_alloc :: "boot_allocator \<Rightarrow> nat \<Rightarrow> nat \<times> boot_allocator" where
  "boot_alloc a sz =
     (if int sz \<le> boot_bytes_left a
      then (boot_ptr a, a\<lparr>boot_bytes_left := boot_bytes_left a - int sz,
                          boot_ptr := add64 (boot_ptr a) sz\<rparr>)
      else (0, a))"

definition boot_free :: "boot_allocator \<Rightarrow> nat \<Rightarrow> boot_allocator" where
  "boot_free a p = a"

definition boot_freeSpace :: "boot_allocator \<Rightarrow> int" where
  "boot_freeSpace a = boot_bytes_left a"

subsection \<open>The kernel heap\<close>

text \<open>\<open>allocations\<close> is a global of the file; it travels with the object here.\<close>

record kernel_heap =
  kh_ptr :: nat
  kh_bytes_left :: nat
  kh_lock :: spinlock
  kh_buddy :: "buddy option"
  allocations :: nat

definition OUT_OF_MEMORY :: string where
  "OUT_OF_MEMORY = ''Buddy out of memory!'' @ [CHR 0x0A]"

definition kh_alloc :: "nat \<Rightarrow> kernel_heap \<Rightarrow> nat \<Rightarrow> (nat \<times> kernel_heap) outcome" where
  "kh_alloc pid h sz =
     andthen (lift_opt (spinlock_spin pid (kh_lock h))) (\<lambda>l.
     andthen (lift_opt (buddy_malloc (kh_buddy h) sz)) (\<lambda>(out, bp).
       let h = h\<lparr>kh_buddy := bp, kh_lock := spinlock_release l\<rparr>
       in if out = 0 then panic OUT_OF_MEMORY
          else ok (out, h\<lparr>kh_bytes_left := sub64 (kh_bytes_left h) sz,
                         allocations := add64 (allocations h) 1\<rparr>)))"

definition kh_free :: "nat \<Rightarrow> kernel_heap \<Rightarrow> nat \<Rightarrow> kernel_heap outcome" where
  "kh_free pid h p =
     andthen (lift_opt (spinlock_spin pid (kh_lock h))) (\<lambda>l.
     andthen (buddy_free (kh_buddy h) p) (\<lambda>bp.
       ok (h\<lparr>kh_buddy := bp, allocations := sub64 (allocations h) 1,
             kh_lock := spinlock_release l\<rparr>)))"

text \<open>\<open>buddy_arena_free_size\<close> does not check for \<open>NULL\<close>: without a buddy there is no result.\<close>

definition kh_freeSpace :: "kernel_heap \<Rightarrow> nat option" where
  "kh_freeSpace h = (case kh_buddy h of None \<Rightarrow> None | Some b \<Rightarrow> buddy_arena_free_size b)"

definition kh_addChunk :: "kernel_heap \<Rightarrow> nat \<Rightarrow> nat \<Rightarrow> kernel_heap" where
  "kh_addChunk h p q = h"

definition kh_getPtr :: "kernel_heap \<Rightarrow> nat" where
  "kh_getPtr h = kh_ptr h"

subsection \<open>The global allocator\<close>

datatype memory_allocator = Boot boot_allocator | Heap kernel_heap

type_synonym kalloc = "memory_allocator option"

definition setAllocator :: "kalloc \<Rightarrow> memory_allocator \<Rightarrow> kalloc" where
  "setAllocator k a = Some a"

text \<open>A call through the null pointer has no result.\<close>

definition kalloc_alloc :: "nat \<Rightarrow> kalloc \<Rightarrow> nat \<Rightarrow> (nat \<times> kalloc) outcome" where
  "kalloc_alloc pid k sz =
     (case k of
        None \<Rightarrow> None
      | Some (Boot a) \<Rightarrow> (let (p, a) = boot_alloc a sz in ok (p, Some (Boot a)))
      | Some (Heap h) \<Rightarrow> andthen (kh_alloc pid h sz) (\<lambda>(p, h). ok (p, Some (Heap h))))"

definition kalloc_free :: "nat \<Rightarrow> kalloc \<Rightarrow> nat \<Rightarrow> kalloc outcome" where
  "kalloc_free pid k p =
     (case k of
        None \<Rightarrow> None
      | Some (Boot a) \<Rightarrow> ok (Some (Boot (boot_free a p)))
      | Some (Heap h) \<Rightarrow> andthen (kh_free pid h p) (\<lambda>h. ok (Some (Heap h))))"

text \<open>\<open>operator new\<close> takes a \<open>size_t\<close> and passes an \<open>unsigned\<close>.\<close>

definition operator_new :: "nat \<Rightarrow> kalloc \<Rightarrow> nat \<Rightarrow> (nat \<times> kalloc) outcome" where
  "operator_new pid k sz = kalloc_alloc pid k (sz mod 2 ^ 32)"

definition operator_delete :: "nat \<Rightarrow> kalloc \<Rightarrow> nat \<Rightarrow> kalloc outcome" where
  "operator_delete pid k p = kalloc_free pid k p"

text \<open>The constructor takes the memory for the metadata from the allocator in use.\<close>

definition kh_init ::
  "nat \<Rightarrow> kernel_heap \<Rightarrow> buddy \<Rightarrow> nat \<Rightarrow> nat \<Rightarrow> kalloc \<Rightarrow> (kernel_heap \<times> kalloc) outcome" where
  "kh_init pid h0 old s e k =
     (let h = h0\<lparr>kh_ptr := s, kh_bytes_left := sub64 e s,
                 kh_lock := (kh_lock h0)\<lparr>lock_val := SPLCK_UNLOCKED\<rparr>\<rparr>;
          arena_size = sub64 e s
      in andthen (kalloc_alloc pid k (buddy_sizeof arena_size mod 2 ^ 32)) (\<lambda>(metadata, k).
         andthen (lift_opt (buddy_init old metadata s arena_size)) (\<lambda>bp.
           ok (h\<lparr>kh_buddy := bp\<rparr>, k))))"

subsection \<open>The contract\<close>

text \<open>
  \<open>live s B\<close>: in state \<open>s\<close> the blocks \<open>B\<close>, pairs of an address and a size, are handed out.
\<close>

locale block_allocator =
  fixes alloc :: "'s \<Rightarrow> nat \<Rightarrow> (nat \<times> 's) outcome"
    and free :: "'s \<Rightarrow> nat \<Rightarrow> 's outcome"
    and live :: "'s \<Rightarrow> (nat \<times> nat) set \<Rightarrow> bool"
  assumes live_disjoint: "live s B \<Longrightarrow> (p, l) \<in> B \<Longrightarrow> (q, m) \<in> B \<Longrightarrow> (p, l) \<noteq> (q, m) \<Longrightarrow>
      {p..<p + l} \<inter> {q..<q + m} = {}"
    and live_nonnull: "live s B \<Longrightarrow> (p, l) \<in> B \<Longrightarrow> p \<noteq> 0"
    and alloc_returns: "live s B \<Longrightarrow> alloc s n \<noteq> None"
    and alloc_live: "live s B \<Longrightarrow> 0 < n \<Longrightarrow> alloc s n = ok (p, s') \<Longrightarrow>
      p = 0 \<and> live s' B \<or> (\<exists>l. n \<le> l \<and> (p, l) \<notin> B \<and> live s' (insert (p, l) B))"
    and free_live: "live s B \<Longrightarrow> (p, l) \<in> B \<Longrightarrow> \<exists>s'. free s p = ok s' \<and> live s' (B - {(p, l)})"

text \<open>A client: it asks for blocks and gives back blocks it holds.\<close>

datatype request = Get nat | Put nat

fun serve ::
  "('s \<Rightarrow> nat \<Rightarrow> (nat \<times> 's) outcome) \<Rightarrow> ('s \<Rightarrow> nat \<Rightarrow> 's outcome) \<Rightarrow> 's \<Rightarrow> (nat \<times> nat) list \<Rightarrow>
   request list \<Rightarrow> ('s \<times> (nat \<times> nat) list) outcome" where
  "serve alloc free s held [] = ok (s, held)"
| "serve alloc free s held (Get n # rs) =
     andthen (alloc s n) (\<lambda>(p, s). serve alloc free s (if p = 0 then held else (p, n) # held) rs)"
| "serve alloc free s held (Put k # rs) =
     (if k < length held
      then andthen (free s (fst (held ! k))) (\<lambda>s. serve alloc free s (take k held @ drop (Suc k) held) rs)
      else serve alloc free s held rs)"

text \<open>No two blocks overlap.\<close>

definition apart :: "(nat \<times> nat) list \<Rightarrow> bool" where
  "apart held \<longleftrightarrow> (\<forall>i<length held. \<forall>j<length held. i \<noteq> j \<longrightarrow>
     {fst (held ! i)..<fst (held ! i) + snd (held ! i)} \<inter>
     {fst (held ! j)..<fst (held ! j) + snd (held ! j)} = {})"

definition covers :: "(nat \<times> nat) list \<Rightarrow> (nat \<times> nat) list \<Rightarrow> bool" where
  "covers held xs \<longleftrightarrow> distinct xs \<and> list_all2 (\<lambda>(p, n) (q, l). p = q \<and> n \<le> l) held xs"

lemma covers_nth:
  assumes "covers held xs" "k < length held"
  shows "length xs = length held" "fst (held ! k) = fst (xs ! k)" "snd (held ! k) \<le> snd (xs ! k)"
proof -
  have l: "list_all2 (\<lambda>(p, n) (q, l). p = q \<and> n \<le> l) held xs" using assms(1) by (simp add: covers_def)
  show "length xs = length held" using list_all2_lengthD [OF l] by simp
  show "fst (held ! k) = fst (xs ! k)" "snd (held ! k) \<le> snd (xs ! k)"
    using list_all2_nthD [OF l assms(2)] by (simp_all add: case_prod_beta)
qed

lemma covers_drop:
  assumes "covers held xs" "k < length held"
  shows "covers (take k held @ drop (Suc k) held) (take k xs @ drop (Suc k) xs)"
    "set (take k xs @ drop (Suc k) xs) = set xs - {xs ! k}"
proof -
  have len: "k < length xs" using covers_nth(1) [OF assms] assms(2) by simp
  have d: "distinct (take k xs @ xs ! k # drop (Suc k) xs)"
    using assms(1) len by (simp add: covers_def id_take_nth_drop [symmetric])
  have "set xs = set (take k xs @ xs ! k # drop (Suc k) xs)"
    using len by (simp add: id_take_nth_drop [symmetric])
  then show "set (take k xs @ drop (Suc k) xs) = set xs - {xs ! k}" using d by auto
  show "covers (take k held @ drop (Suc k) held) (take k xs @ drop (Suc k) xs)"
    using assms(1) d unfolding covers_def
    by (auto intro!: list_all2_appendI list_all2_takeI list_all2_dropI)
qed

context block_allocator
begin

lemma apart_covers:
  assumes "live s B" "covers held xs" "set xs \<subseteq> B"
  shows "apart held" "\<forall>k<length held. fst (held ! k) \<noteq> 0"
proof -
  note c = covers_nth [OF assms(2)]
  have mem: "(fst (xs ! k), snd (xs ! k)) \<in> B" if "k < length held" for k
    using c(1) [OF that] that nth_mem [of k xs] assms(3) by auto
  show "apart held" unfolding apart_def
  proof (intro allI impI)
    fix i j assume ij: "i < length held" "j < length held" "i \<noteq> j"
    then have "xs ! i \<noteq> xs ! j" using assms(2) c(1) [OF ij(1)] by (simp add: covers_def nth_eq_iff_index_eq)
    then have "{fst (xs ! i)..<fst (xs ! i) + snd (xs ! i)} \<inter>
        {fst (xs ! j)..<fst (xs ! j) + snd (xs ! j)} = {}"
      using live_disjoint [OF assms(1) mem [OF ij(1)] mem [OF ij(2)]] by (simp add: prod_eq_iff)
    then show "{fst (held ! i)..<fst (held ! i) + snd (held ! i)} \<inter>
        {fst (held ! j)..<fst (held ! j) + snd (held ! j)} = {}"
      using c(2,3) [OF ij(1)] c(2,3) [OF ij(2)] by fastforce
  qed
  show "\<forall>k<length held. fst (held ! k) \<noteq> 0"
    using mem live_nonnull [OF assms(1)] c(2) by metis
qed

lemma serve_correct:
  assumes "live s B" "covers held xs" "set xs \<subseteq> B" "\<forall>n. Get n \<in> set rs \<longrightarrow> 0 < n"
  shows "serve alloc free s held rs \<noteq> None \<and>
    (\<forall>s' held'. serve alloc free s held rs = ok (s', held') \<longrightarrow>
      (\<exists>B' xs'. live s' B' \<and> covers held' xs' \<and> set xs' \<subseteq> B'))"
  using assms
proof (induction rs arbitrary: s B held xs)
  case Nil
  then show ?case by (auto simp: ok_def)
next
  case (Cons r rs)
  have pos: "\<forall>n. Get n \<in> set rs \<longrightarrow> 0 < n" using Cons.prems(4) by simp
  show ?case
  proof (cases r)
    case (Get n)
    have n: "0 < n" using Cons.prems(4) Get by simp
    obtain res where res: "alloc s n = Some res" using alloc_returns [OF Cons.prems(1)] by blast
    show ?thesis
    proof (cases res)
      case (Inl e)
      then show ?thesis using res Get by (simp add: ok_def)
    next
      case (Inr x)
      obtain p s1 where x: "x = (p, s1)" by (cases x)
      then have al: "alloc s n = ok (p, s1)" using res Inr by (simp add: ok_def)
      consider "p = 0" "live s1 B" | l where "n \<le> l" "(p, l) \<notin> B" "live s1 (insert (p, l) B)"
        using alloc_live [OF Cons.prems(1) n al] by blast
      then show ?thesis
      proof cases
        case 1
        then show ?thesis using Cons.IH [OF 1(2) Cons.prems(2,3) pos] al Get by simp
      next
        case 2
        have "p \<noteq> 0" using live_nonnull [OF 2(3)] by blast
        moreover have "covers ((p, n) # held) ((p, l) # xs)"
          using Cons.prems(2,3) 2(1,2) by (auto simp: covers_def)
        ultimately show ?thesis
          using Cons.IH [OF 2(3), of "(p, n) # held" "(p, l) # xs"] Cons.prems(3) pos al Get by auto
      qed
    qed
  next
    case (Put k)
    show ?thesis
    proof (cases "k < length held")
      case False
      then show ?thesis using Cons.IH [OF Cons.prems(1-3) pos] Put by simp
    next
      case True
      note c = covers_nth [OF Cons.prems(2) True]
      note d = covers_drop [OF Cons.prems(2) True]
      have mem: "(fst (xs ! k), snd (xs ! k)) \<in> B" using c(1) True nth_mem [of k xs] Cons.prems(3) by auto
      then obtain s1 where s1: "free s (fst (held ! k)) = ok s1" "live s1 (B - {xs ! k})"
        using free_live [OF Cons.prems(1) mem] unfolding c(2) prod.collapse by blast
      have "set (take k xs @ drop (Suc k) xs) \<subseteq> B - {xs ! k}" using d(2) Cons.prems(3) by blast
      then show ?thesis using Cons.IH [OF s1(2) d(1) _ pos] s1(1) True Put by simp
    qed
  qed
qed

lemma serve_apart:
  assumes "live s B" "\<forall>n. Get n \<in> set rs \<longrightarrow> 0 < n"
  shows "serve alloc free s [] rs \<noteq> None"
    and "serve alloc free s [] rs = ok (s', held) \<Longrightarrow> apart held \<and> (\<forall>k<length held. fst (held ! k) \<noteq> 0)"
proof -
  have "covers [] []" by (simp add: covers_def)
  note c = serve_correct [OF assms(1) this _ assms(2)]
  show "serve alloc free s [] rs \<noteq> None" using c by simp
  show "apart held \<and> (\<forall>k<length held. fst (held ! k) \<noteq> 0)"
    if r: "serve alloc free s [] rs = ok (s', held)"
  proof -
    obtain B' xs' where "live s' B'" "covers held xs'" "set xs' \<subseteq> B'" using c r by auto
    then show ?thesis using apart_covers by blast
  qed
qed

end

subsection \<open>The providers\<close>

definition boot_live :: "boot_allocator \<Rightarrow> (nat \<times> nat) set \<Rightarrow> bool" where
  "boot_live a B \<longleftrightarrow> 0 < boot_ptr a \<and> int (boot_ptr a) + boot_bytes_left a < 2 ^ 64 \<and>
     (\<forall>(p, l) \<in> B. 0 < p \<and> 0 < l \<and> p + l \<le> boot_ptr a) \<and>
     (\<forall>(p, l) \<in> B. \<forall>(q, m) \<in> B. (p, l) \<noteq> (q, m) \<longrightarrow> {p..<p + l} \<inter> {q..<q + m} = {})"

lemma boot_alloc_live:
  assumes "boot_live a B" "0 < n" "boot_alloc a n = (p, a')"
  shows "p = 0 \<and> boot_live a' B \<or> (p, n) \<notin> B \<and> boot_live a' (insert (p, n) B)"
proof (cases "int n \<le> boot_bytes_left a")
  case False
  then show ?thesis using assms by (simp add: boot_alloc_def)
next
  case True
  have "int (boot_ptr a + n) < int (2 ^ 64)" using True assms(1) by (simp add: boot_live_def)
  then have sum: "add64 (boot_ptr a) n = boot_ptr a + n" by (simp add: add64_small del: of_nat_add)
  have p: "p = boot_ptr a" "a' = a\<lparr>boot_bytes_left := boot_bytes_left a - int n, boot_ptr := boot_ptr a + n\<rparr>"
    using assms(3) True by (auto simp: boot_alloc_def sum)
  have old: "q + m \<le> p" "0 < q" "0 < m" if "(q, m) \<in> B" for q m
    using assms(1) that by (auto simp: boot_live_def p(1))
  have new: "(p, n) \<notin> B" using old [of p n] by auto
  have "boot_live a' (insert (p, n) B)"
    using assms(1,2) unfolding boot_live_def p by (auto dest: old)
  then show ?thesis using new by simp
qed

interpretation boot: block_allocator
  "\<lambda>a n. ok (boot_alloc a n)" "\<lambda>a p. ok (boot_free a p)" boot_live
proof unfold_locales
  show "\<exists>s'. ok (boot_free s p) = ok s' \<and> boot_live s' (B - {(p, l)})"
    if "boot_live s B" "(p, l) \<in> B" for s B p l
    using that by (auto simp: boot_free_def boot_live_def)
  show "p = 0 \<and> boot_live s' B \<or> (\<exists>l\<ge>n. (p, l) \<notin> B \<and> boot_live s' (insert (p, l) B))"
    if "boot_live s B" "0 < n" "ok (boot_alloc s n) = ok (p, s')" for s B n p s'
    using boot_alloc_live [OF that(1,2)] that(3) by auto
qed (auto simp: boot_live_def ok_def)

definition blocks_of :: "nat \<Rightarrow> buddy \<Rightarrow> nat set \<Rightarrow> (nat \<times> nat) set" where
  "blocks_of n b U = (\<lambda>u. (buddy_main b + boff n u, bsize n u)) ` U"

definition heap_live :: "kernel_heap \<Rightarrow> (nat \<times> nat) set \<Rightarrow> bool" where
  "heap_live h B \<longleftrightarrow> lock_val (kh_lock h) = 0 \<and>
     (\<exists>b n U. kh_buddy h = Some b \<and> buddy_rep n b U \<and> B = blocks_of n b U)"

lemma buddy_rep_nodes:
  assumes "buddy_rep n b U"
  shows "alloc_wf n U" "0 < buddy_main b" "buddy_main b + 2 ^ (n + 5) < 2 ^ 64"
proof -
  obtain V where V: "arena_rep n b (U \<union> V)" using assms by (auto simp: buddy_rep_def)
  show "alloc_wf n U" using arena_repD(9) [OF V] unfolding alloc_wf_def by blast
  show "0 < buddy_main b" "buddy_main b + 2 ^ (n + 5) < 2 ^ 64" using arena_repD [OF V] by simp_all
qed

lemma blocks_apart:
  assumes "alloc_wf n U" "u \<in> U" "v \<in> U" "u \<noteq> v"
  shows "block n u \<inter> block n v = {}" "(boff n u, bsize n u) \<noteq> (boff n v, bsize n v)"
proof -
  have uv: "node n u" "node n v" "\<not> below u v" "\<not> below v u" using assms by (auto simp: alloc_wf_def)
  show d: "block n u \<inter> block n v = {}" using block_disjoint uv by blast
  show "(boff n u, bsize n u) \<noteq> (boff n v, bsize n v)"
    using d block_nonempty [of n u] by (auto simp: block_def)
qed

lemma blocks_of_btree [simp]: "blocks_of n (b\<lparr>btree := t\<rparr>) U = blocks_of n b U"
  by (simp add: blocks_of_def)

lemma shift_disjoint:
  "{a..<b} \<inter> {c..<d} = ({} :: nat set) \<Longrightarrow> {k + a..<k + b} \<inter> {k + c..<k + d} = {}"
  unfolding image_add_atLeastLessThan [of k, symmetric] by (simp add: image_Int [symmetric])

lemma heap_disjoint:
  assumes "heap_live h B" "(p, l) \<in> B" "(q, m) \<in> B" "(p, l) \<noteq> (q, m)"
  shows "{p..<p + l} \<inter> {q..<q + m} = {}"
proof -
  obtain b n U where h: "kh_buddy h = Some b" "buddy_rep n b U" "B = blocks_of n b U"
    using assms(1) by (auto simp: heap_live_def)
  obtain u v where uv: "u \<in> U" "v \<in> U" "p = buddy_main b + boff n u" "l = bsize n u"
      "q = buddy_main b + boff n v" "m = bsize n v"
    using assms(2,3) h(3) by (auto simp: blocks_of_def)
  then have "u \<noteq> v" using assms(4) by auto
  then have "block n u \<inter> block n v = {}" using blocks_apart buddy_rep_nodes(1) [OF h(2)] uv(1,2) by blast
  then show ?thesis unfolding uv(3-6) block_def add.assoc by (rule shift_disjoint)
qed

lemma kh_alloc_live:
  assumes "heap_live h B"
  shows "kh_alloc pid h sz = panic OUT_OF_MEMORY \<or>
    (\<exists>p l h'. kh_alloc pid h sz = ok (p, h') \<and> sz \<le> l \<and> (p, l) \<notin> B \<and> heap_live h' (insert (p, l) B))"
proof -
  obtain b n U where h: "lock_val (kh_lock h) = 0" "kh_buddy h = Some b" "buddy_rep n b U"
      "B = blocks_of n b U"
    using assms(1) by (auto simp: heap_live_def)
  obtain l' where l': "spinlock_spin pid (kh_lock h) = Some l'" "lock_val (spinlock_release l') = 0"
    using spin_release [OF h(1)] by blast
  note wf = buddy_rep_nodes [OF h(3)]
  consider j t where "buddy_malloc (Some b) sz = Some (buddy_main b + boff n j, Some (b\<lparr>btree := t\<rparr>))"
      "usable n b U (max 1 sz) j" "j \<notin> U" "buddy_rep n (b\<lparr>btree := t\<rparr>) (insert j U)"
    | "buddy_malloc (Some b) sz = Some (0, Some b)"
    using malloc_rep [OF h(3) refl, of sz] by auto
  then show ?thesis
  proof cases
    case 1
    have "(boff n u, bsize n u) \<noteq> (boff n j, bsize n j)" if "u \<in> U" for u
      using 1(2) that block_nonempty [of n u] by (auto simp: usable_def block_def)
    then have "(buddy_main b + boff n j, bsize n j) \<notin> B"
      unfolding h(4) blocks_of_def by force
    moreover have "sz \<le> bsize n j" using 1(2) by (simp add: usable_def)
    moreover have "buddy_main b + boff n j \<noteq> 0" using wf(2) by simp
    moreover define h' where "h' = h\<lparr>kh_buddy := Some (b\<lparr>btree := t\<rparr>), kh_lock := spinlock_release l',
      kh_bytes_left := sub64 (kh_bytes_left h) sz, allocations := add64 (allocations h) 1\<rparr>"
    moreover have "insert (buddy_main b + boff n j, bsize n j) B = blocks_of n (b\<lparr>btree := t\<rparr>) (insert j U)"
      by (simp add: h(4) blocks_of_def)
    then have "heap_live h' (insert (buddy_main b + boff n j, bsize n j) B)"
      using 1(4) l'(2) unfolding heap_live_def h'_def by auto
    moreover have "kh_alloc pid h sz = ok (buddy_main b + boff n j, h')"
      using 1(1) l'(1) h(2) wf(2) by (simp add: kh_alloc_def h'_def)
    ultimately show ?thesis by blast
  next
    case 2
    then show ?thesis using l' h(2) by (simp add: kh_alloc_def)
  qed
qed

lemma kh_free_live:
  assumes "heap_live h B" "(p, l) \<in> B"
  shows "\<exists>h'. kh_free pid h p = ok h' \<and> heap_live h' (B - {(p, l)})"
proof -
  obtain b n U where h: "lock_val (kh_lock h) = 0" "kh_buddy h = Some b" "buddy_rep n b U"
      "B = blocks_of n b U"
    using assms(1) by (auto simp: heap_live_def)
  obtain l' where l': "spinlock_spin pid (kh_lock h) = Some l'" "lock_val (spinlock_release l') = 0"
    using spin_release [OF h(1)] by blast
  obtain u where u: "u \<in> U" "p = buddy_main b + boff n u" "l = bsize n u"
    using assms(2) h(4) by (auto simp: blocks_of_def)
  obtain t where t: "buddy_free (Some b) p = ok (Some (b\<lparr>btree := t\<rparr>))"
      "buddy_rep n (b\<lparr>btree := t\<rparr>) (U - {u})"
    using free_rep [OF h(3) u(1) block_nonempty] u(2) by blast
  have "B - {(p, l)} = blocks_of n b (U - {u})"
    using blocks_apart(2) [OF buddy_rep_nodes(1) [OF h(3)] u(1)] u
    unfolding h(4) blocks_of_def by fastforce
  then have "heap_live (h\<lparr>kh_buddy := Some (b\<lparr>btree := t\<rparr>), allocations := sub64 (allocations h) 1,
      kh_lock := spinlock_release l'\<rparr>) (B - {(p, l)})"
    using t(2) l'(2) unfolding heap_live_def by (auto intro!: exI [of _ "b\<lparr>btree := t\<rparr>"])
  then show ?thesis using l'(1) h(2) t(1) by (simp add: kh_free_def)
qed

interpretation heap: block_allocator "kh_alloc pid" "kh_free pid" heap_live for pid
proof unfold_locales
  show "{p..<p + l} \<inter> {q..<q + m} = {}"
    if "heap_live s B" "(p, l) \<in> B" "(q, m) \<in> B" "(p, l) \<noteq> (q, m)" for s B p l q m
    using heap_disjoint that by blast
  show "p \<noteq> 0" if "heap_live s B" "(p, l) \<in> B" for s B p l
    using that buddy_rep_nodes(2) by (auto simp: heap_live_def blocks_of_def)
  show "kh_alloc pid s sz \<noteq> None" if "heap_live s B" for s B sz
    using kh_alloc_live [OF that, of pid sz] by (auto simp: ok_def panic_def)
  show "p = 0 \<and> heap_live s' B \<or> (\<exists>l\<ge>n. (p, l) \<notin> B \<and> heap_live s' (insert (p, l) B))"
    if "heap_live s B" "0 < n" "kh_alloc pid s n = ok (p, s')" for s B n p s'
    using kh_alloc_live [OF that(1), of pid n] that(3) by auto
  show "\<exists>s'. kh_free pid s p = ok s' \<and> heap_live s' (B - {(p, l)})"
    if "heap_live s B" "(p, l) \<in> B" for s B p l
    by (rule kh_free_live [OF that])
qed

definition kalloc_live :: "kalloc \<Rightarrow> (nat \<times> nat) set \<Rightarrow> bool" where
  "kalloc_live k B \<longleftrightarrow> (case k of None \<Rightarrow> False | Some (Boot a) \<Rightarrow> boot_live a B
     | Some (Heap h) \<Rightarrow> heap_live h B)"

lemma kalloc_live_cases:
  assumes "kalloc_live k B"
  obtains a where "k = Some (Boot a)" "boot_live a B" | h where "k = Some (Heap h)" "heap_live h B"
  using assms by (auto simp: kalloc_live_def split: option.splits memory_allocator.splits)

interpretation kalloc: block_allocator "kalloc_alloc pid" "kalloc_free pid" kalloc_live for pid
proof unfold_locales
  show "{p..<p + l} \<inter> {q..<q + m} = {}"
    if "kalloc_live s B" "(p, l) \<in> B" "(q, m) \<in> B" "(p, l) \<noteq> (q, m)" for s B p l q m
    using that(1) boot.live_disjoint [OF _ that(2-4)] heap.live_disjoint [OF _ that(2-4)]
    by (cases rule: kalloc_live_cases) blast+
  show "p \<noteq> 0" if "kalloc_live s B" "(p, l) \<in> B" for s B p l
    using that(1) boot.live_nonnull [OF _ that(2)] heap.live_nonnull [OF _ that(2)]
    by (cases rule: kalloc_live_cases) blast+
  show "kalloc_alloc pid s sz \<noteq> None" if "kalloc_live s B" for s B sz
    using that
  proof (cases rule: kalloc_live_cases)
    case (2 h)
    then show ?thesis using kh_alloc_live [OF 2(2), of pid sz]
      by (auto simp: kalloc_alloc_def ok_def panic_def)
  qed (simp add: kalloc_alloc_def ok_def split: prod.splits)
  show "p = 0 \<and> kalloc_live s' B \<or> (\<exists>l\<ge>n. (p, l) \<notin> B \<and> kalloc_live s' (insert (p, l) B))"
    if "kalloc_live s B" "0 < n" "kalloc_alloc pid s n = ok (p, s')" for s B n p s'
    using that(1)
  proof (cases rule: kalloc_live_cases)
    case (1 a)
    then show ?thesis using boot_alloc_live [OF 1(2) that(2)] that(3)
      by (auto simp: kalloc_alloc_def kalloc_live_def split: prod.splits)
  next
    case (2 h)
    have "\<exists>h'. kh_alloc pid h n = ok (p, h') \<and> s' = Some (Heap h')"
      using kh_alloc_live [OF 2(2), of pid n] that(3) 2(1) by (auto simp: kalloc_alloc_def)
    then obtain h' where h': "kh_alloc pid h n = ok (p, h')" "s' = Some (Heap h')" by blast
    then show ?thesis using heap.alloc_live [OF 2(2) that(2) h'(1)] by (simp add: kalloc_live_def)
  qed
  show "\<exists>s'. kalloc_free pid s p = ok s' \<and> kalloc_live s' (B - {(p, l)})"
    if "kalloc_live s B" "(p, l) \<in> B" for s B p l
    using that(1)
  proof (cases rule: kalloc_live_cases)
    case (1 a)
    then show ?thesis using boot.free_live [OF 1(2) that(2)] by (auto simp: kalloc_free_def kalloc_live_def)
  next
    case (2 h)
    then show ?thesis using kh_free_live [OF 2(2) that(2), of pid]
      by (auto simp: kalloc_free_def kalloc_live_def)
  qed
qed

subsection \<open>Properties\<close>

text \<open>C6: whatever a client asks of the global allocator, with the boot allocator or the kernel
  heap behind it, every call returns or panics, and the blocks it holds at any time are non-null
  and never overlap.\<close>

theorem kalloc_client_safe:
  assumes "kalloc_live k B" "\<forall>n. Get n \<in> set rs \<longrightarrow> 0 < n"
  shows "serve (kalloc_alloc pid) (kalloc_free pid) k [] rs \<noteq> None \<and>
    (\<forall>k' held. serve (kalloc_alloc pid) (kalloc_free pid) k [] rs = ok (k', held) \<longrightarrow>
      apart held \<and> (\<forall>i<length held. fst (held ! i) \<noteq> 0))"
  using kalloc.serve_apart [OF assms, of pid] by blast

text \<open>A boot allocator with room, as \<open>kernel_main\<close> creates it.\<close>

lemma example_boot: "boot_live (boot_init 4096 8192) {}"
  by (simp add: boot_live_def boot_init_def)

theorem kalloc_client_safe_witness:
  "\<exists>k' held. serve (kalloc_alloc 0) (kalloc_free 0) (Some (Boot (boot_init 4096 8192))) []
      [Get 16, Get 32, Put 1, Get 8] = ok (k', held) \<and> apart held"
proof -
  have live: "kalloc_live (Some (Boot (boot_init 4096 8192))) {}"
    by (simp add: kalloc_live_def example_boot)
  let ?r = "serve (kalloc_alloc 0) (kalloc_free 0) (Some (Boot (boot_init 4096 8192))) []
      [Get 16, Get 32, Put 1, Get 8]"
  have "\<exists>k' held. ?r = ok (k', held)"
    by (simp add: kalloc_alloc_def kalloc_free_def boot_alloc_def boot_init_def boot_free_def)
  then show ?thesis using kalloc_client_safe [OF live, of "[Get 16, Get 32, Put 1, Get 8]" 0] by auto
qed

lemma kh_init_spec:
  assumes "boot_live a B" "boot_ptr a mod 8 = 0" "boot_ptr a \<noteq> s"
    and "s \<noteq> 0" "s mod 8 = 0" "s + 64 \<le> e" "e \<le> s + 2 ^ 36" "s + 2 * (e - s) \<le> 2 ^ 64"
    and "buddy_sizeof (e - s) < 2 ^ 32" "int (buddy_sizeof (e - s)) \<le> boot_bytes_left a"
  shows "\<exists>h k. kh_init pid h0 old s e (Some (Boot a)) = ok (h, k) \<and> heap_live h {} \<and>
    kh_ptr h = s \<and> kh_bytes_left h = e - s \<and>
    (\<exists>b n. kh_buddy h = Some b \<and> buddy_rep n b {} \<and> memory_size b = (e - s) - (e - s) mod 64)"
proof -
  define msize where "msize = e - s"
  have ms: "64 \<le> msize" "msize \<le> 2 ^ 36" "s + 2 * msize \<le> 2 ^ 64" "e = s + msize"
    using assms(6-8) by (simp_all add: msize_def)
  define trimmed where "trimmed = msize - msize mod 64"
  have "64 dvd trimmed" "0 < trimmed"
    using ms(1) mod_less_divisor [of 64 msize] by (simp_all add: trimmed_def dvd_minus_mod)
  then have tr: "64 \<le> trimmed" "trimmed mod 64 = 0" "trimmed \<le> msize"
    by (simp_all add: dvd_imp_le trimmed_def)
  then obtain n where n: "mem_ok n trimmed" using mem_ok_exists [of trimmed] ms(2) by auto
  have "s + 2 ^ (n + 5) < 2 ^ 64" using mem_okD(6) [OF n] tr(3) ms(3) by linarith
  moreover have "boot_ptr a \<noteq> 0" "msize < 2 ^ 64" using assms(1) ms(2) by (simp_all add: boot_live_def)
  ultimately obtain b where b: "buddy_init old (boot_ptr a) s msize = Some (Some b)" "buddy_rep n b {}" "memory_size b = trimmed"
    using init_buddy_rep [of "boot_ptr a" s msize n old] assms(2-5) n unfolding trimmed_def by blast
  have sub: "sub64 e s = msize" using ms assms(7) by (simp add: sub64_small)
  have "kalloc_alloc pid (Some (Boot a)) (buddy_sizeof msize mod 2 ^ 32)
      = ok (boot_ptr a, Some (Boot (snd (boot_alloc a (buddy_sizeof msize)))))"
    using assms(9,10) by (simp add: kalloc_alloc_def boot_alloc_def msize_def [symmetric])
  then show ?thesis
    using b by (auto simp: kh_init_def Let_def sub heap_live_def blocks_of_def SPLCK_UNLOCKED_def
        msize_def [symmetric] trimmed_def)
qed

text \<open>The constructor of the kernel heap, with the boot allocator in use and enough memory
  for the metadata, yields a heap with nothing handed out, in which allocation starts.\<close>

theorem kh_init_ready:
  assumes "boot_live a B" "boot_ptr a mod 8 = 0" "boot_ptr a \<noteq> s"
    and "s \<noteq> 0" "s mod 8 = 0" "s + 64 \<le> e" "e \<le> s + 2 ^ 36" "s + 2 * (e - s) \<le> 2 ^ 64"
    and "buddy_sizeof (e - s) < 2 ^ 32" "int (buddy_sizeof (e - s)) \<le> boot_bytes_left a"
  shows "\<exists>h k. kh_init pid h0 old s e (Some (Boot a)) = ok (h, k) \<and> heap_live h {} \<and>
    kh_ptr h = s \<and> kh_bytes_left h = e - s"
  using kh_init_spec [OF assms] by blast

text \<open>The order of a 128-byte arena is 2: its metadata takes 98 bytes.\<close>

lemma example_sizeof: "buddy_sizeof 128 = 98"
proof -
  have "row_start 2 2 = 4" by (simp add: row_start_def eval_nat_numeral)
  then have "buddy_tree_sizeof 2 = 24 + 2 + 32"
    using tree_sizeof_eq [of 2] by (simp add: order_ok_def padded_bytes_def bits_bytes_def)
  moreover have "buddy_tree_order_for_memory 128 = 2"
    using mem_okD(9) [OF example_mem_ok(1)] .
  ultimately show ?thesis by (simp add: buddy_sizeof_def BUDDY_ALLOC_ALIGN_def add64_small)
qed

definition blank_heap :: kernel_heap where
  "blank_heap = \<lparr>kh_ptr = 0, kh_bytes_left = 0, kh_lock = \<lparr>lock_val = 7, ownerPid = 0\<rparr>,
     kh_buddy = None, allocations = 0\<rparr>"

theorem kh_init_ready_witness:
  "\<exists>h k. kh_init 0 blank_heap blank_buddy 65536 65664 (Some (Boot (boot_init 4096 8192))) = ok (h, k) \<and>
     heap_live h {}"
  using kh_init_ready [OF example_boot, of 65536 65664 0 blank_heap blank_buddy] example_sizeof
  by (auto simp: boot_init_def)

lemma kh_alloc_spec:
  assumes "lock_val (kh_lock h) = 0" "kh_buddy h = Some b" "buddy_rep n b U"
  shows "if \<exists>j. usable n b U (max 1 sz) j
    then \<exists>p h'. kh_alloc pid h sz = ok (p, h') \<and> p \<noteq> 0 \<and> lock_val (kh_lock h') = 0 \<and>
      allocations h' = add64 (allocations h) 1 \<and> kh_bytes_left h' = sub64 (kh_bytes_left h) sz
    else kh_alloc pid h sz = panic OUT_OF_MEMORY"
proof -
  have l: "spinlock_spin pid (kh_lock h) \<noteq> None" using assms(1) by (simp add: spinlock_spin_def)
  then obtain l' where l': "spinlock_spin pid (kh_lock h) = Some l'" by blast
  note wf = buddy_rep_nodes [OF assms(3)]
  from malloc_rep [OF assms(3) refl, of sz] show ?thesis
  proof (elim disjE exE conjE)
    fix j b' assume "buddy_malloc (Some b) sz = Some (buddy_main b + boff n j, Some b')"
      "usable n b U (max 1 sz) j"
    then show ?thesis using l' wf(2) assms(2)
      by (auto simp: kh_alloc_def spinlock_release_def SPLCK_UNLOCKED_def)
  next
    assume "buddy_malloc (Some b) sz = Some (0, Some b)" "\<nexists>j. usable n b U (max 1 sz) j"
    then show ?thesis using l' assms(2) by (simp add: kh_alloc_def)
  qed
qed

text \<open>The kernel heap panics exactly when no block of the arena can serve the request;
  otherwise it counts the allocation and gives the lock back.\<close>

theorem kh_alloc_panics_iff_exhausted:
  assumes "lock_val (kh_lock h) = 0" "kh_buddy h = Some b" "buddy_rep n b U"
  shows "if \<exists>j. usable n b U (max 1 sz) j
    then \<exists>p h'. kh_alloc pid h sz = ok (p, h') \<and> p \<noteq> 0 \<and> lock_val (kh_lock h') = 0 \<and>
      allocations h' = add64 (allocations h) 1 \<and> kh_bytes_left h' = sub64 (kh_bytes_left h) sz
    else kh_alloc pid h sz = panic OUT_OF_MEMORY"
  by (rule kh_alloc_spec [OF assms])

theorem kh_alloc_panics_iff_exhausted_witness:
  "\<exists>b. buddy_rep 2 b {} \<and> kh_alloc 3 (blank_heap\<lparr>kh_lock := \<lparr>lock_val = 0, ownerPid = 0\<rparr>, kh_buddy := Some b\<rparr>) 129
     = panic OUT_OF_MEMORY"
proof -
  obtain b where b: "buddy_rep 2 b {}" "memory_size b = 128" using example_arena by blast
  have "\<not> usable 2 b {} 129 j" for j using b(2) by (auto simp: usable_def)
  then show ?thesis
    using kh_alloc_panics_iff_exhausted [of "blank_heap\<lparr>kh_lock := \<lparr>lock_val = 0, ownerPid = 0\<rparr>, kh_buddy := Some b\<rparr>" b 2 "{}" 129 3]
      b(1) by (intro exI [of _ b]) simp
qed

end
