(* ===== verification/Boot.thy ===== *)
theory Boot
  imports StartUp Drivers Display Alloc BuddyWalk
begin

text \<open>
  \<open>kernel_main\<close> (\<open>src/Kernel.cpp\<close>) as a whole: the boot allocator, the drivers, the console, the kernel
  heap, the frame buffer, the scheduler's first tasks, and the call that wakes the other cores; and what
  the kernel heap prints before it panics (\<open>src/mem/KernelHeapAllocator.cpp\<close>).

  What the linker script and the compiler decide are parameters: the bounds of the two regions of memory,
  the address of the mailbox buffer, and \<open>object_sizes\<close>, the sizes of all that is made with \<open>new\<close> before
  the heap object: the five drivers, the buffer of the vector that holds them, the locks of the timer and
  of the console. They are taken from the boot allocator in one go, since only its counters depend on
  them. The tasks, stacks, queues and locks made after the frame buffer are objects of \<open>firmware\<close>, as in
  \<open>StartUp\<close>. \<open>initSchedLock\<close> makes a lock that nothing uses; it and the masking of interrupts are left out.
\<close>

subsection \<open>Parameters and state\<close>

record board =
  boot_alloc_start :: nat
  boot_alloc_end :: nat
  heap_start :: nat
  heap_end :: nat
  object_sizes :: "nat list"
  heap_object_size :: nat
  current_el :: nat
  mbox_buffer :: nat
  init_core :: nat
  driver_fresh :: "nat \<Rightarrow> driver"

record machine =
  m_kernel :: kernel
  m_drivers :: "driver vec"
  m_alloc :: kalloc
  m_display :: display
  m_objects :: nat
  m_memory :: "nat \<Rightarrow> nat"

subsection \<open>Running out of memory\<close>

primrec report_queues :: "nat list \<Rightarrow> device \<Rightarrow> nat \<Rightarrow> kernel \<Rightarrow> kernel krun" where
  "report_queues [] dev i k = ret k"
| "report_queues (p # ps) dev i k =
     thn (if array_list_getSize (runningQ k i p) > 0
          then say dev (''RunninQ[%d] Core%d: %d'' @ nl) [num p, num i, num (array_list_getSize (runningQ k i p))] k
          else ret k) (report_queues ps dev i)"

primrec report_cores :: "nat list \<Rightarrow> device \<Rightarrow> kernel \<Rightarrow> kernel krun" where
  "report_cores [] dev k = ret k"
| "report_cores (i # is) dev k =
     thn (say dev (''#################'' @ nl @ ''Core%d'' @ nl) [num i] k) (\<lambda>k.
     thn (report_queues [0..<PRIORITIES] dev i k) (report_cores is dev))"

definition report_register :: "device \<Rightarrow> string \<Rightarrow> nat \<Rightarrow> kernel \<Rightarrow> kernel krun" where
  "report_register dev f reg k =
     (let (v, h) = mmio_read dev reg (kernel_io k) in say dev f [Num (uint v)] (k\<lparr>kernel_io := h\<rparr>))"

definition out_of_memory :: "device \<Rightarrow> nat \<Rightarrow> nat \<Rightarrow> kernel \<Rightarrow> 'a krun" where
  "out_of_memory dev core allocs k =
     thn (say dev ''ERROR - Allocations: %d'' [num allocs] k) (\<lambda>k.
     thn (say dev (nl @ nl) [] k) (\<lambda>k.
     thn (report_cores [0..<NUM_CORES] dev k) (\<lambda>k.
     thn (say dev (''SleepingQ: %d'' @ nl @ nl) [num (array_list_getSize (sleepingQ k))] k) (\<lambda>k.
     thn (say dev (nl @ nl) [] k) (\<lambda>k.
     thn (read_time dev k) (\<lambda>(c, k).
     thn (say dev (''System Timer Counter: %x'' @ nl) [num c] k) (\<lambda>k.
     thn (report_register dev (''System Timer Lo: %x'' @ nl) timer_counter_lo k) (\<lambda>k.
     thn (report_register dev (''System Timer Hi: %x'' @ nl) timer_counter_hi k) (\<lambda>k.
     thn (report_register dev (''System Timer Compare0: %x'' @ nl) timer_compare0 k) (\<lambda>k.
     thn (say dev (''Allocations: %d'' @ nl) [num allocs] k) (\<lambda>k.
     thn (say dev (nl @ nl) [] k) (\<lambda>k.
     core_panic dev core OUT_OF_MEMORY k))))))))))))"

text \<open>A call of an allocator, as part of the kernel.\<close>

definition allocating :: "device \<Rightarrow> nat \<Rightarrow> kalloc \<Rightarrow> 'a outcome \<Rightarrow> kernel \<Rightarrow> 'a krun" where
  "allocating dev core al m k =
     (case m of
        None \<Rightarrow> waiting
      | Some (Inl e) \<Rightarrow> out_of_memory dev core (case al of Some (Heap h) \<Rightarrow> kernel_heap.allocations h | _ \<Rightarrow> 0) k
      | Some (Inr x) \<Rightarrow> ret x)"

subsection \<open>The steps of kernel_main\<close>

primrec new_objects :: "nat \<Rightarrow> nat list \<Rightarrow> kalloc \<Rightarrow> kalloc outcome" where
  "new_objects me [] al = ok al"
| "new_objects me (sz # szs) al = andthen (operator_new me al sz) (\<lambda>(p, al). new_objects me szs al)"

definition boot_drivers :: "device \<Rightarrow> board \<Rightarrow> machine \<Rightarrow> (kernel, machine) run" where
  "boot_drivers dev b s =
     (let k = m_kernel s;
          al = setAllocator (m_alloc s) (Boot (boot_init (boot_alloc_start b) (boot_alloc_end b)))
      in thn (allocating dev 0 al (new_objects (pid (current 0 k)) (object_sizes b) al) k) (\<lambda>al.
         thn (of_option (kernel_drivers dev (pid (current 0 k)) (driver_fresh b)
                \<lparr>drivers = m_drivers s, m_console = kernel_con k, m_io = kernel_io k\<rparr>)) (\<lambda>m.
         ret (s\<lparr>m_kernel := k\<lparr>kernel_con := m_console m, kernel_io := m_io m\<rparr>, m_drivers := drivers m, m_alloc := al\<rparr>))))"

definition hashes :: string where "hashes = replicate 44 CHR ''#''"

definition boot_console :: "device \<Rightarrow> board \<Rightarrow> kernel \<Rightarrow> kernel krun" where
  "boot_console dev b k =
     thn (say_locked dev 0 (nl @ nl @ nl @ nl @ nl @ nl @ hashes @ nl) []
            (k\<lparr>kernel_con := setKernelConsole (kernel_con k)\<rparr>)) (\<lambda>k.
     thn (say_locked dev 0 (''Current EL: %u'' @ nl) [num (current_el b)] k) (\<lambda>k.
     thn (say_locked dev 0 (''BootAlloc Start: 0x%x BootAlloc end: 0x%x'' @ nl)
            [num (boot_alloc_start b), num (boot_alloc_end b)] k) (\<lambda>k.
     say_locked dev 0 (''Heap Start: 0x%x Heap end: 0x%x'' @ nl) [num (heap_start b), num (heap_end b)] k)))"

text \<open>\<open>h0\<close> and \<open>old\<close> are what the new heap object and the new metadata find in memory.\<close>

definition boot_heap :: "device \<Rightarrow> board \<Rightarrow> kernel_heap \<Rightarrow> buddy \<Rightarrow> kalloc \<Rightarrow> kernel \<Rightarrow> (kalloc \<times> kernel) krun" where
  "boot_heap dev b h0 old al k =
     thn (allocating dev 0 al (andthen (operator_new (pid (current 0 k)) al (heap_object_size b)) (\<lambda>(p, al).
            kh_init (pid (current 0 k)) h0 old (heap_start b) (heap_end b) al)) k) (\<lambda>(h, al).
     thn (of_option (kh_freeSpace h)) (\<lambda>free.
     thn (say_locked dev 0 (''Free Mem Bytes: %d'' @ nl) [num free] k) (\<lambda>k.
     ret (setAllocator al (Heap h), k))))"

primrec list_drivers :: "driver list \<Rightarrow> device \<Rightarrow> kernel \<Rightarrow> kernel krun" where
  "list_drivers [] dev k = ret k"
| "list_drivers (d # ds) dev k =
     thn (say_locked dev 0 (''Driver %s'' @ nl) [Str (Some (getName d))] k) (list_drivers ds dev)"

definition frame_memory :: "device \<Rightarrow> kalloc \<Rightarrow> 32 word \<Rightarrow> kernel \<Rightarrow> (kalloc \<times> kernel) krun" where
  "frame_memory dev al n k =
     thn (allocating dev 0 al (kalloc_alloc (pid (current 0 k)) al (unat n)) k) (\<lambda>(p, al). ret (al, k))"

definition boot_display :: "device \<Rightarrow> board \<Rightarrow> firmware \<Rightarrow> machine \<Rightarrow> (kernel, machine) run" where
  "boot_display dev b f s =
     thn (FBInit dev 0 (mbox_buffer b) (array_fresh f) (sorted_garbage f) (frame_memory dev (m_alloc s))
            (m_display s) (m_kernel s)) (\<lambda>((d, al), k).
     ret (s\<lparr>m_kernel := k, m_display := d, m_alloc := al\<rparr>))"

definition start_other_cores :: "nat \<Rightarrow> (nat \<Rightarrow> nat) \<Rightarrow> (nat \<Rightarrow> nat)" where
  "start_other_cores func mem = core_start 3 func (core_start 2 func (core_start 1 func mem))"

definition boot_scheduler :: "device \<Rightarrow> board \<Rightarrow> firmware \<Rightarrow> machine \<Rightarrow> (kernel, machine) run" where
  "boot_scheduler dev b f s =
     thn (say_locked dev 0 (''Timer init on core: %d'' @ nl) [num 0] (m_kernel s)) (\<lambda>k.
     thn (say_locked dev 0 (hashes @ nl) [] k) (\<lambda>k.
       let (n, k) = kernel_main_tasks f (m_objects s, k)
       in thn (say_locked dev 0 (''All cores UP!'' @ nl) [] k) (\<lambda>k.
          thn (of_option (WaitMicroT1 dev 100000 (kernel_io k))) (\<lambda>h.
          ret (s\<lparr>m_kernel := k\<lparr>kernel_io := h\<rparr>, m_objects := n,
                 m_memory := start_other_cores (init_core b) (m_memory s)\<rparr>)))))"

text \<open>Everything before \<open>_hang_forever\<close>, and the whole.\<close>

definition kernel_boot :: "device \<Rightarrow> board \<Rightarrow> firmware \<Rightarrow> kernel_heap \<Rightarrow> buddy \<Rightarrow> machine \<Rightarrow> (kernel, machine) run" where
  "kernel_boot dev b f h0 old s =
     thn (boot_drivers dev b s) (\<lambda>s.
     thn (boot_console dev b (m_kernel s)) (\<lambda>k.
     thn (boot_heap dev b h0 old (m_alloc s) k) (\<lambda>(al, k).
     thn (say_locked dev 0 (''List of loaded drivers:'' @ nl) [] k) (\<lambda>k.
     thn (list_drivers (vec_elements (m_drivers s)) dev k) (\<lambda>k.
     thn (boot_display dev b f (s\<lparr>m_kernel := k, m_alloc := al\<rparr>)) (boot_scheduler dev b f))))))"

definition kernel_main :: "device \<Rightarrow> board \<Rightarrow> firmware \<Rightarrow> kernel_heap \<Rightarrow> buddy \<Rightarrow> machine \<Rightarrow> (kernel, unit) run" where
  "kernel_main dev b f h0 old s = thn (kernel_boot dev b f h0 old s) (\<lambda>s. hung (m_kernel s))"

subsection \<open>Printing leaves the rest of the kernel alone\<close>

definition printed :: "kernel \<Rightarrow> kernel \<Rightarrow> bool" where
  "printed k k' \<longleftrightarrow> k' = k\<lparr>kernel_con := kernel_con k', kernel_io := kernel_io k'\<rparr> \<and> console_free k'"

lemma printed_trans:
  assumes "printed k k1" "printed k1 k2"
  shows "printed k k2"
proof -
  have "k1\<lparr>kernel_con := c, kernel_io := h\<rparr> = k\<lparr>kernel_con := c, kernel_io := h\<rparr>"
    if "k1 = k\<lparr>kernel_con := c', kernel_io := h'\<rparr>" for c h c' h' using that by simp
  then have "k2 = k\<lparr>kernel_con := kernel_con k2, kernel_io := kernel_io k2\<rparr>"
    using assms unfolding printed_def by metis
  then show ?thesis using assms(2) by (simp add: printed_def)
qed

lemma printedD: "printed k k' \<Longrightarrow> console_free k'"
  by (simp add: printed_def)

lemma say_locked_pieces:
  assumes "accepts dev" "console_free k" "\<forall>p \<in> set ps. piece_ok p"
    and "f = concat (map piece_format ps)" "args = concat (map piece_args ps)"
  shows "\<exists>k'. say_locked dev core f args k = ret k' \<and> printed k k'"
proof -
  obtain con h where "print dev (pid (current core k)) (kernel_con k) f args (kernel_io k) = Some (con, h)"
      "\<forall>l. console_lock con = Some l \<longrightarrow> lock_val l = 0" "console_set con"
    using print_template [OF assms(1) _ assms(3) _ assms(4,5), of "kernel_con k" "kernel_io k" "pid (current core k)"] assms(2)
    by (auto simp: console_free_def)
  then show ?thesis by (auto simp: say_locked_def printed_def console_free_def)
qed

lemma say_locked_text:
  "accepts dev \<Longrightarrow> console_free k \<Longrightarrow> CHR ''%'' \<notin> set f \<Longrightarrow> \<exists>k'. say_locked dev core f [] k = ret k' \<and> printed k k'"
  by (rule say_locked_pieces [where ps = "[Lit f]"]) simp_all

lemma boot_console_prints:
  assumes "accepts dev"
  shows "\<exists>k'. boot_console dev b k = ret k' \<and> printed (k\<lparr>kernel_con := setKernelConsole (kernel_con k)\<rparr>) k'"
proof -
  let ?k = "k\<lparr>kernel_con := setKernelConsole (kernel_con k)\<rparr>"
  have free: "console_free ?k"
    by (simp add: console_free_def setKernelConsole_def spinlock_init_def SPLCK_UNLOCKED_def)
  obtain k1 where k1: "say_locked dev 0 (nl @ nl @ nl @ nl @ nl @ nl @ hashes @ nl) [] ?k = ret k1" "printed ?k k1"
    using say_locked_text [OF assms free, of "nl @ nl @ nl @ nl @ nl @ nl @ hashes @ nl" 0] by (auto simp: hashes_def)
  obtain k2 where k2: "say_locked dev 0 (''Current EL: %u'' @ nl) [num (current_el b)] k1 = ret k2" "printed k1 k2"
    using say_locked_pieces [OF assms printedD [OF k1(2)],
        where ps = "[Lit ''Current EL: '', Conv False 0 CHR ''u'' (num (current_el b)), Lit nl]", OF _ refl refl] by auto
  obtain k3 where k3: "say_locked dev 0 (''BootAlloc Start: 0x%x BootAlloc end: 0x%x'' @ nl)
            [num (boot_alloc_start b), num (boot_alloc_end b)] k2 = ret k3" "printed k2 k3"
    using say_locked_pieces [OF assms printedD [OF k2(2)],
        where ps = "[Lit ''BootAlloc Start: 0x'', Conv False 0 CHR ''x'' (num (boot_alloc_start b)),
          Lit '' BootAlloc end: 0x'', Conv False 0 CHR ''x'' (num (boot_alloc_end b)), Lit nl]", OF _ refl refl] by auto
  obtain k4 where k4: "say_locked dev 0 (''Heap Start: 0x%x Heap end: 0x%x'' @ nl)
            [num (heap_start b), num (heap_end b)] k3 = ret k4" "printed k3 k4"
    using say_locked_pieces [OF assms printedD [OF k3(2)],
        where ps = "[Lit ''Heap Start: 0x'', Conv False 0 CHR ''x'' (num (heap_start b)),
          Lit '' Heap end: 0x'', Conv False 0 CHR ''x'' (num (heap_end b)), Lit nl]", OF _ refl refl] by auto
  have "printed ?k k4"
    by (rule printed_trans [OF printed_trans [OF printed_trans [OF k1(2) k2(2)] k3(2)] k4(2)])
  then show ?thesis using k1(1) k2(1) k3(1) k4(1) by (simp add: boot_console_def)
qed

lemma list_drivers_prints:
  assumes "accepts dev" "console_free k"
  shows "\<exists>k'. list_drivers ds dev k = ret k' \<and> printed k k'"
  using assms(2)
proof (induction ds arbitrary: k)
  case Nil
  then show ?case by (simp add: printed_def)
next
  case (Cons d ds)
  obtain k1 where k1: "say_locked dev 0 (''Driver %s'' @ nl) [Str (Some (getName d))] k = ret k1" "printed k k1"
    using say_locked_pieces [OF assms(1) Cons.prems,
        where ps = "[Lit ''Driver '', Conv False 0 CHR ''s'' (Str (Some (getName d))), Lit nl]", OF _ refl refl] by auto
  obtain k2 where "list_drivers ds dev k1 = ret k2" "printed k1 k2" using Cons.IH [OF printedD [OF k1(2)]] by blast
  then show ?case using k1 printed_trans by auto
qed

subsection \<open>Memory while booting\<close>

lemma new_objects_boot:
  assumes "int (sum_list szs) \<le> boot_bytes_left a" "sum_list szs < 2 ^ 32" "int (boot_ptr a) + boot_bytes_left a < 2 ^ 64"
  shows "new_objects me szs (Some (Boot a)) = ok (Some (Boot (a\<lparr>boot_bytes_left := boot_bytes_left a - int (sum_list szs),
    boot_ptr := boot_ptr a + sum_list szs\<rparr>)))"
  using assms
proof (induction szs arbitrary: a)
  case (Cons sz szs)
  have sz: "sz mod 2 ^ 32 = sz" "int sz \<le> boot_bytes_left a" using Cons.prems(1,2) by simp_all
  have "int (boot_ptr a + sz) < int (2 ^ 64)" using Cons.prems(3) sz(2) by simp
  then have sum: "add64 (boot_ptr a) sz = boot_ptr a + sz" by (simp add: add64_small del: of_nat_add)
  let ?a = "a\<lparr>boot_bytes_left := boot_bytes_left a - int sz, boot_ptr := boot_ptr a + sz\<rparr>"
  have "operator_new me (Some (Boot a)) sz = ok (boot_ptr a, Some (Boot ?a))"
    using sz sum by (simp add: operator_new_def kalloc_alloc_def boot_alloc_def)
  then show ?case using Cons.IH [of ?a] Cons.prems by (simp add: algebra_simps)
qed simp

definition used_before_heap :: "board \<Rightarrow> nat" where
  "used_before_heap b = sum_list (object_sizes b) + heap_object_size b"

definition board_ok :: "board \<Rightarrow> bool" where
  "board_ok b \<longleftrightarrow> 0 < boot_alloc_start b \<and> boot_alloc_start b \<le> boot_alloc_end b \<and> boot_alloc_end b < 2 ^ 64 \<and>
     (boot_alloc_start b + used_before_heap b) mod 8 = 0 \<and> used_before_heap b < 2 ^ 32 \<and>
     buddy_sizeof (heap_end b - heap_start b) < 2 ^ 32 \<and>
     boot_alloc_start b + used_before_heap b + buddy_sizeof (heap_end b - heap_start b) \<le> boot_alloc_end b \<and>
     heap_start b \<noteq> 0 \<and> heap_start b mod 8 = 0 \<and> boot_alloc_start b + used_before_heap b \<noteq> heap_start b \<and>
     heap_start b + (2 ^ 24 + 64) \<le> heap_end b \<and> heap_end b \<le> heap_start b + 2 ^ 36 \<and>
     heap_start b + 2 * (heap_end b - heap_start b) \<le> 2 ^ 64"

text \<open>A heap with nothing handed out that has room for a block of 16 MiB.\<close>

definition roomy :: "kernel_heap \<Rightarrow> bool" where
  "roomy h \<longleftrightarrow> lock_val (kh_lock h) = 0 \<and> (\<exists>b n. kh_buddy h = Some b \<and> buddy_rep n b {} \<and> 2 ^ 24 \<le> memory_size b)"

lemma boot_heap_ready:
  assumes "accepts dev" "console_free k" "board_ok b"
    and a: "boot_ptr a = boot_alloc_start b + sum_list (object_sizes b)"
      "boot_bytes_left a = int (boot_alloc_end b) - int (boot_alloc_start b + sum_list (object_sizes b))"
  shows "\<exists>h k'. boot_heap dev b h0 old (Some (Boot a)) k = ret (Some (Heap h), k') \<and> printed k k' \<and> roomy h"
proof -
  note ok = assms(3) [unfolded board_ok_def used_before_heap_def]
  let ?me = "pid (current 0 k)" and ?n = "heap_object_size b"
  let ?a = "a\<lparr>boot_bytes_left := boot_bytes_left a - int ?n, boot_ptr := boot_ptr a + ?n\<rparr>"
  have "new_objects ?me [?n] (Some (Boot a)) = ok (Some (Boot ?a))"
    using new_objects_boot [of "[?n]" a ?me] ok a by simp
  then obtain p where obj: "operator_new ?me (Some (Boot a)) ?n = ok (p, Some (Boot ?a))"
    by (auto simp: operator_new_def kalloc_alloc_def Let_def split_def)
  have live: "boot_live ?a {}" using ok a by (simp add: boot_live_def)
  have "\<exists>h al. kh_init ?me h0 old (heap_start b) (heap_end b) (Some (Boot ?a)) = ok (h, al) \<and> heap_live h {} \<and>
    kh_ptr h = heap_start b \<and> kh_bytes_left h = heap_end b - heap_start b \<and>
    (\<exists>bd n. kh_buddy h = Some bd \<and> buddy_rep n bd {} \<and>
       memory_size bd = (heap_end b - heap_start b) - (heap_end b - heap_start b) mod 64)"
    by (rule kh_init_spec [OF live]) (use ok a in \<open>simp_all add: add.assoc\<close>)
  then obtain h al bd n where h: "kh_init ?me h0 old (heap_start b) (heap_end b) (Some (Boot ?a)) = ok (h, al)"
      "heap_live h {}" "kh_buddy h = Some bd" "buddy_rep n bd {}"
      "memory_size bd = (heap_end b - heap_start b) - (heap_end b - heap_start b) mod 64" by blast
  have "2 ^ 24 \<le> memory_size bd"
    using h(5) ok mod_less_divisor [of 64 "heap_end b - heap_start b"] by linarith
  then have room: "roomy h" using h(2-4) by (auto simp: roomy_def heap_live_def)
  have "kh_freeSpace h = Some (memory_size bd)"
    using arena_free_size_correct [OF h(4)] by (simp add: kh_freeSpace_def h(3))
  moreover obtain k' where k': "say_locked dev 0 (''Free Mem Bytes: %d'' @ nl) [num (memory_size bd)] k = ret k'" "printed k k'"
    using say_locked_pieces [OF assms(1,2),
        where ps = "[Lit ''Free Mem Bytes: '', Conv False 0 CHR ''d'' (num (memory_size bd)), Lit nl]", OF _ refl refl] by auto
  ultimately show ?thesis using h(1) obj room
    by (auto simp: boot_heap_def allocating_def ok_def setAllocator_def)
qed

lemma roomy_alloc:
  assumes "roomy h" "sz \<le> 2 ^ 24"
  shows "\<exists>p h'. kh_alloc me h sz = ok (p, h') \<and> p \<noteq> 0 \<and> lock_val (kh_lock h') = 0"
proof -
  obtain b n where b: "kh_buddy h = Some b" "buddy_rep n b {}" "2 ^ 24 \<le> memory_size b"
    using assms(1) by (auto simp: roomy_def)
  obtain V where V: "arena_rep n b V" using b(2) by (auto simp: buddy_rep_def)
  note m = mem_okD [OF arena_repD(1) [OF V]]
  have "(2 :: nat) ^ 24 \<le> 2 ^ (n + 5)" using b(3) m(5) by linarith
  then have n: "19 \<le> n" by (simp only: power_increasing_iff)
  let ?j = "2 ^ (n - 19) :: nat"
  have "bit_length ?j = Suc (n - 19)" by (rule bit_length_eqI) simp_all
  then have "bsize n ?j = 2 ^ 24" "boff n ?j = 0" "node n ?j" using n by (simp_all add: bsize_def boff_def node_def)
  then have "usable n b {} (max 1 sz) ?j" using assms(2) b(3) by (simp add: usable_def)
  then have use: "\<exists>i. usable n b {} (max 1 sz) i" by blast
  have l: "lock_val (kh_lock h) = 0" using assms(1) by (simp add: roomy_def)
  show ?thesis using kh_alloc_spec [OF l b(1,2), of sz me] use by (auto simp: roomy_def)
qed

subsection \<open>The frame buffer\<close>

text \<open>The graphics processor takes the message, answers it, and leaves in the buffer a frame of the size asked
  for, 32 bits deep.\<close>

definition display_answers :: "device \<Rightarrow> nat \<Rightarrow> bool" where
  "display_answers dev mbox \<longleftrightarrow>
     (let r = mbox_message mbox MBOX_CH_PROP
      in mbox mod 16 = 0 \<and>
         (\<forall>h. \<exists>h1 h2. clears dev MBOX_FULL h h1 \<and> answered dev r (mmio_write MBOX_WRITE r h1) h2) \<and>
         (\<forall>h. (MBOX_WRITE, r) \<in> set (writes_of h) \<longrightarrow> dev h (mbox + 4) = MBOX_RESPONSE \<and> dev h (mbox + 80) = 32 \<and>
            dev h (mbox + 112) \<noteq> 0 \<and> dev h (mbox + 40) = 1920 \<and> dev h (mbox + 44) = 1280))"

lemma fb_available_yes:
  assumes "display_answers dev mbox"
  shows "\<exists>h'. fb_available dev mbox h = Some (True, h') \<and> (MBOX_WRITE, mbox_message mbox MBOX_CH_PROP) \<in> set (writes_of h')"
proof -
  let ?r = "mbox_message mbox MBOX_CH_PROP"
  note d = assms [unfolded display_answers_def Let_def]
  obtain h1 h2 where h: "clears dev MBOX_FULL h h1" "answered dev ?r (mmio_write MBOX_WRITE ?r h1) h2" using d by blast
  obtain h' where h': "mbox_call dev mbox MBOX_CH_PROP h = Some (dev h2 (mbox + 4) = MBOX_RESPONSE, h')"
      "writes_of h' = writes_of h @ [(MBOX_WRITE, ?r)]"
    using mbox_call_spec [OF conjunct1 [OF d] h] by blast
  have "writes_of h2 = writes_of (mmio_write MBOX_WRITE ?r h1)" using await_reply_answered [OF h(2)] by blast
  then have "dev h2 (mbox + 4) = MBOX_RESPONSE" using d by simp
  then show ?thesis using h' d by (auto simp: fb_available_def mbox_get_def mmio_read_def)
qed

lemma read_geometry_size:
  assumes "display_answers dev mbox" "(MBOX_WRITE, mbox_message mbox MBOX_CH_PROP) \<in> set (writes_of h)"
  shows "s_width (fst (read_geometry dev mbox h)) = 1920" "s_height (fst (read_geometry dev mbox h)) = 1280"
  using assms by (simp_all add: display_answers_def Let_def read_geometry_def mbox_get_def mbox_put_def mmio_read_def mmio_write_def)

lemma label_cores_draws:
  "set cs \<subseteq> {..<NUM_CORES} \<Longrightarrow> \<exists>h. label_cores cs dev core s k = ret (k\<lparr>kernel_io := h\<rparr>)"
proof (induction cs arbitrary: k)
  case Nil
  show ?case by (intro exI [of _ "kernel_io k"]) simp
next
  case (Cons c cs)
  have "c = 0 \<or> c = 1 \<or> c = 2 \<or> c = 3" using Cons.prems by (auto simp: NUM_CORES_def)
  then obtain attr where "getCoreColor dev core c k = ret (attr, k)" by (auto simp: getCoreColor_def)
  then show ?case using Cons.IH [of "k\<lparr>kernel_io := h\<rparr>" for h] Cons.prems by fastforce
qed

lemma FBInit_ready:
  assumes "accepts dev" "console_free k" "display_answers dev mbox" "\<And>h. alloc (4 * 1920 * 1280) (k\<lparr>kernel_io := h\<rparr>) = ret (x, k\<lparr>kernel_io := h\<rparr>)"
  shows "\<exists>d' k'. FBInit dev core mbox fresh garbage alloc d k = ret ((d', x), k') \<and> printed k k' \<and>
    s_width (disp_screen d') = 1920 \<and> s_height (disp_screen d') = 1280"
proof -
  obtain h where h: "fb_available dev mbox (put_request mbox (kernel_io k)) = Some (True, h)"
      "(MBOX_WRITE, mbox_message mbox MBOX_CH_PROP) \<in> set (writes_of h)"
    using fb_available_yes [OF assms(3)] by blast
  obtain s h1 where s: "read_geometry dev mbox h = (s, h1)" by fastforce
  then have size: "s_width s = 1920" "s_height s = 1280" using read_geometry_size [OF assms(3) h(2)] by simp_all
  let ?k = "k\<lparr>kernel_io := h1\<rparr>"
  have free: "console_free ?k" using assms(2) by (simp add: console_free_def)
  obtain k2 where k2: "say_locked dev core (''Frame buffer allocated!'' @ nl @ ''W: %d H: %d Pitch: %d RGB %d'' @ nl)
      [Num (uint (s_width s)), Num (uint (s_height s)), Num (uint (pitch s)), Num (uint (isrgb s))] ?k = ret k2" "printed ?k k2"
    using say_locked_pieces [OF assms(1) free,
        where ps = "[Lit (''Frame buffer allocated!'' @ nl @ ''W: ''), Conv False 0 CHR ''d'' (Num (uint (s_width s))),
          Lit '' H: '', Conv False 0 CHR ''d'' (Num (uint (s_height s))), Lit '' Pitch: '',
          Conv False 0 CHR ''d'' (Num (uint (pitch s))), Lit '' RGB '', Conv False 0 CHR ''d'' (Num (uint (isrgb s))), Lit nl]",
        OF _ refl refl] by auto
  obtain h3 where h3: "label_cores [0..<4] dev core s k2 = ret (k2\<lparr>kernel_io := h3\<rparr>)"
    using label_cores_draws [of "[0..<4]" dev core s k2] by (force simp: NUM_CORES_def)
  have "printed k (k2\<lparr>kernel_io := h3\<rparr>)"
  proof -
    have "k2\<lparr>kernel_io := h3\<rparr> = k\<lparr>kernel_con := c, kernel_io := h3\<rparr>"
      if "k2 = ?k\<lparr>kernel_con := c, kernel_io := i\<rparr>" for c i using that by simp
    then have "k2\<lparr>kernel_io := h3\<rparr> = k\<lparr>kernel_con := kernel_con k2, kernel_io := h3\<rparr>"
      using k2(2) unfolding printed_def by blast
    then show ?thesis using k2(2) by (simp add: printed_def console_free_def)
  qed
  then show ?thesis using h(1) s size assms(4) [of h1] k2(1) h3
    by (simp add: FBInit_def Let_def)
qed

lemma frame_memory_ready:
  assumes "roomy h"
  shows "\<exists>h'. \<forall>k. pid (current 0 k) = me \<longrightarrow> frame_memory dev (Some (Heap h)) (4 * 1920 * 1280) k = ret (Some (Heap h'), k)"
proof -
  obtain p h' where "kh_alloc me h (unat (4 * 1920 * 1280 :: 32 word)) = ok (p, h')"
    using roomy_alloc [OF assms, of "unat (4 * 1920 * 1280 :: 32 word)" me] by auto
  then show ?thesis by (auto simp: frame_memory_def kalloc_alloc_def allocating_def ok_def)
qed

subsection \<open>The steps return\<close>

text \<open>While the drivers are loaded there is no console yet.\<close>

lemma boot_drivers_ready:
  assumes "memory_like dev target_registers" "\<not> console_set (kernel_con (m_kernel s))" "board_ok b"
  shows "\<exists>v con h a. boot_drivers dev b s = ret (s\<lparr>m_kernel := (m_kernel s)\<lparr>kernel_con := con, kernel_io := h\<rparr>,
      m_drivers := v, m_alloc := Some (Boot a)\<rparr>) \<and>
    vec_elements v = [GPIO_Driver, UART_Driver, GIC400_Driver, SystemTimer_Driver, RNG_Driver] \<and>
    boot_ptr a = boot_alloc_start b + sum_list (object_sizes b) \<and>
    boot_bytes_left a = int (boot_alloc_end b) - int (boot_alloc_start b + sum_list (object_sizes b)) \<and>
    (\<forall>irq \<in> {97, 125, 1, 2, 3, 4}. enabled h irq)"
proof -
  note ok = assms(3) [unfolded board_ok_def used_before_heap_def]
  let ?k = "m_kernel s" and ?a = "boot_init (boot_alloc_start b) (boot_alloc_end b)"
  let ?m = "\<lparr>drivers = m_drivers s, m_console = kernel_con ?k, m_io = kernel_io ?k\<rparr>"
  have init: "boot_ptr ?a = boot_alloc_start b" "boot_bytes_left ?a = int (boot_alloc_end b) - int (boot_alloc_start b)"
    using ok by (simp_all add: boot_init_def)
  have objects: "new_objects (pid (current 0 ?k)) (object_sizes b) (Some (Boot ?a)) = ok (Some (Boot
      (?a\<lparr>boot_bytes_left := boot_bytes_left ?a - int (sum_list (object_sizes b)),
          boot_ptr := boot_ptr ?a + sum_list (object_sizes b)\<rparr>)))"
    by (rule new_objects_boot) (use ok init in simp_all)
  obtain m' h where m': "kernel_drivers dev (pid (current 0 ?k)) (driver_fresh b) ?m = Some m'"
      "vec_elements (drivers m') = [GPIO_Driver, UART_Driver, GIC400_Driver, SystemTimer_Driver, RNG_Driver]"
      "m_io m' = rng_init h" "\<forall>irq < 1024. enabled h irq \<longleftrightarrow> enabled (uart_init dev (m_io ?m)) irq \<or> irq \<in> {97, 125, 1, 2, 3, 4}"
    using kernel_drivers_spec [OF assms(1), of ?m "pid (current 0 ?k)" "driver_fresh b"] assms(2) by auto
  have "\<forall>irq \<in> {97, 125, 1, 2, 3, 4}. enabled (m_io m') irq"
    using m'(3,4) by (simp add: rng_init_def enabled_write)
  then show ?thesis using m'(1,2) objects init
    by (intro exI [of _ "drivers m'"] exI [of _ "m_console m'"] exI [of _ "m_io m'"]
        exI [of _ "?a\<lparr>boot_bytes_left := boot_bytes_left ?a - int (sum_list (object_sizes b)),
          boot_ptr := boot_ptr ?a + sum_list (object_sizes b)\<rparr>"])
      (simp add: boot_drivers_def setAllocator_def allocating_def ok_def Let_def)
qed

lemma printed_started: "printed k k' \<Longrightarrow> started f B n k \<Longrightarrow> started f B n k'"
proof -
  assume p: "printed k k'" and B: "started f B n k"
  have "core_up f (k\<lparr>kernel_con := c, kernel_io := h\<rparr>) b" if "core_up f k b" for c h b
    using that by (simp add: core_up_def current_def split: prod.splits)
  then have "started f B n (k\<lparr>kernel_con := c, kernel_io := h\<rparr>)" for c h
    using B by (simp add: started_def)
  then show ?thesis using p unfolding printed_def by metis
qed

lemma boot_scheduler_ready:
  assumes "accepts dev" "clocked dev ticks" "console_free (m_kernel s)" "freePID (m_kernel s) = 1"
    "m_objects s = 0" "inj_on (obj f) {0..<103}"
  shows "\<exists>k'. boot_scheduler dev b f s = ret (s\<lparr>m_kernel := k', m_objects := 103,
      m_memory := start_other_cores (init_core b) (m_memory s)\<rparr>) \<and> console_free k' \<and> started f [(0, 0)] 103 k'"
proof -
  let ?k = "m_kernel s"
  obtain k1 where k1: "say_locked dev 0 (''Timer init on core: %d'' @ nl) [num 0] ?k = ret k1" "printed ?k k1"
    using say_locked_pieces [OF assms(1,3),
        where ps = "[Lit ''Timer init on core: '', Conv False 0 CHR ''d'' (num 0), Lit nl]", OF _ refl refl] by auto
  obtain k2 where k2: "say_locked dev 0 (hashes @ nl) [] k1 = ret k2" "printed k1 k2"
    using say_locked_text [OF assms(1) printedD [OF k1(2)], of "hashes @ nl" 0] by (auto simp: hashes_def)
  have p: "printed ?k k2" by (rule printed_trans [OF k1(2) k2(2)])
  then obtain c h where "k2 = ?k\<lparr>kernel_con := c, kernel_io := h\<rparr>" unfolding printed_def by blast
  then have "freePID k2 = 1" using assms(4) by simp
  then obtain k3 where k3: "kernel_main_tasks f (0, k2) = (103, k3)" "started f [(0, 0)] 103 k3" "kernel_con k3 = kernel_con k2"
    using kernel_main_tasks_spec [OF _ assms(6)] by blast
  have free: "console_free k3" using printedD [OF p] k3(3) by (simp add: console_free_def)
  obtain k4 where k4: "say_locked dev 0 (''All cores UP!'' @ nl) [] k3 = ret k4" "printed k3 k4"
    using say_locked_text [OF assms(1) free, of "''All cores UP!'' @ nl" 0] by auto
  obtain h where h: "WaitMicroT1 dev 100000 (kernel_io k4) = Some h"
    using read_counter_spec [OF assms(2), of "kernel_io k4"] by (auto simp: WaitMicroT1_def)
  have start: "started f [(0, 0)] 103 k4" by (rule printed_started [OF k4(2) k3(2)])
  let ?k = "k4\<lparr>kernel_io := h\<rparr>"
  have p4: "printed k4 ?k" using printedD [OF k4(2)] by (simp add: printed_def console_free_def)
  have "console_free ?k" by (rule printedD [OF p4])
  moreover have "started f [(0, 0)] 103 ?k" by (rule printed_started [OF p4 start])
  moreover have "boot_scheduler dev b f s = ret (s\<lparr>m_kernel := ?k, m_objects := 103,
      m_memory := start_other_cores (init_core b) (m_memory s)\<rparr>)"
    using k1(1) k2(1) k3(1) k4(1) h assms(5) by (simp add: boot_scheduler_def)
  ultimately show ?thesis by blast
qed

lemma kernel_boot_spec:
  assumes "accepts dev" "clocked dev ticks" "memory_like dev target_registers" "display_answers dev (mbox_buffer b)"
    and "board_ok b" "\<not> console_set (kernel_con (m_kernel s))" "freePID (m_kernel s) = 1" "m_objects s = 0"
    and "inj_on (obj f) {0..<103}"
  shows "\<exists>s' h. kernel_boot dev b f h0 old s = ret s' \<and>
    vec_elements (m_drivers s') = [GPIO_Driver, UART_Driver, GIC400_Driver, SystemTimer_Driver, RNG_Driver] \<and>
    m_alloc s' = Some (Heap h) \<and> s_width (disp_screen (m_display s')) = 1920 \<and>
    s_height (disp_screen (m_display s')) = 1280 \<and> m_objects s' = 103 \<and>
    m_memory s' = (m_memory s)(0xffff0000000000E0 := init_core b, 0xffff0000000000E8 := init_core b,
      0xffff0000000000F0 := init_core b) \<and>
    console_free (m_kernel s') \<and> started f [(0, 0)] 103 (m_kernel s')"
proof -
  let ?k = "m_kernel s"
  obtain v con i a where s1: "boot_drivers dev b s = ret (s\<lparr>m_kernel := ?k\<lparr>kernel_con := con, kernel_io := i\<rparr>,
      m_drivers := v, m_alloc := Some (Boot a)\<rparr>)" (is "_ = ret ?s")
      "vec_elements v = [GPIO_Driver, UART_Driver, GIC400_Driver, SystemTimer_Driver, RNG_Driver]"
      "boot_ptr a = boot_alloc_start b + sum_list (object_sizes b)"
      "boot_bytes_left a = int (boot_alloc_end b) - int (boot_alloc_start b + sum_list (object_sizes b))"
    using boot_drivers_ready [OF assms(3,6,5)] by blast
  obtain k1 where k1: "boot_console dev b (m_kernel ?s) = ret k1"
      "printed ((m_kernel ?s)\<lparr>kernel_con := setKernelConsole (kernel_con (m_kernel ?s))\<rparr>) k1"
    using boot_console_prints [OF assms(1)] by blast
  obtain h k2 where k2: "boot_heap dev b h0 old (Some (Boot a)) k1 = ret (Some (Heap h), k2)" "printed k1 k2" "roomy h"
    using boot_heap_ready [OF assms(1) printedD [OF k1(2)] assms(5) s1(3,4)] by blast
  obtain k3 where k3: "say_locked dev 0 (''List of loaded drivers:'' @ nl) [] k2 = ret k3" "printed k2 k3"
    using say_locked_text [OF assms(1) printedD [OF k2(2)], of "''List of loaded drivers:'' @ nl" 0] by auto
  obtain k4 where k4: "list_drivers (vec_elements v) dev k3 = ret k4" "printed k3 k4"
    using list_drivers_prints [OF assms(1) printedD [OF k3(2)]] by blast
  obtain h' where h': "\<forall>k. pid (current 0 k) = pid (current 0 k4) \<longrightarrow>
      frame_memory dev (Some (Heap h)) (4 * 1920 * 1280) k = ret (Some (Heap h'), k)"
    using frame_memory_ready [OF k2(3)] by blast
  have frame: "frame_memory dev (Some (Heap h)) (4 * 1920 * 1280) (k4\<lparr>kernel_io := i\<rparr>) =
      ret (Some (Heap h'), k4\<lparr>kernel_io := i\<rparr>)" for i using h' by (simp add: current_def)
  obtain d k5 where k5: "FBInit dev 0 (mbox_buffer b) (array_fresh f) (sorted_garbage f) (frame_memory dev (Some (Heap h)))
      (m_display s) k4 = ret ((d, Some (Heap h')), k5)" "printed k4 k5" "s_width (disp_screen d) = 1920"
      "s_height (disp_screen d) = 1280"
    using FBInit_ready [OF assms(1) printedD [OF k4(2)] assms(4),
        where alloc = "frame_memory dev (Some (Heap h))" and x = "Some (Heap h')"] frame by blast
  let ?s5 = "s\<lparr>m_kernel := k5, m_drivers := v, m_alloc := Some (Heap h'), m_display := d\<rparr>"
  have p: "printed ((m_kernel ?s)\<lparr>kernel_con := setKernelConsole (kernel_con (m_kernel ?s))\<rparr>) k5"
    by (rule printed_trans [OF printed_trans [OF printed_trans [OF printed_trans [OF k1(2) k2(2)] k3(2)] k4(2)] k5(2)])
  then obtain c i' where "k5 = ?k\<lparr>kernel_con := c, kernel_io := i'\<rparr>" unfolding printed_def by auto
  then have pid5: "freePID (m_kernel ?s5) = 1" using assms(7) by simp
  have free5: "console_free (m_kernel ?s5)" using printedD [OF p] by simp
  have objects: "m_objects ?s5 = 0" using assms(8) by simp
  obtain k6 where k6: "boot_scheduler dev b f ?s5 = ret (?s5\<lparr>m_kernel := k6, m_objects := 103,
      m_memory := start_other_cores (init_core b) (m_memory ?s5)\<rparr>)" "console_free k6" "started f [(0, 0)] 103 k6"
    using boot_scheduler_ready [OF assms(1,2) free5 pid5 objects assms(9), of b] by blast
  have display: "boot_display dev b f (?s\<lparr>m_kernel := k4, m_alloc := Some (Heap h)\<rparr>) = ret ?s5"
    using k5(1) by (simp add: boot_display_def)
  have "kernel_boot dev b f h0 old s = ret (?s5\<lparr>m_kernel := k6, m_objects := 103,
      m_memory := start_other_cores (init_core b) (m_memory ?s5)\<rparr>)"
    unfolding kernel_boot_def s1(1) thn_simps k1(1) k2(1) prod.case
    using k2(1) k3(1) k4(1) k6(1) display by simp
  then show ?thesis using k5(3,4) k6(2,3) s1(2)
    by (simp add: start_other_cores_def core_start_def)
qed


text \<open>A machine on which every device answers at once: a transmitter that is always ready, a clock that stands
  still, a graphics processor that answers with the frame asked for.\<close>

definition demo_machine :: device where
  "demo_machine h r =
     (if r = AUX_MU_LSR_REG then 0x20
      else if r = timer_counter_lo \<or> r = timer_counter_hi \<or> r = MBOX_STATUS then 0
      else if r = MBOX_READ then 0x80008
      else if r = 0x80000 + 4 then MBOX_RESPONSE
      else if r = 0x80000 + 80 then 32
      else if r = 0x80000 + 112 then 0x3E000000
      else if r = 0x80000 + 40 then 1920
      else if r = 0x80000 + 44 then 1280
      else last_write h r)"

definition demo_board :: board where
  "demo_board = \<lparr>boot_alloc_start = 0x100000, boot_alloc_end = 0x300000, heap_start = 0x4000000, heap_end = 0x6000000,
     object_sizes = [8, 88, 8, 8, 8, 40, 8, 8], heap_object_size = 32, current_el = 1, mbox_buffer = 0x80000,
     init_core = 0x80400, driver_fresh = (\<lambda>_. GPIO_Driver)\<rparr>"

definition demo_start :: "display \<Rightarrow> machine" where
  "demo_start d = \<lparr>m_kernel = demo_boot\<lparr>kernel_con := \<lparr>console_set = False, console_lock = None\<rparr>\<rparr>, m_drivers = vec_new,
     m_alloc = None, m_display = d, m_objects = 0, m_memory = (\<lambda>_. 0)\<rparr>"

lemma demo_sizeof: "buddy_sizeof 0x2000000 < 0x100000"
proof -
  have "row_start n n + n + 2 = 2 ^ (n + 1)" for n
    by (induction n) (simp_all add: row_start_shift)
  from this [of 20] have "row_start 20 20 = 2097130" by simp
  then have "buddy_tree_sizeof 20 < 300000"
    using tree_sizeof_eq [of 20] by (simp add: order_ok_def padded_bytes_def bits_bytes_def)
  moreover have "buddy_tree_order_for_memory 0x2000000 = 20"
    by (rule mem_okD(9)) (simp add: mem_ok_def order_ok_def)
  ultimately show ?thesis by (simp add: buddy_sizeof_def BUDDY_ALLOC_ALIGN_def add64_small)
qed

lemma demo_machine_ready:
  "accepts demo_machine" "clocked demo_machine (\<lambda>_. 0)" "memory_like demo_machine target_registers"
  "display_answers demo_machine (mbox_buffer demo_board)"
proof -
  show "accepts demo_machine" unfolding accepts_def by (intro allI exI [of _ 0]) (simp add: demo_machine_def)
  show "clocked demo_machine (\<lambda>_. 0)" by (simp add: clocked_def demo_machine_def AUX_MU_LSR_REG_def AUX_BASE_def timer_registers)
  show "memory_like demo_machine target_registers"
    by (auto simp: memory_like_def target_registers_def demo_machine_def timer_registers mbox_registers
        AUX_MU_LSR_REG_def AUX_BASE_def gic_registers)
  have msg: "mbox_message 0x80000 MBOX_CH_PROP = 0x80008" by (simp add: mbox_message_def MBOX_CH_PROP_def)
  have clear: "clears demo_machine flag h (snd (mmio_read demo_machine MBOX_STATUS h))" for flag h
    by (rule clears.clear) (simp add: demo_machine_def mbox_registers AUX_MU_LSR_REG_def AUX_BASE_def timer_registers)
  have answer: "answered demo_machine 0x80008 h
      (snd (mmio_read demo_machine MBOX_READ (snd (mmio_read demo_machine MBOX_STATUS h))))" for h
    by (rule answered.answer [OF clear])
      (simp add: demo_machine_def mbox_registers AUX_MU_LSR_REG_def AUX_BASE_def timer_registers)
  have "\<exists>h1 h2. clears demo_machine MBOX_FULL h h1 \<and> answered demo_machine 0x80008 (mmio_write MBOX_WRITE 0x80008 h1) h2" for h
    using clear answer by blast
  then show "display_answers demo_machine (mbox_buffer demo_board)"
    by (simp add: display_answers_def demo_board_def msg)
      (simp add: demo_machine_def mbox_registers AUX_MU_LSR_REG_def AUX_BASE_def timer_registers)
qed

lemma demo_ready:
  "board_ok demo_board" "\<not> console_set (kernel_con (m_kernel (demo_start d)))" "freePID (m_kernel (demo_start d)) = 1"
  "m_objects (demo_start d) = 0" "inj_on (obj demo_firmware) {0..<412}" "distinct [2, 3, 1 :: nat]"
  "set [2, 3, 1 :: nat] = {1, 2, 3}"
  using demo_sizeof
  by (auto simp: board_ok_def used_before_heap_def demo_board_def demo_start_def demo_boot_def demo_firmware_def inj_on_def)


end
