(* ===== verification/FsImage.thy ===== *)
theory FsImage
  imports Prelude "HOL-Library.Word"
begin

text \<open>
  The tool that puts an empty file system on a disk (\<open>src/tools/fs_driver/main.c\<close>): it looks for the
  partition of type 0x31 in the master boot record, works out the superblock from the size of the
  partition, and writes the superblock, the inode tables, the root directory and one file.

  What is on the disk are the bytes of C structures, in the order of the machine, least significant
  byte first, with the compiler's padding; the structures come from \<open>calloc\<close>, so padding is zero. The
  result of the \<open>n\<close>-th \<open>write\<close> is the parameter \<open>io\<close>, -1 or the number of bytes written. What the tool
  prints, and the keys it waits for, leave no trace on the disk and are left out.
\<close>

subsection \<open>Bytes\<close>

primrec le_bytes :: "nat \<Rightarrow> nat \<Rightarrow> 8 word list" where
  "le_bytes 0 x = []"
| "le_bytes (Suc n) x = of_nat (x mod 256) # le_bytes n (x div 256)"

primrec le_value :: "8 word list \<Rightarrow> nat" where
  "le_value [] = 0"
| "le_value (b # bs) = unat b + 256 * le_value bs"

lemma le_bytes_length [simp]: "length (le_bytes n x) = n"
  by (induction n arbitrary: x) simp_all

lemma byte_value: "unat (of_nat (x mod 256) :: 8 word) = x mod 256"
  by (simp add: unat_of_nat)

lemma le_value_bytes [simp]: "le_value (le_bytes n x) = x mod 256 ^ n"
proof (induction n arbitrary: x)
  case (Suc n)
  show ?case using mod_mult2_eq [of x 256 "256 ^ n"] by (simp add: Suc byte_value)
qed simp

lemma le_bytes_zero: "le_bytes n 0 = replicate n 0"
  by (induction n) simp_all

text \<open>A structure is a list of fields, each with its number of bytes.\<close>

definition encode_fields :: "(nat \<times> nat) list \<Rightarrow> 8 word list" where
  "encode_fields fs = concat (map (\<lambda>(n, x). le_bytes n x) fs)"

primrec decode_fields :: "nat list \<Rightarrow> 8 word list \<Rightarrow> nat list" where
  "decode_fields [] bs = []"
| "decode_fields (n # ns) bs = le_value (take n bs) # decode_fields ns (drop n bs)"

lemma encode_fields_length: "length (encode_fields fs) = sum_list (map fst fs)"
  by (induction fs) (auto simp: encode_fields_def)

lemma decode_encode_fields:
  "decode_fields (map fst fs) (encode_fields fs @ rest) = map (\<lambda>(n, x). x mod 256 ^ n) fs"
  by (induction fs) (auto simp: encode_fields_def)

subsection \<open>Storing bytes at consecutive addresses\<close>

definition patch :: "nat \<Rightarrow> 8 word list \<Rightarrow> (nat \<Rightarrow> 8 word) \<Rightarrow> (nat \<Rightarrow> 8 word)" where
  "patch a bs c = (\<lambda>x. if a \<le> x \<and> x < a + length bs then bs ! (x - a) else c x)"

definition bytes_at :: "(nat \<Rightarrow> 8 word) \<Rightarrow> nat \<Rightarrow> nat \<Rightarrow> 8 word list" where
  "bytes_at c a n = map c [a..<a + n]"

lemma bytes_at_length [simp]: "length (bytes_at c a n) = n"
  by (simp add: bytes_at_def)

lemma bytes_at_cong: "(\<And>x. a \<le> x \<Longrightarrow> x < a + n \<Longrightarrow> c x = c' x) \<Longrightarrow> bytes_at c a n = bytes_at c' a n"
  by (simp add: bytes_at_def)

lemma bytes_at_patch: "n = length bs \<Longrightarrow> bytes_at (patch a bs c) a n = bs"
  by (rule nth_equalityI) (simp_all add: bytes_at_def patch_def)

lemma bytes_at_patch_apart:
  "a + n \<le> b \<or> b + length bs \<le> a \<Longrightarrow> bytes_at (patch b bs c) a n = bytes_at c a n"
  by (rule bytes_at_cong) (auto simp: patch_def)

lemma patch_outside: "x < a \<or> a + length bs \<le> x \<Longrightarrow> patch a bs c x = c x"
  by (auto simp: patch_def)

lemma patch_patch: "b = a + length bs \<Longrightarrow> patch b cs (patch a bs c) = patch a (bs @ cs) c"
  by (auto simp: patch_def fun_eq_iff nth_append)

lemma patch_Nil [simp]: "patch a [] c = c"
  by (auto simp: patch_def fun_eq_iff)

lemma patch_Cons: "patch a (b # bs) c = patch (a + 1) bs (c(a := b))"
proof -
  have "patch a [b] c = c(a := b)" by (auto simp: patch_def fun_eq_iff)
  then show ?thesis using patch_patch [of "a + 1" a "[b]" bs c] by simp
qed

subsection \<open>The master boot record\<close>

record chs_address =
  chs_head :: "8 word"
  chs_sector :: nat
  chs_cylinder_hi :: nat
  chs_cylinder_lo :: "8 word"

record partition_entry =
  part_status :: "8 word"
  first_sector :: chs_address
  part_type :: "8 word"
  last_sector :: chs_address
  first_lba_sector :: "32 word"
  num_sectors :: "32 word"

record master_boot_record =
  bootCode :: "8 word list"
  partitions :: "partition_entry list"
  bootSignature :: nat

definition read_chs :: "8 word list \<Rightarrow> chs_address" where
  "read_chs bs =
     \<lparr>chs_head = bs ! 0, chs_sector = unat (bs ! 1) mod 64, chs_cylinder_hi = unat (bs ! 1) div 64,
      chs_cylinder_lo = bs ! 2\<rparr>"

definition read_partition :: "8 word list \<Rightarrow> partition_entry" where
  "read_partition bs =
     \<lparr>part_status = bs ! 0, first_sector = read_chs (drop 1 bs), part_type = bs ! 4, last_sector = read_chs (drop 5 bs),
      first_lba_sector = of_nat (le_value (take 4 (drop 8 bs))), num_sectors = of_nat (le_value (take 4 (drop 12 bs)))\<rparr>"

definition read_mbr :: "8 word list \<Rightarrow> master_boot_record" where
  "read_mbr bs =
     \<lparr>bootCode = take 0x1BE bs, partitions = map (\<lambda>i. read_partition (drop (0x1BE + 16 * i) bs)) [0..<4],
      bootSignature = le_value (take 2 (drop 510 bs))\<rparr>"

text \<open>The loop over the partitions; \<open>found\<close> is \<open>lagor_part_start\<close>, which nothing initialises.\<close>

primrec find_lagor :: "partition_entry list \<Rightarrow> partition_entry \<Rightarrow> partition_entry" where
  "find_lagor [] found = found"
| "find_lagor (p # ps) found =
     (if part_type p = 0 then found else find_lagor ps (if part_type p = 0x31 then p else found))"

subsection \<open>The structures of the file system\<close>

record superblock =
  sb_signature :: "8 word list"
  inodes_total :: "32 word"
  blocks_total :: "32 word"
  inodes_free :: "32 word"
  blocks_free :: "32 word"
  blocks_in_group :: "32 word"
  inodes_in_group :: "32 word"
  inode_size :: "32 word"
  block_size :: "32 word"
  total_pools :: "32 word"
  last_mount_time :: "64 word"
  last_write_time :: "64 word"

record inode =
  i_signature :: "32 word"
  i_type :: "8 word"
  i_parent :: "32 word"
  block0 :: "32 word"
  length0 :: "16 word"
  block1 :: "32 word"
  length1 :: "16 word"
  block2 :: "32 word"
  length2 :: "16 word"
  block3 :: "32 word"
  length3 :: "16 word"
  permissions :: "32 word"
  i_uid :: "32 word"
  i_gid :: "32 word"
  ts_created :: "64 word"
  ts_mod :: "64 word"
  ts_read :: "64 word"
  i_size :: "32 word"

record dir_entry =
  d_signature :: "32 word"
  name_length :: "16 word"

text \<open>The fields of a superblock: after the signature come three bytes, after \<open>total_pools\<close> four bytes of
  padding; 448 bytes make up the block that is written.\<close>

definition superblock_fields :: "superblock \<Rightarrow> (nat \<times> nat) list" where
  "superblock_fields s =
     map (\<lambda>b. (1, unat b)) (sb_signature s) @
     [(3, 0), (4, unat (inodes_total s)), (4, unat (blocks_total s)), (4, unat (inodes_free s)),
      (4, unat (blocks_free s)), (4, unat (blocks_in_group s)), (4, unat (inodes_in_group s)),
      (4, unat (inode_size s)), (4, unat (block_size s)), (4, unat (total_pools s)), (4, 0),
      (8, unat (last_mount_time s)), (8, unat (last_write_time s))]"

definition superblock_bytes :: "superblock \<Rightarrow> 8 word list" where
  "superblock_bytes s = encode_fields (superblock_fields s) @ replicate 448 0"

definition read_superblock :: "8 word list \<Rightarrow> superblock" where
  "read_superblock bs =
     (let v = decode_fields [1, 1, 1, 1, 1, 3, 4, 4, 4, 4, 4, 4, 4, 4, 4, 4, 8, 8] bs
      in \<lparr>sb_signature = map of_nat (take 5 v), inodes_total = of_nat (v ! 6), blocks_total = of_nat (v ! 7),
          inodes_free = of_nat (v ! 8), blocks_free = of_nat (v ! 9), blocks_in_group = of_nat (v ! 10),
          inodes_in_group = of_nat (v ! 11), inode_size = of_nat (v ! 12), block_size = of_nat (v ! 13),
          total_pools = of_nat (v ! 14), last_mount_time = of_nat (v ! 16), last_write_time = of_nat (v ! 17)\<rparr>)"

text \<open>The fields of an inode take 88 bytes; 40 bytes make up its place in the table.\<close>

definition inode_fields :: "inode \<Rightarrow> (nat \<times> nat) list" where
  "inode_fields n =
     [(4, unat (i_signature n)), (1, unat (i_type n)), (3, 0), (4, unat (i_parent n)),
      (4, unat (block0 n)), (2, unat (length0 n)), (2, 0), (4, unat (block1 n)), (2, unat (length1 n)), (2, 0),
      (4, unat (block2 n)), (2, unat (length2 n)), (2, 0), (4, unat (block3 n)), (2, unat (length3 n)), (2, 0),
      (4, unat (permissions n)), (4, unat (i_uid n)), (4, unat (i_gid n)),
      (8, unat (ts_created n)), (8, unat (ts_mod n)), (8, unat (ts_read n)), (4, unat (i_size n)), (4, 0)]"

definition inode_bytes :: "inode \<Rightarrow> 8 word list" where
  "inode_bytes n = encode_fields (inode_fields n) @ replicate 40 0"

definition read_inode :: "8 word list \<Rightarrow> inode" where
  "read_inode bs =
     (let v = decode_fields [4, 1, 3, 4, 4, 2, 2, 4, 2, 2, 4, 2, 2, 4, 2, 2, 4, 4, 4, 8, 8, 8, 4, 4] bs
      in \<lparr>i_signature = of_nat (v ! 0), i_type = of_nat (v ! 1), i_parent = of_nat (v ! 3),
          block0 = of_nat (v ! 4), length0 = of_nat (v ! 5), block1 = of_nat (v ! 7), length1 = of_nat (v ! 8),
          block2 = of_nat (v ! 10), length2 = of_nat (v ! 11), block3 = of_nat (v ! 13), length3 = of_nat (v ! 14),
          permissions = of_nat (v ! 16), i_uid = of_nat (v ! 17), i_gid = of_nat (v ! 18),
          ts_created = of_nat (v ! 19), ts_mod = of_nat (v ! 20), ts_read = of_nat (v ! 21), i_size = of_nat (v ! 22)\<rparr>)"

definition dir_entry_bytes :: "dir_entry \<Rightarrow> 8 word list" where
  "dir_entry_bytes e = encode_fields [(4, unat (d_signature e)), (2, unat (name_length e)), (2, 0)]"

definition zero_inode :: inode where
  "zero_inode = \<lparr>i_signature = 0, i_type = 0, i_parent = 0, block0 = 0, length0 = 0, block1 = 0, length1 = 0,
     block2 = 0, length2 = 0, block3 = 0, length3 = 0, permissions = 0, i_uid = 0, i_gid = 0,
     ts_created = 0, ts_mod = 0, ts_read = 0, i_size = 0\<rparr>"

lemma unat_field:
  "unat (x :: 64 word) mod 256 ^ 8 = unat x" "unat (y :: 32 word) mod 256 ^ 4 = unat y"
  "unat (z :: 16 word) mod 256 ^ 2 = unat z" "unat (b :: 8 word) mod 256 ^ 1 = unat b"
  using unsigned_less [where ?'a = nat, of x] unsigned_less [where ?'a = nat, of y]
    unsigned_less [where ?'a = nat, of z] unsigned_less [where ?'a = nat, of b]
  by simp_all

lemma superblock_decode:
  assumes "length (sb_signature s) = 5"
  shows "decode_fields [1, 1, 1, 1, 1, 3, 4, 4, 4, 4, 4, 4, 4, 4, 4, 4, 8, 8] (superblock_bytes s @ rest) =
    map unat (sb_signature s) @
    [0, unat (inodes_total s), unat (blocks_total s), unat (inodes_free s), unat (blocks_free s),
     unat (blocks_in_group s), unat (inodes_in_group s), unat (inode_size s), unat (block_size s),
     unat (total_pools s), 0, unat (last_mount_time s), unat (last_write_time s)]"
proof -
  obtain a b c d e where sig: "sb_signature s = [a, b, c, d, e]"
    using assms by (auto simp: length_Suc_conv numeral_eq_Suc)
  have fields: "map fst (superblock_fields s) = [1, 1, 1, 1, 1, 3, 4, 4, 4, 4, 4, 4, 4, 4, 4, 4, 8, 8]"
    by (simp add: superblock_fields_def sig)
  have "decode_fields (map fst (superblock_fields s)) (superblock_bytes s @ rest) =
      map (\<lambda>(n, x). x mod 256 ^ n) (superblock_fields s)"
    unfolding superblock_bytes_def append_assoc by (rule decode_encode_fields)
  then show ?thesis unfolding fields
    by (simp only: superblock_fields_def sig list.map append.simps prod.case unat_field mod_0 comp_def)
qed

lemma superblock_read_back:
  assumes "length (sb_signature s) = 5"
  shows "read_superblock (superblock_bytes s @ rest) = s"
proof -
  obtain a b c d e where sig: "sb_signature s = [a, b, c, d, e]"
    using assms by (auto simp: length_Suc_conv numeral_eq_Suc)
  show ?thesis unfolding read_superblock_def superblock_decode [OF assms] Let_def by (simp add: sig)
qed

lemma inode_decode:
  "decode_fields [4, 1, 3, 4, 4, 2, 2, 4, 2, 2, 4, 2, 2, 4, 2, 2, 4, 4, 4, 8, 8, 8, 4, 4] (inode_bytes n @ rest) =
    [unat (i_signature n), unat (i_type n), 0, unat (i_parent n), unat (block0 n), unat (length0 n), 0,
     unat (block1 n), unat (length1 n), 0, unat (block2 n), unat (length2 n), 0, unat (block3 n), unat (length3 n), 0,
     unat (permissions n), unat (i_uid n), unat (i_gid n), unat (ts_created n), unat (ts_mod n), unat (ts_read n),
     unat (i_size n), 0]"
proof -
  have fields: "map fst (inode_fields n) = [4, 1, 3, 4, 4, 2, 2, 4, 2, 2, 4, 2, 2, 4, 2, 2, 4, 4, 4, 8, 8, 8, 4, 4]"
    by (simp add: inode_fields_def)
  have "decode_fields (map fst (inode_fields n)) (inode_bytes n @ rest) = map (\<lambda>(n, x). x mod 256 ^ n) (inode_fields n)"
    unfolding inode_bytes_def append_assoc by (rule decode_encode_fields)
  then show ?thesis unfolding fields
    by (simp only: inode_fields_def list.map append.simps prod.case unat_field mod_0 comp_def)
qed

lemma inode_read_back: "read_inode (inode_bytes n @ rest) = n"
  unfolding read_inode_def inode_decode Let_def by simp

lemma structure_sizes:
  "length (sb_signature s) = 5 \<Longrightarrow> length (superblock_bytes s) = 512" "length (inode_bytes n) = 128"
  "length (dir_entry_bytes e) = 8"
proof -
  have "map fst (superblock_fields s) = replicate (length (sb_signature s)) 1 @ [3, 4, 4, 4, 4, 4, 4, 4, 4, 4, 4, 8, 8]"
    by (simp add: superblock_fields_def comp_def map_replicate_const)
  then show "length (superblock_bytes s) = 512" if "length (sb_signature s) = 5"
    using that by (simp add: superblock_bytes_def encode_fields_length sum_list_replicate)
qed (simp_all add: inode_bytes_def inode_fields_def dir_entry_bytes_def encode_fields_length)

lemma encode_zero_fields: "\<forall>(n, x) \<in> set fs. x = 0 \<Longrightarrow> encode_fields fs = replicate (sum_list (map fst fs)) 0"
  by (induction fs) (auto simp: encode_fields_def le_bytes_zero replicate_add)

lemma zero_inode_bytes: "inode_bytes zero_inode = replicate 128 0"
proof -
  have "encode_fields (inode_fields zero_inode) = replicate 88 0"
    by (subst encode_zero_fields) (simp_all add: inode_fields_def zero_inode_def)
  moreover have "replicate 128 (0 :: 8 word) = replicate 88 0 @ replicate 40 0"
    using replicate_add [of 88 40 "0 :: 8 word"] by simp
  ultimately show ?thesis by (simp add: inode_bytes_def)
qed

end
