(* ===== verification/FsDriver.thy ===== *)
theory FsDriver
  imports FsImage
begin

text \<open>
  What \<open>main\<close> of \<open>src/tools/fs_driver/main.c\<close> does to the disk: the superblock, the inode tables, and a
  root directory and a file, written one after the other at offsets computed with 32 bits. The theorems
  say where it writes, what can be read back, and where the arithmetic goes wrong.
\<close>

subsection \<open>The disk\<close>

record disk =
  on_disk :: "nat \<Rightarrow> 8 word"
  disk_offset :: nat
  disk_writes :: nat

type_synonym write_result = "nat \<Rightarrow> nat \<Rightarrow> int"

definition disk_read :: "nat \<Rightarrow> disk \<Rightarrow> 8 word list \<times> disk" where
  "disk_read n d =
     (map (on_disk d) [disk_offset d..<disk_offset d + n], d\<lparr>disk_offset := disk_offset d + n\<rparr>)"

definition seek_set :: "nat \<Rightarrow> disk \<Rightarrow> disk" where
  "seek_set n d = d\<lparr>disk_offset := n\<rparr>"

definition seek_cur :: "nat \<Rightarrow> disk \<Rightarrow> disk" where
  "seek_cur n d = d\<lparr>disk_offset := disk_offset d + n\<rparr>"

text \<open>A write that fails ends in \<open>Inl\<close>, the source's \<open>goto errors\<close>; fewer bytes than asked for go unnoticed.\<close>

definition disk_write :: "write_result \<Rightarrow> 8 word list \<Rightarrow> disk \<Rightarrow> disk + disk" where
  "disk_write io bs d =
     (let r = io (disk_writes d) (length bs);
          d = d\<lparr>disk_writes := disk_writes d + 1\<rparr>
      in if r = -1 then Inl d
         else Inr (d\<lparr>on_disk := patch (disk_offset d) (take (nat r) bs) (on_disk d), disk_offset := disk_offset d + nat r\<rparr>))"

definition and_then :: "disk + disk \<Rightarrow> (disk \<Rightarrow> disk + disk) \<Rightarrow> disk + disk" where
  "and_then m f = (case m of Inl d \<Rightarrow> Inl d | Inr d \<Rightarrow> f d)"

subsection \<open>The numbers\<close>

definition BLOCK_SIZE :: "32 word" where "BLOCK_SIZE = 4096"
definition INODE_SIZE :: "32 word" where "INODE_SIZE = 128"
definition INODES_IN_GROUP :: "32 word" where "INODES_IN_GROUP = 1024"

definition part_size :: "partition_entry \<Rightarrow> 32 word" where
  "part_size p = num_sectors p * 512 - 512"

definition block_pool_size :: "32 word" where
  "block_pool_size = push_bit 12 BLOCK_SIZE"

definition inode_table_size :: "32 word" where
  "inode_table_size = INODE_SIZE * INODES_IN_GROUP"

definition pool_size :: "32 word" where
  "pool_size = inode_table_size + block_pool_size"

definition tot_units :: "partition_entry \<Rightarrow> 32 word" where
  "tot_units p = part_size p div pool_size"

definition text_bytes :: "string \<Rightarrow> 8 word list" where
  "text_bytes s = map of_char s"

definition new_superblock :: "partition_entry \<Rightarrow> superblock" where
  "new_superblock p =
     \<lparr>sb_signature = text_bytes ''Lagor'',
      inodes_total = INODES_IN_GROUP * tot_units p,
      blocks_total = tot_units p * block_pool_size - 2 + 2,
      inodes_free = INODES_IN_GROUP * tot_units p - 3,
      blocks_free = tot_units p * block_pool_size - 2,
      blocks_in_group = block_pool_size,
      inodes_in_group = INODES_IN_GROUP,
      inode_size = INODE_SIZE,
      block_size = BLOCK_SIZE,
      total_pools = tot_units p,
      last_mount_time = 0, last_write_time = 0\<rparr>"

subsection \<open>Writing\<close>

primrec write_inodes :: "nat \<Rightarrow> write_result \<Rightarrow> inode \<Rightarrow> disk \<Rightarrow> disk + disk" where
  "write_inodes 0 io n d = Inr d"
| "write_inodes (Suc i) io n d = and_then (disk_write io (inode_bytes n) d) (write_inodes i io n)"

primrec write_tables :: "nat \<Rightarrow> write_result \<Rightarrow> inode \<Rightarrow> disk \<Rightarrow> disk + disk" where
  "write_tables 0 io n d = Inr d"
| "write_tables (Suc u) io n d =
     and_then (write_inodes (unat INODES_IN_GROUP) io n d) (\<lambda>d.
       write_tables u io n (seek_cur (unat block_pool_size) d))"

definition DIR :: "8 word" where "DIR = 2"
definition FILE :: "8 word" where "FILE = 1"

definition file_content :: string where
  "file_content = ''First ever file'' @ [CHR 0x0A]"

definition root_inode :: inode where
  "root_inode = zero_inode\<lparr>i_signature := 0xEEEE, block0 := 1, length0 := 1, permissions := 0x777, i_type := DIR,
     i_size := 4096\<rparr>"

definition file_inode :: inode where
  "file_inode = root_inode\<lparr>i_signature := 0xEEEE, block0 := 2, length0 := 1, permissions := 0x777, i_type := FILE,
     i_size := of_nat (length file_content)\<rparr>"

definition dir_entry_for :: "string \<Rightarrow> dir_entry" where
  "dir_entry_for name = \<lparr>d_signature = 0xDDDD, name_length = of_nat (length name)\<rparr>"

definition start_offset :: "partition_entry \<Rightarrow> 32 word" where
  "start_offset p = first_lba_sector p * 512"

definition block_offset :: "partition_entry \<Rightarrow> 32 word \<Rightarrow> 32 word" where
  "block_offset p block_num = first_lba_sector p * 512 + (512 + inode_table_size + block_num * BLOCK_SIZE)"

primrec write_all :: "8 word list list \<Rightarrow> write_result \<Rightarrow> disk \<Rightarrow> disk + disk" where
  "write_all [] io d = Inr d"
| "write_all (bs # bss) io d = and_then (disk_write io bs d) (write_all bss io)"

definition write_first_inodes :: "write_result \<Rightarrow> partition_entry \<Rightarrow> disk \<Rightarrow> disk + disk" where
  "write_first_inodes io p d =
     write_all [inode_bytes root_inode, inode_bytes file_inode] io (seek_set (unat (start_offset p + 512)) d)"

definition write_root :: "write_result \<Rightarrow> partition_entry \<Rightarrow> disk \<Rightarrow> disk + disk" where
  "write_root io p d =
     write_all [dir_entry_bytes (dir_entry_for ''/''), text_bytes ''/'', le_bytes 4 1] io
       (seek_set (unat (block_offset p 1)) d)"

definition write_file :: "write_result \<Rightarrow> partition_entry \<Rightarrow> disk \<Rightarrow> disk + disk" where
  "write_file io p d =
     write_all [dir_entry_bytes (dir_entry_for ''lagor.conf''), text_bytes ''lagor.conf'', text_bytes file_content] io
       (seek_set (unat (block_offset p 2)) d)"

definition format_partition :: "write_result \<Rightarrow> partition_entry \<Rightarrow> disk \<Rightarrow> disk + disk" where
  "format_partition io p d =
     (let d = seek_set (unat (start_offset p)) d;
          (_, d) = disk_read 10 d;
          d = seek_set (unat (start_offset p)) d
      in and_then (disk_write io (superblock_bytes (new_superblock p)) d) (\<lambda>d.
         let d = seek_set (unat (start_offset p + 512)) d
         in and_then (write_tables (unat (tot_units p)) io zero_inode d) (\<lambda>d.
            and_then (write_first_inodes io p d) (\<lambda>d.
            and_then (write_root io p d) (write_file io p)))))"

text \<open>The result is the exit status and the disk; \<open>garbage\<close> is what \<open>lagor_part_start\<close> holds at first. A
  wrong boot signature is only reported.\<close>

definition fs_main :: "write_result \<Rightarrow> int \<Rightarrow> partition_entry \<Rightarrow> disk \<Rightarrow> int \<times> disk" where
  "fs_main io disk_fd garbage d =
     (if disk_fd \<le> 0 then (1, d)
      else
        let (bs, d) = disk_read 512 d;
            p = find_lagor (partitions (read_mbr bs)) garbage
        in (case format_partition io p d of Inl d \<Rightarrow> (-1, d) | Inr d \<Rightarrow> (0, d)))"

subsection \<open>Writes that succeed\<close>

definition full :: "write_result \<Rightarrow> bool" where
  "full io \<longleftrightarrow> (\<forall>i n. io i n = int n)"

lemma disk_write_full:
  "full io \<Longrightarrow> disk_write io bs d =
     Inr (d\<lparr>on_disk := patch (disk_offset d) bs (on_disk d), disk_offset := disk_offset d + length bs,
            disk_writes := disk_writes d + 1\<rparr>)"
  by (simp add: disk_write_def full_def Let_def)

lemma and_then_simps [simp]: "and_then (Inl d) f = Inl d" "and_then (Inr d) f = f d"
  by (simp_all add: and_then_def)

lemma write_all_full:
  assumes "full io"
  shows "\<exists>w. write_all bss io d = Inr (d\<lparr>on_disk := patch (disk_offset d) (concat bss) (on_disk d),
    disk_offset := disk_offset d + length (concat bss), disk_writes := w\<rparr>)"
proof (induction bss arbitrary: d)
  case Nil
  show ?case by (intro exI [of _ "disk_writes d"]) simp
next
  case (Cons bs bss)
  show ?case using Cons.IH [of "d\<lparr>on_disk := patch (disk_offset d) bs (on_disk d),
      disk_offset := disk_offset d + length bs, disk_writes := disk_writes d + 1\<rparr>"]
    by (simp add: disk_write_full [OF assms] patch_patch add.assoc)
qed

lemma write_inodes_all: "write_inodes i io n d = write_all (replicate i (inode_bytes n)) io d"
  by (induction i arbitrary: d) (auto simp: and_then_def split: sum.splits)

text \<open>The disk after \<open>u\<close> cleared tables of inodes from \<open>a\<close> on.\<close>

definition cleared :: "nat \<Rightarrow> nat \<Rightarrow> (nat \<Rightarrow> 8 word) \<Rightarrow> (nat \<Rightarrow> 8 word)" where
  "cleared u a c = (\<lambda>x. if \<exists>j<u. a + j * 16908288 \<le> x \<and> x < a + j * 16908288 + 131072 then 0 else c x)"

lemma sizes:
  "unat INODES_IN_GROUP = 1024" "unat block_pool_size = 16777216" "block_pool_size = 16777216" "inode_table_size = 131072"
  "pool_size = 16908288"
  by (simp_all add: BLOCK_SIZE_def INODES_IN_GROUP_def INODE_SIZE_def block_pool_size_def inode_table_size_def pool_size_def)

lemma cleared_Suc: "cleared u (a + 16908288) (patch a (replicate 131072 0) c) = cleared (Suc u) a c"
proof
  fix x
  let ?in = "\<lambda>(a :: nat) j. a + j * 16908288 \<le> x \<and> x < a + j * 16908288 + 131072"
  have "(\<exists>j<Suc u. ?in a j) \<longleftrightarrow> ?in a 0 \<or> (\<exists>j<u. ?in a (Suc j))"
    using less_Suc_eq_0_disj by auto
  also have "(\<exists>j<u. ?in a (Suc j)) \<longleftrightarrow> (\<exists>j<u. ?in (a + 16908288) j)" by (simp add: add.assoc)
  finally have tables: "(\<exists>j<Suc u. ?in a j) \<longleftrightarrow> ?in a 0 \<or> (\<exists>j<u. ?in (a + 16908288) j)" .
  have zero: "?in a 0 \<Longrightarrow> replicate 131072 (0 :: 8 word) ! (x - a) = 0"
    by (rule nth_replicate, elim conjE, linarith)
  show "cleared u (a + 16908288) (patch a (replicate 131072 0) c) x = cleared (Suc u) a c x"
    using zero unfolding cleared_def patch_def tables length_replicate mult_zero_left add_0_right
    by (auto simp only: if_True if_False simp_thms split: if_split)
qed

lemma concat_replicate: "concat (replicate n (replicate m x)) = replicate (n * m) x"
  by (induction n) (simp_all add: replicate_add)

lemma write_tables_full:
  assumes "full io"
  shows "\<exists>w. write_tables u io zero_inode d = Inr (d\<lparr>on_disk := cleared u (disk_offset d) (on_disk d),
    disk_offset := disk_offset d + u * 16908288, disk_writes := w\<rparr>)"
proof (induction u arbitrary: d)
  case 0
  show ?case by (intro exI [of _ "disk_writes d"]) (simp add: cleared_def)
next
  case (Suc u)
  let ?zeros = "replicate 131072 (0 :: 8 word)"
  have zeros: "concat (replicate 1024 (inode_bytes zero_inode)) = ?zeros"
    unfolding zero_inode_bytes concat_replicate by simp
  obtain w where w: "write_inodes 1024 io zero_inode d = Inr (d\<lparr>on_disk := patch (disk_offset d) ?zeros (on_disk d),
      disk_offset := disk_offset d + 131072, disk_writes := w\<rparr>)"
    using write_all_full [OF assms, of "replicate 1024 (inode_bytes zero_inode)" d]
    unfolding write_inodes_all zeros by auto
  let ?d = "d\<lparr>on_disk := patch (disk_offset d) ?zeros (on_disk d), disk_offset := disk_offset d + 16908288,
      disk_writes := w\<rparr>"
  have "write_tables (Suc u) io zero_inode d = write_tables u io zero_inode ?d"
  proof -
    have "seek_cur 16777216 (d\<lparr>on_disk := patch (disk_offset d) ?zeros (on_disk d), disk_offset := disk_offset d + 131072,
        disk_writes := w\<rparr>) = ?d" by (simp add: seek_cur_def)
    then show ?thesis by (simp add: w sizes(1,2))
  qed
  then show ?case using Suc.IH [of ?d] by (simp add: cleared_Suc algebra_simps)
qed

subsection \<open>A partition that is large enough and ends below 4 GiB\<close>

definition part_first :: "partition_entry \<Rightarrow> nat" where
  "part_first p = unat (first_lba_sector p) * 512"

definition part_bytes :: "partition_entry \<Rightarrow> nat" where
  "part_bytes p = unat (num_sectors p) * 512"

definition part_fits :: "partition_entry \<Rightarrow> bool" where
  "part_fits p \<longleftrightarrow> part_first p + part_bytes p \<le> 2 ^ 32 \<and> 512 + 16908288 \<le> part_bytes p \<and> part_bytes p < 2 ^ 32"

text \<open>What the tool needs for its offsets not to wrap, whatever the size of the partition.\<close>

definition in_reach :: "partition_entry \<Rightarrow> bool" where
  "in_reach p \<longleftrightarrow> part_first p + part_bytes p \<le> 2 ^ 32 \<and> part_first p + 139810 \<le> 2 ^ 32 \<and> 512 \<le> part_bytes p \<and>
     part_bytes p < 2 ^ 32"

definition units :: "partition_entry \<Rightarrow> nat" where
  "units p = (part_bytes p - 512) div 16908288"

text \<open>Offsets inside the partition.\<close>

definition table_at :: "nat \<Rightarrow> nat" where
  "table_at u = 512 + u * 16908288"

definition block_at :: "nat \<Rightarrow> nat" where
  "block_at n = 512 + 131072 + n * 4096"

lemma fits_in_reach: "part_fits p \<Longrightarrow> in_reach p"
  by (simp add: part_fits_def in_reach_def)

lemma reach_numbers:
  assumes "in_reach p"
  shows "unat (start_offset p) = part_first p" "unat (start_offset p + 512) = part_first p + table_at 0"
    "unat (block_offset p 1) = part_first p + block_at 1" "unat (block_offset p 2) = part_first p + block_at 2"
    "unat (tot_units p) = units p"
proof -
  note f = assms [unfolded in_reach_def]
  have s: "unat (start_offset p) = part_first p"
    using f unfolding start_offset_def part_first_def by (simp add: unat_word_ariths)
  then show "unat (start_offset p) = part_first p" .
  show "unat (start_offset p + 512) = part_first p + table_at 0"
    using f s by (simp add: unat_word_ariths table_at_def)
  have b: "block_offset p k = start_offset p + (512 + 131072 + k * 4096)" for k
    by (simp add: block_offset_def start_offset_def sizes BLOCK_SIZE_def)
  show "unat (block_offset p 1) = part_first p + block_at 1" "unat (block_offset p 2) = part_first p + block_at 2"
    unfolding b using f s by (simp_all add: unat_word_ariths block_at_def)
  have "unat (num_sectors p * 512) = part_bytes p" using f by (simp add: unat_word_ariths part_bytes_def)
  moreover have "(512 :: 32 word) \<le> num_sectors p * 512"
    using calculation f by (simp add: word_le_nat_alt)
  ultimately have "unat (part_size p) = part_bytes p - 512" by (simp add: part_size_def unat_sub)
  then show u: "unat (tot_units p) = units p" by (simp add: tot_units_def units_def sizes unat_div)
qed

lemma fits_units:
  assumes "part_fits p"
  shows "0 < units p" "512 + units p * 16908288 \<le> part_bytes p" "units p \<le> 254"
proof -
  note f = assms [unfolded part_fits_def]
  have "16908288 \<le> part_bytes p - 512" using f by linarith
  then show "0 < units p" by (simp add: units_def div_greater_zero_iff)
  have "units p \<le> 2 ^ 32 div 16908288" unfolding units_def by (rule div_le_mono) (use f in linarith)
  then show "units p \<le> 254" by simp
  have "units p * 16908288 \<le> part_bytes p - 512" unfolding units_def by (rule div_times_less_eq_dividend)
  then show "512 + units p * 16908288 \<le> part_bytes p" using f by linarith
qed

definition first_inodes :: "8 word list" where
  "first_inodes = inode_bytes root_inode @ inode_bytes file_inode"

definition root_block :: "8 word list" where
  "root_block = dir_entry_bytes (dir_entry_for ''/'') @ text_bytes ''/'' @ le_bytes 4 1"

definition file_block :: "8 word list" where
  "file_block = dir_entry_bytes (dir_entry_for ''lagor.conf'') @ text_bytes ''lagor.conf'' @ text_bytes file_content"

lemma block_lengths: "length first_inodes = 256" "length root_block = 13" "length file_block = 34"
  "length (superblock_bytes (new_superblock p)) = 512"
  by (simp_all add: first_inodes_def root_block_def file_block_def structure_sizes text_bytes_def file_content_def
      new_superblock_def)

definition formatted :: "partition_entry \<Rightarrow> (nat \<Rightarrow> 8 word) \<Rightarrow> (nat \<Rightarrow> 8 word)" where
  "formatted p c =
     (let s = part_first p
      in patch (s + block_at 2) file_block (patch (s + block_at 1) root_block (patch (s + table_at 0) first_inodes
           (cleared (units p) (s + table_at 0) (patch s (superblock_bytes (new_superblock p)) c)))))"

lemma format_full:
  assumes "full io" "in_reach p"
  shows "\<exists>d'. format_partition io p d = Inr d' \<and> on_disk d' = formatted p (on_disk d)"
proof -
  note n = reach_numbers [OF assms(2)]
  let ?s = "part_first p"
  let ?c1 = "patch ?s (superblock_bytes (new_superblock p)) (on_disk d)"
  let ?c2 = "cleared (units p) (?s + table_at 0) ?c1"
  have "\<exists>d2. on_disk d2 = ?c2 \<and>
      and_then (disk_write io (superblock_bytes (new_superblock p)) (seek_set ?s (snd (disk_read 10 (seek_set ?s d)))))
        (\<lambda>d. write_tables (units p) io zero_inode (seek_set (?s + table_at 0) d)) = Inr d2"
    using write_tables_full [OF assms(1), of "units p" "d\<lparr>on_disk := ?c1, disk_writes := Suc (disk_writes d),
        disk_offset := ?s + table_at 0\<rparr>"]
    by (auto simp: disk_write_full [OF assms(1)] seek_set_def disk_read_def)
  then obtain d2 where d2: "on_disk d2 = ?c2"
      "and_then (disk_write io (superblock_bytes (new_superblock p)) (seek_set ?s (snd (disk_read 10 (seek_set ?s d)))))
        (\<lambda>d. write_tables (units p) io zero_inode (seek_set (?s + table_at 0) d)) = Inr d2" by blast
  obtain d3 where d3: "write_first_inodes io p d2 = Inr d3" "on_disk d3 = patch (?s + table_at 0) first_inodes ?c2"
    using write_all_full [OF assms(1), of "[inode_bytes root_inode, inode_bytes file_inode]" "seek_set (?s + table_at 0) d2"]
    by (auto simp: write_first_inodes_def n first_inodes_def seek_set_def d2(1))
  obtain d4 where d4: "write_root io p d3 = Inr d4" "on_disk d4 = patch (?s + block_at 1) root_block (on_disk d3)"
    using write_all_full [OF assms(1), of "[dir_entry_bytes (dir_entry_for ''/''), text_bytes ''/'', le_bytes 4 1]"
        "seek_set (?s + block_at 1) d3"]
    by (auto simp: write_root_def n root_block_def seek_set_def)
  obtain d5 where d5: "write_file io p d4 = Inr d5" "on_disk d5 = patch (?s + block_at 2) file_block (on_disk d4)"
    using write_all_full [OF assms(1), of "[dir_entry_bytes (dir_entry_for ''lagor.conf''), text_bytes ''lagor.conf'',
        text_bytes file_content]" "seek_set (?s + block_at 2) d4"]
    by (auto simp: write_file_def n file_block_def seek_set_def)
  have "format_partition io p d = Inr d5"
    using d2(2) d3(1) d4(1) d5(1)
    by (auto simp: format_partition_def n Let_def split_def and_then_def split: sum.splits)
  then show ?thesis using d3(2) d4(2) d5(2) by (simp add: formatted_def Let_def)
qed

subsection \<open>What is on the disk afterwards\<close>

lemma formatted_outside:
  assumes "part_fits p" "x < part_first p \<or> part_first p + part_bytes p \<le> x"
  shows "formatted p c x = c x"
proof -
  note n = fits_units(1,2) [OF assms(1)]
  have room: "512 + 131072 + 8192 + 34 \<le> part_bytes p" using assms(1) by (simp add: part_fits_def)
  have table: "512 + j * 16908288 + 131072 \<le> part_bytes p" if "j < units p" for j
  proof -
    have "Suc j * 16908288 \<le> units p * 16908288" using that by (intro mult_le_mono1) simp
    then show ?thesis using n(2) by simp
  qed
  have "cleared (units p) (part_first p + table_at 0) c' x = c' x" for c'
    using assms(2) table by (fastforce simp: cleared_def table_at_def)
  then show ?thesis using assms(2) room
    by (auto simp: formatted_def Let_def patch_outside block_lengths table_at_def block_at_def)
qed

lemma cleared_table:
  assumes "u < n" "i < 1024"
  shows "bytes_at (cleared n (s + table_at 0) c) (s + table_at u + i * 128) 128 = replicate 128 0"
proof (rule nth_equalityI)
  fix k assume "k < length (bytes_at (cleared n (s + table_at 0) c) (s + table_at u + i * 128) 128)"
  then have k: "k < 128" by simp
  have "i * 128 + k < 131072" using assms(2) k by linarith
  then have "s + table_at 0 + u * 16908288 \<le> s + table_at u + i * 128 + k \<and>
      s + table_at u + i * 128 + k < s + table_at 0 + u * 16908288 + 131072" by (simp add: table_at_def)
  then have "cleared n (s + table_at 0) c (s + table_at u + i * 128 + k) = 0"
    using assms(1) unfolding cleared_def by (subst if_P) blast+
  then show "bytes_at (cleared n (s + table_at 0) c) (s + table_at u + i * 128) 128 ! k = replicate 128 0 ! k"
    using k by (simp add: bytes_at_def)
qed simp

lemma formatted_table:
  assumes "u < units p" "i < 1024"
  shows "bytes_at (formatted p c) (part_first p + table_at u + i * 128) 128 = inode_bytes
    (if u = 0 \<and> i = 0 then root_inode else if u = 0 \<and> i = 1 then file_inode else zero_inode)"
proof -
  let ?s = "part_first p"
  let ?a = "?s + table_at u + i * 128"
  let ?c = "cleared (units p) (?s + table_at 0) (patch ?s (superblock_bytes (new_superblock p)) c)"
  have "?a + 128 \<le> ?s + block_at 1 \<or> ?s + block_at 2 + 34 \<le> ?a"
    using assms(2) by (cases "u = 0") (auto simp: table_at_def block_at_def)
  then have "bytes_at (formatted p c) ?a 128 = bytes_at (patch (?s + table_at 0) first_inodes ?c) ?a 128"
    unfolding formatted_def Let_def
    by (subst bytes_at_patch_apart; (subst bytes_at_patch_apart)?) (auto simp: block_lengths block_at_def)
  also have "\<dots> = inode_bytes
    (if u = 0 \<and> i = 0 then root_inode else if u = 0 \<and> i = 1 then file_inode else zero_inode)"
  proof (cases "u = 0 \<and> i < 2")
    case False
    then have "?s + table_at 0 + 256 \<le> ?a" by (auto simp: table_at_def)
    then have "bytes_at (patch (?s + table_at 0) first_inodes ?c) ?a 128 = bytes_at ?c ?a 128"
      by (intro bytes_at_patch_apart) (simp add: block_lengths)
    then show ?thesis using False cleared_table [OF assms] by (auto simp: zero_inode_bytes)
  next
    case True
    have "bytes_at (patch (?s + table_at 0) first_inodes ?c) (?s + table_at 0 + i * 128) 128 = take 128 (drop (i * 128) first_inodes)"
      using True by (intro nth_equalityI) (auto simp: bytes_at_def patch_def block_lengths)
    moreover have "i = 0 \<or> i = 1" using True by auto
    ultimately show ?thesis using True by (auto simp: first_inodes_def structure_sizes)
  qed
  finally show ?thesis .
qed

lemma formatted_blocks:
  "bytes_at (formatted p c) (part_first p + block_at 1) 13 = root_block"
    "bytes_at (formatted p c) (part_first p + block_at 2) 34 = file_block"
    "bytes_at (formatted p c) (part_first p) 512 = superblock_bytes (new_superblock p)"
proof -
  show "bytes_at (formatted p c) (part_first p + block_at 1) 13 = root_block"
    "bytes_at (formatted p c) (part_first p + block_at 2) 34 = file_block"
    by (simp_all add: formatted_def Let_def bytes_at_patch bytes_at_patch_apart block_lengths block_at_def)
  have "bytes_at (cleared n (s + table_at 0) c') s 512 = bytes_at c' s 512" for n s c'
    by (rule bytes_at_cong) (auto simp: cleared_def table_at_def)
  then show "bytes_at (formatted p c) (part_first p) 512 = superblock_bytes (new_superblock p)"
    by (simp add: formatted_def Let_def bytes_at_patch bytes_at_patch_apart block_lengths block_at_def table_at_def)
qed


definition example_disk :: disk where
  "example_disk = \<lparr>on_disk = (\<lambda>_. 0)(450 := 0x31, 455 := 0x08, 458 := 0x40, 459 := 0x9C, 510 := 0x55, 511 := 0xAA),
     disk_offset = 0, disk_writes = 0\<rparr>"

definition example_partition :: partition_entry where
  "example_partition = read_partition (map (on_disk example_disk) [446..<512])"

lemma example_found:
  "find_lagor (partitions (read_mbr (fst (disk_read 512 example_disk)))) garbage = example_partition"
  "part_first example_partition = 1048576" "part_bytes example_partition = 20480000"
proof -
  have lists: "[0..<4] = [0, 1, 2, 3 :: nat]" by (simp add: upt_rec)
  have "partitions (read_mbr (fst (disk_read 512 example_disk))) =
      map (\<lambda>i. read_partition (map (on_disk example_disk) [446 + 16 * i..<512])) [0, 1, 2, 3]"
    by (simp add: read_mbr_def disk_read_def lists drop_map example_disk_def)
  moreover have "part_type (read_partition (map (on_disk example_disk) [446..<512])) = 0x31"
    "part_type (read_partition (map (on_disk example_disk) [462..<512])) = 0"
    by (simp_all add: read_partition_def example_disk_def)
  ultimately show "find_lagor (partitions (read_mbr (fst (disk_read 512 example_disk)))) garbage = example_partition"
    by (simp add: example_partition_def)
  show "part_first example_partition = 1048576" "part_bytes example_partition = 20480000"
    by (simp_all add: part_first_def part_bytes_def example_partition_def read_partition_def example_disk_def
        drop_map take_map upt_rec_numeral)
qed


subsection \<open>Which partition\<close>

text \<open>The loop takes the last entry of type 0x31 before the first empty entry, and leaves the variable as it
  was when there is none; the boot signature has no influence.\<close>

theorem find_lagor_correct:
  "find_lagor ps found = last (found # filter (\<lambda>p. part_type p = 0x31) (takeWhile (\<lambda>p. part_type p \<noteq> 0) ps))"
  by (induction ps arbitrary: found) simp_all

lemma find_lagor_none: "\<forall>p \<in> set ps. part_type p \<noteq> 0x31 \<Longrightarrow> find_lagor ps found = found"
  by (induction ps) simp_all

text \<open>On a disk without a partition of type 0x31 the tool formats whatever the uninitialised variable
  describes: here the whole disk from its first byte, with the master boot record.\<close>

theorem no_partition_formats_garbage:
  assumes "full io" "0 < disk_fd" "part_fits garbage" "first_lba_sector garbage = 0"
    and "\<forall>p \<in> set (partitions (read_mbr (fst (disk_read 512 d)))). part_type p \<noteq> 0x31"
  shows "\<exists>d'. fs_main io disk_fd garbage d = (0, d') \<and>
    bytes_at (on_disk d') 0 512 = superblock_bytes (new_superblock garbage)"
proof -
  obtain d' where d': "format_partition io garbage (snd (disk_read 512 d)) = Inr d'" "on_disk d' = formatted garbage (on_disk d)"
    using format_full [OF assms(1) fits_in_reach [OF assms(3)], of "snd (disk_read 512 d)"] by (auto simp: disk_read_def)
  have "part_first garbage = 0" using assms(4) by (simp add: part_first_def)
  then show ?thesis using assms(2) d' formatted_blocks(3) [of garbage "on_disk d"]
    by (intro exI [of _ d']) (simp add: fs_main_def split_def Let_def find_lagor_none [OF assms(5)])
qed

definition empty_disk :: disk where
  "empty_disk = \<lparr>on_disk = (\<lambda>_. 0), disk_offset = 0, disk_writes = 0\<rparr>"

theorem no_partition_formats_garbage_witness:
  "\<exists>d'. fs_main (\<lambda>i n. int n) 3 (example_partition\<lparr>first_lba_sector := 0\<rparr>) empty_disk = (0, d') \<and>
    bytes_at (on_disk d') 0 512 = superblock_bytes (new_superblock (example_partition\<lparr>first_lba_sector := 0\<rparr>))"
proof -
  have "partitions (read_mbr (fst (disk_read 512 empty_disk))) =
      map (\<lambda>i. read_partition (map (\<lambda>_. 0) [446 + 16 * i..<512])) [0..<4]"
    by (simp add: read_mbr_def disk_read_def drop_map empty_disk_def)
  then have "\<forall>p \<in> set (partitions (read_mbr (fst (disk_read 512 empty_disk)))). part_type p \<noteq> 0x31"
    by (auto simp: read_partition_def)
  moreover have "part_bytes (example_partition\<lparr>first_lba_sector := 0\<rparr>) = 20480000"
    "part_first (example_partition\<lparr>first_lba_sector := 0\<rparr>) = 0"
    using example_found(3) by (simp_all add: part_bytes_def part_first_def)
  ultimately show ?thesis
    using no_partition_formats_garbage [of "\<lambda>i n. int n" 3 "example_partition\<lparr>first_lba_sector := 0\<rparr>" empty_disk]
    by (simp add: full_def part_fits_def)
qed

subsection \<open>The counts in the superblock\<close>

text \<open>The counts in the superblock do not wrap on a partition that fits: the pools fill the partition up to a
  rest smaller than a pool, and there are 1024 inodes in each, three of them taken. What is called a number
  of blocks is a number of bytes, 4096 times the number of blocks.\<close>

theorem superblock_counts:
  assumes "part_fits p"
  shows "unat (total_pools (new_superblock p)) = units p \<and>
    512 + units p * 16908288 \<le> part_bytes p \<and> part_bytes p < 512 + (units p + 1) * 16908288 \<and>
    unat (inodes_total (new_superblock p)) = units p * 1024 \<and>
    unat (inodes_free (new_superblock p)) + 3 = units p * 1024 \<and>
    unat (blocks_total (new_superblock p)) = units p * 4096 * unat (block_size (new_superblock p)) \<and>
    unat (blocks_free (new_superblock p)) + 2 = unat (blocks_total (new_superblock p))"
proof -
  note u = fits_units [OF assms]
  have t: "unat (tot_units p) = units p" by (rule reach_numbers(5) [OF fits_in_reach [OF assms]])
  have i: "unat (INODES_IN_GROUP * tot_units p) = units p * 1024" "unat (tot_units p * 16777216) = units p * 16777216"
    using u(3) by (simp_all add: unat_word_ariths t sizes)
  moreover have "unat (INODES_IN_GROUP * tot_units p - 3) = units p * 1024 - 3"
    using i(1) u(1) by (subst unat_sub) (simp_all add: word_le_nat_alt)
  moreover have "unat (tot_units p * 16777216 - 2) = units p * 16777216 - 2"
    using i(2) u(1) by (subst unat_sub) (simp_all add: word_le_nat_alt)
  moreover have "part_bytes p < 512 + (units p + 1) * 16908288"
    using dividend_less_div_times [of 16908288 "part_bytes p - 512"] by (simp add: units_def)
  ultimately show ?thesis using u(1,2) by (simp add: new_superblock_def sizes t BLOCK_SIZE_def)
qed

theorem superblock_counts_witness:
  "unat (total_pools (new_superblock example_partition)) = 1 \<and> unat (inodes_free (new_superblock example_partition)) = 1021"
  using superblock_counts [of example_partition] example_found(2,3) by (simp add: part_fits_def units_def)

subsection \<open>Where 32 bits are not enough\<close>

lemma times_512_wraps: "take_bit 23 (x :: 32 word) * 512 = x * 512"
proof -
  have "unat (take_bit 23 x) = unat x mod 2 ^ 23"
    using unsigned_take_bit_eq [where ?'a = nat, of 23 x] by (simp only: take_bit_eq_mod)
  then have "unat (take_bit 23 x) * 512 mod 2 ^ 32 = unat x mod 2 ^ 23 * 512 mod 2 ^ 32" by simp
  also have "\<dots> = unat x * 512 mod 2 ^ 32" using mod_mult_mult2 [of "unat x" 512 "2 ^ 23"] by simp
  finally show ?thesis by (simp add: word_unat_eq_iff unat_word_ariths)
qed

text \<open>Byte offsets are computed with 32 bits: a partition is formatted as if its first sector and its number
  of sectors were taken modulo \<open>2 ^ 23\<close>, so that one that begins behind the first 4 GiB of the disk is written
  into the first 4 GiB, whatever lies there.\<close>

theorem format_wraps:
  "format_partition io p d =
   format_partition io (p\<lparr>first_lba_sector := take_bit 23 (first_lba_sector p), num_sectors := take_bit 23 (num_sectors p)\<rparr>) d"
  (is "_ = format_partition io ?p d")
proof -
  have s: "start_offset ?p = start_offset p" "part_size ?p = part_size p" "block_offset ?p k = block_offset p k" for k
    by (simp_all add: start_offset_def part_size_def block_offset_def times_512_wraps)
  have t: "tot_units ?p = tot_units p" by (simp add: tot_units_def s)
  have w: "new_superblock ?p = new_superblock p" "write_first_inodes io ?p = write_first_inodes io p"
    "write_root io ?p = write_root io p" "write_file io ?p = write_file io p"
    by (simp_all add: fun_eq_iff new_superblock_def write_first_inodes_def write_root_def write_file_def s t
        del: write_all.simps)
  show ?thesis unfolding format_partition_def s t w by (rule refl)
qed

text \<open>A partition with room for no pool is formatted all the same: the superblock then counts some four
  thousand million free blocks in no pool, and when the partition is smaller than an inode table the root
  directory is written behind its end.\<close>

theorem small_partition_overrun:
  assumes "full io" "in_reach p" "part_bytes p \<le> block_at 1"
  shows "\<exists>d'. format_partition io p d = Inr d' \<and> total_pools (new_superblock p) = 0 \<and>
    unat (blocks_free (new_superblock p)) = 2 ^ 32 - 2 \<and>
    bytes_at (on_disk d') (part_first p + block_at 1) 13 = root_block \<and>
    part_first p + part_bytes p \<le> part_first p + block_at 1"
proof -
  have "units p = 0" using assms(3) by (simp add: units_def block_at_def)
  then have "tot_units p = 0" using reach_numbers(5) [OF assms(2)] by (simp add: unat_eq_0)
  then have "total_pools (new_superblock p) = 0" "unat (blocks_free (new_superblock p)) = 2 ^ 32 - 2"
    by (simp_all add: new_superblock_def)
  then show ?thesis using format_full [OF assms(1,2), of d] formatted_blocks(1) [of p "on_disk d"] assms(3) by auto
qed

theorem small_partition_overrun_witness:
  "\<exists>d'. format_partition (\<lambda>i n. int n) (example_partition\<lparr>num_sectors := 100\<rparr>) empty_disk = Inr d' \<and>
    bytes_at (on_disk d') (1048576 + block_at 1) 13 = root_block"
proof -
  have "part_bytes (example_partition\<lparr>num_sectors := 100\<rparr>) = 51200"
    "part_first (example_partition\<lparr>num_sectors := 100\<rparr>) = 1048576"
    using example_found(2) by (simp_all add: part_bytes_def part_first_def)
  then show ?thesis
    using small_partition_overrun [of "\<lambda>i n. int n" "example_partition\<lparr>num_sectors := 100\<rparr>" empty_disk]
    by (auto simp: full_def in_reach_def block_at_def)
qed

subsection \<open>Failing writes\<close>

definition silent :: "write_result \<Rightarrow> bool" where
  "silent io \<longleftrightarrow> (\<forall>i n. io i n = 0)"

lemma write_all_silent: "silent io \<Longrightarrow> \<exists>d'. write_all bss io d = Inr d' \<and> on_disk d' = on_disk d"
proof (induction bss arbitrary: d)
  case (Cons bs bss)
  show ?case using Cons.IH [OF Cons.prems, of "d\<lparr>disk_writes := Suc (disk_writes d)\<rparr>"] Cons.prems
    by (simp add: disk_write_def silent_def Let_def)
qed simp

lemma write_tables_silent: "silent io \<Longrightarrow> \<exists>d'. write_tables u io n d = Inr d' \<and> on_disk d' = on_disk d"
proof (induction u arbitrary: d)
  case (Suc u)
  obtain d1 where d1: "write_inodes (unat INODES_IN_GROUP) io n d = Inr d1" "on_disk d1 = on_disk d"
    using write_all_silent [OF Suc.prems] unfolding write_inodes_all by blast
  then show ?case using Suc.IH [OF Suc.prems, of "seek_cur (unat block_pool_size) d1"] by (simp add: seek_cur_def)
qed simp

lemma format_silent:
  assumes "silent io"
  shows "\<exists>d'. format_partition io p d = Inr d' \<and> on_disk d' = on_disk d"
proof -
  have "\<exists>d'. and_then m f = Inr d' \<and> on_disk d' = on_disk d"
    if "\<exists>d1. m = Inr d1 \<and> on_disk d1 = on_disk d" "\<And>d1. \<exists>d2. f d1 = Inr d2 \<and> on_disk d2 = on_disk d1" for m f d
    using that by (metis and_then_simps(2))
  note chain = this
  have w: "\<exists>d1. disk_write io bs d = Inr d1 \<and> on_disk d1 = on_disk d" for bs d
    using assms by (simp add: disk_write_def silent_def Let_def)
  have a: "\<exists>d1. write_all bss io (seek_set x d) = Inr d1 \<and> on_disk d1 = on_disk d" for bss x d
    using write_all_silent [OF assms, of bss "seek_set x d"] by (simp add: seek_set_def)
  have t: "\<exists>d1. write_tables u io n (seek_set x d) = Inr d1 \<and> on_disk d1 = on_disk d" for u n x d
    using write_tables_silent [OF assms, of u n "seek_set x d"] by (simp add: seek_set_def)
  have "\<exists>d'. format_partition io p d = Inr d' \<and>
      on_disk d' = on_disk (seek_set (unat (start_offset p)) (snd (disk_read 10 (seek_set (unat (start_offset p)) d))))"
    unfolding format_partition_def Let_def split_def write_first_inodes_def write_root_def write_file_def
    by (intro chain w t a)
  then show ?thesis by (simp add: seek_set_def disk_read_def)
qed

text \<open>C31: when the first write fails, the tool ends with status -1 and the disk is as it was. A write that
  stores nothing without failing goes unnoticed: on a disk where every write does, the tool reports success
  and has changed nothing.\<close>

theorem write_errors:
  assumes "0 < disk_fd"
  shows "(io (disk_writes d) 512 = -1 \<longrightarrow>
      fst (fs_main io disk_fd garbage d) = -1 \<and> on_disk (snd (fs_main io disk_fd garbage d)) = on_disk d) \<and>
    (silent io \<longrightarrow>
      fst (fs_main io disk_fd garbage d) = 0 \<and> on_disk (snd (fs_main io disk_fd garbage d)) = on_disk d)"
proof (intro conjI impI)
  let ?d = "snd (disk_read 512 d)"
  let ?p = "find_lagor (partitions (read_mbr (fst (disk_read 512 d)))) garbage"
  have d: "on_disk ?d = on_disk d" "disk_writes ?d = disk_writes d" by (simp_all add: disk_read_def)
  have main: "fs_main io disk_fd garbage d = (case format_partition io ?p ?d of Inl d \<Rightarrow> (-1, d) | Inr d \<Rightarrow> (0, d))"
    using assms by (simp add: fs_main_def split_def Let_def)
  show "fst (fs_main io disk_fd garbage d) = -1" "on_disk (snd (fs_main io disk_fd garbage d)) = on_disk d"
    if f: "io (disk_writes d) 512 = -1"
  proof -
    have "\<exists>d'. format_partition io ?p ?d = Inl d' \<and> on_disk d' = on_disk d"
      using f by (simp add: format_partition_def Let_def split_def disk_write_def block_lengths disk_read_def seek_set_def
          and_then_def)
    then show "fst (fs_main io disk_fd garbage d) = -1" "on_disk (snd (fs_main io disk_fd garbage d)) = on_disk d"
      unfolding main by auto
  qed
  show "fst (fs_main io disk_fd garbage d) = 0" "on_disk (snd (fs_main io disk_fd garbage d)) = on_disk d" if "silent io"
    using format_silent [OF that, of ?p ?d] unfolding main d by auto
qed

theorem write_errors_witness:
  "fst (fs_main (\<lambda>i n. -1) 3 undefined empty_disk) = -1 \<and> fst (fs_main (\<lambda>i n. 0) 3 undefined empty_disk) = 0"
  using write_errors [of 3 "\<lambda>i n. -1" empty_disk undefined] write_errors [of 3 "\<lambda>i n. 0" empty_disk undefined]
  by (simp add: silent_def)

end
