(* ===== verification/ChainLoader.thy ===== *)
theory ChainLoader
  imports Machine FsImage
begin

text \<open>
  The receiver of the chain loader (\<open>src/tools/chainloader/imagercv/imgrecv.c\<close>): it sets up the serial line,
  asks for a kernel until it is offered one of an acceptable size, stores it at the load address and
  returns the address to continue at.

  The address of the peripherals and the word size come from the build and are the parameters \<open>base\<close> and
  \<open>wordsize\<close>. Memory is a function from addresses to bytes; \<open>char\<close> is unsigned on this processor. The busy
  loops that only pass time are left out.
\<close>

subsection \<open>Registers\<close>

definition GPFSEL1_at :: "nat \<Rightarrow> nat" where "GPFSEL1_at base = base + 0x00200004"
definition GPPUD_at :: "nat \<Rightarrow> nat" where "GPPUD_at base = base + 0x00200094"
definition GPPUDCLK0_at :: "nat \<Rightarrow> nat" where "GPPUDCLK0_at base = base + 0x00200098"
definition UART0_DR :: "nat \<Rightarrow> nat" where "UART0_DR base = base + 0x00201000"
definition UART0_FR :: "nat \<Rightarrow> nat" where "UART0_FR base = base + 0x00201018"
definition UART0_IBRD :: "nat \<Rightarrow> nat" where "UART0_IBRD base = base + 0x00201024"
definition UART0_FBRD :: "nat \<Rightarrow> nat" where "UART0_FBRD base = base + 0x00201028"
definition UART0_LCRH :: "nat \<Rightarrow> nat" where "UART0_LCRH base = base + 0x0020102C"
definition UART0_CR :: "nat \<Rightarrow> nat" where "UART0_CR base = base + 0x00201030"
definition UART0_ICR :: "nat \<Rightarrow> nat" where "UART0_ICR base = base + 0x00201044"
definition AUX_ENABLE :: "nat \<Rightarrow> nat" where "AUX_ENABLE base = base + 0x00215004"
definition MBOX_READ_at :: "nat \<Rightarrow> nat" where "MBOX_READ_at base = base + 0x0000B880"
definition MBOX_WRITE_at :: "nat \<Rightarrow> nat" where "MBOX_WRITE_at base = base + 0x0000B880 + 0x20"
definition MBOX_STATUS_at :: "nat \<Rightarrow> nat" where "MBOX_STATUS_at base = base + 0x0000B880 + 0x18"

lemmas receiver_registers = GPFSEL1_at_def GPPUD_at_def GPPUDCLK0_at_def UART0_DR_def UART0_FR_def UART0_IBRD_def
  UART0_FBRD_def UART0_LCRH_def UART0_CR_def UART0_ICR_def AUX_ENABLE_def MBOX_READ_at_def MBOX_WRITE_at_def
  MBOX_STATUS_at_def

definition MAILBOX_FULL :: "32 word" where "MAILBOX_FULL = 0x80000000"
definition MAILBOX_EMPTY :: "32 word" where "MAILBOX_EMPTY = 0x40000000"

subsection \<open>The serial line and the mailbox\<close>

text \<open>\<open>do { } while (*reg & flag)\<close>\<close>

partial_function (option) poll_while :: "device \<Rightarrow> nat \<Rightarrow> 32 word \<Rightarrow> history \<Rightarrow> history option" where
  "poll_while dev reg flag h =
     (let (v, h) = mmio_read dev reg h in if v AND flag \<noteq> 0 then poll_while dev reg flag h else Some h)"

declare poll_while.simps [code]

definition uart_send :: "device \<Rightarrow> nat \<Rightarrow> 32 word \<Rightarrow> history \<Rightarrow> history option" where
  "uart_send dev base c h = do {
     h \<leftarrow> poll_while dev (UART0_FR base) 0x20 h;
     Some (mmio_write (UART0_DR base) c h)
   }"

definition uart_getc :: "device \<Rightarrow> nat \<Rightarrow> history \<Rightarrow> (8 word \<times> history) option" where
  "uart_getc dev base h = do {
     h \<leftarrow> poll_while dev (UART0_FR base) 0x10 h;
     let (v, h) = mmio_read dev (UART0_DR base) h;
     Some (ucast v, h)
   }"

partial_function (option) mailbox_reply :: "device \<Rightarrow> nat \<Rightarrow> 32 word \<Rightarrow> history \<Rightarrow> history option" where
  "mailbox_reply dev base r h = do {
     h \<leftarrow> poll_while dev (MBOX_STATUS_at base) MAILBOX_EMPTY h;
     let (v, h) = mmio_read dev (MBOX_READ_at base) h;
     (if r \<noteq> v then mailbox_reply dev base r h else Some h)
   }"

declare mailbox_reply.simps [code]

definition mailbox_address :: "nat \<Rightarrow> 32 word" where
  "mailbox_address mbox = (of_nat mbox AND NOT 0xF) OR 8"

definition set_clock :: "device \<Rightarrow> nat \<Rightarrow> nat \<Rightarrow> history \<Rightarrow> history option" where
  "set_clock dev base mbox h = do {
     let r = mailbox_address mbox;
     h \<leftarrow> poll_while dev (MBOX_STATUS_at base) MAILBOX_FULL h;
     mailbox_reply dev base r (mmio_write (MBOX_WRITE_at base) r h)
   }"

definition map_pins :: "device \<Rightarrow> nat \<Rightarrow> history \<Rightarrow> history" where
  "map_pins dev base h =
     (let (r, h) = mmio_read dev (GPFSEL1_at base) h;
          r = r AND NOT (push_bit 12 7 OR push_bit 15 7);
          r = r OR (push_bit 12 4 OR push_bit 15 4);
          h = mmio_write (GPFSEL1_at base) r h;
          h = mmio_write (GPPUD_at base) 0 h;
          h = mmio_write (GPPUDCLK0_at base) (push_bit 14 1 OR push_bit 15 1) h
      in mmio_write (GPPUDCLK0_at base) 0 h)"

definition setup_line :: "device \<Rightarrow> nat \<Rightarrow> nat \<Rightarrow> history \<Rightarrow> history option" where
  "setup_line dev base mbox h = do {
     let h = mmio_write (UART0_CR base) 0 h;
     let h = mmio_write (AUX_ENABLE base) 0 h;
     h \<leftarrow> set_clock dev base mbox h;
     let h = map_pins dev base h;
     let h = mmio_write (UART0_ICR base) 0x7FF h;
     let h = mmio_write (UART0_IBRD base) 2 h;
     let h = mmio_write (UART0_FBRD base) 0xB h;
     let h = mmio_write (UART0_LCRH base) (push_bit 5 3) h;
     Some (mmio_write (UART0_CR base) 0x301 h)
   }"

subsection \<open>The protocol\<close>

definition get_size :: "device \<Rightarrow> nat \<Rightarrow> history \<Rightarrow> (32 word \<times> history) option" where
  "get_size dev base h = do {
     (a, h) \<leftarrow> uart_getc dev base h;
     (b, h) \<leftarrow> uart_getc dev base h;
     (c, h) \<leftarrow> uart_getc dev base h;
     (d, h) \<leftarrow> uart_getc dev base h;
     Some (ucast a OR push_bit 8 (ucast b) OR push_bit 16 (ucast c) OR push_bit 24 (ucast d), h)
   }"

text \<open>\<open>size\<close> is an \<open>int\<close>.\<close>

definition bad_size :: "32 word \<Rightarrow> bool" where
  "bad_size s \<longleftrightarrow> sint s < 32 \<or> sint s \<ge> 1024 * 1024 * 1024"

definition char_code :: "char \<Rightarrow> 32 word" where
  "char_code c = of_nat (of_char c)"

partial_function (option) negotiate :: "device \<Rightarrow> nat \<Rightarrow> history \<Rightarrow> (32 word \<times> history) option" where
  "negotiate dev base h = do {
     h \<leftarrow> uart_send dev base 3 h;
     h \<leftarrow> uart_send dev base 3 h;
     h \<leftarrow> uart_send dev base 3 h;
     (s, h) \<leftarrow> get_size dev base h;
     (if bad_size s then do {
        h \<leftarrow> uart_send dev base (char_code CHR ''S'') h;
        h \<leftarrow> uart_send dev base (char_code CHR ''E'') h;
        negotiate dev base h
      }
      else do {
        h \<leftarrow> uart_send dev base (char_code CHR ''O'') h;
        h \<leftarrow> uart_send dev base (char_code CHR ''K'') h;
        Some (s, h)
      })
   }"

declare negotiate.simps [code]

type_synonym memory = "nat \<Rightarrow> 8 word"

primrec read_image :: "nat \<Rightarrow> device \<Rightarrow> nat \<Rightarrow> nat \<Rightarrow> memory \<Rightarrow> history \<Rightarrow> (memory \<times> history) option" where
  "read_image 0 dev base p mem h = Some (mem, h)"
| "read_image (Suc n) dev base p mem h = do {
     (c, h) \<leftarrow> uart_getc dev base h;
     read_image n dev base (p + 1) (mem(p := c)) h
   }"

definition is_elf :: "memory \<Rightarrow> nat \<Rightarrow> bool" where
  "is_elf mem loadaddr \<longleftrightarrow> mem loadaddr = 0x7f \<and> mem (loadaddr + 1) = of_char CHR ''E'' \<and>
     mem (loadaddr + 2) = of_char CHR ''L'' \<and> mem (loadaddr + 3) = of_char CHR ''F''"

definition entry_point :: "nat \<Rightarrow> memory \<Rightarrow> nat \<Rightarrow> nat" where
  "entry_point wordsize mem loadaddr =
     (if is_elf mem loadaddr
      then le_value (map (\<lambda>i. mem (loadaddr + 24 + i)) [0..<if wordsize = 64 then 8 else 4])
      else loadaddr)"

definition receiver ::
  "device \<Rightarrow> nat \<Rightarrow> nat \<Rightarrow> nat \<Rightarrow> nat \<Rightarrow> memory \<Rightarrow> history \<Rightarrow> (nat \<times> memory \<times> history) option" where
  "receiver dev base wordsize mbox loadaddr mem h = do {
     h \<leftarrow> setup_line dev base mbox h;
     (s, h) \<leftarrow> negotiate dev base h;
     (mem, h) \<leftarrow> read_image (nat (sint s)) dev base loadaddr mem h;
     Some (entry_point wordsize mem loadaddr, mem, h)
   }"

subsection \<open>A line that works\<close>

text \<open>\<open>clear_after k\<close>: the flag is clear after \<open>k\<close> more reads of the register.\<close>

primrec reads :: "device \<Rightarrow> nat \<Rightarrow> nat \<Rightarrow> history \<Rightarrow> history" where
  "reads dev reg 0 h = h"
| "reads dev reg (Suc k) h = reads dev reg k (snd (mmio_read dev reg h))"

definition unblocks :: "device \<Rightarrow> nat \<Rightarrow> 32 word \<Rightarrow> bool" where
  "unblocks dev reg flag \<longleftrightarrow> (\<forall>h. \<exists>k. dev (reads dev reg k h) reg AND flag = 0)"

definition reads_of :: "nat \<Rightarrow> history \<Rightarrow> nat" where
  "reads_of reg h = length (filter (\<lambda>a. case a of Read r v \<Rightarrow> r = reg | Write r v \<Rightarrow> False) h)"

definition sent_on :: "nat \<Rightarrow> history \<Rightarrow> 8 word list" where
  "sent_on reg h = map (\<lambda>(r, v). ucast v) (filter (\<lambda>(r, v). r = reg) (writes_of h))"

lemma counts [simp]:
  "reads_of reg (mmio_write r v h) = reads_of reg h"
  "reads_of reg (snd (mmio_read dev r h)) = (if r = reg then Suc (reads_of reg h) else reads_of reg h)"
  "sent_on reg (mmio_write r v h) = sent_on reg h @ (if r = reg then [ucast v] else [])"
  "sent_on reg (snd (mmio_read dev r h)) = sent_on reg h"
  by (simp_all add: reads_of_def sent_on_def mmio_write_def mmio_read_def)

lemma poll_while_returns:
  assumes "unblocks dev reg flag"
  shows "\<exists>h'. poll_while dev reg flag h = Some h' \<and> (\<forall>r. r \<noteq> reg \<longrightarrow> reads_of r h' = reads_of r h) \<and>
    (\<forall>r. sent_on r h' = sent_on r h)"
proof -
  obtain k where "dev (reads dev reg k h) reg AND flag = 0" using assms unfolding unblocks_def by blast
  then show ?thesis
  proof (induction k arbitrary: h)
    case 0
    then show ?case by (subst poll_while.simps) (simp add: case_prod_beta Let_def)
  next
    case (Suc k)
    obtain h' where "poll_while dev reg flag (snd (mmio_read dev reg h)) = Some h'"
        "\<forall>r. r \<noteq> reg \<longrightarrow> reads_of r h' = reads_of r h" "\<forall>r. sent_on r h' = sent_on r h"
      using Suc.IH [of "snd (mmio_read dev reg h)"] Suc.prems by auto
    then show ?case by (subst poll_while.simps) (simp add: case_prod_beta Let_def)
  qed
qed

text \<open>The line delivers the bytes of \<open>stream\<close>, one per read of the data register; the mailbox delivers the
  answer to \<open>r\<close> after some messages for others.\<close>

definition serial_line :: "device \<Rightarrow> nat \<Rightarrow> (nat \<Rightarrow> 8 word) \<Rightarrow> bool" where
  "serial_line dev base stream \<longleftrightarrow> unblocks dev (UART0_FR base) 0x20 \<and> unblocks dev (UART0_FR base) 0x10 \<and>
     (\<forall>h. dev h (UART0_DR base) = ucast (stream (reads_of (UART0_DR base) h)))"

definition mailbox_answers :: "device \<Rightarrow> nat \<Rightarrow> 32 word \<Rightarrow> bool" where
  "mailbox_answers dev base r \<longleftrightarrow> unblocks dev (MBOX_STATUS_at base) MAILBOX_FULL \<and>
     unblocks dev (MBOX_STATUS_at base) MAILBOX_EMPTY \<and>
     (\<exists>n. \<forall>h. n \<le> reads_of (MBOX_READ_at base) h \<longrightarrow> dev h (MBOX_READ_at base) = r)"

lemma apart_registers [simp]:
  "UART0_FR base \<noteq> UART0_DR base" "UART0_DR base \<noteq> UART0_FR base" "UART0_DR base \<noteq> MBOX_STATUS_at base" "MBOX_STATUS_at base \<noteq> UART0_DR base"
  "MBOX_READ_at base \<noteq> UART0_DR base" "MBOX_WRITE_at base \<noteq> UART0_DR base" "GPFSEL1_at base \<noteq> UART0_DR base"
  "GPPUD_at base \<noteq> UART0_DR base" "GPPUDCLK0_at base \<noteq> UART0_DR base" "UART0_IBRD base \<noteq> UART0_DR base"
  "UART0_FBRD base \<noteq> UART0_DR base" "UART0_LCRH base \<noteq> UART0_DR base" "UART0_CR base \<noteq> UART0_DR base"
  "UART0_ICR base \<noteq> UART0_DR base" "AUX_ENABLE base \<noteq> UART0_DR base" "MBOX_READ_at base \<noteq> MBOX_STATUS_at base"
  by (simp_all add: receiver_registers)

lemma uart_send_sends:
  assumes "serial_line dev base stream"
  shows "\<exists>h'. uart_send dev base c h = Some h' \<and> reads_of (UART0_DR base) h' = reads_of (UART0_DR base) h \<and>
    sent_on (UART0_DR base) h' = sent_on (UART0_DR base) h @ [ucast c]"
  using poll_while_returns [of dev "UART0_FR base" "0x20" h] assms
  by (fastforce simp: serial_line_def uart_send_def)

lemma uart_getc_gets:
  assumes "serial_line dev base stream" "reads_of (UART0_DR base) h = n"
  shows "\<exists>h'. uart_getc dev base h = Some (stream n, h') \<and> reads_of (UART0_DR base) h' = Suc n \<and>
    sent_on (UART0_DR base) h' = sent_on (UART0_DR base) h"
proof -
  obtain h1 where h1: "poll_while dev (UART0_FR base) 0x10 h = Some h1"
      "\<forall>r. r \<noteq> UART0_FR base \<longrightarrow> reads_of r h1 = reads_of r h" "\<forall>r. sent_on r h1 = sent_on r h"
    using poll_while_returns [of dev "UART0_FR base" "0x10" h] assms(1) unfolding serial_line_def by blast
  have n: "reads_of (UART0_DR base) h1 = n" using h1(2) assms(2) by simp
  then have "dev h1 (UART0_DR base) = ucast (stream n)" using assms(1) by (simp add: serial_line_def)
  moreover have "ucast (ucast (stream n) :: 32 word) = stream n" by (rule bit_word_eqI) (auto simp: bit_ucast_iff)
  ultimately show ?thesis using h1(1,3) n by (simp add: uart_getc_def case_prod_beta Let_def)
qed

text \<open>The size the four bytes at a place of the stream make.\<close>

definition size_at :: "(nat \<Rightarrow> 8 word) \<Rightarrow> nat \<Rightarrow> 32 word" where
  "size_at stream n = ucast (stream n) OR push_bit 8 (ucast (stream (n + 1))) OR push_bit 16 (ucast (stream (n + 2))) OR
     push_bit 24 (ucast (stream (n + 3)))"

lemma get_size_gets:
  assumes "serial_line dev base stream" "reads_of (UART0_DR base) h = n"
  shows "\<exists>h'. get_size dev base h = Some (size_at stream n, h') \<and> reads_of (UART0_DR base) h' = n + 4 \<and>
    sent_on (UART0_DR base) h' = sent_on (UART0_DR base) h"
proof -
  note get = uart_getc_gets [OF assms(1)]
  obtain h1 where h1: "uart_getc dev base h = Some (stream n, h1)" "reads_of (UART0_DR base) h1 = Suc n"
    "sent_on (UART0_DR base) h1 = sent_on (UART0_DR base) h" using get [OF assms(2)] by blast
  obtain h2 where h2: "uart_getc dev base h1 = Some (stream (Suc n), h2)" "reads_of (UART0_DR base) h2 = Suc (Suc n)"
    "sent_on (UART0_DR base) h2 = sent_on (UART0_DR base) h1" using get [OF h1(2)] by blast
  obtain h3 where h3: "uart_getc dev base h2 = Some (stream (Suc (Suc n)), h3)"
    "reads_of (UART0_DR base) h3 = Suc (Suc (Suc n))"
    "sent_on (UART0_DR base) h3 = sent_on (UART0_DR base) h2" using get [OF h2(2)] by blast
  obtain h4 where h4: "uart_getc dev base h3 = Some (stream (Suc (Suc (Suc n))), h4)"
    "reads_of (UART0_DR base) h4 = Suc (Suc (Suc (Suc n)))"
    "sent_on (UART0_DR base) h4 = sent_on (UART0_DR base) h3" using get [OF h3(2)] by blast
  show ?thesis using h1 h2 h3 h4 by (simp add: get_size_def size_at_def eval_nat_numeral)
qed

definition request_bytes :: "8 word list" where "request_bytes = [3, 3, 3]"
definition refusal :: "8 word list" where "refusal = map of_char ''SE''"
definition acceptance :: "8 word list" where "acceptance = map of_char ''OK''"

lemma char_code_byte: "ucast (char_code c) = (of_char c :: 8 word)"
proof -
  have "ucast (of_nat n :: 32 word) = (of_nat n :: 8 word)" for n
    by (rule bit_word_eqI) (simp add: bit_simps)
  then have "ucast (char_code c) = (of_nat (of_char c) :: 8 word)" unfolding char_code_def .
  then show ?thesis by (simp only: of_nat_of_char)
qed

lemma ask_and_answer:
  assumes "serial_line dev base stream" "reads_of (UART0_DR base) h = n"
  defines "s \<equiv> size_at stream n"
  shows "\<exists>h'. reads_of (UART0_DR base) h' = n + 4 \<and>
    sent_on (UART0_DR base) h' = sent_on (UART0_DR base) h @ request_bytes @ (if bad_size s then refusal else acceptance) \<and>
    negotiate dev base h = (if bad_size s then negotiate dev base h' else Some (s, h'))"
proof -
  note send = uart_send_sends [OF assms(1)]
  obtain h1 where h1: "uart_send dev base 3 h = Some h1" "reads_of (UART0_DR base) h1 = reads_of (UART0_DR base) h"
    "sent_on (UART0_DR base) h1 = sent_on (UART0_DR base) h @ [ucast (3 :: 32 word)]" using send by blast
  obtain h2 where h2: "uart_send dev base 3 h1 = Some h2" "reads_of (UART0_DR base) h2 = reads_of (UART0_DR base) h1"
    "sent_on (UART0_DR base) h2 = sent_on (UART0_DR base) h1 @ [ucast (3 :: 32 word)]" using send by blast
  obtain h3 where h3: "uart_send dev base 3 h2 = Some h3" "reads_of (UART0_DR base) h3 = reads_of (UART0_DR base) h2"
    "sent_on (UART0_DR base) h3 = sent_on (UART0_DR base) h2 @ [ucast (3 :: 32 word)]" using send by blast
  have n: "reads_of (UART0_DR base) h3 = n" using h1(2) h2(2) h3(2) assms(2) by simp
  obtain h4 where h4: "get_size dev base h3 = Some (s, h4)" "reads_of (UART0_DR base) h4 = n + 4"
    "sent_on (UART0_DR base) h4 = sent_on (UART0_DR base) h3" using get_size_gets [OF assms(1) n] unfolding s_def by blast
  let ?c = "if bad_size s then CHR ''S'' else CHR ''O''" and ?d = "if bad_size s then CHR ''E'' else CHR ''K''"
  obtain h5 where h5: "uart_send dev base (char_code ?c) h4 = Some h5"
    "reads_of (UART0_DR base) h5 = reads_of (UART0_DR base) h4"
    "sent_on (UART0_DR base) h5 = sent_on (UART0_DR base) h4 @ [ucast (char_code ?c)]" using send by blast
  obtain h6 where h6: "uart_send dev base (char_code ?d) h5 = Some h6"
    "reads_of (UART0_DR base) h6 = reads_of (UART0_DR base) h5"
    "sent_on (UART0_DR base) h6 = sent_on (UART0_DR base) h5 @ [ucast (char_code ?d)]" using send by blast
  have "negotiate dev base h = (if bad_size s then negotiate dev base h6 else Some (s, h6))"
    by (subst negotiate.simps) (use h1(1) h2(1) h3(1) h4(1) h5(1) h6(1) in \<open>simp split: if_splits\<close>)
  moreover have "sent_on (UART0_DR base) h6 = sent_on (UART0_DR base) h @ request_bytes @ (if bad_size s then refusal else acceptance)"
    using h1(3) h2(3) h3(3) h4(3) h5(3) h6(3) by (simp add: request_bytes_def refusal_def acceptance_def char_code_byte)
  ultimately show ?thesis using h4(2) h5(2) h6(2) by (intro exI [of _ h6]) simp
qed

lemma negotiate_retries:
  assumes "serial_line dev base stream" "reads_of (UART0_DR base) h = n"
    and "\<forall>i < k. bad_size (size_at stream (n + 4 * i))" "\<not> bad_size (size_at stream (n + 4 * k))"
  shows "\<exists>h'. negotiate dev base h = Some (size_at stream (n + 4 * k), h') \<and>
    reads_of (UART0_DR base) h' = n + 4 * k + 4 \<and>
    sent_on (UART0_DR base) h' = sent_on (UART0_DR base) h @ concat (replicate k (request_bytes @ refusal)) @
      request_bytes @ acceptance"
  using assms(2-)
proof (induction k arbitrary: h n)
  case 0
  then show ?case using ask_and_answer [OF assms(1) 0(1)] by auto
next
  case (Suc k)
  have bad: "bad_size (size_at stream n)" using Suc.prems(2) by force
  obtain h1 where h1: "reads_of (UART0_DR base) h1 = n + 4"
      "sent_on (UART0_DR base) h1 = sent_on (UART0_DR base) h @ request_bytes @ refusal"
      "negotiate dev base h = negotiate dev base h1"
    using ask_and_answer [OF assms(1) Suc.prems(1)] bad by auto
  have rest: "\<forall>i < k. bad_size (size_at stream (n + 4 + 4 * i))"
  proof (intro allI impI)
    fix i assume "i < k"
    then show "bad_size (size_at stream (n + 4 + 4 * i))" using Suc.prems(2) [rule_format, of "Suc i"] by (simp add: add.assoc)
  qed
  have last: "\<not> bad_size (size_at stream (n + 4 + 4 * k))" using Suc.prems(3) by (simp add: add.assoc)
  show ?case using Suc.IH [OF h1(1) rest last] h1(2,3) by (auto simp: add.assoc)
qed

lemma read_image_reads:
  assumes "serial_line dev base stream" "reads_of (UART0_DR base) h = n"
  shows "\<exists>h'. read_image k dev base p mem h = Some (patch p (map (\<lambda>i. stream (n + i)) [0..<k]) mem, h') \<and>
    reads_of (UART0_DR base) h' = n + k \<and> sent_on (UART0_DR base) h' = sent_on (UART0_DR base) h"
  using assms(2)
proof (induction k arbitrary: h n p mem)
  case 0
  then show ?case by simp
next
  case (Suc k)
  obtain h1 where h1: "uart_getc dev base h = Some (stream n, h1)" "reads_of (UART0_DR base) h1 = Suc n"
    "sent_on (UART0_DR base) h1 = sent_on (UART0_DR base) h" using uart_getc_gets [OF assms(1) Suc.prems] by blast
  have m: "map (\<lambda>i. stream (n + i)) [0..<Suc k] = stream n # map (\<lambda>i. stream (Suc n + i)) [0..<k]"
    by (simp add: map_upt_Suc del: upt_Suc)
  obtain h2 where h2: "read_image k dev base (p + 1) (mem(p := stream n)) h1 =
      Some (patch (p + 1) (map (\<lambda>i. stream (Suc n + i)) [0..<k]) (mem(p := stream n)), h2)"
    "reads_of (UART0_DR base) h2 = Suc n + k" "sent_on (UART0_DR base) h2 = sent_on (UART0_DR base) h1"
    using Suc.IH [OF h1(2)] by blast
  show ?case unfolding m patch_Cons read_image.simps h1(1)
    using h1(3) h2 by (intro exI [of _ h2]) simp
qed

subsection \<open>Setting up the line\<close>

lemma mailbox_reply_returns:
  assumes "unblocks dev (MBOX_STATUS_at base) MAILBOX_EMPTY"
    and "\<forall>h. n \<le> reads_of (MBOX_READ_at base) h \<longrightarrow> dev h (MBOX_READ_at base) = r"
  shows "\<exists>h'. mailbox_reply dev base r h = Some h' \<and> reads_of (UART0_DR base) h' = reads_of (UART0_DR base) h \<and>
    sent_on (UART0_DR base) h' = sent_on (UART0_DR base) h"
proof (induction "n - reads_of (MBOX_READ_at base) h" arbitrary: h)
  case outer: (0 h)
  obtain h1 where h1: "poll_while dev (MBOX_STATUS_at base) MAILBOX_EMPTY h = Some h1"
      "\<forall>r. r \<noteq> MBOX_STATUS_at base \<longrightarrow> reads_of r h1 = reads_of r h" "\<forall>r. sent_on r h1 = sent_on r h"
    using poll_while_returns [OF assms(1)] by blast
  have "dev h1 (MBOX_READ_at base) = r" using assms(2) outer h1(2) by simp
  then show ?case using h1 by (subst mailbox_reply.simps) (simp add: case_prod_beta Let_def)
next
  case (Suc m h)
  obtain h1 where h1: "poll_while dev (MBOX_STATUS_at base) MAILBOX_EMPTY h = Some h1"
      "\<forall>r. r \<noteq> MBOX_STATUS_at base \<longrightarrow> reads_of r h1 = reads_of r h" "\<forall>r. sent_on r h1 = sent_on r h"
    using poll_while_returns [OF assms(1)] by blast
  let ?h2 = "snd (mmio_read dev (MBOX_READ_at base) h1)"
  have "m = n - reads_of (MBOX_READ_at base) ?h2" using Suc.hyps(2) h1(2) by simp
  from Suc.hyps(1) [OF this] show ?case using h1
    by (subst mailbox_reply.simps) (auto simp: case_prod_beta Let_def)
qed

lemma setup_line_returns:
  assumes "mailbox_answers dev base (mailbox_address mbox)"
  shows "\<exists>h'. setup_line dev base mbox h = Some h' \<and> reads_of (UART0_DR base) h' = reads_of (UART0_DR base) h \<and>
    sent_on (UART0_DR base) h' = sent_on (UART0_DR base) h"
proof -
  let ?r = "mailbox_address mbox"
  obtain n where n: "unblocks dev (MBOX_STATUS_at base) MAILBOX_FULL" "unblocks dev (MBOX_STATUS_at base) MAILBOX_EMPTY"
      "\<forall>h. n \<le> reads_of (MBOX_READ_at base) h \<longrightarrow> dev h (MBOX_READ_at base) = ?r"
    using assms unfolding mailbox_answers_def by blast
  have clock: "\<exists>h'. set_clock dev base mbox h = Some h' \<and> reads_of (UART0_DR base) h' = reads_of (UART0_DR base) h \<and>
    sent_on (UART0_DR base) h' = sent_on (UART0_DR base) h" for h
  proof -
    obtain h1 where h1: "poll_while dev (MBOX_STATUS_at base) MAILBOX_FULL h = Some h1"
        "\<forall>r. r \<noteq> MBOX_STATUS_at base \<longrightarrow> reads_of r h1 = reads_of r h" "\<forall>r. sent_on r h1 = sent_on r h"
      using poll_while_returns [OF n(1)] by blast
    show ?thesis using mailbox_reply_returns [OF n(2,3), of "mmio_write (MBOX_WRITE_at base) ?r h1"] h1
      by (auto simp: set_clock_def Let_def)
  qed
  have pins: "reads_of (UART0_DR base) (map_pins dev base h) = reads_of (UART0_DR base) h"
    "sent_on (UART0_DR base) (map_pins dev base h) = sent_on (UART0_DR base) h" for h
    by (simp_all add: map_pins_def case_prod_beta Let_def)
  show ?thesis using clock [of "mmio_write (AUX_ENABLE base) 0 (mmio_write (UART0_CR base) 0 h)"] pins
    by (auto simp: setup_line_def Let_def)
qed

text \<open>C32: when the line delivers bytes and the mailbox answers, the receiver returns: it refuses every size that is
  out of range and asks again, accepts the first one in range, stores that many of the bytes that follow
  at the load address and nothing anywhere else, and continues there, or, when the image is an ELF file,
  at the entry point its header names.\<close>

theorem receiver_correct:
  assumes "serial_line dev base stream" "mailbox_answers dev base (mailbox_address mbox)"
    and "\<forall>i < k. bad_size (size_at stream (4 * i))" "\<not> bad_size (size_at stream (4 * k))"
    and "reads_of (UART0_DR base) h = 0"
  defines "n \<equiv> nat (sint (size_at stream (4 * k)))"
  shows "\<exists>mem' h'. receiver dev base wordsize mbox loadaddr mem h = Some (entry_point wordsize mem' loadaddr, mem', h') \<and>
    32 \<le> n \<and> n < 2 ^ 30 \<and>
    (\<forall>i < n. mem' (loadaddr + i) = stream (4 * k + 4 + i)) \<and>
    (\<forall>a. a < loadaddr \<or> loadaddr + n \<le> a \<longrightarrow> mem' a = mem a) \<and>
    reads_of (UART0_DR base) h' = 4 * k + 4 + n \<and>
    sent_on (UART0_DR base) h' = sent_on (UART0_DR base) h @ concat (replicate k (request_bytes @ refusal)) @
      request_bytes @ acceptance"
proof -
  obtain h1 where h1: "setup_line dev base mbox h = Some h1" "reads_of (UART0_DR base) h1 = 0"
      "sent_on (UART0_DR base) h1 = sent_on (UART0_DR base) h"
    using setup_line_returns [OF assms(2), of h] assms(5) by auto
  obtain h2 where h2: "negotiate dev base h1 = Some (size_at stream (4 * k), h2)"
      "reads_of (UART0_DR base) h2 = 4 * k + 4"
      "sent_on (UART0_DR base) h2 = sent_on (UART0_DR base) h1 @ concat (replicate k (request_bytes @ refusal)) @
        request_bytes @ acceptance"
    using negotiate_retries [OF assms(1) h1(2), of k] assms(3,4) by auto
  let ?mem = "patch loadaddr (map (\<lambda>i. stream (4 * k + 4 + i)) [0..<n]) mem"
  obtain h3 where h3: "read_image n dev base loadaddr mem h2 = Some (?mem, h3)"
      "reads_of (UART0_DR base) h3 = 4 * k + 4 + n" "sent_on (UART0_DR base) h3 = sent_on (UART0_DR base) h2"
    using read_image_reads [OF assms(1) h2(2)] by blast
  have "receiver dev base wordsize mbox loadaddr mem h = Some (entry_point wordsize ?mem loadaddr, ?mem, h3)"
    using h1(1) h2(1) h3(1) by (simp add: receiver_def n_def)
  moreover have "32 \<le> n" "n < 2 ^ 30" using assms(4) by (auto simp: bad_size_def n_def nat_less_iff)
  moreover have "\<forall>i < n. ?mem (loadaddr + i) = stream (4 * k + 4 + i)" by (simp add: patch_def)
  moreover have "\<forall>a. a < loadaddr \<or> loadaddr + n \<le> a \<longrightarrow> ?mem a = mem a" by (auto simp: patch_def)
  ultimately show ?thesis using h1(3) h2(3) h3(2,3) by (intro exI [of _ ?mem] exI [of _ h3]) simp
qed

text \<open>A line that first offers 7 bytes and then 32; the mailbox answers at once.\<close>

definition demo_stream :: "nat \<Rightarrow> 8 word" where
  "demo_stream n = (if n = 0 then 7 else if n = 4 then 32 else if n < 8 then 0 else of_nat n)"

definition demo_line :: device where
  "demo_line h reg =
     (if reg = UART0_DR 0xFE000000 then ucast (demo_stream (reads_of reg h))
      else if reg = MBOX_READ_at 0xFE000000 then mailbox_address 0x80000 else 0)"

theorem receiver_correct_witness:
  "\<exists>mem' h'. receiver demo_line 0xFE000000 64 0x80000 0x80000 (\<lambda>_. 0) [] = Some (0x80000, mem', h') \<and>
    mem' 0x8001F = 39 \<and> mem' 0x80020 = 0"
proof -
  have never: "unblocks demo_line (UART0_FR 0xFE000000) f" "unblocks demo_line (MBOX_STATUS_at 0xFE000000) f" for f
    unfolding unblocks_def by (intro allI exI [of _ 0]; simp add: demo_line_def receiver_registers)+
  have line: "serial_line demo_line 0xFE000000 demo_stream"
    using never by (simp add: serial_line_def) (simp add: demo_line_def)
  have mbox: "mailbox_answers demo_line 0xFE000000 (mailbox_address 0x80000)"
    using never by (auto simp: mailbox_answers_def demo_line_def receiver_registers)
  have sizes: "size_at demo_stream 0 = 7" "size_at demo_stream 4 = 32"
    by (simp_all add: size_at_def demo_stream_def)
  obtain mem' h' where r: "receiver demo_line 0xFE000000 64 0x80000 0x80000 (\<lambda>_. 0) [] =
      Some (entry_point 64 mem' 0x80000, mem', h')" "\<forall>i < 32. mem' (0x80000 + i) = demo_stream (8 + i)"
      "\<forall>a. a < 0x80000 \<or> 0x80000 + 32 \<le> a \<longrightarrow> mem' a = 0"
    using receiver_correct [OF line mbox, where k = 1 and h = "[]" and wordsize = 64 and loadaddr = "0x80000"
        and mem = "\<lambda>_. 0"] sizes
    by (auto simp: bad_size_def reads_of_def)
  have "mem' 0x80000 = 8" using r(2) [rule_format, of 0] by (simp add: demo_stream_def)
  then have "entry_point 64 mem' 0x80000 = 0x80000" by (simp add: entry_point_def is_elf_def)
  moreover have "mem' 0x8001F = 39" using r(2) [rule_format, of 31] by (simp add: demo_stream_def)
  moreover have "mem' 0x80020 = 0" using r(3) by simp
  ultimately show ?thesis using r(1) by auto
qed

end
