(* ===== verification/CString.thy ===== *)
theory CString
  imports Std
begin

text \<open>
  \<open>class String\<close> (\<open>src/include/String.h\<close>). A string object is the pointer it keeps; the heap is the
  memory and the arrays that are allocated, with their lengths. \<open>new\<close> is the allocator's choice of an
  address for a new array and a parameter; the theorems need that it is none in use.
\<close>

subsection \<open>The heap\<close>

record char_heap =
  chars :: char_memory
  blocks :: "nat \<Rightarrow> nat option"

type_synonym placement = "(nat \<Rightarrow> nat option) \<Rightarrow> nat \<Rightarrow> nat"

definition new_chars :: "placement \<Rightarrow> nat \<Rightarrow> char_heap \<Rightarrow> nat \<times> char_heap" where
  "new_chars new n h = (let p = new (blocks h) n in (p, h\<lparr>blocks := (blocks h)(p \<mapsto> n)\<rparr>))"

definition delete_chars :: "nat \<Rightarrow> char_heap \<Rightarrow> char_heap" where
  "delete_chars p h = (if p = 0 then h else h\<lparr>blocks := (blocks h)(p := None)\<rparr>)"

definition put_char :: "nat \<Rightarrow> char \<Rightarrow> char_heap \<Rightarrow> char_heap" where
  "put_char p c h = h\<lparr>chars := (chars h)(p := c)\<rparr>"

definition copy_string :: "nat \<Rightarrow> nat \<Rightarrow> char_heap \<Rightarrow> char_heap option" where
  "copy_string d s h = map_option (\<lambda>m. h\<lparr>chars := m\<rparr>) (strcpy (chars h) d s)"

subsection \<open>The class\<close>

definition String_new :: "placement \<Rightarrow> char_heap \<Rightarrow> nat \<times> char_heap" where
  "String_new new h = (let (str, h) = new_chars new 1 h in (str, put_char str NUL h))"

definition String_val :: "placement \<Rightarrow> nat \<Rightarrow> char_heap \<Rightarrow> (nat \<times> char_heap) option" where
  "String_val new val h =
     (if val = 0 then let (str, h) = new_chars new 1 h in Some (str, put_char str NUL h)
      else do {
        n \<leftarrow> strlen (chars h) val;
        let (str, h) = new_chars new (n + 1) h;
        h \<leftarrow> copy_string str val h;
        n \<leftarrow> strlen (chars h) val;
        Some (str, put_char (str + n) NUL h)
      })"

definition String_copy :: "placement \<Rightarrow> nat \<Rightarrow> char_heap \<Rightarrow> (nat \<times> char_heap) option" where
  "String_copy new source h = do {
     n \<leftarrow> strlen (chars h) source;
     let (str, h) = new_chars new (n + 1) h;
     h \<leftarrow> copy_string str source h;
     Some (str, h)
   }"

text \<open>The new object's pointer and what is left in the source.\<close>

definition String_move :: "nat \<Rightarrow> nat \<times> nat" where
  "String_move source = (source, 0)"

text \<open>\<open>same\<close>: both sides are the same object.\<close>

definition String_assign :: "placement \<Rightarrow> bool \<Rightarrow> nat \<Rightarrow> nat \<Rightarrow> char_heap \<Rightarrow> (nat \<times> char_heap) option" where
  "String_assign new same str rhs h =
     (if same then Some (str, h)
      else do {
        let h = delete_chars str h;
        n \<leftarrow> strlen (chars h) rhs;
        let (str, h) = new_chars new (n + 1) h;
        h \<leftarrow> copy_string str rhs h;
        Some (str, h)
      })"

definition String_destroy :: "nat \<Rightarrow> char_heap \<Rightarrow> char_heap" where
  "String_destroy str h = delete_chars str h"

definition String_plus :: "placement \<Rightarrow> nat \<Rightarrow> nat \<Rightarrow> char_heap \<Rightarrow> (nat \<times> char_heap) option" where
  "String_plus new lhs rhs h = do {
     n \<leftarrow> strlen (chars h) lhs;
     m \<leftarrow> strlen (chars h) rhs;
     let (buff, h) = new_chars new (n + m + 1) h;
     h \<leftarrow> copy_string buff lhs h;
     h \<leftarrow> map_option (\<lambda>m. h\<lparr>chars := m\<rparr>) (strcat (chars h) buff rhs);
     let h = put_char (buff + (n + m)) NUL h;
     (temp, h) \<leftarrow> String_val new buff h;
     Some (temp, delete_chars buff h)
   }"

text \<open>The two objects' pointers.\<close>

definition String_swp :: "placement \<Rightarrow> nat \<Rightarrow> nat \<Rightarrow> char_heap \<Rightarrow> ((nat \<times> nat) \<times> char_heap) option" where
  "String_swp new str rhs h = do {
     (temp, h) \<leftarrow> String_copy new rhs h;
     (rhs, h) \<leftarrow> String_assign new False rhs str h;
     (str, h) \<leftarrow> String_assign new False str temp h;
     Some ((str, rhs), String_destroy temp h)
   }"

primrec copy_loop :: "nat \<Rightarrow> nat \<Rightarrow> nat \<Rightarrow> nat \<Rightarrow> char_heap \<Rightarrow> char_heap" where
  "copy_loop 0 d s i h = h"
| "copy_loop (Suc r) d s i h = copy_loop r d s (i + 1) (put_char (d + i) (chars h (s + i)) h)"

definition String_copy_to :: "nat \<Rightarrow> nat \<Rightarrow> nat \<Rightarrow> nat \<Rightarrow> char_heap \<Rightarrow> char_heap" where
  "String_copy_to str s len pos h = put_char (s + len) NUL (copy_loop len s (str + pos) 0 h)"

definition push_bk :: "placement \<Rightarrow> char \<Rightarrow> nat \<Rightarrow> char_heap \<Rightarrow> (nat \<times> char_heap) option" where
  "push_bk new a str h = do {
     n \<leftarrow> strlen (chars h) str;
     let (buff, h) = new_chars new (n + 2) h;
     let h = copy_loop n buff str 0 h;
     let h = put_char (buff + n) a h;
     let h = put_char (buff + (n + 1)) NUL h;
     (temp, h) \<leftarrow> String_val new buff h;
     (str, h) \<leftarrow> String_assign new False str temp h;
     Some (str, delete_chars buff (String_destroy temp h))
   }"

text \<open>Of an empty string the array has no element and the terminator is stored before it.\<close>

definition pop_bk :: "placement \<Rightarrow> nat \<Rightarrow> char_heap \<Rightarrow> (nat \<times> char_heap) option" where
  "pop_bk new str h = do {
     n \<leftarrow> strlen (chars h) str;
     let (buff, h) = new_chars new n h;
     let h = copy_loop (n - 1) buff str 0 h;
     let h = put_char (buff + n - 1) NUL h;
     (temp, h) \<leftarrow> String_val new buff h;
     (str, h) \<leftarrow> String_assign new False str temp h;
     Some (str, delete_chars buff (String_destroy temp h))
   }"

definition get_length :: "nat \<Rightarrow> char_heap \<Rightarrow> nat option" where
  "get_length str h = strlen (chars h) str"

subsection \<open>Arrays that do not overlap\<close>

definition in_use :: "char_heap \<Rightarrow> nat set" where
  "in_use h = {a. \<exists>q m. blocks h q = Some m \<and> q \<le> a \<and> a < q + m}"

text \<open>The allocator returns an address that is not null, of an array apart from those in use.\<close>

definition good_placement :: "placement \<Rightarrow> bool" where
  "good_placement new \<longleftrightarrow> (\<forall>B n. finite (dom B) \<longrightarrow> new B n \<noteq> 0 \<and> B (new B n) = None \<and>
     (\<forall>q m a. B q = Some m \<and> q \<le> a \<and> a < q + m \<longrightarrow> \<not> (new B n \<le> a \<and> a < new B n + n)))"

definition string_at :: "char_heap \<Rightarrow> nat \<Rightarrow> string \<Rightarrow> bool" where
  "string_at h p xs \<longleftrightarrow> p \<noteq> 0 \<and> (\<exists>n. blocks h p = Some n \<and> length xs < n) \<and> holds (chars h) p xs"

text \<open>\<open>made h p n h'\<close>: an array of \<open>n\<close> elements has been allocated at \<open>p\<close>; no array in use before has changed.\<close>

definition made :: "char_heap \<Rightarrow> nat \<Rightarrow> nat \<Rightarrow> char_heap \<Rightarrow> bool" where
  "made h p n h' \<longleftrightarrow> p \<noteq> 0 \<and> blocks h p = None \<and> blocks h' = (blocks h)(p \<mapsto> n) \<and>
     (\<forall>a \<in> in_use h. chars h' a = chars h a) \<and> in_use h \<inter> {p..<p + n} = {}"

lemma new_chars_made:
  assumes "good_placement new" "finite (dom (blocks h))"
  shows "\<exists>p h'. new_chars new n h = (p, h') \<and> made h p n h' \<and> chars h' = chars h"
proof -
  let ?p = "new (blocks h) n"
  have "?p \<noteq> 0" "blocks h ?p = None" "in_use h \<inter> {?p..<?p + n} = {}"
    using assms unfolding good_placement_def in_use_def by auto
  then show ?thesis by (simp add: new_chars_def Let_def made_def)
qed

lemma string_at_in_use:
  assumes "string_at h p xs" "p \<le> a" "a \<le> p + length xs"
  shows "a \<in> in_use h"
proof -
  obtain n where "blocks h p = Some n" "length xs < n" using assms(1) unfolding string_at_def by blast
  then show ?thesis using assms(2,3) unfolding in_use_def by fastforce
qed

lemma string_at_length: "string_at h p xs \<Longrightarrow> strlen (chars h) p = Some (length xs)"
  using strlen_loop_holds [of "chars h" p xs 0] by (simp add: string_at_def strlen_def)

text \<open>A string survives what leaves its array alone.\<close>

lemma string_at_cong:
  assumes "string_at h p xs" "blocks h' p = blocks h p" "\<forall>a \<in> in_use h. chars h' a = chars h a"
  shows "string_at h' p xs"
proof -
  have "holds (chars h') p xs"
    by (rule holds_cong [of "chars h"]) (use assms string_at_in_use [OF assms(1)] in \<open>auto simp: string_at_def\<close>)
  then show ?thesis using assms(1,2) by (simp add: string_at_def)
qed

lemma made_string_at: "made h p n h' \<Longrightarrow> string_at h q xs \<Longrightarrow> string_at h' q xs"
  by (rule string_at_cong) (auto simp: made_def string_at_def)

lemma made_finite: "made h p n h' \<Longrightarrow> finite (dom (blocks h)) \<Longrightarrow> finite (dom (blocks h'))"
  by (simp add: made_def)

text \<open>Writing inside the new array keeps \<open>made\<close>.\<close>

lemma made_write:
  assumes "made h p n h'" "blocks h'' = blocks h'" "\<forall>a. a \<notin> {p..<p + n} \<longrightarrow> chars h'' a = chars h' a"
  shows "made h p n h''"
proof -
  have "chars h'' a = chars h a" if "a \<in> in_use h" for a
  proof -
    have "a \<notin> {p..<p + n}" using that assms(1) unfolding made_def by blast
    then show ?thesis using that assms(1,3) by (simp add: made_def)
  qed
  then show ?thesis using assms(1,2) by (simp add: made_def)
qed

text \<open>Copying a string into a new array.\<close>

lemma copy_made:
  assumes "made h p n h1" "string_at h q xs" "length xs < n"
  shows "\<exists>h2. copy_string p q h1 = Some h2 \<and> made h p n h2 \<and> string_at h2 p xs"
proof -
  have q: "string_at h1 q xs" by (rule made_string_at [OF assms(1,2)])
  have "p + length xs < q \<or> q + length xs < p"
  proof (rule ccontr)
    assume "\<not> (p + length xs < q \<or> q + length xs < p)"
    then have "max p q \<in> in_use h" "max p q \<in> {p..<p + n}"
      using string_at_in_use [OF assms(2), of "max p q"] assms(3) by auto
    then show False using assms(1) unfolding made_def by blast
  qed
  then obtain m where m: "strcpy (chars h1) p q = Some m" "holds m p xs"
      "\<forall>a. a < p \<or> p + length xs < a \<longrightarrow> m a = chars h1 a"
    using strcpy_holds [of "chars h1" q xs p] q unfolding string_at_def by force
  have "made h p n (h1\<lparr>chars := m\<rparr>)"
    by (rule made_write [OF assms(1)]) (use m(3) assms(3) in auto)
  moreover have "string_at (h1\<lparr>chars := m\<rparr>) p xs"
    using assms(1,3) m(2) by (auto simp: string_at_def made_def)
  ultimately show ?thesis using m(1) by (simp add: copy_string_def)
qed

lemma String_copy_made:
  assumes "good_placement new" "finite (dom (blocks h))" "string_at h q xs"
  shows "\<exists>p h'. String_copy new q h = Some (p, h') \<and> made h p (length xs + 1) h' \<and> string_at h' p xs"
proof -
  obtain p h1 where h1: "new_chars new (length xs + 1) h = (p, h1)" "made h p (length xs + 1) h1"
    using new_chars_made [OF assms(1,2)] by blast
  obtain h2 where h2: "copy_string p q h1 = Some h2" "made h p (length xs + 1) h2" "string_at h2 p xs"
    using copy_made [OF h1(2) assms(3)] by auto
  show ?thesis using h1(1) h2 string_at_length [OF assms(3)] by (simp add: String_copy_def)
qed

lemma String_val_made:
  assumes "good_placement new" "finite (dom (blocks h))" "string_at h q xs"
  shows "\<exists>p h'. String_val new q h = Some (p, h') \<and> made h p (length xs + 1) h' \<and> string_at h' p xs"
proof -
  obtain p h1 where h1: "new_chars new (length xs + 1) h = (p, h1)" "made h p (length xs + 1) h1"
    using new_chars_made [OF assms(1,2)] by blast
  obtain h2 where h2: "copy_string p q h1 = Some h2" "made h p (length xs + 1) h2" "string_at h2 p xs"
    using copy_made [OF h1(2) assms(3)] by auto
  have nul: "chars h2 (p + length xs) = NUL"
    using h2(3) holds_append [of "chars h2" p xs "[]"] by (simp add: string_at_def)
  then have "put_char (p + length xs) NUL h2 = h2" by (simp add: put_char_def fun_upd_idem)
  moreover have "q \<noteq> 0" using assms(3) by (simp add: string_at_def)
  ultimately show ?thesis
    using h1(1) h2 string_at_length [OF assms(3)] string_at_length [OF made_string_at [OF h2(2) assms(3)]]
    by (simp add: String_val_def)
qed

text \<open>Assignment from another string frees the old array and makes a new one.\<close>

lemma String_assign_made:
  assumes "good_placement new" "finite (dom (blocks h))" "string_at h q xs" "p \<noteq> q" "p \<noteq> 0"
  shows "\<exists>p' h'. String_assign new False p q h = Some (p', h') \<and>
    made (h\<lparr>blocks := (blocks h)(p := None)\<rparr>) p' (length xs + 1) h' \<and> string_at h' p' xs"
proof -
  let ?h = "h\<lparr>blocks := (blocks h)(p := None)\<rparr>"
  have q: "string_at ?h q xs" using assms(3,4) by (simp add: string_at_def)
  have fin: "finite (dom (blocks ?h))" using assms(2) by simp
  obtain p' h1 where h1: "new_chars new (length xs + 1) ?h = (p', h1)" "made ?h p' (length xs + 1) h1"
    using new_chars_made [OF assms(1) fin] by blast
  obtain h2 where h2: "copy_string p' q h1 = Some h2" "made ?h p' (length xs + 1) h2" "string_at h2 p' xs"
    using copy_made [OF h1(2) q] by auto
  show ?thesis using h1(1) h2 string_at_length [OF q] assms(5)
    by (simp add: String_assign_def delete_chars_def)
qed

text \<open>The assignment of a temporary made from an array, which is then freed, as \<open>push_bk\<close> and \<open>pop_bk\<close> end.\<close>

definition replaced :: "char_heap \<Rightarrow> nat \<Rightarrow> nat \<Rightarrow> string \<Rightarrow> char_heap \<Rightarrow> bool" where
  "replaced h p p' ys h' \<longleftrightarrow> string_at h' p' ys \<and> blocks h' = (blocks h)(p := None, p' \<mapsto> length ys + 1) \<and>
     (p' = p \<or> blocks h p' = None) \<and> (\<forall>q zs. q \<noteq> p \<longrightarrow> string_at h q zs \<longrightarrow> string_at h' q zs)"

lemma replace_by:
  assumes "good_placement new" "finite (dom (blocks h))" "p \<noteq> 0" "blocks h p \<noteq> None"
    and "made h b n h1" "string_at h1 b ys"
  shows "\<exists>t h2 p' h3. String_val new b h1 = Some (t, h2) \<and> String_assign new False p t h2 = Some (p', h3) \<and>
    replaced h p p' ys (delete_chars b (String_destroy t h3))"
proof -
  obtain t h2 where h2: "String_val new b h1 = Some (t, h2)" "made h1 t (length ys + 1) h2" "string_at h2 t ys"
    using String_val_made [OF assms(1) made_finite [OF assms(5,2)] assms(6)] by blast
  have ne: "b \<noteq> 0" "t \<noteq> 0" "b \<noteq> p" "t \<noteq> b" "t \<noteq> p" "blocks h b = None" "blocks h t = None"
    using assms(4,5) h2(2) by (auto simp: made_def split: if_splits)
  let ?h = "h2\<lparr>blocks := (blocks h2)(p := None)\<rparr>"
  obtain p' h3 where h3: "String_assign new False p t h2 = Some (p', h3)" "made ?h p' (length ys + 1) h3" "string_at h3 p' ys"
    using String_assign_made [OF assms(1) made_finite [OF h2(2) made_finite [OF assms(5,2)]] h2(3)] ne(5) assms(3) by metis
  have b2: "blocks h2 = (blocks h)(b \<mapsto> n, t \<mapsto> length ys + 1)" using assms(5) h2(2) by (simp add: made_def)
  have ne': "p' \<noteq> t" "p' \<noteq> b" using h3(2) ne b2 by (auto simp: made_def)
  let ?e = "delete_chars b (String_destroy t h3)"
  have e: "chars ?e = chars h3" "blocks ?e = (blocks h3)(t := None, b := None)"
    using ne(1,2) by (simp_all add: String_destroy_def delete_chars_def)
  have b3: "blocks h3 = (blocks h2)(p := None, p' \<mapsto> length ys + 1)" using h3(2) by (simp add: made_def)
  have blocks: "blocks ?e = (blocks h)(p := None, p' \<mapsto> length ys + 1)"
    unfolding e b3 b2 using ne ne' by (auto simp: fun_eq_iff)
  have "blocks (h2\<lparr>blocks := (blocks h2)(p := None)\<rparr>) p' = None" using h3(2) unfolding made_def by blast
  then have placed: "p' = p \<or> blocks h p' = None" using b2 ne' by (auto split: if_splits)
  have keep: "string_at ?e q zs" if "string_at h3 q zs" "q \<noteq> t" "q \<noteq> b" for q zs
    using that e by (simp add: string_at_def)
  have "string_at ?e q zs" if q: "q \<noteq> p" "string_at h q zs" for q zs
  proof (rule keep)
    have "string_at h2 q zs" using made_string_at [OF h2(2) made_string_at [OF assms(5) q(2)]] .
    then have "string_at ?h q zs" using q(1) by (simp add: string_at_def)
    then show "string_at h3 q zs" by (rule made_string_at [OF h3(2)])
    show "q \<noteq> t" "q \<noteq> b" using q(2) ne(6,7) by (auto simp: string_at_def)
  qed
  then have "replaced h p p' ys ?e" using keep [OF h3(3) ne'] blocks placed by (simp add: replaced_def)
  then show ?thesis using h2(1) h3(1) by blast
qed

lemma copy_loop_copies:
  assumes "d + i + r \<le> s + i \<or> s + i + r \<le> d + i"
  shows "copy_loop r d s i h =
    h\<lparr>chars := (\<lambda>a. if d + i \<le> a \<and> a < d + i + r then chars h (s + (a - d)) else chars h a)\<rparr>"
  using assms
proof (induction r arbitrary: i h)
  case 0
  have "chars h = (\<lambda>a. if d + i \<le> a \<and> a < d + i then chars h (s + (a - d)) else chars h a)" by (auto simp: fun_eq_iff)
  then show ?case by simp
next
  case (Suc r)
  let ?h = "put_char (d + i) (chars h (s + i)) h"
  have "(\<lambda>a. if d + Suc i \<le> a \<and> a < d + Suc i + r then chars ?h (s + (a - d)) else chars ?h a) =
      (\<lambda>a. if d + i \<le> a \<and> a < d + i + Suc r then chars h (s + (a - d)) else chars h a)"
    using Suc.prems by (auto simp: put_char_def fun_eq_iff)
  moreover have "d + Suc i + r \<le> s + Suc i \<or> s + Suc i + r \<le> d + Suc i" using Suc.prems by auto
  ultimately show ?case using Suc.IH [of "Suc i" ?h] by (simp add: put_char_def)
qed

text \<open>A new array filled with the first characters of a string and a terminated rest.\<close>

lemma filled_made:
  assumes "made h b n h1" "chars h1 = chars h" "string_at h p xs" "k \<le> length xs" "k + length ys < n" "NUL \<notin> set ys"
    and "chars h2 = (\<lambda>a. if b \<le> a \<and> a < b + k then chars h1 (p + (a - b))
       else if b + k \<le> a \<and> a < b + k + length ys then ys ! (a - (b + k)) else if a = b + (k + length ys) then NUL else chars h1 a)"
    and "blocks h2 = blocks h1"
  shows "made h b n h2" "string_at h2 b (take k xs @ ys)"
proof -
  show m: "made h b n h2"
    by (rule made_write [OF assms(1,8)]) (use assms(5) in \<open>auto simp: assms(7)\<close>)
  have p: "chars h (p + i) = xs ! i \<and> xs ! i \<noteq> NUL" if "i < length xs" for i
    using assms(3) that holds_append [of "chars h" p xs "[]"] by (simp add: string_at_def)
  have y: "ys ! i \<noteq> NUL" if "i < length ys" for i using assms(6) that by (metis nth_mem)
  have "holds (chars h2) b ((take k xs @ ys) @ [])"
    unfolding holds_append using p y assms(4)
    by (auto simp: assms(2,7) nth_append)
  then show "string_at h2 b (take k xs @ ys)" using m assms(4,5) by (auto simp: string_at_def made_def)
qed

lemma apart_new:
  assumes "made h b n h1" "string_at h p xs" "k \<le> n" "k \<le> length xs"
  shows "b + k \<le> p \<or> p + k \<le> b"
proof (rule ccontr)
  assume "\<not> (b + k \<le> p \<or> p + k \<le> b)"
  then have "max b p \<in> {b..<b + n}" "max b p \<in> in_use h"
    using assms(3,4) string_at_in_use [OF assms(2), of "max b p"] by auto
  then show False using assms(1) unfolding made_def by blast
qed

text \<open>\<open>push_bk\<close> appends the character: the object gets a new array that holds the longer string, its old
  array and the two temporaries are freed, every other string is as it was.\<close>

theorem push_bk_correct:
  assumes "good_placement new" "finite (dom (blocks h))" "string_at h p xs" "a \<noteq> NUL"
  shows "\<exists>p' h'. push_bk new a p h = Some (p', h') \<and> replaced h p p' (xs @ [a]) h'"
proof -
  obtain b h1 where h1: "new_chars new (length xs + 2) h = (b, h1)" "made h b (length xs + 2) h1" "chars h1 = chars h"
    using new_chars_made [OF assms(1,2)] by blast
  let ?h2 = "put_char (b + (length xs + 1)) NUL (put_char (b + length xs) a (copy_loop (length xs) b p 0 h1))"
  have apart: "b + length xs \<le> p \<or> p + length xs \<le> b" by (rule apart_new [OF h1(2) assms(3)]) simp_all
  have loop: "copy_loop (length xs) b p 0 h1 =
      h1\<lparr>chars := (\<lambda>a. if b \<le> a \<and> a < b + length xs then chars h1 (p + (a - b)) else chars h1 a)\<rparr>"
    using copy_loop_copies [of b 0 "length xs" p h1] apart by simp
  note fill = filled_made [OF h1(2,3) assms(3), of "length xs" "[a]" ?h2]
  have m: "made h b (length xs + 2) ?h2" "string_at ?h2 b (xs @ [a])"
    using fill assms(4) by (simp_all add: loop put_char_def fun_eq_iff)
  have old: "p \<noteq> 0" "blocks h p \<noteq> None" using assms(3) by (auto simp: string_at_def)
  show ?thesis using replace_by [OF assms(1,2) old m] h1(1) string_at_length [OF assms(3)]
    by (auto simp: push_bk_def)
qed

text \<open>An allocator that places every array behind all others, and a heap with one string.\<close>

definition place_behind :: placement where
  "place_behind B n = Suc (Max (insert 0 ((\<lambda>q. q + the (B q)) ` dom B)))"

lemma place_behind_good: "good_placement place_behind"
  unfolding good_placement_def
proof (intro allI impI conjI)
  fix B :: "nat \<Rightarrow> nat option" and n assume fin: "finite (dom B)"
  have above: "q + m < place_behind B n" if "B q = Some m" for q m
  proof -
    have "q + m \<in> insert 0 ((\<lambda>q. q + the (B q)) ` dom B)" using that by force
    then show ?thesis unfolding place_behind_def using fin by (intro le_imp_less_Suc Max_ge) simp_all
  qed
  show "place_behind B n \<noteq> 0" by (simp add: place_behind_def)
  show "B (place_behind B n) = None"
  proof (rule ccontr)
    assume "B (place_behind B n) \<noteq> None"
    then show False using above [of "place_behind B n"] by auto
  qed
  show "\<not> (place_behind B n \<le> a \<and> a < place_behind B n + n)" if "B q = Some m \<and> q \<le> a \<and> a < q + m" for q m a
    using above [of q m] that by auto
qed

definition one_string :: char_heap where
  "one_string = \<lparr>chars = (\<lambda>_. NUL)(8 := CHR ''h'', 9 := CHR ''i''), blocks = [8 \<mapsto> 3]\<rparr>"

lemma one_string_at: "string_at one_string 8 ''hi''" "finite (dom (blocks one_string))"
  by (simp_all add: string_at_def one_string_def)

theorem push_bk_correct_witness:
  "\<exists>p h. push_bk place_behind CHR ''!'' 8 one_string = Some (p, h) \<and> string_at h p ''hi!''"
  using push_bk_correct [OF place_behind_good one_string_at(2,1), of "CHR ''!''"] by (auto simp: replaced_def)

text \<open>\<open>pop_bk\<close> drops the last character of a string that has one, in the same way.\<close>

theorem pop_bk_correct:
  assumes "good_placement new" "finite (dom (blocks h))" "string_at h p xs" "xs \<noteq> []"
  shows "\<exists>p' h'. pop_bk new p h = Some (p', h') \<and> replaced h p p' (butlast xs) h'"
proof -
  obtain k where k: "length xs = Suc k" using assms(4) by (cases xs) simp_all
  obtain b h1 where h1: "new_chars new (Suc k) h = (b, h1)" "made h b (Suc k) h1" "chars h1 = chars h"
    using new_chars_made [OF assms(1,2)] by blast
  let ?h2 = "put_char (b + k) NUL (copy_loop k b p 0 h1)"
  have apart: "b + k \<le> p \<or> p + k \<le> b" by (rule apart_new [OF h1(2) assms(3)]) (simp_all add: k)
  have loop: "copy_loop k b p 0 h1 =
      h1\<lparr>chars := (\<lambda>a. if b \<le> a \<and> a < b + k then chars h1 (p + (a - b)) else chars h1 a)\<rparr>"
    using copy_loop_copies [of b 0 k p h1] apart by simp
  note fill = filled_made [OF h1(2,3) assms(3), of k "[]" ?h2]
  have m: "made h b (Suc k) ?h2" "string_at ?h2 b (take k xs)"
    using fill k by (simp_all add: loop put_char_def fun_eq_iff)
  then have s: "string_at ?h2 b (butlast xs)" by (simp add: butlast_conv_take k)
  have old: "p \<noteq> 0" "blocks h p \<noteq> None" using assms(3) by (auto simp: string_at_def)
  show ?thesis using replace_by [OF assms(1,2) old m(1) s] h1(1) string_at_length [OF assms(3)]
    by (auto simp: pop_bk_def k)
qed

theorem pop_bk_correct_witness:
  "\<exists>p h. pop_bk place_behind 8 one_string = Some (p, h) \<and> string_at h p ''h''"
  using pop_bk_correct [OF place_behind_good one_string_at(2,1)] by (auto simp: replaced_def)

lemma strlen_NUL: "mem s = NUL \<Longrightarrow> strlen mem s = Some 0"
  by (simp add: strlen_def strlen_loop.simps)

lemma strcpy_NUL: "mem s = NUL \<Longrightarrow> strcpy mem d s = Some (mem(d := NUL))"
  by (subst strcpy.simps) simp

text \<open>\<open>pop_bk\<close> of an empty string allocates an array without elements and stores a null character before
  it, whatever lies there.\<close>

theorem pop_bk_empty:
  assumes "string_at h p []" "b = new (blocks h) 0" "b \<noteq> 0" "chars h b = NUL"
  shows "\<exists>p' h'. pop_bk new p h = Some (p', h') \<and> chars h' (b - 1) = NUL"
  using assms strlen_NUL [of "chars h" p]
  by (auto simp: pop_bk_def new_chars_def Let_def put_char_def String_val_def copy_string_def strlen_NUL strcpy_NUL
      String_assign_def delete_chars_def String_destroy_def string_at_def)

theorem pop_bk_empty_witness:
  "\<exists>p h. pop_bk (\<lambda>B n. 10) 5 \<lparr>chars = (\<lambda>_. NUL)(9 := CHR ''x''), blocks = [5 \<mapsto> 1, 8 \<mapsto> 2]\<rparr> = Some (p, h) \<and> chars h 9 = NUL"
  using pop_bk_empty [of "\<lparr>chars = (\<lambda>_. NUL)(9 := CHR ''x''), blocks = [5 \<mapsto> 1, 8 \<mapsto> 2]\<rparr>" 5 10 "\<lambda>B n. 10"]
  by (simp add: string_at_def)

text \<open>\<open>+\<close> makes a new string of both; its temporary array is freed and no other string changes.\<close>

theorem plus_correct:
  assumes "good_placement new" "finite (dom (blocks h))" "string_at h p xs" "string_at h q ys"
  shows "\<exists>t h'. String_plus new p q h = Some (t, h') \<and> string_at h' t (xs @ ys) \<and>
    blocks h' = (blocks h)(t \<mapsto> length xs + length ys + 1) \<and> (\<forall>r zs. string_at h r zs \<longrightarrow> string_at h' r zs)"
proof -
  let ?n = "length xs + length ys + 1"
  obtain b h1 where h1: "new_chars new ?n h = (b, h1)" "made h b ?n h1"
    using new_chars_made [OF assms(1,2)] by blast
  obtain h2 where h2: "copy_string b p h1 = Some h2" "made h b ?n h2" "string_at h2 b xs"
    using copy_made [OF h1(2) assms(3)] by auto
  have q: "string_at h2 q ys" by (rule made_string_at [OF h2(2) assms(4)])
  have "b + length xs + length ys < q \<or> q + length ys < b + length xs"
  proof (rule ccontr)
    assume "\<not> (b + length xs + length ys < q \<or> q + length ys < b + length xs)"
    then have "max (b + length xs) q \<in> in_use h" "max (b + length xs) q \<in> {b..<b + ?n}"
      using string_at_in_use [OF assms(4), of "max (b + length xs) q"] by auto
    then show False using h2(2) unfolding made_def by blast
  qed
  then obtain m where m: "strcat_loop (chars h2) b q (length xs) 0 = Some m" "holds m (b + length xs) ys"
      "\<forall>a. a < b + length xs \<or> b + length xs + length ys < a \<longrightarrow> m a = chars h2 a"
    using strcat_loop_holds [of "chars h2" q 0 ys b "length xs"] q unfolding string_at_def by auto
  let ?h3 = "h2\<lparr>chars := m\<rparr>"
  have cat: "strcat (chars h2) b q = Some m"
    using m(1) h2(3) strlen_loop_holds [of "chars h2" b xs 0] by (simp add: strcat_def string_at_def)
  have "holds (chars h2) b (xs @ [])" using h2(3) by (simp add: string_at_def)
  then have hold: "holds m b (xs @ ys)" using m(2,3) by (simp only: holds_append) simp
  have h3: "made h b ?n ?h3" by (rule made_write [OF h2(2)]) (use m(3) in auto)
  have s3: "string_at ?h3 b (xs @ ys)" using hold h3 by (auto simp: string_at_def made_def)
  have "m (b + (length xs + length ys)) = NUL"
    using hold holds_append [of m b "xs @ ys" "[]"] by simp
  then have idem: "put_char (b + (length xs + length ys)) NUL ?h3 = ?h3" by (simp add: put_char_def fun_upd_idem)
  obtain t h4 where h4: "String_val new b ?h3 = Some (t, h4)" "made ?h3 t ?n h4" "string_at h4 t (xs @ ys)"
    using String_val_made [OF assms(1) made_finite [OF h3 assms(2)] s3] by auto
  have ne: "b \<noteq> 0" "t \<noteq> b" "blocks h b = None" "blocks h t = None"
    using h3 h4(2) by (auto simp: made_def split: if_splits)
  let ?e = "delete_chars b h4"
  have e: "chars ?e = chars h4" "blocks ?e = (blocks h4)(b := None)" using ne(1) by (simp_all add: delete_chars_def)
  have "string_at ?e r zs" if "string_at h r zs" for r zs
  proof -
    have "r \<noteq> b" using that ne(3) by (auto simp: string_at_def)
    then show ?thesis using made_string_at [OF h4(2) made_string_at [OF h3 that]] e by (simp add: string_at_def)
  qed
  moreover have "blocks ?e = (blocks h)(t \<mapsto> ?n)"
    using h3 h4(2) ne unfolding e by (auto simp: made_def fun_eq_iff)
  moreover have "string_at ?e t (xs @ ys)" using h4(3) ne(2) e by (simp add: string_at_def)
  moreover have "String_plus new p q h = Some (t, ?e)"
    using h1(1) h2(1) cat h4(1) string_at_length [OF assms(3)] string_at_length [OF assms(4)]
    by (simp add: String_plus_def idem)
  ultimately show ?thesis by blast
qed

theorem plus_correct_witness:
  "\<exists>t h. String_plus place_behind 8 8 one_string = Some (t, h) \<and> string_at h t ''hihi''"
  using plus_correct [OF place_behind_good one_string_at(2,1,1)] by auto

text \<open>\<open>swp\<close> exchanges the texts of two strings; the temporary is freed and no other string changes.\<close>

theorem swp_correct:
  assumes "good_placement new" "finite (dom (blocks h))" "string_at h p xs" "string_at h q ys" "p \<noteq> q"
  shows "\<exists>p' q' h'. String_swp new p q h = Some ((p', q'), h') \<and> string_at h' p' ys \<and> string_at h' q' xs \<and>
    (\<forall>r zs. r \<noteq> p \<longrightarrow> r \<noteq> q \<longrightarrow> string_at h r zs \<longrightarrow> string_at h' r zs)"
proof -
  obtain t h1 where h1: "String_copy new q h = Some (t, h1)" "made h t (length ys + 1) h1" "string_at h1 t ys"
    using String_copy_made [OF assms(1,2,4)] by blast
  have ne: "p \<noteq> 0" "q \<noteq> 0" "t \<noteq> 0" "t \<noteq> p" "t \<noteq> q" "blocks h t = None"
    using h1(2) assms(3,4) by (auto simp: made_def string_at_def)
  have fin1: "finite (dom (blocks h1))" by (rule made_finite [OF h1(2) assms(2)])
  let ?g1 = "h1\<lparr>blocks := (blocks h1)(q := None)\<rparr>"
  have p1: "string_at h1 p xs" by (rule made_string_at [OF h1(2) assms(3)])
  obtain q' h2 where h2: "String_assign new False q p h1 = Some (q', h2)" "made ?g1 q' (length xs + 1) h2" "string_at h2 q' xs"
    using String_assign_made [OF assms(1) fin1 p1 assms(5) [symmetric] ne(2)] by blast
  have fin2: "finite (dom (blocks h2))" by (rule made_finite [OF h2(2)]) (simp add: fin1)
  have keep1: "string_at h2 r zs" if "string_at h1 r zs" "r \<noteq> q" for r zs
    by (rule made_string_at [OF h2(2)]) (use that in \<open>simp add: string_at_def\<close>)
  have t2: "string_at h2 t ys" by (rule keep1 [OF h1(3) ne(5)])
  let ?g2 = "h2\<lparr>blocks := (blocks h2)(p := None)\<rparr>"
  obtain p' h3 where h3: "String_assign new False p t h2 = Some (p', h3)" "made ?g2 p' (length ys + 1) h3" "string_at h3 p' ys"
    using String_assign_made [OF assms(1) fin2 t2 ne(4) [symmetric] ne(1)] by blast
  have keep2: "string_at h3 r zs" if "string_at h2 r zs" "r \<noteq> p" for r zs
    by (rule made_string_at [OF h3(2)]) (use that in \<open>simp add: string_at_def\<close>)
  have used: "blocks ?g1 p \<noteq> None" "blocks ?g1 t \<noteq> None"
    using p1 h1(3) assms(5) ne(5) by (auto simp: string_at_def)
  then have q': "q' \<noteq> p" "q' \<noteq> t" using h2(2) unfolding made_def by metis+
  have "blocks ?g2 t \<noteq> None" using t2 ne(4) by (auto simp: string_at_def)
  then have p': "p' \<noteq> t" using h3(2) unfolding made_def by metis
  let ?e = "String_destroy t h3"
  have keep3: "string_at ?e r zs" if "string_at h3 r zs" "r \<noteq> t" for r zs
    using that ne(3) by (simp add: string_at_def String_destroy_def delete_chars_def)
  have "string_at ?e r zs" if r: "r \<noteq> p" "r \<noteq> q" "string_at h r zs" for r zs
  proof -
    have "r \<noteq> t" using r(3) ne(6) by (auto simp: string_at_def)
    then show ?thesis using keep3 keep2 keep1 made_string_at [OF h1(2) r(3)] r(1,2) by blast
  qed
  moreover have "string_at ?e p' ys" by (rule keep3 [OF h3(3) p'])
  moreover have "string_at ?e q' xs" by (rule keep3 [OF keep2 [OF h2(3) q'(1)] q'(2)])
  ultimately show ?thesis using h1(1) h2(1) h3(1) by (auto simp: String_swp_def)
qed

definition two_strings :: char_heap where
  "two_strings = \<lparr>chars = (\<lambda>_. NUL)(8 := CHR ''a'', 16 := CHR ''b''), blocks = [8 \<mapsto> 2, 16 \<mapsto> 2]\<rparr>"

theorem swp_correct_witness:
  "\<exists>p q h. String_swp place_behind 8 16 two_strings = Some ((p, q), h) \<and> string_at h p ''b'' \<and> string_at h q ''a''"
proof -
  have "string_at two_strings 8 ''a''" "string_at two_strings 16 ''b''" "finite (dom (blocks two_strings))"
    by (simp_all add: string_at_def two_strings_def)
  then show ?thesis using swp_correct [OF place_behind_good, of two_strings 8 "''a''" 16 "''b''"] by auto
qed

text \<open>C40: \<open>pop_bk\<close> undoes \<open>push_bk\<close>: the object holds its old text in an array of its own, nothing else is left
  allocated, and every other string is as it was.\<close>

theorem push_pop_round_trip:
  assumes "good_placement new" "finite (dom (blocks h))" "string_at h p xs" "a \<noteq> NUL"
  shows "\<exists>p1 h1 p2 h2. push_bk new a p h = Some (p1, h1) \<and> pop_bk new p1 h1 = Some (p2, h2) \<and>
    replaced h p p2 xs h2 \<and> get_length p2 h2 = Some (length xs)"
proof -
  obtain p1 h1 where h1: "push_bk new a p h = Some (p1, h1)" "replaced h p p1 (xs @ [a]) h1"
    using push_bk_correct [OF assms] by blast
  note r1 = h1(2) [unfolded replaced_def]
  have fin: "finite (dom (blocks h1))" using r1 assms(2) by simp
  obtain p2 h2 where h2: "pop_bk new p1 h1 = Some (p2, h2)" "replaced h1 p1 p2 (butlast (xs @ [a])) h2"
    using pop_bk_correct [OF assms(1) fin, of p1 "xs @ [a]"] r1 by auto
  note r2 = h2(2) [unfolded replaced_def]
  have "(blocks h1)(p1 := None) = (blocks h)(p := None)" using r1 by (auto simp: fun_eq_iff)
  then have "blocks h2 = (blocks h)(p := None, p2 \<mapsto> length xs + 1)" using r2 by simp
  moreover have "string_at h2 q zs" if q: "q \<noteq> p" "string_at h q zs" for q zs
  proof -
    have "q \<noteq> p1" using r1 q by (auto simp: string_at_def)
    then show ?thesis using r1 r2 q by blast
  qed
  moreover have "p2 = p \<or> blocks h p2 = None" using r1 r2 by (auto split: if_splits)
  moreover have "string_at h2 p2 xs" using r2 by simp
  ultimately have "replaced h p p2 xs h2" unfolding replaced_def by blast
  then show ?thesis using h1(1) h2(1) \<open>string_at h2 p2 xs\<close> string_at_length by (auto simp: get_length_def)
qed

theorem push_pop_round_trip_witness:
  "\<exists>p1 h1 p2 h2. push_bk place_behind CHR ''!'' 8 one_string = Some (p1, h1) \<and> pop_bk place_behind p1 h1 = Some (p2, h2) \<and>
    string_at h2 p2 ''hi''"
  using push_pop_round_trip [OF place_behind_good one_string_at(2,1), of "CHR ''!''"] by (fastforce simp: replaced_def)

end
